(* ===== verification/Jos_Base.thy ===== *)
theory Jos_Base
  imports Main "HOL-Library.Word"
begin

text \<open>
  Prelude of the development: the machine integers of the C code, the outcome of a kernel
  function (it returns, it panics, or control leaves the kernel for good), linked lists
  threaded through an array, and the interface of an intrusive free list that both the
  physical page allocator and the environment table implement.
\<close>

unbundle bit_operations_syntax

type_synonym u8 = "8 word"
type_synonym u16 = "16 word"
type_synonym u32 = "32 word"
type_synonym u64 = "64 word"

named_theorems kernel_simps \<open>rewriting of kernel state selectors over updates\<close>
named_theorems mmu_simps \<open>facts on the address and page table entry macros\<close>

section \<open>Outcomes of kernel code\<close>

text \<open>
  A kernel function of C either returns a value in a new state, calls \<open>panic\<close>, or gives the
  CPU away and never comes back to its caller: it enters user mode (\<open>env_run\<close>), halts
  (\<open>sched_halt\<close>), stays in the kernel monitor, or spins on a lock another CPU holds.
\<close>

datatype leave = EnterUser | CpuHalted | InMonitor | Spinning

datatype ('s, 'a) outcome = Ret 'a 's | Panic string | Leave leave 's

fun bindO :: "('s, 'a) outcome \<Rightarrow> ('a \<Rightarrow> 's \<Rightarrow> ('s, 'b) outcome) \<Rightarrow> ('s, 'b) outcome" where
  "bindO (Ret a s) f = f a s"
| "bindO (Panic m) f = Panic m"
| "bindO (Leave l s) f = Leave l s"

text \<open>What holds of the result if the call returns.\<close>

definition returns :: "('s, 'a) outcome \<Rightarrow> ('a \<Rightarrow> 's \<Rightarrow> bool) \<Rightarrow> bool" where
  "returns x P \<longleftrightarrow> (\<exists>a s. x = Ret a s \<and> P a s)"

lemma bindO_eq_Ret: "bindO x f = Ret b t \<longleftrightarrow> (\<exists>a s. x = Ret a s \<and> f a s = Ret b t)"
  by (cases x) auto

lemma bindO_eq_Panic:
  "bindO x f = Panic m \<longleftrightarrow> x = Panic m \<or> (\<exists>a s. x = Ret a s \<and> f a s = Panic m)"
  by (cases x) auto

lemma bindO_eq_Leave:
  "bindO x f = Leave l t \<longleftrightarrow> x = Leave l t \<or> (\<exists>a s. x = Ret a s \<and> f a s = Leave l t)"
  by (cases x) auto

lemma bindO_assoc: "bindO (bindO x f) g = bindO x (\<lambda>a s. bindO (f a s) g)"
  by (cases x) auto

lemma bindO_cong [fundef_cong]:
  "x = y \<Longrightarrow> (\<And>a s. y = Ret a s \<Longrightarrow> f a s = g a s) \<Longrightarrow> bindO x f = bindO y g"
  by (cases y) auto

lemma returnsI: "x = Ret a s \<Longrightarrow> P a s \<Longrightarrow> returns x P"
  by (auto simp: returns_def)

lemma returnsE: "returns x P \<Longrightarrow> (\<And>a s. x = Ret a s \<Longrightarrow> P a s \<Longrightarrow> thesis) \<Longrightarrow> thesis"
  by (auto simp: returns_def)

lemma returns_Ret [simp]: "returns (Ret a s) P = P a s"
  by (simp add: returns_def)

text \<open>
  \<open>wlp x P\<close>: if the call returns, \<open>P\<close> holds of the value and the state it returns (a partial
  statement, used to show what an operation leaves alone on every path).
\<close>

definition wlp :: "('s, 'a) outcome \<Rightarrow> ('a \<Rightarrow> 's \<Rightarrow> bool) \<Rightarrow> bool" where
  "wlp x P \<longleftrightarrow> (\<forall>a s. x = Ret a s \<longrightarrow> P a s)"

lemma wlp_simps [simp]:
  "wlp (Ret a s) P = P a s" "wlp (Panic m) P" "wlp (Leave l s) P"
  by (simp_all add: wlp_def)

lemma wlp_bindO: "wlp (bindO x f) P = wlp x (\<lambda>a s. wlp (f a s) P)"
  by (cases x) (auto simp: wlp_def)

lemma wlp_bindI:
  "wlp x Q \<Longrightarrow> (\<And>a t. Q a t \<Longrightarrow> wlp (f a t) P) \<Longrightarrow> wlp (bindO x f) P"
  by (cases x) (auto simp: wlp_def)

lemma wlp_weaken: "wlp x Q \<Longrightarrow> (\<And>a t. Q a t \<Longrightarrow> P a t) \<Longrightarrow> wlp x P"
  by (simp add: wlp_def)

lemma wlpD: "wlp x P \<Longrightarrow> x = Ret a s \<Longrightarrow> P a s"
  by (simp add: wlp_def)

lemma wlp_if [simp]: "wlp (if b then x else y) P \<longleftrightarrow> (b \<longrightarrow> wlp x P) \<and> (\<not> b \<longrightarrow> wlp y P)"
  by simp

lemma wlp_option:
  "wlp (case r of None \<Rightarrow> x | Some p \<Rightarrow> f p) P \<longleftrightarrow>
    (r = None \<longrightarrow> wlp x P) \<and> (\<forall>p. r = Some p \<longrightarrow> wlp (f p) P)"
  by (cases r) auto

lemmas wlp_rules = wlp_bindO wlp_option Let_def

text \<open>The value a C condition \<open>!x\<close> has: 1 for a zero word, 0 otherwise.\<close>

definition c_not :: "'a::len word \<Rightarrow> 'a word" where
  "c_not x = (if x = 0 then 1 else 0)"

lemma c_not_and_1 [simp]: "(c_not x AND 1 = 0) \<longleftrightarrow> x \<noteq> 0"
  by (simp add: c_not_def)

section \<open>Linked lists through an array\<close>

text \<open>
  \<open>chain nxt h xs\<close>: following the link field \<open>nxt\<close> from the head pointer \<open>h\<close> visits exactly
  the cells \<open>xs\<close>, in this order, and ends at NULL (\<open>None\<close>).
\<close>

fun chain :: "('a \<Rightarrow> 'a option) \<Rightarrow> 'a option \<Rightarrow> 'a list \<Rightarrow> bool" where
  "chain nxt h [] = (h = None)"
| "chain nxt h (x # xs) = (h = Some x \<and> chain nxt (nxt x) xs)"

lemma chain_None [simp]: "chain nxt None xs \<longleftrightarrow> xs = []"
  by (cases xs) auto

lemma chain_Some: "chain nxt (Some x) xs \<longleftrightarrow> (\<exists>ys. xs = x # ys \<and> chain nxt (nxt x) ys)"
  by (cases xs) auto

lemma chain_unique: "chain nxt h xs \<Longrightarrow> chain nxt h ys \<Longrightarrow> xs = ys"
  by (induction xs arbitrary: h ys) (auto simp: chain_Some)

lemma chain_append:
  "chain nxt h (xs @ ys) \<Longrightarrow> \<exists>h'. chain nxt h' ys"
  by (induction xs arbitrary: h) auto

lemma chain_suffix_eq:
  assumes "chain nxt h (x # xs)" and "chain nxt h' (ys @ x # zs)"
  shows "zs = xs"
proof -
  from assms(2) obtain g where "chain nxt g (x # zs)" by (blast dest: chain_append)
  with assms(1) show ?thesis by (auto intro: chain_unique)
qed

lemma chain_distinct: "chain nxt h xs \<Longrightarrow> distinct xs"
proof (induction xs arbitrary: h)
  case Nil
  then show ?case by simp
next
  case (Cons x xs)
  have "x \<notin> set xs"
  proof
    assume "x \<in> set xs"
    then obtain ys zs where xs: "xs = ys @ x # zs" by (meson split_list)
    from Cons.prems have t: "chain nxt (nxt x) (ys @ x # zs)" using xs by simp
    with Cons.prems have "zs = xs" by (rule chain_suffix_eq)
    then show False using xs by (metis append.assoc append_Cons append_self_conv2 length_append
        length_Cons less_add_Suc2 less_irrefl_nat add.commute)
  qed
  with Cons show ?case by auto
qed

lemma chain_cong: "(\<And>x. x \<in> set xs \<Longrightarrow> f x = g x) \<Longrightarrow> chain f h xs = chain g h xs"
  by (induction xs arbitrary: h) auto

lemma chain_frame:
  "p \<notin> set xs \<Longrightarrow> (\<And>q. q \<noteq> p \<Longrightarrow> f q = g q) \<Longrightarrow> chain f h xs = chain g h xs"
  by (rule chain_cong) metis

lemma chain_upd_notin [simp]: "a \<notin> set xs \<Longrightarrow> chain (f(a := y)) h xs = chain f h xs"
  by (rule chain_cong) auto

section \<open>The interface of an intrusive free list\<close>

text \<open>
  Both \<open>page_free_list\<close> (kern/pmap.c) and \<open>env_free_list\<close> (kern/env.c) are singly linked lists
  whose link is a field of the cell. \<open>alloc\<close> hands out the head of the list or fails,
  \<open>release\<close> puts a cell back. The laws are stated over the head and the link field.
\<close>

locale free_list =
  fixes head :: "'s \<Rightarrow> 'a option"
    and link :: "'s \<Rightarrow> 'a \<Rightarrow> 'a option"
    and alloc :: "'s \<Rightarrow> ('s, 'r) outcome"
    and got :: "'r \<Rightarrow> 'a option"
    and release :: "'a \<Rightarrow> 's \<Rightarrow> ('s, unit) outcome"
  assumes alloc_head: "alloc s = Ret r s' \<Longrightarrow> got r = Some x \<Longrightarrow>
      head s = Some x \<and> head s' = link s x \<and> (\<forall>y. y \<noteq> x \<longrightarrow> link s' y = link s y)"
    and alloc_none: "alloc s = Ret r s' \<Longrightarrow> got r = None \<Longrightarrow>
      head s' = head s \<and> link s' = link s"
    and release_head: "release x s = Ret u s' \<Longrightarrow>
      head s' = Some x \<and> link s' x = head s \<and> (\<forall>y. y \<noteq> x \<longrightarrow> link s' y = link s y)"
begin

lemma alloc_chain:
  assumes "chain (link s) (head s) xs" "alloc s = Ret r s'" "got r = Some x"
  shows "xs = x # tl xs \<and> chain (link s') (head s') (tl xs)"
proof -
  from alloc_head [OF assms(2,3)] have h: "head s = Some x" "head s' = link s x"
    and l: "\<And>y. y \<noteq> x \<Longrightarrow> link s' y = link s y" by auto
  from assms(1) h(1) obtain ys where xs: "xs = x # ys" and c: "chain (link s) (link s x) ys"
    by (auto simp: chain_Some)
  from chain_distinct [OF assms(1)] xs have "x \<notin> set ys" by simp
  then have "chain (link s') (link s x) ys = chain (link s) (link s x) ys"
    by (intro chain_cong l) auto
  with c xs h(2) show ?thesis by simp
qed

lemma alloc_chain_none:
  "chain (link s) (head s) xs \<Longrightarrow> alloc s = Ret r s' \<Longrightarrow> got r = None \<Longrightarrow>
    chain (link s') (head s') xs"
  using alloc_none by simp

lemma release_chain:
  assumes "chain (link s) (head s) xs" "release x s = Ret u s'" "x \<notin> set xs"
  shows "chain (link s') (head s') (x # xs)"
proof -
  from release_head [OF assms(2)] have h: "head s' = Some x" "link s' x = head s"
    and l: "\<And>y. y \<noteq> x \<Longrightarrow> link s' y = link s y" by auto
  have "chain (link s') (head s) xs = chain (link s) (head s) xs"
    using assms(3) by (intro chain_cong l) auto
  with assms(1) h show ?thesis by simp
qed

text \<open>Last in, first out: what was released last is handed out next.\<close>

lemma release_alloc_lifo:
  assumes "release x s = Ret u s1" "alloc s1 = Ret r s2" "got r = Some y"
  shows "y = x \<and> head s2 = head s"
  using release_head [OF assms(1)] alloc_head [OF assms(2,3)] by auto

end

end
