(* ===== verification/Jos_Mmu.thy ===== *)
theory Jos_Mmu
  imports Jos_Base
begin

text \<open>
  The address arithmetic of inc/mmu.h, inc/memlayout.h and inc/types.h: the decomposition of a
  linear address into directory index, table index and offset, page table entry flags, the
  layout constants, rounding, segment and gate descriptors.
\<close>

section \<open>Linear addresses (inc/mmu.h)\<close>

definition PGNUM :: "u32 \<Rightarrow> u32" where
  "PGNUM la = drop_bit 12 la"

definition PDX :: "u32 \<Rightarrow> u32" where
  "PDX la = drop_bit 22 la AND 0x3FF"

definition PTX :: "u32 \<Rightarrow> u32" where
  "PTX la = drop_bit 12 la AND 0x3FF"

definition PGOFF :: "u32 \<Rightarrow> u32" where
  "PGOFF la = la AND 0xFFF"

definition PGADDR :: "u32 \<Rightarrow> u32 \<Rightarrow> u32 \<Rightarrow> u32" where
  "PGADDR d t off = (push_bit 22 d OR push_bit 12 t) OR off"

definition PTE_ADDR :: "u32 \<Rightarrow> u32" where
  "PTE_ADDR pte = pte AND NOT 0xFFF"

definition NPDENTRIES :: nat where "NPDENTRIES = 1024"
definition NPTENTRIES :: nat where "NPTENTRIES = 1024"
definition PGSIZE :: u32 where "PGSIZE = 4096"
definition PTSIZE :: u32 where "PTSIZE = PGSIZE * of_nat NPTENTRIES"

definition PTE_P :: u32 where "PTE_P = 0x001"
definition PTE_W :: u32 where "PTE_W = 0x002"
definition PTE_U :: u32 where "PTE_U = 0x004"
definition PTE_PWT :: u32 where "PTE_PWT = 0x008"
definition PTE_PCD :: u32 where "PTE_PCD = 0x010"
definition PTE_AVAIL :: u32 where "PTE_AVAIL = 0xE00"
definition PTE_SYSCALL :: u32 where "PTE_SYSCALL = (((PTE_AVAIL OR PTE_P) OR PTE_W) OR PTE_U)"

definition FL_IF :: u32 where "FL_IF = 0x00000200"
definition FEC_WR :: u32 where "FEC_WR = 0x2"

lemmas pte_flag_defs = PTE_P_def PTE_W_def PTE_U_def PTE_PWT_def PTE_PCD_def PTE_AVAIL_def
  PTE_SYSCALL_def

section \<open>Memory layout (inc/memlayout.h)\<close>

definition KERNBASE :: u32 where "KERNBASE = 0xF0000000"
definition IOPHYSMEM :: u32 where "IOPHYSMEM = 0x0A0000"
definition EXTPHYSMEM :: u32 where "EXTPHYSMEM = 0x100000"
definition KSTACKTOP :: u32 where "KSTACKTOP = KERNBASE"
definition KSTKSIZE :: u32 where "KSTKSIZE = 8 * PGSIZE"
definition KSTKGAP :: u32 where "KSTKGAP = 8 * PGSIZE"
definition MMIOLIM :: u32 where "MMIOLIM = KSTACKTOP - PTSIZE"
definition MMIOBASE :: u32 where "MMIOBASE = MMIOLIM - PTSIZE"
definition ULIM :: u32 where "ULIM = MMIOBASE"
definition UVPT :: u32 where "UVPT = ULIM - PTSIZE"
definition UPAGES :: u32 where "UPAGES = UVPT - PTSIZE"
definition UENVS :: u32 where "UENVS = UPAGES - PTSIZE"
definition UTOP :: u32 where "UTOP = UENVS"
definition UXSTACKTOP :: u32 where "UXSTACKTOP = UTOP"
definition USTACKTOP :: u32 where "USTACKTOP = UTOP - 2 * PGSIZE"
definition UTEXT :: u32 where "UTEXT = 2 * PTSIZE"
definition UTEMP :: u32 where "UTEMP = PTSIZE"
definition PFTEMP :: u32 where "PFTEMP = UTEMP + PTSIZE - PGSIZE"
definition USTABDATA :: u32 where "USTABDATA = PTSIZE div 2"
definition MPENTRY_PADDR :: u32 where "MPENTRY_PADDR = 0x7000"

definition GD_KT :: u16 where "GD_KT = 0x08"
definition GD_KD :: u16 where "GD_KD = 0x10"
definition GD_UT :: u16 where "GD_UT = 0x18"
definition GD_UD :: u16 where "GD_UD = 0x20"
definition GD_TSS0 :: u16 where "GD_TSS0 = 0x28"

lemmas layout_defs = NPTENTRIES_def NPDENTRIES_def PGSIZE_def PTSIZE_def KERNBASE_def KSTACKTOP_def
  KSTKSIZE_def KSTKGAP_def MMIOLIM_def MMIOBASE_def ULIM_def UVPT_def UPAGES_def UENVS_def UTOP_def
  UXSTACKTOP_def USTACKTOP_def UTEXT_def UTEMP_def PFTEMP_def USTABDATA_def MPENTRY_PADDR_def

text \<open>The addresses the memory map in the comment of inc/memlayout.h names.\<close>

lemma layout_values [mmu_simps]:
  "KSTACKTOP = 0xF0000000" "MMIOLIM = 0xEFC00000" "MMIOBASE = 0xEF800000" "ULIM = 0xEF800000"
  "UVPT = 0xEF400000" "UPAGES = 0xEF000000" "UENVS = 0xEEC00000" "UTOP = 0xEEC00000"
  "UXSTACKTOP = 0xEEC00000" "USTACKTOP = 0xEEBFE000" "UTEXT = 0x800000" "UTEMP = 0x400000"
  "PFTEMP = 0x7FF000" "USTABDATA = 0x200000" "PTSIZE = 0x400000"
  by (simp_all add: layout_defs)

section \<open>Rounding (inc/types.h)\<close>

definition ROUNDDOWN :: "u32 \<Rightarrow> u32 \<Rightarrow> u32" where
  "ROUNDDOWN a n = a - a mod n"

definition ROUNDUP :: "u32 \<Rightarrow> u32 \<Rightarrow> u32" where
  "ROUNDUP a n = ROUNDDOWN (a + n - 1) n"

section \<open>Facts on the macros\<close>

lemma push_drop_take: "push_bit n (drop_bit n x) OR take_bit n x = (x :: u32)"
  by (rule bit_eqI) (auto simp: bit_simps)

lemma mask_10: "(0x3FF :: u32) = mask 10" and mask_12: "(0xFFF :: u32) = mask 12"
  by (simp_all add: mask_eq_exp_minus_1)

lemma PDX_eq: "PDX la = drop_bit 22 la"
  by (rule bit_eqI) (auto simp: PDX_def mask_10 bit_simps dest: bit_imp_le_length)

lemma PTX_take: "PTX la = take_bit 10 (drop_bit 12 la)"
  by (simp add: PTX_def mask_10 take_bit_eq_mask)

lemma PGOFF_take: "PGOFF la = take_bit 12 la"
  by (simp add: PGOFF_def mask_12 take_bit_eq_mask)

lemma PTE_ADDR_push: "PTE_ADDR x = push_bit 12 (drop_bit 12 x)"
  by (rule bit_eqI) (auto simp: PTE_ADDR_def mask_12 bit_simps dest: bit_imp_le_length)

lemma PGADDR_decompose: "PGADDR (PDX la) (PTX la) (PGOFF la) = la"
proof (rule bit_eqI)
  fix n
  show "bit (PGADDR (PDX la) (PTX la) (PGOFF la)) n \<longleftrightarrow> bit la n"
  proof (cases "n < 22")
    case True
    then show ?thesis
      by (auto simp: PGADDR_def PDX_eq PTX_take PGOFF_take bit_simps)
  next
    case False
    then show ?thesis
      by (auto simp: PGADDR_def PDX_eq PTX_take PGOFF_take bit_simps dest: bit_imp_le_length)
  qed
qed

lemma unat_PDX: "unat (PDX la) = unat la div 2 ^ 22"
  by (simp add: PDX_eq drop_bit_eq_div unat_div_distrib)

lemma unat_PGNUM: "unat (PGNUM la) = unat la div 2 ^ 12"
  by (simp add: PGNUM_def drop_bit_eq_div unat_div_distrib)

lemma unat_PTX: "unat (PTX la) = unat la div 2 ^ 12 mod 2 ^ 10"
  by (simp add: PTX_take drop_bit_eq_div take_bit_eq_mod unat_div_distrib unat_mod_distrib)

lemma unat_PGOFF: "unat (PGOFF la) = unat la mod 2 ^ 12"
  by (simp add: PGOFF_take take_bit_eq_mod unat_mod_distrib)

lemma small_word_no_bit:
  assumes "unat (w :: u32) < 2 ^ k" "k \<le> n"
  shows "\<not> bit w n"
proof
  assume b: "bit w n"
  from assms(1) have "take_bit k (unat w) = unat w" by (rule take_bit_nat_eq_self)
  moreover have "bit (unat w) n" using b by (simp add: bit_unsigned_iff)
  ultimately show False using assms(2) by (metis bit_take_bit_iff not_less)
qed

lemma unat_u32_less: "unat (la :: u32) < 2 ^ 32"
  using unsigned_less [of la] by simp

lemma PDX_less [simp]: "unat (PDX la) < 1024"
  using unat_u32_less [of la] by (simp add: unat_PDX)

lemma PTX_less [simp]: "unat (PTX la) < 1024"
  by (simp add: unat_PTX)

lemma PGNUM_less: "unat (PGNUM la) < 2 ^ 20"
  using unat_u32_less [of la] by (simp add: unat_PGNUM)

text \<open>A page frame number shifted to a physical address, with flag bits below it.\<close>

lemma PGNUM_PTE_ADDR [mmu_simps, simp]: "PGNUM (PTE_ADDR x) = PGNUM x"
  by (rule bit_eqI) (auto simp: PTE_ADDR_push PGNUM_def bit_simps dest: bit_imp_le_length)

lemma PTE_ADDR_idem [mmu_simps, simp]: "PTE_ADDR (PTE_ADDR x) = PTE_ADDR x"
  by (simp add: PTE_ADDR_def and.assoc)

lemma PTE_ADDR_or: "PTE_ADDR (x OR y) = PTE_ADDR x OR PTE_ADDR y"
  by (simp add: PTE_ADDR_def bit.conj_disj_distrib2)

lemma PGNUM_or: "PGNUM (x OR y) = PGNUM x OR PGNUM y"
  by (simp add: PGNUM_def drop_bit_or)

lemma PGNUM_flags: "PTE_ADDR f = 0 \<Longrightarrow> PGNUM f = 0"
  using PGNUM_PTE_ADDR [of f] by (simp add: PGNUM_def)

lemma PTE_ADDR_flag_consts [simp]:
  "PTE_ADDR PTE_P = 0" "PTE_ADDR PTE_W = 0" "PTE_ADDR PTE_U = 0" "PTE_ADDR PTE_PWT = 0"
  "PTE_ADDR PTE_PCD = 0" "PTE_ADDR PTE_SYSCALL = 0" "PTE_ADDR 0 = 0"
  by (simp_all add: PTE_ADDR_def pte_flag_defs)

lemma PTE_ADDR_eq_PGNUM: "PTE_ADDR x = PTE_ADDR y \<longleftrightarrow> PGNUM x = PGNUM y"
proof
  assume "PTE_ADDR x = PTE_ADDR y"
  then have "PGNUM (PTE_ADDR x) = PGNUM (PTE_ADDR y)" by simp
  then show "PGNUM x = PGNUM y" by simp
qed (simp add: PTE_ADDR_push PGNUM_def)

lemma right_bits:
  fixes x :: u32
  shows "x AND PTE_P = 0 \<longleftrightarrow> \<not> bit x 0" "x AND PTE_W = 0 \<longleftrightarrow> \<not> bit x 1" "x AND PTE_U = 0 \<longleftrightarrow> \<not> bit x 2"
  by (simp_all add: bit_iff_and_push_bit_not_eq_0 PTE_P_def PTE_W_def PTE_U_def)

lemma ROUNDDOWN_le: "ROUNDDOWN a n \<le> a"
proof -
  have "a mod n \<le> a" by (simp add: word_le_nat_alt unat_mod_distrib)
  then show ?thesis
    by (simp add: ROUNDDOWN_def word_sub_le)
qed

lemma unat_ROUNDDOWN: "unat (ROUNDDOWN a n) = unat a - unat a mod unat n"
proof -
  have "a mod n \<le> a" by (simp add: word_le_nat_alt unat_mod_distrib)
  then show ?thesis by (simp add: ROUNDDOWN_def unat_sub unat_mod_distrib)
qed

lemma ROUNDDOWN_dvd: "unat n dvd unat (ROUNDDOWN a n)"
  by (simp add: unat_ROUNDDOWN minus_mod_eq_mult_div)

lemma unat_ROUNDUP:
  assumes "0 < unat n" "unat a + unat n - 1 < 2 ^ 32"
  shows "unat (ROUNDUP a n) = (unat a + unat n - 1) div unat n * unat n"
proof -
  have "a + n - 1 = of_nat (unat a + unat n - 1)"
    using assms(1) by (simp add: of_nat_diff)
  then have "unat (a + n - 1) = unat a + unat n - 1"
    using assms(2) by (simp add: unat_of_nat take_bit_eq_mod del: of_nat_add)
  then show ?thesis
    by (simp add: ROUNDUP_def unat_ROUNDDOWN minus_mod_eq_div_mult)
qed

lemma div_up_mult:
  "0 < n \<Longrightarrow> (a + n - 1) div n * n < a + n" "0 < (n::nat) \<Longrightarrow> a \<le> (a + n - 1) div n * n"
proof -
  assume n: "0 < n"
  have "(a + n - 1) div n * n \<le> a + n - 1" by (simp add: div_times_less_eq_dividend)
  with n show "(a + n - 1) div n * n < a + n" by linarith
  have "(a + n - 1) = (a + n - 1) div n * n + (a + n - 1) mod n" by simp
  moreover have "(a + n - 1) mod n \<le> n - 1" using n by (simp add: less_Suc_eq_le flip: less_eq_Suc_le)
      (metis Suc_pred less_Suc_eq_le mod_less_divisor)
  ultimately show "a \<le> (a + n - 1) div n * n" using n by linarith
qed

text \<open>
  \<open>ROUNDUP(a, n)\<close> of inc/types.h is the least multiple of \<open>n\<close> that is not below \<open>a\<close>, as long
  as the 32-bit sum \<open>a + n - 1\<close> does not wrap around.
\<close>

theorem ROUNDUP_least_multiple:
  assumes "0 < unat n" "unat a + unat n - 1 < 2 ^ 32"
  shows "unat n dvd unat (ROUNDUP a n) \<and> a \<le> ROUNDUP a n \<and>
    (\<forall>b. unat n dvd b \<longrightarrow> unat a \<le> b \<longrightarrow> unat (ROUNDUP a n) \<le> b)"
proof (intro conjI allI impI)
  note r = unat_ROUNDUP [OF assms]
  show "unat n dvd unat (ROUNDUP a n)" by (simp add: r)
  show "a \<le> ROUNDUP a n"
    using div_up_mult(2) [OF assms(1), of "unat a"] by (simp add: word_le_nat_alt r)
  fix b assume "unat n dvd b" "unat a \<le> b"
  then obtain k where b: "b = unat n * k" by auto
  have "unat (ROUNDUP a n) < unat n * (k + 1)"
    using div_up_mult(1) [OF assms(1), of "unat a"] \<open>unat a \<le> b\<close> r b by simp
  moreover obtain j where "unat (ROUNDUP a n) = unat n * j" using r by (metis mult.commute)
  ultimately show "unat (ROUNDUP a n) \<le> b" using assms(1) b
    by (metis less_Suc_eq_le mult_le_mono2 mult_less_cancel1 Suc_eq_plus1)
qed

theorem ROUNDUP_least_multiple_witness:
  "unat (0x1000 :: u32) dvd unat (ROUNDUP 0x1001 0x1000) \<and> ROUNDUP 0x1001 0x1000 = 0x2000"
  using ROUNDUP_least_multiple [of "0x1000" "0x1001"] by (simp add: ROUNDUP_def ROUNDDOWN_def)

lemma PGADDR_parts:
  assumes "d < 1024" "t < 1024" "off < 4096"
  shows "PDX (PGADDR d t off) = d" "PTX (PGADDR d t off) = t" "PGOFF (PGADDR d t off) = off"
proof -
  have d: "\<And>n. bit d n \<Longrightarrow> n < 10" and t: "\<And>n. bit t n \<Longrightarrow> n < 10"
    and off: "\<And>n. bit off n \<Longrightarrow> n < 12"
    using small_word_no_bit [of d 10] small_word_no_bit [of t 10] small_word_no_bit [of off 12] assms
    by (simp_all add: word_less_nat_alt) (meson not_less)+
  show "PDX (PGADDR d t off) = d"
    by (rule bit_eqI) (auto simp: PDX_eq PGADDR_def bit_simps dest: d t off)
  show "PTX (PGADDR d t off) = t"
    by (rule bit_eqI) (auto simp: PTX_take PGADDR_def bit_simps dest: d t off)
  show "PGOFF (PGADDR d t off) = off"
    by (rule bit_eqI) (auto simp: PGOFF_take PGADDR_def bit_simps dest: d t off)
qed

text \<open>
  The address macros of inc/mmu.h are inverse to each other: a linear address is
  \<open>PGADDR\<close> of its directory index, table index and offset, and for indices below 1024 and an
  offset below 4096 each part is read back by \<open>PDX\<close>, \<open>PTX\<close> and \<open>PGOFF\<close>.
\<close>

theorem PGADDR_roundtrip:
  "PGADDR (PDX la) (PTX la) (PGOFF la) = la \<and>
   (d < 1024 \<longrightarrow> t < 1024 \<longrightarrow> off < 4096 \<longrightarrow>
     PDX (PGADDR d t off) = d \<and> PTX (PGADDR d t off) = t \<and> PGOFF (PGADDR d t off) = off)"
  using PGADDR_decompose PGADDR_parts by blast

theorem PGADDR_roundtrip_witness:
  "PDX (PGADDR 3 5 7) = 3 \<and> PTX (PGADDR 3 5 7) = 5 \<and> PGOFF (PGADDR 3 5 7) = 7"
  using PGADDR_roundtrip [of 0 3 5 7] by simp

end
