(* ===== verification/Jos_Spinlock.thy ===== *)
theory Jos_Spinlock
  imports Jos_Mmu
begin

text \<open>
  kern/spinlock.c with \<open>DEBUG_SPINLOCK\<close> defined, as kern/spinlock.h has it: the lock record, the
  sequential operations one CPU performs, and the interleaving of any number of CPUs at the
  granularity of the single reads, writes and atomic exchanges of the code.
\<close>

section \<open>The lock and its operations\<close>

record spinlock =
  locked :: u32
  lk_name :: string
  lk_cpu :: "nat option"
  lk_pcs :: "u32 list"

text \<open>
  The walk over saved frame pointers: \<open>rd\<close> reads a word of kernel memory, \<open>n\<close> counts the slots
  of \<open>pcs\<close> still to fill.
\<close>

fun get_caller_pcs :: "(u32 \<Rightarrow> u32) \<Rightarrow> nat \<Rightarrow> u32 \<Rightarrow> u32 list" where
  "get_caller_pcs rd 0 ebp = []"
| "get_caller_pcs rd (Suc n) ebp =
     (if ebp = 0 \<or> ebp < ULIM then replicate (Suc n) 0
      else rd (ebp + 4) # get_caller_pcs rd n (rd ebp))"

definition holding :: "nat \<Rightarrow> spinlock \<Rightarrow> bool" where
  "holding c lk \<longleftrightarrow> locked lk \<noteq> 0 \<and> lk_cpu lk = Some c"

definition spin_initlock :: "string \<Rightarrow> spinlock \<Rightarrow> spinlock" where
  "spin_initlock name lk = lk\<lparr>locked := 0, lk_name := name, lk_cpu := None\<rparr>"

definition xchg_locked :: "spinlock \<Rightarrow> u32 \<Rightarrow> u32 \<times> spinlock" where
  "xchg_locked lk v = (locked lk, lk\<lparr>locked := v\<rparr>)"

text \<open>
  One CPU on its own: when another CPU holds the lock the loop around \<open>xchg\<close> does not end
  until that CPU releases it, which is the outcome \<open>Spinning\<close>.
\<close>

definition spin_lock :: "nat \<Rightarrow> u32 list \<Rightarrow> spinlock \<Rightarrow> (spinlock, unit) outcome" where
  "spin_lock c pcs lk =
     (if holding c lk then Panic ''CPU cannot acquire: already holding''
      else (case xchg_locked lk 1 of (old, lk1) \<Rightarrow>
        if old \<noteq> 0 then Leave Spinning lk1
        else Ret () (lk1\<lparr>lk_cpu := Some c, lk_pcs := pcs\<rparr>)))"

definition spin_unlock :: "nat \<Rightarrow> spinlock \<Rightarrow> (spinlock, unit) outcome" where
  "spin_unlock c lk =
     (if \<not> holding c lk then Panic ''spin_unlock''
      else (let lk1 = lk\<lparr>lk_pcs := (lk_pcs lk)[0 := 0], lk_cpu := None\<rparr>
            in case xchg_locked lk1 0 of (old, lk2) \<Rightarrow> Ret () lk2))"

lemma length_get_caller_pcs [simp]: "length (get_caller_pcs rd n ebp) = n"
  by (induction n arbitrary: ebp) auto

lemma spin_lock_free:
  "locked lk = 0 \<Longrightarrow> spin_lock c pcs lk = Ret () (lk\<lparr>locked := 1, lk_cpu := Some c, lk_pcs := pcs\<rparr>)"
  by (simp add: spin_lock_def holding_def xchg_locked_def)

lemma spin_lock_Ret_iff:
  "spin_lock c pcs lk = Ret u lk' \<longleftrightarrow>
     locked lk = 0 \<and> lk' = lk\<lparr>locked := 1, lk_cpu := Some c, lk_pcs := pcs\<rparr>"
  by (auto simp: spin_lock_def holding_def xchg_locked_def)

lemma spin_unlock_Ret_iff:
  "spin_unlock c lk = Ret u lk' \<longleftrightarrow>
     holding c lk \<and> lk' = lk\<lparr>lk_pcs := (lk_pcs lk)[0 := 0], lk_cpu := None, locked := 0\<rparr>"
  by (auto simp: spin_unlock_def xchg_locked_def)

lemma holding_spin_lock: "spin_lock c pcs lk = Ret u lk' \<Longrightarrow> holding c lk'"
  by (auto simp: spin_lock_Ret_iff holding_def)

lemma spin_unlock_not_Leave [simp]: "spin_unlock c lk \<noteq> Leave l lk'"
  by (auto simp: spin_unlock_def xchg_locked_def split: if_splits)

section \<open>Interleaving of several CPUs\<close>

text \<open>
  Where a CPU is in the lock code: outside it; between the two reads of \<open>holding\<close> in
  \<open>spin_lock\<close>; in the spin loop; past the successful exchange but before recording itself; in
  the critical section; between the two reads of \<open>holding\<close> in \<open>spin_unlock\<close>; past clearing
  \<open>lk->cpu\<close> but before the exchange; or stopped in \<open>panic\<close>.
\<close>

datatype lpc = Outside | LockCheck | Spin | Got | Held | UnlockCheck | Releasing | Panicked

record lsys =
  lk :: spinlock
  pc :: "nat \<Rightarrow> lpc"

abbreviation go :: "nat \<Rightarrow> lpc \<Rightarrow> lsys \<Rightarrow> lsys" where
  "go c p s \<equiv> s\<lparr>pc := (pc s)(c := p)\<rparr>"

inductive lock_step :: "lsys \<Rightarrow> lsys \<Rightarrow> bool" where
  lock_unlocked: "pc s c = Outside \<Longrightarrow> locked (lk s) = 0 \<Longrightarrow> lock_step s (go c Spin s)"
| lock_busy: "pc s c = Outside \<Longrightarrow> locked (lk s) \<noteq> 0 \<Longrightarrow> lock_step s (go c LockCheck s)"
| lock_reentered: "pc s c = LockCheck \<Longrightarrow> lk_cpu (lk s) = Some c \<Longrightarrow> lock_step s (go c Panicked s)"
| lock_other: "pc s c = LockCheck \<Longrightarrow> lk_cpu (lk s) \<noteq> Some c \<Longrightarrow> lock_step s (go c Spin s)"
| xchg_busy: "pc s c = Spin \<Longrightarrow> xchg_locked (lk s) 1 = (old, l) \<Longrightarrow> old \<noteq> 0 \<Longrightarrow>
    lock_step s (s\<lparr>lk := l\<rparr>)"
| xchg_won: "pc s c = Spin \<Longrightarrow> xchg_locked (lk s) 1 = (old, l) \<Longrightarrow> old = 0 \<Longrightarrow>
    lock_step s (go c Got (s\<lparr>lk := l\<rparr>))"
| record_owner: "pc s c = Got \<Longrightarrow>
    lock_step s (go c Held (s\<lparr>lk := (lk s)\<lparr>lk_cpu := Some c, lk_pcs := pcs\<rparr>\<rparr>))"
| relock: "pc s c = Held \<Longrightarrow> holding c (lk s) \<Longrightarrow> lock_step s (go c Panicked s)"
| unlock_busy: "pc s c = Held \<Longrightarrow> locked (lk s) \<noteq> 0 \<Longrightarrow> lock_step s (go c UnlockCheck s)"
| unlock_unlocked: "pc s c = Held \<Longrightarrow> locked (lk s) = 0 \<Longrightarrow> lock_step s (go c Panicked s)"
| unlock_other: "pc s c = UnlockCheck \<Longrightarrow> lk_cpu (lk s) \<noteq> Some c \<Longrightarrow> lock_step s (go c Panicked s)"
| unlock_owner: "pc s c = UnlockCheck \<Longrightarrow> lk_cpu (lk s) = Some c \<Longrightarrow>
    lock_step s (go c Releasing
      (s\<lparr>lk := (lk s)\<lparr>lk_pcs := (lk_pcs (lk s))[0 := 0], lk_cpu := None\<rparr>\<rparr>))"
| release: "pc s c = Releasing \<Longrightarrow> xchg_locked (lk s) 0 = (old, l) \<Longrightarrow>
    lock_step s (go c Outside (s\<lparr>lk := l\<rparr>))"

inductive_cases lock_stepE: "lock_step s t"

definition init_lsys :: "string \<Rightarrow> spinlock \<Rightarrow> lsys" where
  "init_lsys name l = \<lparr>lk = spin_initlock name l, pc = (\<lambda>_. Outside)\<rparr>"

inductive lock_reachable :: "lsys \<Rightarrow> bool" where
  start: "lock_reachable (init_lsys name l)"
| step: "lock_reachable s \<Longrightarrow> lock_step s t \<Longrightarrow> lock_reachable t"

text \<open>Where a CPU can be without owning the lock word, and where with its name in it.\<close>

definition waits :: "lpc \<Rightarrow> bool" where
  "waits p \<longleftrightarrow> p = Outside \<or> p = LockCheck \<or> p = Spin"

definition named :: "lpc \<Rightarrow> bool" where
  "named p \<longleftrightarrow> p = Held \<or> p = UnlockCheck \<or> p = Panicked"

definition critical :: "lpc \<Rightarrow> bool" where
  "critical p \<longleftrightarrow> p = Held \<or> p = UnlockCheck"

text \<open>
  The invariant, with the owner of the lock word made explicit: nobody owns it and it is 0, or
  one CPU does, all others wait, and \<open>lk->cpu\<close> names the owner exactly while it is recorded.
\<close>

fun owned_by :: "lsys \<Rightarrow> nat option \<Rightarrow> bool" where
  "owned_by s None \<longleftrightarrow> locked (lk s) = 0 \<and> lk_cpu (lk s) = None \<and> (\<forall>d. waits (pc s d))"
| "owned_by s (Some c) \<longleftrightarrow> locked (lk s) \<noteq> 0 \<and> \<not> waits (pc s c) \<and>
     lk_cpu (lk s) = (if named (pc s c) then Some c else None) \<and>
     (\<forall>d. d \<noteq> c \<longrightarrow> waits (pc s d))"

definition lock_inv :: "lsys \<Rightarrow> bool" where
  "lock_inv s \<longleftrightarrow> (\<exists>ow. owned_by s ow)"

lemma lock_inv_init: "lock_inv (init_lsys name l)"
proof -
  have "owned_by (init_lsys name l) None"
    by (simp add: init_lsys_def spin_initlock_def waits_def)
  then show ?thesis unfolding lock_inv_def ..
qed

lemma owner_moves:
  "owned_by s ow \<Longrightarrow> \<not> waits (pc s c) \<Longrightarrow> ow = Some c"
  by (cases ow) (auto, metis)

lemma recorded_is_named:
  "owned_by s ow \<Longrightarrow> lk_cpu (lk s) = Some c \<Longrightarrow> named (pc s c)"
  by (cases ow) (auto split: if_splits)

text \<open>A step of the owner, of a waiting CPU, or the exchange that makes a new owner.\<close>

lemma lock_step_owned:
  assumes "lock_step s t" and "owned_by s ow"
  shows "\<exists>ow'. owned_by t ow'"
  using assms(1)
proof cases
  case (xchg_busy c old l)
  with assms(2) have "owned_by t ow"
    by (cases ow) (auto simp: xchg_locked_def)
  then show ?thesis ..
next
  case (xchg_won c old l)
  with assms(2) have "owned_by t (Some c)"
    by (cases ow) (auto simp: xchg_locked_def waits_def named_def)
  then show ?thesis ..
next
  case (lock_unlocked c)
  with assms(2) have "owned_by t ow"
    by (cases ow) (auto simp: waits_def)
  then show ?thesis ..
next
  case (lock_busy c)
  with assms(2) have "owned_by t ow"
    by (cases ow) (auto simp: waits_def)
  then show ?thesis ..
next
  case (lock_reentered c)
  with recorded_is_named [OF assms(2), of c] show ?thesis
    by (simp add: named_def)
next
  case (lock_other c)
  with assms(2) have "owned_by t ow"
    by (cases ow) (auto simp: waits_def)
  then show ?thesis ..
next
  case (record_owner c pcs)
  with owner_moves [OF assms(2), of c] assms(2) have "owned_by t (Some c)"
    by (auto simp: waits_def named_def)
  then show ?thesis ..
next
  case (relock c)
  with owner_moves [OF assms(2), of c] assms(2) have "owned_by t (Some c)"
    by (auto simp: waits_def named_def)
  then show ?thesis ..
next
  case (unlock_busy c)
  with owner_moves [OF assms(2), of c] assms(2) have "owned_by t (Some c)"
    by (auto simp: waits_def named_def)
  then show ?thesis ..
next
  case (unlock_unlocked c)
  with owner_moves [OF assms(2), of c] assms(2) show ?thesis
    by (auto simp: waits_def)
next
  case (unlock_other c)
  with owner_moves [OF assms(2), of c] assms(2) show ?thesis
    by (auto simp: waits_def named_def)
next
  case (unlock_owner c)
  with owner_moves [OF assms(2), of c] assms(2) have "owned_by t (Some c)"
    by (auto simp: waits_def named_def)
  then show ?thesis ..
next
  case (release c old l)
  with owner_moves [OF assms(2), of c] assms(2) have "owned_by t None"
    by (auto simp: waits_def named_def xchg_locked_def)
  then show ?thesis ..
qed

lemma lock_reachable_inv: "lock_reachable s \<Longrightarrow> lock_inv s"
proof (induction rule: lock_reachable.induct)
  case (start name l)
  show ?case by (rule lock_inv_init)
next
  case (step s t)
  then show ?case by (auto simp: lock_inv_def intro: lock_step_owned)
qed

section \<open>Properties of the lock\<close>

lemma waits_or_owner:
  "owned_by s ow \<Longrightarrow> \<not> waits (pc s c) \<Longrightarrow> \<not> waits (pc s d) \<Longrightarrow> c = d"
  using owner_moves [of s ow c] owner_moves [of s ow d] by simp

text \<open>
  C3: Mutual exclusion of the big kernel lock: in every state the CPUs can reach by any
  interleaving of the single memory accesses of \<open>spin_lock\<close> and \<open>spin_unlock\<close>, two CPUs that are
  both past the winning \<open>xchg\<close> and before the releasing one are the same CPU, and while a CPU
  is in its critical section \<open>lk->locked\<close> is set and \<open>lk->cpu\<close> names it.
\<close>

theorem lock_mutual_exclusion:
  assumes "lock_reachable s"
  shows "(\<not> waits (pc s c) \<longrightarrow> \<not> waits (pc s d) \<longrightarrow> c = d) \<and>
    (critical (pc s c) \<longrightarrow> holding c (lk s))"
proof -
  obtain ow where ow: "owned_by s ow"
    using lock_reachable_inv [OF assms] by (auto simp: lock_inv_def)
  have "critical (pc s c) \<Longrightarrow> holding c (lk s)"
    using owner_moves [OF ow, of c] ow
    by (auto simp: critical_def holding_def waits_def named_def)
  then show ?thesis using waits_or_owner [OF ow] by blast
qed

text \<open>
  The debugging checks of the lock fire for one mistake only: a step in which a CPU of a
  reachable state enters \<open>panic\<close> is a CPU in its critical section calling \<open>spin_lock\<close> again.
  In particular a CPU that releases the lock it acquired never panics in \<open>spin_unlock\<close>, and a
  CPU waiting for another one never panics in \<open>spin_lock\<close>.
\<close>

theorem lock_panics_only_on_reacquire:
  assumes "lock_reachable s" "lock_step s t" "pc s c \<noteq> Panicked" "pc t c = Panicked"
  shows "pc s c = Held \<and> holding c (lk s)"
proof -
  obtain ow where ow: "owned_by s ow"
    using lock_reachable_inv [OF assms(1)] by (auto simp: lock_inv_def)
  from assms(2) show ?thesis
  proof cases
    case (lock_reentered d)
    with recorded_is_named [OF ow, of d] show ?thesis by (simp add: named_def)
  next
    case (relock d)
    with assms(3,4) show ?thesis by (auto split: if_splits)
  next
    case (unlock_unlocked d)
    with owner_moves [OF ow, of d] ow show ?thesis by (simp add: waits_def)
  next
    case (unlock_other d)
    with owner_moves [OF ow, of d] ow show ?thesis by (auto simp: waits_def named_def)
  qed (use assms(3,4) in \<open>auto split: if_splits\<close>)
qed

lemma free_lock_run:
  assumes "owned_by s None" "pc s c = Spin"
  shows "\<exists>t. lock_step\<^sup>*\<^sup>* s t \<and> pc t c = Held"
proof -
  let ?s1 = "go c Got (s\<lparr>lk := (lk s)\<lparr>locked := 1\<rparr>\<rparr>)"
  have "lock_step s ?s1"
    using lock_step.xchg_won [OF assms(2), of 0] assms(1) by (simp add: xchg_locked_def)
  moreover let ?s2 = "go c Held (?s1\<lparr>lk := (lk ?s1)\<lparr>lk_cpu := Some c, lk_pcs := []\<rparr>\<rparr>)"
  have "lock_step ?s1 ?s2"
    by (rule lock_step.record_owner) simp
  ultimately have "lock_step\<^sup>*\<^sup>* s ?s2" by (meson converse_rtranclp_into_rtranclp r_into_rtranclp)
  then show ?thesis by (rule exI [of _ ?s2, OF conjI]) simp
qed

lemma releasing_run:
  assumes "owned_by s (Some d)" "pc s d = Releasing"
  shows "\<exists>t. lock_step\<^sup>*\<^sup>* s t \<and> owned_by t None \<and> (\<forall>c. c \<noteq> d \<longrightarrow> pc t c = pc s c)"
proof -
  let ?t = "go d Outside (s\<lparr>lk := (lk s)\<lparr>locked := 0\<rparr>\<rparr>)"
  have "lock_step s ?t"
    by (rule lock_step.release [OF assms(2)]) (simp add: xchg_locked_def)
  moreover have "owned_by ?t None"
    using assms by (auto simp: waits_def named_def)
  ultimately show ?thesis by (intro exI [of _ ?t]) auto
qed

lemma checking_run:
  assumes "owned_by s (Some d)" "pc s d = UnlockCheck"
  shows "\<exists>t. lock_step\<^sup>*\<^sup>* s t \<and> owned_by t None \<and> (\<forall>c. c \<noteq> d \<longrightarrow> pc t c = pc s c)"
proof -
  let ?t = "go d Releasing (s\<lparr>lk := (lk s)\<lparr>lk_pcs := (lk_pcs (lk s))[0 := 0], lk_cpu := None\<rparr>\<rparr>)"
  have 1: "lock_step s ?t"
    by (rule lock_step.unlock_owner [OF assms(2)]) (use assms in \<open>simp add: named_def\<close>)
  have "owned_by ?t (Some d)" using assms by (auto simp: waits_def named_def)
  from releasing_run [OF this] obtain u where
    "lock_step\<^sup>*\<^sup>* ?t u" "owned_by u None" "\<forall>c. c \<noteq> d \<longrightarrow> pc u c = pc ?t c" by auto
  with 1 show ?thesis
    by (intro exI [of _ u]) (auto intro: converse_rtranclp_into_rtranclp)
qed

lemma held_run:
  assumes "owned_by s (Some d)" "pc s d = Held"
  shows "\<exists>t. lock_step\<^sup>*\<^sup>* s t \<and> owned_by t None \<and> (\<forall>c. c \<noteq> d \<longrightarrow> pc t c = pc s c)"
proof -
  let ?t = "go d UnlockCheck s"
  have 1: "lock_step s ?t"
    by (rule lock_step.unlock_busy [OF assms(2)]) (use assms in simp)
  have "owned_by ?t (Some d)" using assms by (auto simp: waits_def named_def)
  from checking_run [OF this] obtain u where
    "lock_step\<^sup>*\<^sup>* ?t u" "owned_by u None" "\<forall>c. c \<noteq> d \<longrightarrow> pc u c = pc ?t c" by auto
  with 1 show ?thesis
    by (intro exI [of _ u]) (auto intro: converse_rtranclp_into_rtranclp)
qed

lemma got_run:
  assumes "owned_by s (Some d)" "pc s d = Got"
  shows "\<exists>t. lock_step\<^sup>*\<^sup>* s t \<and> owned_by t None \<and> (\<forall>c. c \<noteq> d \<longrightarrow> pc t c = pc s c)"
proof -
  let ?t = "go d Held (s\<lparr>lk := (lk s)\<lparr>lk_cpu := Some d, lk_pcs := []\<rparr>\<rparr>)"
  have 1: "lock_step s ?t"
    by (rule lock_step.record_owner [OF assms(2)])
  have "owned_by ?t (Some d)" using assms by (auto simp: waits_def named_def)
  from held_run [OF this] obtain u where
    "lock_step\<^sup>*\<^sup>* ?t u" "owned_by u None" "\<forall>c. c \<noteq> d \<longrightarrow> pc u c = pc ?t c" by auto
  with 1 show ?thesis
    by (intro exI [of _ u]) (auto intro: converse_rtranclp_into_rtranclp)
qed

lemma owner_run:
  assumes "owned_by s ow" "\<forall>d. pc s d \<noteq> Panicked"
  shows "\<exists>t. lock_step\<^sup>*\<^sup>* s t \<and> owned_by t None \<and> (\<forall>c. waits (pc s c) \<longrightarrow> pc t c = pc s c)"
proof (cases ow)
  case None
  with assms(1) show ?thesis by (intro exI [of _ s]) simp
next
  case (Some d)
  with assms have o: "owned_by s (Some d)" and nw: "\<not> waits (pc s d)" by auto
  then have "pc s d = Got \<or> pc s d = Held \<or> pc s d = UnlockCheck \<or> pc s d = Releasing"
    using assms(2) by (cases "pc s d") (auto simp: waits_def)
  then obtain t where t: "lock_step\<^sup>*\<^sup>* s t" "owned_by t None"
    and eq: "\<forall>c. c \<noteq> d \<longrightarrow> pc t c = pc s c"
    using got_run [OF o] held_run [OF o] checking_run [OF o] releasing_run [OF o] by blast
  have "\<forall>c. waits (pc s c) \<longrightarrow> pc t c = pc s c"
  proof (intro allI impI)
    fix c assume "waits (pc s c)"
    with nw have "c \<noteq> d" by auto
    with eq show "pc t c = pc s c" by simp
  qed
  with t show ?thesis by blast
qed

text \<open>
  C13: No deadlock in the lock itself: from every reachable state in which no CPU has panicked,
  a CPU spinning on the lock can still get it (there is a run of the CPUs that ends with it in
  its critical section), whatever the others were doing.
\<close>

theorem lock_spinner_can_acquire:
  assumes "lock_reachable s" "\<forall>d. pc s d \<noteq> Panicked" "pc s c = Spin"
  shows "\<exists>t. lock_step\<^sup>*\<^sup>* s t \<and> pc t c = Held"
proof -
  obtain ow where "owned_by s ow"
    using lock_reachable_inv [OF assms(1)] by (auto simp: lock_inv_def)
  from owner_run [OF this assms(2)] assms(3) obtain t where
    t: "lock_step\<^sup>*\<^sup>* s t" "owned_by t None" "pc t c = Spin" by (auto simp: waits_def)
  from free_lock_run [OF t(2,3)] obtain u where "lock_step\<^sup>*\<^sup>* t u" "pc u c = Held" by auto
  with t(1) show ?thesis by (meson rtranclp_trans)
qed

section \<open>Witnesses\<close>

definition demo_lock :: spinlock where
  "demo_lock = \<lparr>locked = 0, lk_name = ''kernel_lock'', lk_cpu = None, lk_pcs = []\<rparr>"

definition demo0 :: lsys where "demo0 = init_lsys ''kernel_lock'' demo_lock"
definition demo1 :: lsys where "demo1 = go 0 Spin demo0"
definition demo2 :: lsys where "demo2 = go 0 Got (demo1\<lparr>lk := (lk demo1)\<lparr>locked := 1\<rparr>\<rparr>)"
definition demo3 :: lsys where
  "demo3 = go 0 Held (demo2\<lparr>lk := (lk demo2)\<lparr>lk_cpu := Some 0, lk_pcs := []\<rparr>\<rparr>)"

lemmas demo_defs = demo0_def demo1_def demo2_def demo3_def demo_lock_def init_lsys_def
  spin_initlock_def

lemma demo1_reachable: "lock_reachable demo1"
proof -
  have 0: "lock_reachable demo0" unfolding demo0_def by (rule lock_reachable.start)
  have "lock_step demo0 (go 0 Spin demo0)"
    by (rule lock_step.lock_unlocked) (simp_all add: demo_defs)
  with 0 show ?thesis unfolding demo1_def by (rule lock_reachable.step)
qed

lemma demo3_reachable: "lock_reachable demo3"
proof -
  have "lock_step demo1 demo2" unfolding demo2_def
    by (rule lock_step.xchg_won [of _ _ 0]) (simp_all add: demo_defs xchg_locked_def)
  with demo1_reachable have 2: "lock_reachable demo2" by (rule lock_reachable.step)
  have "lock_step demo2 demo3" unfolding demo3_def
    by (rule lock_step.record_owner) (simp add: demo2_def)
  with 2 show ?thesis by (rule lock_reachable.step)
qed

theorem lock_mutual_exclusion_witness:
  "critical (pc demo3 0) \<and> holding 0 (lk demo3)"
  using lock_mutual_exclusion [OF demo3_reachable, of 0 0]
  by (simp add: demo3_def critical_def)

theorem lock_panics_only_on_reacquire_witness:
  "pc demo3 0 = Held \<and> holding 0 (lk demo3)"
proof -
  have h: "holding 0 (lk demo3)" by (simp add: demo_defs holding_def)
  have "lock_step demo3 (go 0 Panicked demo3)"
    by (rule lock_step.relock) (use h in \<open>simp_all add: demo3_def\<close>)
  from lock_panics_only_on_reacquire [OF demo3_reachable this, of 0] show ?thesis
    by (simp add: demo3_def)
qed

theorem lock_spinner_can_acquire_witness: "\<exists>t. lock_step\<^sup>*\<^sup>* demo1 t \<and> pc t 0 = Held"
  by (rule lock_spinner_can_acquire [OF demo1_reachable]) (simp_all add: demo_defs)

end
