(* ===== verification/Jos_Console.thy ===== *)
theory Jos_Console
  imports Jos_Base
begin

text \<open>
  The console (kern/console.c): the input ring buffer and the keyboard and serial drivers that
  feed it, the text screen, and the interrupt controller's mask (kern/picirq.c). The devices are
  represented by what their ports deliver: the bytes waiting in the UART, the bytes waiting in
  the keyboard controller (each with the flag that it came from the mouse), what is still to arrive
  at the two, and a log of the bytes written to ports. Waiting for a transmitter to become ready has no effect here.
\<close>

section \<open>State\<close>

record console =
  cons_buf :: "nat \<Rightarrow> u8"
  cons_rpos :: u32
  cons_wpos :: u32
  kbd_shift :: u32
  serial_exists :: bool
  addr_6845 :: u32
  crt_buf :: "nat \<Rightarrow> u16"
  crt_pos :: u16
  irq_mask_8259A :: u16
  pic_didinit :: bool
  serial_rx :: "u8 list"
  kbd_rx :: "(bool \<times> u8) list"
  arrivals :: "(u8 list \<times> u8 list) list"
  ports_out :: "(u32 \<times> u8) list"

definition CONSBUFSIZE :: nat where "CONSBUFSIZE = 512"
definition CRT_ROWS :: nat where "CRT_ROWS = 25"
definition CRT_COLS :: nat where "CRT_COLS = 80"
definition CRT_SIZE :: nat where "CRT_SIZE = CRT_ROWS * CRT_COLS"

definition outb :: "u32 \<Rightarrow> u8 \<Rightarrow> console \<Rightarrow> console" where
  "outb port data s = s\<lparr>ports_out := (port, data) # ports_out s\<rparr>"

section \<open>The interrupt controller (kern/picirq.c)\<close>

definition IO_PIC1 :: u32 where "IO_PIC1 = 0x20"
definition IO_PIC2 :: u32 where "IO_PIC2 = 0xA0"
definition IRQ_SLAVE :: nat where "IRQ_SLAVE = 2"
definition IRQ_OFFSET :: u32 where "IRQ_OFFSET = 32"
definition IRQ_KBD :: nat where "IRQ_KBD = 1"
definition IRQ_SERIAL :: nat where "IRQ_SERIAL = 4"
definition IRQ_TIMER :: nat where "IRQ_TIMER = 0"
definition IRQ_SPURIOUS :: nat where "IRQ_SPURIOUS = 7"

definition irq_setmask_8259A :: "u16 \<Rightarrow> console \<Rightarrow> console" where
  "irq_setmask_8259A msk s =
     (let s = s\<lparr>irq_mask_8259A := msk\<rparr> in
      if \<not> pic_didinit s then s
      else outb (IO_PIC2 + 1) (ucast (drop_bit 8 msk)) (outb (IO_PIC1 + 1) (ucast msk) s))"

definition pic_init :: "console \<Rightarrow> console" where
  "pic_init s =
     (let s = s\<lparr>pic_didinit := True\<rparr>;
          s = outb (IO_PIC1 + 1) 0xFF s;
          s = outb (IO_PIC2 + 1) 0xFF s;
          s = outb IO_PIC1 0x11 s;
          s = outb (IO_PIC1 + 1) (ucast IRQ_OFFSET) s;
          s = outb (IO_PIC1 + 1) (push_bit IRQ_SLAVE 1) s;
          s = outb (IO_PIC1 + 1) 0x3 s;
          s = outb IO_PIC2 0x11 s;
          s = outb (IO_PIC2 + 1) (ucast (IRQ_OFFSET + 8)) s;
          s = outb (IO_PIC2 + 1) (of_nat IRQ_SLAVE) s;
          s = outb (IO_PIC2 + 1) 0x01 s;
          s = outb IO_PIC1 0x68 s;
          s = outb IO_PIC1 0x0a s;
          s = outb IO_PIC2 0x68 s;
          s = outb IO_PIC2 0x0a s
      in if irq_mask_8259A s \<noteq> 0xFFFF then irq_setmask_8259A (irq_mask_8259A s) s else s)"

section \<open>Serial and parallel port\<close>

definition COM1 :: u32 where "COM1 = 0x3F8"

text \<open>The integer a driver routine returns: a byte, 0, or -1 for no data.\<close>

definition serial_proc_data :: "console \<Rightarrow> int \<times> console" where
  "serial_proc_data s =
     (case serial_rx s of [] \<Rightarrow> (- 1, s) | b # bs \<Rightarrow> (uint b, s\<lparr>serial_rx := bs\<rparr>))"

definition serial_putc :: "u32 \<Rightarrow> console \<Rightarrow> console" where
  "serial_putc c s = outb COM1 (ucast c) s"

text \<open>\<open>lsr\<close> is what the line status register reads; the byte read from \<open>COM_RX\<close> is dropped.\<close>

definition serial_init :: "u8 \<Rightarrow> console \<Rightarrow> console" where
  "serial_init lsr s =
     (let s = outb (COM1 + 2) 0 s;
          s = outb (COM1 + 3) 0x80 s;
          s = outb COM1 (of_nat (115200 div 9600)) s;
          s = outb (COM1 + 1) 0 s;
          s = outb (COM1 + 3) (0x03 AND NOT 0x80) s;
          s = outb (COM1 + 4) 0 s;
          s = outb (COM1 + 1) 0x01 s;
          s = s\<lparr>serial_exists := (lsr \<noteq> 0xFF)\<rparr>
      in s\<lparr>serial_rx := tl (serial_rx s)\<rparr>)"

definition lpt_putc :: "u32 \<Rightarrow> console \<Rightarrow> console" where
  "lpt_putc c s =
     outb (0x378 + 2) 0x08 (outb (0x378 + 2) (0x08 OR 0x04 OR 0x01) (outb 0x378 (ucast c) s))"

section \<open>The screen\<close>

definition CGA_BASE :: u32 where "CGA_BASE = 0x3D4"
definition MONO_BASE :: u32 where "MONO_BASE = 0x3B4"

text \<open>
  \<open>cga\<close> tells whether memory at the colour buffer keeps what is written to it; \<open>hi\<close> and \<open>lo\<close> are
  the cursor registers.
\<close>

definition cga_init :: "bool \<Rightarrow> u8 \<Rightarrow> u8 \<Rightarrow> console \<Rightarrow> console" where
  "cga_init cga hi lo s =
     (let s = s\<lparr>addr_6845 := (if cga then CGA_BASE else MONO_BASE)\<rparr>;
          s = outb (addr_6845 s) 14 s;
          pos = (push_bit 8 (ucast hi) :: u32);
          s = outb (addr_6845 s) 15 s;
          pos = pos OR ucast lo
      in s\<lparr>crt_pos := ucast pos\<rparr>)"

text \<open>The screen moves up one line when the cursor has left it; then the cursor is set.\<close>

definition cga_scroll :: "console \<Rightarrow> console" where
  "cga_scroll s =
     (if CRT_SIZE \<le> unat (crt_pos s) then
        s\<lparr>crt_buf := (\<lambda>i. if i < CRT_SIZE - CRT_COLS then crt_buf s (i + CRT_COLS)
                         else if i < CRT_SIZE then 0x0700 OR 32 else crt_buf s i),
          crt_pos := crt_pos s - of_nat CRT_COLS\<rparr>
      else s)"

definition cga_cursor :: "console \<Rightarrow> console" where
  "cga_cursor s =
     (let s = outb (addr_6845 s) 14 s;
          s = outb (addr_6845 s + 1) (ucast (drop_bit 8 (crt_pos s))) s;
          s = outb (addr_6845 s) 15 s
      in outb (addr_6845 s + 1) (ucast (crt_pos s)) s)"

text \<open>
  \<open>cga_putc\<close> calls \<open>cons_putc\<close> for the blanks a tab stands for; \<open>putc\<close> is that call. A blank is
  no tab, so one level of the mutual recursion is all there is (\<open>cons_putc_eq\<close>).
\<close>

definition cga_putc_with :: "(u32 \<Rightarrow> console \<Rightarrow> console) \<Rightarrow> u32 \<Rightarrow> console \<Rightarrow> console" where
  "cga_putc_with putc c s =
     (let c = (if c AND NOT 0xFF = 0 then c OR 0x0700 else c);
          s =
            (if c AND 0xff = 8 then
               (if 0 < crt_pos s then
                  (let s = s\<lparr>crt_pos := crt_pos s - 1\<rparr>
                   in s\<lparr>crt_buf := (crt_buf s)(unat (crt_pos s) := ucast ((c AND NOT 0xff) OR 32))\<rparr>)
                else s)
             else if c AND 0xff = 10 \<or> c AND 0xff = 13 then
               (let s = (if c AND 0xff = 10 then s\<lparr>crt_pos := crt_pos s + of_nat CRT_COLS\<rparr> else s)
                in s\<lparr>crt_pos := crt_pos s - crt_pos s mod of_nat CRT_COLS\<rparr>)
             else if c AND 0xff = 9 then
               putc 32 (putc 32 (putc 32 (putc 32 (putc 32 s))))
             else
               s\<lparr>crt_buf := (crt_buf s)(unat (crt_pos s) := ucast c), crt_pos := crt_pos s + 1\<rparr>)
      in cga_cursor (cga_scroll s))"

definition cons_putc_blank :: "u32 \<Rightarrow> console \<Rightarrow> console" where
  "cons_putc_blank c s = cga_putc_with (\<lambda>_ s. s) c (lpt_putc c (serial_putc c s))"

definition cga_putc :: "u32 \<Rightarrow> console \<Rightarrow> console" where
  "cga_putc c s = cga_putc_with cons_putc_blank c s"

definition cons_putc :: "u32 \<Rightarrow> console \<Rightarrow> console" where
  "cons_putc c s = cga_putc c (lpt_putc c (serial_putc c s))"

definition cputchar :: "u32 \<Rightarrow> console \<Rightarrow> console" where
  "cputchar c s = cons_putc c s"

lemma cga_putc_blank: "cga_putc_with f 32 s = cga_putc_with g 32 s"
  by (simp add: cga_putc_with_def)

lemma cons_putc_eq:
  "cons_putc c s = cga_putc_with cons_putc c (lpt_putc c (serial_putc c s))"
  "cga_putc c s = cga_putc_with cons_putc c s"
proof -
  have b: "cons_putc_blank 32 = cons_putc 32"
    by (rule ext, simp add: cons_putc_blank_def cons_putc_def cga_putc_def, rule cga_putc_blank)
  have "cga_putc_with cons_putc_blank c u = cga_putc_with cons_putc c u" for u
    unfolding cga_putc_with_def b ..
  then show "cons_putc c s = cga_putc_with cons_putc c (lpt_putc c (serial_putc c s))"
    "cga_putc c s = cga_putc_with cons_putc c s"
    by (simp_all add: cons_putc_def cga_putc_def)
qed

section \<open>The keyboard\<close>

definition SHIFT :: u32 where "SHIFT = 0x01"
definition CTL :: u32 where "CTL = 0x02"
definition ALT :: u32 where "ALT = 0x04"
definition CAPSLOCK :: u32 where "CAPSLOCK = 0x08"
definition NUMLOCK :: u32 where "NUMLOCK = 0x10"
definition SCROLLLOCK :: u32 where "SCROLLLOCK = 0x20"
definition E0ESC :: u32 where "E0ESC = 0x40"

text \<open>A C table of 256 bytes: a positional prefix, designated entries, zero elsewhere.\<close>

definition table256 :: "u8 list \<Rightarrow> (nat \<times> u8) list \<Rightarrow> nat \<Rightarrow> u8" where
  "table256 l d i = (case map_of d i of Some v \<Rightarrow> v | None \<Rightarrow> if i < length l then l ! i else 0)"

definition chars :: "string \<Rightarrow> u8 list" where "chars cs = map of_char cs"

definition shiftcode :: "nat \<Rightarrow> u8" where
  "shiftcode = table256 [] [(0x1D, ucast CTL), (0x2A, ucast SHIFT), (0x36, ucast SHIFT),
     (0x38, ucast ALT), (0x9D, ucast CTL), (0xB8, ucast ALT)]"

definition togglecode :: "nat \<Rightarrow> u8" where
  "togglecode = table256 [] [(0x3A, ucast CAPSLOCK), (0x45, ucast NUMLOCK), (0x46, ucast SCROLLLOCK)]"

definition KEY_DEL :: u8 where "KEY_DEL = 0xE9"

text \<open>The keys of the extended pad, the same in all maps (KEY_HOME is 0xE0, KEY_DEL 0xE9).\<close>

definition extended_keys :: "(nat \<times> u8) list" where
  "extended_keys = [(0xC8, 0xE2), (0xC9, 0xE6), (0xCB, 0xE4), (0xCD, 0xE5), (0xCF, 0xE1),
     (0xD0, 0xE3), (0xD1, 0xE7), (0xD2, 0xE8), (0xD3, KEY_DEL)]"

definition keypad :: "u8 list" where
  "keypad = replicate 13 0 @ chars ''789-456+1230.'' @ replicate 4 0"

definition normalmap :: "nat \<Rightarrow> u8" where
  "normalmap = table256
     ([0, 0x1B] @ chars ''1234567890-='' @ [8, 9] @
      chars ''qwertyuiop[]'' @ [10, 0] @ chars ''asdfghjkl;'' @ [39, 96, 0, 92] @
      chars ''zxcvbnm,./'' @ [0, 42, 0, 32] @ keypad)
     ([(0xC7, 0xE0), (0x9C, 10), (0xB5, 47)] @ extended_keys)"

definition shiftmap :: "nat \<Rightarrow> u8" where
  "shiftmap = table256
     ([0, 27] @ chars ''!@#$%^&*()_+'' @ [8, 9] @
      chars ''QWERTYUIOP{}'' @ [10, 0] @ chars ''ASDFGHJKL:'' @ [34, 126, 0, 124] @
      chars ''ZXCVBNM<>?'' @ [0, 42, 0, 32] @ keypad)
     ([(0xC7, 0xE0), (0x9C, 10), (0xB5, 47)] @ extended_keys)"

text \<open>\<open>C(x)\<close> is \<open>x - '@'\<close>.\<close>

definition ctl_chars :: "string \<Rightarrow> u8 list" where
  "ctl_chars cs = map (\<lambda>c. of_char c - 64) cs"

definition ctlmap :: "nat \<Rightarrow> u8" where
  "ctlmap = table256
     (replicate 16 0 @ ctl_chars ''QWERTYUIOP'' @ [0, 0, 13, 0] @ ctl_chars ''ASDFGHJKL'' @
      replicate 4 0 @ [92 - 64] @ ctl_chars ''ZXCVBNM'' @ [0, 0, 47 - 64, 0, 0])
     ([(0x97, 0xE0), (0xB5, 47 - 64)] @ extended_keys)"

definition charcode :: "u32 \<Rightarrow> nat \<Rightarrow> u8" where
  "charcode k = (if k = 0 then normalmap else if k = 1 then shiftmap else ctlmap)"

text \<open>Ctrl-Alt-Del writes to port 0x92, which resets the machine.\<close>

definition kbd_proc_data :: "console \<Rightarrow> int \<times> console" where
  "kbd_proc_data s =
     (case kbd_rx s of
        [] \<Rightarrow> (- 1, s)
      | (mouse, data) # rest \<Rightarrow>
          if mouse then (- 1, s)
          else
            (let s = s\<lparr>kbd_rx := rest\<rparr>; shift = kbd_shift s in
             if data = 0xE0 then (0, s\<lparr>kbd_shift := shift OR E0ESC\<rparr>)
             else if data AND 0x80 \<noteq> 0 then
               (let data = (if shift AND E0ESC \<noteq> 0 then data else data AND 0x7F)
                in (0, s\<lparr>kbd_shift := shift AND NOT (ucast (shiftcode (unat data)) OR E0ESC)\<rparr>))
             else
               (let esc = (shift AND E0ESC \<noteq> 0);
                    data = (if esc then data OR 0x80 else data);
                    shift = (if esc then shift AND NOT E0ESC else shift);
                    shift = shift OR ucast (shiftcode (unat data));
                    shift = shift XOR ucast (togglecode (unat data));
                    s = s\<lparr>kbd_shift := shift\<rparr>;
                    c = charcode (shift AND (CTL OR SHIFT)) (unat data);
                    c = (if shift AND CAPSLOCK \<noteq> 0 then
                           (if 97 \<le> c \<and> c \<le> 122 then c - 32
                            else if 65 \<le> c \<and> c \<le> 90 then c + 32 else c)
                         else c);
                    s = (if NOT shift AND (CTL OR ALT) = 0 \<and> c = KEY_DEL then outb 0x92 0x3 s else s)
                in (uint c, s))))"

section \<open>The input buffer\<close>

definition cons_put :: "u8 \<Rightarrow> console \<Rightarrow> console" where
  "cons_put c s =
     (let s = s\<lparr>cons_buf := (cons_buf s)(unat (cons_wpos s) := c), cons_wpos := cons_wpos s + 1\<rparr>
      in if cons_wpos s = of_nat CONSBUFSIZE then s\<lparr>cons_wpos := 0\<rparr> else s)"

text \<open>
  \<open>cons_intr\<close> drains a driver routine until it answers -1. Every round before that takes a byte
  from a device, so the number of bytes waiting bounds the rounds (\<open>cons_intr_terminates\<close>).
\<close>

fun cons_intr_loop :: "nat \<Rightarrow> (console \<Rightarrow> int \<times> console) \<Rightarrow> console \<Rightarrow> console option" where
  "cons_intr_loop 0 proc s = None"
| "cons_intr_loop (Suc n) proc s =
     (case proc s of (c, s) \<Rightarrow>
        if c = - 1 then Some s
        else if c = 0 then cons_intr_loop n proc s
        else cons_intr_loop n proc (cons_put (of_int c) s))"

definition cons_intr :: "(console \<Rightarrow> int \<times> console) \<Rightarrow> console \<Rightarrow> console option" where
  "cons_intr proc s = cons_intr_loop (Suc (length (serial_rx s) + length (kbd_rx s))) proc s"

definition serial_intr :: "console \<Rightarrow> console option" where
  "serial_intr s = (if serial_exists s then cons_intr serial_proc_data s else Some s)"

definition kbd_intr :: "console \<Rightarrow> console option" where
  "kbd_intr s = cons_intr kbd_proc_data s"

definition cons_getc :: "console \<Rightarrow> (u32 \<times> console) option" where
  "cons_getc s =
     (case serial_intr s of None \<Rightarrow> None | Some s \<Rightarrow>
      (case kbd_intr s of None \<Rightarrow> None | Some s \<Rightarrow>
        if cons_rpos s \<noteq> cons_wpos s then
          (let c = cons_buf s (unat (cons_rpos s));
               s = s\<lparr>cons_rpos := cons_rpos s + 1\<rparr>;
               s = (if cons_rpos s = of_nat CONSBUFSIZE then s\<lparr>cons_rpos := 0\<rparr> else s)
           in Some (ucast c, s))
        else Some (0, s)))"

definition kbd_init :: "console \<Rightarrow> console option" where
  "kbd_init s =
     (case kbd_intr s of None \<Rightarrow> None
      | Some s \<Rightarrow> Some (irq_setmask_8259A (irq_mask_8259A s AND NOT (push_bit IRQ_KBD 1)) s))"

definition cons_init :: "bool \<Rightarrow> u8 \<Rightarrow> u8 \<Rightarrow> u8 \<Rightarrow> console \<Rightarrow> console option" where
  "cons_init cga hi lo lsr s =
     (let s = cga_init cga hi lo s in
      case kbd_init s of None \<Rightarrow> None | Some s \<Rightarrow> Some (serial_init lsr s))"

text \<open>All variables and devices at power on.\<close>

definition init_console :: console where
  "init_console = \<lparr>cons_buf = (\<lambda>_. 0), cons_rpos = 0, cons_wpos = 0, kbd_shift = 0,
     serial_exists = False, addr_6845 = 0, crt_buf = (\<lambda>_. 0), crt_pos = 0,
     irq_mask_8259A = 0xFFFB, pic_didinit = False, serial_rx = [], kbd_rx = [], arrivals = [],
     ports_out = []\<rparr>"

section \<open>Draining the devices\<close>

definition pending :: "console \<Rightarrow> nat" where
  "pending s = length (serial_rx s) + length (kbd_rx s)"

lemma cons_put_frame [simp]:
  "serial_rx (cons_put c s) = serial_rx s" "kbd_rx (cons_put c s) = kbd_rx s"
  "serial_exists (cons_put c s) = serial_exists s" "cons_rpos (cons_put c s) = cons_rpos s"
  "kbd_shift (cons_put c s) = kbd_shift s"
  by (simp_all add: cons_put_def Let_def)

lemma pending_put [simp]: "pending (cons_put c s) = pending s"
  by (simp add: pending_def)

text \<open>A driver routine that takes a byte whenever it does not answer -1.\<close>

definition drains :: "(console \<Rightarrow> int \<times> console) \<Rightarrow> bool" where
  "drains proc \<longleftrightarrow> (\<forall>s. fst (proc s) \<noteq> - 1 \<longrightarrow> pending (snd (proc s)) < pending s)"

lemma serial_drains: "drains serial_proc_data"
  by (auto simp: drains_def serial_proc_data_def pending_def split: list.splits)

lemma kbd_drains: "drains kbd_proc_data"
  by (auto simp: drains_def kbd_proc_data_def pending_def outb_def Let_def split: list.splits prod.splits)

lemma cons_intr_loop_Some:
  "drains proc \<Longrightarrow> pending s < n \<Longrightarrow> \<exists>t. cons_intr_loop n proc s = Some t"
proof (induction n arbitrary: s)
  case (Suc n)
  obtain c u where p: "proc s = (c, u)" by (cases "proc s")
  show ?case
  proof (cases "c = - 1")
    case False
    with Suc.prems p have "pending u < n" by (auto simp: drains_def split: prod.splits) (metis fst_conv less_Suc_eq order_less_trans snd_conv less_trans_Suc)
    with Suc.IH [of u] Suc.IH [of "cons_put (of_int c) u"] Suc.prems(1) p False show ?thesis by simp
  qed (simp add: p)
qed simp

lemma cons_intr_Some: "drains proc \<Longrightarrow> \<exists>t. cons_intr proc s = Some t"
  unfolding cons_intr_def by (rule cons_intr_loop_Some) (simp_all add: pending_def)

section \<open>The buffer as a queue\<close>

definition ring_ok :: "console \<Rightarrow> bool" where
  "ring_ok s \<longleftrightarrow> unat (cons_rpos s) < CONSBUFSIZE \<and> unat (cons_wpos s) < CONSBUFSIZE"

definition ring_len :: "console \<Rightarrow> nat" where
  "ring_len s = (unat (cons_wpos s) + CONSBUFSIZE - unat (cons_rpos s)) mod CONSBUFSIZE"

definition cons_queue :: "console \<Rightarrow> u8 list" where
  "cons_queue s = map (\<lambda>k. cons_buf s ((unat (cons_rpos s) + k) mod CONSBUFSIZE)) [0..<ring_len s]"

lemma wrap_inc:
  fixes w :: u32
  assumes "unat w < 512"
  shows "unat (if w + 1 = 512 then 0 else w + 1) = (unat w + 1) mod 512" "w + 1 = 512 \<longleftrightarrow> unat w = 511"
proof -
  have u: "unat (w + 1) = unat w + 1" using assms by (simp add: unat_word_ariths)
  show e: "w + 1 = 512 \<longleftrightarrow> unat w = 511" using u by (simp add: word_unat_eq_iff)
  show "unat (if w + 1 = 512 then 0 else w + 1) = (unat w + 1) mod 512"
    using u e assms by auto
qed

lemma cons_put_pos:
  assumes "ring_ok s"
  shows "unat (cons_wpos (cons_put c s)) = (unat (cons_wpos s) + 1) mod CONSBUFSIZE"
    "cons_buf (cons_put c s) = (cons_buf s)(unat (cons_wpos s) := c)" "ring_ok (cons_put c s)"
proof -
  from assms have w: "unat (cons_wpos s) < 512" by (simp add: ring_ok_def CONSBUFSIZE_def)
  show p: "unat (cons_wpos (cons_put c s)) = (unat (cons_wpos s) + 1) mod CONSBUFSIZE"
    using wrap_inc(1) [OF w] by (simp add: cons_put_def Let_def CONSBUFSIZE_def split: if_splits)
  show "cons_buf (cons_put c s) = (cons_buf s)(unat (cons_wpos s) := c)"
    by (simp add: cons_put_def Let_def)
  show "ring_ok (cons_put c s)" using assms p by (simp add: ring_ok_def CONSBUFSIZE_def)
qed

lemma ring_len_less: "ring_len s < CONSBUFSIZE"
  by (simp add: ring_len_def CONSBUFSIZE_def)

lemma ring_wpos:
  assumes "ring_ok s"
  shows "(unat (cons_rpos s) + ring_len s) mod CONSBUFSIZE = unat (cons_wpos s)"
proof -
  have "(unat (cons_rpos s) + ring_len s) mod CONSBUFSIZE =
      (unat (cons_rpos s) + (unat (cons_wpos s) + CONSBUFSIZE - unat (cons_rpos s))) mod CONSBUFSIZE"
    by (simp add: ring_len_def mod_add_right_eq)
  also have "\<dots> = (unat (cons_wpos s) + CONSBUFSIZE) mod CONSBUFSIZE"
    using assms by (simp add: ring_ok_def)
  finally show ?thesis using assms by (simp add: ring_ok_def)
qed

lemma ring_len_unique:
  assumes "ring_ok s" "n < CONSBUFSIZE" "(unat (cons_rpos s) + n) mod CONSBUFSIZE = unat (cons_wpos s)"
  shows "ring_len s = n"
proof -
  have "(unat (cons_rpos s) + ring_len s) mod CONSBUFSIZE = (unat (cons_rpos s) + n) mod CONSBUFSIZE"
    using ring_wpos [OF assms(1)] assms(3) by simp
  then show ?thesis using assms(1,2) ring_len_less [of s]
    by (auto simp: ring_ok_def CONSBUFSIZE_def mod_if split: if_splits)
qed

lemma cons_put_len:
  assumes ok: "ring_ok s"
  shows "ring_len (cons_put c s) = (if ring_len s = CONSBUFSIZE - 1 then 0 else ring_len s + 1)"
proof (rule ring_len_unique [OF cons_put_pos(3) [OF ok]])
  show "(if ring_len s = CONSBUFSIZE - 1 then 0 else ring_len s + 1) < CONSBUFSIZE"
    using ring_len_less [of s] by (auto simp: CONSBUFSIZE_def)
  have "(unat (cons_rpos s) + (ring_len s + 1)) mod CONSBUFSIZE =
      (unat (cons_wpos s) + 1) mod CONSBUFSIZE"
    using ring_wpos [OF ok] by (metis add.assoc mod_add_left_eq)
  moreover have "unat (cons_rpos s) mod CONSBUFSIZE = (unat (cons_rpos s) + CONSBUFSIZE) mod CONSBUFSIZE"
    by simp
  ultimately show "(unat (cons_rpos (cons_put c s)) +
      (if ring_len s = CONSBUFSIZE - 1 then 0 else ring_len s + 1)) mod CONSBUFSIZE =
      unat (cons_wpos (cons_put c s))"
    using cons_put_pos(1) [OF ok, of c] by (auto simp: CONSBUFSIZE_def)
qed

lemma cons_put_queue:
  assumes ok: "ring_ok s"
  shows "cons_queue (cons_put c s) =
    (if ring_len s = CONSBUFSIZE - 1 then [] else cons_queue s @ [c])"
proof (cases "ring_len s = CONSBUFSIZE - 1")
  case True
  then show ?thesis by (simp add: cons_queue_def cons_put_len [OF ok])
next
  case False
  have other: "(unat (cons_rpos s) + k) mod CONSBUFSIZE \<noteq> unat (cons_wpos s)" if "k < ring_len s" for k
  proof
    assume "(unat (cons_rpos s) + k) mod CONSBUFSIZE = unat (cons_wpos s)"
    from ring_len_unique [OF ok _ this] that ring_len_less [of s] show False by simp
  qed
  have "map (\<lambda>k. cons_buf (cons_put c s) ((unat (cons_rpos s) + k) mod CONSBUFSIZE)) [0..<ring_len s] =
      cons_queue s"
    unfolding cons_queue_def using other by (simp add: cons_put_pos(2) [OF ok])
  then show ?thesis
    using False ring_wpos [OF ok]
    by (simp add: cons_queue_def cons_put_len [OF ok]) (simp add: cons_put_pos(2) [OF ok])
qed

text \<open>Taking the first character out.\<close>

definition cons_pop :: "console \<Rightarrow> console" where
  "cons_pop s =
     (let s = s\<lparr>cons_rpos := cons_rpos s + 1\<rparr>
      in if cons_rpos s = of_nat CONSBUFSIZE then s\<lparr>cons_rpos := 0\<rparr> else s)"

lemma cons_pop_pos:
  assumes "ring_ok s"
  shows "unat (cons_rpos (cons_pop s)) = (unat (cons_rpos s) + 1) mod CONSBUFSIZE"
    "cons_wpos (cons_pop s) = cons_wpos s" "cons_buf (cons_pop s) = cons_buf s" "ring_ok (cons_pop s)"
proof -
  from assms have r: "unat (cons_rpos s) < 512" by (simp add: ring_ok_def CONSBUFSIZE_def)
  show p: "unat (cons_rpos (cons_pop s)) = (unat (cons_rpos s) + 1) mod CONSBUFSIZE"
    using wrap_inc(1) [OF r] by (simp add: cons_pop_def Let_def CONSBUFSIZE_def split: if_splits)
  show w: "cons_wpos (cons_pop s) = cons_wpos s" "cons_buf (cons_pop s) = cons_buf s"
    by (simp_all add: cons_pop_def Let_def)
  show "ring_ok (cons_pop s)" using assms p w by (simp add: ring_ok_def CONSBUFSIZE_def)
qed

lemma ring_empty: "ring_ok s \<Longrightarrow> cons_rpos s = cons_wpos s \<longleftrightarrow> cons_queue s = []"
proof -
  assume ok: "ring_ok s"
  have "cons_rpos s = cons_wpos s \<longleftrightarrow> ring_len s = 0"
  proof
    assume "cons_rpos s = cons_wpos s"
    then show "ring_len s = 0" by (simp add: ring_len_def)
  next
    assume "ring_len s = 0"
    with ring_wpos [OF ok] ok have "unat (cons_rpos s) = unat (cons_wpos s)" by (simp add: ring_ok_def)
    then show "cons_rpos s = cons_wpos s" by (simp add: word_unat_eq_iff)
  qed
  then show ?thesis by (simp add: cons_queue_def)
qed

lemma cons_pop_queue:
  assumes ok: "ring_ok s" and ne: "cons_queue s \<noteq> []"
  shows "cons_queue (cons_pop s) = tl (cons_queue s)"
    "cons_buf s (unat (cons_rpos s)) = hd (cons_queue s)"
proof -
  from ne obtain n where n: "ring_len s = Suc n" by (cases "ring_len s") (auto simp: cons_queue_def)
  have l: "ring_len (cons_pop s) = n"
  proof (rule ring_len_unique [OF cons_pop_pos(4) [OF ok]])
    show "n < CONSBUFSIZE" using ring_len_less [of s] n by simp
    have "(unat (cons_rpos s) + 1) mod CONSBUFSIZE + n = (unat (cons_rpos (cons_pop s)) + n)"
      using cons_pop_pos(1) [OF ok] by simp
    then show "(unat (cons_rpos (cons_pop s)) + n) mod CONSBUFSIZE = unat (cons_wpos (cons_pop s))"
      using ring_wpos [OF ok] n cons_pop_pos(2) [OF ok] by (metis add.assoc add_Suc_right mod_add_left_eq plus_1_eq_Suc)
  qed
  have i: "((unat (cons_rpos s) + Suc 0) mod CONSBUFSIZE + k) mod CONSBUFSIZE =
      (unat (cons_rpos s) + Suc k) mod CONSBUFSIZE" for k
    by (simp add: mod_simps)
  have u: "[0..<Suc n] = 0 # map Suc [0..<n]" by (simp add: map_Suc_upt upt_conv_Cons)
  show "cons_queue (cons_pop s) = tl (cons_queue s)"
    unfolding cons_queue_def l n u by (simp add: cons_pop_pos [OF ok] i del: add_Suc_right)
  show "cons_buf s (unat (cons_rpos s)) = hd (cons_queue s)"
    unfolding cons_queue_def n u using ok by (simp add: ring_ok_def)
qed

section \<open>Draining into the queue\<close>

lemma cons_put_serial: "cons_put c (s\<lparr>serial_rx := x\<rparr>) = (cons_put c s)\<lparr>serial_rx := x\<rparr>"
  by (simp add: cons_put_def Let_def)

lemma fold_put_serial: "fold cons_put cs (s\<lparr>serial_rx := x\<rparr>) = (fold cons_put cs s)\<lparr>serial_rx := x\<rparr>"
  by (induction cs arbitrary: s) (simp_all add: cons_put_serial)

lemma fold_put_frame [simp]:
  "serial_rx (fold cons_put cs s) = serial_rx s" "kbd_rx (fold cons_put cs s) = kbd_rx s"
  by (induction cs arbitrary: s) simp_all

lemma serial_loop:
  "length (serial_rx s) < n \<Longrightarrow> cons_intr_loop n serial_proc_data s =
    Some ((fold cons_put (filter (\<lambda>b. b \<noteq> 0) (serial_rx s)) s)\<lparr>serial_rx := []\<rparr>)"
proof (induction n arbitrary: s)
  case (Suc n)
  show ?case
  proof (cases "serial_rx s")
    case Nil
    then have "s\<lparr>serial_rx := []\<rparr> = s" by simp
    with Nil show ?thesis by (simp add: serial_proc_data_def)
  next
    case (Cons b bs)
    have ne: "uint b \<noteq> - 1" by (metis uint_ge_0 not_one_le_zero neg_0_le_iff_le)
    have e: "of_int (uint b) = b" "uint b = 0 \<longleftrightarrow> b = 0" by (simp_all add: unsigned_eq_0_iff)
    show ?thesis
      using Cons Suc.prems Suc.IH [of "s\<lparr>serial_rx := bs\<rparr>"] Suc.IH [of "cons_put b (s\<lparr>serial_rx := bs\<rparr>)"]
      by (simp add: serial_proc_data_def ne e cons_put_serial fold_put_serial)
  qed
qed simp

text \<open>
  What the ring buffer keeps of a queue it is filled with: it has room for 511 characters, and the
  512th makes it empty.
\<close>

definition ring_keep :: "'a list \<Rightarrow> 'a list" where
  "ring_keep q = drop (CONSBUFSIZE * (length q div CONSBUFSIZE)) q"

lemma ring_keep_short: "length q < CONSBUFSIZE \<Longrightarrow> ring_keep q = q"
  by (simp add: ring_keep_def)

lemma ring_keep_queue [simp]: "ring_keep (cons_queue s) = cons_queue s"
  using ring_len_less [of s] by (simp add: ring_keep_short cons_queue_def)

lemma ring_keep_append [simp]: "ring_keep (ring_keep a @ b) = ring_keep (a @ b)"
proof -
  define k where "k = length a div 512"
  have la: "length a = 512 * k + length a mod 512" by (simp add: k_def)
  have l: "length (drop (512 * k) a) = length a mod 512" using la by simp
  have "(length a + length b) div 512 = (length a mod 512 + length b) div 512 + k"
    by (subst la) (simp add: add.assoc)
  then have e: "512 * ((length a + length b) div 512) = 512 * ((length a mod 512 + length b) div 512) + 512 * k"
    by simp
  have d: "drop (512 * k) a @ b = drop (512 * k) (a @ b)" using la by simp
  show ?thesis
    unfolding ring_keep_def CONSBUFSIZE_def k_def [symmetric] length_append l e
    unfolding d drop_drop ..
qed

lemma cons_put_keep:
  assumes "ring_ok s"
  shows "cons_queue (cons_put c s) = ring_keep (cons_queue s @ [c])"
proof -
  have "length (cons_queue s) = ring_len s" by (simp add: cons_queue_def)
  with ring_len_less [of s] cons_put_queue [OF assms, of c] show ?thesis
    by (auto simp: ring_keep_def CONSBUFSIZE_def)
qed

lemma fold_put_keep:
  assumes "ring_ok s"
  shows "ring_ok (fold cons_put cs s) \<and> cons_queue (fold cons_put cs s) = ring_keep (cons_queue s @ cs)"
  using assms
proof (induction cs arbitrary: s)
  case (Cons c cs)
  from Cons.IH [OF cons_put_pos(3) [OF Cons.prems, of c]] show ?case
    by (simp add: cons_put_keep [OF Cons.prems])
qed simp

text \<open>
  The characters the keyboard gives: those the driver makes of the scan codes, under the shift state
  the ones before leave; the driver stops at a byte of the mouse.
\<close>

fun kbd_chars :: "(bool \<times> u8) list \<Rightarrow> u32 \<Rightarrow> u8 list" where
  "kbd_chars [] sh = []"
| "kbd_chars ((mouse, data) # rest) sh =
     (if mouse then []
      else case kbd_proc_data (init_console\<lparr>kbd_rx := [(mouse, data)], kbd_shift := sh\<rparr>) of
        (c, s) \<Rightarrow> (if c = 0 then [] else [of_int c]) @ kbd_chars rest (kbd_shift s))"

text \<open>The shift state they leave.\<close>

fun kbd_after :: "(bool \<times> u8) list \<Rightarrow> u32 \<Rightarrow> u32" where
  "kbd_after [] sh = sh"
| "kbd_after ((mouse, data) # rest) sh =
     (if mouse then sh
      else kbd_after rest (kbd_shift (snd
        (kbd_proc_data (init_console\<lparr>kbd_rx := [(mouse, data)], kbd_shift := sh\<rparr>)))))"

text \<open>What draining the devices leaves alone.\<close>

definition line_part where "line_part s = (serial_exists s, arrivals s)"

lemma line_put [simp]: "line_part (cons_put c s) = line_part s"
  by (simp add: line_part_def cons_put_def Let_def)

lemma line_fold_put [simp]: "line_part (fold cons_put cs s) = line_part s"
  by (induction cs arbitrary: s) simp_all

lemma line_serial [simp]: "line_part (s\<lparr>serial_rx := x\<rparr>) = line_part s"
  by (simp add: line_part_def)

lemma cons_queue_serial [simp]: "cons_queue (s\<lparr>serial_rx := x\<rparr>) = cons_queue s"
  "ring_ok (s\<lparr>serial_rx := x\<rparr>) = ring_ok s"
  by (simp_all add: cons_queue_def ring_len_def ring_ok_def)

lemma outb_if: "(if P then outb p d s else s) =
    s\<lparr>ports_out := (if P then (p, d) # ports_out s else ports_out s)\<rparr>"
  by (simp add: outb_def)

lemma kbd_step:
  assumes "kbd_rx s = (False, d) # rest"
  shows "\<exists>c u. kbd_proc_data s = (c, u) \<and> c \<noteq> - 1 \<and> kbd_rx u = rest \<and> serial_rx u = serial_rx s \<and>
    line_part u = line_part s \<and> ring_ok u = ring_ok s \<and> cons_queue u = cons_queue s \<and>
    kbd_chars (kbd_rx s) (kbd_shift s) = (if c = 0 then [] else [of_int c]) @ kbd_chars rest (kbd_shift u) \<and>
    kbd_after (kbd_rx s) (kbd_shift s) = kbd_after rest (kbd_shift u)"
proof -
  have n: "uint w \<noteq> - 1" for w :: u8 by (metis uint_ge_0 not_one_le_zero neg_0_le_iff_le)
  note simps = assms kbd_proc_data_def Let_def outb_if n ring_ok_def cons_queue_def ring_len_def line_part_def
  consider "d = 0xE0" | "d \<noteq> 0xE0" "d AND 0x80 \<noteq> 0" | "d \<noteq> 0xE0" "d AND 0x80 = 0" by blast
  then show ?thesis
    by cases (simp_all add: simps cong: if_cong split del: if_split)
qed

lemma kbd_loop:
  assumes "ring_ok s" "length (kbd_rx s) < n"
  shows "\<exists>t. cons_intr_loop n kbd_proc_data s = Some t \<and> ring_ok t \<and>
    cons_queue t = ring_keep (cons_queue s @ kbd_chars (kbd_rx s) (kbd_shift s)) \<and>
    kbd_rx t = dropWhile (\<lambda>p. \<not> fst p) (kbd_rx s) \<and> kbd_shift t = kbd_after (kbd_rx s) (kbd_shift s) \<and>
    serial_rx t = serial_rx s \<and> line_part t = line_part s"
  using assms
proof (induction n arbitrary: s)
  case (Suc n)
  show ?case
  proof (cases "kbd_rx s = [] \<or> fst (hd (kbd_rx s))")
    case True
    then show ?thesis using Suc.prems by (cases "kbd_rx s") (auto simp: kbd_proc_data_def)
  next
    case False
    then obtain d rest where k: "kbd_rx s = (False, d) # rest" by (cases "kbd_rx s") auto
    from kbd_step [OF k] obtain c u where u: "kbd_proc_data s = (c, u)" "c \<noteq> - 1" "kbd_rx u = rest"
      "serial_rx u = serial_rx s" "line_part u = line_part s" "ring_ok u" "cons_queue u = cons_queue s"
      "kbd_chars (kbd_rx s) (kbd_shift s) = (if c = 0 then [] else [of_int c]) @ kbd_chars rest (kbd_shift u)"
      "kbd_after (kbd_rx s) (kbd_shift s) = kbd_after rest (kbd_shift u)"
      using Suc.prems(1) by auto
    let ?v = "if c = 0 then u else cons_put (of_int c) u"
    have "cons_intr_loop (Suc n) kbd_proc_data s = cons_intr_loop n kbd_proc_data ?v" using u(1,2) by simp
    moreover have "ring_ok ?v" "kbd_rx ?v = rest" "serial_rx ?v = serial_rx s" "line_part ?v = line_part s"
      "kbd_shift ?v = kbd_shift u"
      "cons_queue ?v = ring_keep (cons_queue s @ (if c = 0 then [] else [of_int c]))"
      using u(3-7) cons_put_pos(3) [OF u(6)] cons_put_keep [OF u(6)] by simp_all
    ultimately show ?thesis using Suc.IH [of ?v] Suc.prems(2) k u(8,9) by simp
  qed
qed simp

lemma serial_intr_queue:
  assumes "ring_ok s"
  shows "\<exists>t. serial_intr s = Some t \<and> ring_ok t \<and>
    cons_queue t = ring_keep (cons_queue s @ (if serial_exists s then filter (\<lambda>b. b \<noteq> 0) (serial_rx s) else [])) \<and>
    serial_rx t = (if serial_exists s then [] else serial_rx s) \<and> kbd_rx t = kbd_rx s \<and>
    kbd_shift t = kbd_shift s \<and> line_part t = line_part s"
proof (cases "serial_exists s")
  case True
  let ?t = "(fold cons_put (filter (\<lambda>b. b \<noteq> 0) (serial_rx s)) s)\<lparr>serial_rx := []\<rparr>"
  have "kbd_shift (fold cons_put cs s) = kbd_shift s" for cs s
    by (induction cs arbitrary: s) simp_all
  moreover have "serial_intr s = Some ?t"
    using serial_loop [of s "Suc (length (serial_rx s) + length (kbd_rx s))"] True
    by (simp add: serial_intr_def cons_intr_def)
  ultimately show ?thesis using True fold_put_keep [OF assms] by simp
qed (use assms in \<open>simp add: serial_intr_def\<close>)

text \<open>
  The input, as \<open>cons_getc\<close> finds it: what waits in the buffer, in the serial port and in the
  keyboard, in this order.
\<close>

definition cons_input :: "console \<Rightarrow> u8 list" where
  "cons_input s = cons_queue s @ (if serial_exists s then filter (\<lambda>b. b \<noteq> 0) (serial_rx s) else []) @
     kbd_chars (kbd_rx s) (kbd_shift s)"

lemma cons_getc_queue:
  assumes "ring_ok s"
  shows "\<exists>t. cons_getc s = Some (case ring_keep (cons_input s) of [] \<Rightarrow> 0 | c # _ \<Rightarrow> ucast c, t) \<and>
    cons_queue t = tl (ring_keep (cons_input s)) \<and> ring_ok t \<and>
    serial_rx t = (if serial_exists s then [] else serial_rx s) \<and>
    kbd_rx t = dropWhile (\<lambda>p. \<not> fst p) (kbd_rx s) \<and> kbd_shift t = kbd_after (kbd_rx s) (kbd_shift s) \<and>
    line_part t = line_part s"
proof -
  from serial_intr_queue [OF assms] obtain u where u: "serial_intr s = Some u" "ring_ok u"
    "cons_queue u = ring_keep (cons_queue s @ (if serial_exists s then filter (\<lambda>b. b \<noteq> 0) (serial_rx s) else []))"
    "serial_rx u = (if serial_exists s then [] else serial_rx s)" "kbd_rx u = kbd_rx s"
    "kbd_shift u = kbd_shift s" "line_part u = line_part s" by blast
  from kbd_loop [OF u(2), of "Suc (length (serial_rx u) + length (kbd_rx u))"] obtain v where
    v: "kbd_intr u = Some v" "ring_ok v" "cons_queue v = ring_keep (cons_input s)"
      "kbd_rx v = dropWhile (\<lambda>p. \<not> fst p) (kbd_rx s)"
      "kbd_shift v = kbd_after (kbd_rx s) (kbd_shift s)" "serial_rx v = serial_rx u" "line_part v = line_part s"
    using u(3,5,6,7) by (auto simp: kbd_intr_def cons_intr_def cons_input_def)
  have g: "cons_getc s = (if cons_rpos v \<noteq> cons_wpos v
      then Some (ucast (cons_buf v (unat (cons_rpos v))), cons_pop v) else Some (0, v))"
    using u(1) v(1) by (simp add: cons_getc_def cons_pop_def Let_def)
  have p: "serial_rx (cons_pop v) = serial_rx v" "kbd_rx (cons_pop v) = kbd_rx v"
    "kbd_shift (cons_pop v) = kbd_shift v" "line_part (cons_pop v) = line_part v" by (simp_all add: cons_pop_def Let_def line_part_def)
  show ?thesis
  proof (cases "ring_keep (cons_input s)")
    case Nil
    with g v ring_empty [OF v(2)] u(4) show ?thesis by simp
  next
    case (Cons c cs)
    then have "cons_queue v \<noteq> []" using v(3) by simp
    with Cons g v u(4) p ring_empty [OF v(2)] cons_pop_queue [OF v(2)] cons_pop_pos(4) [OF v(2)]
    show ?thesis by simp
  qed
qed

section \<open>The screen\<close>

definition screen_ok :: "(nat \<Rightarrow> u16) \<Rightarrow> console \<Rightarrow> bool" where
  "screen_ok B s \<longleftrightarrow> unat (crt_pos s) < CRT_SIZE \<and> (\<forall>i\<ge>CRT_SIZE. crt_buf s i = B i)"

lemma crt_consts: "CRT_SIZE = 2000" "CRT_COLS = 80"
  by (simp_all add: CRT_SIZE_def CRT_ROWS_def CRT_COLS_def)

lemma cga_cursor_frame [simp]: "crt_pos (cga_cursor s) = crt_pos s" "crt_buf (cga_cursor s) = crt_buf s"
  by (simp_all add: cga_cursor_def outb_def Let_def)

lemma ports_frame [simp]:
  "crt_pos (lpt_putc c s) = crt_pos s" "crt_buf (lpt_putc c s) = crt_buf s"
  "crt_pos (serial_putc c s) = crt_pos s" "crt_buf (serial_putc c s) = crt_buf s"
  by (simp_all add: lpt_putc_def serial_putc_def outb_def)

lemma screen_ok_ports [simp]:
  "screen_ok B (cga_cursor s) = screen_ok B s" "screen_ok B (lpt_putc c s) = screen_ok B s"
  "screen_ok B (serial_putc c s) = screen_ok B s"
  by (simp_all add: screen_ok_def)

lemma cga_scroll_ok:
  assumes "unat (crt_pos s) < CRT_SIZE + CRT_COLS" "\<forall>i\<ge>CRT_SIZE. crt_buf s i = B i"
  shows "screen_ok B (cga_scroll s)"
proof (cases "CRT_SIZE \<le> unat (crt_pos s)")
  case True
  have "(80::u16) \<le> crt_pos s" using True by (simp add: word_le_nat_alt crt_consts)
  then have "unat (crt_pos s - 80) = unat (crt_pos s) - 80" by (simp add: unat_sub)
  with True assms show ?thesis by (simp add: cga_scroll_def screen_ok_def crt_consts)
qed (use assms in \<open>simp_all add: cga_scroll_def screen_ok_def\<close>)

lemma screen_ok_scroll: "screen_ok B s \<Longrightarrow> screen_ok B (cga_scroll s)"
  by (rule cga_scroll_ok) (auto simp: screen_ok_def)

lemma unat_crt_add:
  fixes p :: u16
  assumes "unat p < 2000" "n \<le> 80"
  shows "unat (p + of_nat n) = unat p + n"
  using assms by (simp add: unat_word_ariths take_bit_nat_def unat_of_nat)

lemma unat_line_start:
  fixes p :: u16
  shows "unat (p - p mod 80) = unat p - unat p mod 80"
proof -
  have m: "unat (p mod 80) = unat p mod 80" by (simp add: unat_mod_distrib)
  have "p mod 80 \<le> p" by (simp add: word_le_nat_alt m)
  then show ?thesis by (simp add: unat_sub m)
qed

lemma cga_putc_with_ok:
  assumes putc: "\<And>s. screen_ok B s \<Longrightarrow> screen_ok B (putc 32 s)" and ok: "screen_ok B s"
  shows "screen_ok B (cga_putc_with putc c s)"
proof -
  have p: "unat (crt_pos s) < 2000" and B: "\<forall>i\<ge>CRT_SIZE. crt_buf s i = B i"
    using ok by (simp_all add: screen_ok_def crt_consts)
  have a: "unat (crt_pos s + 80) = unat (crt_pos s) + 80" "unat (crt_pos s + 1) = unat (crt_pos s) + 1"
    using unat_crt_add [OF p, of 80] unat_crt_add [OF p, of 1] by simp_all
  have d: "unat (crt_pos s - 1) < 2000" if "0 < crt_pos s"
  proof -
    from that have "1 \<le> crt_pos s" by (simp add: word_le_nat_alt word_less_nat_alt)
    with p show ?thesis by (simp add: unat_sub)
  qed
  have tab: "screen_ok B (cga_scroll (putc 32 (putc 32 (putc 32 (putc 32 (putc 32 s))))))"
    by (intro screen_ok_scroll putc ok)
  have bs: "screen_ok B (cga_scroll (s\<lparr>crt_pos := crt_pos s - 1,
      crt_buf := (crt_buf s)(unat (crt_pos s - 1) := x)\<rparr>))" if "0 < crt_pos s" for x
    using d [OF that] B by (intro cga_scroll_ok) (auto simp: crt_consts)
  have nl: "screen_ok B (cga_scroll (s\<lparr>crt_pos := q - q mod 80\<rparr>))"
    if "q = crt_pos s \<or> q = crt_pos s + 80" for q
    using that p a(1) B by (intro cga_scroll_ok) (auto simp: crt_consts unat_line_start)
  have ch: "screen_ok B (cga_scroll (s\<lparr>crt_buf := (crt_buf s)(unat (crt_pos s) := x),
      crt_pos := crt_pos s + 1\<rparr>))" for x
    using p a(2) B by (intro cga_scroll_ok) (auto simp: crt_consts)
  show ?thesis
    using tab bs nl ch screen_ok_scroll [OF ok]
    by (simp add: cga_putc_with_def Let_def crt_consts)
qed

lemma cons_putc_screen_ok: "screen_ok B s \<Longrightarrow> screen_ok B (cons_putc c s)"
proof -
  assume ok: "screen_ok B s"
  have blank: "screen_ok B (cons_putc_blank 32 u)" if "screen_ok B u" for u
    unfolding cons_putc_blank_def by (rule cga_putc_with_ok) (use that in simp_all)
  show ?thesis
    unfolding cons_putc_def cga_putc_def
    by (rule cga_putc_with_ok) (use ok in \<open>simp_all add: blank\<close>)
qed

section \<open>Properties\<close>

lemma cons_getc_returns: "\<exists>c t. cons_getc s = Some (c, t)"
proof -
  obtain u where u: "serial_intr s = Some u"
    using cons_intr_Some [OF serial_drains, of s]
    by (cases "serial_exists s") (auto simp: serial_intr_def)
  obtain v where "kbd_intr u = Some v"
    using cons_intr_Some [OF kbd_drains, of u] by (auto simp: kbd_intr_def)
  with u show ?thesis by (auto simp: cons_getc_def Let_def)
qed

text \<open>
  C17: \<open>cons_getc\<close> always returns: the loops of \<open>cons_intr\<close> over the serial and the keyboard driver
  end, whatever the devices hold, because each round that does not end them takes a byte.
\<close>

theorem cons_getc_terminates: "\<exists>c t. cons_getc s = Some (c, t)"
  by (rule cons_getc_returns)

text \<open>
  C16: The console is a queue of characters with room for 511. A call of \<open>cons_getc\<close> puts at its end
  the nonzero bytes that wait in the serial port, if there is one, and then the characters the
  keyboard driver makes of the waiting scan codes, in order; it returns the oldest character of all,
  or 0 if there is none, and leaves the others in order, the devices drained (the keyboard up to a
  byte of the mouse). When the queue would reach 512 characters, those 512 are dropped, and
  filling goes on with the next: whatever the buffer and the devices hold, this is the result.
\<close>

theorem cons_getc_fifo:
  assumes "ring_ok s"
  defines "q \<equiv> cons_queue s @ (if serial_exists s then filter (\<lambda>b. b \<noteq> 0) (serial_rx s) else []) @
    kbd_chars (kbd_rx s) (kbd_shift s)"
  defines "r \<equiv> drop (512 * (length q div 512)) q"
  shows "\<exists>t. cons_getc s = Some (case r of [] \<Rightarrow> 0 | c # _ \<Rightarrow> ucast c, t) \<and>
    cons_queue t = tl r \<and> ring_ok t \<and>
    serial_rx t = (if serial_exists s then [] else serial_rx s) \<and>
    kbd_rx t = dropWhile (\<lambda>(mouse, _). \<not> mouse) (kbd_rx s)"
proof -
  have "ring_keep (cons_input s) = r"
    by (simp add: ring_keep_def cons_input_def q_def r_def CONSBUFSIZE_def)
  with cons_getc_queue [OF assms(1)] show ?thesis by (auto simp: case_prod_unfold)
qed

text \<open>
  When the 512th character arrives before any was read, the write position meets the read
  position and the buffer counts as empty: all 512 characters are lost and \<open>cons_getc\<close> reports
  that no input is waiting.
\<close>

theorem cons_buffer_overflow_loses_all:
  assumes "ring_ok s" "serial_exists s" "kbd_rx s = []" "serial_rx s = [c]" "c \<noteq> 0"
    "length (cons_queue s) = CONSBUFSIZE - 1"
  shows "\<exists>t. cons_getc s = Some (0, t) \<and> cons_queue t = []"
proof -
  have "ring_keep (cons_input s) = []"
    using assms(2-) by (simp add: ring_keep_def cons_input_def CONSBUFSIZE_def)
  with cons_getc_queue [OF assms(1)] show ?thesis by auto
qed

text \<open>
  Whatever is printed, a cursor that is on the 25 by 80 screen stays on it, and no cell of the
  buffer beyond the screen is written; \<open>cs\<close> is any sequence of characters, with tabs, newlines and
  backspaces.
\<close>

theorem cons_putc_stays_on_screen:
  assumes "unat (crt_pos s) < CRT_SIZE" "CRT_SIZE \<le> i"
  shows "unat (crt_pos (fold cons_putc cs s)) < CRT_SIZE \<and>
    crt_buf (fold cons_putc cs s) i = crt_buf s i"
proof -
  have "screen_ok (crt_buf s) s \<Longrightarrow> screen_ok (crt_buf s) (fold cons_putc cs s)"
    by (rule fold_invariant [where Q = "\<lambda>_. True"]) (simp_all add: cons_putc_screen_ok)
  with assms show ?thesis by (simp add: screen_ok_def)
qed

section \<open>Witnesses\<close>

text \<open>A console with two bytes in the UART, and one whose buffer is full but for one byte.\<close>

definition rx_console :: console where
  "rx_console = init_console\<lparr>serial_exists := True, serial_rx := [104, 105]\<rparr>"

definition full_console :: console where
  "full_console = init_console\<lparr>serial_exists := True, serial_rx := [104], cons_wpos := 511\<rparr>"

definition key_console :: console where
  "key_console = rx_console\<lparr>kbd_rx := [(False, 0x1E), (False, 0x9E), (True, 0x08), (False, 0x1E)]\<rparr>"

theorem cons_getc_fifo_witness:
  "(\<exists>t. cons_getc key_console = Some (104, t) \<and> cons_queue t = [105, 97] \<and>
      kbd_rx t = [(True, 0x08), (False, 0x1E)]) \<and>
    (\<exists>t. cons_getc (full_console\<lparr>serial_rx := [104, 105]\<rparr>) = Some (105, t) \<and> cons_queue t = [])"
proof -
  have r: "cons_queue key_console = []" "ring_ok key_console" "serial_exists key_console"
    "kbd_rx key_console = [(False, 0x1E), (False, 0x9E), (True, 0x08), (False, 0x1E)]"
    "kbd_shift key_console = 0" "serial_rx key_console = [104, 105]"
    by (simp_all add: key_console_def rx_console_def init_console_def cons_queue_def ring_len_def ring_ok_def CONSBUFSIZE_def)
  have "kbd_chars (kbd_rx key_console) (kbd_shift key_console) = [97]"
    unfolding r by code_simp
  with r(1,3,4,6) cons_getc_fifo [OF r(2)]
  have k: "\<exists>t. cons_getc key_console = Some (104, t) \<and> cons_queue t = [105, 97] \<and>
      kbd_rx t = [(True, 0x08), (False, 0x1E)]" by auto
  let ?f = "full_console\<lparr>serial_rx := [104, 105]\<rparr>"
  have f: "length (cons_queue full_console) = 511" "ring_ok ?f" "serial_exists ?f" "kbd_rx ?f = []" "serial_rx ?f = [104, 105]"
    by (simp_all add: full_console_def init_console_def cons_queue_def ring_len_def ring_ok_def CONSBUFSIZE_def)
  from f(1,3,4,5) cons_getc_fifo [OF f(2)]
  have "\<exists>t. cons_getc ?f = Some (105, t) \<and> cons_queue t = []" by auto
  with k show ?thesis by blast
qed

theorem cons_buffer_overflow_witness:
  "\<exists>t. cons_getc full_console = Some (0, t) \<and> cons_queue t = []"
proof -
  have r: "length (cons_queue full_console) = CONSBUFSIZE - 1" "ring_ok full_console"
    "serial_exists full_console" "kbd_rx full_console = []" "serial_rx full_console = [104]"
    by (simp_all add: full_console_def init_console_def cons_queue_def ring_len_def ring_ok_def CONSBUFSIZE_def)
  from cons_buffer_overflow_loses_all [OF r(2,3,4,5) _ r(1)] show ?thesis by simp
qed

theorem cons_putc_screen_witness:
  "unat (crt_pos (fold cons_putc [97, 10, 9, 98] init_console)) < CRT_SIZE \<and>
    crt_buf (fold cons_putc [97, 10, 9, 98] init_console) 2000 = crt_buf init_console 2000"
proof -
  have "unat (crt_pos init_console) < CRT_SIZE" "CRT_SIZE \<le> 2000"
    by (simp_all add: init_console_def crt_consts)
  from cons_putc_stays_on_screen [OF this] show ?thesis by blast
qed

end
