(* ===== verification/Jos_Machine.thy ===== *)
theory Jos_Machine
  imports Jos_Spinlock Jos_Console
begin

text \<open>
  The data the kernel keeps: the \<open>struct\<close>s of inc/memlayout.h, inc/trap.h, inc/env.h and
  kern/cpu.h as records, and the state of the kernel as one of its CPUs sees it. Pointers into
  the arrays \<open>pages\<close> and \<open>envs\<close> are indices, \<open>NULL\<close> is \<open>None\<close>. Physical memory is a function
  from page frames and word indices to 32-bit words; a page directory or page table, which
  always fills one frame, is denoted by its frame number.
\<close>

section \<open>Structures\<close>

record PageInfo =
  pp_link :: "nat option"
  pp_ref :: u16

record PushRegs =
  reg_edi :: u32
  reg_esi :: u32
  reg_ebp :: u32
  reg_oesp :: u32
  reg_ebx :: u32
  reg_edx :: u32
  reg_ecx :: u32
  reg_eax :: u32

record Trapframe =
  tf_regs :: PushRegs
  tf_es :: u16
  tf_ds :: u16
  tf_trapno :: u32
  tf_err :: u32
  tf_eip :: u32
  tf_cs :: u16
  tf_eflags :: u32
  tf_esp :: u32
  tf_ss :: u16

record UTrapframe =
  utf_fault_va :: u32
  utf_err :: u32
  utf_regs :: PushRegs
  utf_eip :: u32
  utf_eflags :: u32
  utf_esp :: u32

datatype EnvStatus = ENV_FREE | ENV_DYING | ENV_RUNNABLE | ENV_RUNNING | ENV_NOT_RUNNABLE

fun env_status_code :: "EnvStatus \<Rightarrow> u32" where
  "env_status_code ENV_FREE = 0"
| "env_status_code ENV_DYING = 1"
| "env_status_code ENV_RUNNABLE = 2"
| "env_status_code ENV_RUNNING = 3"
| "env_status_code ENV_NOT_RUNNABLE = 4"

datatype EnvType = ENV_TYPE_USER

record Env =
  env_tf :: Trapframe
  env_link :: "nat option"
  env_id :: u32
  env_parent_id :: u32
  env_type :: EnvType
  env_status :: EnvStatus
  env_runs :: u32
  env_cpunum :: nat
  env_pgdir :: "nat option"
  env_pgfault_upcall :: u32
  env_ipc_recving :: bool
  env_ipc_dstva :: u32
  env_ipc_value :: u32
  env_ipc_from :: u32
  env_ipc_perm :: u32

definition LOG2NENV :: nat where "LOG2NENV = 10"
definition NENV :: nat where "NENV = 2 ^ LOG2NENV"
definition ENVX :: "u32 \<Rightarrow> nat" where "ENVX envid = unat (envid AND (of_nat NENV - 1))"

datatype CpuStatus = CPU_UNUSED | CPU_STARTED | CPU_HALTED

text \<open>The fields of the task state segment that the kernel sets.\<close>

record CpuInfo =
  cpu_id :: u8
  cpu_status :: CpuStatus
  cpu_env :: "nat option"
  ts_esp0 :: u32
  ts_ss0 :: u16
  ts_iomb :: u16

definition NCPU :: nat where "NCPU = 8"

section \<open>Error codes (inc/error.h)\<close>

definition E_UNSPECIFIED :: int where "E_UNSPECIFIED = 1"
definition E_BAD_ENV :: int where "E_BAD_ENV = 2"
definition E_INVAL :: int where "E_INVAL = 3"
definition E_NO_MEM :: int where "E_NO_MEM = 4"
definition E_NO_FREE_ENV :: int where "E_NO_FREE_ENV = 5"
definition E_FAULT :: int where "E_FAULT = 6"
definition E_IPC_NOT_RECV :: int where "E_IPC_NOT_RECV = 7"
definition E_EOF :: int where "E_EOF = 8"
definition MAXERROR :: int where "MAXERROR = 9"

lemmas error_defs = E_UNSPECIFIED_def E_BAD_ENV_def E_INVAL_def E_NO_MEM_def E_NO_FREE_ENV_def
  E_FAULT_def E_IPC_NOT_RECV_def E_EOF_def MAXERROR_def

section \<open>The kernel state\<close>

text \<open>
  \<open>npages\<close> to \<open>user_mem_check_addr\<close> are the variables of kern/pmap.c, \<open>envs\<close> and
  \<open>env_free_list\<close> those of kern/env.c, \<open>cpus\<close> that of kern/mpconfig.c. \<open>this_cpu\<close> is the CPU
  that executes, \<open>cr3\<close> the frame of the page directory it has loaded, \<open>tlb_flushes\<close> the
  addresses it invalidated, newest first, and \<open>cons\<close> the console (kern/console.c).
\<close>

record kstate =
  npages :: nat
  npages_basemem :: nat
  nextfree :: u32
  kmem :: "nat \<Rightarrow> nat \<Rightarrow> u32"
  pages :: "nat \<Rightarrow> PageInfo"
  page_free_list :: "nat option"
  kern_pgdir :: nat
  mmio_base :: u32
  user_mem_check_addr :: u32
  envs :: "nat \<Rightarrow> Env"
  env_free_list :: "nat option"
  cpus :: "nat \<Rightarrow> CpuInfo"
  this_cpu :: nat
  kernel_lock :: spinlock
  cr3 :: nat
  tlb_flushes :: "u32 list"
  cons :: console

type_synonym 'a kres = "(kstate, 'a) outcome"

definition curenv :: "kstate \<Rightarrow> nat option" where
  "curenv s = cpu_env (cpus s (this_cpu s))"

definition upd_this_cpu :: "(CpuInfo \<Rightarrow> CpuInfo) \<Rightarrow> kstate \<Rightarrow> kstate" where
  "upd_this_cpu f s = s\<lparr>cpus := (cpus s)(this_cpu s := f (cpus s (this_cpu s)))\<rparr>"

definition set_curenv :: "nat option \<Rightarrow> kstate \<Rightarrow> kstate" where
  "set_curenv e s = upd_this_cpu (\<lambda>c. c\<lparr>cpu_env := e\<rparr>) s"

definition upd_page :: "nat \<Rightarrow> (PageInfo \<Rightarrow> PageInfo) \<Rightarrow> kstate \<Rightarrow> kstate" where
  "upd_page p f s = s\<lparr>pages := (pages s)(p := f (pages s p))\<rparr>"

definition upd_env :: "nat \<Rightarrow> (Env \<Rightarrow> Env) \<Rightarrow> kstate \<Rightarrow> kstate" where
  "upd_env e f s = s\<lparr>envs := (envs s)(e := f (envs s e))\<rparr>"

definition wr_word :: "nat \<Rightarrow> nat \<Rightarrow> u32 \<Rightarrow> kstate \<Rightarrow> kstate" where
  "wr_word p i v s = s\<lparr>kmem := (kmem s)(p := (kmem s p)(i := v))\<rparr>"

definition zero_page :: "nat \<Rightarrow> kstate \<Rightarrow> kstate" where
  "zero_page p s = s\<lparr>kmem := (kmem s)(p := (\<lambda>_. 0))\<rparr>"

lemmas kstate_upd_defs = upd_this_cpu_def set_curenv_def upd_page_def upd_env_def wr_word_def
  zero_page_def

lemma curenv_set_curenv [simp]: "curenv (set_curenv e s) = e"
  by (simp add: curenv_def set_curenv_def upd_this_cpu_def)

lemma ENVX_mod: "ENVX x = unat x mod 1024"
proof -
  have "x AND (of_nat NENV - 1) = x AND mask LOG2NENV"
    by (simp add: NENV_def LOG2NENV_def mask_eq_exp_minus_1)
  then show ?thesis
    by (simp add: ENVX_def NENV_def LOG2NENV_def unsigned_take_bit_eq take_bit_eq_mod
        flip: take_bit_eq_mask) (simp add: take_bit_eq_mod unat_mod_distrib)
qed

lemma ENVX_less: "ENVX x < NENV"
  by (simp add: ENVX_mod NENV_def LOG2NENV_def)

section \<open>The kernel image before any code has run\<close>

text \<open>All variables of the kernel are zero (its bss); the states of the witnesses start from it.\<close>

definition zero_PushRegs :: PushRegs where
  "zero_PushRegs = \<lparr>reg_edi = 0, reg_esi = 0, reg_ebp = 0, reg_oesp = 0, reg_ebx = 0, reg_edx = 0,
     reg_ecx = 0, reg_eax = 0\<rparr>"

definition zero_Trapframe :: Trapframe where
  "zero_Trapframe = \<lparr>tf_regs = zero_PushRegs, tf_es = 0, tf_ds = 0, tf_trapno = 0, tf_err = 0,
     tf_eip = 0, tf_cs = 0, tf_eflags = 0, tf_esp = 0, tf_ss = 0\<rparr>"

definition zero_Env :: Env where
  "zero_Env = \<lparr>env_tf = zero_Trapframe, env_link = None, env_id = 0, env_parent_id = 0,
     env_type = ENV_TYPE_USER, env_status = ENV_FREE, env_runs = 0, env_cpunum = 0,
     env_pgdir = None, env_pgfault_upcall = 0, env_ipc_recving = False, env_ipc_dstva = 0,
     env_ipc_value = 0, env_ipc_from = 0, env_ipc_perm = 0\<rparr>"

definition zero_CpuInfo :: CpuInfo where
  "zero_CpuInfo = \<lparr>cpu_id = 0, cpu_status = CPU_UNUSED, cpu_env = None, ts_esp0 = 0, ts_ss0 = 0,
     ts_iomb = 0\<rparr>"

definition bss_state :: kstate where
  "bss_state = \<lparr>npages = 0, npages_basemem = 0, nextfree = 0, kmem = (\<lambda>_ _. 0),
     pages = (\<lambda>_. \<lparr>pp_link = None, pp_ref = 0\<rparr>), page_free_list = None, kern_pgdir = 0,
     mmio_base = MMIOBASE, user_mem_check_addr = 0, envs = (\<lambda>_. zero_Env), env_free_list = None,
     cpus = (\<lambda>_. zero_CpuInfo), this_cpu = 0,
     kernel_lock = \<lparr>locked = 0, lk_name = ''kernel_lock'', lk_cpu = None, lk_pcs = []\<rparr>,
     cr3 = 0, tlb_flushes = [], cons = init_console\<rparr>"

end
