(* ===== verification/Jos_PageAlloc.thy ===== *)
theory Jos_PageAlloc
  imports Jos_Machine
begin

text \<open>
  The physical memory part of kern/pmap.c: memory detection, the boot allocator, and the
  reference-counted page allocator on the intrusive list \<open>page_free_list\<close>; with the address
  conversions of kern/pmap.h.
\<close>

section \<open>Address conversions (kern/pmap.h)\<close>

definition page2pa :: "nat \<Rightarrow> u32" where
  "page2pa pp = push_bit 12 (of_nat pp)"

definition pa2page :: "u32 \<Rightarrow> kstate \<Rightarrow> nat kres" where
  "pa2page pa s =
     (if npages s \<le> unat (PGNUM pa) then Panic ''pa2page called with invalid pa''
      else Ret (unat (PGNUM pa)) s)"

definition kaddr :: "u32 \<Rightarrow> kstate \<Rightarrow> u32 kres" where
  "kaddr pa s =
     (if npages s \<le> unat (PGNUM pa) then Panic ''KADDR called with invalid pa''
      else Ret (pa + KERNBASE) s)"

definition paddr :: "u32 \<Rightarrow> kstate \<Rightarrow> u32 kres" where
  "paddr kva s =
     (if kva < KERNBASE then Panic ''PADDR called with invalid kva'' else Ret (kva - KERNBASE) s)"

text \<open>The frame a kernel virtual address above \<open>KERNBASE\<close> lies in.\<close>

definition kva_frame :: "u32 \<Rightarrow> nat" where
  "kva_frame kva = unat (PGNUM (kva - KERNBASE))"

definition page2kva :: "nat \<Rightarrow> kstate \<Rightarrow> u32 kres" where
  "page2kva pp s = kaddr (page2pa pp) s"

section \<open>Detecting memory, the boot allocator\<close>

text \<open>
  \<open>cmos r\<close> is the byte the real-time clock returns for register \<open>r\<close> (\<open>mc146818_read\<close>), hardware
  outside the program.
\<close>

definition nvram_read :: "(nat \<Rightarrow> u32) \<Rightarrow> nat \<Rightarrow> u32" where
  "nvram_read cmos r = cmos r OR push_bit 8 (cmos (r + 1))"

definition NVRAM_BASELO :: nat where "NVRAM_BASELO = 0xe + 7"
definition NVRAM_EXTLO :: nat where "NVRAM_EXTLO = 0xe + 9"
definition NVRAM_EXT16LO :: nat where "NVRAM_EXT16LO = 0xe + 38"

definition i386_detect_memory :: "(nat \<Rightarrow> u32) \<Rightarrow> kstate \<Rightarrow> kstate" where
  "i386_detect_memory cmos s =
     (let basemem = nvram_read cmos NVRAM_BASELO;
          extmem = nvram_read cmos NVRAM_EXTLO;
          ext16mem = nvram_read cmos NVRAM_EXT16LO * 64;
          totalmem = (if ext16mem \<noteq> 0 then 16 * 1024 + ext16mem
                      else if extmem \<noteq> 0 then 1 * 1024 + extmem
                      else basemem)
      in s\<lparr>npages := unat (totalmem div (PGSIZE div 1024)),
           npages_basemem := unat (basemem div (PGSIZE div 1024))\<rparr>)"

text \<open>\<open>kend\<close> is the address of the linker symbol \<open>end\<close>.\<close>

definition boot_alloc :: "u32 \<Rightarrow> (nat \<Rightarrow> u32) \<Rightarrow> u32 \<Rightarrow> kstate \<Rightarrow> u32 kres" where
  "boot_alloc kend cmos n s =
     (let s = (if nextfree s = 0 then s\<lparr>nextfree := ROUNDUP (kend + 1) PGSIZE\<rparr> else s)
      in if n = 0 then Ret (nextfree s) s
         else
           (let s = i386_detect_memory cmos s
            in if npages s = 0 \<or> of_nat (npages s) * 4096 < n
               then Panic ''there is not enough physical memory for this boot_alloc''
               else
                 (let new_nextfree = ROUNDUP (nextfree s + n) PGSIZE;
                      prev_nextfree = nextfree s
                  in Ret prev_nextfree (s\<lparr>nextfree := new_nextfree\<rparr>))))"

section \<open>The page allocator\<close>

text \<open>
  One round of the loop of \<open>page_init\<close>; \<open>pages_addr\<close> is the address of the kernel variable
  \<open>pages\<close>, fixed by the linker.
\<close>

definition page_init_ref :: "u32 \<Rightarrow> nat \<Rightarrow> nat \<Rightarrow> u16" where
  "page_init_ref pages_addr basemem i =
     (let pages_init_bytes = pages_addr - KERNBASE in
      if i = 0 \<or> page2pa i = MPENTRY_PADDR then 1
      else if i < basemem then 0
      else if i \<ge> basemem \<and> i < basemem + 384000 div 4096 then 1
      else if i \<ge> basemem + 384000 div 4096 \<and>
              i < basemem + 384000 div 4096 + unat (pages_init_bytes div PGSIZE) then 1
      else 0)"

definition page_init_step :: "u32 \<Rightarrow> nat \<Rightarrow> kstate \<Rightarrow> kstate" where
  "page_init_step pages_addr i s =
     (let s = upd_page i (\<lambda>p. p\<lparr>pp_ref := page_init_ref pages_addr (npages_basemem s) i\<rparr>) s
      in if pp_ref (pages s i) = 0
         then (upd_page i (\<lambda>p. p\<lparr>pp_link := page_free_list s\<rparr>) s)\<lparr>page_free_list := Some i\<rparr>
         else s)"

definition page_init :: "u32 \<Rightarrow> kstate \<Rightarrow> kstate" where
  "page_init pages_addr s =
     fold (page_init_step pages_addr) [0..<npages s] (s\<lparr>page_free_list := None\<rparr>)"

definition ALLOC_ZERO :: u32 where "ALLOC_ZERO = 1"

definition page_alloc :: "u32 \<Rightarrow> kstate \<Rightarrow> nat option kres" where
  "page_alloc alloc_flags s =
     (case page_free_list s of
        None \<Rightarrow> Ret None s
      | Some new_page \<Rightarrow>
          (let s = s\<lparr>page_free_list := pp_link (pages s new_page)\<rparr>;
               s = upd_page new_page (\<lambda>p. p\<lparr>pp_link := None\<rparr>) s
           in if alloc_flags \<noteq> 0 \<and> ALLOC_ZERO = 1
              then bindO (page2kva new_page s) (\<lambda>kva s.
                     Ret (Some new_page) (zero_page (kva_frame kva) s))
              else Ret (Some new_page) (upd_page new_page (\<lambda>p. p\<lparr>pp_ref := 0\<rparr>) s)))"

definition page_free :: "nat \<Rightarrow> kstate \<Rightarrow> unit kres" where
  "page_free pp s =
     (if pp_ref (pages s pp) \<noteq> 0 \<or> pp_link (pages s pp) \<noteq> None
      then Panic ''in page_free but this page either has a ref count > 0 or a next pointer''
      else
        (let s = upd_page pp (\<lambda>p. p\<lparr>pp_link := page_free_list s\<rparr>) s
         in Ret () (s\<lparr>page_free_list := Some pp\<rparr>)))"

definition page_decref :: "nat \<Rightarrow> kstate \<Rightarrow> unit kres" where
  "page_decref pp s =
     (let s = upd_page pp (\<lambda>p. p\<lparr>pp_ref := pp_ref p - 1\<rparr>) s
      in if pp_ref (pages s pp) = 0 then page_free pp s else Ret () s)"

section \<open>Facts on the conversions\<close>

lemma unat_page2pa: "p < 2 ^ 20 \<Longrightarrow> unat (page2pa p) = p * 4096"
proof -
  assume "p < 2 ^ 20"
  then have "p * 4096 < 2 ^ 32" by simp
  then show ?thesis
    by (simp add: page2pa_def push_bit_eq_mult unat_word_ariths unat_of_nat take_bit_eq_mod)
qed

lemma PGNUM_page2pa: "p < 2 ^ 20 \<Longrightarrow> unat (PGNUM (page2pa p)) = p"
  by (simp add: unat_PGNUM unat_page2pa)

lemma PTE_ADDR_page2pa [simp]: "PTE_ADDR (page2pa p) = page2pa p"
  by (rule bit_eqI) (auto simp: PTE_ADDR_push page2pa_def bit_simps dest: bit_imp_le_length)

lemma PGNUM_page2pa_flags:
  "p < 2 ^ 20 \<Longrightarrow> PTE_ADDR f = 0 \<Longrightarrow> unat (PGNUM (page2pa p OR f)) = p"
  by (simp add: PGNUM_or PGNUM_flags PGNUM_page2pa)

lemma kva_frame_kaddr: "kva_frame (pa + KERNBASE) = unat (PGNUM pa)"
  by (simp add: kva_frame_def)

lemma kaddr_page2pa: "p < npages s \<Longrightarrow> p < 2 ^ 20 \<Longrightarrow> kaddr (page2pa p) s = Ret (page2pa p + KERNBASE) s"
  by (simp add: kaddr_def PGNUM_page2pa)

lemma page2kva_frame:
  "p < npages s \<Longrightarrow> p < 2 ^ 20 \<Longrightarrow>
   page2kva p s = Ret (page2pa p + KERNBASE) s \<and> kva_frame (page2pa p + KERNBASE) = p"
  by (simp add: page2kva_def kaddr_page2pa kva_frame_kaddr PGNUM_page2pa)

lemma page2pa_inj: "p < 2 ^ 20 \<Longrightarrow> q < 2 ^ 20 \<Longrightarrow> page2pa p = page2pa q \<longleftrightarrow> p = q"
  by (metis PGNUM_page2pa)

lemma kaddr_Ret_iff:
  "kaddr pa s = Ret k t \<longleftrightarrow> unat (PGNUM pa) < npages s \<and> k = pa + KERNBASE \<and> t = s"
  by (auto simp: kaddr_def)

lemma pa2page_Ret_iff:
  "pa2page pa s = Ret p t \<longleftrightarrow> unat (PGNUM pa) < npages s \<and> p = unat (PGNUM pa) \<and> t = s"
  by (auto simp: pa2page_def)

text \<open>
  What the allocator returns, as one equation per branch: the list is empty, or its head is
  handed out (and cleared, if asked for).
\<close>

lemma page_alloc_empty: "page_free_list s = None \<Longrightarrow> page_alloc f s = Ret None s"
  by (simp add: page_alloc_def)

definition popped :: "u32 \<Rightarrow> nat \<Rightarrow> kstate \<Rightarrow> kstate" where
  "popped f p s =
     (let t = upd_page p (\<lambda>i. i\<lparr>pp_link := None\<rparr>) (s\<lparr>page_free_list := pp_link (pages s p)\<rparr>)
      in if f \<noteq> 0 then zero_page p t else upd_page p (\<lambda>i. i\<lparr>pp_ref := 0\<rparr>) t)"

lemma page_alloc_some:
  assumes "page_free_list s = Some p" "p < npages s" "npages s \<le> 2 ^ 20"
  shows "page_alloc f s = Ret (Some p) (popped f p s)"
  using assms page2kva_frame [of p]
  by (simp add: page_alloc_def popped_def ALLOC_ZERO_def Let_def upd_page_def)

lemma page_alloc_Ret_None:
  "page_alloc f s = Ret None t \<longleftrightarrow> page_free_list s = None \<and> t = s"
  by (auto simp: page_alloc_def Let_def page2kva_def kaddr_def split: option.splits if_splits)

lemma page_alloc_Ret_Some:
  assumes "page_alloc f s = Ret (Some p) t"
  shows "page_free_list s = Some p \<and> page_free_list t = pp_link (pages s p) \<and>
    (\<forall>q. q \<noteq> p \<longrightarrow> pages t q = pages s q) \<and> pp_link (pages t p) = None"
proof (cases "page_free_list s")
  case None
  with assms show ?thesis by (simp add: page_alloc_def)
next
  case (Some a)
  with assms show ?thesis
    by (simp add: page_alloc_def Let_def kstate_upd_defs page2kva_def kaddr_def split: if_splits)
      auto
qed

lemma page_free_Ret:
  "page_free p s = Ret u t \<longleftrightarrow>
     pp_ref (pages s p) = 0 \<and> pp_link (pages s p) = None \<and>
     t = (upd_page p (\<lambda>i. i\<lparr>pp_link := page_free_list s\<rparr>) s)\<lparr>page_free_list := Some p\<rparr>"
  by (auto simp: page_free_def Let_def)

text \<open>The allocator provides the free list interface, on the field \<open>pp_link\<close>.\<close>

interpretation page_list: free_list page_free_list "\<lambda>s p. pp_link (pages s p)"
  "page_alloc f" "\<lambda>r. r" page_free for f
proof unfold_locales
  fix s r t x
  assume "page_alloc f s = Ret r t" "r = Some x"
  then show "page_free_list s = Some x \<and> page_free_list t = pp_link (pages s x) \<and>
      (\<forall>y. y \<noteq> x \<longrightarrow> pp_link (pages t y) = pp_link (pages s y))"
    using page_alloc_Ret_Some by metis
next
  fix s r t
  assume "page_alloc f s = Ret r t" "r = None"
  then show "page_free_list t = page_free_list s \<and>
      (\<lambda>p. pp_link (pages t p)) = (\<lambda>p. pp_link (pages s p))"
    by (simp add: page_alloc_Ret_None)
next
  fix x s u t
  assume "page_free x s = Ret u t"
  then show "page_free_list t = Some x \<and> pp_link (pages t x) = page_free_list s \<and>
      (\<forall>y. y \<noteq> x \<longrightarrow> pp_link (pages t y) = pp_link (pages s y))"
    by (auto simp: page_free_Ret upd_page_def)
qed

section \<open>The allocator invariant\<close>

text \<open>
  \<open>free_pages_ok s xs\<close>: the free list is the chain of frames \<open>xs\<close>; they exist, nobody refers to
  them, and no other frame has a link. Physical memory fits below 256 MB, the window the
  kernel maps at \<open>KERNBASE\<close>.
\<close>

definition free_pages_ok :: "kstate \<Rightarrow> nat list \<Rightarrow> bool" where
  "free_pages_ok s xs \<longleftrightarrow>
     chain (\<lambda>p. pp_link (pages s p)) (page_free_list s) xs \<and>
     (\<forall>p \<in> set xs. p < npages s \<and> pp_ref (pages s p) = 0) \<and>
     (\<forall>p. p < npages s \<longrightarrow> p \<notin> set xs \<longrightarrow> pp_link (pages s p) = None) \<and>
     npages s \<le> 2 ^ 16"

lemma free_pages_ok_distinct: "free_pages_ok s xs \<Longrightarrow> distinct xs"
  by (auto simp: free_pages_ok_def dest: chain_distinct)

lemma free_pages_ok_npages: "free_pages_ok s xs \<Longrightarrow> npages s \<le> 2 ^ 20"
  by (simp add: free_pages_ok_def)

lemma free_pages_ok_nonfree:
  "free_pages_ok s xs \<Longrightarrow> p < npages s \<Longrightarrow> pp_ref (pages s p) \<noteq> 0 \<Longrightarrow> p \<notin> set xs"
  by (auto simp: free_pages_ok_def)

lemma popped_simps [kernel_simps, simp]:
  "npages (popped f p s) = npages s"
  "page_free_list (popped f p s) = pp_link (pages s p)"
  "q \<noteq> p \<Longrightarrow> pages (popped f p s) q = pages s q"
  "q \<noteq> p \<Longrightarrow> kmem (popped f p s) q = kmem s q"
  "pp_link (pages (popped f p s) p) = None"
  "pp_ref (pages s p) = 0 \<Longrightarrow> pp_ref (pages (popped f p s) p) = 0"
  "f \<noteq> 0 \<Longrightarrow> kmem (popped f p s) p = (\<lambda>_. 0)"
  by (auto simp: popped_def Let_def kstate_upd_defs)

text \<open>Everything else of the state is what it was.\<close>

lemma popped_frame [kernel_simps, simp]:
  "envs (popped f p s) = envs s" "env_free_list (popped f p s) = env_free_list s"
  "cpus (popped f p s) = cpus s" "this_cpu (popped f p s) = this_cpu s"
  "kern_pgdir (popped f p s) = kern_pgdir s" "kernel_lock (popped f p s) = kernel_lock s"
  "tlb_flushes (popped f p s) = tlb_flushes s" "curenv (popped f p s) = curenv s"
  "cr3 (popped f p s) = cr3 s"
  by (auto simp: popped_def Let_def kstate_upd_defs curenv_def)

lemma page_alloc_Cons:
  assumes "free_pages_ok s (p # ps)"
  shows "page_alloc f s = Ret (Some p) (popped f p s)"
  using assms by (intro page_alloc_some) (auto simp: free_pages_ok_def)

lemma free_pages_ok_popped:
  assumes "free_pages_ok s (p # ps)"
  shows "free_pages_ok (popped f p s) ps"
proof -
  from free_pages_ok_distinct [OF assms] have p: "p \<notin> set ps" by simp
  from assms have c: "chain (\<lambda>q. pp_link (pages s q)) (page_free_list s) (p # ps)"
    by (simp add: free_pages_ok_def)
  have "chain (\<lambda>q. pp_link (pages (popped f p s) q)) (page_free_list (popped f p s)) ps"
    using page_list.alloc_chain [OF c page_alloc_Cons [OF assms], of p] by simp
  with assms p show ?thesis
    unfolding free_pages_ok_def by (auto; metis popped_simps(3,5))
qed

lemma page_alloc_Nil: "free_pages_ok s [] \<Longrightarrow> page_alloc f s = Ret None s"
  by (intro page_alloc_empty) (simp add: free_pages_ok_def)

text \<open>Freeing: the state \<open>page_free\<close> leaves when it does not panic.\<close>

definition pushed :: "nat \<Rightarrow> kstate \<Rightarrow> kstate" where
  "pushed p s = (upd_page p (\<lambda>i. i\<lparr>pp_link := page_free_list s\<rparr>) s)\<lparr>page_free_list := Some p\<rparr>"

lemma pushed_simps [kernel_simps, simp]:
  "npages (pushed p s) = npages s" "page_free_list (pushed p s) = Some p"
  "q \<noteq> p \<Longrightarrow> pages (pushed p s) q = pages s q" "kmem (pushed p s) = kmem s"
  "pp_link (pages (pushed p s) p) = page_free_list s"
  "pp_ref (pages (pushed p s) q) = pp_ref (pages s q)"
  "envs (pushed p s) = envs s" "env_free_list (pushed p s) = env_free_list s"
  "cpus (pushed p s) = cpus s" "this_cpu (pushed p s) = this_cpu s"
  "kern_pgdir (pushed p s) = kern_pgdir s" "kernel_lock (pushed p s) = kernel_lock s"
  "tlb_flushes (pushed p s) = tlb_flushes s" "curenv (pushed p s) = curenv s"
  "cr3 (pushed p s) = cr3 s"
  by (auto simp: pushed_def upd_page_def curenv_def)

lemma page_free_pushed:
  "free_pages_ok s xs \<Longrightarrow> p < npages s \<Longrightarrow> p \<notin> set xs \<Longrightarrow> pp_ref (pages s p) = 0 \<Longrightarrow>
   page_free p s = Ret () (pushed p s)"
  by (auto simp: free_pages_ok_def page_free_Ret pushed_def)

lemma free_pages_ok_pushed:
  assumes "free_pages_ok s xs" "p < npages s" "p \<notin> set xs" "pp_ref (pages s p) = 0"
  shows "free_pages_ok (pushed p s) (p # xs)"
proof -
  from assms(1) have "chain (\<lambda>q. pp_link (pages s q)) (page_free_list s) xs"
    by (simp add: free_pages_ok_def)
  from page_list.release_chain [OF this page_free_pushed [OF assms] assms(3)]
  have "chain (\<lambda>q. pp_link (pages (pushed p s) q)) (page_free_list (pushed p s)) (p # xs)" .
  with assms show ?thesis by (auto simp: free_pages_ok_def)
qed

section \<open>Properties of the page allocator\<close>

text \<open>
  C4: \<open>page_alloc\<close> implements a stack of free frames. With no free frame it returns NULL and
  changes nothing. Otherwise it returns the frame on top, unlinked and unreferenced, which is
  no longer free; with \<open>alloc_flags\<close> set its 1024 words are zero; every other frame keeps its
  bookkeeping and its contents, and the invariant of the free list holds again.
\<close>

theorem page_alloc_pops_stack:
  assumes "free_pages_ok s xs"
  shows "case xs of
      [] \<Rightarrow> page_alloc f s = Ret None s
    | p # ps \<Rightarrow> \<exists>t. page_alloc f s = Ret (Some p) t \<and> free_pages_ok t ps \<and> p \<notin> set ps \<and>
        pp_ref (pages t p) = 0 \<and> pp_link (pages t p) = None \<and> (f \<noteq> 0 \<longrightarrow> kmem t p = (\<lambda>_. 0)) \<and>
        (\<forall>q. q \<noteq> p \<longrightarrow> pages t q = pages s q \<and> kmem t q = kmem s q)"
proof (cases xs)
  case Nil
  with assms show ?thesis by (simp add: page_alloc_Nil)
next
  case (Cons p ps)
  with assms have ok: "free_pages_ok s (p # ps)" by simp
  then have "pp_ref (pages s p) = 0" by (simp add: free_pages_ok_def)
  with Cons ok free_pages_ok_distinct [OF ok] show ?thesis
    by (simp add: page_alloc_Cons free_pages_ok_popped)
qed

text \<open>
  \<open>page_free\<close> pushes a frame back: for an allocated frame whose count is 0 it puts the frame
  on top of the free list, keeps all memory contents and all counts, and the next
  \<open>page_alloc\<close> hands out this frame; for a frame whose count is not 0 it panics.
\<close>

theorem page_free_pushes_stack:
  assumes "free_pages_ok s xs" "p < npages s" "p \<notin> set xs"
  shows "if pp_ref (pages s p) \<noteq> 0 then (\<exists>m. page_free p s = Panic m)
    else \<exists>t. page_free p s = Ret () t \<and> free_pages_ok t (p # xs) \<and> kmem t = kmem s \<and>
      (\<forall>q. pp_ref (pages t q) = pp_ref (pages s q)) \<and>
      (\<exists>u. page_alloc f t = Ret (Some p) u \<and> page_free_list u = page_free_list s)"
proof (cases "pp_ref (pages s p) = 0")
  case True
  note ok = free_pages_ok_pushed [OF assms True]
  from True show ?thesis
    using page_free_pushed [OF assms True] ok page_alloc_Cons [OF ok, of f] by simp
next
  case False
  then show ?thesis by (simp add: page_free_def)
qed

text \<open>
  What the check of \<open>page_free\<close> for double frees misses: a frame at the end of the free list
  has a NULL link, so freeing it a second time is accepted. When it is the only free frame, the
  list becomes a cycle and the next two calls of \<open>page_alloc\<close> hand out the same frame twice.
\<close>

theorem page_free_misses_double_free:
  assumes "free_pages_ok s [p]"
  shows "\<exists>t u v. page_free p s = Ret () t \<and> page_alloc 0 t = Ret (Some p) u \<and>
    page_alloc 0 u = Ret (Some p) v"
proof -
  from assms have p: "page_free_list s = Some p" "pp_link (pages s p) = None" "pp_ref (pages s p) = 0"
    "p < npages s" "npages s \<le> 2 ^ 20" by (auto simp: free_pages_ok_def)
  then have 1: "page_free p s = Ret () (pushed p s)" by (simp add: page_free_Ret pushed_def)
  have 2: "page_alloc 0 (pushed p s) = Ret (Some p) (popped 0 p (pushed p s))"
    using p by (intro page_alloc_some) auto
  have 3: "page_alloc 0 (popped 0 p (pushed p s)) =
      Ret (Some p) (popped 0 p (popped 0 p (pushed p s)))"
    using p by (intro page_alloc_some) auto
  from 1 2 3 show ?thesis by blast
qed

text \<open>
  \<open>page_decref\<close> counts down in 16 bits: the last reference frees the frame, any other count
  is decremented and nothing is freed; on a count that is already 0 it wraps to 65535.
\<close>

theorem page_decref_spec:
  assumes "free_pages_ok s xs" "p < npages s" "p \<notin> set xs"
  shows "\<exists>t. page_decref p s = Ret () t \<and>
    pp_ref (pages t p) = pp_ref (pages s p) - 1 \<and>
    (\<forall>q. q \<noteq> p \<longrightarrow> pp_ref (pages t q) = pp_ref (pages s q)) \<and> kmem t = kmem s \<and>
    free_pages_ok t (if pp_ref (pages s p) = 1 then p # xs else xs)"
proof -
  let ?s1 = "upd_page p (\<lambda>i. i\<lparr>pp_ref := pp_ref i - 1\<rparr>) s"
  have ok: "free_pages_ok ?s1 xs"
    using assms by (auto simp: free_pages_ok_def upd_page_def intro: chain_cong [THEN iffD1, rotated])
  show ?thesis
  proof (cases "pp_ref (pages s p) = 1")
    case True
    then have "page_decref p s = Ret () (pushed p ?s1)"
      using page_free_pushed [OF ok, of p] assms by (simp add: page_decref_def upd_page_def)
    with free_pages_ok_pushed [OF ok, of p] True assms show ?thesis
      by (auto simp: upd_page_def)
  next
    case False
    then have "pp_ref (pages ?s1 p) \<noteq> 0" by (simp add: upd_page_def)
    with ok False show ?thesis by (auto simp: page_decref_def upd_page_def)
  qed
qed

section \<open>Initialisation\<close>

definition page_init_free :: "u32 \<Rightarrow> nat \<Rightarrow> nat \<Rightarrow> nat list" where
  "page_init_free pages_addr basemem n =
     rev (filter (\<lambda>i. page_init_ref pages_addr basemem i = 0) [0..<n])"

lemma page_init_free_Suc:
  "page_init_free a b (Suc n) =
     (if page_init_ref a b n = 0 then n # page_init_free a b n else page_init_free a b n)"
  by (simp add: page_init_free_def)

lemma set_page_init_free: "set (page_init_free a b n) = {i. i < n \<and> page_init_ref a b i = 0}"
  by (auto simp: page_init_free_def)

lemma page_init_step_frame [simp]:
  "npages (page_init_step a i s) = npages s"
  "npages_basemem (page_init_step a i s) = npages_basemem s"
  "kmem (page_init_step a i s) = kmem s"
  "j \<noteq> i \<Longrightarrow> pages (page_init_step a i s) j = pages s j"
  "pp_ref (pages (page_init_step a i s) i) = page_init_ref a (npages_basemem s) i"
  "page_free_list (page_init_step a i s) =
    (if page_init_ref a (npages_basemem s) i = 0 then Some i else page_free_list s)"
  "pp_link (pages (page_init_step a i s) i) =
    (if page_init_ref a (npages_basemem s) i = 0 then page_free_list s else pp_link (pages s i))"
  by (simp_all add: page_init_step_def Let_def upd_page_def)

definition init_round :: "u32 \<Rightarrow> kstate \<Rightarrow> nat \<Rightarrow> kstate" where
  "init_round a s n = fold (page_init_step a) [0..<n] (s\<lparr>page_free_list := None\<rparr>)"

lemma init_round_0: "init_round a s 0 = s\<lparr>page_free_list := None\<rparr>"
  and init_round_Suc: "init_round a s (Suc n) = page_init_step a n (init_round a s n)"
  by (simp_all add: init_round_def)

lemma init_round_frame [simp]:
  "npages (init_round a s n) = npages s" "npages_basemem (init_round a s n) = npages_basemem s"
  "kmem (init_round a s n) = kmem s"
  by (induction n) (simp_all add: init_round_0 init_round_Suc)

lemma init_round_pages:
  "i \<ge> n \<Longrightarrow> pages (init_round a s n) i = pages s i"
  "i < n \<Longrightarrow> pp_ref (pages (init_round a s n) i) = page_init_ref a (npages_basemem s) i"
  by (induction n) (auto simp: init_round_0 init_round_Suc less_Suc_eq)

lemma init_round_chain:
  assumes "\<And>i. pp_link (pages s i) = None"
  shows "chain (\<lambda>p. pp_link (pages (init_round a s n) p)) (page_free_list (init_round a s n))
      (page_init_free a (npages_basemem s) n) \<and>
    (\<forall>p. p \<notin> set (page_init_free a (npages_basemem s) n) \<longrightarrow>
      pp_link (pages (init_round a s n) p) = None)"
proof (induction n)
  case 0
  with assms show ?case by (simp add: init_round_0 page_init_free_def)
next
  case (Suc n)
  let ?t = "init_round a s n" and ?u = "init_round a s (Suc n)"
  let ?xs = "page_init_free a (npages_basemem s) n"
  have n: "n \<notin> set ?xs" by (simp add: set_page_init_free)
  have c: "chain (\<lambda>p. pp_link (pages ?u p)) h ?xs = chain (\<lambda>p. pp_link (pages ?t p)) h ?xs" for h
    by (rule chain_frame [OF n]) (simp add: init_round_Suc)
  have link_n: "pp_link (pages ?t n) = None" using Suc n by simp
  show ?case
  proof (cases "page_init_ref a (npages_basemem s) n = 0")
    case True
    with Suc c n show ?thesis
      by (auto simp: page_init_free_Suc init_round_Suc [of a s n] fun_upd_def)
  next
    case False
    have "pp_link (pages ?u p) = None" if "p \<notin> set ?xs" for p
      using Suc link_n that False by (cases "p = n") (simp_all add: init_round_Suc)
    with False Suc c show ?thesis
      by (simp add: page_init_free_Suc) (simp add: init_round_Suc)
  qed
qed

lemma page_init_ok:
  assumes "\<forall>i. pp_link (pages s i) = None" "npages s \<le> 2 ^ 16"
  shows "free_pages_ok (page_init pages_addr s) (page_init_free pages_addr (npages_basemem s) (npages s))"
proof -
  have init: "page_init pages_addr s = init_round pages_addr s (npages s)"
    by (simp add: page_init_def init_round_def)
  show ?thesis
    using init_round_chain [OF assms(1) [rule_format]] assms(2)
    by (auto simp: init free_pages_ok_def set_page_init_free init_round_pages)
qed

lemma page_init_ref_0:
  assumes "0 < npages s"
  shows "pp_ref (pages (page_init pages_addr s) 0) \<noteq> 0"
proof -
  have "page_init pages_addr s = init_round pages_addr s (npages s)" by (simp add: page_init_def init_round_def)
  then show ?thesis using assms by (simp add: init_round_pages page_init_ref_def Let_def)
qed

lemma page_init_ref_free:
  assumes "i < 2 ^ 16" "K = unat ((pages_addr - KERNBASE) div PGSIZE)"
  shows "page_init_ref pages_addr m i = 0 \<longleftrightarrow> i \<noteq> 0 \<and> i \<noteq> 7 \<and> (i < m \<or> m + 93 + K \<le> i)"
proof -
  have "page2pa 7 = MPENTRY_PADDR" by (simp add: page2pa_def MPENTRY_PADDR_def push_bit_eq_mult)
  with page2pa_inj [of i 7] assms(1) have "page2pa i = MPENTRY_PADDR \<longleftrightarrow> i = 7" by simp
  then show ?thesis by (auto simp: page_init_ref_def Let_def assms(2))
qed

text \<open>
  C12: \<open>page_init\<close> establishes the invariant of the page allocator: on a zeroed \<open>pages\<close> array its
  free list is, from the highest frame down, exactly the frames its case distinction leaves
  with count 0. With \<open>K\<close> pages between \<open>KERNBASE\<close> and the variable \<open>pages\<close>, a frame is free if
  and only if it is neither frame 0 nor frame 7 (the application processors' start code), and it
  is base memory or lies \<open>93 + K\<close> or more pages above it.
\<close>

theorem page_init_builds_free_list:
  fixes pages_addr :: u32
  assumes "\<forall>i. pp_link (pages s i) = None" "npages s \<le> 2 ^ 16"
    and "K = unat ((pages_addr - KERNBASE) div PGSIZE)"
  shows "free_pages_ok (page_init pages_addr s)
      (page_init_free pages_addr (npages_basemem s) (npages s)) \<and>
    (\<forall>i < npages s. i \<in> set (page_init_free pages_addr (npages_basemem s) (npages s)) \<longleftrightarrow>
      i \<noteq> 0 \<and> i \<noteq> 7 \<and> (i < npages_basemem s \<or> npages_basemem s + 93 + K \<le> i))"
  using page_init_ok [OF assms(1,2)] assms(2) page_init_ref_free [OF _ assms(3)] by (auto simp: set_page_init_free)

section \<open>The boot allocator\<close>

lemma detect_memory_nextfree [simp]: "nextfree (i386_detect_memory cmos s) = nextfree s"
  by (simp add: i386_detect_memory_def Let_def)

lemma detect_memory_npages: "npages (i386_detect_memory cmos s) = npages (i386_detect_memory cmos t)"
  by (simp add: i386_detect_memory_def Let_def)

lemma boot_alloc_Ret:
  assumes "n \<noteq> 0" "nextfree s \<noteq> 0"
  shows "boot_alloc kend cmos n s = Ret a t \<longleftrightarrow>
    (let s' = i386_detect_memory cmos s in
      npages s' \<noteq> 0 \<and> n \<le> of_nat (npages s') * 4096 \<and> a = nextfree s \<and>
      t = s'\<lparr>nextfree := ROUNDUP (nextfree s + n) PGSIZE\<rparr>)"
  using assms by (auto simp: boot_alloc_def Let_def not_less)

text \<open>
  \<open>boot_alloc\<close> hands out consecutive blocks: a call for \<open>n\<close> bytes that returns gives the
  address of the next free byte and moves it to the first page boundary at or above the end of
  the block, so that blocks of successive calls are page aligned and do not overlap (as long as
  the addresses do not wrap around).
\<close>

theorem boot_alloc_blocks_disjoint:
  assumes "boot_alloc kend cmos n s = Ret a t" "n \<noteq> 0" "nextfree s \<noteq> 0"
    and "unat (nextfree s) + unat n + 4095 < 2 ^ 32"
  shows "a = nextfree s \<and> 4096 dvd unat (nextfree t) \<and>
    unat a + unat n \<le> unat (nextfree t) \<and> unat (nextfree t) < unat a + unat n + 4096"
proof -
  from assms(1) have a: "a = nextfree s" and t: "nextfree t = ROUNDUP (nextfree s + n) PGSIZE"
    by (auto simp: boot_alloc_Ret [OF assms(2,3)] Let_def)
  have sum: "unat (nextfree s + n) = unat (nextfree s) + unat n"
    using assms(4) by (simp add: unat_word_ariths)
  have r: "unat (nextfree t) = (unat (nextfree s + n) + 4096 - 1) div 4096 * 4096"
    unfolding t by (subst unat_ROUNDUP) (use sum assms(4) in \<open>simp_all add: PGSIZE_def\<close>)
  then show ?thesis
    using div_up_mult [of 4096 "unat (nextfree s + n)"] sum a by simp
qed

text \<open>
  What the out-of-memory check of \<open>boot_alloc\<close> does not see: it compares each request with
  the whole of physical memory, not with what is left, so a request that was granted once is
  granted every time again, however much has been handed out already.
\<close>

theorem boot_alloc_never_exhausts:
  assumes "boot_alloc kend cmos n s = Ret a t"
  shows "\<exists>b u. boot_alloc kend cmos n t = Ret b u"
proof (cases "n = 0")
  case True
  then show ?thesis by (simp add: boot_alloc_def Let_def)
next
  case False
  define N where "N = npages (i386_detect_memory cmos s)"
  have N: "npages (i386_detect_memory cmos u) = N" for u
    unfolding N_def by (rule detect_memory_npages)
  from False assms have "N \<noteq> 0 \<and> \<not> of_nat N * 4096 < n"
    by (simp add: boot_alloc_def Let_def N split: if_splits)
  with False show ?thesis by (simp add: boot_alloc_def Let_def N)
qed

section \<open>Witnesses\<close>

text \<open>A machine with four frames, of which 1 and 2 are free.\<close>

definition two_free :: kstate where
  "two_free = bss_state\<lparr>npages := 4, page_free_list := Some 1,
     pages := (\<lambda>i. if i = 1 then \<lparr>pp_link = Some 2, pp_ref = 0\<rparr>
                   else if i = 2 then \<lparr>pp_link = None, pp_ref = 0\<rparr>
                   else \<lparr>pp_link = None, pp_ref = 1\<rparr>)\<rparr>"

lemma two_free_ok: "free_pages_ok two_free [1, 2]"
  by (auto simp: free_pages_ok_def two_free_def bss_state_def)

definition one_free :: kstate where
  "one_free = bss_state\<lparr>npages := 4, page_free_list := Some 1,
     pages := (\<lambda>i. if i = 1 then \<lparr>pp_link = None, pp_ref = 0\<rparr> else \<lparr>pp_link = None, pp_ref = 1\<rparr>)\<rparr>"

lemma one_free_ok: "free_pages_ok one_free [1]"
  by (auto simp: free_pages_ok_def one_free_def bss_state_def)

theorem page_alloc_pops_stack_witness:
  "\<exists>t. page_alloc 1 two_free = Ret (Some 1) t \<and> free_pages_ok t [2]"
  using page_alloc_pops_stack [OF two_free_ok, of 1] by auto

theorem page_free_pushes_stack_witness:
  "\<exists>m. page_free 3 two_free = Panic m"
  using page_free_pushes_stack [OF two_free_ok, of 3] by (simp add: two_free_def bss_state_def)

theorem page_free_misses_double_free_witness:
  "\<exists>t u v. page_free 1 one_free = Ret () t \<and> page_alloc 0 t = Ret (Some 1) u \<and>
    page_alloc 0 u = Ret (Some 1) v"
  by (rule page_free_misses_double_free [OF one_free_ok])

theorem page_decref_spec_witness:
  "\<exists>t. page_decref 3 two_free = Ret () t \<and> free_pages_ok t [3, 1, 2]"
  using page_decref_spec [OF two_free_ok, of 3] by (auto simp: two_free_def bss_state_def)

theorem page_init_builds_free_list_witness:
  "free_pages_ok (page_init (KERNBASE + 0x1000) (bss_state\<lparr>npages := 100, npages_basemem := 3\<rparr>))
     (page_init_free (KERNBASE + 0x1000) 3 100)"
  using page_init_builds_free_list [of "bss_state\<lparr>npages := 100, npages_basemem := 3\<rparr>"
      "unat ((KERNBASE + 0x1000 - KERNBASE) div PGSIZE)" "KERNBASE + 0x1000"]
  by (simp add: bss_state_def)

definition demo_cmos :: "nat \<Rightarrow> u32" where
  "demo_cmos r = (if r = NVRAM_BASELO then 0x80 else if r = NVRAM_BASELO + 1 then 2 else 0)"

definition boot_state :: kstate where
  "boot_state = bss_state\<lparr>nextfree := 0xF0200000\<rparr>"

lemma boot_alloc_demo:
  "boot_alloc 0xF01FFFFF demo_cmos 100 boot_state =
     Ret 0xF0200000 ((i386_detect_memory demo_cmos boot_state)\<lparr>nextfree := 0xF0201000\<rparr>)"
  by (subst boot_alloc_Ret)
    (simp_all add: boot_state_def bss_state_def i386_detect_memory_def nvram_read_def demo_cmos_def
      NVRAM_BASELO_def NVRAM_EXTLO_def NVRAM_EXT16LO_def PGSIZE_def ROUNDUP_def ROUNDDOWN_def Let_def)

theorem boot_alloc_blocks_disjoint_witness:
  "4096 dvd unat (0xF0201000 :: u32) \<and> unat (0xF0200000 :: u32) + 100 \<le> unat (0xF0201000 :: u32)"
  using boot_alloc_blocks_disjoint [OF boot_alloc_demo] by (simp add: boot_state_def bss_state_def)

theorem boot_alloc_never_exhausts_witness:
  "\<exists>b u. boot_alloc 0xF01FFFFF demo_cmos 100
     ((i386_detect_memory demo_cmos boot_state)\<lparr>nextfree := 0xF0201000\<rparr>) = Ret b u"
  by (rule boot_alloc_never_exhausts [OF boot_alloc_demo])

end
