(* ===== verification/Jos_PageTable.thy ===== *)
theory Jos_PageTable
  imports Jos_PageAlloc
begin

text \<open>
  The virtual memory part of kern/pmap.c: walking and editing two-level page tables, the TLB,
  memory mapped device regions, and the check of user pointers. A page table entry is addressed
  by the frame of its table and its index there; a page directory by its frame.
\<close>

section \<open>Page table operations\<close>

definition pgdir_walk :: "nat \<Rightarrow> u32 \<Rightarrow> bool \<Rightarrow> kstate \<Rightarrow> (nat \<times> nat) option kres" where
  "pgdir_walk pgdir va create s =
     (let pde = kmem s pgdir (unat (PDX va)) in
      if c_not pde AND PTE_P \<noteq> 0 \<and> \<not> create then Ret None s
      else if pde AND PTE_P \<noteq> 0 then
        bindO (kaddr (PTE_ADDR pde) s) (\<lambda>page_table s.
          Ret (Some (kva_frame page_table, unat (PTX va))) s)
      else if c_not pde AND PTE_P \<noteq> 0 \<and> create then
        bindO (page_alloc 1 s) (\<lambda>r s.
          case r of
            None \<Rightarrow> Ret None s
          | Some pp_page_table \<Rightarrow>
              (let s = upd_page pp_page_table (\<lambda>p. p\<lparr>pp_ref := pp_ref p + 1\<rparr>) s;
                   s = wr_word pgdir (unat (PDX va))
                         (((page2pa pp_page_table OR PTE_P) OR PTE_U) OR PTE_W) s;
                   pde = kmem s pgdir (unat (PDX va))
               in bindO (kaddr (PTE_ADDR pde) s) (\<lambda>page_table s.
                    Ret (Some (kva_frame page_table, unat (PTX va))) s)))
      else Ret None s)"

text \<open>The loop of \<open>boot_map_region\<close>: \<open>k\<close> rounds are left, the counter is \<open>i\<close>.\<close>

fun boot_map_loop :: "nat \<Rightarrow> u32 \<Rightarrow> nat \<Rightarrow> u32 \<Rightarrow> u32 \<Rightarrow> u32 \<Rightarrow> kstate \<Rightarrow> unit kres" where
  "boot_map_loop pgdir va 0 i pa perm s = Ret () s"
| "boot_map_loop pgdir va (Suc k) i pa perm s =
     bindO (pgdir_walk pgdir (va + i * PGSIZE) True s) (\<lambda>r s.
       case r of
         None \<Rightarrow> Panic ''in boot_map_region, pgdir_walk has returned NULL''
       | Some (t, j) \<Rightarrow>
           boot_map_loop pgdir va k (i + 1) pa perm
             (wr_word t j (((pa + i * PGSIZE) OR perm) OR PTE_P) s))"

definition boot_map_region :: "nat \<Rightarrow> u32 \<Rightarrow> u32 \<Rightarrow> u32 \<Rightarrow> u32 \<Rightarrow> kstate \<Rightarrow> unit kres" where
  "boot_map_region pgdir va sz pa perm s =
     boot_map_loop pgdir va (unat (sz div PGSIZE)) 0 pa perm s"

text \<open>\<open>invlpg\<close> is recorded in \<open>tlb_flushes\<close>.\<close>

definition tlb_invalidate :: "nat \<Rightarrow> u32 \<Rightarrow> kstate \<Rightarrow> kstate" where
  "tlb_invalidate pgdir va s =
     (if (case curenv s of None \<Rightarrow> True | Some e \<Rightarrow> env_pgdir (envs s e) = Some pgdir)
      then s\<lparr>tlb_flushes := va # tlb_flushes s\<rparr> else s)"

text \<open>\<open>page_lookup\<close> returns the page and the entry it stores through \<open>pte_store\<close>.\<close>

definition page_lookup :: "nat \<Rightarrow> u32 \<Rightarrow> kstate \<Rightarrow> (nat \<times> nat \<times> nat) option kres" where
  "page_lookup pgdir va s =
     bindO (pgdir_walk pgdir va False s) (\<lambda>p_pte s.
       case p_pte of
         None \<Rightarrow> Ret None s
       | Some (t, j) \<Rightarrow>
           bindO (pa2page (PTE_ADDR (kmem s t j)) s) (\<lambda>pp s. Ret (Some (pp, t, j)) s))"

definition page_remove :: "nat \<Rightarrow> u32 \<Rightarrow> kstate \<Rightarrow> unit kres" where
  "page_remove pgdir va s =
     bindO (page_lookup pgdir va s) (\<lambda>r s.
       case r of
         None \<Rightarrow> Ret () s
       | Some (pp, t, j) \<Rightarrow>
           (let s = wr_word t j 0 s
            in bindO (page_decref pp s) (\<lambda>_ s. Ret () (tlb_invalidate pgdir va s))))"

definition page_insert :: "nat \<Rightarrow> nat \<Rightarrow> u32 \<Rightarrow> u32 \<Rightarrow> kstate \<Rightarrow> int kres" where
  "page_insert pgdir pp va perm s =
     (let pa = page2pa pp in
      bindO (pgdir_walk pgdir va True s) (\<lambda>p_pte s.
        case p_pte of
          None \<Rightarrow> Ret (- E_NO_MEM) s
        | Some (t, j) \<Rightarrow>
            if PTE_ADDR (kmem s t j) = pa then
              Ret 0 (wr_word t j ((PTE_ADDR (page2pa pp) OR perm) OR PTE_P) s)
            else
              bindO (if kmem s t j AND PTE_P \<noteq> 0 then page_remove pgdir va s else Ret () s)
                (\<lambda>_ s.
                  let s = wr_word t j ((PTE_ADDR (page2pa pp) OR perm) OR PTE_P) s;
                      s = upd_page pp (\<lambda>p. p\<lparr>pp_ref := pp_ref p + 1\<rparr>) s
                  in Ret 0 s)))"

definition mmio_map_region :: "u32 \<Rightarrow> u32 \<Rightarrow> kstate \<Rightarrow> u32 kres" where
  "mmio_map_region pa sz s =
     (let pa_start = ROUNDDOWN pa PGSIZE;
          pa_end = ROUNDUP (pa + sz) PGSIZE;
          pa_offset = pa AND 0xfff;
          va_start = mmio_base s;
          new_base = va_start + (pa_end - pa_start)
      in bindO (boot_map_region (kern_pgdir s) va_start (new_base - va_start) pa_start
                  ((PTE_PCD OR PTE_PWT) OR PTE_W) s) (\<lambda>_ s.
           Ret (va_start + pa_offset) (s\<lparr>mmio_base := new_base\<rparr>)))"

definition check_va2pa :: "nat \<Rightarrow> u32 \<Rightarrow> kstate \<Rightarrow> u32 kres" where
  "check_va2pa pgdir va s =
     (let pde = kmem s pgdir (unat (PDX va)) in
      if pde AND PTE_P = 0 then Ret (NOT 0) s
      else bindO (kaddr (PTE_ADDR pde) s) (\<lambda>p s.
        let pte = kmem s (kva_frame p) (unat (PTX va)) in
        if pte AND PTE_P = 0 then Ret (NOT 0) s else Ret (PTE_ADDR pte) s))"

section \<open>User pointers\<close>

text \<open>
  The loop of \<open>user_mem_check\<close> over the page boundaries \<open>i\<close> below \<open>lim\<close>. A round that goes on
  has \<open>ULIM \<le> i\<close>, so \<open>i\<close> passes the end of the address space after at most 2048 rounds.
\<close>

definition um_measure :: "u32 \<Rightarrow> nat" where
  "um_measure i = (if i < ULIM then 0 else 2 ^ 32 - unat i)"

lemma um_measure_step:
  assumes "\<not> i < ULIM"
  shows "um_measure (i + PGSIZE) < um_measure i"
proof (cases "i + PGSIZE < ULIM")
  case True
  with assms unat_u32_less [of i] show ?thesis by (simp add: um_measure_def)
next
  case False
  have i: "unat i < 2 ^ 32" by (rule unat_u32_less)
  have "unat i + 4096 < 2 ^ 32"
  proof (rule ccontr)
    assume "\<not> unat i + 4096 < 2 ^ 32"
    then have "unat (i + 4096) = unat i + 4096 - 2 ^ 32"
      using i by (simp add: unat_word_ariths mod_if)
    with i False show False by (simp add: word_less_nat_alt layout_values PGSIZE_def)
  qed
  then have "unat (i + PGSIZE) = unat i + 4096"
    by (simp add: PGSIZE_def unat_word_ariths)
  with False assms i show ?thesis by (simp add: um_measure_def)
qed

function user_mem_check_loop :: "nat \<Rightarrow> u32 \<Rightarrow> u32 \<Rightarrow> u32 \<Rightarrow> kstate \<Rightarrow> int kres" where
  "user_mem_check_loop pgdir i lim perm s =
     (if \<not> i < lim then Ret 0 s
      else
        bindO (pgdir_walk pgdir i False s) (\<lambda>pp s.
          if i < ULIM then Ret (- E_FAULT) (s\<lparr>user_mem_check_addr := i\<rparr>)
          else
            (case pp of
               None \<Rightarrow> Ret (- E_FAULT) (s\<lparr>user_mem_check_addr := i\<rparr>)
             | Some (t, j) \<Rightarrow>
                 if kmem s t j AND perm \<noteq> perm
                 then Ret (- E_FAULT) (s\<lparr>user_mem_check_addr := i\<rparr>)
                 else user_mem_check_loop pgdir (i + PGSIZE) lim perm s)))"
  by pat_completeness auto
termination
  by (relation "measure (\<lambda>(pgdir, i, lim, perm, s). um_measure i)") (auto intro: um_measure_step)

declare user_mem_check_loop.simps [simp del]

text \<open>An environment without an address space has the null pointer as \<open>env_pgdir\<close>.\<close>

definition user_mem_check :: "nat \<Rightarrow> u32 \<Rightarrow> u32 \<Rightarrow> u32 \<Rightarrow> kstate \<Rightarrow> int kres" where
  "user_mem_check env va len perm s =
     (case env_pgdir (envs s env) of
        None \<Rightarrow> Panic ''page fault in the kernel''
      | Some pgdir \<Rightarrow>
          bindO (pgdir_walk pgdir va False s) (\<lambda>pp s.
            case pp of
              None \<Rightarrow> Ret (- E_FAULT) (s\<lparr>user_mem_check_addr := va\<rparr>)
            | Some (t, j) \<Rightarrow>
                if kmem s t j AND perm \<noteq> perm
                then Ret (- E_FAULT) (s\<lparr>user_mem_check_addr := va\<rparr>)
                else user_mem_check_loop pgdir (ROUNDUP va PGSIZE) (ROUNDUP (va + len) PGSIZE)
                       perm s))"

end
