(* ===== verification/Jos_AddrSpace.thy ===== *)
theory Jos_AddrSpace
  imports Jos_PageTable
begin

text \<open>
  What the page table operations promise. A set \<open>A\<close> of page directories, the address spaces of
  the environments, is abstracted to a map from user pages to frames with permissions; the
  invariant \<open>vm_ok\<close> ties the page tables in memory to the free list and to the reference counts.
  The operations of kern/pmap.c refine the map's lookup, update and removal.
\<close>

section \<open>Abstraction\<close>

text \<open>The frame an entry points to, and its permission bits.\<close>

definition frame_of :: "u32 \<Rightarrow> nat" where "frame_of e = unat (PGNUM e)"

definition has_tbl :: "kstate \<Rightarrow> nat \<Rightarrow> nat \<Rightarrow> bool" where
  "has_tbl s pd i \<longleftrightarrow> kmem s pd i AND PTE_P \<noteq> 0"

definition tbl :: "kstate \<Rightarrow> nat \<Rightarrow> nat \<Rightarrow> nat" where
  "tbl s pd i = frame_of (kmem s pd i)"

text \<open>The directory slots below \<open>UTOP\<close>.\<close>

definition NUSER :: nat where "NUSER = unat (PDX UTOP)"

definition slots :: "kstate \<Rightarrow> nat set \<Rightarrow> (nat \<times> nat) set" where
  "slots s A = {(pd, i). pd \<in> A \<and> i < NUSER \<and> has_tbl s pd i}"

definition pte :: "kstate \<Rightarrow> nat \<Rightarrow> nat \<Rightarrow> nat \<Rightarrow> u32" where
  "pte s pd i j = kmem s (tbl s pd i) j"

text \<open>The address space: the user page with directory index \<open>i\<close> and table index \<open>j\<close>.\<close>

definition amap :: "kstate \<Rightarrow> nat \<Rightarrow> nat \<times> nat \<Rightarrow> (nat \<times> u32) option" where
  "amap s pd = (\<lambda>(i, j).
     if has_tbl s pd i \<and> pte s pd i j AND PTE_P \<noteq> 0
     then Some (frame_of (pte s pd i j), PGOFF (pte s pd i j)) else None)"

definition vpn :: "u32 \<Rightarrow> nat \<times> nat" where
  "vpn va = (unat (PDX va), unat (PTX va))"

definition mappers :: "kstate \<Rightarrow> nat set \<Rightarrow> nat \<Rightarrow> (nat \<times> nat \<times> nat) set" where
  "mappers s A f = {(pd, i, j). (pd, i) \<in> slots s A \<and> j < NPTENTRIES \<and>
     pte s pd i j AND PTE_P \<noteq> 0 \<and> frame_of (pte s pd i j) = f}"

text \<open>Frames that hold page directories and page tables.\<close>

definition structural :: "kstate \<Rightarrow> nat set \<Rightarrow> nat set" where
  "structural s A = A \<union> (\<lambda>(pd, i). tbl s pd i) ` slots s A"

definition vm_ok :: "kstate \<Rightarrow> nat list \<Rightarrow> nat set \<Rightarrow> bool" where
  "vm_ok s xs A \<longleftrightarrow>
     free_pages_ok s xs \<and> finite A \<and>
     (\<forall>f \<in> structural s A. f < npages s \<and> pp_ref (pages s f) \<noteq> 0) \<and>
     (\<forall>pd \<in> A. \<forall>i < NUSER. kmem s pd i = 0 \<or> has_tbl s pd i) \<and>
     (\<forall>(pd, i) \<in> slots s A. tbl s pd i \<notin> A) \<and>
     inj_on (\<lambda>(pd, i). tbl s pd i) (slots s A) \<and>
     (\<forall>(pd, i) \<in> slots s A. \<forall>j < NPTENTRIES. pte s pd i j = 0 \<or>
        pte s pd i j AND PTE_P \<noteq> 0 \<and> frame_of (pte s pd i j) < npages s \<and>
        frame_of (pte s pd i j) \<notin> structural s A) \<and>
     (\<forall>f. card (mappers s A f) \<le> unat (pp_ref (pages s f)))"

section \<open>Consequences of the invariant\<close>

lemma NUSER_eq: "NUSER = 955"
  by (simp add: NUSER_def unat_PDX layout_values)

lemma vm_okD:
  assumes "vm_ok s xs A"
  shows vm_free: "free_pages_ok s xs"
    and vm_finite: "finite A"
    and vm_struct: "f \<in> structural s A \<Longrightarrow> f < npages s \<and> pp_ref (pages s f) \<noteq> 0"
    and vm_empty: "pd \<in> A \<Longrightarrow> i < NUSER \<Longrightarrow> \<not> has_tbl s pd i \<Longrightarrow> kmem s pd i = 0"
    and vm_tbl_notin: "(pd, i) \<in> slots s A \<Longrightarrow> tbl s pd i \<notin> A"
    and vm_inj: "inj_on (\<lambda>(pd, i). tbl s pd i) (slots s A)"
    and vm_count: "card (mappers s A f) \<le> unat (pp_ref (pages s f))"
  using assms unfolding vm_ok_def by auto

lemma vm_pte:
  assumes "vm_ok s xs A" "(pd, i) \<in> slots s A" "j < NPTENTRIES" "pte s pd i j \<noteq> 0"
  shows "pte s pd i j AND PTE_P \<noteq> 0 \<and> frame_of (pte s pd i j) < npages s \<and>
    frame_of (pte s pd i j) \<notin> structural s A"
  using assms unfolding vm_ok_def by blast

lemma structuralI:
  "pd \<in> A \<Longrightarrow> pd \<in> structural s A" "(pd, i) \<in> slots s A \<Longrightarrow> tbl s pd i \<in> structural s A"
  by (auto simp: structural_def)

lemma vm_tbl_inj:
  assumes "vm_ok s xs A" "(pd, i) \<in> slots s A" "(pd', i') \<in> slots s A" "tbl s pd i = tbl s pd' i'"
  shows "pd' = pd \<and> i' = i"
  using vm_inj [OF assms(1)] assms(2-4) by (auto simp: inj_on_def)

lemma vm_struct_nonfree: "vm_ok s xs A \<Longrightarrow> f \<in> structural s A \<Longrightarrow> f \<notin> set xs"
  using vm_struct vm_free free_pages_ok_nonfree by metis

lemma finite_slots: "finite A \<Longrightarrow> finite (slots s A)"
  by (rule finite_subset [of _ "A \<times> {..<NUSER}"]) (auto simp: slots_def)

lemma finite_mappers: "finite A \<Longrightarrow> finite (mappers s A f)"
  by (rule finite_subset [of _ "A \<times> {..<NUSER} \<times> {..<NPTENTRIES}"])
    (auto simp: mappers_def slots_def)

text \<open>A frame some user page maps is in use.\<close>

lemma vm_mapped_ref:
  assumes "vm_ok s xs A" "k \<in> mappers s A f"
  shows "pp_ref (pages s f) \<noteq> 0"
proof
  assume "pp_ref (pages s f) = 0"
  then have "card (mappers s A f) = 0" using vm_count [OF assms(1), of f] by simp
  with assms(2) finite_mappers [OF vm_finite [OF assms(1)]] show False by (metis card_0_eq emptyE)
qed

lemma vm_mapped_struct:
  assumes ok: "vm_ok s xs A" and m: "k \<in> mappers s A f"
  shows "f \<notin> structural s A"
proof -
  obtain q i j where "k = (q, i, j)" by (metis prod_cases3)
  with m have m: "(q, i) \<in> slots s A" "j < NPTENTRIES" "pte s q i j AND PTE_P \<noteq> 0"
    "frame_of (pte s q i j) = f" by (auto simp: mappers_def)
  then have "pte s q i j \<noteq> 0" by auto
  from vm_pte [OF ok m(1,2) this] m(4) show ?thesis by simp
qed

lemma vpn_eq: "vpn va = vpn wa \<longleftrightarrow> PGNUM va = PGNUM wa"
proof
  assume "PGNUM va = PGNUM wa"
  then have "unat va div 2 ^ 12 = unat wa div 2 ^ 12" by (metis unat_PGNUM)
  moreover have "n div 2 ^ 22 = n div 2 ^ 12 div 2 ^ 10" for n :: nat
    by (simp add: div_mult2_eq [symmetric])
  ultimately show "vpn va = vpn wa"
    by (simp only: vpn_def unat_PDX unat_PTX)
next
  assume "vpn va = vpn wa"
  then have "unat (PDX va) = unat (PDX wa)" "unat (PTX va) = unat (PTX wa)" by (auto simp: vpn_def)
  then have h: "unat va div 2 ^ 22 = unat wa div 2 ^ 22"
    "unat va div 2 ^ 12 mod 2 ^ 10 = unat wa div 2 ^ 12 mod 2 ^ 10"
    by (metis unat_PDX, metis unat_PTX)
  have d: "n div 2 ^ 12 = n div 2 ^ 22 * 2 ^ 10 + n div 2 ^ 12 mod 2 ^ 10" for n :: nat
    using div_mult_mod_eq [of "n div 2 ^ 12" "2 ^ 10"] by (simp add: div_mult2_eq [symmetric])
  from h d [of "unat va"] d [of "unat wa"] have "unat (PGNUM va) = unat (PGNUM wa)"
    by (simp only: unat_PGNUM)
  then show "PGNUM va = PGNUM wa" using word_unat_eq_iff by blast
qed

lemma user_PDX: "va < UTOP \<Longrightarrow> unat (PDX va) < NUSER"
  by (simp add: NUSER_eq unat_PDX word_less_nat_alt layout_values)

section \<open>The effect of one entry on the abstraction\<close>

lemma kmem_wr_word [kernel_simps, simp]:
  "kmem (wr_word t j v s) q k = (if q = t \<and> k = j then v else kmem s q k)"
  by (simp add: wr_word_def)

lemma wr_word_frame [kernel_simps, simp]:
  "npages (wr_word t j v s) = npages s" "pages (wr_word t j v s) = pages s"
  "page_free_list (wr_word t j v s) = page_free_list s" "curenv (wr_word t j v s) = curenv s"
  "envs (wr_word t j v s) = envs s" "cpus (wr_word t j v s) = cpus s"
  "this_cpu (wr_word t j v s) = this_cpu s" "kern_pgdir (wr_word t j v s) = kern_pgdir s"
  "tlb_flushes (wr_word t j v s) = tlb_flushes s" "env_free_list (wr_word t j v s) = env_free_list s"
  "kernel_lock (wr_word t j v s) = kernel_lock s" "cr3 (wr_word t j v s) = cr3 s"
  "cons (wr_word t j v s) = cons s" "mmio_base (wr_word t j v s) = mmio_base s"
  "user_mem_check_addr (wr_word t j v s) = user_mem_check_addr s"
  by (simp_all add: wr_word_def curenv_def)

lemma upd_page_frame [kernel_simps, simp]:
  "npages (upd_page p f s) = npages s" "kmem (upd_page p f s) = kmem s"
  "pages (upd_page p f s) q = (if q = p then f (pages s p) else pages s q)"
  "page_free_list (upd_page p f s) = page_free_list s" "curenv (upd_page p f s) = curenv s"
  "envs (upd_page p f s) = envs s" "cpus (upd_page p f s) = cpus s"
  "this_cpu (upd_page p f s) = this_cpu s" "kern_pgdir (upd_page p f s) = kern_pgdir s"
  "tlb_flushes (upd_page p f s) = tlb_flushes s" "env_free_list (upd_page p f s) = env_free_list s"
  "kernel_lock (upd_page p f s) = kernel_lock s" "cr3 (upd_page p f s) = cr3 s"
  "cons (upd_page p f s) = cons s" "mmio_base (upd_page p f s) = mmio_base s"
  "user_mem_check_addr (upd_page p f s) = user_mem_check_addr s"
  by (simp_all add: upd_page_def curenv_def)

text \<open>The tables depend on memory only; the free list on \<open>pages\<close>, its head and \<open>npages\<close>.\<close>

lemma vm_kmem_cong:
  assumes "kmem t = kmem s"
  shows "has_tbl t = has_tbl s" "tbl t = tbl s" "pte t = pte s" "amap t = amap s"
    "slots t A = slots s A" "mappers t A = mappers s A" "structural t A = structural s A"
proof -
  show 1: "has_tbl t = has_tbl s" and 2: "tbl t = tbl s" and 3: "pte t = pte s"
    by (simp_all add: fun_eq_iff has_tbl_def tbl_def pte_def assms)
  show "amap t = amap s" by (simp add: fun_eq_iff amap_def 1 3)
  show 4: "slots t A = slots s A" by (simp add: slots_def 1)
  show "mappers t A = mappers s A" by (simp add: fun_eq_iff mappers_def 3 4)
  show "structural t A = structural s A" by (simp add: structural_def 2 4)
qed

lemma free_pages_ok_cong:
  "npages t = npages s \<Longrightarrow> page_free_list t = page_free_list s \<Longrightarrow>
   (\<And>p. pp_link (pages t p) = pp_link (pages s p)) \<Longrightarrow>
   (\<And>p. p \<in> set xs \<Longrightarrow> pp_ref (pages t p) = pp_ref (pages s p)) \<Longrightarrow>
   free_pages_ok t xs = free_pages_ok s xs"
  by (simp add: free_pages_ok_def)

text \<open>Writing one entry of a page table in use.\<close>

lemma tbl_cong: "kmem t q = kmem s q \<Longrightarrow> has_tbl t q = has_tbl s q \<and> tbl t q = tbl s q"
  by (simp add: fun_eq_iff has_tbl_def tbl_def)

lemma wr_pte_dirs:
  assumes "vm_ok s xs A" "(pd, i) \<in> slots s A" "q \<in> A"
  shows "kmem (wr_word (tbl s pd i) j v s) q = kmem s q"
  using vm_tbl_notin [OF assms(1,2)] assms(3) by (auto simp: fun_eq_iff)

lemma wr_pte_tbl:
  assumes "vm_ok s xs A" "(pd, i) \<in> slots s A" "q \<in> A"
  shows "has_tbl (wr_word (tbl s pd i) j v s) q = has_tbl s q"
    and "tbl (wr_word (tbl s pd i) j v s) q = tbl s q"
  using tbl_cong [OF wr_pte_dirs [OF assms]] by auto

lemma wr_pte_slots:
  assumes "vm_ok s xs A" "(pd, i) \<in> slots s A"
  shows "slots (wr_word (tbl s pd i) j v s) A = slots s A"
  using wr_pte_tbl [OF assms] by (auto simp: slots_def)

lemma wr_pte_structural:
  assumes "vm_ok s xs A" "(pd, i) \<in> slots s A"
  shows "structural (wr_word (tbl s pd i) j v s) A = structural s A"
proof -
  have "(\<lambda>(q, k). tbl (wr_word (tbl s pd i) j v s) q k) ` slots s A = (\<lambda>(q, k). tbl s q k) ` slots s A"
    by (rule image_cong) (auto simp: wr_pte_tbl [OF assms] slots_def)
  then show ?thesis by (simp only: structural_def wr_pte_slots [OF assms])
qed

lemma wr_pte_pte:
  assumes "vm_ok s xs A" "(pd, i) \<in> slots s A" "(q, k) \<in> slots s A"
  shows "pte (wr_word (tbl s pd i) j v s) q k l = (if (q, k, l) = (pd, i, j) then v else pte s q k l)"
proof -
  from assms have q: "q \<in> A" by (simp add: slots_def)
  have "tbl s q k = tbl s pd i \<longleftrightarrow> (q, k) = (pd, i)"
    using vm_tbl_inj [OF assms] by auto
  then show ?thesis using wr_pte_tbl(2) [OF assms(1,2) q] by (auto simp: pte_def)
qed

lemma wr_pte_mappers:
  assumes "vm_ok s xs A" "(pd, i) \<in> slots s A" "j < NPTENTRIES"
  shows "mappers (wr_word (tbl s pd i) j v s) A f =
     (if v AND PTE_P \<noteq> 0 \<and> frame_of v = f then insert (pd, i, j) (mappers s A f)
      else mappers s A f - {(pd, i, j)})"
  using assms(2,3)
  by (auto simp: mappers_def wr_pte_slots [OF assms(1,2)] wr_pte_pte [OF assms(1,2)] split: if_splits)

lemma wr_pte_amap:
  assumes "vm_ok s xs A" "(pd, i) \<in> slots s A" "q \<in> A" "k < NUSER"
  shows "amap (wr_word (tbl s pd i) j v s) q (k, l) =
    (if (q, k, l) = (pd, i, j)
     then (if v AND PTE_P \<noteq> 0 then Some (frame_of v, PGOFF v) else None)
     else amap s q (k, l))"
proof (cases "has_tbl s q k")
  case True
  with assms have "(q, k) \<in> slots s A" by (simp add: slots_def)
  from wr_pte_pte [OF assms(1,2) this] True show ?thesis
    by (auto simp: amap_def wr_pte_tbl [OF assms(1-3)])
next
  case False
  with assms show ?thesis by (auto simp: amap_def wr_pte_tbl slots_def)
qed

section \<open>Preservation of the invariant\<close>

lemma vm_ok_wr_pte:
  assumes ok: "vm_ok s xs A" and sl: "(pd, i) \<in> slots s A" and j: "j < NPTENTRIES"
    and v: "v = 0 \<or> v AND PTE_P \<noteq> 0 \<and> frame_of v < npages s \<and> frame_of v \<notin> structural s A"
    and c: "\<And>f. card (mappers (wr_word (tbl s pd i) j v s) A f) \<le> unat (pp_ref (pages s f))"
  shows "vm_ok (wr_word (tbl s pd i) j v s) xs A" (is "vm_ok ?t xs A")
  unfolding vm_ok_def
proof (intro conjI)
  note sl' = wr_pte_slots [OF ok sl] and st' = wr_pte_structural [OF ok sl]
  have tb: "tbl ?t q k = tbl s q k" if "(q, k) \<in> slots s A" for q k
    using wr_pte_tbl(2) [OF ok sl] that by (simp add: slots_def)
  show "free_pages_ok ?t xs" using vm_free [OF ok] by (subst free_pages_ok_cong) auto
  show "finite A" by (rule vm_finite [OF ok])
  show "\<forall>f\<in>structural ?t A. f < npages ?t \<and> pp_ref (pages ?t f) \<noteq> 0"
    using vm_struct [OF ok] by (simp add: st')
  show "\<forall>q\<in>A. \<forall>k<NUSER. kmem ?t q k = 0 \<or> has_tbl ?t q k"
  proof (intro ballI allI impI)
    fix q k assume q: "q \<in> A" and k: "k < NUSER"
    show "kmem ?t q k = 0 \<or> has_tbl ?t q k"
      using vm_empty [OF ok q k] by (simp only: wr_pte_tbl(1) [OF ok sl q] wr_pte_dirs [OF ok sl q]) blast
  qed
  show "\<forall>(q, k)\<in>slots ?t A. tbl ?t q k \<notin> A"
    using vm_tbl_notin [OF ok] by (auto simp: sl' tb)
  show "inj_on (\<lambda>(q, k). tbl ?t q k) (slots ?t A)"
  proof -
    have "inj_on (\<lambda>(q, k). tbl ?t q k) (slots s A) = inj_on (\<lambda>(q, k). tbl s q k) (slots s A)"
      by (rule inj_on_cong) (auto simp: tb)
    then show ?thesis using vm_inj [OF ok] by (simp add: sl')
  qed
  show "\<forall>f. card (mappers ?t A f) \<le> unat (pp_ref (pages ?t f))" using c by simp
  show "\<forall>(q, k)\<in>slots ?t A. \<forall>l<NPTENTRIES. pte ?t q k l = 0 \<or> pte ?t q k l AND PTE_P \<noteq> 0 \<and>
      frame_of (pte ?t q k l) < npages ?t \<and> frame_of (pte ?t q k l) \<notin> structural ?t A"
    using v vm_pte [OF ok] by (auto simp: sl' st' wr_pte_pte [OF ok sl] split: if_splits)
qed

lemma vm_ok_pages:
  assumes ok: "vm_ok s xs A" and k: "kmem t = kmem s" and n: "npages t = npages s"
    and fr: "free_pages_ok t ys"
    and st: "\<And>f. f \<in> structural s A \<Longrightarrow> pp_ref (pages t f) \<noteq> 0"
    and c: "\<And>f. card (mappers s A f) \<le> unat (pp_ref (pages t f))"
  shows "vm_ok t ys A"
  using ok fr st c unfolding vm_ok_def by (simp add: vm_kmem_cong [OF k] k n)

lemma unat_inc: "unat x + 1 < 2 ^ 16 \<Longrightarrow> unat ((x :: u16) + 1) = unat x + 1"
  by (simp add: unat_word_ariths)

text \<open>One more reference to a frame in use.\<close>

definition incref :: "nat \<Rightarrow> kstate \<Rightarrow> kstate" where
  "incref f s = upd_page f (\<lambda>p. p\<lparr>pp_ref := pp_ref p + 1\<rparr>) s"

lemma incref_simps [kernel_simps, simp]:
  "pp_ref (pages (incref f s) q) = (if q = f then pp_ref (pages s f) + 1 else pp_ref (pages s q))"
  "pp_link (pages (incref f s) q) = pp_link (pages s q)" "kmem (incref f s) = kmem s"
  "npages (incref f s) = npages s" "page_free_list (incref f s) = page_free_list s"
  "curenv (incref f s) = curenv s" "envs (incref f s) = envs s"
  "tlb_flushes (incref f s) = tlb_flushes s"
  by (simp_all add: incref_def)

lemma vm_ok_incref:
  assumes ok: "vm_ok s xs A" and f: "f \<notin> set xs" and b: "unat (pp_ref (pages s f)) + 1 < 2 ^ 16"
  shows "vm_ok (incref f s) xs A"
proof (rule vm_ok_pages [OF ok])
  have nz: "pp_ref (pages s f) + 1 \<noteq> 0"
    using unat_inc [OF b] by (metis add_is_0 unat_0 zero_neq_one)
  show "free_pages_ok (incref f s) xs"
    using vm_free [OF ok] f by (subst free_pages_ok_cong) auto
  show "pp_ref (pages (incref f s) g) \<noteq> 0" if "g \<in> structural s A" for g
    using vm_struct [OF ok that] nz by simp
  show "card (mappers s A g) \<le> unat (pp_ref (pages (incref f s) g))" for g
    using vm_count [OF ok, of g] unat_inc [OF b] by (cases "g = f") simp_all
qed simp_all

text \<open>The state \<open>page_decref\<close> leaves.\<close>

definition dropped :: "nat \<Rightarrow> kstate \<Rightarrow> kstate" where
  "dropped f s =
     (let t = upd_page f (\<lambda>p. p\<lparr>pp_ref := pp_ref p - 1\<rparr>) s
      in if pp_ref (pages t f) = 0 then pushed f t else t)"

definition dropped_list :: "nat \<Rightarrow> kstate \<Rightarrow> nat list \<Rightarrow> nat list" where
  "dropped_list f s xs = (if pp_ref (pages s f) = 1 then f # xs else xs)"

lemma dropped_simps [kernel_simps, simp]:
  "pp_ref (pages (dropped f s) q) = (if q = f then pp_ref (pages s f) - 1 else pp_ref (pages s q))"
  "kmem (dropped f s) = kmem s" "npages (dropped f s) = npages s" "curenv (dropped f s) = curenv s"
  "envs (dropped f s) = envs s" "tlb_flushes (dropped f s) = tlb_flushes s"
  "cpus (dropped f s) = cpus s" "this_cpu (dropped f s) = this_cpu s"
  by (simp_all add: dropped_def Let_def)

lemma dropped_pages [simp]: "g \<noteq> f \<Longrightarrow> pages (dropped f s) g = pages s g"
  by (simp add: dropped_def pushed_def Let_def)

lemma page_decref_dropped:
  assumes fr: "free_pages_ok s xs" and f: "f < npages s" and nz: "pp_ref (pages s f) \<noteq> 0"
  shows "page_decref f s = Ret () (dropped f s) \<and>
    free_pages_ok (dropped f s) (dropped_list f s xs)"
proof -
  let ?t = "upd_page f (\<lambda>p. p\<lparr>pp_ref := pp_ref p - 1\<rparr>) s"
  have nf: "f \<notin> set xs" by (rule free_pages_ok_nonfree [OF fr f nz])
  have t: "free_pages_ok ?t xs"
    using fr nf by (subst free_pages_ok_cong) auto
  show ?thesis
  proof (cases "pp_ref (pages s f) = 1")
    case True
    then have "page_free f ?t = Ret () (pushed f ?t) \<and> free_pages_ok (pushed f ?t) (f # xs)"
      using page_free_pushed [OF t _ nf] free_pages_ok_pushed [OF t _ nf] f by simp
    with True show ?thesis by (simp add: page_decref_def dropped_def dropped_list_def Let_def)
  next
    case False
    then have "pp_ref (pages s f) - 1 \<noteq> 0" by (metis eq_iff_diff_eq_0)
    with False t show ?thesis by (simp add: page_decref_def dropped_def dropped_list_def Let_def)
  qed
qed

lemma vm_ok_dropped:
  assumes ok: "vm_ok s xs A" and f: "f < npages s" "f \<notin> structural s A"
    and c: "card (mappers s A f) < unat (pp_ref (pages s f))"
  shows "page_decref f s = Ret () (dropped f s) \<and> vm_ok (dropped f s) (dropped_list f s xs) A"
proof -
  from c have nz: "pp_ref (pages s f) \<noteq> 0" by auto
  note d = page_decref_dropped [OF vm_free [OF ok] f(1) nz]
  have "vm_ok (dropped f s) (dropped_list f s xs) A"
  proof (rule vm_ok_pages [OF ok])
    show "free_pages_ok (dropped f s) (dropped_list f s xs)" using d by simp
    show "pp_ref (pages (dropped f s) g) \<noteq> 0" if "g \<in> structural s A" for g
      using vm_struct [OF ok that] that f(2) by auto
    have "unat (pp_ref (pages s f) - 1) = unat (pp_ref (pages s f)) - 1"
      using nz by (simp add: unat_minus_one)
    then show "card (mappers s A g) \<le> unat (pp_ref (pages (dropped f s) g))" for g
      using vm_count [OF ok, of g] c by auto
  qed simp_all
  with d show ?thesis by simp
qed

section \<open>A new page table\<close>

definition pde_for :: "nat \<Rightarrow> u32" where
  "pde_for p = ((page2pa p OR PTE_P) OR PTE_U) OR PTE_W"

lemma frame_of_or:
  "p < 2 ^ 20 \<Longrightarrow> PTE_ADDR f = 0 \<Longrightarrow> frame_of (page2pa p OR f) = p"
  by (simp add: frame_of_def PGNUM_page2pa_flags)

lemma or_PTE_P [simp]: "(x OR PTE_P) AND PTE_P \<noteq> 0"
proof
  assume "(x OR PTE_P) AND PTE_P = 0"
  then have "bit ((x OR PTE_P) AND PTE_P) 0 = bit (0::u32) 0" by simp
  then show False by (simp add: bit_simps PTE_P_def)
qed

lemma pde_for_frame: "p < 2 ^ 20 \<Longrightarrow> frame_of (pde_for p) = p"
  using frame_of_or [of p "(PTE_P OR PTE_U) OR PTE_W"]
  by (simp add: pde_for_def or.assoc PTE_ADDR_or)

lemma pde_for_present [simp]: "pde_for p AND PTE_P \<noteq> 0"
proof -
  have "pde_for p = ((page2pa p OR PTE_U) OR PTE_W) OR PTE_P"
    by (simp add: pde_for_def ac_simps)
  then show ?thesis using or_PTE_P by metis
qed

definition with_tbl :: "nat \<Rightarrow> nat \<Rightarrow> nat \<Rightarrow> kstate \<Rightarrow> kstate" where
  "with_tbl p pd i s = wr_word pd i (pde_for p) (incref p (popped 1 p s))"

lemma with_tbl_simps [kernel_simps, simp]:
  "npages (with_tbl p pd i s) = npages s" "curenv (with_tbl p pd i s) = curenv s"
  "envs (with_tbl p pd i s) = envs s" "tlb_flushes (with_tbl p pd i s) = tlb_flushes s"
  by (simp_all add: with_tbl_def)

lemma with_tbl_pages:
  "q \<noteq> p \<Longrightarrow> pages (with_tbl p pd i s) q = pages s q"
  "pp_ref (pages s p) = 0 \<Longrightarrow> pp_ref (pages (with_tbl p pd i s) p) = 1"
  by (simp_all add: with_tbl_def incref_def)

lemma with_tbl_kmem:
  assumes "p \<noteq> pd"
  shows "kmem (with_tbl p pd i s) p = (\<lambda>_. 0)"
    "q \<noteq> p \<Longrightarrow> q \<noteq> pd \<Longrightarrow> kmem (with_tbl p pd i s) q = kmem s q"
    "kmem (with_tbl p pd i s) pd = (kmem s pd)(i := pde_for p)"
  using assms by (auto simp: with_tbl_def fun_eq_iff)

lemma vm_free_frame:
  assumes ok: "vm_ok s xs A" and p: "p \<in> set xs"
  shows "p \<notin> structural s A" "p \<notin> A" "mappers s A p = {}"
proof -
  from vm_free [OF ok] p have r: "pp_ref (pages s p) = 0" by (simp add: free_pages_ok_def)
  then show "p \<notin> structural s A" using vm_struct [OF ok] by blast
  then show "p \<notin> A" by (simp add: structural_def)
  from r vm_mapped_ref [OF ok] show "mappers s A p = {}" by blast
qed

lemma new_tbl_view:
  assumes ok: "vm_ok s (p # ps) A" and pd: "pd \<in> A" and q: "q \<in> A"
  shows "has_tbl (with_tbl p pd i s) q k \<longleftrightarrow> has_tbl s q k \<or> (q, k) = (pd, i)"
    and "tbl (with_tbl p pd i s) q k = (if (q, k) = (pd, i) then p else tbl s q k)"
proof -
  from vm_free [OF ok] have "p < 2 ^ 20" by (auto simp: free_pages_ok_def)
  then have f: "frame_of (pde_for p) = p" by (rule pde_for_frame)
  from vm_free_frame [OF ok, of p] pd q have n: "p \<noteq> pd" "p \<noteq> q" by auto
  note w = with_tbl_kmem [OF n(1)]
  show "has_tbl (with_tbl p pd i s) q k \<longleftrightarrow> has_tbl s q k \<or> (q, k) = (pd, i)"
    using w(2) [of q] n by (cases "q = pd") (auto simp: has_tbl_def w(3))
  show "tbl (with_tbl p pd i s) q k = (if (q, k) = (pd, i) then p else tbl s q k)"
    using w(2) [of q] n f by (cases "q = pd") (auto simp: tbl_def w(3))
qed

lemma new_tbl_pte:
  assumes ok: "vm_ok s (p # ps) A" and pd: "pd \<in> A" and q: "(q, k) \<in> slots s A"
    and nt: "\<not> has_tbl s pd i"
  shows "pte (with_tbl p pd i s) q k l = pte s q k l"
proof -
  from q have qA: "q \<in> A" and h: "has_tbl s q k" by (auto simp: slots_def)
  from h nt have ne: "(q, k) \<noteq> (pd, i)" by auto
  from vm_free_frame(1,2) [OF ok, of p] structuralI(2) [OF q] pd have "tbl s q k \<noteq> p" "p \<noteq> pd" by auto
  moreover from vm_tbl_notin [OF ok q] pd have "tbl s q k \<noteq> pd" by auto
  ultimately have "kmem (with_tbl p pd i s) (tbl s q k) = kmem s (tbl s q k)"
    using with_tbl_kmem(2) by metis
  with new_tbl_view(2) [OF ok pd qA] ne show ?thesis by (auto simp: pte_def)
qed

lemma new_tbl_fresh:
  assumes ok: "vm_ok s (p # ps) A" and pd: "pd \<in> A"
  shows "pte (with_tbl p pd i s) pd i l = 0"
proof -
  from vm_free_frame(2) [OF ok, of p] pd have "p \<noteq> pd" by auto
  from with_tbl_kmem(1) [OF this] new_tbl_view(2) [OF ok pd pd] show ?thesis by (simp add: pte_def)
qed

lemma vm_ok_new_tbl:
  assumes ok: "vm_ok s (p # ps) A" and pd: "pd \<in> A" and i: "i < NUSER" and nt: "\<not> has_tbl s pd i"
  defines "t \<equiv> with_tbl p pd i s"
  shows "vm_ok t ps A" "slots t A = insert (pd, i) (slots s A)"
    "mappers t A f = mappers s A f" "structural t A = insert p (structural s A)"
    "q \<in> A \<Longrightarrow> k < NUSER \<Longrightarrow> amap t q (k, l) = amap s q (k, l)"
proof -
  note view = new_tbl_view [OF ok pd, where i = i, folded t_def]
  note old = new_tbl_pte [OF ok pd _ nt, folded t_def]
  note fresh = new_tbl_fresh [OF ok pd, where i = i, folded t_def]
  note pf = vm_free_frame [OF ok, of p, simplified]
  show sl: "slots t A = insert (pd, i) (slots s A)"
    using pd i view(1) by (auto simp: slots_def)
  have tb: "tbl t q k = tbl s q k" if "(q, k) \<in> slots s A" for q k
    using view(2) [of q k] that nt by (auto simp: slots_def)
  have tp: "tbl t pd i = p" using view(2) [OF pd] by simp
  have "(\<lambda>(q, k). tbl t q k) ` slots s A = (\<lambda>(q, k). tbl s q k) ` slots s A"
    by (rule image_cong) (auto simp: tb)
  with tp show st: "structural t A = insert p (structural s A)"
    by (auto simp: structural_def sl)
  show mp: "mappers t A f = mappers s A f" for f
    using old fresh nt by (auto simp: mappers_def sl)
  show "amap t q (k, l) = amap s q (k, l)" if "q \<in> A" "k < NUSER" for q k l
  proof (cases "(q, k) \<in> slots s A")
    case True
    with that show ?thesis using view(1) [of q k] old [OF True] by (auto simp: amap_def slots_def)
  next
    case False
    with that have n: "\<not> has_tbl s q k" by (simp add: slots_def)
    with view(1) [OF that(1), of k] fresh [of l] show ?thesis by (auto simp: amap_def)
  qed
  have fr: "free_pages_ok t ps"
  proof -
    have "free_pages_ok (popped 1 p s) ps" by (rule free_pages_ok_popped [OF vm_free [OF ok]])
    moreover have "p \<notin> set ps" using free_pages_ok_distinct [OF vm_free [OF ok]] by simp
    ultimately show ?thesis
      unfolding t_def with_tbl_def by (subst free_pages_ok_cong [of _ "popped 1 p s"]) auto
  qed
  have p0: "pp_ref (pages s p) = 0" "p < npages s"
    using vm_free [OF ok] by (auto simp: free_pages_ok_def)
  have nn: "npages t = npages s" by (simp add: t_def)
  have pg: "pages t q = pages s q" if "q \<noteq> p" for q
    using with_tbl_pages(1) [OF that] by (simp add: t_def)
  have pp: "pp_ref (pages t p) = 1" using with_tbl_pages(2) [OF p0(1)] by (simp add: t_def)
  show "vm_ok t ps A"
    unfolding vm_ok_def
  proof (intro conjI)
    show "free_pages_ok t ps" by (rule fr)
    show "finite A" by (rule vm_finite [OF ok])
    show "\<forall>f\<in>structural t A. f < npages t \<and> pp_ref (pages t f) \<noteq> 0"
    proof
      fix f assume "f \<in> structural t A"
      then show "f < npages t \<and> pp_ref (pages t f) \<noteq> 0"
        using vm_struct [OF ok, of f] pg [of f] pp p0(2) by (cases "f = p") (auto simp: st nn)
    qed
    show "\<forall>q\<in>A. \<forall>k<NUSER. kmem t q k = 0 \<or> has_tbl t q k"
    proof (intro ballI allI impI)
      fix q k assume q: "q \<in> A" and k: "k < NUSER"
      have pq: "p \<noteq> pd" "p \<noteq> q" using pf q pd by auto
      show "kmem t q k = 0 \<or> has_tbl t q k"
        using vm_empty [OF ok q k] view(1) [OF q, of k] with_tbl_kmem(2,3) [OF pq(1)] pq
        by (cases "q = pd") (auto simp: t_def)
    qed
    show "\<forall>(q, k)\<in>slots t A. tbl t q k \<notin> A"
      using vm_tbl_notin [OF ok] pf by (auto simp: sl tb tp)
    show "inj_on (\<lambda>(q, k). tbl t q k) (slots t A)"
    proof -
      have "inj_on (\<lambda>(q, k). tbl t q k) (slots s A) = inj_on (\<lambda>(q, k). tbl s q k) (slots s A)"
        by (rule inj_on_cong) (auto simp: tb)
      moreover have "p \<noteq> tbl t q k" if "(q, k) \<in> slots s A" for q k
        using tb [OF that] structuralI(2) [OF that] pf by auto
      ultimately show ?thesis using vm_inj [OF ok] tp by (auto simp: sl)
    qed
    show "\<forall>(q, k)\<in>slots t A. \<forall>l<NPTENTRIES. pte t q k l = 0 \<or> pte t q k l AND PTE_P \<noteq> 0 \<and>
        frame_of (pte t q k l) < npages t \<and> frame_of (pte t q k l) \<notin> structural t A"
    proof (clarify, unfold sl)
      fix q k l
      assume qk: "(q, k) \<in> insert (pd, i) (slots s A)" and l: "l < NPTENTRIES"
        and nz: "\<not> (pte t q k l AND PTE_P \<noteq> 0 \<and>
          frame_of (pte t q k l) < npages t \<and> frame_of (pte t q k l) \<notin> structural t A)"
      show "pte t q k l = 0"
      proof (cases "(q, k) \<in> slots s A")
        case True
        note o = old [OF True, of l]
        have "frame_of (pte s q k l) \<noteq> p" if "pte s q k l AND PTE_P \<noteq> 0"
        proof
          assume "frame_of (pte s q k l) = p"
          with True l that have "(q, k, l) \<in> mappers s A p" by (simp add: mappers_def)
          with pf show False by simp
        qed
        with nz vm_pte [OF ok True l] show ?thesis by (auto simp: o st nn)
      next
        case False
        with qk fresh show ?thesis by simp
      qed
    qed
    show "\<forall>f. card (mappers t A f) \<le> unat (pp_ref (pages t f))"
    proof
      fix f
      show "card (mappers t A f) \<le> unat (pp_ref (pages t f))"
        using vm_count [OF ok, of f] pg [of f] pf by (cases "f = p") (simp_all add: mp)
    qed
  qed
qed

section \<open>The operations over the abstraction\<close>

text \<open>The user part of an address space, as a map from pages to frames with permissions.\<close>

definition uspace :: "kstate \<Rightarrow> nat \<Rightarrow> nat \<times> nat \<Rightarrow> (nat \<times> u32) option" where
  "uspace s pd = amap s pd |` ({..<NUSER} \<times> {..<NPTENTRIES})"

lemma uspace_vpn: "va < UTOP \<Longrightarrow> uspace s pd (vpn va) = amap s pd (vpn va)"
  using user_PDX [of va] by (simp add: uspace_def vpn_def restrict_map_def NPTENTRIES_def)

lemma uspace_eqI:
  "(\<And>k l. k < NUSER \<Longrightarrow> l < NPTENTRIES \<Longrightarrow> amap t q (k, l) = m (k, l)) \<Longrightarrow>
   (\<And>k l. k \<ge> NUSER \<or> l \<ge> NPTENTRIES \<Longrightarrow> m (k, l) = None) \<Longrightarrow> uspace t q = m"
proof (rule ext, clarify)
  fix k l
  assume 1: "\<And>k l. k < NUSER \<Longrightarrow> l < NPTENTRIES \<Longrightarrow> amap t q (k, l) = m (k, l)"
    and 2: "\<And>k l. k \<ge> NUSER \<or> l \<ge> NPTENTRIES \<Longrightarrow> m (k, l) = None"
  show "uspace t q (k, l) = m (k, l)"
    using 1 [of k l] 2 [of k l]
    by (cases "k < NUSER \<and> l < NPTENTRIES") (auto simp: uspace_def restrict_map_def)
qed

lemma uspace_out: "k \<ge> NUSER \<or> l \<ge> NPTENTRIES \<Longrightarrow> uspace s q (k, l) = None"
  by (auto simp: uspace_def restrict_map_def)

lemma uspace_in: "k < NUSER \<Longrightarrow> l < NPTENTRIES \<Longrightarrow> uspace s q (k, l) = amap s q (k, l)"
  by (auto simp: uspace_def restrict_map_def)

lemma uspace_kmem_cong: "kmem t = kmem s \<Longrightarrow> uspace t = uspace s"
  by (rule ext) (simp only: uspace_def vm_kmem_cong(4) [of t s])

lemma slot_va:
  "pd \<in> A \<Longrightarrow> va < UTOP \<Longrightarrow> (pd, unat (PDX va)) \<in> slots s A \<longleftrightarrow> has_tbl s pd (unat (PDX va))"
  by (simp add: slots_def user_PDX)

lemma PTX_NPT [simp]: "unat (PTX va) < NPTENTRIES"
  by (simp add: NPTENTRIES_def)

lemma PTE_P_1: "PTE_P = 1" by (simp add: PTE_P_def)

text \<open>The walk to a page table that exists, and the walk that makes one from the top of the free list.\<close>

lemma walk_present:
  assumes "has_tbl s pd (unat (PDX va))" "tbl s pd (unat (PDX va)) < npages s"
  shows "pgdir_walk pd va c s = Ret (Some (tbl s pd (unat (PDX va)), unat (PTX va))) s"
proof -
  let ?e = "kmem s pd (unat (PDX va))"
  from assms(1) have h: "?e AND PTE_P \<noteq> 0" by (simp add: has_tbl_def)
  then have nz: "?e \<noteq> 0" by auto
  from assms(2) have "unat (PGNUM ?e) < npages s" by (simp add: tbl_def frame_of_def)
  with h nz show ?thesis
    by (simp add: pgdir_walk_def Let_def PTE_P_1 kaddr_def kva_frame_kaddr tbl_def frame_of_def)
qed

lemma walk_fresh:
  assumes fr: "free_pages_ok s (p # ps)" and z: "kmem s pd (unat (PDX va)) = 0"
  shows "pgdir_walk pd va True s = Ret (Some (p, unat (PTX va))) (with_tbl p pd (unat (PDX va)) s)"
proof -
  from fr have p: "p < 2 ^ 20" "p < npages s" by (auto simp: free_pages_ok_def)
  have f: "unat (PGNUM (pde_for p)) = p" using pde_for_frame [OF p(1)] by (simp add: frame_of_def)
  have "kaddr (PTE_ADDR (pde_for p)) (with_tbl p pd (unat (PDX va)) s) =
      Ret (PTE_ADDR (pde_for p) + KERNBASE) (with_tbl p pd (unat (PDX va)) s)"
    using p(2) f by (simp add: kaddr_def)
  with z page_alloc_Cons [OF fr, of 1] f show ?thesis
    by (simp add: pgdir_walk_def PTE_P_1 c_not_def with_tbl_def incref_def pde_for_def Let_def kva_frame_kaddr)
qed

lemma walk_hit:
  assumes ok: "vm_ok s xs A" and sl: "(pd, unat (PDX va)) \<in> slots s A"
  shows "pgdir_walk pd va c s = Ret (Some (tbl s pd (unat (PDX va)), unat (PTX va))) s"
  using sl vm_struct [OF ok structuralI(2) [OF sl]] by (intro walk_present) (simp_all add: slots_def)

lemma walk_miss:
  assumes ok: "vm_ok s xs A" and pd: "pd \<in> A" and va: "va < UTOP"
    and nt: "\<not> has_tbl s pd (unat (PDX va))"
  shows "pgdir_walk pd va False s = Ret None s"
  using vm_empty [OF ok pd user_PDX [OF va] nt] by (simp add: pgdir_walk_def PTE_P_1 c_not_def)

lemma walk_new:
  assumes ok: "vm_ok s xs A" and pd: "pd \<in> A" and va: "va < UTOP"
    and nt: "\<not> has_tbl s pd (unat (PDX va))"
  shows "pgdir_walk pd va True s =
    (case xs of [] \<Rightarrow> Ret None s
     | p # ps \<Rightarrow> Ret (Some (p, unat (PTX va))) (with_tbl p pd (unat (PDX va)) s))"
proof (cases xs)
  case Nil
  with page_alloc_Nil [of s 1] vm_free [OF ok] vm_empty [OF ok pd user_PDX [OF va] nt] show ?thesis
    by (simp add: pgdir_walk_def PTE_P_1 c_not_def)
next
  case (Cons p ps)
  with vm_free [OF ok] walk_fresh [OF _ vm_empty [OF ok pd user_PDX [OF va] nt]] show ?thesis by simp
qed

lemma PTE_ADDR_PGOFF: "PTE_ADDR x OR PGOFF x = x"
  by (rule bit_eqI) (auto simp: PTE_ADDR_push PGOFF_take bit_simps)

lemma PGOFF_flags: "PTE_ADDR x = 0 \<Longrightarrow> PGOFF x = x"
  using PTE_ADDR_PGOFF [of x] by simp

lemma PGOFF_page2pa: "PTE_ADDR f = 0 \<Longrightarrow> PGOFF (page2pa p OR f) = f"
proof -
  assume "PTE_ADDR f = 0"
  then have "f = PGOFF f" by (simp add: PGOFF_flags)
  moreover have "PGOFF (page2pa p OR f) = PGOFF f"
    by (rule bit_eqI) (auto simp: PGOFF_take page2pa_def bit_simps)
  ultimately show ?thesis by simp
qed

text \<open>The entry \<open>page_insert\<close> writes.\<close>

definition pte_for :: "nat \<Rightarrow> u32 \<Rightarrow> u32" where
  "pte_for pp perm = (PTE_ADDR (page2pa pp) OR perm) OR PTE_P"

lemma pte_for:
  assumes "pp < 2 ^ 20" "PTE_ADDR perm = 0"
  shows "frame_of (pte_for pp perm) = pp" "PGOFF (pte_for pp perm) = perm OR PTE_P"
    "pte_for pp perm AND PTE_P \<noteq> 0"
proof -
  have e: "pte_for pp perm = page2pa pp OR (perm OR PTE_P)"
    by (simp add: pte_for_def or.assoc)
  have z: "PTE_ADDR (perm OR PTE_P) = 0" using assms(2) by (simp add: PTE_ADDR_or)
  show "frame_of (pte_for pp perm) = pp" using frame_of_or [OF assms(1) z] by (simp only: e)
  show "PGOFF (pte_for pp perm) = perm OR PTE_P" using PGOFF_page2pa [OF z] by (simp only: e)
  show "pte_for pp perm AND PTE_P \<noteq> 0" unfolding pte_for_def by (rule or_PTE_P)
qed

lemma wr_pte_uspace:
  assumes ok: "vm_ok s xs A" and sl: "(pd, i) \<in> slots s A" and j: "j < NPTENTRIES" and q: "q \<in> A"
  shows "uspace (wr_word (tbl s pd i) j v s) q =
    (if q = pd then (uspace s q)((i, j) :=
       (if v AND PTE_P \<noteq> 0 then Some (frame_of v, PGOFF v) else None)) else uspace s q)"
proof (rule uspace_eqI)
  fix k l assume "k < NUSER" "l < NPTENTRIES"
  then show "amap (wr_word (tbl s pd i) j v s) q (k, l) = (if q = pd then (uspace s q)((i, j) :=
       (if v AND PTE_P \<noteq> 0 then Some (frame_of v, PGOFF v) else None)) else uspace s q) (k, l)"
    using wr_pte_amap [OF ok sl q, of k j v l] by (auto simp: uspace_in)
next
  from sl have "i < NUSER" by (simp add: slots_def)
  with j show "(if q = pd then (uspace s q)((i, j) :=
       (if v AND PTE_P \<noteq> 0 then Some (frame_of v, PGOFF v) else None)) else uspace s q) (k, l) = None"
    if "k \<ge> NUSER \<or> l \<ge> NPTENTRIES" for k l
    using uspace_out [OF that] that by auto
qed

text \<open>Mapping a frame in use at an empty entry, with the reference it takes.\<close>

lemma vm_map_empty:
  assumes ok: "vm_ok s xs A" and sl: "(pd, i) \<in> slots s A" and j: "j < NPTENTRIES"
    and e: "pte s pd i j = 0" and f: "f < npages s" "f \<notin> structural s A" "f \<notin> set xs"
    and b: "unat (pp_ref (pages s f)) + 1 < 2 ^ 16"
    and v: "v AND PTE_P \<noteq> 0" "frame_of v = f"
  defines "t \<equiv> incref f (wr_word (tbl s pd i) j v s)"
  shows "vm_ok t xs A" "structural t A = structural s A"
    "q \<in> A \<Longrightarrow> uspace t q =
      (if q = pd then (uspace s q)((i, j) \<mapsto> (f, PGOFF v)) else uspace s q)"
proof -
  let ?s = "incref f s"
  have k: "kmem ?s = kmem s" by simp
  note c = vm_kmem_cong [OF k]
  have t: "t = wr_word (tbl ?s pd i) j v ?s"
    unfolding c by (simp add: t_def incref_def upd_page_def wr_word_def)
  have ok1: "vm_ok ?s xs A" by (rule vm_ok_incref [OF ok f(3) b])
  have sl1: "(pd, i) \<in> slots ?s A" using sl by (simp add: c)
  have mm: "mappers (wr_word (tbl ?s pd i) j v ?s) A g =
      (if g = f then insert (pd, i, j) (mappers s A g) else mappers s A g - {(pd, i, j)})" for g
    unfolding wr_pte_mappers [OF ok1 sl1 j] c(6) using v by auto
  have cnt: "card (mappers (wr_word (tbl ?s pd i) j v ?s) A g) \<le> unat (pp_ref (pages ?s g))" for g
  proof (cases "g = f")
    case True
    have "card (insert (pd, i, j) (mappers s A f)) \<le> Suc (card (mappers s A f))"
      by (rule card_insert_le_m1) simp_all
    also have "\<dots> \<le> unat (pp_ref (pages s f)) + 1" using vm_count [OF ok, of f] by simp
    finally show ?thesis unfolding mm using True unat_inc [OF b] by simp
  next
    case False
    then show ?thesis unfolding mm using vm_count [OF ok, of g]
        card_Diff1_le [of "mappers s A g" "(pd, i, j)"] by simp
  qed
  show "vm_ok t xs A"
    unfolding t by (rule vm_ok_wr_pte [OF ok1 sl1 j _ cnt]) (use v f in \<open>simp add: c\<close>)
  show "structural t A = structural s A"
    unfolding t using wr_pte_structural [OF ok1 sl1] by (simp add: c)
  show "uspace t q = (if q = pd then (uspace s q)((i, j) \<mapsto> (f, PGOFF v)) else uspace s q)"
    if "q \<in> A"
    unfolding t using wr_pte_uspace [OF ok1 sl1 j that, of v] v uspace_kmem_cong [OF k] by simp
qed

text \<open>Taking a mapping away, with the reference it held.\<close>

lemma vm_unmap:
  assumes ok: "vm_ok s xs A" and sl: "(pd, i) \<in> slots s A" and j: "j < NPTENTRIES"
    and e: "pte s pd i j \<noteq> 0"
  defines "f \<equiv> frame_of (pte s pd i j)"
  defines "u \<equiv> wr_word (tbl s pd i) j 0 s"
  defines "t \<equiv> dropped f u"
  shows "page_decref f u = Ret () t" "vm_ok t (dropped_list f s xs) A"
    "slots t A = slots s A" "structural t A = structural s A"
    "q \<in> A \<Longrightarrow> tbl t q = tbl s q" "pte t pd i j = 0" "f < npages s" "f \<notin> structural s A"
    "q \<in> A \<Longrightarrow> uspace t q = (if q = pd then (uspace s q)((i, j) := None) else uspace s q)"
proof -
  from vm_pte [OF ok sl j e] have p: "pte s pd i j AND PTE_P \<noteq> 0"
    and f: "f < npages s" "f \<notin> structural s A" by (auto simp: f_def)
  have mem: "(pd, i, j) \<in> mappers s A f" using sl j p by (simp add: mappers_def f_def)
  have m: "mappers u A g = mappers s A g - {(pd, i, j)}" for g
    unfolding u_def by (simp add: wr_pte_mappers [OF ok sl j])
  note fin = finite_mappers [OF vm_finite [OF ok]]
  have lt: "card (mappers u A f) < unat (pp_ref (pages s f))"
    unfolding m using card_Diff1_less [OF fin mem] vm_count [OF ok, of f] by simp
  have oku: "vm_ok u xs A"
    unfolding u_def
  proof (rule vm_ok_wr_pte [OF ok sl j])
    show "card (mappers (wr_word (tbl s pd i) j 0 s) A g) \<le> unat (pp_ref (pages s g))" for g
      using m [of g] vm_count [OF ok, of g] card_Diff1_le [of "mappers s A g" "(pd, i, j)"]
      by (simp add: u_def)
  qed simp
  have stu: "structural u A = structural s A" and slu: "slots u A = slots s A"
    unfolding u_def by (rule wr_pte_structural [OF ok sl], rule wr_pte_slots [OF ok sl])
  have k: "kmem t = kmem u" by (simp add: t_def)
  note c = vm_kmem_cong [OF k]
  have pu: "npages u = npages s" "pages u = pages s" by (simp_all add: u_def)
  have d: "page_decref f u = Ret () t \<and> vm_ok t (dropped_list f u xs) A"
    unfolding t_def by (rule vm_ok_dropped [OF oku]) (use f lt pu in \<open>simp_all add: stu\<close>)
  then show "page_decref f u = Ret () t" "vm_ok t (dropped_list f s xs) A"
    by (simp_all add: dropped_list_def u_def)
  show "slots t A = slots s A" "structural t A = structural s A" by (simp_all add: c slu stu)
  show "tbl t q = tbl s q" if "q \<in> A"
    using wr_pte_tbl(2) [OF ok sl that] by (simp add: c u_def)
  show "pte t pd i j = 0" using wr_pte_pte [OF ok sl sl] by (simp add: c u_def)
  show "f < npages s" "f \<notin> structural s A" by (fact f)+
  show "uspace t q = (if q = pd then (uspace s q)((i, j) := None) else uspace s q)" if "q \<in> A"
    using wr_pte_uspace [OF ok sl j that, of 0] uspace_kmem_cong [OF k] by (simp add: u_def)
qed

lemma tlb_invalidate_simps [kernel_simps, simp]:
  "kmem (tlb_invalidate pd va s) = kmem s" "pages (tlb_invalidate pd va s) = pages s"
  "npages (tlb_invalidate pd va s) = npages s" "envs (tlb_invalidate pd va s) = envs s"
  "page_free_list (tlb_invalidate pd va s) = page_free_list s"
  "curenv (tlb_invalidate pd va s) = curenv s"
  by (simp_all add: tlb_invalidate_def curenv_def)

text \<open>Only memory, the page array and the free list matter for the invariant.\<close>

lemma vm_ok_cong:
  assumes "kmem t = kmem s" "pages t = pages s" "npages t = npages s"
    "page_free_list t = page_free_list s"
  shows "vm_ok t xs A = vm_ok s xs A"
proof -
  have "free_pages_ok t xs = free_pages_ok s xs"
    by (rule free_pages_ok_cong) (simp_all add: assms)
  then show ?thesis by (simp add: vm_ok_def vm_kmem_cong [OF assms(1)] assms)
qed

lemma vm_ok_tlb [simp]: "vm_ok (tlb_invalidate pd va s) xs A = vm_ok s xs A"
  by (rule vm_ok_cong) simp_all

lemma uspace_tlb [simp]: "uspace (tlb_invalidate pd va s) = uspace s"
  by (rule uspace_kmem_cong) simp

lemma pa2page_frame: "frame_of e < npages s \<Longrightarrow> pa2page (PTE_ADDR e) s = Ret (frame_of e) s"
  by (simp add: pa2page_def frame_of_def)

lemma page_lookup_slot:
  assumes ok: "vm_ok s xs A" and sl: "(pd, unat (PDX va)) \<in> slots s A"
    and f: "frame_of (pte s pd (unat (PDX va)) (unat (PTX va))) < npages s"
  shows "page_lookup pd va s = Ret (Some (frame_of (pte s pd (unat (PDX va)) (unat (PTX va))),
    tbl s pd (unat (PDX va)), unat (PTX va))) s"
  using walk_hit [OF ok sl] f by (simp add: page_lookup_def pa2page_frame pte_def)

lemma vpn_slot:
  assumes "vm_ok s xs A" "pd \<in> A" "va < UTOP" "uspace s pd (vpn va) = Some (f, fl)"
  shows "(pd, unat (PDX va)) \<in> slots s A" "pte s pd (unat (PDX va)) (unat (PTX va)) \<noteq> 0"
    "frame_of (pte s pd (unat (PDX va)) (unat (PTX va))) = f"
    "PGOFF (pte s pd (unat (PDX va)) (unat (PTX va))) = fl" "f < npages s" "f \<notin> structural s A"
    "pp_ref (pages s f) \<noteq> 0" "f \<notin> set xs"
proof -
  from assms(4) have "amap s pd (unat (PDX va), unat (PTX va)) = Some (f, fl)"
    using uspace_vpn [OF assms(3), of s pd] by (simp add: vpn_def)
  then have a: "has_tbl s pd (unat (PDX va))"
    "pte s pd (unat (PDX va)) (unat (PTX va)) AND PTE_P \<noteq> 0"
    "frame_of (pte s pd (unat (PDX va)) (unat (PTX va))) = f"
    "PGOFF (pte s pd (unat (PDX va)) (unat (PTX va))) = fl"
    by (auto simp: amap_def split: if_splits)
  show sl: "(pd, unat (PDX va)) \<in> slots s A" using slot_va [OF assms(2,3)] a(1) by blast
  show nz: "pte s pd (unat (PDX va)) (unat (PTX va)) \<noteq> 0" using a(2) by auto
  from vm_pte [OF assms(1) sl PTX_NPT nz] a(3) show "f < npages s" "f \<notin> structural s A" by auto
  have "(pd, unat (PDX va), unat (PTX va)) \<in> mappers s A f" using sl a by (simp add: mappers_def)
  from vm_mapped_ref [OF assms(1) this] show "pp_ref (pages s f) \<noteq> 0" .
  with vm_free [OF assms(1)] show "f \<notin> set xs"
    by (auto simp: free_pages_ok_def)
  show "frame_of (pte s pd (unat (PDX va)) (unat (PTX va))) = f"
    "PGOFF (pte s pd (unat (PDX va)) (unat (PTX va))) = fl" by (fact a)+
qed

lemma page_lookup_mapped:
  assumes "vm_ok s xs A" "pd \<in> A" "va < UTOP" "uspace s pd (vpn va) = Some (f, fl)"
  shows "page_lookup pd va s = Ret (Some (f, tbl s pd (unat (PDX va)), unat (PTX va))) s"
  using page_lookup_slot [OF assms(1) vpn_slot(1) [OF assms]] vpn_slot(3,5) [OF assms] by simp

lemma page_remove_mapped:
  assumes "vm_ok s xs A" "pd \<in> A" "va < UTOP" "uspace s pd (vpn va) = Some (f, fl)"
  defines "t \<equiv> tlb_invalidate pd va (dropped f (wr_word (tbl s pd (unat (PDX va))) (unat (PTX va)) 0 s))"
  shows "page_remove pd va s = Ret () t" "vm_ok t (dropped_list f s xs) A"
    "slots t A = slots s A" "structural t A = structural s A"
    "q \<in> A \<Longrightarrow> tbl t q = tbl s q" "pte t pd (unat (PDX va)) (unat (PTX va)) = 0"
    "q \<in> A \<Longrightarrow> uspace t q = (if q = pd then (uspace s q)(vpn va := None) else uspace s q)"
    "pp_ref (pages t g) = (if g = f then pp_ref (pages s f) - 1 else pp_ref (pages s g))"
    "npages t = npages s"
proof -
  note v = vpn_slot [OF assms(1-4)]
  note u = vm_unmap [OF assms(1) v(1) PTX_NPT v(2), unfolded v(3)]
  note c = vm_kmem_cong [OF tlb_invalidate_simps(1), of pd va]
  show "page_remove pd va s = Ret () t"
    by (simp add: page_remove_def page_lookup_mapped [OF assms(1-4)] u(1) Let_def t_def)
  show "vm_ok t (dropped_list f s xs) A" using u(2) by (simp add: t_def)
  show "slots t A = slots s A" "structural t A = structural s A"
    using u(3,4) by (simp_all add: t_def c)
  show "tbl t q = tbl s q" if "q \<in> A" using u(5) [OF that] by (simp add: t_def c)
  show "pte t pd (unat (PDX va)) (unat (PTX va)) = 0" using u(6) by (simp add: t_def c)
  show "uspace t q = (if q = pd then (uspace s q)(vpn va := None) else uspace s q)" if "q \<in> A"
    using u(9) [OF that] by (simp add: t_def vpn_def)
  show "pp_ref (pages t g) = (if g = f then pp_ref (pages s f) - 1 else pp_ref (pages s g))"
    "npages t = npages s" by (simp_all add: t_def)
qed

lemma vpn_unmapped:
  assumes "vm_ok s xs A" "pd \<in> A" "va < UTOP" "uspace s pd (vpn va) = None"
    "has_tbl s pd (unat (PDX va))"
  shows "(pd, unat (PDX va)) \<in> slots s A" "pte s pd (unat (PDX va)) (unat (PTX va)) = 0"
proof -
  show sl: "(pd, unat (PDX va)) \<in> slots s A" using slot_va [OF assms(2,3)] assms(5) by blast
  have "amap s pd (unat (PDX va), unat (PTX va)) = None"
    using assms(4) uspace_vpn [OF assms(3), of s pd] by (simp add: vpn_def)
  then have "pte s pd (unat (PDX va)) (unat (PTX va)) AND PTE_P = 0"
    using assms(5) by (auto simp: amap_def split: if_splits)
  then show "pte s pd (unat (PDX va)) (unat (PTX va)) = 0"
    using vm_pte [OF assms(1) sl PTX_NPT] by blast
qed

section \<open>New and empty address spaces\<close>

lemma PDX_user: "unat (PDX va) < NUSER \<longleftrightarrow> va < UTOP"
proof -
  have "unat va div 2 ^ 22 < 955 \<longleftrightarrow> unat va < 955 * 2 ^ 22" by (simp add: less_mult_imp_div_less div_less_iff_less_mult)
  then show ?thesis by (simp add: NUSER_eq unat_PDX word_less_nat_alt layout_values)
qed

lemma vpn_PGADDR:
  assumes "i < NUSER" "j < NPTENTRIES"
  shows "vpn (PGADDR (of_nat i) (of_nat j) 0) = (i, j)" "PGADDR (of_nat i) (of_nat j) 0 < UTOP"
proof -
  have l: "i < 1024" "j < 1024" using assms by (simp_all add: NUSER_eq NPTENTRIES_def)
  then have u: "unat (of_nat i :: u32) = i" "unat (of_nat j :: u32) = j"
    by (simp_all add: unat_of_nat take_bit_eq_mod)
  with l have "(of_nat i :: u32) < 1024" "(of_nat j :: u32) < 1024"
    by (simp_all add: word_less_nat_alt)
  from PGADDR_parts [OF this, of 0] u show "vpn (PGADDR (of_nat i) (of_nat j) 0) = (i, j)"
    by (simp add: vpn_def)
  then have "unat (PDX (PGADDR (of_nat i) (of_nat j) 0)) < NUSER" using assms(1) by (simp add: vpn_def)
  then show "PGADDR (of_nat i) (of_nat j) 0 < UTOP" by (simp only: PDX_user)
qed

text \<open>Frames of \<open>A\<close> and their tables keep their contents.\<close>

lemma vm_view_cong:
  assumes "\<forall>q\<in>A. kmem t q = kmem s q"
    and "\<forall>q k. (q, k) \<in> slots s A \<longrightarrow> kmem t (tbl s q k) = kmem s (tbl s q k)"
  shows "slots t A = slots s A" "(q, k) \<in> slots s A \<Longrightarrow> pte t q k l = pte s q k l"
    "q \<in> A \<Longrightarrow> tbl t q k = tbl s q k" "q \<in> A \<Longrightarrow> has_tbl t q k = has_tbl s q k"
    "mappers t A f = mappers s A f" "structural t A = structural s A"
    "q \<in> A \<Longrightarrow> uspace t q = uspace s q"
proof -
  have h: "has_tbl t q = has_tbl s q" "tbl t q = tbl s q" if "q \<in> A" for q
    using tbl_cong assms(1) that by metis+
  then show "q \<in> A \<Longrightarrow> tbl t q k = tbl s q k" "q \<in> A \<Longrightarrow> has_tbl t q k = has_tbl s q k" by simp_all
  show sl: "slots t A = slots s A" using h(1) by (auto simp: slots_def)
  show p: "pte t q k l = pte s q k l" if "(q, k) \<in> slots s A" for q k l
    using assms(2) h(2) that by (simp add: pte_def slots_def)
  show "mappers t A f = mappers s A f" using p by (auto simp: mappers_def sl)
  have "(\<lambda>(q, k). tbl t q k) ` slots s A = (\<lambda>(q, k). tbl s q k) ` slots s A"
    by (rule image_cong) (auto simp: h slots_def)
  then show "structural t A = structural s A" by (simp add: structural_def sl)
  show "uspace t q = uspace s q" if q: "q \<in> A"
  proof (rule uspace_eqI)
    fix k l assume kl: "k < NUSER" "l < NPTENTRIES"
    show "amap t q (k, l) = uspace s q (k, l)"
    proof (cases "has_tbl s q k")
      case True
      with q kl have "(q, k) \<in> slots s A" by (simp add: slots_def)
      with p h(1) [OF q] show ?thesis by (simp add: uspace_in kl amap_def)
    next
      case False
      with h(1) [OF q] show ?thesis by (simp add: uspace_in kl amap_def)
    qed
  qed (rule uspace_out)
qed

text \<open>A fresh frame that is empty below \<open>UTOP\<close> becomes a page directory.\<close>

lemma vm_ok_new_pd:
  assumes ok: "vm_ok s (p # ps) A" and k: "\<And>q. q \<noteq> p \<Longrightarrow> kmem t q = kmem s q"
    and z: "\<And>i. i < NUSER \<Longrightarrow> kmem t p i = 0" and n: "npages t = npages s"
    and fr: "free_pages_ok t ps" and pg: "\<And>q. q \<noteq> p \<Longrightarrow> pages t q = pages s q"
    and pp: "pp_ref (pages t p) \<noteq> 0"
  shows "vm_ok t ps (insert p A)" "uspace t p = Map.empty" "q \<in> A \<Longrightarrow> uspace t q = uspace s q"
proof -
  note pf = vm_free_frame [OF ok, of p, simplified]
  have kA: "\<forall>q\<in>A. kmem t q = kmem s q" using k pf by metis
  have kt: "\<forall>q i. (q, i) \<in> slots s A \<longrightarrow> kmem t (tbl s q i) = kmem s (tbl s q i)"
    using k structuralI(2) pf by metis
  note v = vm_view_cong [OF kA kt]
  show "q \<in> A \<Longrightarrow> uspace t q = uspace s q" by (rule v(7))
  have np: "\<not> has_tbl t p i" if "i < NUSER" for i using z [OF that] by (simp add: has_tbl_def)
  show "uspace t p = Map.empty"
    by (rule uspace_eqI) (simp_all add: amap_def np)
  have sl: "slots t (insert p A) = slots s A" using np v(4) by (auto simp: slots_def)
  have tb: "tbl t q i = tbl s q i" if "(q, i) \<in> slots s A" for q i
    using v(3) that by (simp add: slots_def)
  have "(\<lambda>(q, k). tbl t q k) ` slots s A = (\<lambda>(q, k). tbl s q k) ` slots s A"
    by (rule image_cong) (auto simp: tb)
  then have st: "structural t (insert p A) = insert p (structural s A)"
    by (simp add: structural_def sl)
  have mp: "mappers t (insert p A) f = mappers s A f" for f
    using v(2) by (auto simp: mappers_def sl)
  show "vm_ok t ps (insert p A)"
    unfolding vm_ok_def
  proof (intro conjI)
    show "free_pages_ok t ps" by (rule fr)
    show "finite (insert p A)" using vm_finite [OF ok] by simp
    show "\<forall>f\<in>structural t (insert p A). f < npages t \<and> pp_ref (pages t f) \<noteq> 0"
    proof
      fix f assume f: "f \<in> structural t (insert p A)"
      have "p < npages s" using vm_free [OF ok] by (simp add: free_pages_ok_def)
      with f vm_struct [OF ok, of f] pg [of f] pp show "f < npages t \<and> pp_ref (pages t f) \<noteq> 0"
        by (cases "f = p") (auto simp: st n)
    qed
    show "\<forall>q\<in>insert p A. \<forall>i<NUSER. kmem t q i = 0 \<or> has_tbl t q i"
      using z vm_empty [OF ok] v(4) kA by (metis insert_iff)
    show "\<forall>(q, i)\<in>slots t (insert p A). tbl t q i \<notin> insert p A"
    proof (clarify, unfold sl)
      fix q i assume a: "(q, i) \<in> slots s A" and b: "tbl t q i \<in> insert p A"
      from b tb [OF a] vm_tbl_notin [OF ok a] have "tbl s q i = p" by simp
      with structuralI(2) [OF a] pf show False by simp
    qed
    have "inj_on (\<lambda>(q, k). tbl t q k) (slots s A) = inj_on (\<lambda>(q, k). tbl s q k) (slots s A)"
      by (rule inj_on_cong) (auto simp: tb)
    then show "inj_on (\<lambda>(q, k). tbl t q k) (slots t (insert p A))"
      using vm_inj [OF ok] by (simp add: sl)
    show "\<forall>(q, i)\<in>slots t (insert p A). \<forall>j<NPTENTRIES. pte t q i j = 0 \<or>
        pte t q i j AND PTE_P \<noteq> 0 \<and> frame_of (pte t q i j) < npages t \<and>
        frame_of (pte t q i j) \<notin> structural t (insert p A)"
    proof (clarify, unfold sl)
      fix q i j
      assume a: "(q, i) \<in> slots s A" and j: "j < NPTENTRIES"
        and nz: "\<not> (pte t q i j AND PTE_P \<noteq> 0 \<and> frame_of (pte t q i j) < npages t \<and>
          frame_of (pte t q i j) \<notin> structural t (insert p A))"
      have "frame_of (pte s q i j) \<noteq> p" if "pte s q i j AND PTE_P \<noteq> 0"
      proof
        assume "frame_of (pte s q i j) = p"
        with a j that have "(q, i, j) \<in> mappers s A p" by (simp add: mappers_def)
        with pf show False by simp
      qed
      with nz vm_pte [OF ok a j] v(2) [OF a] show "pte t q i j = 0" by (auto simp: st n)
    qed
    show "\<forall>f. card (mappers t (insert p A) f) \<le> unat (pp_ref (pages t f))"
    proof
      fix f show "card (mappers t (insert p A) f) \<le> unat (pp_ref (pages t f))"
        using vm_count [OF ok, of f] pg [of f] pf by (cases "f = p") (simp_all add: mp)
    qed
  qed
qed

text \<open>A page table no page is mapped through may go.\<close>

lemma vm_ok_drop_tbl:
  assumes ok: "vm_ok s xs A" and sl: "(pd, i) \<in> slots s A"
    and e: "\<And>j. j < NPTENTRIES \<Longrightarrow> uspace s pd (i, j) = None"
  defines "t \<equiv> wr_word pd i 0 s" and "f \<equiv> tbl s pd i"
  shows "page_decref f t = Ret () (dropped f t)" "vm_ok (dropped f t) (dropped_list f s xs) A"
    "slots (dropped f t) A = slots s A - {(pd, i)}"
    "q \<in> A \<Longrightarrow> uspace (dropped f t) q = uspace s q"
    "structural (dropped f t) A = structural s A - {f}"
proof -
  from sl have pd: "pd \<in> A" and i: "i < NUSER" and h: "has_tbl s pd i" by (auto simp: slots_def)
  have ht: "has_tbl t q k \<longleftrightarrow> has_tbl s q k \<and> (q, k) \<noteq> (pd, i)" for q k
    by (auto simp: has_tbl_def t_def)
  have slt: "slots t A = slots s A - {(pd, i)}" using ht by (auto simp: slots_def)
  have tb: "tbl t q k = tbl s q k" if "(q, k) \<noteq> (pd, i)" for q k
    using that by (auto simp: tbl_def t_def)
  have pt: "pte t q k l = pte s q k l" if "(q, k) \<in> slots s A" "(q, k) \<noteq> (pd, i)" for q k l
  proof -
    have "tbl s q k \<noteq> pd" using vm_tbl_notin [OF ok that(1)] pd by auto
    then show ?thesis by (auto simp: pte_def tb [OF that(2)]) (simp add: t_def)
  qed
  have z: "pte s pd i j = 0" if "j < NPTENTRIES" for j
    using e [OF that] vm_pte [OF ok sl that] h by (auto simp: uspace_in i that amap_def split: if_splits)
  have mp: "mappers t A g = mappers s A g" for g
  proof -
    have "(q, k, l) \<in> mappers t A g \<longleftrightarrow> (q, k, l) \<in> mappers s A g" for q k l
      using pt [of q k l] z [of l] by (cases "(q, k) = (pd, i)") (auto simp: mappers_def slt)
    then show ?thesis by auto
  qed
  have fs: "f \<in> structural s A" using structuralI(2) [OF sl] by (simp add: f_def)
  have st: "structural t A = structural s A - {f}"
  proof -
    have "(\<lambda>(q, k). tbl t q k) ` slots t A = (\<lambda>(q, k). tbl s q k) ` (slots s A - {(pd, i)})"
      unfolding slt
    proof (rule image_cong)
      fix x assume "x \<in> slots s A - {(pd, i)}"
      then have "(fst x, snd x) \<noteq> (pd, i)" by auto
      from tb [OF this] show "(case x of (q, k) \<Rightarrow> tbl t q k) = (case x of (q, k) \<Rightarrow> tbl s q k)"
        by (simp add: case_prod_beta)
    qed simp
    also have "\<dots> = (\<lambda>(q, k). tbl s q k) ` slots s A - {f}"
      using inj_on_image_set_diff [OF vm_inj [OF ok], of "slots s A" "{(pd, i)}"] sl
      by (simp add: f_def)
    finally show ?thesis using vm_tbl_notin [OF ok sl] by (auto simp: structural_def f_def)
  qed
  have np: "npages t = npages s" "pages t = pages s" by (simp_all add: t_def)
  have okt: "vm_ok t xs A"
    unfolding vm_ok_def
  proof (intro conjI)
    show "free_pages_ok t xs" using vm_free [OF ok] by (subst free_pages_ok_cong) (auto simp: t_def)
    show "finite A" by (rule vm_finite [OF ok])
    show "\<forall>g\<in>structural t A. g < npages t \<and> pp_ref (pages t g) \<noteq> 0"
      using vm_struct [OF ok] by (simp add: st np)
    show "\<forall>q\<in>A. \<forall>k<NUSER. kmem t q k = 0 \<or> has_tbl t q k"
      using vm_empty [OF ok] ht by (auto simp: t_def)
    have tbs: "tbl t q k = tbl s q k \<and> (q, k) \<in> slots s A" if "(q, k) \<in> slots t A" for q k
      using that tb [of q k] by (simp add: slt)
    show "\<forall>(q, k)\<in>slots t A. tbl t q k \<notin> A"
      using vm_tbl_notin [OF ok] tbs by auto
    have "inj_on (\<lambda>(q, k). tbl t q k) (slots t A) = inj_on (\<lambda>(q, k). tbl s q k) (slots t A)"
      by (rule inj_on_cong) (use tbs in auto)
    then show "inj_on (\<lambda>(q, k). tbl t q k) (slots t A)"
      using inj_on_subset [OF vm_inj [OF ok]] by (simp add: slt)
    show "\<forall>(q, k)\<in>slots t A. \<forall>l<NPTENTRIES. pte t q k l = 0 \<or> pte t q k l AND PTE_P \<noteq> 0 \<and>
        frame_of (pte t q k l) < npages t \<and> frame_of (pte t q k l) \<notin> structural t A"
      using vm_pte [OF ok] pt by (auto simp: slt st np)
    show "\<forall>g. card (mappers t A g) \<le> unat (pp_ref (pages t g))"
      using vm_count [OF ok] by (simp add: mp np)
  qed
  have m0: "mappers t A f = {}"
  proof -
    have "mappers s A f = {}" using vm_mapped_struct [OF ok] fs by fastforce
    then show ?thesis unfolding mp .
  qed
  have "f < npages s" "pp_ref (pages s f) \<noteq> 0" using vm_struct [OF ok fs] by auto
  then have d: "page_decref f t = Ret () (dropped f t) \<and> vm_ok (dropped f t) (dropped_list f t xs) A"
    by (intro vm_ok_dropped [OF okt]) (simp_all add: m0 np st word_neq_0_conv unat_gt_0)
  then show "page_decref f t = Ret () (dropped f t)" "vm_ok (dropped f t) (dropped_list f s xs) A"
    by (simp_all add: dropped_list_def np)
  have k: "kmem (dropped f t) = kmem t" by simp
  show "slots (dropped f t) A = slots s A - {(pd, i)}" by (simp add: vm_kmem_cong [OF k] slt)
  show "structural (dropped f t) A = structural s A - {f}" by (simp add: vm_kmem_cong [OF k] st)
  show "uspace (dropped f t) q = uspace s q" if q: "q \<in> A"
    unfolding uspace_kmem_cong [OF k]
  proof (rule uspace_eqI)
    fix k l assume kl: "k < NUSER" "l < NPTENTRIES"
    show "amap t q (k, l) = uspace s q (k, l)"
    proof (cases "(q, k) = (pd, i)")
      case True
      then show ?thesis using e [OF kl(2)] ht by (auto simp: amap_def)
    next
      case False
      then show ?thesis using ht [of q k] pt [of q k l] q kl by (auto simp: uspace_in amap_def slots_def)
    qed
  qed (rule uspace_out)
qed

text \<open>A page directory without page tables may go, too.\<close>

lemma vm_ok_drop_pd:
  assumes ok: "vm_ok s xs A" and pd: "pd \<in> A" and e: "\<And>i. i < NUSER \<Longrightarrow> (pd, i) \<notin> slots s A"
  shows "page_decref pd s = Ret () (dropped pd s)"
    "vm_ok (dropped pd s) (dropped_list pd s xs) (A - {pd})"
    "uspace (dropped pd s) = uspace s"
proof -
  have sl: "slots s (A - {pd}) = slots s A" using e by (auto simp: slots_def)
  have mp: "mappers s (A - {pd}) f = mappers s A f" for f by (auto simp: mappers_def sl)
  have st: "structural s (A - {pd}) = structural s A - {pd}"
    using vm_tbl_notin [OF ok] pd by (auto simp: structural_def sl)
  have ok1: "vm_ok s xs (A - {pd})"
    using ok by (auto simp: vm_ok_def sl mp st)
  have ps: "pd \<in> structural s A" using pd by (rule structuralI(1))
  have "mappers s A pd = {}" using vm_mapped_struct [OF ok] ps by fastforce
  moreover have "pd < npages s" "pp_ref (pages s pd) \<noteq> 0" using vm_struct [OF ok ps] by auto
  ultimately have d: "page_decref pd s = Ret () (dropped pd s) \<and>
      vm_ok (dropped pd s) (dropped_list pd s xs) (A - {pd})"
    by (intro vm_ok_dropped [OF ok1]) (simp_all add: mp st word_neq_0_conv unat_gt_0)
  then show "page_decref pd s = Ret () (dropped pd s)"
    "vm_ok (dropped pd s) (dropped_list pd s xs) (A - {pd})" by simp_all
  show "uspace (dropped pd s) = uspace s" by (rule uspace_kmem_cong) simp
qed

section \<open>Refinement\<close>

text \<open>The frames a caller may map: allocated, not a page table, with room in the count.\<close>

definition mappable :: "kstate \<Rightarrow> nat list \<Rightarrow> nat set \<Rightarrow> nat \<Rightarrow> bool" where
  "mappable s xs A pp \<longleftrightarrow> 0 < pp \<and> pp < npages s \<and> pp \<notin> structural s A \<and> pp \<notin> set xs \<and>
     unat (pp_ref (pages s pp)) + 1 < 2 ^ 16"

lemma page_insert_slot:
  assumes ok: "vm_ok s xs A" and pd: "pd \<in> A" and va: "va < UTOP"
    and h: "has_tbl s pd (unat (PDX va))" and pp: "mappable s xs A pp" and perm: "PTE_ADDR perm = 0"
  shows "\<exists>t ys. page_insert pd pp va perm s = Ret 0 t \<and> vm_ok t ys A \<and>
    (\<forall>q\<in>A. uspace t q =
       (if q = pd then (uspace s q)(vpn va \<mapsto> (pp, perm OR PTE_P)) else uspace s q)) \<and>
    pp_ref (pages t pp) = (if \<exists>fl. uspace s pd (vpn va) = Some (pp, fl) then pp_ref (pages s pp)
      else pp_ref (pages s pp) + 1) \<and> structural t A = structural s A \<and>
    (\<forall>g. g \<noteq> pp \<longrightarrow> (\<forall>fl. uspace s pd (vpn va) \<noteq> Some (g, fl)) \<longrightarrow> pages t g = pages s g)"
proof -
  let ?i = "unat (PDX va)" and ?j = "unat (PTX va)" and ?v = "pte_for pp perm"
  have sl: "(pd, ?i) \<in> slots s A" using slot_va [OF pd va] h by blast
  from vm_free [OF ok] have np: "npages s \<le> 2 ^ 20" by (rule free_pages_ok_npages)
  from pp np have p: "0 < pp" "pp < npages s" "pp \<notin> structural s A" "pp \<notin> set xs" "pp < 2 ^ 20"
    "unat (pp_ref (pages s pp)) + 1 < 2 ^ 16" by (simp_all add: mappable_def)
  note v = pte_for [OF p(5) perm]
  have eq: "PTE_ADDR e = page2pa pp \<longleftrightarrow> frame_of e = pp" for e
  proof -
    have "PTE_ADDR e = page2pa pp \<longleftrightarrow> PGNUM e = PGNUM (page2pa pp)"
      using PTE_ADDR_eq_PGNUM [of e "page2pa pp"] by simp
    also have "\<dots> \<longleftrightarrow> frame_of e = pp"
      using PGNUM_page2pa [OF p(5)] by (simp add: frame_of_def word_unat_eq_iff)
    finally show ?thesis .
  qed
  note w = walk_hit [OF ok sl, of True]
  show ?thesis
  proof (cases "uspace s pd (vpn va)")
    case None
    note e = vpn_unmapped [OF ok pd va None h]
    let ?t = "incref pp (wr_word (tbl s pd ?i) ?j ?v s)"
    have "frame_of (0::u32) = 0" by (simp add: frame_of_def PGNUM_def)
    then have "page_insert pd pp va perm s = Ret 0 ?t"
      using e(2) w eq [of 0] p(1) by (simp add: page_insert_def pte_def pte_for_def incref_def Let_def)
    moreover note vm_map_empty [OF ok sl PTX_NPT e(2) p(2,3,4,6) v(3,1)]
    ultimately show ?thesis using None v(2) by (intro exI [of _ ?t] exI [of _ xs]) (auto simp: vpn_def)
  next
    case (Some m)
    obtain f fl where m: "uspace s pd (vpn va) = Some (f, fl)" using Some by (cases m) auto
    note e = vpn_slot [OF ok pd va m]
    show ?thesis
    proof (cases "f = pp")
      case True
      let ?t = "wr_word (tbl s pd ?i) ?j ?v s"
      from e(3) True eq have "PTE_ADDR (pte s pd ?i ?j) = page2pa pp" by simp
      then have r: "page_insert pd pp va perm s = Ret 0 ?t"
        using w by (simp add: page_insert_def pte_def pte_for_def Let_def)
      have "(pd, ?i, ?j) \<in> mappers s A pp"
        using sl e(2,3) True vm_pte [OF ok sl PTX_NPT e(2)] by (simp add: mappers_def)
      then have "card (mappers ?t A g) \<le> unat (pp_ref (pages s g))" for g
        using vm_count [OF ok, of g] card_Diff1_le [of "mappers s A g" "(pd, ?i, ?j)"] v
        by (auto simp: wr_pte_mappers [OF ok sl PTX_NPT] insert_absorb)
      then have "vm_ok ?t xs A" using v p by (intro vm_ok_wr_pte [OF ok sl PTX_NPT]) auto
      then show ?thesis
        using r m True wr_pte_uspace [OF ok sl PTX_NPT [of va], where v = ?v] v wr_pte_structural [OF ok sl]
        by (intro exI [of _ ?t] exI [of _ xs]) (auto simp: vpn_def)
    next
      case False
      note rm = page_remove_mapped [OF ok pd va m]
      define u where "u = tlb_invalidate pd va (dropped f (wr_word (tbl s pd ?i) ?j 0 s))"
      note rm = rm [folded u_def]
      let ?t = "incref pp (wr_word (tbl s pd ?i) ?j ?v u)" and ?xs = "dropped_list f s xs"
      have tb: "tbl u pd ?i = tbl s pd ?i" using rm(5) [OF pd] by simp
      have "PTE_ADDR (pte s pd ?i ?j) \<noteq> page2pa pp" using e(3) eq False by simp
      moreover have "pte s pd ?i ?j AND PTE_P \<noteq> 0" using vm_pte [OF ok sl PTX_NPT e(2)] by simp
      ultimately have r: "page_insert pd pp va perm s = Ret 0 ?t"
        using w rm(1) by (simp add: page_insert_def pte_def pte_for_def incref_def Let_def)
      have slu: "(pd, ?i) \<in> slots u A" using sl rm(3) by simp
      have pu: "pp < npages u" "pp \<notin> structural u A" "pp \<notin> set ?xs"
        "unat (pp_ref (pages u pp)) + 1 < 2 ^ 16"
        using p False by (simp_all add: rm(4,8,9) dropped_list_def)
      note me = vm_map_empty [OF rm(2) slu PTX_NPT rm(6) pu v(3,1), unfolded tb]
      have "pp_ref (pages ?t pp) = pp_ref (pages s pp) + 1" using False by (simp add: rm(8))
      moreover have "uspace ?t q =
          (if q = pd then (uspace s q)(vpn va \<mapsto> (pp, perm OR PTE_P)) else uspace s q)" if "q \<in> A" for q
        using me(3) [OF that] rm(7) [OF that] v(2) by (auto simp: vpn_def)
      moreover have "pages ?t g = pages s g" if "g \<noteq> pp" "g \<noteq> f" for g
        using that by (simp add: u_def)
      ultimately show ?thesis using r me(1,2) m False rm(4)
        by (intro exI [of _ ?t] exI [of _ ?xs]) auto
    qed
  qed
qed

lemma page_insert_full:
  assumes "vm_ok s xs A" "pd \<in> A" "va < UTOP" "mappable s xs A pp" "PTE_ADDR perm = 0"
  shows "page_insert pd pp va perm s = Ret (- E_NO_MEM) s \<and> xs = [] \<and>
      \<not> has_tbl s pd (unat (PDX va)) \<or>
    (\<exists>t ys. page_insert pd pp va perm s = Ret 0 t \<and> vm_ok t ys A \<and>
      (\<forall>q\<in>A. uspace t q =
         (if q = pd then (uspace s q)(vpn va \<mapsto> (pp, perm OR PTE_P)) else uspace s q)) \<and>
      pp_ref (pages t pp) = (if \<exists>fl. uspace s pd (vpn va) = Some (pp, fl) then pp_ref (pages s pp)
        else pp_ref (pages s pp) + 1) \<and> structural t A \<subseteq> structural s A \<union> set xs \<and>
      (\<forall>g. g \<noteq> pp \<longrightarrow> g \<notin> set xs \<longrightarrow> (\<forall>fl. uspace s pd (vpn va) \<noteq> Some (g, fl)) \<longrightarrow> pages t g = pages s g))"
proof (cases "has_tbl s pd (unat (PDX va))")
  case True
  from page_insert_slot [OF assms(1-3) this assms(4,5)] show ?thesis by blast
next
  case nt: False
  note w = walk_new [OF assms(1-3) nt]
  show ?thesis
  proof (cases xs)
    case Nil
    with w nt show ?thesis by (simp add: page_insert_def)
  next
    case (Cons p ps)
    with assms(1) have ok: "vm_ok s (p # ps) A" by simp
    let ?s = "with_tbl p pd (unat (PDX va)) s"
    note n = vm_ok_new_tbl [OF ok assms(2) user_PDX [OF assms(3)] nt]
    have us: "uspace ?s q = uspace s q" if "q \<in> A" for q
      by (rule uspace_eqI) (simp_all add: n(5) that uspace_in uspace_out)
    have h: "has_tbl ?s pd (unat (PDX va))" using n(2) by (auto simp: slots_def)
    from assms(4) Cons have pne: "pp \<noteq> p" by (auto simp: mappable_def)
    with assms(4) Cons have m: "mappable ?s ps A pp"
      by (simp add: mappable_def n(4) with_tbl_pages(1))
    have walk_again: "pgdir_walk pd va True ?s = Ret (Some (p, unat (PTX va))) ?s"
    proof -
      have sl: "(pd, unat (PDX va)) \<in> slots ?s A" using n(2) by simp
      have "tbl ?s pd (unat (PDX va)) = p" using new_tbl_view(2) [OF ok assms(2,2)] by simp
      with walk_hit [OF n(1) sl, of True] show ?thesis by simp
    qed
    with w Cons have e: "page_insert pd pp va perm s = page_insert pd pp va perm ?s"
      by (simp add: page_insert_def)
    have pg: "pages ?s pp = pages s pp" by (rule with_tbl_pages(1) [OF pne])
    obtain t ys where t: "page_insert pd pp va perm ?s = Ret 0 t" "vm_ok t ys A"
      "\<And>q. q \<in> A \<Longrightarrow> uspace t q =
         (if q = pd then (uspace ?s q)(vpn va \<mapsto> (pp, perm OR PTE_P)) else uspace ?s q)"
      "pp_ref (pages t pp) = (if \<exists>fl. uspace ?s pd (vpn va) = Some (pp, fl)
         then pp_ref (pages ?s pp) else pp_ref (pages ?s pp) + 1)"
      "structural t A = structural ?s A"
      "\<And>g. g \<noteq> pp \<Longrightarrow> (\<forall>fl. uspace ?s pd (vpn va) \<noteq> Some (g, fl)) \<Longrightarrow> pages t g = pages ?s g"
      using page_insert_slot [OF n(1) assms(2,3) h m assms(5)] by blast
    have "\<forall>q\<in>A. uspace t q =
        (if q = pd then (uspace s q)(vpn va \<mapsto> (pp, perm OR PTE_P)) else uspace s q)"
      using t(3) us by simp
    moreover have "pp_ref (pages t pp) = (if \<exists>fl. uspace s pd (vpn va) = Some (pp, fl)
         then pp_ref (pages s pp) else pp_ref (pages s pp) + 1)"
      unfolding t(4) us [OF assms(2)] pg ..
    moreover have "structural t A \<subseteq> structural s A \<union> set xs" using t(5) n(4) Cons by auto
    moreover have "\<forall>g. g \<noteq> pp \<longrightarrow> g \<notin> set xs \<longrightarrow> (\<forall>fl. uspace s pd (vpn va) \<noteq> Some (g, fl)) \<longrightarrow> pages t g = pages s g"
      using t(6) Cons unfolding us [OF assms(2)] by (auto simp: with_tbl_pages(1))
    ultimately show ?thesis using t(1,2) unfolding e by blast
  qed
qed

lemma page_insert_ok:
  assumes "vm_ok s xs A" "pd \<in> A" "va < UTOP" "mappable s xs A pp" "PTE_ADDR perm = 0"
  shows "page_insert pd pp va perm s = Ret (- E_NO_MEM) s \<and> xs = [] \<and>
      \<not> has_tbl s pd (unat (PDX va)) \<or>
    (\<exists>t ys. page_insert pd pp va perm s = Ret 0 t \<and> vm_ok t ys A \<and>
      (\<forall>q\<in>A. uspace t q =
         (if q = pd then (uspace s q)(vpn va \<mapsto> (pp, perm OR PTE_P)) else uspace s q)) \<and>
      pp_ref (pages t pp) = (if \<exists>fl. uspace s pd (vpn va) = Some (pp, fl) then pp_ref (pages s pp)
        else pp_ref (pages s pp) + 1))"
  using page_insert_full [OF assms] by blast

text \<open>Which of the two happens is decided by the free list and the page table.\<close>

lemma page_insert_no_mem:
  assumes "vm_ok s [] A" "pd \<in> A" "va < UTOP" "\<not> has_tbl s pd (unat (PDX va))"
  shows "page_insert pd pp va perm s = Ret (- E_NO_MEM) s"
  using walk_new [OF assms] by (simp add: page_insert_def)

lemma page_insert_success:
  assumes "vm_ok s xs A" "pd \<in> A" "va < UTOP" "mappable s xs A pp" "PTE_ADDR perm = 0"
    "has_tbl s pd (unat (PDX va)) \<or> xs \<noteq> []"
  shows "\<exists>t ys. page_insert pd pp va perm s = Ret 0 t \<and> vm_ok t ys A \<and>
      (\<forall>q\<in>A. uspace t q =
         (if q = pd then (uspace s q)(vpn va \<mapsto> (pp, perm OR PTE_P)) else uspace s q)) \<and>
      pp_ref (pages t pp) = (if \<exists>fl. uspace s pd (vpn va) = Some (pp, fl) then pp_ref (pages s pp)
        else pp_ref (pages s pp) + 1)"
  using page_insert_ok [OF assms(1-5)] assms(6) by blast

text \<open>A frame that is neither part of the page tables nor mapped by any user page.\<close>

definition reserved :: "kstate \<Rightarrow> nat set \<Rightarrow> nat \<Rightarrow> bool" where
  "reserved s A g \<longleftrightarrow> g \<notin> structural s A \<and> (\<forall>q\<in>A. \<forall>v fl. uspace s q v \<noteq> Some (g, fl))"

lemma reservedD:
  assumes "reserved s A g"
  shows "g \<notin> structural s A" "q \<in> A \<Longrightarrow> uspace s q v \<noteq> Some (g, fl)"
  using assms unfolding reserved_def by blast+

lemma reserved_mono:
  assumes "reserved s A g" "structural t B \<subseteq> structural s A" "B \<subseteq> A" "\<And>q. q \<in> B \<Longrightarrow> uspace t q \<subseteq>\<^sub>m uspace s q"
  shows "reserved t B g"
proof -
  have "uspace t q v \<noteq> Some (g, fl)" if "q \<in> B" for q v fl
    using assms(1,3) assms(4) [OF that] that unfolding reserved_def map_le_def by (metis domI subsetD)
  with assms(1,2) show ?thesis by (auto simp: reserved_def)
qed

text \<open>A page insertion writes page tables only.\<close>

lemma page_decref_kmem: "page_decref p s = Ret u t \<Longrightarrow> kmem t = kmem s"
  by (auto simp: page_decref_def page_free_def upd_page_def Let_def split: if_splits)

lemma page_remove_kmem:
  assumes w: "pgdir_walk pd va False s = Ret (Some (T, j)) s"
    and r: "page_remove pd va s = Ret () t" and g: "g \<noteq> T"
  shows "kmem t g = kmem s g"
proof (cases "pa2page (PTE_ADDR (kmem s T j)) s")
  case (Ret pp s')
  then have "s' = s" by (simp add: pa2page_def split: if_splits)
  with w r Ret obtain u where u: "page_decref pp (wr_word T j 0 s) = Ret () u"
    and t: "t = tlb_invalidate pd va u"
    by (auto simp: page_remove_def page_lookup_def bindO_eq_Ret Let_def)
  from page_decref_kmem [OF u] t g show ?thesis by (simp add: wr_word_def tlb_invalidate_def)
qed (use w r in \<open>simp_all add: page_remove_def page_lookup_def\<close>)

lemma page_insert_kmem:
  assumes w: "\<And>c. pgdir_walk pd va c s = Ret (Some (T, j)) s"
    and r: "page_insert pd pp va perm s = Ret r t" and g: "g \<noteq> T"
  shows "kmem t g = kmem s g"
proof (cases "PTE_ADDR (kmem s T j) = page2pa pp")
  case True
  with r w g show ?thesis by (auto simp: page_insert_def Let_def wr_word_def)
next
  case False
  with r w obtain u where
    u: "(if kmem s T j AND PTE_P \<noteq> 0 then page_remove pd va s else Ret () s) = Ret () u"
    and t: "kmem t g = kmem u g"
    using g by (auto simp: page_insert_def Let_def bindO_eq_Ret) (auto simp: wr_word_def)
  have "kmem u g = kmem s g"
    using u page_remove_kmem [OF w, of u g] g by (simp split: if_splits)
  with t show ?thesis by simp
qed

lemma page_insert_keeps:
  assumes ok: "vm_ok s xs A" and pd: "pd \<in> A" and va: "va < UTOP"
    and r: "page_insert pd pp va perm s = Ret 0 t" and g: "g \<notin> structural s A" "g \<notin> set xs"
  shows "kmem t g = kmem s g"
proof (cases "has_tbl s pd (unat (PDX va))")
  case True
  with pd va have sl: "(pd, unat (PDX va)) \<in> slots s A" by (simp add: slots_def user_PDX)
  from walk_hit [OF ok sl] r structuralI(2) [OF sl] g(1) show ?thesis
    by (intro page_insert_kmem [of pd va s]) auto
next
  case nt: False
  note w = walk_new [OF ok pd va nt]
  show ?thesis
  proof (cases xs)
    case Nil
    with w r show ?thesis by (simp add: page_insert_def E_NO_MEM_def)
  next
    case (Cons p ps)
    with ok have ok': "vm_ok s (p # ps) A" by simp
    let ?s = "with_tbl p pd (unat (PDX va)) s"
    note n = vm_ok_new_tbl [OF ok' pd user_PDX [OF va] nt]
    have sl: "(pd, unat (PDX va)) \<in> slots ?s A" using n(2) by simp
    have tb: "tbl ?s pd (unat (PDX va)) = p" using new_tbl_view(2) [OF ok' pd pd] by simp
    note h = walk_hit [OF n(1) sl, unfolded tb]
    from w Cons h r have "page_insert pd pp va perm ?s = Ret 0 t" by (simp add: page_insert_def)
    then have "kmem t g = kmem ?s g" using h g(2) Cons by (intro page_insert_kmem [of pd va ?s]) auto
    moreover have "g \<noteq> p" "g \<noteq> pd" using g Cons structuralI(1) [OF pd] by auto
    ultimately show ?thesis using with_tbl_kmem(2) vm_free_frame(2) [OF ok', of p] pd by (metis list.set_intros(1))
  qed
qed

text \<open>A directory that lets programs write: every page table in it has been entered with the right to.\<close>

definition dir_writable :: "kstate \<Rightarrow> nat \<Rightarrow> bool" where
  "dir_writable s pd \<longleftrightarrow> (\<forall>i<NUSER. has_tbl s pd i \<longrightarrow> kmem s pd i AND PTE_W \<noteq> 0)"

lemma dir_writable_cong: "kmem t q = kmem s q \<Longrightarrow> dir_writable t q = dir_writable s q"
  by (simp add: dir_writable_def has_tbl_def)

lemma PTE_W_set: "x AND PTE_W \<noteq> 0 \<longleftrightarrow> bit x 1" for x :: u32
  using and_exp_eq_0_iff_not_bit [of x 1] by (simp add: PTE_W_def)

lemma pde_for_writable [simp]: "pde_for p AND PTE_W \<noteq> 0"
  unfolding PTE_W_set by (simp add: pde_for_def bit_or_iff PTE_W_def PTE_U_def PTE_P_def bit_simps)

lemma page_insert_dir_writable:
  assumes ok: "vm_ok s xs A" and pd: "pd \<in> A" and va: "va < UTOP"
    and r: "page_insert pd pp va perm s = Ret 0 t" and q: "q \<in> A" and dw: "dir_writable s q"
  shows "dir_writable t q"
proof (cases "has_tbl s pd (unat (PDX va))")
  case True
  with pd va have sl: "(pd, unat (PDX va)) \<in> slots s A" by (simp add: slots_def user_PDX)
  have "q \<noteq> tbl s pd (unat (PDX va))" using vm_tbl_notin [OF ok sl] q by auto
  from dir_writable_cong [OF page_insert_kmem [OF walk_hit [OF ok sl] r this]] dw show ?thesis by simp
next
  case nt: False
  note w = walk_new [OF ok pd va nt]
  with r obtain p ps where xs: "xs = p # ps" by (cases xs) (auto simp: page_insert_def E_NO_MEM_def)
  with ok have ok': "vm_ok s (p # ps) A" by simp
  let ?s = "with_tbl p pd (unat (PDX va)) s"
  note n = vm_ok_new_tbl [OF ok' pd user_PDX [OF va] nt]
  have sl: "(pd, unat (PDX va)) \<in> slots ?s A" using n(2) by simp
  have tb: "tbl ?s pd (unat (PDX va)) = p" using new_tbl_view(2) [OF ok' pd pd] by simp
  note h = walk_hit [OF n(1) sl, unfolded tb]
  from w xs h r have e: "page_insert pd pp va perm ?s = Ret 0 t" by (simp add: page_insert_def)
  have np: "p \<noteq> q" "p \<noteq> pd" using vm_free_frame(2) [OF ok', of p] q pd by auto
  have "kmem t q = kmem ?s q" by (rule page_insert_kmem [OF h e]) (use np in simp)
  moreover have "dir_writable ?s q"
  proof (cases "q = pd")
    case True
    then have "kmem ?s q = (kmem s q)(unat (PDX va) := pde_for p)" using with_tbl_kmem(3) [OF np(2)] by simp
    then show ?thesis using dw by (simp add: dir_writable_def has_tbl_def)
  next
    case False
    with with_tbl_kmem(2) [OF np(2), of q "unat (PDX va)" s] np(1) have "kmem ?s q = kmem s q" by simp
    from dir_writable_cong [OF this] dw show ?thesis by simp
  qed
  ultimately show ?thesis using dir_writable_cong [of t q ?s] by simp
qed

text \<open>Taking a frame off the free list changes no address space.\<close>

lemma vm_ok_popped:
  assumes ok: "vm_ok s (p # ps) A"
  shows "vm_ok (popped f p s) ps A" "q \<in> A \<Longrightarrow> uspace (popped f p s) q = uspace s q"
    "structural (popped f p s) A = structural s A" "p \<notin> structural s A" "p \<notin> set ps"
    "pp_ref (pages (popped f p s) p) = 0"
    "q \<in> A \<Longrightarrow> has_tbl (popped f p s) q k = has_tbl s q k"
proof -
  let ?t = "popped f p s"
  note pf = vm_free_frame [OF ok, of p, simplified]
  have kA: "\<forall>q\<in>A. kmem ?t q = kmem s q" using pf by (metis popped_simps(4))
  have kt: "\<forall>q i. (q, i) \<in> slots s A \<longrightarrow> kmem ?t (tbl s q i) = kmem s (tbl s q i)"
    using structuralI(2) pf by (metis popped_simps(4))
  note v = vm_view_cong [OF kA kt]
  show "q \<in> A \<Longrightarrow> uspace ?t q = uspace s q" by (rule v(7))
  show "structural ?t A = structural s A" by (rule v(6))
  show "q \<in> A \<Longrightarrow> has_tbl ?t q k = has_tbl s q k" by (rule v(4))
  show "p \<notin> structural s A" by (rule pf(1))
  show "p \<notin> set ps" using free_pages_ok_distinct [OF vm_free [OF ok]] by simp
  have r0: "pp_ref (pages s p) = 0" using vm_free [OF ok] by (simp add: free_pages_ok_def)
  then show r: "pp_ref (pages ?t p) = 0" by simp
  have ref: "pp_ref (pages ?t g) = pp_ref (pages s g)" for g
    using r r0 by (cases "g = p") simp_all
  have tb: "tbl ?t q i = tbl s q i" if "(q, i) \<in> slots s A" for q i
    using v(3) that by (simp add: slots_def)
  show "vm_ok ?t ps A"
    unfolding vm_ok_def
  proof (intro conjI)
    show "free_pages_ok ?t ps" by (rule free_pages_ok_popped [OF vm_free [OF ok]])
    show "finite A" by (rule vm_finite [OF ok])
    show "\<forall>f\<in>structural ?t A. f < npages ?t \<and> pp_ref (pages ?t f) \<noteq> 0"
      using vm_struct [OF ok] by (simp add: v(6) ref)
    show "\<forall>q\<in>A. \<forall>i<NUSER. kmem ?t q i = 0 \<or> has_tbl ?t q i"
      using vm_empty [OF ok] v(4) kA by metis
    show "\<forall>(q, i)\<in>slots ?t A. tbl ?t q i \<notin> A"
      using vm_tbl_notin [OF ok] by (auto simp: v(1) tb)
    have "inj_on (\<lambda>(q, k). tbl ?t q k) (slots s A) = inj_on (\<lambda>(q, k). tbl s q k) (slots s A)"
      by (rule inj_on_cong) (auto simp: tb)
    then show "inj_on (\<lambda>(q, k). tbl ?t q k) (slots ?t A)" using vm_inj [OF ok] by (simp add: v(1))
    show "\<forall>(q, i)\<in>slots ?t A. \<forall>j<NPTENTRIES. pte ?t q i j = 0 \<or> pte ?t q i j AND PTE_P \<noteq> 0 \<and>
        frame_of (pte ?t q i j) < npages ?t \<and> frame_of (pte ?t q i j) \<notin> structural ?t A"
      using vm_pte [OF ok] v(2) by (auto simp: v(1,6))
    show "\<forall>f. card (mappers ?t A f) \<le> unat (pp_ref (pages ?t f))"
      using vm_count [OF ok] by (simp add: v(5) ref)
  qed
qed

text \<open>What programs write into their pages is no concern of the page tables.\<close>

lemma vm_ok_write:
  fixes g :: "nat \<Rightarrow> u32"
  assumes ok: "vm_ok s xs A" and p: "p \<notin> structural s A"
  defines "t \<equiv> s\<lparr>kmem := (kmem s)(p := g)\<rparr>"
  shows "vm_ok t xs A" "structural t A = structural s A" "q \<in> A \<Longrightarrow> uspace t q = uspace s q"
proof -
  have kA: "\<forall>q\<in>A. kmem t q = kmem s q" using p structuralI(1) by (auto simp: t_def)
  have kt: "\<forall>q i. (q, i) \<in> slots s A \<longrightarrow> kmem t (tbl s q i) = kmem s (tbl s q i)"
    using p structuralI(2) by (auto simp: t_def)
  note v = vm_view_cong [OF kA kt]
  have tb: "tbl t q i = tbl s q i" if "(q, i) \<in> slots s A" for q i
    using v(3) that by (simp add: slots_def)
  show "structural t A = structural s A" "q \<in> A \<Longrightarrow> uspace t q = uspace s q" by (fact v)+
  have pg: "pages t = pages s" "npages t = npages s" "page_free_list t = page_free_list s" by (simp_all add: t_def)
  show "vm_ok t xs A"
    unfolding vm_ok_def
  proof (intro conjI)
    show "free_pages_ok t xs" using vm_free [OF ok] free_pages_ok_cong [of t s xs] pg by simp
    show "finite A" by (rule vm_finite [OF ok])
    show "\<forall>f\<in>structural t A. f < npages t \<and> pp_ref (pages t f) \<noteq> 0"
      using vm_struct [OF ok] by (simp add: v(6) pg)
    show "\<forall>q\<in>A. \<forall>i<NUSER. kmem t q i = 0 \<or> has_tbl t q i"
      using vm_empty [OF ok] v(4) kA by metis
    show "\<forall>(q, i)\<in>slots t A. tbl t q i \<notin> A"
      using vm_tbl_notin [OF ok] by (auto simp: v(1) tb)
    have "inj_on (\<lambda>(q, k). tbl t q k) (slots s A) = inj_on (\<lambda>(q, k). tbl s q k) (slots s A)"
      by (rule inj_on_cong) (auto simp: tb)
    then show "inj_on (\<lambda>(q, k). tbl t q k) (slots t A)" using vm_inj [OF ok] by (simp add: v(1))
    show "\<forall>(q, i)\<in>slots t A. \<forall>j<NPTENTRIES. pte t q i j = 0 \<or> pte t q i j AND PTE_P \<noteq> 0 \<and>
        frame_of (pte t q i j) < npages t \<and> frame_of (pte t q i j) \<notin> structural t A"
      using vm_pte [OF ok] v(2) by (auto simp: v(1,6) pg)
    show "\<forall>f. card (mappers t A f) \<le> unat (pp_ref (pages t f))"
      using vm_count [OF ok] by (simp add: v(5) pg)
  qed
qed

text \<open>
  C5: \<open>page_insert\<close> refines the update of an address space. On a well formed set of address
  spaces, for a user page and a frame in use, it either reports \<open>-E_NO_MEM\<close> and changes nothing,
  which only happens when a page table is missing and no frame is free; or it returns 0, the
  address space maps the page to the frame with \<open>perm | PTE_P\<close>, every other page of it and all
  other address spaces are what they were, the frame's count went up by one unless it was
  mapped there already, and the invariant holds again (the frame mapped before is dropped).
\<close>

theorem page_insert_maps:
  assumes "vm_ok s xs A" "pd \<in> A" "va < UTOP" "mappable s xs A pp" "PTE_ADDR perm = 0"
  shows "page_insert pd pp va perm s = Ret (- E_NO_MEM) s \<and> xs = [] \<and>
      \<not> has_tbl s pd (unat (PDX va)) \<or>
    (\<exists>t ys. page_insert pd pp va perm s = Ret 0 t \<and> vm_ok t ys A \<and>
      (\<forall>q\<in>A. uspace t q =
         (if q = pd then (uspace s q)(vpn va \<mapsto> (pp, perm OR PTE_P)) else uspace s q)) \<and>
      pp_ref (pages t pp) = (if \<exists>fl. uspace s pd (vpn va) = Some (pp, fl) then pp_ref (pages s pp)
        else pp_ref (pages s pp) + 1))"
  by (rule page_insert_ok [OF assms])

text \<open>
  C6: \<open>page_remove\<close> refines removal from an address space: for a mapped user page it returns, the
  page is unmapped, every other mapping in every address space is kept, the reference is given
  back, the frame becomes the head of the free list exactly if it was the last one, and the
  invariant holds again. When the address space is the one loaded, or no environment is
  running, the TLB entry is flushed.
\<close>

theorem page_remove_unmaps:
  assumes "vm_ok s xs A" "pd \<in> A" "va < UTOP" "uspace s pd (vpn va) = Some (f, fl)"
  shows "\<exists>t. page_remove pd va s = Ret () t \<and>
    (\<forall>q\<in>A. uspace t q = (if q = pd then (uspace s q)(vpn va := None) else uspace s q)) \<and>
    (\<forall>g. pp_ref (pages t g) = (if g = f then pp_ref (pages s f) - 1 else pp_ref (pages s g))) \<and>
    vm_ok t (if pp_ref (pages s f) = 1 then f # xs else xs) A \<and>
    ((curenv s = None \<or> (\<exists>e. curenv s = Some e \<and> env_pgdir (envs s e) = Some pd)) \<longrightarrow>
      tlb_flushes t = va # tlb_flushes s)"
proof -
  note r = page_remove_mapped [OF assms]
  show ?thesis
  proof (intro exI conjI allI ballI impI)
    show "page_remove pd va s = Ret () (tlb_invalidate pd va
        (dropped f (wr_word (tbl s pd (unat (PDX va))) (unat (PTX va)) 0 s)))" by (rule r(1))
  next
    fix q assume "q \<in> A"
    then show "uspace (tlb_invalidate pd va
        (dropped f (wr_word (tbl s pd (unat (PDX va))) (unat (PTX va)) 0 s))) q =
        (if q = pd then (uspace s q)(vpn va := None) else uspace s q)" by (rule r(7))
  qed (use r(2,8) in \<open>auto simp: dropped_list_def tlb_invalidate_def\<close>)
qed

text \<open>
  \<open>page_lookup\<close> and the software page walk \<open>check_va2pa\<close> compute the abstract translation: for
  a mapped user page the one returns the mapped frame and the other its physical address;
  where no page table exists the one returns NULL and the other all ones.
\<close>

theorem page_lookup_translates:
  assumes "vm_ok s xs A" "pd \<in> A" "va < UTOP"
  shows "case uspace s pd (vpn va) of
      Some (f, fl) \<Rightarrow> (\<exists>p_pte. page_lookup pd va s = Ret (Some (f, p_pte)) s) \<and>
        check_va2pa pd va s = Ret (page2pa f) s
    | None \<Rightarrow> check_va2pa pd va s = Ret (NOT 0) s \<and>
        (\<not> has_tbl s pd (unat (PDX va)) \<longrightarrow> page_lookup pd va s = Ret None s)"
proof -
  let ?i = "unat (PDX va)" and ?j = "unat (PTX va)"
  have kv: "kaddr (PTE_ADDR (kmem s pd ?i)) s = Ret (PTE_ADDR (kmem s pd ?i) + KERNBASE) s"
    if "(pd, ?i) \<in> slots s A"
    using vm_struct [OF assms(1) structuralI(2) [OF that]] by (simp add: kaddr_def tbl_def frame_of_def)
  show ?thesis
  proof (cases "uspace s pd (vpn va)")
    case None
    show ?thesis
    proof (cases "has_tbl s pd ?i")
      case True
      note e = vpn_unmapped [OF assms None True]
      from True None e(2) kv [OF e(1)] show ?thesis
        by (simp add: check_va2pa_def Let_def has_tbl_def kva_frame_kaddr pte_def tbl_def frame_of_def)
    next
      case False
      with None walk_miss [OF assms False] show ?thesis
        by (simp add: check_va2pa_def page_lookup_def has_tbl_def)
    qed
  next
    case (Some m)
    obtain f fl where m: "uspace s pd (vpn va) = Some (f, fl)" using Some by (cases m) auto
    note e = vpn_slot [OF assms m]
    have p: "pte s pd ?i ?j AND PTE_P \<noteq> 0" using vm_pte [OF assms(1) e(1) PTX_NPT e(2)] by simp
    have h: "kmem s pd ?i AND PTE_P \<noteq> 0" using e(1) by (simp add: slots_def has_tbl_def)
    have a: "PTE_ADDR (pte s pd ?i ?j) = page2pa f"
      using e(3) by (auto simp: frame_of_def page2pa_def PTE_ADDR_push PGNUM_def)
    have "check_va2pa pd va s = Ret (page2pa f) s"
      using kv [OF e(1)] h p a
      by (simp add: check_va2pa_def Let_def kva_frame_kaddr pte_def tbl_def frame_of_def)
    with m page_lookup_mapped [OF assms m] show ?thesis by simp
  qed
qed

text \<open>
  What \<open>page_remove\<close> does where nothing is mapped but a page table exists: contrary to its
  comment it does not silently do nothing. \<open>page_lookup\<close> does not test \<open>PTE_P\<close>, takes the empty
  entry for frame 0, and the count of frame 0 is decremented; \<open>page_init\<close> set it to 1, so the
  first such call puts frame 0, the real-mode interrupt table, on the free list.
\<close>

theorem page_remove_unmapped_frees_frame_0:
  assumes "vm_ok s xs A" "pd \<in> A" "va < UTOP" "uspace s pd (vpn va) = None"
    "has_tbl s pd (unat (PDX va))" "0 < npages s" "pp_ref (pages s 0) = 1"
  shows "\<exists>t. page_remove pd va s = Ret () t \<and> page_free_list t = Some 0"
proof -
  note e = vpn_unmapped [OF assms(1-5)]
  let ?u = "wr_word (tbl s pd (unat (PDX va))) (unat (PTX va)) 0 s"
  have z: "frame_of 0 = 0" by (simp add: frame_of_def PGNUM_def)
  have l: "page_lookup pd va s =
      Ret (Some (0, tbl s pd (unat (PDX va)), unat (PTX va))) s"
    using page_lookup_slot [OF assms(1) e(1)] assms(6) by (simp add: e(2) z)
  have "free_pages_ok ?u xs"
    using vm_free [OF assms(1)] by (subst free_pages_ok_cong) auto
  then have d: "page_decref 0 ?u = Ret () (dropped 0 ?u)"
    using page_decref_dropped [of ?u xs 0] assms(6,7) by simp
  have "page_free_list (dropped 0 ?u) = Some 0"
    using assms(7) by (simp add: dropped_def Let_def)
  with d l show ?thesis by (simp add: page_remove_def Let_def)
qed

text \<open>
  Changing the permissions of a mapped page flushes nothing: \<open>page_insert\<close> of the frame
  that is already mapped at a user page rewrites the entry with the new permissions and
  leaves the TLB alone, also when the address space is loaded, although its comment requires
  the flush whenever a page was present. A TLB entry with the old rights stays valid.
\<close>

theorem page_insert_remap_keeps_tlb:
  assumes "vm_ok s xs A" "pd \<in> A" "va < UTOP" "uspace s pd (vpn va) = Some (pp, fl)"
    "mappable s xs A pp" "PTE_ADDR perm = 0"
  shows "\<exists>t. page_insert pd pp va perm s = Ret 0 t \<and> tlb_flushes t = tlb_flushes s \<and>
    uspace t pd (vpn va) = Some (pp, perm OR PTE_P)"
proof -
  note e = vpn_slot [OF assms(1-4)]
  have b: "pp < 2 ^ 20" using e(5) free_pages_ok_npages [OF vm_free [OF assms(1)]] by simp
  note v = pte_for [OF b assms(6)]
  let ?t = "wr_word (tbl s pd (unat (PDX va))) (unat (PTX va)) (pte_for pp perm) s"
  have "PTE_ADDR (pte s pd (unat (PDX va)) (unat (PTX va))) = page2pa pp"
    using e(3) by (auto simp: frame_of_def page2pa_def PTE_ADDR_push PGNUM_def)
  then have "page_insert pd pp va perm s = Ret 0 ?t"
    using walk_hit [OF assms(1) e(1), of True]
    by (simp add: page_insert_def pte_def pte_for_def Let_def)
  then show ?thesis
    using wr_pte_uspace [OF assms(1) e(1) PTX_NPT [of va] assms(2), where v = "pte_for pp perm"] v
    by (intro exI [of _ ?t]) (simp add: vpn_def)
qed

section \<open>User pointer checks\<close>

lemma user_mem_check_walk:
  assumes "vm_ok s xs A" "pd \<in> A" "va < UTOP"
  shows "\<exists>r. pgdir_walk pd va False s = Ret r s"
  using walk_hit [OF assms(1), of pd va False] walk_miss [OF assms] slot_va [OF assms(2,3)] by blast

lemma PTE_bits_frame:
  assumes "PTE_ADDR perm = 0"
  shows "x AND perm = PGOFF x AND perm"
proof -
  have "PGOFF perm = perm" using PGOFF_flags [OF assms] .
  then have "x AND perm = x AND PGOFF perm" by simp
  also have "\<dots> = PGOFF x AND PGOFF perm" by (simp add: PGOFF_def ac_simps)
  finally show ?thesis using \<open>PGOFF perm = perm\<close> by simp
qed

lemma user_mem_check_page:
  assumes "vm_ok s xs A" "pd \<in> A" "env_pgdir (envs s e) = Some pd" "va < UTOP"
    "ROUNDUP (va + len) PGSIZE = ROUNDUP va PGSIZE" "PTE_ADDR perm = 0" "perm \<noteq> 0"
  shows "user_mem_check e va len perm s =
    (if \<exists>f fl. uspace s pd (vpn va) = Some (f, fl) \<and> fl AND perm = perm then Ret 0 s
     else Ret (- E_FAULT) (s\<lparr>user_mem_check_addr := va\<rparr>))"
proof -
  let ?i = "unat (PDX va)" and ?j = "unat (PTX va)"
  have l: "user_mem_check_loop pd (ROUNDUP va PGSIZE) (ROUNDUP (va + len) PGSIZE) perm s = Ret 0 s"
    using assms(5) by (subst user_mem_check_loop.simps) simp
  show ?thesis
  proof (cases "uspace s pd (vpn va)")
    case (Some m)
    obtain f fl where m: "uspace s pd (vpn va) = Some (f, fl)" using Some by (cases m) auto
    note v = vpn_slot [OF assms(1,2,4) m]
    have "kmem s (tbl s pd ?i) ?j AND perm = fl AND perm"
      using PTE_bits_frame [OF assms(6)] v(4) by (metis pte_def)
    with m l walk_hit [OF assms(1) v(1), of False] show ?thesis
      by (simp add: user_mem_check_def assms(3))
  next
    case None
    show ?thesis
    proof (cases "has_tbl s pd ?i")
      case True
      note v = vpn_unmapped [OF assms(1,2,4) None True]
      have "kmem s (tbl s pd ?i) ?j AND perm \<noteq> perm" using v(2) assms(7) by (simp add: pte_def)
      with None walk_hit [OF assms(1) v(1), of False] show ?thesis
        by (simp add: user_mem_check_def assms(3))
    next
      case False
      with None walk_miss [OF assms(1,2,4) False] show ?thesis
        by (simp add: user_mem_check_def assms(3))
    qed
  qed
qed

lemma user_mem_check_crossing:
  assumes "vm_ok s xs A" "pd \<in> A" "env_pgdir (envs s e) = Some pd" "va < UTOP"
    "ROUNDUP va PGSIZE < UTOP" "ROUNDUP va PGSIZE < ROUNDUP (va + len) PGSIZE"
  shows "\<exists>a. user_mem_check e va len perm s = Ret (- E_FAULT) (s\<lparr>user_mem_check_addr := a\<rparr>)"
proof -
  have u: "ROUNDUP va PGSIZE < ULIM"
    using assms(5) by (simp add: layout_values word_less_nat_alt)
  from user_mem_check_walk [OF assms(1,2,5)] obtain r
    where "pgdir_walk pd (ROUNDUP va PGSIZE) False s = Ret r s" by blast
  with u assms(6) have l: "user_mem_check_loop pd (ROUNDUP va PGSIZE) (ROUNDUP (va + len) PGSIZE) perm s =
      Ret (- E_FAULT) (s\<lparr>user_mem_check_addr := ROUNDUP va PGSIZE\<rparr>)"
    by (subst user_mem_check_loop.simps) simp
  from user_mem_check_walk [OF assms(1,2,4)] obtain r' where "pgdir_walk pd va False s = Ret r' s" by blast
  with l show ?thesis by (cases r') (auto simp: user_mem_check_def assms(3))
qed

lemma page_span:
  fixes n l i :: nat
  assumes "(n + l + 4095) div 4096 = (n + 4095) div 4096" "i < l"
  shows "(n + i) div 4096 = n div 4096"
proof (rule antisym)
  show "n div 4096 \<le> (n + i) div 4096" by (rule div_le_mono) simp
  show "(n + i) div 4096 \<le> n div 4096"
  proof (rule ccontr)
    assume "\<not> (n + i) div 4096 \<le> n div 4096"
    then have "n div 4096 + 1 \<le> (n + i) div 4096" by simp
    then have "(n div 4096 + 1) * 4096 \<le> n + i" by (simp only: less_eq_div_iff_mult_less_eq)
    then have "(n div 4096 + 2) * 4096 \<le> n + l + 4095" using assms(2) by simp
    then have "n div 4096 + 2 \<le> (n + l + 4095) div 4096" by (simp only: less_eq_div_iff_mult_less_eq)
    moreover have "n < (n div 4096 + 1) * 4096" using div_less_iff_less_mult [of 4096 n "n div 4096 + 1"] by simp
    then have "n + 4095 < (n div 4096 + 2) * 4096" by simp
    then have "(n + 4095) div 4096 < n div 4096 + 2" by (simp only: div_less_iff_less_mult)
    ultimately show False using assms(1) by simp
  qed
qed
text \<open>So for a range below \<open>UTOP\<close> the answer 0 means that it lies in one page, mapped with these bits.\<close>

lemma user_mem_check_user:
  assumes "vm_ok s xs A" "pd \<in> A" "env_pgdir (envs s e) = Some pd" "va < UTOP" "unat va + unat len \<le> unat UTOP"
    "PTE_ADDR perm = 0" "perm \<noteq> 0"
  shows "(\<exists>a. user_mem_check e va len perm s = Ret (- E_FAULT) (s\<lparr>user_mem_check_addr := a\<rparr>)) \<or>
    user_mem_check e va len perm s = Ret 0 s \<and> (\<forall>i<unat len. (unat va + i) div 4096 = unat va div 4096) \<and>
    (\<exists>f fl. uspace s pd (vpn va) = Some (f, fl) \<and> fl AND perm = perm)"
proof -
  have l: "unat (va + len) = unat va + unat len" "unat PGSIZE = 4096" "unat UTOP = 4005560320"
    using assms(5) by (simp_all add: unat_word_ariths layout_values PGSIZE_def)
  have r: "unat (ROUNDUP x PGSIZE) = (unat x + 4095) div 4096 * 4096" if "unat x \<le> unat UTOP" for x
    using unat_ROUNDUP [of PGSIZE x] that l(2,3) by simp
  show ?thesis
  proof (cases "ROUNDUP (va + len) PGSIZE = ROUNDUP va PGSIZE")
    case True
    then have "(unat va + unat len + 4095) div 4096 = (unat va + 4095) div 4096"
      using r [of va] r [of "va + len"] assms(4,5) by (simp add: word_unat_eq_iff l(1) word_less_nat_alt)
    then have "(unat va + i) div 4096 = unat va div 4096" if "i < unat len" for i
      using page_span that by blast
    with user_mem_check_page [OF assms(1-4) True assms(6,7)] show ?thesis by auto
  next
    case False
    have ne: "(unat va + unat len + 4095) div 4096 \<noteq> (unat va + 4095) div 4096"
      using False r [of va] r [of "va + len"] assms(4,5) by (auto simp: word_unat_eq_iff l(1) word_less_nat_alt)
    moreover have "(unat va + 4095) div 4096 \<le> (unat va + unat len + 4095) div 4096" by (rule div_le_mono) simp
    moreover have "(unat va + unat len + 4095) div 4096 \<le> unat UTOP div 4096"
    proof -
      have "(unat va + unat len + 4095) div 4096 \<le> (unat UTOP + 4095) div 4096" by (rule div_le_mono) (use assms(5) in simp)
      then show ?thesis by (simp add: l(3))
    qed
    ultimately have "(unat va + 4095) div 4096 * 4096 < (unat va + unat len + 4095) div 4096 * 4096"
      "(unat va + 4095) div 4096 * 4096 < unat UTOP" by (simp_all add: l(3))
    then have "ROUNDUP va PGSIZE < UTOP" "ROUNDUP va PGSIZE < ROUNDUP (va + len) PGSIZE"
      using r [of va] r [of "va + len"] assms(4,5) by (simp_all add: word_less_nat_alt l(1))
    from user_mem_check_crossing [OF assms(1-4) this] show ?thesis by blast
  qed
qed

text \<open>
  C11: \<open>user_mem_check\<close> never lets a program past its rights: for a range of memory below \<open>UTOP\<close> it
  returns 0, with nothing changed, or \<open>-E_FAULT\<close>, with nothing changed but
  \<open>user_mem_check_addr\<close>; it returns 0 only if the address space of the environment maps every address
  of the range with all the permissions asked for; and for a range inside one page, that does not
  start at the page's boundary, it returns 0 exactly in this case and otherwise leaves the first
  address of the range as the wrong one. What it answers for a range that is permitted and starts
  at or crosses a boundary is not part of this.
\<close>

theorem user_mem_check_sound:
  assumes "vm_ok s xs A" "pd \<in> A" "env_pgdir (envs s e) = Some pd" "va < UTOP" "unat va + unat len \<le> unat UTOP"
    "PTE_ADDR perm = 0" "perm \<noteq> 0"
  defines "permitted \<equiv> \<lambda>x. \<exists>f fl. uspace s pd (vpn x) = Some (f, fl) \<and> fl AND perm = perm"
  shows "\<exists>r t. user_mem_check e va len perm s = Ret r t \<and>
    (r = 0 \<and> t = s \<or> r = - E_FAULT \<and> (\<exists>a. t = s\<lparr>user_mem_check_addr := a\<rparr>)) \<and>
    (r = 0 \<longrightarrow> (\<forall>i<unat len. permitted (va + of_nat i))) \<and>
    (ROUNDUP (va + len) PGSIZE = ROUNDUP va PGSIZE \<longrightarrow>
      (r = 0 \<longleftrightarrow> permitted va) \<and> (r \<noteq> 0 \<longrightarrow> user_mem_check_addr t = va))"
proof -
  have pg: "vpn (va + of_nat i) = vpn va"
    if "i < unat len" "(unat va + i) div 4096 = unat va div 4096" for i
  proof -
    have "unat UTOP < 2 ^ 32" by (rule unat_u32_less)
    then have l: "i < 2 ^ 32" "unat va + i < 2 ^ 32" using that(1) assms(5) by linarith+
    then have "unat (va + of_nat i) = unat va + i"
      by (simp add: unat_word_ariths unat_of_nat take_bit_nat_eq_self_iff)
    then have "PGNUM (va + of_nat i) = PGNUM va" using that(2) by (simp add: word_unat_eq_iff unat_PGNUM)
    then show ?thesis by (simp add: vpn_eq)
  qed
  from user_mem_check_user [OF assms(1-7)] have r:
    "(\<exists>a. user_mem_check e va len perm s = Ret (- E_FAULT) (s\<lparr>user_mem_check_addr := a\<rparr>)) \<or>
      user_mem_check e va len perm s = Ret 0 s \<and> (\<forall>i<unat len. permitted (va + of_nat i))"
    using pg unfolding permitted_def by metis
  have "\<exists>r t. user_mem_check e va len perm s = Ret r t \<and>
      (r = 0 \<longleftrightarrow> permitted va) \<and> (r \<noteq> 0 \<longrightarrow> user_mem_check_addr t = va)"
    if "ROUNDUP (va + len) PGSIZE = ROUNDUP va PGSIZE"
    using user_mem_check_page [OF assms(1-4) that assms(6,7)]
    by (simp add: permitted_def E_FAULT_def split: if_splits)
  with r show ?thesis by (auto simp: E_FAULT_def)
qed

text \<open>
  Across pages the test of \<open>user_mem_check\<close> against \<open>ULIM\<close> is inverted: whenever the range
  starts at or crosses a page boundary below \<open>UTOP\<close>, the call reports \<open>-E_FAULT\<close>, no matter
  what the environment has mapped there and which permissions are asked for.
\<close>

theorem user_mem_check_rejects_page_boundary:
  assumes "vm_ok s xs A" "pd \<in> A" "env_pgdir (envs s e) = Some pd" "va < UTOP"
    "ROUNDUP va PGSIZE < UTOP" "ROUNDUP va PGSIZE < ROUNDUP (va + len) PGSIZE"
  shows "\<exists>a. user_mem_check e va len perm s = Ret (- E_FAULT) (s\<lparr>user_mem_check_addr := a\<rparr>)"
  by (rule user_mem_check_crossing [OF assms])

section \<open>Witnesses\<close>

declare One_nat_def [simp del]

text \<open>
  Five frames: frame 1 is a page directory, frames 3 and 4 are free, frame 2 is a user page;
  in \<open>mapped_state\<close> it is mapped at address 0 through a table in frame 3.
\<close>

definition blank_state :: kstate where
  "blank_state = bss_state\<lparr>npages := 5, page_free_list := Some 3,
     pages := (\<lambda>_. \<lparr>pp_link = None, pp_ref = 0\<rparr>)
       (0 := \<lparr>pp_link = None, pp_ref = 1\<rparr>, 1 := \<lparr>pp_link = None, pp_ref = 1\<rparr>,
        3 := \<lparr>pp_link = Some 4, pp_ref = 0\<rparr>),
     envs := (envs bss_state)(0 := zero_Env\<lparr>env_pgdir := Some 1\<rparr>)\<rparr>"

lemma blank_ok: "vm_ok blank_state [3, 4] {1}"
proof -
  have k: "kmem blank_state = (\<lambda>_ _. 0)" by (simp add: blank_state_def bss_state_def)
  then have s: "slots blank_state {1} = {}" by (auto simp: slots_def has_tbl_def)
  then have "mappers blank_state {1} f = {}" for f by (auto simp: mappers_def)
  moreover have "free_pages_ok blank_state [3, 4]"
    by (auto simp: free_pages_ok_def blank_state_def)
  ultimately show ?thesis
    using s k by (simp add: vm_ok_def structural_def) (simp add: blank_state_def)
qed

definition mapped_state :: kstate where
  "mapped_state = incref 2 (wr_word 3 0 (pte_for 2 PTE_U) (with_tbl 3 1 0 blank_state))"

lemma mapped_ok:
  "vm_ok mapped_state [4] {1}" "uspace mapped_state 1 (vpn 0) = Some (2, PTE_U OR PTE_P)"
  "structural mapped_state {1} = {1, 3}"
proof -
  have nt: "\<not> has_tbl blank_state 1 0" by (simp add: has_tbl_def blank_state_def bss_state_def)
  have i: "0 < NUSER" by (simp add: NUSER_eq)
  let ?s = "with_tbl 3 1 0 blank_state"
  note n = vm_ok_new_tbl [OF blank_ok _ i nt, simplified]
  have tb: "tbl ?s 1 0 = 3" using new_tbl_view(2) [OF blank_ok, of 1 1 0 0] by simp
  have fr: "pte ?s 1 0 0 = 0" using new_tbl_fresh [OF blank_ok, of 1 0 0] by simp
  have s0: "slots blank_state {1} = {}" by (auto simp: slots_def has_tbl_def blank_state_def bss_state_def)
  have st: "structural ?s {1} = {1, 3}" using n(4) s0 by (auto simp: structural_def)
  have pp: "2 < npages ?s" "(2::nat) \<notin> structural ?s {1}" "(2::nat) \<notin> set [4]"
    "unat (pp_ref (pages ?s 2)) + 1 < 2 ^ 16"
    unfolding st by (simp_all add: with_tbl_pages(1)) (simp_all add: blank_state_def)
  have v: "pte_for 2 PTE_U AND PTE_P \<noteq> 0" "frame_of (pte_for 2 PTE_U) = 2"
    "PGOFF (pte_for 2 PTE_U) = PTE_U OR PTE_P" using pte_for [of 2 PTE_U] by simp_all
  have sl: "(1, 0) \<in> slots ?s {1}" using n(2) by simp
  note m = vm_map_empty [OF n(1) sl _ fr pp v(1,2), unfolded tb, folded mapped_state_def]
  have j: "0 < NPTENTRIES" by (simp add: NPTENTRIES_def)
  have v0: "vpn 0 = (0, 0)" by (simp add: vpn_def PDX_def PTX_def)
  show "vm_ok mapped_state [4] {1}" by (rule m(1) [OF j])
  show "structural mapped_state {1} = {1, 3}" using m(2) [OF j] st by simp
  show "uspace mapped_state 1 (vpn 0) = Some (2, PTE_U OR PTE_P)"
    using m(3) [OF j, of 1] v(3) v0 by simp
qed

lemma mapped_simps:
  "npages mapped_state = 5" "pp_ref (pages mapped_state 2) = 1" "pp_ref (pages mapped_state 0) = 1"
  "envs mapped_state = envs blank_state" "curenv mapped_state = None"
  by (simp_all add: mapped_state_def with_tbl_pages(1))
    (simp_all add: blank_state_def bss_state_def zero_CpuInfo_def curenv_def)

lemma zero_user: "(0::u32) < UTOP" "(0x1000::u32) < UTOP"
  by (simp_all add: layout_values)

theorem page_insert_maps_witness:
  "(\<exists>t ys. page_insert 1 2 0 PTE_U blank_state = Ret 0 t \<and> vm_ok t ys {1} \<and>
     uspace t 1 (vpn 0) = Some (2, PTE_U OR PTE_P) \<and> pp_ref (pages t 2) = 1)"
proof -
  have "uspace blank_state 1 (vpn 0) = None"
    by (simp only: uspace_vpn [OF zero_user(1)])
      (simp add: amap_def vpn_def has_tbl_def blank_state_def bss_state_def)
  moreover have "mappable blank_state [3, 4] {1} 2"
    using blank_ok by (simp add: mappable_def structural_def slots_def has_tbl_def)
      (simp add: blank_state_def bss_state_def)
  ultimately show ?thesis
    using page_insert_maps [OF blank_ok _ zero_user(1), of 1 2 PTE_U]
    by (fastforce simp: blank_state_def)
qed

theorem page_remove_unmaps_witness:
  "\<exists>t. page_remove 1 0 mapped_state = Ret () t \<and> uspace t 1 (vpn 0) = None \<and>
     vm_ok t [2, 4] {1} \<and> tlb_flushes t = 0 # tlb_flushes mapped_state"
  using page_remove_unmaps [OF mapped_ok(1) _ zero_user(1) mapped_ok(2)] by (auto simp: mapped_simps)

theorem page_lookup_translates_witness:
  "check_va2pa 1 0 mapped_state = Ret 0x2000 mapped_state"
  using page_lookup_translates [OF mapped_ok(1) _ zero_user(1), of 1]
  by (simp add: mapped_ok(2)) (simp add: page2pa_def push_bit_eq_mult)

lemma mapped_unmapped:
  "uspace mapped_state 1 (vpn 0x1000) = None" "has_tbl mapped_state 1 (unat (PDX 0x1000))"
proof -
  have v: "vpn 0x1000 = (0, 1)" "unat (PDX 0x1000) = 0" "vpn 0 = (0, 0)"
    by (simp_all add: vpn_def unat_PDX unat_PTX)
  have k: "kmem mapped_state 1 0 = pde_for 3" "kmem mapped_state 3 1 = 0"
    using with_tbl_kmem [where p = 3 and pd = 1 and i = 0 and s = blank_state] by (simp_all add: mapped_state_def)
  then show "has_tbl mapped_state 1 (unat (PDX 0x1000))" by (simp add: has_tbl_def v)
  have "tbl mapped_state 1 0 = 3" using k(1) pde_for_frame [of 3] by (simp add: tbl_def)
  then show "uspace mapped_state 1 (vpn 0x1000) = None"
    using k(2) by (simp only: uspace_vpn [OF zero_user(2)]) (simp add: v amap_def pte_def)
qed

theorem page_remove_unmapped_frees_frame_0_witness:
  "\<exists>t. page_remove 1 0x1000 mapped_state = Ret () t \<and> page_free_list t = Some 0"
  using page_remove_unmapped_frees_frame_0
    [OF mapped_ok(1) _ zero_user(2) mapped_unmapped(1) mapped_unmapped(2)] by (simp add: mapped_simps)

theorem page_insert_remap_keeps_tlb_witness:
  "\<exists>t. page_insert 1 2 0 0 mapped_state = Ret 0 t \<and> tlb_flushes t = tlb_flushes mapped_state \<and>
     uspace t 1 (vpn 0) = Some (2, PTE_P)"
proof -
  have "mappable mapped_state [4] {1} 2" by (simp add: mappable_def mapped_ok(3) mapped_simps)
  from page_insert_remap_keeps_tlb [OF mapped_ok(1) _ zero_user(1) mapped_ok(2) this, of 0]
  show ?thesis by simp
qed

lemma mapped_check: "user_mem_check 0 4 8 (PTE_U OR PTE_P) mapped_state = Ret 0 mapped_state"
proof -
  have v: "vpn 4 = vpn 0" by (simp add: vpn_def unat_PDX unat_PTX)
  have e: "env_pgdir (envs mapped_state 0) = Some 1" by (simp add: mapped_simps) (simp add: blank_state_def)
  show ?thesis
    using user_mem_check_page [OF mapped_ok(1) _ e, of 4 8 "PTE_U OR PTE_P"] mapped_ok(2)
    by (simp add: v layout_values ROUNDUP_def ROUNDDOWN_def PGSIZE_def pte_flag_defs PTE_ADDR_def)
qed

theorem user_mem_check_sound_witness:
  "user_mem_check 0 4 8 (PTE_U OR PTE_P) mapped_state = Ret 0 mapped_state \<and>
   (\<exists>f fl. uspace mapped_state 1 (vpn 11) = Some (f, fl) \<and> fl AND (PTE_U OR PTE_P) = PTE_U OR PTE_P)"
proof -
  have c: "user_mem_check 0 4 8 (PTE_U OR PTE_P) mapped_state = Ret 0 mapped_state"
    by (rule mapped_check)
  have e: "env_pgdir (envs mapped_state 0) = Some 1"
    by (simp add: mapped_simps) (simp add: blank_state_def)
  have h: "(4 :: u32) < UTOP" "unat (4 :: u32) + unat (8 :: u32) \<le> unat UTOP"
    "PTE_ADDR (PTE_U OR PTE_P) = 0" "PTE_U OR PTE_P \<noteq> 0"
    by (simp_all add: layout_values PTE_ADDR_def PTE_U_def PTE_P_def)
  from user_mem_check_sound [OF mapped_ok(1) insertI1 e h] c
  have "\<forall>i<unat (8 :: u32). \<exists>f fl. uspace mapped_state 1 (vpn (4 + of_nat i)) = Some (f, fl) \<and>
      fl AND (PTE_U OR PTE_P) = PTE_U OR PTE_P" by auto
  from this [rule_format, of 7] c show ?thesis by simp
qed

theorem user_mem_check_rejects_page_boundary_witness:
  "\<exists>a. user_mem_check 0 0 8 (PTE_U OR PTE_P) mapped_state =
     Ret (- E_FAULT) (mapped_state\<lparr>user_mem_check_addr := a\<rparr>)"
proof -
  have e: "env_pgdir (envs mapped_state 0) = Some 1" by (simp add: mapped_simps) (simp add: blank_state_def)
  show ?thesis
    using user_mem_check_rejects_page_boundary [OF mapped_ok(1) _ e zero_user(1), of 8 "PTE_U OR PTE_P"]
    by (simp add: layout_values ROUNDUP_def ROUNDDOWN_def PGSIZE_def)
qed

declare One_nat_def [simp]

end
