(* ===== verification/Jos_Memory.thy ===== *)
theory Jos_Memory
  imports Jos_AddrSpace
begin

text \<open>
  Bytes in physical memory, the accesses kernel code makes through virtual addresses with the
  page directory in \<open>cr3\<close>, iteration over lists with the outcome of kernel code, and the ELF
  headers of inc/elf.h. The two-level page walk and its permission check are those of the
  processor, a part of the machine the C code runs on.
\<close>

section \<open>Iteration\<close>

fun forO :: "('a \<Rightarrow> 's \<Rightarrow> ('s, unit) outcome) \<Rightarrow> 'a list \<Rightarrow> 's \<Rightarrow> ('s, unit) outcome" where
  "forO f [] s = Ret () s"
| "forO f (x # xs) s = bindO (f x s) (\<lambda>_ s. forO f xs s)"

lemma forO_append: "forO f (xs @ ys) s = bindO (forO f xs s) (\<lambda>_ s. forO f ys s)"
proof (induction xs arbitrary: s)
  case (Cons x xs)
  then show ?case by (cases "f x s") simp_all
qed simp

text \<open>A relation every round keeps is kept by the loop; an invariant that lets no round panic.\<close>

lemma forO_rel:
  assumes "\<And>x s t. x \<in> set xs \<Longrightarrow> f x s = Ret () t \<Longrightarrow> R s t"
    and "\<And>s. R s s" and "\<And>s t u. R s t \<Longrightarrow> R t u \<Longrightarrow> R s u"
  shows "forO f xs s = Ret () t \<Longrightarrow> R s t"
  using assms(1)
proof (induction xs arbitrary: s)
  case (Cons x xs)
  then obtain u where u: "f x s = Ret () u" "forO f xs u = Ret () t"
    by (auto simp: bindO_eq_Ret)
  have "R s u" using Cons.prems(2) [OF _ u(1)] by simp
  moreover have "R u t" by (rule Cons.IH [OF u(2)], rule Cons.prems(2)) simp_all
  ultimately show ?case by (rule assms(3))
qed (simp add: assms(2))

lemma forO_invariant:
  assumes "\<And>n s. n < length xs \<Longrightarrow> P n s \<Longrightarrow> \<exists>t. f (xs ! n) s = Ret () t \<and> P (Suc n) t"
    and "P 0 s"
  shows "\<exists>t. forO f xs s = Ret () t \<and> P (length xs) t"
  using assms
proof (induction xs arbitrary: s P)
  case (Cons x xs)
  from Cons.prems(1) [of 0] Cons.prems(2) obtain u where u: "f x s = Ret () u" "P (Suc 0) u" by auto
  have "\<exists>t. forO f xs u = Ret () t \<and> P (Suc (length xs)) t"
    by (rule Cons.IH [of "\<lambda>n. P (Suc n)"]) (use Cons.prems(1) u in \<open>auto\<close>, metis Suc_less_eq nth_Cons_Suc)
  with u show ?case by auto
qed auto

section \<open>Bytes of a frame\<close>

definition rd_byte :: "kstate \<Rightarrow> nat \<Rightarrow> nat \<Rightarrow> u8" where
  "rd_byte s f off = ucast (drop_bit (8 * (off mod 4)) (kmem s f (off div 4)))"

definition wr_byte :: "nat \<Rightarrow> nat \<Rightarrow> u8 \<Rightarrow> kstate \<Rightarrow> kstate" where
  "wr_byte f off b s =
     (let k = 8 * (off mod 4) in
      wr_word f (off div 4)
        ((kmem s f (off div 4) AND NOT (push_bit k 0xFF)) OR push_bit k (ucast b)) s)"

text \<open>Little-endian numbers in a sequence of bytes.\<close>

definition le16 :: "(nat \<Rightarrow> u8) \<Rightarrow> nat \<Rightarrow> u16" where
  "le16 b n = ucast (b n) OR push_bit 8 (ucast (b (n + 1)))"

definition le32 :: "(nat \<Rightarrow> u8) \<Rightarrow> nat \<Rightarrow> u32" where
  "le32 b n = ((ucast (b n) OR push_bit 8 (ucast (b (n + 1)))) OR push_bit 16 (ucast (b (n + 2)))) OR
     push_bit 24 (ucast (b (n + 3)))"

definition byte_of :: "u32 \<Rightarrow> nat \<Rightarrow> u8" where
  "byte_of w k = ucast (drop_bit (8 * k) w)"

lemma ff_mask: "(0xFF :: 'a::len word) = mask 8"
  by (simp add: mask_eq_exp_minus_1)

lemma rd_wr_byte: "rd_byte (wr_byte f off b s) f off = b"
proof (rule bit_word_eqI)
  fix n assume n: "n < LENGTH(8)"
  have "off mod 4 < 4" by simp
  then have "8 * (off mod 4) + n < 32" using n by simp
  then show "bit (rd_byte (wr_byte f off b s) f off) n = bit b n"
    using n by (simp add: rd_byte_def wr_byte_def Let_def bit_simps ff_mask)
qed

lemma byte_of_le32:
  "byte_of (le32 b n) 0 = b n" "byte_of (le32 b n) 1 = b (n + 1)"
  "byte_of (le32 b n) 2 = b (n + 2)" "byte_of (le32 b n) 3 = b (n + 3)"
  by (rule bit_word_eqI; simp add: byte_of_def le32_def bit_simps; auto dest: bit_imp_le_length)+

lemma le32_byte_of: "le32 (byte_of w) 0 = w"
proof (rule bit_word_eqI)
  fix n assume "n < LENGTH(32)"
  then consider "n < 8" | "8 \<le> n" "n < 16" | "16 \<le> n" "n < 24" | "24 \<le> n" "n < 32" by fastforce
  then show "bit (le32 (byte_of w) 0) n = bit w n"
    by cases (auto simp: le32_def byte_of_def bit_simps)
qed

section \<open>Accesses through the page directory in cr3\<close>

text \<open>The frame a linear address lies in, and the rights both levels grant.\<close>

definition mmu :: "kstate \<Rightarrow> nat \<Rightarrow> u32 \<Rightarrow> (nat \<times> u32) option" where
  "mmu s pd va =
     (let pde = kmem s pd (unat (PDX va)) in
      if pde AND PTE_P = 0 then None
      else
        (let e = kmem s (unat (PGNUM pde)) (unat (PTX va)) in
         if e AND PTE_P = 0 then None else Some (unat (PGNUM e), pde AND e)))"

text \<open>
  Kernel code reads what is mapped and writes what is mapped writable (\<open>CR0_WP\<close> is set);
  any other access is a page fault in the kernel, on which \<open>page_fault_handler\<close> panics.
\<close>

definition load8 :: "u32 \<Rightarrow> kstate \<Rightarrow> u8 kres" where
  "load8 va s =
     (case mmu s (cr3 s) va of
        None \<Rightarrow> Panic ''page fault in the kernel''
      | Some (f, rights) \<Rightarrow> Ret (rd_byte s f (unat (PGOFF va))) s)"

definition store8 :: "u32 \<Rightarrow> u8 \<Rightarrow> kstate \<Rightarrow> unit kres" where
  "store8 va b s =
     (case mmu s (cr3 s) va of
        None \<Rightarrow> Panic ''page fault in the kernel''
      | Some (f, rights) \<Rightarrow>
          if rights AND PTE_W = 0 then Panic ''page fault in the kernel''
          else Ret () (wr_byte f (unat (PGOFF va)) b s))"

fun load_bytes :: "u32 \<Rightarrow> nat \<Rightarrow> kstate \<Rightarrow> u8 list kres" where
  "load_bytes va 0 s = Ret [] s"
| "load_bytes va (Suc n) s =
     bindO (load8 va s) (\<lambda>b s. bindO (load_bytes (va + 1) n s) (\<lambda>bs s. Ret (b # bs) s))"

fun store_bytes :: "u32 \<Rightarrow> u8 list \<Rightarrow> kstate \<Rightarrow> unit kres" where
  "store_bytes va [] s = Ret () s"
| "store_bytes va (b # bs) s = bindO (store8 va b s) (\<lambda>_ s. store_bytes (va + 1) bs s)"

definition store32 :: "u32 \<Rightarrow> u32 \<Rightarrow> kstate \<Rightarrow> unit kres" where
  "store32 va w s = store_bytes va (map (byte_of w) [0, 1, 2, 3]) s"

definition lcr3 :: "nat \<Rightarrow> kstate \<Rightarrow> kstate" where
  "lcr3 pd s = s\<lparr>cr3 := pd\<rparr>"

text \<open>\<open>mmu\<close> and the abstraction of user address spaces agree on the frame.\<close>

lemma mmu_amap: "map_option fst (mmu s pd va) = map_option fst (amap s pd (vpn va))"
  by (simp add: mmu_def amap_def vpn_def has_tbl_def pte_def tbl_def frame_of_def Let_def)

text \<open>A user page that is mapped writable can be written.\<close>

lemma mmu_writable:
  assumes ok: "vm_ok s xs A" and pd: "pd \<in> A" and va: "va < UTOP" and dw: "dir_writable s pd"
    and m: "uspace s pd (vpn va) = Some (f, fl)" and w: "fl AND PTE_W \<noteq> 0"
  shows "\<exists>rights. mmu s pd va = Some (f, rights) \<and> rights AND PTE_W \<noteq> 0"
proof -
  note s = vpn_slot [OF ok pd va m]
  let ?d = "kmem s pd (unat (PDX va))" and ?e = "pte s pd (unat (PDX va)) (unat (PTX va))"
  from s(1) have h: "unat (PDX va) < NUSER" "has_tbl s pd (unat (PDX va))" by (simp_all add: slots_def)
  with dw have "bit ?d 1" by (simp add: dir_writable_def PTE_W_set)
  moreover have "bit (PGOFF ?e) 1" using w by (simp add: s(4) PTE_W_set)
  then have "bit ?e 1" by (simp add: PGOFF_def bit_and_iff)
  ultimately have "(?d AND ?e) AND PTE_W \<noteq> 0" by (simp add: PTE_W_set bit_and_iff)
  moreover have "?e AND PTE_P \<noteq> 0" using vm_pte [OF ok s(1) PTX_NPT s(2)] by simp
  then have "mmu s pd va = Some (f, ?d AND ?e)"
    using h(2) s(3) by (simp add: mmu_def Let_def has_tbl_def pte_def tbl_def frame_of_def)
  ultimately show ?thesis by simp
qed

section \<open>ELF headers (inc/elf.h)\<close>

record Elf =
  e_magic :: u32
  e_entry :: u32
  e_phoff :: u32
  e_phnum :: u16

record Proghdr =
  p_type :: u32
  p_offset :: u32
  p_va :: u32
  p_pa :: u32
  p_filesz :: u32
  p_memsz :: u32
  p_flags :: u32
  p_align :: u32

definition ELF_MAGIC :: u32 where "ELF_MAGIC = 0x464C457F"
definition ELF_PROG_LOAD :: u32 where "ELF_PROG_LOAD = 1"

text \<open>The fields at their offsets in the packed structures.\<close>

definition elf_at :: "(nat \<Rightarrow> u8) \<Rightarrow> Elf" where
  "elf_at b = \<lparr>e_magic = le32 b 0, e_entry = le32 b 24, e_phoff = le32 b 28, e_phnum = le16 b 44\<rparr>"

definition proghdr_at :: "(nat \<Rightarrow> u8) \<Rightarrow> nat \<Rightarrow> Proghdr" where
  "proghdr_at b n = \<lparr>p_type = le32 b n, p_offset = le32 b (n + 4), p_va = le32 b (n + 8),
     p_pa = le32 b (n + 12), p_filesz = le32 b (n + 16), p_memsz = le32 b (n + 20),
     p_flags = le32 b (n + 24), p_align = le32 b (n + 28)\<rparr>"

text \<open>The program headers of an image, in the order of the loop \<open>for (; ph < eph; ph++)\<close>.\<close>

definition proghdrs :: "(nat \<Rightarrow> u8) \<Rightarrow> Proghdr list" where
  "proghdrs b = (let elf = elf_at b in
     map (\<lambda>k. proghdr_at b (unat (e_phoff elf) + 32 * k)) [0..<unat (e_phnum elf)])"

end
