(* ===== verification/Jos_Env.thy ===== *)
theory Jos_Env
  imports Jos_Memory
begin

text \<open>
  Environments (kern/env.c): the identifiers, the free list of environment slots, building and
  tearing down an address space, loading a program, and the switch to user mode. Messages the
  kernel itself prints are not part of the state.
\<close>

section \<open>Identifiers\<close>

text \<open>
  \<open>envid2env\<close> returns its result and what it stores through \<open>env_store\<close>. With no current
  environment the permission check reads through a null pointer.
\<close>

definition envid2env :: "u32 \<Rightarrow> bool \<Rightarrow> kstate \<Rightarrow> (int \<times> nat option) kres" where
  "envid2env envid checkperm s =
     (if envid = 0 then Ret (0, curenv s) s
      else
        (let e = ENVX envid in
         if env_status (envs s e) = ENV_FREE \<or> env_id (envs s e) \<noteq> envid
         then Ret (- E_BAD_ENV, None) s
         else if checkperm \<and> curenv s \<noteq> Some e then
           (case curenv s of
              None \<Rightarrow> Panic ''page fault in the kernel''
            | Some c \<Rightarrow>
                if env_parent_id (envs s e) \<noteq> env_id (envs s c) then Ret (- E_BAD_ENV, None) s
                else Ret (0, Some e) s)
         else Ret (0, Some e) s))"

definition ENVGENSHIFT :: nat where "ENVGENSHIFT = 12"

section \<open>The environment table\<close>

definition env_init :: "kstate \<Rightarrow> kstate" where
  "env_init s =
     fold (\<lambda>i s. (upd_env i (\<lambda>e. e\<lparr>env_status := ENV_FREE, env_id := 0, env_link := env_free_list s\<rparr>) s)
                   \<lparr>env_free_list := Some i\<rparr>)
       (rev [0..<NENV]) s"

text \<open>The copy of the kernel's part of the directory.\<close>

definition copy_kern_pdes :: "nat \<Rightarrow> kstate \<Rightarrow> kstate" where
  "copy_kern_pdes pd s =
     fold (\<lambda>i s. wr_word pd i (kmem s (kern_pgdir s) i) s) [unat (PDX UTOP)..<NPDENTRIES] s"

definition env_setup_vm :: "nat \<Rightarrow> kstate \<Rightarrow> int kres" where
  "env_setup_vm e s =
     bindO (page_alloc ALLOC_ZERO s) (\<lambda>r s.
       case r of
         None \<Rightarrow> Ret (- E_NO_MEM) s
       | Some p \<Rightarrow>
           bindO (page2kva p s) (\<lambda>kva s.
             let pd = kva_frame kva;
                 s = upd_env e (\<lambda>v. v\<lparr>env_pgdir := Some pd\<rparr>) s;
                 s = zero_page pd s;
                 s = copy_kern_pdes pd s;
                 s = upd_page p (\<lambda>i. i\<lparr>pp_ref := pp_ref i + 1\<rparr>) s
             in bindO (paddr kva s) (\<lambda>pa s.
                  Ret 0 (wr_word pd (unat (PDX UVPT)) ((pa OR PTE_P) OR PTE_U) s))))"

text \<open>\<open>generation\<close> is a signed 32-bit number, as is \<open>env_id\<close>.\<close>

definition env_generation :: "u32 \<Rightarrow> u32" where
  "env_generation old =
     (let g = (old + push_bit ENVGENSHIFT 1) AND NOT (of_nat NENV - 1)
      in if g \<le>s 0 then push_bit ENVGENSHIFT 1 else g)"

definition env_alloc :: "u32 \<Rightarrow> kstate \<Rightarrow> (int \<times> nat option) kres" where
  "env_alloc parent_id s =
     (case env_free_list s of
        None \<Rightarrow> Ret (- E_NO_FREE_ENV, None) s
      | Some e \<Rightarrow>
          bindO (env_setup_vm e s) (\<lambda>r s.
            if r < 0 then Ret (r, None) s
            else
              (let generation = env_generation (env_id (envs s e));
                   tf = zero_Trapframe\<lparr>tf_ds := GD_UD OR 3, tf_es := GD_UD OR 3, tf_ss := GD_UD OR 3,
                          tf_esp := USTACKTOP, tf_cs := GD_UT OR 3, tf_eflags := 0 OR FL_IF\<rparr>;
                   s = upd_env e (\<lambda>v. v\<lparr>env_id := generation OR of_nat e, env_parent_id := parent_id,
                          env_type := ENV_TYPE_USER, env_status := ENV_RUNNABLE, env_runs := 0,
                          env_tf := tf, env_pgfault_upcall := 0, env_ipc_recving := False\<rparr>) s;
                   s = s\<lparr>env_free_list := env_link (envs s e)\<rparr>
               in Ret (0, Some e) s)))"

section \<open>Loading a program\<close>

fun region_alloc_loop :: "nat \<Rightarrow> nat \<Rightarrow> u32 \<Rightarrow> kstate \<Rightarrow> unit kres" where
  "region_alloc_loop pgdir 0 i s = Ret () s"
| "region_alloc_loop pgdir (Suc k) i s =
     bindO (page_alloc 1 s) (\<lambda>r s.
       case r of
         None \<Rightarrow> Panic ''in region_alloc, the page_alloc call returned NULL''
       | Some pp \<Rightarrow>
           bindO (page_insert pgdir pp i (PTE_W OR PTE_U) s) (\<lambda>_ s.
             region_alloc_loop pgdir k (i + PGSIZE) s))"

text \<open>
  The loop runs while \<open>i < va_len_aligned\<close>; both bounds are multiples of the page size, so the
  number of its rounds is their distance in pages.
\<close>

definition region_alloc :: "nat \<Rightarrow> u32 \<Rightarrow> u32 \<Rightarrow> kstate \<Rightarrow> unit kres" where
  "region_alloc e va len s =
     (let va_aligned = ROUNDDOWN va PGSIZE; va_len_aligned = ROUNDUP (va + len) PGSIZE in
      case env_pgdir (envs s e) of
        None \<Rightarrow> Panic ''page fault in the kernel''
      | Some pgdir \<Rightarrow>
          region_alloc_loop pgdir
            (if va_aligned < va_len_aligned
             then unat ((va_len_aligned - va_aligned) div PGSIZE) else 0) va_aligned s)"

text \<open>One program header; \<open>binary\<close> gives the bytes of the image in kernel memory.\<close>

definition load_segment :: "nat \<Rightarrow> (nat \<Rightarrow> u8) \<Rightarrow> Proghdr \<Rightarrow> kstate \<Rightarrow> unit kres" where
  "load_segment e binary ph s =
     (if p_type ph = ELF_PROG_LOAD then
        bindO (region_alloc e (p_va ph) (p_memsz ph) s) (\<lambda>_ s.
          bindO (store_bytes (p_va ph)
                   (map (\<lambda>k. binary (unat (p_offset ph) + k)) [0..<unat (p_filesz ph)]) s) (\<lambda>_ s.
            if p_filesz ph < p_memsz ph
            then store_bytes (p_va ph + p_filesz ph) (replicate (unat (p_memsz ph - p_filesz ph)) 0) s
            else Ret () s))
      else Ret () s)"

definition load_icode :: "nat \<Rightarrow> (nat \<Rightarrow> u8) \<Rightarrow> kstate \<Rightarrow> unit kres" where
  "load_icode e binary s =
     (let prev_cr3 = cr3 s in
      case env_pgdir (envs s e) of
        None \<Rightarrow> Panic ''PADDR called with invalid kva''
      | Some pgdir \<Rightarrow>
          (let s = lcr3 pgdir s; elf = elf_at binary in
           if e_magic elf \<noteq> ELF_MAGIC
           then Panic ''in load_icode, the elf->e_magic from the given binary is not valid''
           else
             bindO (forO (load_segment e binary) (proghdrs binary) s) (\<lambda>_ s.
               let s = upd_env e (\<lambda>v. v\<lparr>env_tf := (env_tf v)\<lparr>tf_eip := e_entry elf\<rparr>\<rparr>) s;
                   s = lcr3 prev_cr3 s
               in region_alloc e (USTACKTOP - PGSIZE) PGSIZE s)))"

definition env_create :: "(nat \<Rightarrow> u8) \<Rightarrow> EnvType \<Rightarrow> kstate \<Rightarrow> unit kres" where
  "env_create binary ty s =
     bindO (env_alloc 0 s) (\<lambda>(r, env_store) s.
       if r \<noteq> 0 then Panic ''in env_create, the env_alloc call has failed''
       else case env_store of
         None \<Rightarrow> Panic ''page fault in the kernel''
       | Some e \<Rightarrow>
           bindO (load_icode e binary s) (\<lambda>_ s. Ret () (upd_env e (\<lambda>v. v\<lparr>env_type := ty\<rparr>) s)))"

section \<open>Freeing an environment\<close>

definition env_free_pte :: "nat \<Rightarrow> nat \<Rightarrow> nat \<Rightarrow> nat \<Rightarrow> kstate \<Rightarrow> unit kres" where
  "env_free_pte pgdir pt pdeno pteno s =
     (if kmem s pt pteno AND PTE_P \<noteq> 0
      then page_remove pgdir (PGADDR (of_nat pdeno) (of_nat pteno) 0) s else Ret () s)"

definition env_free_pde :: "nat \<Rightarrow> nat \<Rightarrow> kstate \<Rightarrow> unit kres" where
  "env_free_pde pgdir pdeno s =
     (if kmem s pgdir pdeno AND PTE_P = 0 then Ret () s
      else
        (let pa = PTE_ADDR (kmem s pgdir pdeno) in
         bindO (kaddr pa s) (\<lambda>pt s.
           bindO (forO (env_free_pte pgdir (kva_frame pt) pdeno) [0..<unat (PTX (NOT 0)) + 1] s) (\<lambda>_ s.
             let s = wr_word pgdir pdeno 0 s in
             bindO (pa2page pa s) (\<lambda>p s. page_decref p s)))))"

definition env_free :: "nat \<Rightarrow> kstate \<Rightarrow> unit kres" where
  "env_free e s =
     (let s = (if curenv s = Some e then lcr3 (kern_pgdir s) s else s) in
      case env_pgdir (envs s e) of
        None \<Rightarrow> Panic ''page fault in the kernel''
      | Some pgdir \<Rightarrow>
          bindO (forO (env_free_pde pgdir) [0..<unat (PDX UTOP)] s) (\<lambda>_ s.
            let pa = page2pa pgdir;
                s = upd_env e (\<lambda>v. v\<lparr>env_pgdir := None\<rparr>) s
            in bindO (pa2page pa s) (\<lambda>p s.
                 bindO (page_decref p s) (\<lambda>_ s.
                   let s = upd_env e (\<lambda>v. v\<lparr>env_status := ENV_FREE, env_link := env_free_list s\<rparr>) s
                   in Ret () (s\<lparr>env_free_list := Some e\<rparr>)))))"

section \<open>Running an environment\<close>

text \<open>
  \<open>unlock_kernel\<close> of kern/spinlock.h. \<open>env_pop_tf\<close> restores the registers of \<open>tf\<close>, which it
  finds in the environment, and leaves the kernel.
\<close>

definition unlock_kernel :: "kstate \<Rightarrow> unit kres" where
  "unlock_kernel s =
     (case spin_unlock (this_cpu s) (kernel_lock s) of
        Ret _ l \<Rightarrow> Ret () (s\<lparr>kernel_lock := l\<rparr>)
      | Panic m \<Rightarrow> Panic m
      | Leave w l \<Rightarrow> Leave w (s\<lparr>kernel_lock := l\<rparr>))"

definition lock_kernel :: "u32 list \<Rightarrow> kstate \<Rightarrow> unit kres" where
  "lock_kernel pcs s =
     (case spin_lock (this_cpu s) pcs (kernel_lock s) of
        Ret _ l \<Rightarrow> Ret () (s\<lparr>kernel_lock := l\<rparr>)
      | Panic m \<Rightarrow> Panic m
      | Leave w l \<Rightarrow> Leave w (s\<lparr>kernel_lock := l\<rparr>))"

definition env_pop_tf :: "kstate \<Rightarrow> 'a kres" where
  "env_pop_tf s =
     (case curenv s of
        None \<Rightarrow> Panic ''page fault in the kernel''
      | Some c \<Rightarrow> Leave EnterUser (upd_env c (\<lambda>v. v\<lparr>env_cpunum := this_cpu s\<rparr>) s))"

definition env_run :: "nat \<Rightarrow> kstate \<Rightarrow> 'a kres" where
  "env_run e s =
     (let s = (case curenv s of
                 None \<Rightarrow> s
               | Some c \<Rightarrow>
                   if env_status (envs s c) = ENV_RUNNING
                   then upd_env c (\<lambda>v. v\<lparr>env_status := ENV_RUNNABLE\<rparr>) s else s);
          s = set_curenv (Some e) s;
          s = upd_env e (\<lambda>v. v\<lparr>env_status := ENV_RUNNING\<rparr>) s;
          s = upd_env e (\<lambda>v. v\<lparr>env_runs := env_runs v + 1\<rparr>) s
      in case env_pgdir (envs s e) of
           None \<Rightarrow> Panic ''PADDR called with invalid kva''
         | Some pgdir \<Rightarrow>
             (let s = lcr3 pgdir s in bindO (unlock_kernel s) (\<lambda>_ s. env_pop_tf s)))"

section \<open>What page operations leave alone\<close>

text \<open>Everything but memory, the page array, the free list and the record of TLB flushes.\<close>

definition same_env :: "kstate \<Rightarrow> kstate \<Rightarrow> bool" where
  "same_env s t \<longleftrightarrow> envs t = envs s \<and> env_free_list t = env_free_list s \<and> cpus t = cpus s \<and>
     this_cpu t = this_cpu s \<and> kern_pgdir t = kern_pgdir s \<and> kernel_lock t = kernel_lock s \<and>
     npages t = npages s \<and> cons t = cons s \<and> cr3 t = cr3 s \<and>
     user_mem_check_addr t = user_mem_check_addr s"

lemma same_env_refl [simp]: "same_env s s"
  by (simp add: same_env_def)

lemma same_env_trans: "same_env s t \<Longrightarrow> same_env t u \<Longrightarrow> same_env s u"
  by (simp add: same_env_def)

lemma same_env_curenv: "same_env s t \<Longrightarrow> curenv t = curenv s"
  by (simp add: same_env_def curenv_def)

lemma same_env_upd [simp]:
  "same_env s (upd_page p f s)" "same_env s (wr_word q i v s)" "same_env s (zero_page q s)"
  "same_env s (tlb_invalidate pd va s)" "same_env s (s\<lparr>page_free_list := l\<rparr>)"
  by (simp_all add: same_env_def upd_page_def wr_word_def zero_page_def tlb_invalidate_def)

lemma kaddr_wlp: "wlp (kaddr pa s) (\<lambda>k t. t = s)"
  by (simp add: kaddr_def)

lemma pa2page_wlp: "wlp (pa2page pa s) (\<lambda>p t. t = s)"
  by (simp add: pa2page_def)

lemma page2kva_wlp: "wlp (page2kva p s) (\<lambda>k t. t = s)"
  by (simp add: page2kva_def kaddr_def)

lemma page_alloc_same: "wlp (page_alloc f s) (\<lambda>_. same_env s)"
  unfolding page_alloc_def
  by (auto simp: wlp_rules same_env_def upd_page_def zero_page_def
      intro!: wlp_weaken [OF page2kva_wlp])

lemma page_free_same: "wlp (page_free p s) (\<lambda>_. same_env s)"
  by (simp add: page_free_def wlp_rules same_env_def upd_page_def)

lemma page_decref_same: "wlp (page_decref p s) (\<lambda>_. same_env s)"
  unfolding page_decref_def
  by (auto simp: wlp_rules intro: wlp_weaken [OF page_free_same] same_env_trans [OF same_env_upd(1)])

lemma pgdir_walk_same: "wlp (pgdir_walk pd va c s) (\<lambda>_. same_env s)"
  unfolding pgdir_walk_def
  by (auto simp: wlp_rules same_env_def intro!: wlp_weaken [OF kaddr_wlp] wlp_weaken [OF page_alloc_same])

lemma pgdir_walk_False: "wlp (pgdir_walk pd va False s) (\<lambda>_ t. t = s)"
  unfolding pgdir_walk_def
  by (auto simp: wlp_rules intro!: wlp_weaken [OF kaddr_wlp])

lemma page_lookup_state: "wlp (page_lookup pd va s) (\<lambda>_ t. t = s)"
  unfolding page_lookup_def
  by (auto simp: wlp_rules intro!: wlp_weaken [OF pgdir_walk_False] wlp_weaken [OF pa2page_wlp])

lemma page_remove_same: "wlp (page_remove pd va s) (\<lambda>_. same_env s)"
  unfolding page_remove_def
  by (auto simp: wlp_rules intro!: wlp_weaken [OF page_lookup_state] wlp_weaken [OF page_decref_same])
    (auto simp: same_env_def tlb_invalidate_def)

lemma page_insert_same: "wlp (page_insert pd pp va perm s) (\<lambda>_. same_env s)"
  unfolding page_insert_def
  by (auto simp: wlp_rules intro!: wlp_weaken [OF pgdir_walk_same] wlp_weaken [OF page_remove_same])
    (auto simp: same_env_def wr_word_def upd_page_def)

lemmas page_ops_same = page_alloc_same page_free_same page_decref_same pgdir_walk_same
  page_remove_same page_insert_same

section \<open>Freeing refines dropping an address space\<close>

lemma PTX_all: "Suc (unat (PTX (- 1))) = NPTENTRIES"
  by (simp add: unat_PTX NPTENTRIES_def unsigned_minus_1_eq_mask mask_eq_exp_minus_1)

text \<open>
  References given back: frame \<open>f\<close> has lost \<open>c f\<close> of them, and the frames that lost their last one
  are the new ones on the free list.
\<close>

definition gives_back :: "kstate \<Rightarrow> kstate \<Rightarrow> nat list \<Rightarrow> nat list \<Rightarrow> (nat \<Rightarrow> nat) \<Rightarrow> bool" where
  "gives_back s t xs ys c \<longleftrightarrow> (\<forall>f. unat (pp_ref (pages t f)) + c f = unat (pp_ref (pages s f))) \<and>
     set ys = set xs \<union> {f. 0 < c f \<and> unat (pp_ref (pages s f)) = c f}"

lemma gives_back_refl: "pages t = pages s \<Longrightarrow> gives_back s t xs xs (\<lambda>_. 0)"
  by (simp add: gives_back_def)

lemma given_twice:
  fixes c d r s t :: nat
  assumes "t + c = s" "r + d = t"
  shows "0 < c \<and> s = c \<or> 0 < d \<and> t = d \<longleftrightarrow> 0 < c + d \<and> s = c + d"
  using assms by auto

lemma gives_back_trans:
  assumes "gives_back s t xs ys c" "gives_back t u ys zs d"
  shows "gives_back s u xs zs (\<lambda>f. c f + d f)"
proof -
  from assms have e: "\<And>f. unat (pp_ref (pages t f)) + c f = unat (pp_ref (pages s f))"
    "\<And>f. unat (pp_ref (pages u f)) + d f = unat (pp_ref (pages t f))"
    by (simp_all add: gives_back_def)
  have "set zs = set xs \<union> {f. 0 < c f \<and> unat (pp_ref (pages s f)) = c f} \<union>
      {f. 0 < d f \<and> unat (pp_ref (pages t f)) = d f}"
    using assms unfolding gives_back_def by (simp only:)
  also have "\<dots> = set xs \<union> {f. 0 < c f + d f \<and> unat (pp_ref (pages s f)) = c f + d f}"
  proof -
    have "0 < c f \<and> unat (pp_ref (pages s f)) = c f \<or> 0 < d f \<and> unat (pp_ref (pages t f)) = d f \<longleftrightarrow>
        0 < c f + d f \<and> unat (pp_ref (pages s f)) = c f + d f" for f
      by (rule given_twice [OF e])
    then show ?thesis by (simp only: Un_assoc Collect_disj_eq [symmetric])
  qed
  finally have "set zs = set xs \<union> {f. 0 < c f + d f \<and> unat (pp_ref (pages s f)) = c f + d f}" .
  moreover have "unat (pp_ref (pages u f)) + (c f + d f) = unat (pp_ref (pages s f))" for f
    using e(1) [of f] e(2) [of f] by linarith
  ultimately show ?thesis unfolding gives_back_def by (intro conjI allI)
qed

lemma gives_back_dropped:
  assumes "pp_ref (pages s f) \<noteq> 0" "pages u = pages s" "pages t = pages (dropped f u)"
  shows "gives_back s t xs (dropped_list f s xs) (\<lambda>g. if g = f then 1 else 0)"
proof -
  have "unat (pp_ref (pages s f) - 1) + 1 = unat (pp_ref (pages s f))"
    using assms(1) by (simp add: unat_minus_one word_neq_0_conv unat_gt_0)
  moreover have "unat (pp_ref (pages s f)) = 1 \<longleftrightarrow> pp_ref (pages s f) = 1"
    by (metis unat_1 word_unat_eq_iff)
  ultimately show ?thesis using assms(2,3) by (auto simp: gives_back_def dropped_list_def)
qed

text \<open>The references an address space has to a frame: its mappings, its page tables, its directory.\<close>

definition pte_refs :: "kstate \<Rightarrow> nat \<Rightarrow> nat \<Rightarrow> nat \<Rightarrow> nat \<Rightarrow> nat" where
  "pte_refs s pd i j f = (if \<exists>fl. uspace s pd (i, j) = Some (f, fl) then 1 else 0)"

definition pde_refs :: "kstate \<Rightarrow> nat \<Rightarrow> nat \<Rightarrow> nat \<Rightarrow> nat" where
  "pde_refs s pd i f = (\<Sum>j<NPTENTRIES. pte_refs s pd i j f) + (if has_tbl s pd i \<and> tbl s pd i = f then 1 else 0)"

definition frame_refs :: "kstate \<Rightarrow> nat \<Rightarrow> nat \<Rightarrow> nat" where
  "frame_refs s pd f = card {v. \<exists>fl. uspace s pd v = Some (f, fl)} +
     card {i. i < NUSER \<and> has_tbl s pd i \<and> tbl s pd i = f} + (if f = pd then 1 else 0)"

lemma frame_refs_sum: "frame_refs s pd f = (\<Sum>i<NUSER. pde_refs s pd i f) + (if f = pd then 1 else 0)"
proof -
  have "{v. \<exists>fl. uspace s pd v = Some (f, fl)} =
      (SIGMA i:{..<NUSER}. {j\<in>{..<NPTENTRIES}. \<exists>fl. uspace s pd (i, j) = Some (f, fl)})"
    using uspace_out [of _ _ s pd] by (auto simp: not_le [symmetric])
  then have "card {v. \<exists>fl. uspace s pd v = Some (f, fl)} = (\<Sum>i<NUSER. \<Sum>j<NPTENTRIES. pte_refs s pd i j f)"
    by (simp add: pte_refs_def sum.If_cases Int_def)
  moreover have "card {i. i < NUSER \<and> has_tbl s pd i \<and> tbl s pd i = f} =
      (\<Sum>i<NUSER. if has_tbl s pd i \<and> tbl s pd i = f then 1 else 0)"
    by (simp add: sum.If_cases Int_def)
  ultimately show ?thesis by (simp add: frame_refs_def pde_refs_def sum.distrib)
qed

lemma env_free_pte_ok:
  assumes ok: "vm_ok s xs A" and sl: "(pd, i) \<in> slots s A" and j: "j < NPTENTRIES"
  shows "\<exists>t ys. env_free_pte pd (tbl s pd i) i j s = Ret () t \<and> vm_ok t ys A \<and>
    slots t A = slots s A \<and> tbl t pd = tbl s pd \<and> kmem t pd = kmem s pd \<and>
    uspace t pd = (uspace s pd)((i, j) := None) \<and> pp_ref (pages t pd) = pp_ref (pages s pd) \<and>
    (\<forall>q\<in>A. q \<noteq> pd \<longrightarrow> uspace t q = uspace s q) \<and> (\<forall>q\<in>A. kmem t q = kmem s q) \<and>
    (\<forall>g. reserved s A g \<longrightarrow> reserved t A g \<and> pages t g = pages s g) \<and>
    gives_back s t xs ys (pte_refs s pd i j)"
proof -
  from sl have pd: "pd \<in> A" and i: "i < NUSER" and h: "has_tbl s pd i" by (auto simp: slots_def)
  note va = vpn_PGADDR [OF i j]
  let ?va = "PGADDR (of_nat i) (of_nat j) 0"
  have e: "unat (PDX ?va) = i" "unat (PTX ?va) = j" using va(1) by (auto simp: vpn_def)
  show ?thesis
  proof (cases "uspace s pd (i, j)")
    case None
    then have "pte s pd i j AND PTE_P = 0"
      using h by (auto simp: uspace_in i j amap_def split: if_splits)
    then have "env_free_pte pd (tbl s pd i) i j s = Ret () s" by (simp add: env_free_pte_def pte_def)
    moreover have "pte_refs s pd i j = (\<lambda>_. 0)" using None by (simp add: pte_refs_def fun_eq_iff)
    ultimately show ?thesis using None ok gives_back_refl [of s s xs] by (intro exI [of _ s] exI [of _ xs]) auto
  next
    case (Some m)
    obtain f fl where m: "uspace s pd (vpn ?va) = Some (f, fl)" using Some va(1) by (cases m) auto
    note v = vpn_slot [OF ok pd va(2) m, unfolded e]
    note r = page_remove_mapped [OF ok pd va(2) m, unfolded e va(1)]
    let ?t = "tlb_invalidate pd ?va (dropped f (wr_word (tbl s pd i) j 0 s))"
    have "pte s pd i j AND PTE_P \<noteq> 0" using vm_pte [OF ok sl j v(2)] by simp
    then have "env_free_pte pd (tbl s pd i) i j s = page_remove pd ?va s"
      by (simp add: env_free_pte_def pte_def)
    moreover have "\<forall>q\<in>A. kmem ?t q = kmem s q"
      using wr_pte_dirs [OF ok sl] by simp
    moreover have "f \<noteq> pd" using v(6) structuralI(1) [OF pd] by auto
    moreover have "pte_refs s pd i j = (\<lambda>g. if g = f then 1 else 0)"
      using m va(1) by (auto simp: pte_refs_def fun_eq_iff)
    moreover have "gives_back s ?t xs (dropped_list f s xs) (\<lambda>g. if g = f then 1 else 0)"
      by (rule gives_back_dropped [OF v(7), of "wr_word (tbl s pd i) j 0 s"]) simp_all
    moreover have "reserved ?t A g \<and> pages ?t g = pages s g" if g: "reserved s A g" for g
    proof -
      have "g \<noteq> f" using reservedD(2) [OF g pd] Some m va(1) by auto
      moreover have "uspace ?t q \<subseteq>\<^sub>m uspace s q" if "q \<in> A" for q
        unfolding r(7) [OF that] by (auto simp: map_le_def)
      then have "reserved ?t A g" by (intro reserved_mono [OF g]) (simp_all only: r(4) order_refl)
      ultimately show ?thesis by simp
    qed
    ultimately show ?thesis
      using r(1,2,3,8) r(5) [OF pd] r(7) pd
      by (intro exI [of _ ?t] exI [of _ "dropped_list f s xs"] conjI) (assumption | simp)+
  qed
qed

lemma env_free_pde_ok:
  assumes ok: "vm_ok s xs A" and pd: "pd \<in> A" and i: "i < NUSER"
  shows "\<exists>t ys. env_free_pde pd i s = Ret () t \<and> vm_ok t ys A \<and>
    slots t A = slots s A - {(pd, i)} \<and> pp_ref (pages t pd) = pp_ref (pages s pd) \<and>
    (\<forall>q\<in>A. q \<noteq> pd \<longrightarrow> uspace t q = uspace s q \<and> kmem t q = kmem s q) \<and>
    (\<forall>g. reserved s A g \<longrightarrow> reserved t A g \<and> pages t g = pages s g) \<and>
    gives_back s t xs ys (pde_refs s pd i) \<and>
    (\<forall>k. k \<noteq> i \<longrightarrow> kmem t pd k = kmem s pd k \<and> (\<forall>j. uspace t pd (k, j) = uspace s pd (k, j)))"
proof (cases "has_tbl s pd i")
  case False
  then have "pte_refs s pd i j = (\<lambda>_. 0)" if "j < NPTENTRIES" for j
    using that by (simp add: pte_refs_def uspace_in i amap_def fun_eq_iff)
  then have "pde_refs s pd i = (\<lambda>_. 0)" using False by (simp add: pde_refs_def fun_eq_iff)
  moreover have "env_free_pde pd i s = Ret () s" "slots s A = slots s A - {(pd, i)}"
    using False by (auto simp: env_free_pde_def has_tbl_def slots_def)
  ultimately show ?thesis using ok gives_back_refl [of s s xs]
    by (intro exI [of _ s] exI [of _ xs]) auto
next
  case True
  with pd i have sl: "(pd, i) \<in> slots s A" by (simp add: slots_def)
  let ?f = "tbl s pd i"
  let ?P = "\<lambda>n u. (\<exists>ys. vm_ok u ys A \<and> gives_back s u xs ys (\<lambda>f. \<Sum>j<n. pte_refs s pd i j f)) \<and>
      slots u A = slots s A \<and> tbl u pd = tbl s pd \<and>
      kmem u pd = kmem s pd \<and> pp_ref (pages u pd) = pp_ref (pages s pd) \<and> (\<forall>l<n. uspace u pd (i, l) = None) \<and>
      (\<forall>k l. k \<noteq> i \<or> n \<le> l \<longrightarrow> uspace u pd (k, l) = uspace s pd (k, l)) \<and>
      (\<forall>q\<in>A. q \<noteq> pd \<longrightarrow> uspace u q = uspace s q) \<and> (\<forall>q\<in>A. kmem u q = kmem s q) \<and>
      (\<forall>g. reserved s A g \<longrightarrow> reserved u A g \<and> pages u g = pages s g)"
  have "\<exists>u. forO (env_free_pte pd ?f i) [0..<NPTENTRIES] s = Ret () u \<and> ?P (length [0..<NPTENTRIES]) u"
  proof (rule forO_invariant)
    show "?P 0 s" using ok gives_back_refl [of s s xs] by auto
    fix n u assume n: "n < length [0..<NPTENTRIES]" and P: "?P n u"
    then obtain ys where u: "vm_ok u ys A" "gives_back s u xs ys (\<lambda>f. \<Sum>j<n. pte_refs s pd i j f)" by auto
    from P sl n have h: "(pd, i) \<in> slots u A" "n < NPTENTRIES" "tbl u pd i = ?f" by auto
    from env_free_pte_ok [OF u(1) h(1,2)] h(3) obtain t zs where
      t: "env_free_pte pd ?f i n u = Ret () t" "vm_ok t zs A" "slots t A = slots u A" "tbl t pd = tbl u pd"
        "kmem t pd = kmem u pd" "uspace t pd = (uspace u pd)((i, n) := None)"
        "pp_ref (pages t pd) = pp_ref (pages u pd)" "\<forall>q\<in>A. q \<noteq> pd \<longrightarrow> uspace t q = uspace u q"
        "\<forall>q\<in>A. kmem t q = kmem u q" "\<forall>g. reserved u A g \<longrightarrow> reserved t A g \<and> pages t g = pages u g"
        "gives_back u t ys zs (pte_refs u pd i n)" by auto
    have "pte_refs u pd i n = pte_refs s pd i n" using P by (simp add: pte_refs_def fun_eq_iff)
    then have "gives_back s t xs zs (\<lambda>f. \<Sum>j<Suc n. pte_refs s pd i j f)"
      using gives_back_trans [OF u(2) t(11)] by simp
    with t P n show "\<exists>t. env_free_pte pd ?f i ([0..<NPTENTRIES] ! n) u = Ret () t \<and> ?P (Suc n) t"
      by (intro exI [of _ t] conjI exI [of _ zs]) (auto simp: less_Suc_eq)
  qed
  then obtain u ys where u: "forO (env_free_pte pd ?f i) [0..<NPTENTRIES] s = Ret () u" "vm_ok u ys A"
    "slots u A = slots s A" "tbl u pd = tbl s pd" "kmem u pd = kmem s pd"
    "pp_ref (pages u pd) = pp_ref (pages s pd)"
    "\<And>l. l < NPTENTRIES \<Longrightarrow> uspace u pd (i, l) = None"
    "\<And>q. q \<in> A \<Longrightarrow> q \<noteq> pd \<Longrightarrow> uspace u q = uspace s q"
    "\<And>g. reserved s A g \<Longrightarrow> reserved u A g \<and> pages u g = pages s g"
    "\<And>q. q \<in> A \<Longrightarrow> kmem u q = kmem s q"
    "gives_back s u xs ys (\<lambda>f. \<Sum>j<NPTENTRIES. pte_refs s pd i j f)"
    "\<And>k l. k \<noteq> i \<Longrightarrow> uspace u pd (k, l) = uspace s pd (k, l)" by auto
  from sl u(3) have slu: "(pd, i) \<in> slots u A" by simp
  note d = vm_ok_drop_tbl [OF u(2) slu u(7), unfolded u(4)]
  have "?f \<noteq> pd" using vm_tbl_notin [OF ok sl] pd by auto
  then have ref: "pp_ref (pages (dropped ?f (wr_word pd i 0 u)) pd) = pp_ref (pages s pd)"
    using u(6) by simp
  let ?e = "kmem s pd i"
  have fs: "?f < npages s" "?f < npages u"
    using vm_struct [OF ok structuralI(2) [OF sl]] vm_struct [OF u(2) structuralI(2) [OF slu]] u(4)
    by auto
  have "kaddr (PTE_ADDR ?e) s = Ret (PTE_ADDR ?e + KERNBASE) s"
    using fs(1) by (simp add: kaddr_def tbl_def frame_of_def)
  moreover have "kva_frame (PTE_ADDR ?e + KERNBASE) = ?f"
    by (simp add: kva_frame_kaddr tbl_def frame_of_def)
  moreover have "pa2page (PTE_ADDR ?e) (wr_word pd i 0 u) = Ret ?f (wr_word pd i 0 u)"
    using pa2page_frame [of ?e "wr_word pd i 0 u"] fs(2) by (simp add: tbl_def)
  ultimately have "env_free_pde pd i s = Ret () (dropped ?f (wr_word pd i 0 u))"
    using True u(1) d(1) by (simp add: env_free_pde_def has_tbl_def Let_def PTX_all del: upt_Suc)
  moreover have "reserved (dropped ?f (wr_word pd i 0 u)) A g \<and>
      pages (dropped ?f (wr_word pd i 0 u)) g = pages s g" if g: "reserved s A g" for g
  proof -
    have "g \<noteq> ?f" using reservedD(1) [OF g] structuralI(2) [OF sl] by auto
    moreover have "reserved (dropped ?f (wr_word pd i 0 u)) A g"
      by (rule reserved_mono [of u A g]) (use u(9) [OF g] d(4,5) in auto)
    ultimately show ?thesis using u(9) [OF g] by simp
  qed
  moreover have "kmem (dropped ?f (wr_word pd i 0 u)) q = kmem s q" if "q \<in> A" "q \<noteq> pd" for q
    using u(10) [OF that(1)] that(2) by (simp add: fun_eq_iff)
  moreover have "gives_back s (dropped ?f (wr_word pd i 0 u)) xs (dropped_list ?f u ys) (pde_refs s pd i)"
  proof -
    have "pp_ref (pages u ?f) \<noteq> 0" using vm_struct [OF u(2) structuralI(2) [OF slu]] u(4) by simp
    from gives_back_trans [OF u(11) gives_back_dropped [OF this, of "wr_word pd i 0 u"]]
    have "gives_back s (dropped ?f (wr_word pd i 0 u)) xs (dropped_list ?f u ys)
      (\<lambda>f. (\<Sum>j<NPTENTRIES. pte_refs s pd i j f) + (if f = ?f then 1 else 0))" by simp
    moreover have "pde_refs s pd i = (\<lambda>f. (\<Sum>j<NPTENTRIES. pte_refs s pd i j f) + (if f = ?f then 1 else 0))"
      using True by (auto simp: pde_refs_def fun_eq_iff)
    ultimately show ?thesis by simp
  qed
  moreover have "kmem (dropped ?f (wr_word pd i 0 u)) pd k = kmem s pd k" if "k \<noteq> i" for k
    using that u(5) by simp
  moreover have "uspace (dropped ?f (wr_word pd i 0 u)) pd (k, j) = uspace s pd (k, j)" if "k \<noteq> i" for k j
    using d(4) pd u(12) [OF that] by simp
  ultimately show ?thesis using d(2-4) u(3,8) ref by (intro exI conjI) (assumption | simp)+
qed

lemma upd_env_frame [kernel_simps, simp]:
  "kmem (upd_env e f s) = kmem s" "pages (upd_env e f s) = pages s"
  "npages (upd_env e f s) = npages s" "page_free_list (upd_env e f s) = page_free_list s"
  "envs (upd_env e f s) i = (if i = e then f (envs s e) else envs s i)"
  "env_free_list (upd_env e f s) = env_free_list s" "cpus (upd_env e f s) = cpus s"
  "this_cpu (upd_env e f s) = this_cpu s" "curenv (upd_env e f s) = curenv s"
  "kern_pgdir (upd_env e f s) = kern_pgdir s" "kernel_lock (upd_env e f s) = kernel_lock s"
  "cr3 (upd_env e f s) = cr3 s" "cons (upd_env e f s) = cons s"
  "tlb_flushes (upd_env e f s) = tlb_flushes s"
  by (simp_all add: upd_env_def curenv_def)

lemma lcr3_frame [kernel_simps, simp]:
  "kmem (lcr3 pd s) = kmem s" "pages (lcr3 pd s) = pages s" "npages (lcr3 pd s) = npages s"
  "page_free_list (lcr3 pd s) = page_free_list s" "envs (lcr3 pd s) = envs s"
  "env_free_list (lcr3 pd s) = env_free_list s" "cpus (lcr3 pd s) = cpus s"
  "this_cpu (lcr3 pd s) = this_cpu s" "curenv (lcr3 pd s) = curenv s"
  "kern_pgdir (lcr3 pd s) = kern_pgdir s" "kernel_lock (lcr3 pd s) = kernel_lock s"
  "cr3 (lcr3 pd s) = pd"
  by (simp_all add: lcr3_def curenv_def)

lemma vm_ok_env [simp]:
  "vm_ok (upd_env e f s) xs A = vm_ok s xs A" "vm_ok (lcr3 pd s) xs A = vm_ok s xs A"
  "vm_ok (s\<lparr>env_free_list := l\<rparr>) xs A = vm_ok s xs A"
  by (rule vm_ok_cong; simp)+

lemma uspace_env [simp]:
  "uspace (upd_env e f s) = uspace s" "uspace (lcr3 pd s) = uspace s"
  "uspace (s\<lparr>env_free_list := l\<rparr>) = uspace s"
  by (rule uspace_kmem_cong; simp)+

text \<open>No page operation of the loop touches the environments.\<close>

lemma forO_wlp:
  assumes "\<And>x s. wlp (f x s) (\<lambda>_. R s)" "\<And>s. R s s" "\<And>s t u. R s t \<Longrightarrow> R t u \<Longrightarrow> R s u"
  shows "wlp (forO f xs s) (\<lambda>_. R s)"
  unfolding wlp_def
proof (intro allI impI)
  fix a t assume "forO f xs s = Ret a t"
  then show "R s t"
    by (intro forO_rel [of xs f R s t]) (use assms in \<open>auto simp: wlp_def\<close>)
qed

lemma env_free_pde_same: "wlp (env_free_pde pd i s) (\<lambda>_. same_env s)"
proof -
  have l: "wlp (forO (env_free_pte pd p i) xs s) (\<lambda>_. same_env s)" for p xs s
    by (rule forO_wlp [OF _ same_env_refl same_env_trans])
      (auto simp: env_free_pte_def intro: page_remove_same)
  show ?thesis
    unfolding env_free_pde_def
    by (auto simp: wlp_rules intro!: wlp_weaken [OF kaddr_wlp] wlp_weaken [OF l] wlp_weaken [OF pa2page_wlp]
        wlp_weaken [OF page_decref_same]) (auto simp: same_env_def)
qed

lemma env_free_loop_same: "wlp (forO (env_free_pde pd) xs s) (\<lambda>_. same_env s)"
  by (rule forO_wlp [OF env_free_pde_same same_env_refl same_env_trans])

lemma env_free_ok:
  assumes ok: "vm_ok s xs A" and pd: "pd \<in> A" and e: "env_pgdir (envs s e) = Some pd"
  shows "\<exists>t ys. env_free e s = Ret () t \<and> vm_ok t ys (A - {pd}) \<and>
    (\<forall>q\<in>A - {pd}. uspace t q = uspace s q) \<and> (\<forall>q\<in>A - {pd}. kmem t q = kmem s q) \<and>
    envs t = (envs s)(e := (envs s e)\<lparr>env_pgdir := None, env_status := ENV_FREE,
      env_link := env_free_list s\<rparr>) \<and>
    env_free_list t = Some e \<and> curenv t = curenv s \<and> cpus t = cpus s \<and> this_cpu t = this_cpu s \<and>
    kernel_lock t = kernel_lock s \<and> (pp_ref (pages s pd) = 1 \<longrightarrow> pd \<in> set ys) \<and>
    (curenv s = Some e \<longrightarrow> cr3 t = kern_pgdir s) \<and> (curenv s \<noteq> Some e \<longrightarrow> cr3 t = cr3 s) \<and>
    (\<forall>g. reserved s A g \<longrightarrow> reserved t (A - {pd}) g \<and> pages t g = pages s g) \<and>
    gives_back s t xs ys (frame_refs s pd)"
proof -
  define s0 where "s0 = (if curenv s = Some e then lcr3 (kern_pgdir s) s else s)"
  have ok0: "vm_ok s0 xs A" and us0: "uspace s0 = uspace s" and pg0: "pages s0 = pages s"
    and km0: "kmem s0 = kmem s" using ok by (auto simp: s0_def)
  have rs0: "reserved s0 A g = reserved s A g" for g by (simp add: reserved_def us0 vm_kmem_cong [OF km0])
  let ?P = "\<lambda>n u. (\<exists>ys. vm_ok u ys A \<and> gives_back s u xs ys (\<lambda>f. \<Sum>i<n. pde_refs s pd i f)) \<and>
      (\<forall>i<n. (pd, i) \<notin> slots u A) \<and>
      (\<forall>k. n \<le> k \<longrightarrow> kmem u pd k = kmem s pd k \<and> (\<forall>j. uspace u pd (k, j) = uspace s pd (k, j))) \<and>
      pp_ref (pages u pd) = pp_ref (pages s pd) \<and> (\<forall>q\<in>A. q \<noteq> pd \<longrightarrow> uspace u q = uspace s q \<and> kmem u q = kmem s q) \<and>
      (\<forall>g. reserved s A g \<longrightarrow> reserved u A g \<and> pages u g = pages s g)"
  have "\<exists>u. forO (env_free_pde pd) [0..<NUSER] s0 = Ret () u \<and> ?P (length [0..<NUSER]) u"
  proof (rule forO_invariant)
    show "?P 0 s0" using ok0 us0 pg0 rs0 km0 gives_back_refl [of s0 s xs] by auto
    fix n u assume n: "n < length [0..<NUSER]" and P: "?P n u"
    then obtain ys where u: "vm_ok u ys A" "gives_back s u xs ys (\<lambda>f. \<Sum>i<n. pde_refs s pd i f)" by auto
    from n have "n < NUSER" by simp
    from env_free_pde_ok [OF u(1) pd this] obtain t zs where
      t: "env_free_pde pd n u = Ret () t" "vm_ok t zs A" "slots t A = slots u A - {(pd, n)}"
        "pp_ref (pages t pd) = pp_ref (pages u pd)"
        "\<forall>q\<in>A. q \<noteq> pd \<longrightarrow> uspace t q = uspace u q \<and> kmem t q = kmem u q"
        "\<forall>g. reserved u A g \<longrightarrow> reserved t A g \<and> pages t g = pages u g"
        "gives_back u t ys zs (pde_refs u pd n)"
        "\<forall>k. k \<noteq> n \<longrightarrow> kmem t pd k = kmem u pd k \<and> (\<forall>j. uspace t pd (k, j) = uspace u pd (k, j))" by auto
    have "pde_refs u pd n = pde_refs s pd n"
      using P by (simp add: pde_refs_def pte_refs_def has_tbl_def tbl_def fun_eq_iff)
    then have "gives_back s t xs zs (\<lambda>f. \<Sum>i<Suc n. pde_refs s pd i f)"
      using gives_back_trans [OF u(2) t(7)] by simp
    with t P n show "\<exists>t. env_free_pde pd ([0..<NUSER] ! n) u = Ret () t \<and> ?P (Suc n) t"
      by (intro exI [of _ t] conjI exI [of _ zs]) (auto simp: less_Suc_eq)
  qed
  then obtain u ys where l: "forO (env_free_pde pd) [0..<NUSER] s0 = Ret () u" "vm_ok u ys A"
    "\<And>i. i < NUSER \<Longrightarrow> (pd, i) \<notin> slots u A" "pp_ref (pages u pd) = pp_ref (pages s pd)"
    "\<And>q. q \<in> A \<Longrightarrow> q \<noteq> pd \<Longrightarrow> uspace u q = uspace s q"
    "\<And>g. reserved s A g \<Longrightarrow> reserved u A g \<and> pages u g = pages s g"
    "\<And>q. q \<in> A \<Longrightarrow> q \<noteq> pd \<Longrightarrow> kmem u q = kmem s q"
    "gives_back s u xs ys (\<lambda>f. \<Sum>i<NUSER. pde_refs s pd i f)" by auto
  have se: "same_env s0 u" using wlpD [OF env_free_loop_same l(1)] .
  then have fr: "envs u = envs s" "env_free_list u = env_free_list s" "curenv u = curenv s"
    "cpus u = cpus s" "this_cpu u = this_cpu s" "kernel_lock u = kernel_lock s" "cr3 u = cr3 s0"
    using same_env_curenv [OF se] by (auto simp: same_env_def s0_def)
  let ?v = "upd_env e (\<lambda>v. v\<lparr>env_pgdir := None\<rparr>) u"
  have okv: "vm_ok ?v ys A" using l(2) by simp
  have k: "kmem ?v = kmem u" by simp
  have slv: "slots ?v A = slots u A" by (rule vm_kmem_cong(5) [OF k])
  note d = vm_ok_drop_pd [OF okv pd, unfolded slv, OF l(3)]
  have np: "pd < npages u" using vm_struct [OF l(2) structuralI(1) [OF pd]] by simp
  have "npages u \<le> 2 ^ 20" using free_pages_ok_npages [OF vm_free [OF l(2)]] .
  with np have p: "pa2page (page2pa pd) ?v = Ret pd ?v" by (simp add: pa2page_def PGNUM_page2pa)
  have sd: "same_env ?v (dropped pd ?v)" by (rule wlpD [OF page_decref_same d(1)])
  let ?w = "dropped pd ?v"
  let ?t = "(upd_env e (\<lambda>v. v\<lparr>env_status := ENV_FREE, env_link := env_free_list ?w\<rparr>) ?w)
      \<lparr>env_free_list := Some e\<rparr>"
  have NU: "unat (PDX UTOP) = NUSER" by (simp add: NUSER_def)
  have e0: "env_pgdir (envs s0 e) = Some pd" using e by (simp add: s0_def)
  have "env_free e s = Ret () ?t"
    unfolding env_free_def Let_def s0_def [symmetric] NU by (simp add: e0 l(1) p d(1))
  moreover have "vm_ok ?t (dropped_list pd ?v ys) (A - {pd})" using d(2) by simp
  moreover have "\<forall>q\<in>A - {pd}. uspace ?t q = uspace s q" using d(3) l(5) by simp
  moreover have "\<forall>q\<in>A - {pd}. kmem ?t q = kmem s q" using l(7) by simp
  moreover have "envs ?t = (envs s)(e := (envs s e)\<lparr>env_pgdir := None, env_status := ENV_FREE,
      env_link := env_free_list s\<rparr>)"
    using sd fr by (auto simp: same_env_def fun_eq_iff)
  moreover have "curenv ?t = curenv s" "cpus ?t = cpus s" "this_cpu ?t = this_cpu s"
    "kernel_lock ?t = kernel_lock s" "cr3 ?t = cr3 s0"
    using same_env_curenv [OF sd] sd fr by (auto simp: same_env_def curenv_def)
  moreover have "pp_ref (pages s pd) = 1 \<longrightarrow> pd \<in> set (dropped_list pd ?v ys)"
    using l(4) by (simp add: dropped_list_def)
  moreover have "\<forall>g. reserved s A g \<longrightarrow> reserved ?t (A - {pd}) g \<and> pages ?t g = pages s g"
  proof (intro allI impI)
    fix g assume g: "reserved s A g"
    have "g \<noteq> pd" using reservedD(1) [OF g] structuralI(1) [OF pd] by auto
    have k: "kmem ?t = kmem u" by simp
    have "structural u (A - {pd}) \<subseteq> structural u A" by (auto simp: structural_def slots_def)
    from reserved_mono [OF conjunct1 [OF l(6) [OF g]] this Diff_subset map_le_refl] have "reserved u (A - {pd}) g" .
    then have "reserved ?t (A - {pd}) g"
      unfolding reserved_def vm_kmem_cong [OF k] uspace_kmem_cong [OF k] .
    then show "reserved ?t (A - {pd}) g \<and> pages ?t g = pages s g" using l(6) [OF g] \<open>g \<noteq> pd\<close> by simp
  qed
  moreover have "curenv s = Some e \<longrightarrow> cr3 ?t = kern_pgdir s" "curenv s \<noteq> Some e \<longrightarrow> cr3 ?t = cr3 s"
    using calculation(10) by (simp_all add: s0_def)
  moreover have "env_free_list ?t = Some e" by simp
  moreover have "gives_back s ?t xs (dropped_list pd ?v ys) (frame_refs s pd)"
  proof -
    have "pp_ref (pages u pd) \<noteq> 0" using vm_struct [OF l(2) structuralI(1) [OF pd]] by simp
    from gives_back_trans [OF l(8) gives_back_dropped [OF this, of ?v ?t]] show ?thesis
      unfolding frame_refs_sum by (simp add: dropped_list_def)
  qed
  ultimately show ?thesis by (intro exI [of _ ?t] exI conjI) assumption+
qed

section \<open>Allocating refines adding an empty address space\<close>

lemma zero_page_frame [kernel_simps, simp]:
  "kmem (zero_page p s) q = (if q = p then (\<lambda>_. 0) else kmem s q)"
  "pages (zero_page p s) = pages s" "npages (zero_page p s) = npages s"
  "page_free_list (zero_page p s) = page_free_list s" "envs (zero_page p s) = envs s"
  "env_free_list (zero_page p s) = env_free_list s" "kern_pgdir (zero_page p s) = kern_pgdir s"
  "cpus (zero_page p s) = cpus s" "this_cpu (zero_page p s) = this_cpu s"
  "curenv (zero_page p s) = curenv s" "kernel_lock (zero_page p s) = kernel_lock s"
  "cr3 (zero_page p s) = cr3 s"
  by (simp_all add: zero_page_def curenv_def)

lemma copy_pdes_kmem:
  "kmem (fold (\<lambda>i s. wr_word pd i (kmem s (kern_pgdir s) i) s) xs s) q k =
    (if q = pd \<and> k \<in> set xs then kmem s (kern_pgdir s) k else kmem s q k)"
  by (induction xs arbitrary: s) auto

lemma copy_pdes_same: "same_env s (fold (\<lambda>i s. wr_word pd i (kmem s (kern_pgdir s) i) s) xs s) \<and>
    pages (fold (\<lambda>i s. wr_word pd i (kmem s (kern_pgdir s) i) s) xs s) = pages s \<and>
    page_free_list (fold (\<lambda>i s. wr_word pd i (kmem s (kern_pgdir s) i) s) xs s) = page_free_list s"
  by (induction xs arbitrary: s) (auto simp: same_env_def)

definition with_pd :: "nat \<Rightarrow> nat \<Rightarrow> kstate \<Rightarrow> kstate" where
  "with_pd e p s =
     (let s = upd_env e (\<lambda>v. v\<lparr>env_pgdir := Some p\<rparr>) (popped 1 p s);
          s = copy_kern_pdes p (zero_page p s);
          s = upd_page p (\<lambda>i. i\<lparr>pp_ref := pp_ref i + 1\<rparr>) s
      in wr_word p (unat (PDX UVPT)) ((page2pa p OR PTE_P) OR PTE_U) s)"

lemma env_setup_vm_eq:
  assumes "free_pages_ok s xs"
  shows "env_setup_vm e s = (case xs of [] \<Rightarrow> Ret (- E_NO_MEM) s | p # ps \<Rightarrow> Ret 0 (with_pd e p s))"
proof (cases xs)
  case Nil
  with assms page_alloc_Nil show ?thesis by (simp add: env_setup_vm_def)
next
  case (Cons p ps)
  with assms have fr: "free_pages_ok s (p # ps)" by simp
  then have p: "p < npages s" "p < 2 ^ 20" "npages s \<le> 2 ^ 16" by (auto simp: free_pages_ok_def)
  have kv: "page2kva p (popped ALLOC_ZERO p s) = Ret (page2pa p + KERNBASE) (popped ALLOC_ZERO p s)"
    "kva_frame (page2pa p + KERNBASE) = p"
    using page2kva_frame [of p "popped ALLOC_ZERO p s"] p by auto
  have "unat (page2pa p) + unat KERNBASE < 2 ^ 32"
    using p by (simp add: unat_page2pa KERNBASE_def)
  then have "\<not> page2pa p + KERNBASE < KERNBASE"
    by (simp add: word_less_nat_alt unat_add_lem [THEN iffD1])
  then have pa: "paddr (page2pa p + KERNBASE) u = Ret (page2pa p) u" for u by (simp add: paddr_def)
  show ?thesis
    using Cons kv pa page_alloc_Cons [OF fr, of ALLOC_ZERO]
    by (simp add: env_setup_vm_def with_pd_def Let_def ALLOC_ZERO_def)
qed

lemma with_pd_view:
  assumes "pp_ref (pages s p) = 0"
  shows "q \<noteq> p \<Longrightarrow> kmem (with_pd e p s) q = kmem s q" "i < NUSER \<Longrightarrow> kmem (with_pd e p s) p i = 0"
    "npages (with_pd e p s) = npages s" "q \<noteq> p \<Longrightarrow> pages (with_pd e p s) q = pages s q"
    "pp_ref (pages (with_pd e p s) p) = 1" "pp_link (pages (with_pd e p s) p) = None"
    "page_free_list (with_pd e p s) = pp_link (pages s p)"
    "envs (with_pd e p s) = (envs s)(e := (envs s e)\<lparr>env_pgdir := Some p\<rparr>)"
    "env_free_list (with_pd e p s) = env_free_list s" "curenv (with_pd e p s) = curenv s"
    "kern_pgdir s \<noteq> p \<Longrightarrow> NUSER \<le> i \<Longrightarrow> i < NPDENTRIES \<Longrightarrow> i \<noteq> unat (PDX UVPT) \<Longrightarrow>
      kmem (with_pd e p s) p i = kmem s (kern_pgdir s) i"
    "kmem (with_pd e p s) p (unat (PDX UVPT)) = (page2pa p OR PTE_P) OR PTE_U"
proof -
  let ?u = "zero_page p (upd_env e (\<lambda>v. v\<lparr>env_pgdir := Some p\<rparr>) (popped 1 p s))"
  note c = copy_pdes_same [of ?u p "[unat (PDX UTOP)..<NPDENTRIES]"]
  note m = copy_pdes_kmem
  have U: "unat (PDX UTOP) = NUSER" by (simp add: NUSER_def)
  have V: "\<not> unat (PDX UVPT) < NUSER" by (simp add: NUSER_eq unat_PDX layout_values)
  from c show "npages (with_pd e p s) = npages s"
    "page_free_list (with_pd e p s) = pp_link (pages s p)"
    "env_free_list (with_pd e p s) = env_free_list s"
    "envs (with_pd e p s) = (envs s)(e := (envs s e)\<lparr>env_pgdir := Some p\<rparr>)"
    by (auto simp: with_pd_def copy_kern_pdes_def Let_def same_env_def)
  show "curenv (with_pd e p s) = curenv s"
    using same_env_curenv [OF conjunct1 [OF c]]
    by (simp add: with_pd_def copy_kern_pdes_def Let_def)
  from c assms show "pp_ref (pages (with_pd e p s) p) = 1" "pp_link (pages (with_pd e p s) p) = None"
    "q \<noteq> p \<Longrightarrow> pages (with_pd e p s) q = pages s q"
    by (auto simp: with_pd_def copy_kern_pdes_def Let_def)
  show "q \<noteq> p \<Longrightarrow> kmem (with_pd e p s) q = kmem s q"
    by (auto simp: with_pd_def copy_kern_pdes_def Let_def m fun_eq_iff)
  show "i < NUSER \<Longrightarrow> kmem (with_pd e p s) p i = 0" using V
    by (auto simp: with_pd_def copy_kern_pdes_def Let_def m U)
  show "kern_pgdir s \<noteq> p \<Longrightarrow> NUSER \<le> i \<Longrightarrow> i < NPDENTRIES \<Longrightarrow> i \<noteq> unat (PDX UVPT) \<Longrightarrow>
      kmem (with_pd e p s) p i = kmem s (kern_pgdir s) i"
    by (simp add: with_pd_def copy_kern_pdes_def Let_def m U)
  show "kmem (with_pd e p s) p (unat (PDX UVPT)) = (page2pa p OR PTE_P) OR PTE_U"
    by (simp add: with_pd_def Let_def)
qed

lemma with_pd_ok:
  assumes ok: "vm_ok s (p # ps) A"
  shows "vm_ok (with_pd e p s) ps (insert p A)" "uspace (with_pd e p s) p = Map.empty"
    "q \<in> A \<Longrightarrow> uspace (with_pd e p s) q = uspace s q"
proof -
  from vm_free [OF ok] have z: "pp_ref (pages s p) = 0" by (simp add: free_pages_ok_def)
  note v = with_pd_view [OF z, where e = e]
  have fr: "free_pages_ok (with_pd e p s) ps"
  proof -
    have "p \<notin> set ps" using free_pages_ok_distinct [OF vm_free [OF ok]] by simp
    then have r: "pp_ref (pages (with_pd e p s) q) = pp_ref (pages (popped 1 p s) q)" if "q \<in> set ps" for q
    proof -
      have "q \<noteq> p" using \<open>p \<notin> set ps\<close> that by auto
      then show ?thesis using v(4) [of q] by simp
    qed
    have l: "pp_link (pages (with_pd e p s) q) = pp_link (pages (popped 1 p s) q)" for q
      using v(4) [of q] v(6) by (cases "q = p") auto
    show ?thesis
      using free_pages_ok_popped [OF vm_free [OF ok], of 1] v(3,7) r l
      by (subst free_pages_ok_cong [of _ "popped 1 p s"]) auto
  qed
  have "pp_ref (pages (with_pd e p s) p) \<noteq> 0" using v(5) by simp
  note n = vm_ok_new_pd [OF ok v(1) v(2) v(3) fr v(4) this]
  show "vm_ok (with_pd e p s) ps (insert p A)" "uspace (with_pd e p s) p = Map.empty"
    "q \<in> A \<Longrightarrow> uspace (with_pd e p s) q = uspace s q" using n by simp_all
qed

section \<open>Environment identifiers\<close>

lemma sle_0: "(g :: u32) \<le>s 0 \<longleftrightarrow> g = 0 \<or> bit g 31"
proof -
  have "sint g = 0 \<longleftrightarrow> g = 0" by (metis signed_0 signed_word_eqI)
  then show ?thesis using bit_last_iff [of g] by (auto simp: word_sle_eq)
qed

lemma index_mask: "(of_nat NENV - 1 :: u32) = mask 10"
  by (simp add: NENV_def LOG2NENV_def mask_eq_exp_minus_1)

lemma and_not_mask_sub: "(x :: u32) AND NOT (mask 10) = x - take_bit 10 x"
proof -
  have "x = (x AND NOT (mask 10)) + take_bit 10 x"
    by (subst disjunctive_add) (auto simp: bit_simps intro!: bit_eqI)
  then show ?thesis by (metis add_diff_cancel_right')
qed

lemma env_generation_cases:
  "env_generation old = 0x1000 \<and> (old + 0x1000 - take_bit 10 old) \<le>s 0 \<or>
   env_generation old = old + 0x1000 - take_bit 10 old \<and> \<not> (old + 0x1000 - take_bit 10 old) \<le>s 0"
proof -
  have "(unat old + 4096) mod 2 ^ 32 mod 2 ^ 10 = (unat old + 4096) mod 2 ^ 10"
    by (rule mod_mod_cancel) simp
  also have "\<dots> = unat old mod 2 ^ 10" using mod_mult_self1 [of "unat old" 4 "2 ^ 10"] by simp
  finally have "unat (old + 0x1000) mod 2 ^ 10 = unat old mod 2 ^ 10"
    by (simp add: unat_word_ariths)
  then have "take_bit 10 (old + 0x1000) = take_bit 10 old"
    by (simp add: word_unat_eq_iff take_bit_eq_mod unat_mod_distrib)
  then show ?thesis
    by (auto simp: env_generation_def Let_def index_mask and_not_mask_sub ENVGENSHIFT_def)
qed

lemma env_id_bits:
  fixes g :: u32
  assumes "take_bit 10 g = 0" "e < NENV"
  shows "take_bit 10 (g OR of_nat e) = of_nat e" "(g OR of_nat e) - take_bit 10 (g OR of_nat e) = g"
    "bit (g OR of_nat e) 31 = bit g 31"
proof -
  have e: "unat (of_nat e :: u32) = e" using assms(2)
    by (simp add: NENV_def LOG2NENV_def unat_of_nat take_bit_eq_mod)
  then have "unat (of_nat e :: u32) < 2 ^ 10" using assms(2) by (simp add: NENV_def LOG2NENV_def)
  then have nb: "\<not> bit (of_nat e :: u32) n" if "10 \<le> n" for n by (rule small_word_no_bit [OF _ that])
  have g: "\<not> bit g n" if "n < 10" for n
    using assms(1) that by (metis bit_0_eq bit_take_bit_iff bot_apply bot_bool_def)
  show t: "take_bit 10 (g OR of_nat e) = of_nat e"
    by (rule bit_eqI) (use nb g in \<open>force simp: bit_take_bit_iff bit_or_iff\<close>)
  have "(g OR of_nat e) - take_bit 10 (g OR of_nat e) = (g OR of_nat e) AND NOT (mask 10)"
    by (rule and_not_mask_sub [symmetric])
  also have "\<dots> = g"
    by (rule bit_eqI) (use nb g in \<open>auto simp: bit_simps dest: bit_imp_le_length not_less [THEN iffD1]\<close>)
  finally show "(g OR of_nat e) - take_bit 10 (g OR of_nat e) = g" .
  show "bit (g OR of_nat e) 31 = bit g 31" using nb [of 31] by (simp add: bit_or_iff)
qed

text \<open>The identifier \<open>env_alloc\<close> gives to slot \<open>e\<close>.\<close>

definition new_env_id :: "u32 \<Rightarrow> nat \<Rightarrow> u32" where
  "new_env_id old e = env_generation old OR of_nat e"

lemma env_generation_low: "take_bit 10 (env_generation old) = 0"
proof -
  have "take_bit 10 (x AND NOT (mask 10)) = (0::u32)" for x
    by (rule bit_eqI) (auto simp: bit_simps)
  then show ?thesis
    by (auto simp: env_generation_def Let_def index_mask ENVGENSHIFT_def)
qed

lemma new_env_id_facts:
  assumes e: "e < NENV"
  shows "ENVX (new_env_id old e) = e" "0 <s new_env_id old e" "new_env_id old e \<noteq> 0"
    "new_env_id old e \<noteq> old"
proof -
  let ?g = "env_generation old" and ?id = "new_env_id old e"
  note b = env_id_bits [OF env_generation_low e, of old, folded new_env_id_def]
  have t: "take_bit 10 old - take_bit 10 old = 0" by simp
  have ng: "\<not> ?g \<le>s 0"
    using env_generation_cases [of old] by (auto simp: sle_0)
  have "unat (of_nat e :: u32) = e" using e
    by (simp add: NENV_def LOG2NENV_def unat_of_nat take_bit_eq_mod)
  then have "unat (take_bit 10 ?id) = e" using b(1) by simp
  then show "ENVX ?id = e" by (simp add: ENVX_mod take_bit_eq_mod unat_mod_distrib)
  show nz: "?id \<noteq> 0"
  proof
    assume "?id = 0"
    with b(2) have "?g = 0" by simp
    with ng show False by (simp add: sle_0)
  qed
  have "\<not> ?id \<le>s 0" using nz ng b(3) by (simp add: sle_0)
  then show "0 <s ?id" by (simp add: word_sless_alt word_sle_eq)
  show "?id \<noteq> old"
  proof
    assume "?id = old"
    with b(2) have g: "old - take_bit 10 old = ?g" by simp
    then have s: "old + 0x1000 - take_bit 10 old = ?g + 0x1000" by (simp add: algebra_simps)
    from env_generation_cases [of old] show False
    proof
      assume "?g = 0x1000 \<and> (old + 0x1000 - take_bit 10 old) \<le>s 0"
      with s have "(0x1000 + 0x1000 :: u32) \<le>s 0" by metis
      then show False by (simp add: sle_0)
    next
      assume "?g = old + 0x1000 - take_bit 10 old \<and> \<not> (old + 0x1000 - take_bit 10 old) \<le>s 0"
      with s have "?g = ?g + 0x1000" by simp
      then show False by simp
    qed
  qed
qed

section \<open>The free list of environments\<close>

definition same_links :: "kstate \<Rightarrow> kstate \<Rightarrow> bool" where
  "same_links s t \<longleftrightarrow> env_free_list t = env_free_list s \<and>
     (\<forall>e. env_link (envs t e) = env_link (envs s e))"

lemma same_env_links: "same_env s t \<Longrightarrow> same_links s t"
  by (simp add: same_env_def same_links_def)

lemma paddr_wlp: "wlp (paddr k s) (\<lambda>p t. t = s)"
  by (simp add: paddr_def)

lemma copy_kern_pdes_same: "same_env s (copy_kern_pdes pd s)"
  unfolding copy_kern_pdes_def using copy_pdes_same by blast

lemma env_setup_vm_links: "wlp (env_setup_vm e s) (\<lambda>r t. r \<le> 0 \<and> same_links s t)"
proof -
  have c: "envs (copy_kern_pdes pd s) = envs s" "env_free_list (copy_kern_pdes pd s) = env_free_list s"
    for pd s using copy_kern_pdes_same [of s pd] by (simp_all add: same_env_def)
  show ?thesis
    unfolding env_setup_vm_def
    by (auto simp: wlp_rules E_NO_MEM_def intro!: wlp_weaken [OF page_alloc_same]
        wlp_weaken [OF page2kva_wlp] wlp_weaken [OF paddr_wlp])
      (auto simp: same_links_def same_env_def c)
qed

lemma env_alloc_links:
  "wlp (env_alloc parent s) (\<lambda>(r, eo) t. case eo of None \<Rightarrow> same_links s t
     | Some e \<Rightarrow> env_free_list s = Some e \<and> env_free_list t = env_link (envs s e) \<and>
        (\<forall>x. env_link (envs t x) = env_link (envs s x)))"
  unfolding env_alloc_def
  by (auto simp: wlp_rules same_links_def intro!: wlp_weaken [OF env_setup_vm_links])

lemma env_free_links:
  "wlp (env_free e s) (\<lambda>_ t. env_free_list t = Some e \<and> env_link (envs t e) = env_free_list s \<and>
     (\<forall>x. x \<noteq> e \<longrightarrow> env_link (envs t x) = env_link (envs s x)))"
  unfolding env_free_def
  by (auto simp: wlp_rules intro!: wlp_weaken [OF env_free_loop_same] wlp_weaken [OF pa2page_wlp]
      wlp_weaken [OF page_decref_same]) (auto simp: same_env_def)

text \<open>The environment table provides the free list interface, on the field \<open>env_link\<close>.\<close>

interpretation env_list: free_list env_free_list "\<lambda>s e. env_link (envs s e)"
  "env_alloc parent" snd env_free for parent
proof unfold_locales
  fix s r t x
  assume "env_alloc parent s = Ret r t" "snd r = Some x"
  with wlpD [OF env_alloc_links this(1)]
  show "env_free_list s = Some x \<and> env_free_list t = env_link (envs s x) \<and>
      (\<forall>y. y \<noteq> x \<longrightarrow> env_link (envs t y) = env_link (envs s y))"
    by (auto simp: case_prod_beta split: option.splits)
next
  fix s r t
  assume "env_alloc parent s = Ret r t" "snd r = None"
  with wlpD [OF env_alloc_links this(1)]
  show "env_free_list t = env_free_list s \<and>
      (\<lambda>e. env_link (envs t e)) = (\<lambda>e. env_link (envs s e))"
    by (auto simp: case_prod_beta same_links_def)
next
  fix x s u t
  assume "env_free x s = Ret u t"
  from wlpD [OF env_free_links this]
  show "env_free_list t = Some x \<and> env_link (envs t x) = env_free_list s \<and>
      (\<forall>y. y \<noteq> x \<longrightarrow> env_link (envs t y) = env_link (envs s y))" by simp
qed

definition free_envs_ok :: "kstate \<Rightarrow> nat list \<Rightarrow> bool" where
  "free_envs_ok s es \<longleftrightarrow>
     chain (\<lambda>e. env_link (envs s e)) (env_free_list s) es \<and>
     (\<forall>e \<in> set es. e < NENV \<and> env_status (envs s e) = ENV_FREE)"

lemma env_alloc_eq:
  assumes fr: "free_pages_ok s xs" and es: "env_free_list s = Some e"
  shows "env_alloc parent s = (case xs of [] \<Rightarrow> Ret (- E_NO_MEM, None) s
    | p # ps \<Rightarrow> Ret (0, Some e) ((upd_env e (\<lambda>v. v\<lparr>env_id := new_env_id (env_id (envs s e)) e,
        env_parent_id := parent, env_type := ENV_TYPE_USER, env_status := ENV_RUNNABLE, env_runs := 0,
        env_tf := zero_Trapframe\<lparr>tf_ds := GD_UD OR 3, tf_es := GD_UD OR 3, tf_ss := GD_UD OR 3,
          tf_esp := USTACKTOP, tf_cs := GD_UT OR 3, tf_eflags := FL_IF\<rparr>,
        env_pgfault_upcall := 0, env_ipc_recving := False\<rparr>) (with_pd e p s))
      \<lparr>env_free_list := env_link (envs s e)\<rparr>))"
proof (cases xs)
  case Nil
  with es env_setup_vm_eq [OF fr, of e] show ?thesis by (simp add: env_alloc_def E_NO_MEM_def)
next
  case (Cons p ps)
  with fr have z: "pp_ref (pages s p) = 0" by (simp add: free_pages_ok_def)
  from Cons es env_setup_vm_eq [OF fr, of e] show ?thesis
    by (simp add: env_alloc_def with_pd_view(8) [OF z] new_env_id_def Let_def)
qed

text \<open>The state \<open>env_alloc\<close> leaves when it succeeds.\<close>

definition with_env :: "nat \<Rightarrow> nat \<Rightarrow> u32 \<Rightarrow> kstate \<Rightarrow> kstate" where
  "with_env e p parent s = (upd_env e (\<lambda>v. v\<lparr>env_id := new_env_id (env_id (envs s e)) e,
        env_parent_id := parent, env_type := ENV_TYPE_USER, env_status := ENV_RUNNABLE, env_runs := 0,
        env_tf := zero_Trapframe\<lparr>tf_ds := GD_UD OR 3, tf_es := GD_UD OR 3, tf_ss := GD_UD OR 3,
          tf_esp := USTACKTOP, tf_cs := GD_UT OR 3, tf_eflags := FL_IF\<rparr>,
        env_pgfault_upcall := 0, env_ipc_recving := False\<rparr>) (with_pd e p s))
      \<lparr>env_free_list := env_link (envs s e)\<rparr>"

lemma env_alloc_with_env:
  assumes ok: "vm_ok s (p # ps) A" and fe: "free_envs_ok s (e # es)"
  shows "env_alloc parent s = Ret (0, Some e) (with_env e p parent s)"
    "vm_ok (with_env e p parent s) ps (insert p A)" "free_envs_ok (with_env e p parent s) es"
    "uspace (with_env e p parent s) p = Map.empty"
    "q \<in> A \<Longrightarrow> uspace (with_env e p parent s) q = uspace s q"
    "q \<noteq> p \<Longrightarrow> kmem (with_env e p parent s) q = kmem s q"
    "i < NUSER \<Longrightarrow> kmem (with_env e p parent s) p i = 0"
    "env_pgdir (envs (with_env e p parent s) e) = Some p" "cr3 (with_env e p parent s) = cr3 s"
    "env_status (envs (with_env e p parent s) e) = ENV_RUNNABLE"
    "x \<noteq> e \<Longrightarrow> envs (with_env e p parent s) x = envs s x"
proof -
  have z: "pp_ref (pages s p) = 0" using vm_free [OF ok] by (simp add: free_pages_ok_def)
  note v = with_pd_view [OF z, where e = e]
  have c: "chain (\<lambda>e. env_link (envs s e)) (env_free_list s) (e # es)"
    using fe by (simp add: free_envs_ok_def)
  from this chain_distinct [OF this] have h: "env_free_list s = Some e" "e \<notin> set es" by auto
  show t: "env_alloc parent s = Ret (0, Some e) (with_env e p parent s)"
    using env_alloc_eq [OF vm_free [OF ok] h(1), of parent] by (simp add: with_env_def)
  have cg: "kmem (with_env e p parent s) = kmem (with_pd e p s)" "pages (with_env e p parent s) = pages (with_pd e p s)"
    "npages (with_env e p parent s) = npages (with_pd e p s)"
    "page_free_list (with_env e p parent s) = page_free_list (with_pd e p s)" by (simp_all add: with_env_def)
  have w: "uspace (with_env e p parent s) = uspace (with_pd e p s)" by (rule uspace_kmem_cong [OF cg(1)])
  note wp = with_pd_ok [OF ok, where e = e]
  show "vm_ok (with_env e p parent s) ps (insert p A)" unfolding vm_ok_cong [OF cg] by (rule wp(1))
  show "uspace (with_env e p parent s) p = Map.empty" using wp(2) by (simp add: w)
  show "uspace (with_env e p parent s) q = uspace s q" if "q \<in> A" using wp(3) [OF that] by (simp add: w)
  show "free_envs_ok (with_env e p parent s) es"
    using env_list.alloc_chain [OF c t] fe h(2) by (auto simp: free_envs_ok_def with_env_def v(8))
  show "kmem (with_env e p parent s) q = kmem s q" if "q \<noteq> p" using v that by (simp add: cg(1))
  show "kmem (with_env e p parent s) p i = 0" if "i < NUSER" using v that by (simp add: cg(1))
  show "env_pgdir (envs (with_env e p parent s) e) = Some p"
    "env_status (envs (with_env e p parent s) e) = ENV_RUNNABLE" by (simp_all add: with_env_def v(8))
  show "envs (with_env e p parent s) x = envs s x" if "x \<noteq> e" using that by (simp add: with_env_def v(8))
  show "cr3 (with_env e p parent s) = cr3 s"
    using copy_kern_pdes_same by (auto simp: with_env_def with_pd_def Let_def same_env_def popped_def)
qed

section \<open>Properties\<close>

text \<open>
  C7: \<open>env_alloc\<close> takes the first slot of the free list and gives it an empty address space. With
  no free slot it returns \<open>-E_NO_FREE_ENV\<close>, with no free frame \<open>-E_NO_MEM\<close>, both without any
  change. Otherwise the environment is runnable with the given parent, starts in user mode with
  interrupts enabled, its user pages are unmapped, its directory agrees with the kernel's above
  \<open>UTOP\<close> except for the self map at \<open>UVPT\<close>, all other environments and address spaces are kept,
  and the invariants of pages and environments hold again.
\<close>

theorem env_alloc_adds_address_space:
  assumes "vm_ok s xs A" "free_envs_ok s es" "kern_pgdir s \<notin> set xs"
  shows "case es of [] \<Rightarrow> env_alloc parent s = Ret (- E_NO_FREE_ENV, None) s
    | e # es' \<Rightarrow> (case xs of [] \<Rightarrow> env_alloc parent s = Ret (- E_NO_MEM, None) s
      | p # ps \<Rightarrow> \<exists>t. env_alloc parent s = Ret (0, Some e) t \<and> vm_ok t ps (insert p A) \<and>
          free_envs_ok t es' \<and> env_pgdir (envs t e) = Some p \<and> uspace t p = Map.empty \<and>
          (\<forall>q\<in>A. uspace t q = uspace s q) \<and> (\<forall>x. x \<noteq> e \<longrightarrow> envs t x = envs s x) \<and>
          env_status (envs t e) = ENV_RUNNABLE \<and> env_parent_id (envs t e) = parent \<and>
          tf_eflags (env_tf (envs t e)) = FL_IF \<and> tf_cs (env_tf (envs t e)) = GD_UT OR 3 \<and>
          (\<forall>i. NUSER \<le> i \<longrightarrow> i < NPDENTRIES \<longrightarrow> kmem t p i =
            (if i = unat (PDX UVPT) then (page2pa p OR PTE_P) OR PTE_U
             else kmem s (kern_pgdir s) i)))"
proof (cases es)
  case Nil
  with assms(2) show ?thesis by (simp add: env_alloc_def free_envs_ok_def)
next
  case (Cons e es')
  with assms(2) have "chain (\<lambda>e. env_link (envs s e)) (env_free_list s) (e # es')"
    by (simp add: free_envs_ok_def)
  then have h: "env_free_list s = Some e" by simp
  show ?thesis
  proof (cases xs)
    case Nil
    with env_alloc_eq [OF vm_free [OF assms(1)] h, of parent] Cons show ?thesis by simp
  next
    case xs: (Cons p ps)
    with assms Cons have ok: "vm_ok s (p # ps) A" "free_envs_ok s (e # es')" "kern_pgdir s \<noteq> p" by auto
    then have "pp_ref (pages s p) = 0" using vm_free [OF ok(1)] by (simp add: free_pages_ok_def)
    note a = env_alloc_with_env [OF ok(1,2), where parent = parent] and v = with_pd_view [OF this, where e = e]
    show ?thesis
      using Cons xs a(1-5,8,10,11) ok(3) v
      by (simp add: with_env_def NPDENTRIES_def)
  qed
qed

text \<open>
  C9: The identifier \<open>env_alloc\<close> gives to an environment is positive, names its slot in the low
  bits, is found by \<open>envid2env\<close>, and differs from the one the slot had before, which from then on
  is stale: \<open>envid2env\<close> answers \<open>-E_BAD_ENV\<close> to it. The signed generation counter wraps around to
  its first value before it becomes negative.
\<close>

theorem env_alloc_id_fresh:
  assumes "env_alloc parent s = Ret (0, Some e) t" "free_pages_ok s xs" "e < NENV"
  defines "old \<equiv> env_id (envs s e)" and "new \<equiv> env_id (envs t e)"
  shows "0 <s new \<and> ENVX new = e \<and> new \<noteq> old \<and> envid2env new False t = Ret (0, Some e) t \<and>
    (old \<noteq> 0 \<longrightarrow> ENVX old = e \<longrightarrow> envid2env old checkperm t = Ret (- E_BAD_ENV, None) t)"
proof -
  have h: "env_free_list s = Some e" using wlpD [OF env_alloc_links assms(1)] by simp
  have n: "new = new_env_id old e" and st: "env_status (envs t e) = ENV_RUNNABLE"
    using assms(1) env_alloc_eq [OF assms(2) h, of parent]
    by (auto simp: new_def old_def split: list.splits)
  note f = new_env_id_facts [OF assms(3), of old, folded n]
  have "env_id (envs t e) \<noteq> old" using f(4) by (simp add: new_def)
  with f st show ?thesis by (auto simp: envid2env_def Let_def new_def [symmetric])
qed

text \<open>
  With \<open>checkperm\<close> set, \<open>envid2env\<close> only ever gives out the current environment or an
  immediate child of it, and never a free slot or a stale identifier.
\<close>

theorem envid2env_permission:
  assumes "envid2env envid True s = Ret (0, Some e) t"
  shows "t = s \<and> (curenv s = Some e \<or>
      (\<exists>c. curenv s = Some c \<and> env_parent_id (envs s e) = env_id (envs s c))) \<and>
    (envid \<noteq> 0 \<longrightarrow> env_id (envs s e) = envid \<and> env_status (envs s e) \<noteq> ENV_FREE)"
  using assms by (auto simp: envid2env_def Let_def E_BAD_ENV_def split: if_splits option.splits)

text \<open>
  C8: \<open>env_free\<close> gives everything back. It returns, and every frame loses exactly the references the
  address space had to it - one for each address at which it is mapped, one if it is one of the
  page tables, one if it is the page directory -, no other frame loses any, and the frames that
  lost their last reference, and no others, join the free list. The page directory leaves the
  set of address spaces, all other address spaces keep their mappings, the slot is free and the
  first one to be reused, no other environment changes, the kernel's directory is loaded if the
  environment was the current one, and the invariant of the page tables and reference counts
  holds for the rest.
\<close>

theorem env_free_reclaims:
  assumes "vm_ok s xs A" "pd \<in> A" "env_pgdir (envs s e) = Some pd"
  defines "lost \<equiv> \<lambda>f. card {v. \<exists>fl. uspace s pd v = Some (f, fl)} +
    card {i. i < NUSER \<and> has_tbl s pd i \<and> tbl s pd i = f} + (if f = pd then 1 else 0)"
  shows "\<exists>t ys. env_free e s = Ret () t \<and> vm_ok t ys (A - {pd}) \<and>
    (\<forall>f. unat (pp_ref (pages t f)) + lost f = unat (pp_ref (pages s f))) \<and>
    set ys = set xs \<union> {f. 0 < lost f \<and> unat (pp_ref (pages s f)) = lost f} \<and>
    (\<forall>q\<in>A - {pd}. uspace t q = uspace s q) \<and>
    env_free_list t = Some e \<and> env_status (envs t e) = ENV_FREE \<and> env_pgdir (envs t e) = None \<and>
    (\<forall>x. x \<noteq> e \<longrightarrow> envs t x = envs s x) \<and> (curenv s = Some e \<longrightarrow> cr3 t = kern_pgdir s)"
proof -
  have "lost = frame_refs s pd" by (simp add: lost_def frame_refs_def fun_eq_iff)
  with env_free_ok [OF assms(1-3)] show ?thesis
    unfolding gives_back_def by (elim exE conjE, intro exI conjI) (assumption | simp)+
qed

text \<open>
  \<open>env_init\<close> puts all \<open>NENV\<close> environments on the free list in the order of the table, so the
  first \<open>env_alloc\<close> returns slot 0; all of them are free and have identifier 0.
\<close>

theorem env_init_orders_free_list:
  assumes "env_free_list s = None"
  shows "free_envs_ok (env_init s) [0..<NENV] \<and>
    (\<forall>e<NENV. env_id (envs (env_init s) e) = 0)"
proof -
  let ?f = "\<lambda>i s. (upd_env i (\<lambda>e. e\<lparr>env_status := ENV_FREE, env_id := 0,
      env_link := env_free_list s\<rparr>) s)\<lparr>env_free_list := Some i\<rparr>"
  have "n \<le> N \<Longrightarrow> chain (\<lambda>e. env_link (envs (fold ?f (rev [n..<N]) s) e))
      (env_free_list (fold ?f (rev [n..<N]) s)) [n..<N] \<and>
    (\<forall>e. n \<le> e \<longrightarrow> e < N \<longrightarrow> env_id (envs (fold ?f (rev [n..<N]) s) e) = 0 \<and>
      env_status (envs (fold ?f (rev [n..<N]) s) e) = ENV_FREE)" for n N
  proof (induction "N - n" arbitrary: n)
    case 0
    then show ?case using assms by simp
  next
    case (Suc d)
    then have n: "n < N" "Suc n \<le> N" "d = N - Suc n" by auto
    have u: "rev [n..<N] = rev [Suc n..<N] @ [n]" using n(1) by (simp add: upt_conv_Cons)
    let ?t = "fold ?f (rev [Suc n..<N]) s"
    from Suc.hyps(1) [OF n(3,2)] have IH: "chain (\<lambda>e. env_link (envs ?t e)) (env_free_list ?t) [Suc n..<N]"
      "\<And>e. Suc n \<le> e \<Longrightarrow> e < N \<Longrightarrow> env_id (envs ?t e) = 0 \<and> env_status (envs ?t e) = ENV_FREE" by auto
    have "chain (\<lambda>e. env_link (envs (?f n ?t) e)) (env_free_list ?t) [Suc n..<N] =
        chain (\<lambda>e. env_link (envs ?t e)) (env_free_list ?t) [Suc n..<N]"
      by (rule chain_cong) auto
    with IH n(1) show ?case unfolding u by (auto simp: upt_conv_Cons [OF n(1)])
  qed
  from this [of 0 NENV] show ?thesis by (simp add: env_init_def free_envs_ok_def)
qed

lemma env_run_ok:
  assumes "holding (this_cpu s) (kernel_lock s)" "env_pgdir (envs s e) = Some pd"
  shows "\<exists>t. env_run e s = Leave EnterUser t \<and> curenv t = Some e \<and> cr3 t = pd \<and>
    env_status (envs t e) = ENV_RUNNING \<and> env_runs (envs t e) = env_runs (envs s e) + 1 \<and>
    env_tf (envs t e) = env_tf (envs s e) \<and> kmem t = kmem s \<and> locked (kernel_lock t) = 0 \<and>
    (\<forall>x. x \<noteq> e \<longrightarrow> envs t x =
      (if curenv s = Some x \<and> env_status (envs s x) = ENV_RUNNING
       then (envs s x)\<lparr>env_status := ENV_RUNNABLE\<rparr> else envs s x))"
proof -
  have sc: "envs (set_curenv c u) = envs u" "this_cpu (set_curenv c u) = this_cpu u"
    "kernel_lock (set_curenv c u) = kernel_lock u" "kmem (set_curenv c u) = kmem u" for c u
    by (simp_all add: set_curenv_def upd_this_cpu_def)
  have cl: "curenv (u\<lparr>kernel_lock := l\<rparr>) = curenv u" for u l by (simp add: curenv_def)
  from assms show ?thesis
    by (cases "curenv s")
      (auto simp: env_run_def Let_def unlock_kernel_def spin_unlock_def xchg_locked_def env_pop_tf_def
        sc cl)
qed

text \<open>
  \<open>env_run\<close> on a CPU that holds the kernel lock switches to the environment: it never returns
  but enters user mode with the environment current and running, its address space loaded, its
  run count increased, the environment that was running before runnable again, and the lock
  released; nothing else in the table changes.
\<close>

theorem env_run_switches:
  assumes "holding (this_cpu s) (kernel_lock s)" "env_pgdir (envs s e) = Some pd"
  shows "\<exists>t. env_run e s = Leave EnterUser t \<and> curenv t = Some e \<and> cr3 t = pd \<and>
    env_status (envs t e) = ENV_RUNNING \<and> env_runs (envs t e) = env_runs (envs s e) + 1 \<and>
    env_tf (envs t e) = env_tf (envs s e) \<and> locked (kernel_lock t) = 0 \<and>
    (\<forall>x. x \<noteq> e \<longrightarrow> envs t x =
      (if curenv s = Some x \<and> env_status (envs s x) = ENV_RUNNING
       then (envs s x)\<lparr>env_status := ENV_RUNNABLE\<rparr> else envs s x))"
  using env_run_ok [OF assms] by blast

section \<open>Witnesses\<close>

text \<open>The address space of \<open>mapped_state\<close>, with one more environment slot free.\<close>

definition env_state :: kstate where
  "env_state = mapped_state\<lparr>env_free_list := Some 2\<rparr>"

lemma env_state_ok:
  "vm_ok env_state [4] {1}" "free_envs_ok env_state [2]" "kern_pgdir env_state = 0"
  "env_pgdir (envs env_state 0) = Some 1" "env_id (envs env_state 2) = 0" "curenv env_state = None"
  "free_pages_ok env_state [4]" "pp_ref (pages env_state 1) = 1"
proof -
  show ok: "vm_ok env_state [4] {1}" using mapped_ok(1) by (simp add: env_state_def)
  have e: "envs env_state = envs blank_state" by (simp add: env_state_def mapped_simps)
  show "free_envs_ok env_state [2]"
    unfolding free_envs_ok_def e
    by (simp add: env_state_def NENV_def LOG2NENV_def) (simp add: blank_state_def bss_state_def zero_Env_def)
  show "env_pgdir (envs env_state 0) = Some 1" "env_id (envs env_state 2) = 0"
    unfolding e by (simp_all add: blank_state_def bss_state_def zero_Env_def)
  show "curenv env_state = None" using mapped_simps(5) by (simp add: env_state_def curenv_def)
  show "kern_pgdir env_state = 0" "pp_ref (pages env_state 1) = 1"
    by (simp_all add: env_state_def mapped_state_def incref_def with_tbl_def)
      (simp_all add: blank_state_def bss_state_def)
  show "free_pages_ok env_state [4]" by (rule vm_free [OF ok])
qed

theorem env_alloc_adds_address_space_witness:
  "\<exists>t. env_alloc 7 env_state = Ret (0, Some 2) t \<and> vm_ok t [] {4, 1} \<and> uspace t 4 = Map.empty \<and>
     uspace t 1 = uspace env_state 1 \<and> env_parent_id (envs t 2) = 7"
  using env_alloc_adds_address_space [OF env_state_ok(1,2), of 7] by (auto simp: env_state_ok(3))

theorem env_alloc_id_fresh_witness:
  "\<exists>t. env_alloc 7 env_state = Ret (0, Some 2) t \<and> 0 <s env_id (envs t 2) \<and>
     ENVX (env_id (envs t 2)) = 2"
proof -
  have h: "env_free_list env_state = Some 2" by (simp add: env_state_def)
  from env_alloc_eq [OF env_state_ok(7) h, of 7] obtain t where
    t: "env_alloc 7 env_state = Ret (0, Some 2) t" by auto
  have "(2::nat) < NENV" by (simp add: NENV_def LOG2NENV_def)
  from env_alloc_id_fresh [OF t env_state_ok(7) this] t show ?thesis by blast
qed

theorem envid2env_permission_witness:
  "envid2env 0 True (set_curenv (Some 0) env_state) = Ret (0, Some 0) (set_curenv (Some 0) env_state) \<and>
   curenv (set_curenv (Some 0) env_state) = Some 0"
proof -
  have e: "envid2env 0 True (set_curenv (Some 0) env_state) =
      Ret (0, Some 0) (set_curenv (Some 0) env_state)"
    by (simp add: envid2env_def)
  from envid2env_permission [OF e] e show ?thesis by simp
qed

theorem env_free_reclaims_witness:
  "\<exists>t ys. env_free 0 env_state = Ret () t \<and> vm_ok t ys {} \<and> 1 \<in> set ys \<and>
     env_free_list t = Some 0 \<and> env_pgdir (envs t 0) = None"
proof -
  define lost where "lost f = card {v. \<exists>fl. uspace env_state 1 v = Some (f, fl)} +
    card {i. i < NUSER \<and> has_tbl env_state 1 i \<and> tbl env_state 1 i = f} + (if f = 1 then 1 else 0)" for f
  from env_free_reclaims [OF env_state_ok(1) insertI1 env_state_ok(4), folded lost_def] obtain t ys where
    t: "env_free 0 env_state = Ret () t" "vm_ok t ys ({1} - {1})" "env_free_list t = Some 0"
      "env_pgdir (envs t 0) = None" "unat (pp_ref (pages t 1)) + lost 1 = unat (pp_ref (pages env_state 1))"
      "set ys = set [4] \<union> {f. 0 < lost f \<and> unat (pp_ref (pages env_state f)) = lost f}" by blast
  have "0 < lost 1" by (simp add: lost_def)
  moreover from this have "lost 1 = 1" using t(5) env_state_ok(8) by simp
  ultimately have "1 \<in> set ys" using env_state_ok(8) unfolding t(6) by simp
  moreover have "vm_ok t ys {}" using t(2) by simp
  ultimately show ?thesis using t(1,3,4) by blast
qed

theorem env_init_orders_free_list_witness:
  "free_envs_ok (env_init bss_state) [0..<NENV]"
  using env_init_orders_free_list [of bss_state] by (simp add: bss_state_def)

theorem env_run_switches_witness:
  "\<exists>t. env_run 0 (env_state\<lparr>kernel_lock := \<lparr>locked = 1, lk_name = ''kernel_lock'', lk_cpu = Some 0,
       lk_pcs = []\<rparr>\<rparr>) = Leave EnterUser t \<and> curenv t = Some 0 \<and> cr3 t = 1 \<and> locked (kernel_lock t) = 0"
proof -
  have "this_cpu env_state = 0"
    by (simp add: env_state_def mapped_state_def incref_def with_tbl_def) (simp add: blank_state_def bss_state_def)
  then show ?thesis
    using env_run_switches [of "env_state\<lparr>kernel_lock := \<lparr>locked = 1, lk_name = ''kernel_lock'',
      lk_cpu = Some 0, lk_pcs = []\<rparr>\<rparr>" 0 1] env_state_ok(4)
    by (auto simp: holding_def)
qed

end
