(* ===== verification/Jos_Sched.thy ===== *)
theory Jos_Sched
  imports Jos_Env
begin

text \<open>
  The scheduler (kern/sched.c), and the operations that end in it: \<open>env_destroy\<close> (kern/env.c)
  and \<open>user_mem_assert\<close> (kern/pmap.c).
\<close>

section \<open>Operations\<close>

definition sched_halt :: "kstate \<Rightarrow> 'a kres" where
  "sched_halt s =
     (if \<not> list_ex (\<lambda>i. env_status (envs s i) = ENV_RUNNABLE \<or> env_status (envs s i) = ENV_RUNNING \<or>
               env_status (envs s i) = ENV_DYING) [0..<NENV]
      then Leave InMonitor s
      else
        (let s = set_curenv None s;
             s = lcr3 (kern_pgdir s) s;
             s = upd_this_cpu (\<lambda>c. c\<lparr>cpu_status := CPU_HALTED\<rparr>) s
         in bindO (unlock_kernel s) (\<lambda>_ s. Leave CpuHalted s)))"

text \<open>The search loop: \<open>k\<close> rounds are left, the counter is \<open>i\<close>, \<open>idx\<close> the last index.\<close>

fun sched_search :: "(nat \<Rightarrow> Env) \<Rightarrow> nat \<Rightarrow> nat \<Rightarrow> nat \<Rightarrow> nat option" where
  "sched_search es 0 i idx = None"
| "sched_search es (Suc k) i idx =
     (let idx = (idx + i) mod NENV in
      if env_status (es idx) = ENV_RUNNABLE then Some idx else sched_search es k (i + 1) idx)"

definition sched_yield :: "kstate \<Rightarrow> 'a kres" where
  "sched_yield s =
     (let idx = (case curenv s of None \<Rightarrow> 0 | Some c \<Rightarrow> ENVX (env_id (envs s c)) + 1) in
      case sched_search (envs s) NENV 0 idx of
        Some e \<Rightarrow> env_run e s
      | None \<Rightarrow>
          (case curenv s of
             Some c \<Rightarrow> if env_status (envs s c) = ENV_RUNNING then env_run c s else sched_halt s
           | None \<Rightarrow> sched_halt s))"

definition env_destroy :: "nat \<Rightarrow> kstate \<Rightarrow> unit kres" where
  "env_destroy e s =
     (if env_status (envs s e) = ENV_RUNNING \<and> curenv s \<noteq> Some e
      then Ret () (upd_env e (\<lambda>v. v\<lparr>env_status := ENV_DYING\<rparr>) s)
      else
        bindO (env_free e s) (\<lambda>_ s.
          if curenv s = Some e then sched_yield (set_curenv None s) else Ret () s))"

definition user_mem_assert :: "nat \<Rightarrow> u32 \<Rightarrow> u32 \<Rightarrow> u32 \<Rightarrow> kstate \<Rightarrow> unit kres" where
  "user_mem_assert env va len perm s =
     bindO (user_mem_check env va len (perm OR PTE_U) s) (\<lambda>r s.
       if r < 0 then env_destroy env s else Ret () s)"

section \<open>The order of the search\<close>

text \<open>
  Adding the counter to the index itself makes the steps grow: after \<open>i\<close> rounds the index is the
  start plus the triangular number of \<open>i\<close>.
\<close>

definition tri :: "nat \<Rightarrow> nat" where "tri i = i * (i + 1) div 2"

lemma tri_Suc: "tri (Suc i) = tri i + Suc i"
proof -
  have "Suc i * (Suc i + 1) = i * (i + 1) + 2 * Suc i" by (simp add: algebra_simps)
  then show ?thesis by (simp add: tri_def)
qed

lemma two_tri: "2 * tri i = i * (i + 1)"
  by (induction i) (simp_all add: tri_Suc tri_def [of 0])

definition probe :: "nat \<Rightarrow> nat \<Rightarrow> nat" where "probe b i = (b + tri i) mod NENV"

lemma probe_Suc: "(probe b i + Suc i) mod NENV = probe b (Suc i)"
  unfolding probe_def tri_Suc mod_add_left_eq by (simp add: add.assoc)

lemma sched_search_from:
  "sched_search es k (Suc i) (probe b i) =
    (case find (\<lambda>n. env_status (es (probe b n)) = ENV_RUNNABLE) [Suc i..<Suc i + k] of
       None \<Rightarrow> None | Some n \<Rightarrow> Some (probe b n))"
proof (induction k arbitrary: i)
  case (Suc k)
  have u: "[Suc i..<Suc i + Suc k] = Suc i # [Suc (Suc i)..<Suc (Suc i) + k]"
    by (simp add: upt_conv_Cons)
  from Suc [of "Suc i"] show ?case
    unfolding u by (simp add: Let_def probe_Suc [of b i, simplified])
qed simp

lemma sched_search_eq:
  "0 < k \<Longrightarrow> sched_search es k 0 b =
    (case find (\<lambda>n. env_status (es (probe b n)) = ENV_RUNNABLE) [0..<k] of
       None \<Rightarrow> None | Some n \<Rightarrow> Some (probe b n))"
proof -
  assume "0 < k"
  then obtain j where k: "k = Suc j" by (cases k) auto
  have u: "[0..<Suc j] = 0 # [Suc 0..<Suc 0 + j]" by (simp add: upt_conv_Cons)
  have p0: "b mod NENV = probe b 0" by (simp add: probe_def tri_def)
  from sched_search_from [of es j 0 b] show ?thesis
    unfolding k u by (simp add: Let_def p0 del: upt_Suc)
qed

text \<open>The first 1024 triangular numbers meet every residue modulo 1024: the search is complete.\<close>

lemma tri_inj:
  assumes "i < j" "j < 1024"
  shows "(b + tri i) mod 1024 \<noteq> (b + tri j) mod 1024"
proof
  assume "(b + tri i) mod 1024 = (b + tri j) mod 1024"
  then have d: "1024 dvd tri j - tri i"
    using mod_eq_dvd_iff_nat [of "b + tri i" "b + tri j" 1024] two_tri [of i] two_tri [of j] assms
    by (cases "tri i \<le> tri j") (simp_all add: mod_eq_dvd_iff_nat)
  have "2 * (tri j - tri i) = (j - i) * (i + j + 1)"
  proof -
    obtain k where j: "j = i + k" using assms(1) less_imp_add_positive by blast
    have "2 * (tri j - tri i) = j * (j + 1) - i * (i + 1)"
      using two_tri [of i] two_tri [of j] by (simp add: diff_mult_distrib2)
    also have "\<dots> = (j - i) * (i + j + 1)" by (simp add: j algebra_simps)
    finally show ?thesis .
  qed
  moreover from d have "2 * 1024 dvd 2 * (tri j - tri i)" by (rule mult_dvd_mono [OF dvd_refl])
  ultimately have dv: "2 ^ 11 dvd (j - i) * (i + j + 1)" by simp
  show False
  proof (cases "even (j - i)")
    case True
    then have "odd (i + j + 1)" using assms(1) by presburger
    then have "coprime (2 ^ 11) (i + j + 1)" by (metis coprime_left_2_iff_odd coprime_power_left_iff)
    with dv have "2 ^ 11 dvd j - i" by (metis coprime_dvd_mult_left_iff)
    with assms show False by (auto dest: dvd_imp_le)
  next
    case False
    then have "coprime (2 ^ 11) (j - i)" by (metis coprime_left_2_iff_odd coprime_power_left_iff)
    with dv have "2 ^ 11 dvd i + j + 1" by (metis coprime_dvd_mult_right_iff)
    with assms show False by (auto dest: dvd_imp_le)
  qed
qed

lemma NENV_1024: "NENV = 1024"
  by (simp add: NENV_def LOG2NENV_def)

lemma probe_onto:
  assumes "e < NENV"
  shows "\<exists>n<NENV. probe b n = e"
proof -
  have "inj_on (probe b) {..<NENV}"
  proof (rule linorder_inj_onI)
    fix i j :: nat assume "i < j" "i \<in> {..<NENV}" "j \<in> {..<NENV}"
    then show "probe b i \<noteq> probe b j" using tri_inj [of i j b] by (simp add: probe_def NENV_1024)
  qed auto
  moreover have "probe b ` {..<NENV} \<subseteq> {..<NENV}" by (auto simp: probe_def NENV_1024)
  ultimately have "probe b ` {..<NENV} = {..<NENV}" by (simp add: endo_inj_surj)
  with assms have "e \<in> probe b ` {..<NENV}" by simp
  then show ?thesis by auto
qed

lemma probe_0: "probe b 0 = b mod NENV"
  by (simp add: probe_def tri_def)

lemma probe_less: "probe b n < NENV"
  by (simp add: probe_def NENV_1024)

lemma sched_search_complete:
  "sched_search es NENV 0 b = None \<longleftrightarrow> (\<forall>e<NENV. env_status (es e) \<noteq> ENV_RUNNABLE)"
proof -
  have "sched_search es NENV 0 b = None \<longleftrightarrow> (\<forall>n<NENV. env_status (es (probe b n)) \<noteq> ENV_RUNNABLE)"
  proof -
    have "sched_search es NENV 0 b = None \<longleftrightarrow>
        find (\<lambda>n. env_status (es (probe b n)) = ENV_RUNNABLE) [0..<NENV] = None"
      using sched_search_eq [of NENV es b] by (simp add: NENV_1024 split: option.splits)
    then show ?thesis by (simp add: find_None_iff)
  qed
  then show ?thesis using probe_onto probe_less by metis
qed

lemma sched_search_Some:
  assumes "sched_search es NENV 0 b = Some e"
  shows "\<exists>n<NENV. e = probe b n \<and> env_status (es e) = ENV_RUNNABLE \<and>
    (\<forall>m<n. env_status (es (probe b m)) \<noteq> ENV_RUNNABLE)"
proof -
  from assms sched_search_eq [of NENV es b] obtain n where
    n: "find (\<lambda>n. env_status (es (probe b n)) = ENV_RUNNABLE) [0..<NENV] = Some n" "e = probe b n"
    by (auto simp: NENV_1024 split: option.splits)
  then show ?thesis by (auto simp: find_Some_iff)
qed

section \<open>What the switch does to the CPUs\<close>

lemma set_curenv_frame [kernel_simps, simp]:
  "kmem (set_curenv c s) = kmem s" "pages (set_curenv c s) = pages s"
  "npages (set_curenv c s) = npages s" "page_free_list (set_curenv c s) = page_free_list s"
  "envs (set_curenv c s) = envs s" "env_free_list (set_curenv c s) = env_free_list s"
  "this_cpu (set_curenv c s) = this_cpu s" "kernel_lock (set_curenv c s) = kernel_lock s"
  "kern_pgdir (set_curenv c s) = kern_pgdir s" "cr3 (set_curenv c s) = cr3 s"
  "cpu_env (cpus (set_curenv c s) d) = (if d = this_cpu s then c else cpu_env (cpus s d))"
  by (simp_all add: set_curenv_def upd_this_cpu_def)

lemma unlock_held:
  "holding (this_cpu s) (kernel_lock s) \<Longrightarrow>
   \<exists>l. unlock_kernel s = Ret () (s\<lparr>kernel_lock := l\<rparr>) \<and> locked l = 0"
  by (auto simp: unlock_kernel_def spin_unlock_def xchg_locked_def)

lemma curenv_lock [simp]: "curenv (s\<lparr>kernel_lock := l\<rparr>) = curenv s"
  by (simp add: curenv_def)

text \<open>The status of the environment a switch takes the CPU from.\<close>

definition preempted :: "kstate \<Rightarrow> nat \<Rightarrow> EnvStatus" where
  "preempted s x = (if curenv s = Some x \<and> env_status (envs s x) = ENV_RUNNING
     then ENV_RUNNABLE else env_status (envs s x))"

lemma env_run_Leave:
  assumes "holding (this_cpu s) (kernel_lock s)" "env_pgdir (envs s e) = Some pd"
  shows "\<exists>t. env_run e s = Leave EnterUser t \<and> curenv t = Some e \<and> cr3 t = pd \<and>
    env_status (envs t e) = ENV_RUNNING \<and> locked (kernel_lock t) = 0 \<and> this_cpu t = this_cpu s \<and>
    (\<forall>d. cpu_env (cpus t d) = (if d = this_cpu s then Some e else cpu_env (cpus s d))) \<and>
    (\<forall>x. x \<noteq> e \<longrightarrow> env_status (envs t x) = preempted s x)"
proof -
  define q where "q = (case curenv s of None \<Rightarrow> s | Some c \<Rightarrow>
      if env_status (envs s c) = ENV_RUNNING then upd_env c (\<lambda>v. v\<lparr>env_status := ENV_RUNNABLE\<rparr>) s else s)"
  let ?u = "lcr3 pd (upd_env e (\<lambda>v. v\<lparr>env_runs := env_runs v + 1\<rparr>)
      (upd_env e (\<lambda>v. v\<lparr>env_status := ENV_RUNNING\<rparr>) (set_curenv (Some e) q)))"
  have s: "this_cpu q = this_cpu s" "kernel_lock q = kernel_lock s" "cpus q = cpus s"
    "env_pgdir (envs q e) = Some pd" "\<And>x. env_status (envs q x) = preempted s x"
    using assms(2) by (auto simp: q_def preempted_def split: option.splits)
  from unlock_held [of ?u] assms(1) s obtain l where
    l: "unlock_kernel ?u = Ret () (?u\<lparr>kernel_lock := l\<rparr>)" "locked l = 0" by auto
  have r: "env_run e s = env_pop_tf (?u\<lparr>kernel_lock := l\<rparr>)"
    using l(1) s(4) by (simp add: env_run_def Let_def q_def [symmetric])
  let ?t = "upd_env e (\<lambda>v. v\<lparr>env_cpunum := this_cpu s\<rparr>) (?u\<lparr>kernel_lock := l\<rparr>)"
  show ?thesis
    by (rule exI [of _ ?t]) (simp add: r env_pop_tf_def l(2) s)
qed

section \<open>Properties\<close>

text \<open>
  With nothing else runnable, \<open>sched_yield\<close> continues the current environment if it is still
  running. Otherwise, if some environment runs elsewhere or is dying, the CPU halts with no
  current environment, the kernel's page directory loaded and the lock released; if there is
  none at all it enters the kernel monitor.
\<close>

lemma sched_yield_idle:
  assumes "holding (this_cpu s) (kernel_lock s)" "\<forall>e<NENV. env_status (envs s e) \<noteq> ENV_RUNNABLE"
    "\<forall>c. curenv s = Some c \<longrightarrow> env_status (envs s c) = ENV_RUNNING \<longrightarrow> env_pgdir (envs s c) \<noteq> None"
  shows "if \<exists>c. curenv s = Some c \<and> env_status (envs s c) = ENV_RUNNING
    then \<exists>t. (sched_yield s :: unit kres) = Leave EnterUser t \<and> curenv t = curenv s \<and>
      (\<forall>x. env_status (envs t x) = env_status (envs s x)) \<and> locked (kernel_lock t) = 0
    else if \<exists>e<NENV. env_status (envs s e) = ENV_RUNNING \<or> env_status (envs s e) = ENV_DYING
    then \<exists>t. (sched_yield s :: unit kres) = Leave CpuHalted t \<and> curenv t = None \<and>
      cr3 t = kern_pgdir s \<and> locked (kernel_lock t) = 0 \<and> envs t = envs s \<and>
      cpu_status (cpus t (this_cpu t)) = CPU_HALTED
    else (sched_yield s :: unit kres) = Leave InMonitor s"
proof -
  have n: "sched_search (envs s) NENV 0 b = None" for b
    using assms(2) sched_search_complete by metis
  show ?thesis
  proof (cases "\<exists>c. curenv s = Some c \<and> env_status (envs s c) = ENV_RUNNING")
    case True
    then obtain c pd where c: "curenv s = Some c" "env_status (envs s c) = ENV_RUNNING"
      "env_pgdir (envs s c) = Some pd" using assms(3) by auto
    from env_run_Leave [OF assms(1) c(3)] obtain t where
      t: "env_run c s = (Leave EnterUser t :: unit kres)" "curenv t = Some c"
        "env_status (envs t c) = ENV_RUNNING" "locked (kernel_lock t) = 0"
        "\<forall>x. x \<noteq> c \<longrightarrow> env_status (envs t x) = preempted s x" by blast
    have "env_status (envs t x) = env_status (envs s x)" for x
      using t(3,5) c(1,2) by (cases "x = c") (auto simp: preempted_def)
    with t c n show ?thesis by (simp add: sched_yield_def Let_def)
  next
    case False
    with n have y: "(sched_yield s :: unit kres) = sched_halt s"
      by (auto simp: sched_yield_def Let_def split: option.splits)
    have a: "list_ex (\<lambda>i. env_status (envs s i) = ENV_RUNNABLE \<or> env_status (envs s i) = ENV_RUNNING \<or>
        env_status (envs s i) = ENV_DYING) [0..<NENV] \<longleftrightarrow>
      (\<exists>e<NENV. env_status (envs s e) = ENV_RUNNING \<or> env_status (envs s e) = ENV_DYING)"
      using assms(2) by (auto simp: list_ex_iff)
    let ?u = "upd_this_cpu (\<lambda>c. c\<lparr>cpu_status := CPU_HALTED\<rparr>) (lcr3 (kern_pgdir s) (set_curenv None s))"
    have u: "this_cpu ?u = this_cpu s" "kernel_lock ?u = kernel_lock s" "cr3 ?u = kern_pgdir s"
      "envs ?u = envs s" "curenv ?u = None" "cpu_status (cpus ?u (this_cpu s)) = CPU_HALTED"
      by (simp_all add: upd_this_cpu_def curenv_def)
    from unlock_held [of ?u] assms(1) u obtain l where
      l: "unlock_kernel ?u = Ret () (?u\<lparr>kernel_lock := l\<rparr>)" "locked l = 0" by auto
    with False y a u show ?thesis by (simp add: sched_halt_def Let_def)
  qed
qed

text \<open>
  C14: \<open>sched_yield\<close> does not miss work. Whenever some environment is runnable it switches to a
  runnable one: that environment becomes the CPU's current one and \<open>ENV_RUNNING\<close>, its page
  directory is loaded, the environment it displaces, if still running, becomes runnable again,
  no other status changes, and the lock is released. If the slot just after the current
  environment (slot 0 if there is none) is runnable, that is the one chosen; which of several
  runnable environments further away is chosen is left open here. With nothing runnable it
  continues the current environment if that is still running; otherwise, if some environment runs
  elsewhere or is dying, the CPU halts with no current environment, the kernel's page directory
  loaded and the lock released; if there is none at all it enters the kernel monitor.
\<close>

theorem sched_yield_finds_runnable:
  assumes "holding (this_cpu s) (kernel_lock s)"
    "\<forall>e<NENV. env_status (envs s e) = ENV_RUNNABLE \<longrightarrow> env_pgdir (envs s e) \<noteq> None"
    "\<forall>c. curenv s = Some c \<longrightarrow> env_status (envs s c) = ENV_RUNNING \<longrightarrow> env_pgdir (envs s c) \<noteq> None"
  defines "b \<equiv> case curenv s of None \<Rightarrow> 0 | Some c \<Rightarrow> ENVX (env_id (envs s c)) + 1"
  shows "if \<exists>e<NENV. env_status (envs s e) = ENV_RUNNABLE
    then \<exists>e t. e < NENV \<and> env_status (envs s e) = ENV_RUNNABLE \<and>
      (env_status (envs s (b mod NENV)) = ENV_RUNNABLE \<longrightarrow> e = b mod NENV) \<and>
      (sched_yield s :: unit kres) = Leave EnterUser t \<and> curenv t = Some e \<and>
      env_status (envs t e) = ENV_RUNNING \<and> Some (cr3 t) = env_pgdir (envs s e) \<and>
      (\<forall>x. x \<noteq> e \<longrightarrow> env_status (envs t x) =
        (if curenv s = Some x \<and> env_status (envs s x) = ENV_RUNNING then ENV_RUNNABLE
         else env_status (envs s x))) \<and> locked (kernel_lock t) = 0
    else if \<exists>c. curenv s = Some c \<and> env_status (envs s c) = ENV_RUNNING
    then \<exists>t. (sched_yield s :: unit kres) = Leave EnterUser t \<and> curenv t = curenv s \<and>
      (\<forall>x. env_status (envs t x) = env_status (envs s x)) \<and> locked (kernel_lock t) = 0
    else if \<exists>e<NENV. env_status (envs s e) = ENV_RUNNING \<or> env_status (envs s e) = ENV_DYING
    then \<exists>t. (sched_yield s :: unit kres) = Leave CpuHalted t \<and> curenv t = None \<and>
      cr3 t = kern_pgdir s \<and> locked (kernel_lock t) = 0 \<and> envs t = envs s \<and>
      cpu_status (cpus t (this_cpu t)) = CPU_HALTED
    else (sched_yield s :: unit kres) = Leave InMonitor s"
proof (cases "\<exists>e<NENV. env_status (envs s e) = ENV_RUNNABLE")
  case True
  then obtain e where e: "sched_search (envs s) NENV 0 b = Some e"
    by (metis sched_search_complete not_None_eq)
  from sched_search_Some [OF this] obtain n where n: "n < NENV" "e = probe b n"
    "env_status (envs s e) = ENV_RUNNABLE" "\<forall>m<n. env_status (envs s (probe b m)) \<noteq> ENV_RUNNABLE" by auto
  have l: "e < NENV" using n(2) probe_less by simp
  have f: "env_status (envs s (b mod NENV)) = ENV_RUNNABLE \<longrightarrow> e = b mod NENV"
    using n(2,4) by (metis probe_0 gr0I)
  from assms(2) n(3) l obtain pd where pd: "env_pgdir (envs s e) = Some pd" by auto
  from env_run_Leave [OF assms(1) pd] obtain t where
    t: "env_run e s = (Leave EnterUser t :: unit kres)" "curenv t = Some e" "cr3 t = pd"
      "env_status (envs t e) = ENV_RUNNING" "locked (kernel_lock t) = 0"
      "\<forall>x. x \<noteq> e \<longrightarrow> env_status (envs t x) = preempted s x" by blast
  have "(sched_yield s :: unit kres) = env_run e s" using e by (simp add: sched_yield_def b_def Let_def)
  with True t n(3) l f pd show ?thesis by (auto simp: preempted_def)
next
  case False
  with sched_yield_idle [OF assms(1) _ assms(3)] show ?thesis by auto
qed

text \<open>
  The order of the search: the steps grow, and the environment chosen is the first runnable one at
  the distances 1, 2, 4, 7 and so on from the current one, modulo 1024.
\<close>

theorem sched_yield_order:
  assumes "holding (this_cpu s) (kernel_lock s)" "r < NENV" "env_status (envs s r) = ENV_RUNNABLE"
    "\<forall>e<NENV. env_status (envs s e) = ENV_RUNNABLE \<longrightarrow> env_pgdir (envs s e) \<noteq> None"
  defines "b \<equiv> case curenv s of None \<Rightarrow> 0 | Some c \<Rightarrow> ENVX (env_id (envs s c)) + 1"
  shows "\<exists>n t. n < NENV \<and> env_status (envs s (probe b n)) = ENV_RUNNABLE \<and>
    (\<forall>m<n. env_status (envs s (probe b m)) \<noteq> ENV_RUNNABLE) \<and>
    (sched_yield s :: unit kres) = Leave EnterUser t \<and> curenv t = Some (probe b n)"
proof -
  have "sched_search (envs s) NENV 0 b \<noteq> None"
    using assms(2,3) sched_search_complete by metis
  then obtain e where e: "sched_search (envs s) NENV 0 b = Some e" by auto
  from sched_search_Some [OF this] obtain n where n: "n < NENV" "e = probe b n"
    "env_status (envs s e) = ENV_RUNNABLE" "\<forall>m<n. env_status (envs s (probe b m)) \<noteq> ENV_RUNNABLE" by auto
  from assms(4) n(2,3) have "env_pgdir (envs s e) \<noteq> None" using probe_less by metis
  then obtain pd where "env_pgdir (envs s e) = Some pd" by auto
  from env_run_Leave [OF assms(1) this] obtain t where
    t: "env_run e s = (Leave EnterUser t :: unit kres)" "curenv t = Some e" by blast
  have "(sched_yield s :: unit kres) = env_run e s" using e by (simp add: sched_yield_def b_def Let_def)
  with t n show ?thesis by auto
qed

text \<open>
  C15: No environment ever runs on two CPUs. If every other CPU's current environment is running
  or dying and no two CPUs share one, then after \<open>sched_yield\<close>, at the moment the lock is free
  for another CPU, the current environment of every CPU is running or dying, and no two CPUs
  share one.
\<close>

theorem sched_yield_exclusive:
  assumes "\<forall>d e. d \<noteq> this_cpu s \<longrightarrow> cpu_env (cpus s d) = Some e \<longrightarrow>
      env_status (envs s e) = ENV_RUNNING \<or> env_status (envs s e) = ENV_DYING"
    "\<forall>c d e. cpu_env (cpus s c) = Some e \<longrightarrow> cpu_env (cpus s d) = Some e \<longrightarrow> c = d"
    "holding (this_cpu s) (kernel_lock s)" "(sched_yield s :: unit kres) = Leave l t" "l \<noteq> InMonitor"
  shows "(\<forall>d e. cpu_env (cpus t d) = Some e \<longrightarrow>
      env_status (envs t e) = ENV_RUNNING \<or> env_status (envs t e) = ENV_DYING) \<and>
    (\<forall>c d e. cpu_env (cpus t c) = Some e \<longrightarrow> cpu_env (cpus t d) = Some e \<longrightarrow> c = d)"
proof -
  have run: ?thesis if e: "(env_run e s :: unit kres) = Leave l t"
    and ne: "\<forall>d. d \<noteq> this_cpu s \<longrightarrow> cpu_env (cpus s d) \<noteq> Some e" for e
  proof -
    from e obtain pd where "env_pgdir (envs s e) = Some pd"
      by (auto simp: env_run_def Let_def split: option.splits if_splits)
    from env_run_Leave [OF assms(3) this] obtain u where
      u: "(env_run e s :: unit kres) = Leave EnterUser u" "env_status (envs u e) = ENV_RUNNING"
      "\<forall>d. cpu_env (cpus u d) = (if d = this_cpu s then Some e else cpu_env (cpus s d))"
      "\<forall>x. x \<noteq> e \<longrightarrow> env_status (envs u x) = preempted s x" by blast
    with e have t: "env_status (envs t e) = ENV_RUNNING"
      "\<And>d. cpu_env (cpus t d) = (if d = this_cpu s then Some e else cpu_env (cpus s d))"
      "\<And>x. x \<noteq> e \<Longrightarrow> env_status (envs t x) = preempted s x" by auto
    have p: "preempted s x = env_status (envs s x)" if "cpu_env (cpus s d) = Some x" "d \<noteq> this_cpu s" for d x
      using assms(2) that by (auto simp: preempted_def curenv_def)
    show ?thesis
      using t(1,3) p assms(1,2) ne unfolding t(2) by (metis option.inject)
  qed
  have other: "\<forall>d. d \<noteq> this_cpu s \<longrightarrow> cpu_env (cpus s d) \<noteq> Some e"
    if "env_status (envs s e) = ENV_RUNNABLE" for e
    using assms(1) that by fastforce
  have halt: ?thesis if h: "(sched_halt s :: unit kres) = Leave l t"
  proof -
    let ?u = "upd_this_cpu (\<lambda>c. c\<lparr>cpu_status := CPU_HALTED\<rparr>) (lcr3 (kern_pgdir s) (set_curenv None s))"
    have u: "this_cpu ?u = this_cpu s" "kernel_lock ?u = kernel_lock s" "envs ?u = envs s"
      "\<And>d. cpu_env (cpus ?u d) = (if d = this_cpu s then None else cpu_env (cpus s d))"
      by (simp_all add: upd_this_cpu_def)
    from unlock_held [of ?u] assms(3) u(1,2) obtain k where
      "unlock_kernel ?u = Ret () (?u\<lparr>kernel_lock := k\<rparr>)" by auto
    with h assms(5) have "t = ?u\<lparr>kernel_lock := k\<rparr>"
      by (auto simp: sched_halt_def Let_def split: if_splits)
    with u(3,4) assms(1,2) show ?thesis by (auto split: if_splits)
  qed
  let ?b = "case curenv s of None \<Rightarrow> 0 | Some c \<Rightarrow> ENVX (env_id (envs s c)) + 1"
  show ?thesis
  proof (cases "sched_search (envs s) NENV 0 ?b")
    case (Some e)
    then have "env_status (envs s e) = ENV_RUNNABLE" using sched_search_Some by blast
    with Some assms(4) run other show ?thesis by (simp add: sched_yield_def Let_def)
  next
    case None
    show ?thesis
    proof (cases "\<exists>c. curenv s = Some c \<and> env_status (envs s c) = ENV_RUNNING")
      case True
      then obtain c where c: "curenv s = Some c" "env_status (envs s c) = ENV_RUNNING" by auto
      have "\<forall>d. d \<noteq> this_cpu s \<longrightarrow> cpu_env (cpus s d) \<noteq> Some c"
        using assms(2) c(1) by (auto simp: curenv_def)
      with None c assms(4) run [of c] show ?thesis by (simp add: sched_yield_def Let_def)
    next
      case False
      with None assms(4) halt show ?thesis
        by (auto simp: sched_yield_def Let_def split: option.splits if_splits)
    qed
  qed
qed

text \<open>
  The search is not the round robin its comment describes, which would take the first runnable
  slot after the current one: the growing steps probe the slots at distance 1, 2, 4, 7 and so on.
  With only the third and the fourth slot after the current one runnable, the fourth is chosen.
\<close>

theorem sched_yield_skips_third:
  assumes "holding (this_cpu s) (kernel_lock s)" "curenv s = Some c"
    "ENVX (env_id (envs s c)) = c" "c + 4 < NENV"
    "\<forall>e. env_status (envs s e) = ENV_RUNNABLE \<longleftrightarrow> e = c + 3 \<or> e = c + 4"
    "env_pgdir (envs s (c + 4)) \<noteq> None"
  shows "\<exists>t. (sched_yield s :: unit kres) = Leave EnterUser t \<and> curenv t = Some (c + 4)"
proof -
  obtain k where k: "NENV = Suc (Suc (Suc k))" by (simp add: NENV_1024 numeral_eq_Suc)
  have "sched_search (envs s) (Suc (Suc (Suc k))) 0 (c + 1) = Some (c + 4)"
    using assms(4,5) by (simp add: Let_def NENV_1024)
  then have e: "sched_search (envs s) NENV 0 (c + 1) = Some (c + 4)" by (simp only: k)
  from assms(6) obtain pd where "env_pgdir (envs s (c + 4)) = Some pd" by auto
  from env_run_Leave [OF assms(1) this] obtain t where
    "(env_run (c + 4) s :: unit kres) = Leave EnterUser t" "curenv t = Some (c + 4)" by blast
  with e assms(2,3) show ?thesis by (simp add: sched_yield_def)
qed

section \<open>Witnesses\<close>

definition held_lock :: spinlock where
  "held_lock = \<lparr>locked = 1, lk_name = ''kernel_lock'', lk_cpu = Some 0, lk_pcs = []\<rparr>"

text \<open>CPU 0 in the kernel, no environment; then with environments that can run.\<close>

definition idle_state :: kstate where
  "idle_state = bss_state\<lparr>kernel_lock := held_lock\<rparr>"

definition runnable_state :: "nat option \<Rightarrow> nat list \<Rightarrow> kstate" where
  "runnable_state c es = set_curenv c (idle_state\<lparr>envs := (\<lambda>e. if e \<in> set es
     then zero_Env\<lparr>env_pgdir := Some 1, env_status := ENV_RUNNABLE\<rparr> else zero_Env)\<rparr>)"

lemma demo_lock:
  "holding (this_cpu idle_state) (kernel_lock idle_state)"
  "holding (this_cpu (runnable_state c es)) (kernel_lock (runnable_state c es))"
  by (simp_all add: runnable_state_def)
    (simp_all add: idle_state_def held_lock_def bss_state_def holding_def)

lemma demo_envs:
  "env_status (envs (runnable_state c es) e) = (if e \<in> set es then ENV_RUNNABLE else ENV_FREE)"
  "env_pgdir (envs (runnable_state c es) e) = (if e \<in> set es then Some 1 else None)"
  "env_id (envs (runnable_state c es) e) = 0" "curenv (runnable_state c es) = c"
  "cpu_env (cpus (runnable_state c es) d) = (if d = 0 then c else None)"
  "this_cpu (runnable_state c es) = 0"
  by (auto simp: runnable_state_def zero_Env_def curenv_def)
    (auto simp: idle_state_def bss_state_def zero_CpuInfo_def)

theorem sched_yield_finds_runnable_witness:
  "\<exists>t. (sched_yield (runnable_state None [1]) :: unit kres) = Leave EnterUser t \<and> curenv t = Some 1"
proof -
  let ?s = "runnable_state None [1]"
  have h: "\<forall>e<NENV. env_status (envs ?s e) = ENV_RUNNABLE \<longrightarrow> env_pgdir (envs ?s e) \<noteq> None"
    "\<forall>c. curenv ?s = Some c \<longrightarrow> env_status (envs ?s c) = ENV_RUNNING \<longrightarrow> env_pgdir (envs ?s c) \<noteq> None"
    by (simp_all add: demo_envs)
  have "\<exists>e<NENV. env_status (envs ?s e) = ENV_RUNNABLE"
    by (rule exI [of _ 1]) (simp add: demo_envs NENV_1024)
  with sched_yield_finds_runnable [OF demo_lock(2) h] obtain e t where
    t: "env_status (envs ?s e) = ENV_RUNNABLE" "(sched_yield ?s :: unit kres) = Leave EnterUser t"
      "curenv t = Some e" by auto
  from t(1) have "e = 1" by (simp add: demo_envs split: if_splits)
  with t(2,3) show ?thesis by blast
qed

theorem sched_yield_idle_witness:
  "(sched_yield idle_state :: unit kres) = Leave InMonitor idle_state"
proof -
  have "env_status (envs idle_state e) = ENV_FREE" for e
    by (simp add: idle_state_def bss_state_def zero_Env_def)
  with sched_yield_idle [OF demo_lock(1)] show ?thesis by simp
qed

theorem sched_yield_exclusive_witness:
  "\<exists>t. (sched_yield (runnable_state None [0]) :: unit kres) = Leave EnterUser t \<and>
    (\<forall>c d e. cpu_env (cpus t c) = Some e \<longrightarrow> cpu_env (cpus t d) = Some e \<longrightarrow> c = d)"
proof -
  let ?s = "runnable_state None [0]"
  have h: "holding (this_cpu ?s) (kernel_lock ?s)" by (rule demo_lock(2))
  obtain k where k: "NENV = Suc k" by (simp add: NENV_1024 numeral_eq_Suc)
  have "sched_search (envs ?s) (Suc k) 0 0 = Some 0" by (simp add: demo_envs Let_def)
  then have "(sched_yield ?s :: unit kres) = env_run 0 ?s"
    by (simp add: sched_yield_def demo_envs k)
  moreover have "env_pgdir (envs ?s 0) = Some 1" by (simp add: demo_envs)
  from env_run_Leave [OF h this] obtain t where "(env_run 0 ?s :: unit kres) = Leave EnterUser t" by blast
  ultimately have y: "(sched_yield ?s :: unit kres) = Leave EnterUser t" by simp
  from sched_yield_exclusive [OF _ _ h y] y show ?thesis by (auto simp: demo_envs)
qed

theorem sched_yield_skips_third_witness:
  "\<exists>t. (sched_yield (runnable_state (Some 0) [3, 4]) :: unit kres) = Leave EnterUser t \<and>
    curenv t = Some 4"
  using sched_yield_skips_third [OF demo_lock(2), of "Some 0" "[3, 4]" 0]
  by (simp add: demo_envs NENV_1024 ENVX_mod)

end
