(* ===== verification/Jos_Printf.thy ===== *)
theory Jos_Printf
  imports Jos_Memory
begin

text \<open>
  Formatted output (lib/printfmt.c, shared by the kernel and user programs) and its three
  clients: the kernel's \<open>cprintf\<close> (kern/printf.c), \<open>snprintf\<close>, and the \<open>cprintf\<close> of user
  programs (lib/printf.c). \<open>putch\<close> is the function pointer of the code and the state it works on
  is what \<open>putdat\<close> points to. The arguments after the format are the words of the stack from \<open>ap\<close>
  on, strings are read from memory through \<open>rd\<close>, where \<open>None\<close> is a page fault. Overflow of a
  signed \<open>int\<close>, which C leaves undefined, is not represented: widths and precisions are integers.
\<close>

section \<open>Numbers\<close>

definition digit_char :: "u64 \<Rightarrow> u32" where
  "digit_char d = ucast (chars ''0123456789abcdef'' ! unat d)"

lemma unat_ucast_32_64: "unat (ucast (w :: u32) :: u64) = unat w"
  by (simp add: unsigned_ucast_eq take_bit_nat_eq_self_iff order_less_trans [OF unsigned_less])

text \<open>
  The bases used are 8, 10 and 16; the guard on the base makes the function total (with base 0
  or 1 the C function would not return).
\<close>

function printnum :: "(u32 \<Rightarrow> 's \<Rightarrow> 's) \<Rightarrow> u64 \<Rightarrow> u32 \<Rightarrow> int \<Rightarrow> u32 \<Rightarrow> 's \<Rightarrow> 's" where
  "printnum putch num base width padc s =
     (let s = (if 2 \<le> base \<and> ucast base \<le> num
               then printnum putch (num div ucast base) base (width - 1) padc s
               else (putch padc ^^ nat (width - 1)) s)
      in putch (digit_char (num mod ucast base)) s)"
  by pat_completeness auto

termination
proof (relation "measure (\<lambda>(putch, num, base, width, padc, s). unat num)")
  fix num :: u64 and base :: u32 and putch :: "u32 \<Rightarrow> 's \<Rightarrow> 's" and width :: int and padc s
  assume a: "2 \<le> base \<and> ucast base \<le> num"
  then have "2 \<le> unat base" "unat base \<le> unat num"
    by (auto simp: word_le_nat_alt unat_ucast_32_64)
  then have "unat num div unat base < unat num" by simp
  then show "((putch, num div ucast base, base, width - 1, padc, s), putch, num, base, width, padc, s)
      \<in> measure (\<lambda>(putch, num, base, width, padc, s). unat num)"
    by (simp add: unat_div_distrib unat_ucast_32_64)
qed simp

declare printnum.simps [simp del]

section \<open>Arguments\<close>

definition getuint :: "(nat \<Rightarrow> u32) \<Rightarrow> nat \<Rightarrow> nat \<Rightarrow> u64 \<times> nat" where
  "getuint args ap lflag =
     (if 2 \<le> lflag then (push_bit 32 (ucast (args (ap + 1))) OR ucast (args ap), ap + 2)
      else (ucast (args ap), ap + 1))"

definition getint :: "(nat \<Rightarrow> u32) \<Rightarrow> nat \<Rightarrow> nat \<Rightarrow> u64 \<times> nat" where
  "getint args ap lflag =
     (if 2 \<le> lflag then (push_bit 32 (ucast (args (ap + 1))) OR ucast (args ap), ap + 2)
      else (scast (args ap), ap + 1))"

section \<open>Strings\<close>

text \<open>
  A string is given by its characters, counted from its address; a literal ends with zeros. The
  loop over a string without a limit can be cut off after \<open>2 ^ 32\<close> rounds: the address has
  then come back to its start without a zero byte in all of memory, and the loop never ends.
\<close>

definition lit :: "string \<Rightarrow> nat \<Rightarrow> u8 option" where
  "lit cs k = Some (if k < length cs then of_char (cs ! k) else 0)"

definition str_at :: "(u32 \<Rightarrow> u8 option) \<Rightarrow> u32 \<Rightarrow> nat \<Rightarrow> u8 option" where
  "str_at rd p = (if p = 0 then lit ''(null)'' else (\<lambda>k. rd (p + of_nat k)))"

definition fault_msg :: string where "fault_msg = ''page fault in the kernel''"

text \<open>\<open>strnlen\<close> from position \<open>k\<close>, with \<open>size\<close> characters left to look at.\<close>

fun strnlen_at :: "(nat \<Rightarrow> u8 option) \<Rightarrow> nat \<Rightarrow> nat \<Rightarrow> nat option" where
  "strnlen_at r 0 k = Some k"
| "strnlen_at r (Suc size') k =
     (case r k of None \<Rightarrow> None | Some b \<Rightarrow> if b = 0 then Some k else strnlen_at r size' (Suc k))"

definition visible :: "bool \<Rightarrow> u32 \<Rightarrow> u32" where
  "visible altflag ch = (if altflag \<and> (ch <s 32 \<or> 126 <s ch) then 63 else ch)"

fun str_loop :: "(u32 \<Rightarrow> 's \<Rightarrow> 's) \<Rightarrow> (nat \<Rightarrow> u8 option) \<Rightarrow> bool \<Rightarrow> nat \<Rightarrow> nat \<Rightarrow> int \<Rightarrow> int \<Rightarrow> 's
    \<Rightarrow> ('s, int) outcome" where
  "str_loop putch r altflag 0 k precision width s = Leave Spinning s"
| "str_loop putch r altflag (Suc n) k precision width s =
     (case r k of
        None \<Rightarrow> Panic fault_msg
      | Some b \<Rightarrow>
          if b = 0 then Ret width s
          else if precision < 0
          then str_loop putch r altflag n (Suc k) precision (width - 1) (putch (visible altflag (scast b)) s)
          else if 0 \<le> precision - 1
          then str_loop putch r altflag n (Suc k) (precision - 1) (width - 1)
                 (putch (visible altflag (scast b)) s)
          else Ret width s)"

definition fmt_string :: "(u32 \<Rightarrow> 's \<Rightarrow> 's) \<Rightarrow> (nat \<Rightarrow> u8 option) \<Rightarrow> u32 \<Rightarrow> int \<Rightarrow> int \<Rightarrow> bool \<Rightarrow> 's
    \<Rightarrow> ('s, unit) outcome" where
  "fmt_string putch r padc width precision altflag s =
     (let body = (\<lambda>width s.
            bindO (str_loop putch r altflag (2 ^ 32) 0 precision width s)
              (\<lambda>width s. Ret () ((putch 32 ^^ nat width) s)))
      in if 0 < width \<and> padc \<noteq> 45 then
           (case strnlen_at r (unat (word_of_int precision :: u32)) 0 of
              None \<Rightarrow> Panic fault_msg
            | Some l \<Rightarrow> body (min (width - int l) 0) ((putch padc ^^ nat (width - int l)) s))
         else body width s)"

section \<open>Error codes\<close>

definition error_string :: "(nat \<times> string) list" where
  "error_string =
     [(nat E_UNSPECIFIED, ''unspecified error''), (nat E_BAD_ENV, ''bad environment''),
      (nat E_INVAL, ''invalid parameter''), (nat E_NO_MEM, ''out of memory''),
      (nat E_NO_FREE_ENV, ''out of environments''), (nat E_FAULT, ''segmentation fault''),
      (nat E_IPC_NOT_RECV, ''env is not recving''), (nat E_EOF, ''unexpected end of file'')]"

text \<open>
  The two recursive calls \<open>printfmt (..., "error %d", err)\<close> and \<open>printfmt (..., "%s", p)\<close> are
  written out; \<open>printfmt_error\<close> and \<open>printfmt_s\<close> show that they are what \<open>printfmt\<close> does.
\<close>

definition fmt_error :: "(u32 \<Rightarrow> 's \<Rightarrow> 's) \<Rightarrow> int \<Rightarrow> 's \<Rightarrow> ('s, unit) outcome" where
  "fmt_error putch err s =
     (let err = (if err < 0 then - err else err) in
      case (if MAXERROR \<le> err then None else map_of error_string (nat err)) of
        None \<Rightarrow> Ret () (printnum putch (word_of_int err) 10 (- 1) 32
                         (fold putch (map ucast (chars ''error '')) s))
      | Some msg \<Rightarrow> fmt_string putch (lit msg) 32 (- 1) (- 1) False s)"

section \<open>The format\<close>

text \<open>\<open>fmt\<close> is what is left of the format, without its final zero byte.\<close>

fun scan_digits :: "int \<Rightarrow> u8 list \<Rightarrow> int \<times> u8 list" where
  "scan_digits precision [] = (precision, [])"
| "scan_digits precision (ch # fmt) =
     (if 48 \<le> ch \<and> ch \<le> 57 then scan_digits (precision * 10 + uint ch - 48) fmt
      else (precision, ch # fmt))"

lemma scan_digits_length: "length (snd (scan_digits p fmt)) \<le> length fmt"
  by (induction p fmt rule: scan_digits.induct) auto

lemma scan_digits_le: "(p', fmt') = scan_digits p fmt \<Longrightarrow> length fmt' \<le> length fmt"
  by (metis scan_digits_length snd_conv)

text \<open>The local variables that the flags of an escape sequence set.\<close>

record spec =
  padc :: u32
  width :: int
  precision :: int
  lflag :: nat
  altflag :: bool
  next_arg :: nat

definition init_spec :: "nat \<Rightarrow> spec" where
  "init_spec ap = \<lparr>padc = 32, width = - 1, precision = - 1, lflag = 0, altflag = False, next_arg = ap\<rparr>"

definition process_precision :: "int \<Rightarrow> spec \<Rightarrow> spec" where
  "process_precision n v =
     (if width v < 0 then v\<lparr>width := n, precision := - 1\<rparr> else v\<lparr>precision := n\<rparr>)"

text \<open>
  The cases of the switch that go back to \<open>reswitch\<close>: they collect the flags up to the conversion
  character, which is returned with what follows it (0 at the end of the format).
\<close>

function reswitch :: "(nat \<Rightarrow> u32) \<Rightarrow> u8 list \<Rightarrow> spec \<Rightarrow> u8 \<times> u8 list \<times> spec" where
  "reswitch args [] v = (0, [], v)"
| "reswitch args (ch # fmt) v =
     (if ch = of_char CHR ''-'' then reswitch args fmt (v\<lparr>padc := of_char CHR ''-''\<rparr>)
      else if ch = of_char CHR ''0'' then reswitch args fmt (v\<lparr>padc := of_char CHR ''0''\<rparr>)
      else if 49 \<le> ch \<and> ch \<le> 57 then
        (case scan_digits (uint ch - 48) fmt of (n, fmt) \<Rightarrow> reswitch args fmt (process_precision n v))
      else if ch = of_char CHR ''*'' then
        reswitch args fmt
          (process_precision (sint (args (next_arg v))) (v\<lparr>next_arg := next_arg v + 1\<rparr>))
      else if ch = of_char CHR ''.'' then
        reswitch args fmt (if width v < 0 then v\<lparr>width := 0\<rparr> else v)
      else if ch = of_char CHR ''#'' then reswitch args fmt (v\<lparr>altflag := True\<rparr>)
      else if ch = of_char CHR ''l'' then reswitch args fmt (v\<lparr>lflag := lflag v + 1\<rparr>)
      else (ch, fmt, v))"
  by pat_completeness auto
termination
  by (relation "measure (\<lambda>(args, fmt, v). length fmt)")
    (auto intro: le_imp_less_Suc scan_digits_le)

lemma reswitch_length: "length (fst (snd (reswitch args fmt v))) \<le> length fmt"
proof (induction args fmt v rule: reswitch.induct)
  case (2 args ch fmt v)
  have d: "length x \<le> Suc (length fmt)"
    if "length x \<le> length f" "scan_digits p fmt = (n, f)" for x f p n
    using that scan_digits_le [OF that(2) [symmetric]] by simp
  from 2 show ?case
    by (auto split: prod.split intro: le_SucI d)
qed simp

text \<open>
  The conversions. An unknown one prints the percent sign and goes back to \<open>start\<close>, the characters
  after it: the loop backwards stops there, since no flag is a percent sign. The result is what is
  left of the format and the next argument.
\<close>

definition convert :: "(u32 \<Rightarrow> 's \<Rightarrow> 's) \<Rightarrow> (u32 \<Rightarrow> u8 option) \<Rightarrow> (nat \<Rightarrow> u32) \<Rightarrow> u8 list \<Rightarrow> u8 \<Rightarrow> u8 list \<Rightarrow>
    spec \<Rightarrow> 's \<Rightarrow> ('s, u8 list \<times> nat) outcome" where
  "convert putch rd args start ch fmt v s =
     (let ap = next_arg v; arg = args ap;
          number = (\<lambda>(num, ap) base s.
            Ret (fmt, ap) (printnum putch num base (width v) (padc v) s))
      in
      if ch = of_char CHR ''c'' then Ret (fmt, ap + 1) (putch arg s)
      else if ch = of_char CHR ''e'' then
        bindO (fmt_error putch (sint arg) s) (\<lambda>_ s. Ret (fmt, ap + 1) s)
      else if ch = of_char CHR ''s'' then
        bindO (fmt_string putch (str_at rd arg) (padc v) (width v) (precision v) (altflag v) s)
          (\<lambda>_ s. Ret (fmt, ap + 1) s)
      else if ch = of_char CHR ''d'' then
        (case getint args ap (lflag v) of (num, ap) \<Rightarrow>
          if num <s 0 then number (- num, ap) 10 (putch (of_char CHR ''-'') s)
          else number (num, ap) 10 s)
      else if ch = of_char CHR ''u'' then number (getuint args ap (lflag v)) 10 s
      else if ch = of_char CHR ''o'' then number (getuint args ap (lflag v)) 8 s
      else if ch = of_char CHR ''p'' then
        number (ucast arg, ap + 1) 16 (putch (of_char CHR ''x'') (putch (of_char CHR ''0'') s))
      else if ch = of_char CHR ''x'' then number (getuint args ap (lflag v)) 16 s
      else if ch = of_char CHR ''%'' then Ret (fmt, ap) (putch (ucast ch) s)
      else Ret (start, ap) (putch (of_char CHR ''%'') s))"

lemma convert_length:
  "convert putch rd args start ch fmt v s = Ret (fmt', ap') s' \<Longrightarrow> fmt' = start \<or> fmt' = fmt"
  by (auto simp: convert_def Let_def bindO_eq_Ret split: prod.splits if_splits)

function vprintfmt :: "(u32 \<Rightarrow> 's \<Rightarrow> 's) \<Rightarrow> (u32 \<Rightarrow> u8 option) \<Rightarrow> (nat \<Rightarrow> u32) \<Rightarrow> u8 list \<Rightarrow> nat \<Rightarrow> 's
    \<Rightarrow> ('s, unit) outcome" where
  "vprintfmt putch rd args [] ap s = Ret () s"
| "vprintfmt putch rd args (ch # fmt) ap s =
     (if ch = of_char CHR ''%'' then
        (case reswitch args fmt (init_spec ap) of (c, rest, v) \<Rightarrow>
          bindO (convert putch rd args fmt c rest v s)
            (\<lambda>(fmt, ap) s. vprintfmt putch rd args fmt ap s))
      else if ch = 0 then Ret () s
      else vprintfmt putch rd args fmt ap (putch (ucast ch) s))"
  by pat_completeness auto
termination
proof (relation "measure (\<lambda>(putch, rd, args, fmt, r). length fmt)", goal_cases)
  case (2 putch rd args ch fmt ap s x c y rest v aa sa f u)
  then show ?case
    using reswitch_length [of args fmt "init_spec ap"]
    by (cases f) (auto dest!: convert_length arg_cong [where f = "\<lambda>x. length (fst (snd x))"])
qed auto

declare vprintfmt.simps [simp del]

section \<open>Output does not depend on where it goes\<close>

text \<open>
  What \<open>vprintfmt\<close> asks of its \<open>putch\<close>: nothing but to be called. If \<open>h\<close> carries one sink over
  to another call by call, it carries over the whole output.
\<close>

fun map_state :: "('s \<Rightarrow> 't) \<Rightarrow> ('s, 'a) outcome \<Rightarrow> ('t, 'a) outcome" where
  "map_state h (Ret a s) = Ret a (h s)"
| "map_state h (Panic m) = Panic m"
| "map_state h (Leave l s) = Leave l (h s)"

locale sink_hom =
  fixes put1 :: "u32 \<Rightarrow> 'a \<Rightarrow> 'a" and put2 :: "u32 \<Rightarrow> 'b \<Rightarrow> 'b" and h :: "'a \<Rightarrow> 'b"
  assumes put: "h (put1 c x) = put2 c (h x)"
begin

lemma pow_hom: "h ((put1 c ^^ n) x) = (put2 c ^^ n) (h x)"
  by (induction n) (simp_all add: put)

lemma fold_hom: "h (fold put1 cs x) = fold put2 cs (h x)"
  by (induction cs arbitrary: x) (simp_all add: put)

lemma printnum_hom: "h (printnum put1 num base w ch x) = printnum put2 num base w ch (h x)"
proof (induction num arbitrary: w x rule: measure_induct_rule [of unat])
  case (less num)
  have "unat (num div ucast base) < unat num" if "2 \<le> base" "ucast base \<le> num"
  proof -
    have "2 \<le> unat base" "unat base \<le> unat num"
      using that by (auto simp: word_le_nat_alt unat_ucast_32_64)
    then show ?thesis by (simp add: unat_div_distrib unat_ucast_32_64)
  qed
  with less show ?case
    by (subst (1 2) printnum.simps) (simp add: Let_def put pow_hom)
qed

lemma str_loop_hom:
  "str_loop put2 r alt n k pr w (h x) = map_state h (str_loop put1 r alt n k pr w x)"
  by (induction n arbitrary: k pr w x) (simp_all flip: put split: option.split)

lemma bind_hom:
  "y = map_state h x \<Longrightarrow> (\<And>a s. g a (h s) = map_state h (f a s)) \<Longrightarrow>
    bindO y g = map_state h (bindO x f)"
  by (cases x) simp_all

lemma fmt_string_hom:
  "fmt_string put2 r ch w pr alt (h x) = map_state h (fmt_string put1 r ch w pr alt x)"
  unfolding fmt_string_def Let_def
  by (auto intro!: bind_hom simp: pow_hom str_loop_hom simp flip: pow_hom split: option.split)

lemma fmt_error_hom: "fmt_error put2 e (h x) = map_state h (fmt_error put1 e x)"
  by (simp add: fmt_error_def Let_def fmt_string_hom fold_hom printnum_hom split: option.split)

lemma convert_hom:
  "convert put2 rd args start ch fmt v (h x) = map_state h (convert put1 rd args start ch fmt v x)"
  unfolding convert_def Let_def
  by (auto simp: fmt_error_hom fmt_string_hom put printnum_hom intro!: bind_hom split: prod.split)

lemma vprintfmt_hom:
  "vprintfmt put2 rd args fmt ap (h x) = map_state h (vprintfmt put1 rd args fmt ap x)"
proof (induction fmt arbitrary: ap x rule: measure_induct_rule [of length])
  case (less fmt)
  show ?case
  proof (cases fmt)
    case Nil
    then show ?thesis by (simp add: vprintfmt.simps)
  next
    case (Cons ch f)
    obtain c rest v where r: "reswitch args f (init_spec ap) = (c, rest, v)" by (metis prod_cases3)
    have l: "length rest \<le> length f" using reswitch_length [of args f "init_spec ap"] r by simp
    have "bindO (convert put2 rd args f c rest v (h x)) (\<lambda>(fmt, ap) s. vprintfmt put2 rd args fmt ap s) =
        map_state h (bindO (convert put1 rd args f c rest v x)
          (\<lambda>(fmt, ap) s. vprintfmt put1 rd args fmt ap s))"
    proof (cases "convert put1 rd args f c rest v x")
      case (Ret a s)
      obtain f' ap' where a: "a = (f', ap')" by (cases a)
      from convert_length [of put1 rd args f c rest v x f' ap' s] Ret a l Cons
      have "length f' < length fmt" by auto
      with less [of f' ap' s] Ret a show ?thesis by (simp add: convert_hom)
    qed (simp_all add: convert_hom)
    with Cons r less [of f ap "put1 (ucast ch) x"] show ?thesis
      by (simp add: vprintfmt.simps put)
  qed
qed

end

section \<open>The kernel's cprintf (kern/printf.c)\<close>

text \<open>
  \<open>putch\<close> increments its copy of the pointer \<open>cnt\<close> and not what it points to, so the count that
  \<open>vcprintf\<close> returns stays 0. Strings are read through the loaded page directory.
\<close>

definition kputch :: "u32 \<Rightarrow> kstate \<Rightarrow> kstate" where
  "kputch ch s = s\<lparr>cons := cputchar ch (cons s)\<rparr>"

definition rd_kernel :: "kstate \<Rightarrow> u32 \<Rightarrow> u8 option" where
  "rd_kernel s va = (case load8 va s of Ret b _ \<Rightarrow> Some b | _ \<Rightarrow> None)"

definition vcprintf :: "u8 list \<Rightarrow> (nat \<Rightarrow> u32) \<Rightarrow> nat \<Rightarrow> kstate \<Rightarrow> int kres" where
  "vcprintf fmt args ap s =
     (let cnt = 0 in bindO (vprintfmt kputch (rd_kernel s) args fmt ap s) (\<lambda>_ s. Ret cnt s))"

definition cprintf :: "u8 list \<Rightarrow> (nat \<Rightarrow> u32) \<Rightarrow> kstate \<Rightarrow> int kres" where
  "cprintf fmt args s = vcprintf fmt args 0 s"

section \<open>snprintf\<close>

text \<open>
  The buffer is given by its bytes, positions count from its start; \<open>None\<close> is the null pointer.
\<close>

record sprintbuf =
  sb_mem :: "nat \<Rightarrow> u8"
  sb_buf :: int
  sb_ebuf :: int
  sb_cnt :: int

definition sprintputch :: "u32 \<Rightarrow> sprintbuf \<Rightarrow> sprintbuf" where
  "sprintputch ch b =
     (let b = b\<lparr>sb_cnt := sb_cnt b + 1\<rparr> in
      if sb_buf b < sb_ebuf b
      then b\<lparr>sb_mem := (sb_mem b)(nat (sb_buf b) := ucast ch), sb_buf := sb_buf b + 1\<rparr>
      else b)"

definition vsnprintf :: "(nat \<Rightarrow> u8) option \<Rightarrow> int \<Rightarrow> (u32 \<Rightarrow> u8 option) \<Rightarrow> u8 list \<Rightarrow> (nat \<Rightarrow> u32) \<Rightarrow> nat
    \<Rightarrow> ((nat \<Rightarrow> u8) option, int) outcome" where
  "vsnprintf buf n rd fmt args ap =
     (case buf of
        None \<Rightarrow> Ret (- E_INVAL) buf
      | Some mem \<Rightarrow>
          if n < 1 then Ret (- E_INVAL) buf
          else
            (case vprintfmt sprintputch rd args fmt ap
                    \<lparr>sb_mem = mem, sb_buf = 0, sb_ebuf = 0 + n - 1, sb_cnt = 0\<rparr> of
               Ret _ b \<Rightarrow> Ret (sb_cnt b) (Some ((sb_mem b)(nat (sb_buf b) := 0)))
             | Panic m \<Rightarrow> Panic m
             | Leave l b \<Rightarrow> Leave l (Some (sb_mem b))))"

definition snprintf :: "(nat \<Rightarrow> u8) option \<Rightarrow> int \<Rightarrow> (u32 \<Rightarrow> u8 option) \<Rightarrow> u8 list \<Rightarrow> (nat \<Rightarrow> u32)
    \<Rightarrow> ((nat \<Rightarrow> u8) option, int) outcome" where
  "snprintf buf n rd fmt args = vsnprintf buf n rd fmt args 0"

section \<open>The cprintf of user programs (lib/printf.c)\<close>

text \<open>\<open>sys_cputs_calls\<close> lists what each call of \<open>sys_cputs\<close> passed, in order.\<close>

record printbuf =
  pb_idx :: nat
  pb_cnt :: int
  pb_mem :: "nat \<Rightarrow> u8"
  sys_cputs_calls :: "u8 list list"

definition pb_flush :: "printbuf \<Rightarrow> printbuf" where
  "pb_flush b = b\<lparr>sys_cputs_calls := sys_cputs_calls b @ [map (pb_mem b) [0..<pb_idx b]]\<rparr>"

definition uputch :: "u32 \<Rightarrow> printbuf \<Rightarrow> printbuf" where
  "uputch ch b =
     (let b = b\<lparr>pb_mem := (pb_mem b)(pb_idx b := ucast ch), pb_idx := pb_idx b + 1\<rparr>;
          b = (if pb_idx b = 256 - 1 then (pb_flush b)\<lparr>pb_idx := 0\<rparr> else b)
      in b\<lparr>pb_cnt := pb_cnt b + 1\<rparr>)"

definition uvcprintf :: "(nat \<Rightarrow> u8) \<Rightarrow> (u32 \<Rightarrow> u8 option) \<Rightarrow> u8 list \<Rightarrow> (nat \<Rightarrow> u32) \<Rightarrow> nat
    \<Rightarrow> (printbuf, int) outcome" where
  "uvcprintf stack rd fmt args ap =
     bindO (vprintfmt uputch rd args fmt ap
              \<lparr>pb_idx = 0, pb_cnt = 0, pb_mem = stack, sys_cputs_calls = []\<rparr>)
       (\<lambda>_ b. let b = pb_flush b in Ret (pb_cnt b) b)"

definition ucprintf :: "(nat \<Rightarrow> u8) \<Rightarrow> (u32 \<Rightarrow> u8 option) \<Rightarrow> u8 list \<Rightarrow> (nat \<Rightarrow> u32)
    \<Rightarrow> (printbuf, int) outcome" where
  "ucprintf stack rd fmt args = uvcprintf stack rd fmt args 0"

section \<open>The three sinks\<close>

text \<open>The reference sink collects the characters; every other one folds \<open>putch\<close> over them.\<close>

definition collect :: "u32 \<Rightarrow> u32 list \<Rightarrow> u32 list" where
  "collect ch cs = cs @ [ch]"

interpretation console: sink_hom collect kputch "\<lambda>cs. fold kputch cs s" for s
  by unfold_locales (simp add: collect_def)

interpretation sprint: sink_hom collect sprintputch "\<lambda>cs. fold sprintputch cs b" for b
  by unfold_locales (simp add: collect_def)

interpretation user: sink_hom collect uputch "\<lambda>cs. fold uputch cs b" for b
  by unfold_locales (simp add: collect_def)

abbreviation formatted :: "(u32 \<Rightarrow> u8 option) \<Rightarrow> u8 list \<Rightarrow> (nat \<Rightarrow> u32) \<Rightarrow> (u32 list, unit) outcome" where
  "formatted rd fmt args \<equiv> vprintfmt collect rd args fmt 0 []"

lemmas sink_output =
  console.vprintfmt_hom [where x = "[]", simplified]
  sprint.vprintfmt_hom [where x = "[]", simplified]
  user.vprintfmt_hom [where x = "[]", simplified]

section \<open>Numerals\<close>

fun digits_of :: "nat \<Rightarrow> nat \<Rightarrow> nat list" where
  "digits_of b n = (if 2 \<le> b \<and> b \<le> n then digits_of b (n div b) @ [n mod b] else [n mod b])"

declare digits_of.simps [simp del]

lemma digits_of_ne: "digits_of b n \<noteq> []"
  by (subst digits_of.simps) simp

lemma digits_of_less: "2 \<le> b \<Longrightarrow> \<forall>d\<in>set (digits_of b n). d < b"
  by (induction b n rule: digits_of.induct) (subst digits_of.simps, auto)

lemma digits_of_value: "2 \<le> b \<Longrightarrow> foldl (\<lambda>a d. a * b + d) 0 (digits_of b n) = n"
  by (induction b n rule: digits_of.induct) (subst digits_of.simps, auto)

lemma digits_of_hd: "2 \<le> b \<Longrightarrow> n \<noteq> 0 \<Longrightarrow> hd (digits_of b n) \<noteq> 0"
proof (induction b n rule: digits_of.induct)
  case (1 b n)
  then show ?case
    by (subst digits_of.simps) (auto simp: digits_of_ne hd_append div_eq_0_iff)
qed

lemma collect_pow: "(collect ch ^^ n) cs = cs @ replicate n ch"
  by (induction n) (simp_all add: collect_def replicate_append_same)

lemma printnum_digits:
  assumes "2 \<le> base"
  defines "ds \<equiv> \<lambda>num :: u64. digits_of (unat base) (unat num)"
  shows "printnum collect num base w ch cs =
    cs @ replicate (nat (w - int (length (ds num)))) ch @ map (\<lambda>d. digit_char (of_nat d)) (ds num)"
proof (induction num arbitrary: w rule: measure_induct_rule [of unat])
  case (less num)
  have b: "2 \<le> unat base" using assms(1) by (simp add: word_le_nat_alt)
  have "unat (num mod ucast base) = unat num mod unat base"
    by (simp add: unat_mod_distrib unat_ucast_32_64)
  then have "of_nat (unat (num mod ucast base)) = (of_nat (unat num mod unat base) :: u64)" by simp
  then have m: "num mod ucast base = of_nat (unat num mod unat base)" by simp
  show ?case
  proof (cases "ucast base \<le> num")
    case True
    then have le: "unat base \<le> unat num" by (simp add: word_le_nat_alt unat_ucast_32_64)
    have u: "unat (num div ucast base) = unat num div unat base"
      by (simp add: unat_div_distrib unat_ucast_32_64)
    have "unat num div unat base < unat num" using b le by simp
    with less [of "num div ucast base" "w - 1"] u have
      i: "printnum collect (num div ucast base) base (w - 1) ch cs =
        cs @ replicate (nat (w - 1 - int (length (digits_of (unat base) (unat num div unat base))))) ch @
        map (\<lambda>d. digit_char (of_nat d)) (digits_of (unat base) (unat num div unat base))"
      by (simp add: ds_def)
    have d: "ds num = digits_of (unat base) (unat num div unat base) @ [unat num mod unat base]"
      using b le by (simp add: ds_def digits_of.simps [of _ "unat num"])
    show ?thesis
      unfolding d using True assms(1) i m
      by (subst printnum.simps) (simp add: Let_def collect_def algebra_simps)
  next
    case False
    then have le: "\<not> unat base \<le> unat num" by (simp add: word_le_nat_alt unat_ucast_32_64)
    have d: "ds num = [unat num mod unat base]"
      using b le by (simp add: ds_def digits_of.simps [of _ "unat num"])
    show ?thesis
      unfolding d using False m
      by (subst printnum.simps) (simp add: Let_def collect_pow, simp add: collect_def)
  qed
qed

section \<open>Properties\<close>

text \<open>\<open>printfmt\<close> does what the cases of \<open>%e\<close> write out for its two calls.\<close>

lemma fold_literal:
  "list_all (\<lambda>c. c \<noteq> of_char CHR ''%'' \<and> c \<noteq> 0) cs \<Longrightarrow>
    vprintfmt putch rd args (cs @ fmt) ap s = vprintfmt putch rd args fmt ap (fold putch (map ucast cs) s)"
  by (induction cs arbitrary: s) (simp_all add: vprintfmt.simps)

lemma printfmt_error:
  "vprintfmt putch rd args (chars ''error %d'') ap s =
    (let num = scast (args ap); s = fold putch (map ucast (chars ''error '')) s in
     Ret () (if num <s 0 then printnum putch (- num) 10 (- 1) 32 (putch 45 s)
             else printnum putch num 10 (- 1) 32 s))"
proof -
  have c: "chars ''error %d'' = chars ''error '' @ [37, 100]" by (simp add: chars_def)
  show ?thesis
    unfolding c
    by (subst fold_literal)
      (simp_all add: chars_def vprintfmt.simps convert_def getint_def init_spec_def Let_def)
qed

lemma printfmt_s:
  "vprintfmt putch rd args (chars ''%s'') ap s =
    fmt_string putch (str_at rd (args ap)) 32 (- 1) (- 1) False s"
  by (cases "fmt_string putch (str_at rd (args ap)) 32 (- 1) (- 1) False s")
    (simp_all add: chars_def vprintfmt.simps convert_def init_spec_def Let_def)

text \<open>
  \<open>printnum\<close> prints the numeral of its argument: digits below the base whose value is the
  number, without a leading zero, padded on the left to the width.
\<close>

theorem printnum_prints_numeral:
  assumes "2 \<le> base" "base \<le> 16"
  shows "\<exists>ds. printnum collect num base w ch cs =
      cs @ replicate (nat (w - int (length ds))) ch @
      map (\<lambda>d. ucast (chars ''0123456789abcdef'' ! d)) ds \<and>
    foldl (\<lambda>a d. a * unat base + d) 0 ds = unat num \<and> (\<forall>d\<in>set ds. d < unat base) \<and>
    ds \<noteq> [] \<and> (num \<noteq> 0 \<longrightarrow> hd ds \<noteq> 0)"
proof -
  let ?ds = "digits_of (unat base) (unat num)"
  have b: "2 \<le> unat base" "unat base \<le> 16" using assms by (simp_all add: word_le_nat_alt)
  have "digit_char (of_nat d) = ucast (chars ''0123456789abcdef'' ! d)" if "d \<in> set ?ds" for d
  proof -
    have "d < 16" using digits_of_less [OF b(1)] that b(2) by fastforce
    then have "unat (of_nat d :: u64) = d" by (simp add: unat_of_nat take_bit_nat_eq_self_iff)
    then show ?thesis by (simp add: digit_char_def)
  qed
  then have e: "map (\<lambda>d. digit_char (of_nat d)) ?ds = map (\<lambda>d. ucast (chars ''0123456789abcdef'' ! d)) ?ds"
    by simp
  have "num \<noteq> 0 \<longrightarrow> hd ?ds \<noteq> 0" using digits_of_hd [OF b(1), of "unat num"] unsigned_eq_0_iff [of num] by blast
  with printnum_digits [OF assms(1), of num w ch cs] e digits_of_value [OF b(1)] digits_of_less [OF b(1)]
    digits_of_ne show ?thesis by (intro exI [of _ ?ds] conjI) simp_all
qed

lemma fold_sprintputch:
  "sb_buf b = int p \<Longrightarrow> sb_ebuf b = int e \<Longrightarrow> p \<le> e \<Longrightarrow>
    (let t = fold sprintputch cs b; m = min (length cs) (e - p) in
      sb_cnt t = sb_cnt b + int (length cs) \<and> sb_buf t = int (p + m) \<and>
      (\<forall>k. sb_mem t k = (if p \<le> k \<and> k < p + m then ucast (cs ! (k - p)) else sb_mem b k)))"
proof (induction cs arbitrary: b p)
  case (Cons c cs)
  show ?case
  proof (cases "p < e")
    case True
    let ?b = "sprintputch c b"
    have b: "sb_buf ?b = int (Suc p)" "sb_ebuf ?b = int e" "sb_cnt ?b = sb_cnt b + 1"
      "sb_mem ?b = (sb_mem b)(p := ucast c)"
      using True Cons.prems by (simp_all add: sprintputch_def)
    have m: "p + min (length (c # cs)) (e - p) = Suc p + min (length cs) (e - Suc p)"
      using True by simp
    show ?thesis
      using Cons.IH [OF b(1,2)] True b(3,4) unfolding Let_def fold_simps m
      by (auto simp: nth_Cons')
  next
    case False
    let ?b = "sprintputch c b"
    have b: "sb_buf ?b = int p" "sb_ebuf ?b = int e" "sb_cnt ?b = sb_cnt b + 1" "sb_mem ?b = sb_mem b"
      using False Cons.prems by (simp_all add: sprintputch_def)
    from Cons.IH [OF b(1,2) Cons.prems(3)] False b(3,4) show ?thesis by (auto simp: Let_def)
  qed
qed auto

text \<open>
  C18: \<open>snprintf\<close> stores the formatted output cut to \<open>n - 1\<close> characters, ends it with a zero byte,
  writes nothing beyond the \<open>n\<close> bytes of the buffer, and returns the length of the whole output.
\<close>

theorem snprintf_bounded:
  assumes "formatted rd fmt args = Ret () cs" "0 < n"
  defines "m \<equiv> min (length cs) (n - 1)"
  shows "\<exists>mem'. snprintf (Some mem) (int n) rd fmt args = Ret (int (length cs)) (Some mem') \<and>
    (\<forall>k<m. mem' k = ucast (cs ! k)) \<and> mem' m = 0 \<and> (\<forall>k\<ge>n. mem' k = mem k)"
proof -
  let ?b = "\<lparr>sb_mem = mem, sb_buf = 0, sb_ebuf = 0 + int n - 1, sb_cnt = 0\<rparr>"
  have v: "vprintfmt sprintputch rd args fmt 0 ?b = Ret () (fold sprintputch cs ?b)"
    by (simp add: sink_output(2) assms(1))
  have "sb_ebuf ?b = int (n - 1)" using assms(2) by simp
  from fold_sprintputch [of ?b 0 "n - 1" cs, OF _ this]
  have f: "sb_cnt (fold sprintputch cs ?b) = int (length cs)" "sb_buf (fold sprintputch cs ?b) = int m"
    "\<And>k. sb_mem (fold sprintputch cs ?b) k = (if k < m then ucast (cs ! k) else mem k)"
    by (simp_all add: Let_def m_def)
  have "\<not> int n < 1" "m < n" using assms(2) by (auto simp: m_def)
  with f v show ?thesis
    unfolding snprintf_def vsnprintf_def by (intro exI conjI) (simp, simp_all)
qed

lemma fold_uputch:
  "pb_idx b < 255 \<Longrightarrow>
    (let t = fold uputch cs b in pb_idx t < 255 \<and> pb_cnt t = pb_cnt b + int (length cs) \<and>
      concat (sys_cputs_calls (pb_flush t)) = concat (sys_cputs_calls (pb_flush b)) @ map ucast cs \<and>
      (list_all (\<lambda>c. length c \<le> 255) (sys_cputs_calls b) \<longrightarrow>
       list_all (\<lambda>c. length c \<le> 255) (sys_cputs_calls t)))"
proof (induction cs arbitrary: b)
  case (Cons c cs)
  let ?b = "uputch c b"
  have "map (f(i := v)) [0..<Suc i] = map f [0..<i] @ [v]" for f :: "nat \<Rightarrow> u8" and i v by simp
  from this [of _ 254] have m: "map (f(254 := v)) [0..<255] = map f [0..<254] @ [v]"
    for f :: "nat \<Rightarrow> u8" and v by (simp del: upt_Suc)
  have "pb_idx ?b < 255" "pb_cnt ?b = pb_cnt b + 1"
    "concat (sys_cputs_calls (pb_flush ?b)) = concat (sys_cputs_calls (pb_flush b)) @ [ucast c]"
    "list_all (\<lambda>c. length c \<le> 255) (sys_cputs_calls b) \<longrightarrow>
      list_all (\<lambda>c. length c \<le> 255) (sys_cputs_calls ?b)"
    using Cons.prems by (auto simp: uputch_def pb_flush_def Let_def m)
  with Cons.IH [of ?b] show ?case by (simp add: Let_def)
qed simp

text \<open>
  The buffering \<open>cprintf\<close> of user programs loses and reorders nothing: the strings it passes to
  \<open>sys_cputs\<close>, each of at most 255 characters, joined in order are the formatted output, and it
  returns the number of characters.
\<close>

theorem user_cprintf_complete:
  assumes "formatted rd fmt args = Ret () cs"
  shows "\<exists>b. ucprintf stack rd fmt args = Ret (int (length cs)) b \<and>
    concat (sys_cputs_calls b) = map ucast cs \<and> (\<forall>c\<in>set (sys_cputs_calls b). length c \<le> 255)"
proof -
  let ?b = "\<lparr>pb_idx = 0, pb_cnt = 0, pb_mem = stack, sys_cputs_calls = []\<rparr>"
  have v: "vprintfmt uputch rd args fmt 0 ?b = Ret () (fold uputch cs ?b)"
    by (simp add: sink_output(3) assms(1))
  let ?t = "fold uputch cs ?b"
  from fold_uputch [of ?b cs] have f: "pb_idx ?t < 255" "pb_cnt ?t = int (length cs)"
    "concat (sys_cputs_calls (pb_flush ?t)) = map ucast cs"
    "list_all (\<lambda>c. length c \<le> 255) (sys_cputs_calls ?t)"
    by (simp_all add: Let_def pb_flush_def)
  then have "\<forall>c\<in>set (sys_cputs_calls (pb_flush ?t)). length c \<le> 255"
    by (auto simp: pb_flush_def list_all_iff)
  moreover have "pb_cnt (pb_flush ?t) = int (length cs)" using f(2) by (simp add: pb_flush_def)
  ultimately show ?thesis using f(3) v by (simp add: ucprintf_def uvcprintf_def Let_def)
qed

text \<open>
  The kernel's \<open>cprintf\<close> prints the formatted output on the console and returns 0, not the
  number of characters printed.
\<close>

theorem cprintf_prints_and_returns_0:
  assumes "formatted (rd_kernel s) fmt args = Ret () cs"
  shows "cprintf fmt args s = Ret 0 (s\<lparr>cons := fold cputchar cs (cons s)\<rparr>)"
proof -
  have "fold kputch cs s = s\<lparr>cons := fold cputchar cs (cons s)\<rparr>"
    by (induction cs arbitrary: s) (simp_all add: kputch_def)
  with assms show ?thesis by (simp add: cprintf_def vcprintf_def sink_output(1))
qed

section \<open>Witnesses and examples\<close>

lemmas printf_eval = vprintfmt.simps convert_def getint_def getuint_def init_spec_def
  process_precision_def Let_def printnum.simps chars_def digit_char_def collect_pow collect_def word_sless_alt

lemma formatted_number:
  "formatted rd (chars ''a%5d%%'') (\<lambda>_. - 42) = Ret () (map ucast (chars ''a-   42%''))"
  by (simp add: printf_eval, simp add: eval_nat_numeral)

text \<open>
  The flag documented to pad on the right makes numbers be padded on the left, with minus signs.
\<close>

lemma minus_flag_pads_with_minus:
  "formatted rd (chars ''%-5d'') (\<lambda>_. 7) = Ret () (map ucast (chars ''----7''))"
  by (simp add: printf_eval, simp add: eval_nat_numeral)

theorem printnum_witness:
  "\<exists>ds. printnum collect 255 16 4 48 [] =
      replicate (nat (4 - int (length ds))) 48 @ map (\<lambda>d. ucast (chars ''0123456789abcdef'' ! d)) ds \<and>
    foldl (\<lambda>a d. a * 16 + d) 0 ds = 255 \<and> (\<forall>d\<in>set ds. d < 16) \<and> ds \<noteq> [] \<and> hd ds \<noteq> 0"
  using printnum_prints_numeral [where base = 16 and w = 4 and ch = 48 and cs = "[]" and num = 255] by simp

theorem snprintf_witness:
  "\<exists>m. snprintf (Some (\<lambda>_. 1)) (int 3) (\<lambda>_. None) (chars ''a%5d%%'') (\<lambda>_. - 42) = Ret 8 (Some m) \<and>
    m 0 = 97 \<and> m 2 = 0 \<and> m 3 = 1"
proof -
  have l: "length (map ucast (chars ''a-   42%'') :: u32 list) = 8" "min 8 (3 - 1) = (2 :: nat)"
    by (simp_all add: chars_def)
  from snprintf_bounded [OF formatted_number, of 3 "\<lambda>_. 1" "\<lambda>_. None", unfolded l] obtain m where
    m: "snprintf (Some (\<lambda>_. 1)) (int 3) (\<lambda>_. None) (chars ''a%5d%%'') (\<lambda>_. - 42) = Ret (int 8) (Some m)"
    "\<forall>k<2. m k = ucast (map ucast (chars ''a-   42%'') ! k :: u32)" "m 2 = 0" "\<forall>k\<ge>3. m k = 1"
    by auto
  have "m 0 = 97" using m(2) by (simp add: chars_def)
  with m show ?thesis by auto
qed

theorem user_cprintf_witness:
  "\<exists>b. ucprintf (\<lambda>_. 0) (\<lambda>_. None) (chars ''a%5d%%'') (\<lambda>_. - 42) = Ret 8 b \<and>
    concat (sys_cputs_calls b) = map ucast (map ucast (chars ''a-   42%'') :: u32 list) \<and>
    (\<forall>c\<in>set (sys_cputs_calls b). length c \<le> 255)"
proof -
  have "length (map ucast (chars ''a-   42%'') :: u32 list) = 8" by (simp add: chars_def)
  with user_cprintf_complete [OF formatted_number, of "\<lambda>_. 0" "\<lambda>_. None"] show ?thesis by simp
qed

theorem cprintf_witness:
  "cprintf (chars ''a%5d%%'') (\<lambda>_. - 42) bss_state =
    Ret 0 (bss_state\<lparr>cons := fold cputchar (map ucast (chars ''a-   42%'')) (cons bss_state)\<rparr>)"
  by (rule cprintf_prints_and_returns_0 [OF formatted_number])

end
