(* ===== verification/Jos_Syscall.thy ===== *)
theory Jos_Syscall
  imports Jos_Sched Jos_Printf
begin

text \<open>
  The system calls (kern/syscall.c). An argument is a 32-bit word, a result an integer. Reading a
  field through the null pointer, as some calls do when there is no current environment, is a page
  fault in the kernel, which panics.
\<close>

section \<open>The calls\<close>

definition deref :: "nat option \<Rightarrow> (nat \<Rightarrow> kstate \<Rightarrow> 'a kres) \<Rightarrow> kstate \<Rightarrow> 'a kres" where
  "deref p f s = (case p of None \<Rightarrow> Panic fault_msg | Some e \<Rightarrow> f e s)"

definition sys_cputs :: "u32 \<Rightarrow> u32 \<Rightarrow> kstate \<Rightarrow> unit kres" where
  "sys_cputs va len s =
     deref (curenv s) (\<lambda>e s.
       bindO (user_mem_assert e va len (PTE_U OR PTE_P) s) (\<lambda>_ s.
         bindO (cprintf (chars ''%.*s'') (\<lambda>i. if i = 0 then len else va) s) (\<lambda>_ s. Ret () s))) s"

text \<open>\<open>cons_getc\<close> always returns (\<open>cons_getc_terminates\<close>).\<close>

definition sys_cgetc :: "kstate \<Rightarrow> int kres" where
  "sys_cgetc s =
     (case cons_getc (cons s) of
        None \<Rightarrow> Leave Spinning s
      | Some (c, cs) \<Rightarrow> Ret (sint c) (s\<lparr>cons := cs\<rparr>))"

definition sys_getenvid :: "kstate \<Rightarrow> int kres" where
  "sys_getenvid s = deref (curenv s) (\<lambda>c s. Ret (sint (env_id (envs s c))) s) s"

definition sys_env_destroy :: "u32 \<Rightarrow> kstate \<Rightarrow> int kres" where
  "sys_env_destroy envid s =
     bindO (envid2env envid True s) (\<lambda>(r, e) s.
       if r < 0 then Ret r s
       else deref (curenv s) (\<lambda>_. deref e (\<lambda>e s.
         bindO (env_destroy e s) (\<lambda>_ s. Ret 0 s))) s)"

definition sys_yield :: "kstate \<Rightarrow> unit kres" where
  "sys_yield s = sched_yield s"

definition sys_exofork :: "kstate \<Rightarrow> int kres" where
  "sys_exofork s =
     bindO (env_alloc (case curenv s of None \<Rightarrow> 0 | Some c \<Rightarrow> env_id (envs s c)) s) (\<lambda>(res, e) s.
       if res = - E_NO_FREE_ENV then Ret (- E_NO_FREE_ENV) s
       else if res = - E_NO_MEM then Ret (- E_NO_MEM) s
       else deref e (\<lambda>e s.
         let s = upd_env e (\<lambda>v. v\<lparr>env_status := ENV_NOT_RUNNABLE\<rparr>) s;
             s = (case curenv s of
                    None \<Rightarrow> s
                  | Some c \<Rightarrow> upd_env e (\<lambda>v. v\<lparr>env_tf := env_tf (envs s c)\<rparr>) s)
         in deref (curenv s) (\<lambda>c s.
              let s = upd_env e (\<lambda>v. v\<lparr>env_pgfault_upcall := env_pgfault_upcall (envs s c)\<rparr>) s;
                  s = upd_env e (\<lambda>v. v\<lparr>env_tf := (env_tf v)\<lparr>tf_regs := (tf_regs (env_tf v))\<lparr>reg_eax := 0\<rparr>\<rparr>\<rparr>) s
              in Ret (sint (env_id (envs s e))) s) s) s)"

definition sys_env_set_status :: "u32 \<Rightarrow> u32 \<Rightarrow> kstate \<Rightarrow> int kres" where
  "sys_env_set_status envid status s =
     bindO (envid2env envid True s) (\<lambda>(r, e) s.
       if r = - E_BAD_ENV then Ret (- E_BAD_ENV) s
       else if status \<noteq> env_status_code ENV_NOT_RUNNABLE \<and> status \<noteq> env_status_code ENV_RUNNABLE
       then Ret (- E_INVAL) s
       else deref e (\<lambda>e s.
         Ret 0 (upd_env e (\<lambda>v. v\<lparr>env_status :=
           (if status = env_status_code ENV_RUNNABLE then ENV_RUNNABLE else ENV_NOT_RUNNABLE)\<rparr>) s)) s)"

definition sys_env_set_pgfault_upcall :: "u32 \<Rightarrow> u32 \<Rightarrow> kstate \<Rightarrow> int kres" where
  "sys_env_set_pgfault_upcall envid func s =
     bindO (envid2env envid True s) (\<lambda>(r, e) s.
       if r \<noteq> 0 then Ret (- E_BAD_ENV) s
       else deref e (\<lambda>e s. Ret 0 (upd_env e (\<lambda>v. v\<lparr>env_pgfault_upcall := func\<rparr>) s)) s)"

text \<open>An environment without an address space has a null page directory.\<close>

definition with_pgdir :: "nat \<Rightarrow> (nat \<Rightarrow> kstate \<Rightarrow> 'a kres) \<Rightarrow> kstate \<Rightarrow> 'a kres" where
  "with_pgdir e f s = deref (env_pgdir (envs s e)) f s"

definition sys_page_alloc :: "u32 \<Rightarrow> u32 \<Rightarrow> u32 \<Rightarrow> kstate \<Rightarrow> int kres" where
  "sys_page_alloc envid va perm s =
     (if (perm AND 0xfff) AND NOT PTE_SYSCALL \<noteq> 0 then Ret (- E_INVAL) s
      else if va AND 0xfff \<noteq> 0 then Ret (- E_INVAL) s
      else if UTOP \<le> va then Ret (- E_INVAL) s
      else
        bindO (envid2env envid True s) (\<lambda>(r, e) s.
          if r = - E_BAD_ENV then Ret (- E_BAD_ENV) s
          else if perm AND (PTE_U OR PTE_P) \<noteq> PTE_U OR PTE_P then Ret (- E_INVAL) s
          else
            bindO (page_alloc ALLOC_ZERO s) (\<lambda>pp s.
              case pp of
                None \<Rightarrow> Ret (- E_NO_MEM) s
              | Some pp \<Rightarrow>
                  deref e (\<lambda>e. with_pgdir e (\<lambda>pgdir s.
                    bindO (page_insert pgdir pp va perm s) (\<lambda>r s.
                      if r \<noteq> 0 then Ret (- E_NO_MEM) s else Ret 0 s))) s)))"

definition sys_page_map :: "u32 \<Rightarrow> u32 \<Rightarrow> u32 \<Rightarrow> u32 \<Rightarrow> u32 \<Rightarrow> kstate \<Rightarrow> int kres" where
  "sys_page_map srcenvid srcva dstenvid dstva perm s =
     bindO (envid2env srcenvid True s) (\<lambda>(r, srcenv) s.
       if r \<noteq> 0 then Ret (- E_BAD_ENV) s
       else bindO (envid2env dstenvid True s) (\<lambda>(r, dstenv) s.
         if r \<noteq> 0 then Ret (- E_BAD_ENV) s
         else if UTOP \<le> srcva then Ret (- E_INVAL) s
         else if UTOP \<le> dstva then Ret (- E_INVAL) s
         else if srcva AND 0xfff \<noteq> 0 then Ret (- E_INVAL) s
         else if dstva AND 0xfff \<noteq> 0 then Ret (- E_INVAL) s
         else if perm AND NOT PTE_SYSCALL \<noteq> 0 then Ret (- E_INVAL) s
         else if perm AND (PTE_U OR PTE_P) \<noteq> PTE_U OR PTE_P then Ret (- E_INVAL) s
         else deref srcenv (\<lambda>srcenv. with_pgdir srcenv (\<lambda>srcpd s.
           bindO (page_lookup srcpd srcva s) (\<lambda>r s.
             case r of
               None \<Rightarrow> Ret (- E_INVAL) s
             | Some (pp, t, j) \<Rightarrow>
                 if perm AND PTE_W \<noteq> 0 \<and> kmem s t j AND PTE_W = 0 then Ret (- E_INVAL) s
                 else deref dstenv (\<lambda>dstenv. with_pgdir dstenv (\<lambda>dstpd s.
                   bindO (page_insert dstpd pp dstva perm s) (\<lambda>r s.
                     if r \<noteq> 0 then Ret (- E_NO_MEM) s else Ret 0 s))) s))) s))"

definition sys_page_unmap :: "u32 \<Rightarrow> u32 \<Rightarrow> kstate \<Rightarrow> int kres" where
  "sys_page_unmap envid va s =
     (if va AND 0xfff \<noteq> 0 then Ret (- E_INVAL) s
      else if UTOP \<le> va then Ret (- E_INVAL) s
      else
        bindO (envid2env envid True s) (\<lambda>(r, e) s.
          if r \<noteq> 0 then Ret (- E_BAD_ENV) s
          else deref e (\<lambda>e. with_pgdir e (\<lambda>pgdir s.
            bindO (page_remove pgdir va s) (\<lambda>_ s. Ret 0 s))) s))"

text \<open>The fields a successful send sets in the receiver \<open>e\<close>.\<close>

definition ipc_deliver :: "nat \<Rightarrow> u32 \<Rightarrow> kstate \<Rightarrow> int kres" where
  "ipc_deliver e value s =
     (let s = upd_env e (\<lambda>v. v\<lparr>env_ipc_recving := False\<rparr>) s in
      deref (curenv s) (\<lambda>c s.
        Ret 0 (upd_env e (\<lambda>v. v\<lparr>env_ipc_from := env_id (envs s c), env_ipc_value := value,
          env_status := ENV_RUNNABLE\<rparr>) s)) s)"

definition sys_ipc_try_send :: "u32 \<Rightarrow> u32 \<Rightarrow> u32 \<Rightarrow> u32 \<Rightarrow> kstate \<Rightarrow> int kres" where
  "sys_ipc_try_send envid value srcva perm s =
     bindO (envid2env envid False s) (\<lambda>(r, e) s.
       if r \<noteq> 0 then Ret (- E_BAD_ENV) s
       else deref e (\<lambda>e s.
         if \<not> env_ipc_recving (envs s e) then Ret (- E_IPC_NOT_RECV) s
         else if srcva < UTOP then
           (if PGOFF srcva \<noteq> 0 then Ret (- E_INVAL) s
            else if perm AND (PTE_P OR PTE_U) \<noteq> PTE_P OR PTE_U then Ret (- E_INVAL) s
            else if perm AND NOT PTE_SYSCALL \<noteq> 0 then Ret (- E_INVAL) s
            else deref (curenv s) (\<lambda>c. with_pgdir c (\<lambda>srcpd s.
              bindO (page_lookup srcpd srcva s) (\<lambda>r s.
                case r of
                  None \<Rightarrow> Ret (- E_INVAL) s
                | Some (pp, p_pte) \<Rightarrow> with_pgdir e (\<lambda>dstpd s.
                    bindO (page_insert dstpd pp (env_ipc_dstva (envs s e)) perm s) (\<lambda>r s.
                      if r \<noteq> 0 then Ret (- E_NO_MEM) s
                      else ipc_deliver e value (upd_env e (\<lambda>v. v\<lparr>env_ipc_perm := perm\<rparr>) s))) s))) s)
         else ipc_deliver e value (upd_env e (\<lambda>v. v\<lparr>env_ipc_perm := 0\<rparr>) s)) s)"

definition sys_ipc_recv :: "u32 \<Rightarrow> kstate \<Rightarrow> int kres" where
  "sys_ipc_recv dstva s =
     (if dstva < UTOP \<and> PGOFF dstva \<noteq> 0 then Ret (- E_INVAL) s
      else deref (curenv s) (\<lambda>c s.
        Ret 0 (upd_env c (\<lambda>v. v\<lparr>env_ipc_recving := True, env_ipc_dstva := dstva,
          env_status := ENV_NOT_RUNNABLE\<rparr>) s)) s)"

section \<open>The dispatcher\<close>

datatype syscall_no = SYS_cputs | SYS_cgetc | SYS_getenvid | SYS_env_destroy | SYS_page_alloc
  | SYS_page_map | SYS_page_unmap | SYS_exofork | SYS_env_set_status | SYS_env_set_pgfault_upcall
  | SYS_yield | SYS_ipc_try_send | SYS_ipc_recv

definition syscall_nos :: "syscall_no list" where
  "syscall_nos = [SYS_cputs, SYS_cgetc, SYS_getenvid, SYS_env_destroy, SYS_page_alloc, SYS_page_map,
     SYS_page_unmap, SYS_exofork, SYS_env_set_status, SYS_env_set_pgfault_upcall, SYS_yield,
     SYS_ipc_try_send, SYS_ipc_recv]"

definition NSYSCALLS :: nat where "NSYSCALLS = length syscall_nos"

definition syscall_of :: "u32 \<Rightarrow> syscall_no option" where
  "syscall_of n = (if unat n < NSYSCALLS then Some (syscall_nos ! unat n) else None)"

definition syscall :: "u32 \<Rightarrow> u32 \<Rightarrow> u32 \<Rightarrow> u32 \<Rightarrow> u32 \<Rightarrow> u32 \<Rightarrow> kstate \<Rightarrow> int kres" where
  "syscall syscallno a1 a2 a3 a4 a5 s =
     (case syscall_of syscallno of
        Some SYS_cputs \<Rightarrow> bindO (sys_cputs a1 a2 s) (\<lambda>_ s. Ret 0 s)
      | Some SYS_cgetc \<Rightarrow> sys_cgetc s
      | Some SYS_getenvid \<Rightarrow> sys_getenvid s
      | Some SYS_env_destroy \<Rightarrow> sys_env_destroy a1 s
      | Some SYS_yield \<Rightarrow> bindO (sys_yield s) (\<lambda>_ s. Ret 0 s)
      | Some SYS_exofork \<Rightarrow> sys_exofork s
      | Some SYS_env_set_status \<Rightarrow> sys_env_set_status a1 a2 s
      | Some SYS_page_alloc \<Rightarrow> sys_page_alloc a1 a2 a3 s
      | Some SYS_page_map \<Rightarrow> sys_page_map a1 a2 a3 a4 a5 s
      | Some SYS_page_unmap \<Rightarrow> sys_page_unmap a1 a2 s
      | Some SYS_env_set_pgfault_upcall \<Rightarrow> sys_env_set_pgfault_upcall a1 a2 s
      | Some SYS_ipc_recv \<Rightarrow> sys_ipc_recv a1 s
      | Some SYS_ipc_try_send \<Rightarrow> sys_ipc_try_send a1 a2 a3 a4 s
      | None \<Rightarrow> Ret (- E_INVAL) s)"

section \<open>Permissions\<close>

lemma and_not_subset: "x AND NOT m = 0 \<longleftrightarrow> x AND m = x" for x :: u32
  by (auto simp: bit_eq_iff bit_simps)

lemma legal_perm:
  assumes "perm AND NOT PTE_SYSCALL = 0" "perm AND (PTE_U OR PTE_P) = PTE_U OR PTE_P"
  shows "PTE_ADDR perm = 0" "(perm AND 0xfff) AND NOT PTE_SYSCALL = 0" "perm OR PTE_P = perm"
proof -
  from assms(1) have e: "perm AND PTE_SYSCALL = perm" by (simp add: and_not_subset)
  have "(perm AND PTE_SYSCALL) AND NOT 0xFFF = 0"
    by (simp add: PTE_SYSCALL_def PTE_AVAIL_def PTE_P_def PTE_W_def PTE_U_def and.assoc)
  then show "PTE_ADDR perm = 0" by (simp add: e PTE_ADDR_def)
  show "(perm AND 0xfff) AND NOT PTE_SYSCALL = 0"
    by (metis assms(1) and.assoc and.commute and_zero_eq)
  have "(perm AND (PTE_U OR PTE_P)) AND PTE_P = (PTE_U OR PTE_P) AND PTE_P" by (simp only: assms(2))
  then have "perm AND PTE_P = PTE_P" by (simp add: PTE_U_def PTE_P_def and.assoc)
  then show "perm OR PTE_P = perm" by (auto simp: bit_eq_iff bit_simps)
qed

text \<open>What the two ways to name an environment give.\<close>

lemma envid2env_wlp:
  "wlp (envid2env envid cp s) (\<lambda>(r, e) t. t = s \<and> (r = 0 \<and> (e = None \<longrightarrow> curenv s = None) \<or>
    r = - E_BAD_ENV \<and> e = None))"
  by (auto simp: envid2env_def Let_def split: option.split)

text \<open>
  A process \<open>c\<close> has no rights over \<open>envid\<close>: no environment has this identifier, or it is neither
  its own nor that of one of its children.
\<close>

definition no_rights :: "kstate \<Rightarrow> nat \<Rightarrow> u32 \<Rightarrow> bool" where
  "no_rights s c envid \<longleftrightarrow> envid \<noteq> 0 \<and>
     (let e = ENVX envid in
       env_status (envs s e) = ENV_FREE \<or> env_id (envs s e) \<noteq> envid \<or>
       e \<noteq> c \<and> env_parent_id (envs s e) \<noteq> env_id (envs s c))"

lemma envid2env_no_rights:
  "curenv s = Some c \<Longrightarrow> no_rights s c envid \<Longrightarrow> envid2env envid True s = Ret (- E_BAD_ENV, None) s"
  by (auto simp: envid2env_def no_rights_def Let_def)

text \<open>
  C19: A process cannot destroy, control or remap an environment it has no rights over: every call
  that takes such an identifier, as the source or the destination of a mapping too, returns an error
  and leaves the state of the kernel exactly as it was.
\<close>

theorem syscall_respects_rights:
  assumes "curenv s = Some c" "no_rights s c envid"
  shows "(\<forall>n\<in>{SYS_env_destroy, SYS_env_set_status, SYS_env_set_pgfault_upcall, SYS_page_alloc,
      SYS_page_map, SYS_page_unmap}. \<forall>w. syscall_of w = Some n \<longrightarrow>
      (\<exists>r. syscall w envid a2 a3 a4 a5 s = Ret r s \<and> (r = - E_BAD_ENV \<or> r = - E_INVAL))) \<and>
    (\<forall>w srcva. syscall_of w = Some SYS_page_map \<and> envid2env a1 True s = Ret (0, Some e) s \<longrightarrow>
      syscall w a1 srcva envid a4 a5 s = Ret (- E_BAD_ENV) s)"
  using envid2env_no_rights [OF assms]
  by (auto simp: syscall_def sys_env_destroy_def sys_env_set_status_def sys_page_alloc_def
      sys_env_set_pgfault_upcall_def sys_page_map_def sys_page_unmap_def error_defs)

section \<open>Mapping pages\<close>

lemma sys_page_alloc_eq:
  assumes "envid2env envid True s = Ret (0, Some e) s" "env_pgdir (envs s e) = Some pd"
    "vm_ok s (p # ps) A" "va < UTOP" "va AND 0xfff = 0" "(perm AND 0xfff) AND NOT PTE_SYSCALL = 0"
    "perm AND (PTE_U OR PTE_P) = PTE_U OR PTE_P"
  shows "sys_page_alloc envid va perm s =
    bindO (page_insert pd p va perm (popped 1 p s)) (\<lambda>r s. if r \<noteq> 0 then Ret (- E_NO_MEM) s else Ret 0 s)"
  using assms page_alloc_Cons [OF vm_free [OF assms(3)]]
  by (simp add: assms(4) [folded not_le] sys_page_alloc_def deref_def with_pgdir_def ALLOC_ZERO_def E_BAD_ENV_def not_le)

text \<open>
  C20: \<open>sys_page_alloc\<close> with legal arguments maps a zeroed page, the first on the free list, at the address, with
  exactly the permissions asked for, as the only reference to it, and changes no other mapping of any process;
  if there is no free frame at all it reports this and changes nothing. Left out is one case: a single frame is free and a
  page table is missing too.
\<close>

theorem sys_page_alloc_maps:
  assumes "envid2env envid True s = Ret (0, Some e) s" "env_pgdir (envs s e) = Some pd"
    "vm_ok s xs A" "pd \<in> A" "0 \<notin> set xs" "va < UTOP" "va AND 0xfff = 0"
    "perm AND NOT PTE_SYSCALL = 0" "perm AND (PTE_U OR PTE_P) = PTE_U OR PTE_P"
    "has_tbl s pd (unat (PDX va)) \<or> length xs \<noteq> 1"
  shows "case xs of [] \<Rightarrow> sys_page_alloc envid va perm s = Ret (- E_NO_MEM) s
    | p # ps \<Rightarrow> \<exists>t ys. sys_page_alloc envid va perm s = Ret 0 t \<and> vm_ok t ys A \<and>
        kmem t p = (\<lambda>_. 0) \<and> pp_ref (pages t p) = 1 \<and>
        (\<forall>q\<in>A. uspace t q = (if q = pd then (uspace s q)(vpn va \<mapsto> (p, perm)) else uspace s q))"
proof (cases xs)
  case Nil
  with assms page_alloc_Nil [of s] legal_perm [OF assms(8,9)] vm_free [OF assms(3)] show ?thesis
    by (simp add: assms(6) [folded not_le] sys_page_alloc_def E_BAD_ENV_def)
next
  case (Cons p ps)
  with assms(3) have ok: "vm_ok s (p # ps) A" by simp
  note l = legal_perm [OF assms(8,9)]
  note eq = sys_page_alloc_eq [OF assms(1,2) ok assms(6,7) l(2) assms(9)]
  note pop = vm_ok_popped [OF ok]
  let ?s = "popped 1 p s"
  have "p < npages s" using vm_free [OF ok] by (simp add: free_pages_ok_def)
  then have m: "mappable ?s ps A p"
    using pop(3-6) assms(5) Cons by (simp add: mappable_def)
  have "has_tbl ?s pd (unat (PDX va)) \<or> ps \<noteq> []" using assms(4,10) Cons pop(7) by auto
  from page_insert_success [OF pop(1) assms(4,6) m l(1) this] obtain t ys where
    t: "page_insert pd p va perm ?s = Ret 0 t" "vm_ok t ys A"
    "\<forall>q\<in>A. uspace t q = (if q = pd then (uspace s q)(vpn va \<mapsto> (p, perm)) else uspace s q)"
    "pp_ref (pages t p) = (if \<exists>fl. uspace ?s pd (vpn va) = Some (p, fl) then pp_ref (pages ?s p) else pp_ref (pages ?s p) + 1)"
    using pop(2) l(3) by auto
  have "uspace ?s pd (vpn va) \<noteq> Some (p, fl)" for fl
    using vpn_slot(7) [OF pop(1) assms(4,6), where f = p] pop(6) by auto
  then have "pp_ref (pages t p) = 1" using t(4) pop(6) by simp
  moreover have "kmem t p = kmem ?s p"
    using page_insert_keeps [OF pop(1) assms(4,6) t(1)] pop(3-5) by simp
  ultimately show ?thesis using t(1-3) eq Cons by auto
qed

text \<open>
  In the case left out the frame for the page is taken, \<open>-E_NO_MEM\<close> is reported, and the frame is neither on the free
  list nor referenced any more.
\<close>

theorem sys_page_alloc_loses_frame:
  assumes "envid2env envid True s = Ret (0, Some e) s" "env_pgdir (envs s e) = Some pd"
    "vm_ok s [p] A" "pd \<in> A" "va < UTOP" "va AND 0xfff = 0"
    "perm AND NOT PTE_SYSCALL = 0" "perm AND (PTE_U OR PTE_P) = PTE_U OR PTE_P"
    "\<not> has_tbl s pd (unat (PDX va))"
  shows "\<exists>t. sys_page_alloc envid va perm s = Ret (- E_NO_MEM) t \<and> vm_ok t [] A \<and> pp_ref (pages t p) = 0"
proof -
  note l = legal_perm [OF assms(7,8)]
  note eq = sys_page_alloc_eq [OF assms(1-3,5,6) l(2) assms(8)]
  note pop = vm_ok_popped [OF assms(3)]
  have "\<not> has_tbl (popped 1 p s) pd (unat (PDX va))" using assms(4,9) pop(7) by simp
  from page_insert_no_mem [OF pop(1) assms(4,5) this] eq pop(1,6) show ?thesis by (simp add: E_NO_MEM_def)
qed

text \<open>
  Only the low twelve bits of the permissions are checked, but all bits are written to the page
  table: with the address of a frame in the upper bits, \<open>sys_page_alloc\<close> maps that frame (joined
  with the one it allocated) into the process, whoever it belongs to.
\<close>

theorem sys_page_alloc_maps_any_frame:
  assumes "envid2env envid True s = Ret (0, Some e) s" "env_pgdir (envs s e) = Some pd"
    "vm_ok s (p # ps) A" "pd \<in> A" "0 < p" "va < UTOP" "va AND 0xfff = 0"
    "has_tbl s pd (unat (PDX va))" "uspace s pd (vpn va) = None"
    "(perm AND 0xfff) AND NOT PTE_SYSCALL = 0" "perm AND (PTE_U OR PTE_P) = PTE_U OR PTE_P"
  shows "\<exists>t. sys_page_alloc envid va perm s = Ret 0 t \<and>
    frame_of (pte t pd (unat (PDX va)) (unat (PTX va))) = p OR frame_of perm"
proof -
  note pop = vm_ok_popped [OF assms(3)]
  let ?s = "popped 1 p s" and ?i = "unat (PDX va)" and ?j = "unat (PTX va)"
  have h: "has_tbl ?s pd ?i" "uspace ?s pd (vpn va) = None" using assms pop(2,7) by simp_all
  note e = vpn_unmapped [OF pop(1) assms(4,6) h(2,1)]
  note w = walk_hit [OF pop(1) e(1), of True]
  let ?T = "tbl ?s pd ?i"
  have z: "kmem ?s ?T ?j = 0" using e(2) by (simp add: pte_def)
  have p20: "p < 2 ^ 20"
    using vm_free [OF assms(3)] by (auto simp: free_pages_ok_def)
  have "page2pa p \<noteq> page2pa 0" using page2pa_inj [OF p20, of 0] assms(5) by simp
  then have ne: "PTE_ADDR 0 \<noteq> page2pa p" by (simp add: page2pa_def PTE_ADDR_def)
  let ?v = "(page2pa p OR perm) OR PTE_P"
  let ?t = "upd_page p (\<lambda>i. i\<lparr>pp_ref := pp_ref i + 1\<rparr>) (wr_word ?T ?j ?v ?s)"
  have i: "page_insert pd p va perm ?s = Ret 0 ?t"
    using w z ne by (simp add: page_insert_def Let_def)
  have "kmem ?t pd = kmem (wr_word ?T ?j ?v ?s) pd" by simp
  then have "tbl ?t pd ?i = ?T"
    using tbl_cong [of ?t pd "wr_word ?T ?j ?v ?s"] wr_pte_tbl(2) [OF pop(1) e(1) assms(4)] by simp
  moreover have "kmem ?t ?T ?j = ?v" by (simp add: wr_word_def)
  ultimately have v: "pte ?t pd ?i ?j = ?v" by (simp only: pte_def)
  have "frame_of ?v = (frame_of (page2pa p) OR frame_of perm) OR frame_of PTE_P"
    by (simp add: frame_of_def PGNUM_def drop_bit_or unsigned_or_eq)
  moreover have "frame_of (page2pa p) = p" using p20 by (simp add: frame_of_def PGNUM_page2pa)
  moreover have "frame_of PTE_P = 0" by (simp add: frame_of_def PGNUM_def PTE_P_def)
  ultimately have "frame_of (pte ?t pd ?i ?j) = p OR frame_of perm" unfolding v by simp
  moreover have "sys_page_alloc envid va perm s = Ret 0 ?t"
    using i sys_page_alloc_eq [OF assms(1-3,6,7,10,11)] by simp
  ultimately show ?thesis by blast
qed

lemma PGOFF_PTE_W: "PGOFF x AND PTE_W = x AND PTE_W"
  by (simp add: PGOFF_def PTE_W_def and.assoc)

lemma sys_page_map_eq:
  assumes "envid2env srcenvid True s = Ret (0, Some e) s" "env_pgdir (envs s e) = Some spd"
    "envid2env dstenvid True s = Ret (0, Some d) s" "env_pgdir (envs s d) = Some dpd"
    "vm_ok s xs A" "spd \<in> A" "dpd \<in> A" "srcva < UTOP" "dstva < UTOP" "srcva AND 0xfff = 0"
    "dstva AND 0xfff = 0" "perm AND NOT PTE_SYSCALL = 0"
    "perm AND (PTE_U OR PTE_P) = PTE_U OR PTE_P" "uspace s spd (vpn srcva) = Some (f, fl)"
  shows "sys_page_map srcenvid srcva dstenvid dstva perm s =
    (if perm AND PTE_W \<noteq> 0 \<and> fl AND PTE_W = 0 then Ret (- E_INVAL) s
     else bindO (page_insert dpd f dstva perm s) (\<lambda>r s. if r \<noteq> 0 then Ret (- E_NO_MEM) s else Ret 0 s))"
proof -
  note v = vpn_slot [OF assms(5,6,8,14)]
  let ?T = "tbl s spd (unat (PDX srcva))" and ?j = "unat (PTX srcva)"
  have "PGOFF (kmem s ?T ?j) = fl" using v(4) by (simp add: pte_def)
  then have W: "kmem s ?T ?j AND PTE_W = fl AND PTE_W" by (metis PGOFF_PTE_W)
  show ?thesis
    using assms(1-4,10-13) page_lookup_mapped [OF assms(5,6,8,14)] W
    by (simp add: sys_page_map_def deref_def with_pgdir_def assms(8,9) [folded not_le])
qed

text \<open>
  C21: \<open>sys_page_map\<close> with legal arguments shares the page at the source address, with the
  permissions asked for, and changes no other mapping of any process; it refuses to give write
  access to a page the source may only read. It reports missing memory, without any change, exactly if the page table
  for the destination is missing and no frame is free.
\<close>

theorem sys_page_map_shares:
  assumes "envid2env srcenvid True s = Ret (0, Some e) s" "env_pgdir (envs s e) = Some spd"
    "envid2env dstenvid True s = Ret (0, Some d) s" "env_pgdir (envs s d) = Some dpd"
    "vm_ok s xs A" "spd \<in> A" "dpd \<in> A" "srcva < UTOP" "dstva < UTOP" "srcva AND 0xfff = 0"
    "dstva AND 0xfff = 0" "perm AND NOT PTE_SYSCALL = 0"
    "perm AND (PTE_U OR PTE_P) = PTE_U OR PTE_P"
    "uspace s spd (vpn srcva) = Some (f, fl)" "mappable s xs A f"
  defines "r \<equiv> sys_page_map srcenvid srcva dstenvid dstva perm s"
  shows "if perm AND PTE_W \<noteq> 0 \<and> fl AND PTE_W = 0 then r = Ret (- E_INVAL) s
    else if xs = [] \<and> \<not> has_tbl s dpd (unat (PDX dstva)) then r = Ret (- E_NO_MEM) s
    else \<exists>t ys. r = Ret 0 t \<and> vm_ok t ys A \<and>
        (\<forall>q\<in>A. uspace t q = (if q = dpd then (uspace s q)(vpn dstva \<mapsto> (f, perm)) else uspace s q))"
proof -
  note eq = sys_page_map_eq [OF assms(1-14)]
  note l = legal_perm [OF assms(12,13)]
  have ?thesis if "xs = []" "\<not> has_tbl s dpd (unat (PDX dstva))"
    using page_insert_no_mem [OF _ assms(7,9) that(2)] assms(5) that eq by (simp add: r_def E_NO_MEM_def)
  moreover have ?thesis if "has_tbl s dpd (unat (PDX dstva)) \<or> xs \<noteq> []"
    using page_insert_success [OF assms(5,7,9,15) l(1) that] that eq by (auto simp: r_def l(3))
  ultimately show ?thesis by blast
qed

text \<open>
  \<open>sys_page_unmap\<close> of a mapped address removes exactly this mapping and gives the reference on
  the frame back.
\<close>

theorem sys_page_unmap_unmaps:
  assumes "envid2env envid True s = Ret (0, Some e) s" "env_pgdir (envs s e) = Some pd"
    "vm_ok s xs A" "pd \<in> A" "va < UTOP" "va AND 0xfff = 0" "uspace s pd (vpn va) = Some (f, fl)"
  shows "\<exists>t ys. sys_page_unmap envid va s = Ret 0 t \<and> vm_ok t ys A \<and>
    (\<forall>q\<in>A. uspace t q = (if q = pd then (uspace s q)(vpn va := None) else uspace s q)) \<and>
    pp_ref (pages t f) = pp_ref (pages s f) - 1 \<and> (pp_ref (pages s f) = 1 \<longrightarrow> f \<in> set ys)"
proof -
  note r = page_remove_mapped [OF assms(3,4,5,7)]
  let ?t = "tlb_invalidate pd va (dropped f (wr_word (tbl s pd (unat (PDX va))) (unat (PTX va)) 0 s))"
  have "sys_page_unmap envid va s = Ret 0 ?t"
    using assms(1,2,6) r(1)
    by (simp add: sys_page_unmap_def deref_def with_pgdir_def assms(5) [folded not_le])
  moreover have "\<forall>q\<in>A. uspace ?t q = (if q = pd then (uspace s q)(vpn va := None) else uspace s q)"
    using r(7) by blast
  moreover have "pp_ref (pages ?t f) = pp_ref (pages s f) - 1" using r(8) [of f] by simp
  moreover have "pp_ref (pages s f) = 1 \<longrightarrow> f \<in> set (dropped_list f s xs)"
    by (simp add: dropped_list_def)
  ultimately show ?thesis using r(2) by blast
qed

section \<open>Communication\<close>

text \<open>
  Sending a value: if the receiver waits, it gets the value and the identifier of the sender,
  becomes runnable and stops waiting, and nothing else of the kernel's state changes; if it does not
  wait, the sender gets an error and nothing changes.
\<close>

theorem ipc_send_value:
  assumes "envid2env envid False s = Ret (0, Some e) s" "curenv s = Some c" "UTOP \<le> srcva"
  shows "sys_ipc_try_send envid value srcva perm s =
    (if env_ipc_recving (envs s e)
     then Ret 0 (s\<lparr>envs := (envs s)(e := (envs s e)\<lparr>env_ipc_perm := 0, env_ipc_recving := False,
            env_ipc_from := env_id (envs s c), env_ipc_value := value, env_status := ENV_RUNNABLE\<rparr>)\<rparr>)
     else Ret (- E_IPC_NOT_RECV) s)"
  using assms
  by (simp add: sys_ipc_try_send_def deref_def ipc_deliver_def upd_env_def curenv_def Let_def
      assms(3) [folded not_less])

lemma upd_env_vm:
  "vm_ok (upd_env e f s) xs A = vm_ok s xs A" "uspace (upd_env e f s) = uspace s"
  by simp_all

lemma ipc_send_any_page:
  assumes "envid2env envid False s = Ret (0, Some e) s" "env_ipc_recving (envs s e)"
    "curenv s = Some c" "env_pgdir (envs s c) = Some spd" "env_pgdir (envs s e) = Some dpd"
    "vm_ok s xs A" "spd \<in> A" "dpd \<in> A" "srcva < UTOP" "PGOFF srcva = 0"
    "env_ipc_dstva (envs s e) < UTOP" "perm AND NOT PTE_SYSCALL = 0"
    "perm AND (PTE_P OR PTE_U) = PTE_P OR PTE_U"
    "uspace s spd (vpn srcva) = Some (f, fl)" "mappable s xs A f"
  shows "if xs = [] \<and> \<not> has_tbl s dpd (unat (PDX (env_ipc_dstva (envs s e))))
    then sys_ipc_try_send envid value srcva perm s = Ret (- E_NO_MEM) s
    else \<exists>t ys. sys_ipc_try_send envid value srcva perm s = Ret 0 t \<and> vm_ok t ys A \<and>
      (\<forall>q\<in>A. uspace t q = (if q = dpd then (uspace s q)(vpn (env_ipc_dstva (envs s e)) \<mapsto> (f, perm))
         else uspace s q)) \<and>
      env_ipc_value (envs t e) = value \<and> env_ipc_from (envs t e) = env_id (envs s c) \<and>
      env_ipc_perm (envs t e) = perm \<and> \<not> env_ipc_recving (envs t e) \<and>
      env_status (envs t e) = ENV_RUNNABLE"
proof -
  let ?dv = "env_ipc_dstva (envs s e)"
  have "perm AND (PTE_U OR PTE_P) = PTE_U OR PTE_P" using assms(13) by (simp add: or.commute)
  note l = legal_perm [OF assms(12) this]
  have eq: "sys_ipc_try_send envid value srcva perm s =
      bindO (page_insert dpd f ?dv perm s) (\<lambda>r s. if r \<noteq> 0 then Ret (- E_NO_MEM) s
        else ipc_deliver e value (upd_env e (\<lambda>v. v\<lparr>env_ipc_perm := perm\<rparr>) s))"
    using assms(1-5,9,10,12,13) page_lookup_mapped [OF assms(6,7,9,14)]
    by (simp add: sys_ipc_try_send_def deref_def with_pgdir_def)
  have ?thesis if "xs = []" "\<not> has_tbl s dpd (unat (PDX ?dv))"
    using page_insert_no_mem [OF _ assms(8,11) that(2)] assms(6) that eq by (simp add: E_NO_MEM_def)
  moreover have ?thesis if h: "has_tbl s dpd (unat (PDX ?dv)) \<or> xs \<noteq> []"
  proof -
    from page_insert_success [OF assms(6,8,11,15) l(1) h] obtain t ys where
      t: "page_insert dpd f ?dv perm s = Ret 0 t" "vm_ok t ys A"
      "\<forall>q\<in>A. uspace t q = (if q = dpd then (uspace s q)(vpn ?dv \<mapsto> (f, perm)) else uspace s q)"
      using l(3) by auto
    have se: "same_env s t" using wlpD [OF page_insert_same t(1)] .
    then have "envs t = envs s" "curenv t = Some c"
      using same_env_curenv [OF se] assms(3) by (simp_all add: same_env_def)
    with t eq h show ?thesis
      by (auto simp: ipc_deliver_def deref_def Let_def intro!: exI [of _ ys])
  qed
  ultimately show ?thesis by blast
qed

text \<open>
  C22: Sending a page, with write access only if the sender has it: the receiver, which waits for a page below \<open>UTOP\<close>, gets it at
  the address it asked for, with the permissions the sender names, and the value, the sender and the permissions in its
  environment; it can run again. No other mapping of any process changes. The call reports missing
  memory, without any change, exactly if the page table for the address is missing and no frame is free.
\<close>

theorem ipc_send_page:
  assumes "envid2env envid False s = Ret (0, Some e) s" "env_ipc_recving (envs s e)"
    "curenv s = Some c" "env_pgdir (envs s c) = Some spd" "env_pgdir (envs s e) = Some dpd"
    "vm_ok s xs A" "spd \<in> A" "dpd \<in> A" "srcva < UTOP" "PGOFF srcva = 0"
    "env_ipc_dstva (envs s e) < UTOP" "perm AND NOT PTE_SYSCALL = 0"
    "perm AND (PTE_P OR PTE_U) = PTE_P OR PTE_U"
    "uspace s spd (vpn srcva) = Some (f, fl)" "mappable s xs A f"
    "perm AND PTE_W \<noteq> 0 \<longrightarrow> fl AND PTE_W \<noteq> 0"
  shows "if xs = [] \<and> \<not> has_tbl s dpd (unat (PDX (env_ipc_dstva (envs s e))))
    then sys_ipc_try_send envid value srcva perm s = Ret (- E_NO_MEM) s
    else \<exists>t ys. sys_ipc_try_send envid value srcva perm s = Ret 0 t \<and> vm_ok t ys A \<and>
      (\<forall>q\<in>A. uspace t q = (if q = dpd then (uspace s q)(vpn (env_ipc_dstva (envs s e)) \<mapsto> (f, perm))
         else uspace s q)) \<and>
      env_ipc_value (envs t e) = value \<and> env_ipc_from (envs t e) = env_id (envs s c) \<and>
      env_ipc_perm (envs t e) = perm \<and> \<not> env_ipc_recving (envs t e) \<and>
      env_status (envs t e) = ENV_RUNNABLE"
  by (rule ipc_send_any_page [OF assms(1-15)])

text \<open>
  The rights of the sender are not looked at: a page it may only read is handed on writable.
\<close>

theorem ipc_send_raises_rights:
  assumes "envid2env envid False s = Ret (0, Some e) s" "env_ipc_recving (envs s e)"
    "curenv s = Some c" "env_pgdir (envs s c) = Some spd" "env_pgdir (envs s e) = Some dpd"
    "vm_ok s xs A" "spd \<in> A" "dpd \<in> A" "srcva < UTOP" "PGOFF srcva = 0"
    "env_ipc_dstva (envs s e) < UTOP" "uspace s spd (vpn srcva) = Some (f, PTE_U OR PTE_P)" "mappable s xs A f"
    "has_tbl s dpd (unat (PDX (env_ipc_dstva (envs s e))))"
  shows "\<exists>t. sys_ipc_try_send envid value srcva ((PTE_U OR PTE_P) OR PTE_W) s = Ret 0 t \<and>
    uspace t dpd (vpn (env_ipc_dstva (envs s e))) = Some (f, (PTE_U OR PTE_P) OR PTE_W)"
proof -
  have "((PTE_U OR PTE_P) OR PTE_W) AND NOT PTE_SYSCALL = 0"
    "((PTE_U OR PTE_P) OR PTE_W) AND (PTE_P OR PTE_U) = PTE_P OR PTE_U"
    by (simp_all add: PTE_SYSCALL_def PTE_AVAIL_def PTE_U_def PTE_P_def PTE_W_def)
  from ipc_send_any_page [OF assms(1-11) this assms(12,13), of "value"] assms(8,14) show ?thesis by auto
qed

section \<open>Creating a child\<close>

text \<open>
  \<open>sys_exofork\<close> creates a child of the caller in the first free slot: it returns the new,
  positive identifier, and the child is not runnable yet, has an empty address space, the registers
  of the caller with 0 in \<open>eax\<close>, so that the call returns 0 there, and the caller's page fault
  handler. All other environments and address spaces stay as they are; without a free slot or frame
  the call fails and changes nothing.
\<close>

theorem sys_exofork_child:
  assumes "vm_ok s xs A" "free_envs_ok s es" "kern_pgdir s \<notin> set xs" "curenv s = Some c"
    "c \<notin> set es"
  shows "case es of [] \<Rightarrow> sys_exofork s = Ret (- E_NO_FREE_ENV) s
    | e # es' \<Rightarrow> (case xs of [] \<Rightarrow> sys_exofork s = Ret (- E_NO_MEM) s
      | p # ps \<Rightarrow> \<exists>t. sys_exofork s = Ret (sint (env_id (envs t e))) t \<and> 0 < sint (env_id (envs t e)) \<and>
          ENVX (env_id (envs t e)) = e \<and> env_parent_id (envs t e) = env_id (envs s c) \<and>
          env_status (envs t e) = ENV_NOT_RUNNABLE \<and>
          env_tf (envs t e) = (env_tf (envs s c))\<lparr>tf_regs := (tf_regs (env_tf (envs s c)))\<lparr>reg_eax := 0\<rparr>\<rparr> \<and>
          env_pgfault_upcall (envs t e) = env_pgfault_upcall (envs s c) \<and>
          env_pgdir (envs t e) = Some p \<and> vm_ok t ps (insert p A) \<and> uspace t p = Map.empty \<and>
          (\<forall>q\<in>A. uspace t q = uspace s q) \<and> (\<forall>x. x \<noteq> e \<longrightarrow> envs t x = envs s x))"
proof (cases es)
  case Nil
  with assms(2,4) show ?thesis
    by (simp add: sys_exofork_def env_alloc_def free_envs_ok_def error_defs)
next
  case (Cons e es')
  with assms(2) have h: "env_free_list s = Some e" "e < NENV" by (auto simp: free_envs_ok_def)
  from Cons assms(5) have ne: "c \<noteq> e" by auto
  note eq = env_alloc_eq [OF vm_free [OF assms(1)] h(1), of "env_id (envs s c)"]
  show ?thesis
  proof (cases xs)
    case Nil
    with eq Cons assms(4) show ?thesis by (simp add: sys_exofork_def error_defs)
  next
    case xs: (Cons p ps)
    with assms(1) have ok: "vm_ok s (p # ps) A" by simp
    then have z: "pp_ref (pages s p) = 0" using vm_free [OF ok] by (simp add: free_pages_ok_def)
    note v = with_pd_view [OF z, where e = e]
    let ?u = "(upd_env e (\<lambda>v. v\<lparr>env_id := new_env_id (env_id (envs s e)) e,
        env_parent_id := env_id (envs s c), env_type := ENV_TYPE_USER, env_status := ENV_RUNNABLE,
        env_runs := 0, env_tf := zero_Trapframe\<lparr>tf_ds := GD_UD OR 3, tf_es := GD_UD OR 3,
          tf_ss := GD_UD OR 3, tf_esp := USTACKTOP, tf_cs := GD_UT OR 3, tf_eflags := FL_IF\<rparr>,
        env_pgfault_upcall := 0, env_ipc_recving := False\<rparr>) (with_pd e p s))
      \<lparr>env_free_list := env_link (envs s e)\<rparr>"
    have cu: "curenv ?u = Some c" using v(10) assms(4) by (simp add: curenv_def)
    have eu: "envs ?u c = envs s c" using ne v(8) by simp
    let ?t = "upd_env e (\<lambda>v. v\<lparr>env_tf := (env_tf v)\<lparr>tf_regs := (tf_regs (env_tf v))\<lparr>reg_eax := 0\<rparr>\<rparr>\<rparr>)
      (upd_env e (\<lambda>v. v\<lparr>env_pgfault_upcall := env_pgfault_upcall (envs s c)\<rparr>)
        (upd_env e (\<lambda>v. v\<lparr>env_tf := env_tf (envs s c)\<rparr>)
          (upd_env e (\<lambda>v. v\<lparr>env_status := ENV_NOT_RUNNABLE\<rparr>) ?u)))"
    have t: "sys_exofork s = Ret (sint (env_id (envs ?t e))) ?t"
      using eq xs cu eu assms(4) ne
      by (simp add: sys_exofork_def deref_def error_defs Let_def)
    have id: "env_id (envs ?t e) = new_env_id (env_id (envs s e)) e" by simp
    have pos: "0 < sint (env_id (envs ?t e))" "ENVX (env_id (envs ?t e)) = e"
      using new_env_id_facts(1,2) [OF h(2), of "env_id (envs s e)"] by (simp_all add: id word_sless_alt)
    have "\<exists>t. sys_exofork s = Ret (sint (env_id (envs t e))) t \<and> 0 < sint (env_id (envs t e)) \<and>
          ENVX (env_id (envs t e)) = e \<and> env_parent_id (envs t e) = env_id (envs s c) \<and>
          env_status (envs t e) = ENV_NOT_RUNNABLE \<and>
          env_tf (envs t e) = (env_tf (envs s c))\<lparr>tf_regs := (tf_regs (env_tf (envs s c)))\<lparr>reg_eax := 0\<rparr>\<rparr> \<and>
          env_pgfault_upcall (envs t e) = env_pgfault_upcall (envs s c) \<and>
          env_pgdir (envs t e) = Some p \<and> vm_ok t ps (insert p A) \<and> uspace t p = Map.empty \<and>
          (\<forall>q\<in>A. uspace t q = uspace s q) \<and> (\<forall>x. x \<noteq> e \<longrightarrow> envs t x = envs s x)"
      using t pos with_pd_ok [OF ok, where e = e]
      by (intro exI [of _ ?t] conjI) (simp_all add: v(8))
    with Cons xs show ?thesis by simp
  qed
qed

section \<open>Printing\<close>

lemma str_loop_limit:
  "\<forall>i<length bs. r (k + i) = Some (bs ! i) \<and> bs ! i \<noteq> 0 \<Longrightarrow> length bs < n \<Longrightarrow>
    str_loop putch r False n k (int (length bs)) w s =
    (case r (k + length bs) of None \<Rightarrow> Panic fault_msg
     | Some b \<Rightarrow> Ret (w - int (length bs)) (fold putch (map scast bs) s))"
proof (induction bs arbitrary: n k w s)
  case Nil
  then obtain m where "n = Suc m" by (cases n) auto
  then show ?case by (simp split: option.split)
next
  case (Cons b bs)
  then obtain m where n: "n = Suc m" by (cases n) auto
  from Cons.prems(1) have b: "r k = Some b" "b \<noteq> 0" by auto
  have "\<forall>i<length bs. r (Suc k + i) = Some (bs ! i) \<and> bs ! i \<noteq> 0" using Cons.prems(1) by auto
  from Cons.IH [OF this, of m "w - 1" "putch (scast b) s"] Cons.prems(2) n b show ?case
    by (simp add: visible_def split: option.split)
qed

lemma cputs_format:
  assumes "va \<noteq> 0" "sint len = int (length bs)" "\<forall>i<length bs. rd (va + of_nat i) = Some (bs ! i) \<and> bs ! i \<noteq> 0"
  shows "vprintfmt collect rd (\<lambda>i. if i = 0 then len else va) (chars ''%.*s'') 0 [] =
    (case rd (va + of_nat (length bs)) of None \<Rightarrow> Panic fault_msg | Some b \<Rightarrow> Ret () (map scast bs))"
proof -
  have "int (length bs) < 2 ^ 31" using assms(2) sint_less [of len] by simp
  then have l: "length bs < 4294967296" by simp
  have f: "fold collect cs xs = xs @ cs" for cs xs
    by (induction cs arbitrary: xs) (simp_all add: collect_def)
  from str_loop_limit [of bs "\<lambda>k. rd (va + of_nat k)" 0 "2 ^ 32" collect 0 "[]"] assms l
  show ?thesis
    by (simp add: chars_def vprintfmt.simps init_spec_def process_precision_def convert_def Let_def
        fmt_string_def str_at_def f split: option.split)
qed

text \<open>
  \<open>sys_cputs\<close> prints the \<open>len\<close> characters of a string that passed the check of the user's
  memory, provided one more byte can be read: the formatter looks at the character after the last
  one, which was not checked. If that byte is not mapped, the kernel panics.
\<close>

theorem sys_cputs_reads_one_more:
  assumes "curenv s = Some e" "user_mem_check e va len (PTE_U OR PTE_P) s = Ret 0 s" "va \<noteq> 0"
    "sint len = int (length bs)"
    "\<forall>i<length bs. rd_kernel s (va + of_nat i) = Some (bs ! i) \<and> bs ! i \<noteq> 0"
  shows "sys_cputs va len s = (case rd_kernel s (va + len) of None \<Rightarrow> Panic fault_msg
    | Some b \<Rightarrow> Ret () (s\<lparr>cons := fold cputchar (map scast bs) (cons s)\<rparr>))"
proof -
  have U: "(PTE_U OR PTE_P) OR PTE_U = PTE_U OR PTE_P" by (simp add: PTE_U_def PTE_P_def)
  have "len = of_int (sint len)" by simp
  then have l: "va + of_nat (length bs) = va + len" by (simp add: assms(4))
  have "fold kputch cs s = s\<lparr>cons := fold cputchar cs (cons s)\<rparr>" for cs
    by (induction cs arbitrary: s) (simp_all add: kputch_def)
  with cputs_format [OF assms(3-5)] assms(1,2) show ?thesis
    by (simp add: sys_cputs_def deref_def user_mem_assert_def U cprintf_def vcprintf_def Let_def
        sink_output(1) l split: option.split)
qed

section \<open>The dispatcher\<close>

text \<open>Every number of the table reaches a call, every other is refused.\<close>

lemma syscall_unknown:
  "NSYSCALLS \<le> unat n \<Longrightarrow> syscall n a1 a2 a3 a4 a5 s = Ret (- E_INVAL) s"
  by (simp add: syscall_def syscall_of_def)

lemma syscall_known: "unat n < NSYSCALLS \<longleftrightarrow> (\<exists>c. syscall_of n = Some c)"
  by (simp add: syscall_of_def)

section \<open>Witnesses\<close>

text \<open>
  Process 0 runs, with the page table of \<open>mapped_state\<close>; process 1, its child, shares this address
  space and waits for a message at address 0x1000; slot 2 is free.
\<close>

definition proc_state :: kstate where
  "proc_state = (set_curenv (Some 0) mapped_state)\<lparr>env_free_list := Some 2,
     envs := (\<lambda>_. zero_Env)
       (0 := zero_Env\<lparr>env_pgdir := Some 1, env_id := 0x1000, env_status := ENV_RUNNING\<rparr>,
        1 := zero_Env\<lparr>env_pgdir := Some 1, env_id := 0x1001, env_parent_id := 0x1000,
               env_status := ENV_NOT_RUNNABLE, env_ipc_recving := True, env_ipc_dstva := 0x1000\<rparr>)\<rparr>"

lemma proc_simps:
  "curenv proc_state = Some 0" "env_pgdir (envs proc_state 0) = Some 1"
  "env_pgdir (envs proc_state 1) = Some 1" "env_ipc_recving (envs proc_state 1)"
  "env_ipc_dstva (envs proc_state 1) = 0x1000" "env_id (envs proc_state 0) = 0x1000"
  "kmem proc_state = kmem mapped_state" "pages proc_state = pages mapped_state"
  "npages proc_state = npages mapped_state" "kern_pgdir proc_state = 0"
  "page_free_list proc_state = page_free_list mapped_state"
  "env_status (envs proc_state 2) = ENV_FREE" "env_free_list proc_state = Some 2"
  "env_link (envs proc_state 2) = None"
  by (simp_all add: proc_state_def set_curenv_def upd_this_cpu_def curenv_def zero_Env_def)
    (simp add: mapped_state_def incref_def with_tbl_def blank_state_def bss_state_def)

lemma proc_ok:
  "vm_ok proc_state [4] {1}" "uspace proc_state 1 (vpn 0) = Some (2, PTE_U OR PTE_P)"
  "mappable proc_state [4] {1} 2" "free_envs_ok proc_state [2]"
  "envid2env 0x1000 True proc_state = Ret (0, Some 0) proc_state"
  "envid2env 0x1001 True proc_state = Ret (0, Some 1) proc_state"
  "envid2env 0x1001 False proc_state = Ret (0, Some 1) proc_state"
proof -
  have c: "vm_ok proc_state [4] {1} = vm_ok mapped_state [4] {1}"
    by (rule vm_ok_cong) (simp_all add: proc_simps)
  with mapped_ok(1) show "vm_ok proc_state [4] {1}" by simp
  show "uspace proc_state 1 (vpn 0) = Some (2, PTE_U OR PTE_P)"
    using mapped_ok(2) uspace_kmem_cong [OF proc_simps(7)] by simp
  have "structural proc_state {1} = {1, 3}"
    using mapped_ok(3) vm_kmem_cong [OF proc_simps(7)] by simp
  then show "mappable proc_state [4] {1} 2"
    by (simp add: mappable_def proc_simps mapped_simps)
  show "free_envs_ok proc_state [2]" by (simp add: free_envs_ok_def proc_simps NENV_def LOG2NENV_def)
  show "envid2env 0x1000 True proc_state = Ret (0, Some 0) proc_state"
    "envid2env 0x1001 True proc_state = Ret (0, Some 1) proc_state"
    "envid2env 0x1001 False proc_state = Ret (0, Some 1) proc_state"
    by (simp_all add: envid2env_def ENVX_mod Let_def proc_simps(1))
      (simp_all add: proc_state_def zero_Env_def)
qed

lemma demo_perm:
  "(PTE_U OR PTE_P) AND NOT PTE_SYSCALL = 0" "((PTE_U OR PTE_P) OR PTE_W) AND NOT PTE_SYSCALL = 0"
  "((PTE_U OR PTE_P) OR PTE_W) AND (PTE_U OR PTE_P) = PTE_U OR PTE_P"
  "((PTE_U OR PTE_P) OR PTE_W) AND (PTE_P OR PTE_U) = PTE_P OR PTE_U"
  "((PTE_U OR PTE_P) OR PTE_W) AND PTE_W \<noteq> 0" "(PTE_U OR PTE_P) AND PTE_W = 0"
  by (simp_all add: PTE_SYSCALL_def PTE_AVAIL_def PTE_U_def PTE_P_def PTE_W_def)

theorem syscall_respects_rights_witness:
  "\<exists>r. syscall 3 0x1002 0 0 0 0 proc_state = Ret r proc_state \<and> (r = - E_BAD_ENV \<or> r = - E_INVAL)"
proof -
  have "no_rights proc_state 0 0x1002"
    by (simp add: no_rights_def ENVX_mod Let_def proc_simps(12))
  moreover have "syscall_of 3 = Some SYS_env_destroy"
    by (simp add: syscall_of_def NSYSCALLS_def syscall_nos_def)
  ultimately show ?thesis using syscall_respects_rights [OF proc_simps(1)] by blast
qed

text \<open>The page table for the address 0x1000 is there.\<close>

lemma proc_table: "has_tbl proc_state 1 (unat (PDX 0x1000))"
  using mapped_unmapped vm_kmem_cong [OF proc_simps(7)] by (simp add: has_tbl_def)

theorem sys_page_alloc_maps_witness:
  "\<exists>t. sys_page_alloc 0x1000 0x1000 (PTE_U OR PTE_P) proc_state = Ret 0 t \<and>
      uspace t 1 (vpn 0x1000) = Some (4, PTE_U OR PTE_P) \<and> kmem t 4 = (\<lambda>_. 0)"
  using sys_page_alloc_maps [OF proc_ok(5) proc_simps(2) proc_ok(1) _ _ zero_user(2) _ demo_perm(1)] proc_table
  by auto

theorem sys_page_alloc_loses_frame_witness:
  "\<exists>t. sys_page_alloc 0x1000 0x800000 (PTE_U OR PTE_P) proc_state = Ret (- E_NO_MEM) t \<and> vm_ok t [] {1} \<and>
    pp_ref (pages t 4) = 0"
proof -
  have k: "kmem mapped_state 1 = (kmem blank_state 1)(0 := pde_for 3)"
    using with_tbl_kmem [where p = 3 and pd = 1 and i = 0 and s = blank_state] by (simp add: mapped_state_def fun_eq_iff)
  have "\<not> has_tbl proc_state 1 (unat (PDX 0x800000))"
    by (simp add: has_tbl_def proc_simps unat_PDX k [unfolded One_nat_def]) (simp add: blank_state_def bss_state_def)
  moreover have "(0x800000 :: u32) < UTOP" by (simp add: layout_values)
  ultimately show ?thesis
    using sys_page_alloc_loses_frame [OF proc_ok(5) proc_simps(2) proc_ok(1), of "0x800000" "PTE_U OR PTE_P"]
    by (auto simp: demo_perm(1))
qed

theorem sys_page_alloc_maps_any_frame_witness:
  "\<exists>t. sys_page_alloc 0x1000 0x1000 ((PTE_U OR PTE_P) OR 0x1000) proc_state = Ret 0 t \<and>
    frame_of (pte t 1 (unat (PDX 0x1000)) (unat (PTX 0x1000))) = 5"
proof -
  have "has_tbl mapped_state 1 (unat (PDX 0x1000)) \<and> uspace mapped_state 1 (vpn 0x1000) = None"
    using mapped_unmapped by simp
  then have "has_tbl proc_state 1 (unat (PDX 0x1000))" "uspace proc_state 1 (vpn 0x1000) = None"
    using vm_kmem_cong [OF proc_simps(7)] uspace_kmem_cong [OF proc_simps(7)] by (simp_all add: has_tbl_def)
  moreover have "(((PTE_U OR PTE_P) OR 0x1000) AND 0xfff) AND NOT PTE_SYSCALL = 0"
    "((PTE_U OR PTE_P) OR 0x1000) AND (PTE_U OR PTE_P) = PTE_U OR PTE_P"
    "4 OR frame_of ((PTE_U OR PTE_P) OR 0x1000) = 5"
    by (simp_all add: PTE_SYSCALL_def PTE_AVAIL_def PTE_U_def PTE_P_def PTE_W_def frame_of_def PGNUM_def)
  ultimately show ?thesis
    using sys_page_alloc_maps_any_frame [OF proc_ok(5) proc_simps(2) proc_ok(1) _ _ zero_user(2),
      of "(PTE_U OR PTE_P) OR 0x1000"] by simp
qed

theorem sys_page_map_shares_witness:
  "sys_page_map 0x1000 0 0x1001 0x1000 ((PTE_U OR PTE_P) OR PTE_W) proc_state = Ret (- E_INVAL) proc_state \<and>
   (\<exists>t. sys_page_map 0x1000 0 0x1001 0x1000 (PTE_U OR PTE_P) proc_state = Ret 0 t \<and>
     uspace t 1 (vpn 0x1000) = Some (2, PTE_U OR PTE_P))"
  using sys_page_map_shares [OF proc_ok(5) proc_simps(2) proc_ok(6) proc_simps(3) proc_ok(1) _ _
      zero_user _ _ demo_perm(2,3) proc_ok(2,3)]
    sys_page_map_shares [OF proc_ok(5) proc_simps(2) proc_ok(6) proc_simps(3) proc_ok(1) _ _
      zero_user _ _ demo_perm(1) _ proc_ok(2,3)] demo_perm(5,6) by auto

theorem sys_page_unmap_unmaps_witness:
  "\<exists>t. sys_page_unmap 0x1000 0 proc_state = Ret 0 t \<and> uspace t 1 (vpn 0) = None"
  using sys_page_unmap_unmaps [OF proc_ok(5) proc_simps(2) proc_ok(1) _ zero_user(1) _ proc_ok(2)]
  by auto

theorem ipc_send_value_witness:
  "\<exists>t. sys_ipc_try_send 0x1001 42 UTOP 0 proc_state = Ret 0 t \<and> env_ipc_value (envs t 1) = 42"
  using ipc_send_value [OF proc_ok(7) proc_simps(1), of UTOP 42 0] proc_simps(4) by simp

theorem ipc_send_page_witness:
  "\<exists>t. sys_ipc_try_send 0x1001 42 0 (PTE_U OR PTE_P) proc_state = Ret 0 t \<and>
      uspace t 1 (vpn 0x1000) = Some (2, PTE_U OR PTE_P) \<and> env_ipc_value (envs t 1) = 42"
proof -
  have v: "env_ipc_dstva (envs proc_state 1) < UTOP" using zero_user(2) by (simp only: proc_simps)
  have p: "(PTE_U OR PTE_P) AND (PTE_P OR PTE_U) = PTE_P OR PTE_U" by (simp add: PTE_U_def PTE_P_def)
  from ipc_send_page [OF proc_ok(7) proc_simps(4,1,2,3) proc_ok(1) _ _ zero_user(1) _ v demo_perm(1) p
      proc_ok(2,3), of 42] proc_table demo_perm(6) show ?thesis
    by (auto simp: proc_simps(5) [unfolded One_nat_def] PGOFF_def)
qed

theorem ipc_send_raises_rights_witness:
  "\<exists>t. sys_ipc_try_send 0x1001 42 0 ((PTE_U OR PTE_P) OR PTE_W) proc_state = Ret 0 t \<and>
      uspace t 1 (vpn 0x1000) = Some (2, (PTE_U OR PTE_P) OR PTE_W)"
proof -
  have v: "env_ipc_dstva (envs proc_state 1) < UTOP" using zero_user(2) by (simp only: proc_simps)
  from ipc_send_raises_rights [OF proc_ok(7) proc_simps(4,1,2,3) proc_ok(1) _ _ zero_user(1) _ v
      proc_ok(2,3), of 42] proc_table show ?thesis
    by (auto simp: proc_simps(5) [unfolded One_nat_def] PGOFF_def)
qed

theorem sys_exofork_child_witness:
  "\<exists>t. sys_exofork proc_state = Ret (sint (env_id (envs t 2))) t \<and>
    env_status (envs t 2) = ENV_NOT_RUNNABLE \<and> env_parent_id (envs t 2) = 0x1000"
  using sys_exofork_child [OF proc_ok(1,4) _ proc_simps(1)] by (auto simp: proc_simps)

text \<open>Process 0 with its page directory loaded and an \<open>A\<close> as the last byte of its only page.\<close>

definition cputs_state :: kstate where
  "cputs_state = (wr_word 2 1023 0x41000000 proc_state)\<lparr>cr3 := 1\<rparr>"

lemma cputs_simps:
  "kmem cputs_state 1 0 = pde_for 3" "kmem cputs_state 3 0 = pte_for 2 PTE_U"
  "kmem cputs_state 3 1 = 0" "kmem cputs_state 2 1023 = 0x41000000" "cr3 cputs_state = 1"
  "npages cputs_state = 5" "curenv cputs_state = Some 0"
  "env_pgdir (envs cputs_state 0) = Some 1"
proof -
  have k: "kmem mapped_state 1 0 = pde_for 3" "kmem mapped_state 3 0 = pte_for 2 PTE_U"
    "kmem mapped_state 3 1 = 0"
    using with_tbl_kmem [where p = 3 and pd = 1 and i = 0 and s = blank_state] by (simp_all add: mapped_state_def)
  then show "kmem cputs_state 1 0 = pde_for 3" "kmem cputs_state 3 0 = pte_for 2 PTE_U"
    "kmem cputs_state 3 1 = 0" "kmem cputs_state 2 1023 = 0x41000000"
    by (simp_all add: cputs_state_def wr_word_def proc_simps(7))
  show "cr3 cputs_state = 1" "npages cputs_state = 5" "curenv cputs_state = Some 0"
    "env_pgdir (envs cputs_state 0) = Some 1"
    using proc_simps(1,2,9) mapped_simps(1) by (simp_all add: cputs_state_def curenv_def)
qed

lemma cputs_flags:
  "pde_for 3 = 0x3007" "pte_for 2 PTE_U = 0x2005"
  by (simp_all add: pde_for_def pte_for_def page2pa_def PTE_ADDR_def PTE_P_def PTE_U_def PTE_W_def)

theorem sys_cputs_reads_one_more_witness: "sys_cputs 0xFFF 1 cputs_state = Panic fault_msg"
proof -
  note c = cputs_simps [unfolded cputs_flags]
  have a: "unat (PDX 0xFFF) = 0" "unat (PTX 0xFFF) = 0" "unat (PDX 0x1000) = 0" "unat (PTX 0x1000) = 1"
    "unat (PGOFF 0xFFF) = 4095"
    by (simp_all add: unat_PDX unat_PTX PGOFF_def)
  have "user_mem_check 0 0xFFF 1 (PTE_U OR PTE_P) cputs_state = Ret 0 cputs_state"
    using c a
    by (simp add: user_mem_check_def pgdir_walk_def c_not_def PTE_P_def PTE_U_def PTE_ADDR_def kaddr_def
        kva_frame_def KERNBASE_def PGNUM_def PDX_def ROUNDUP_def ROUNDDOWN_def PGSIZE_def Let_def
        user_mem_check_loop.simps)
  moreover have "rd_kernel cputs_state 0xFFF = Some 0x41" "rd_kernel cputs_state 0x1000 = None"
    using c a by (simp_all add: rd_kernel_def load8_def mmu_def PTE_P_def PGNUM_def rd_byte_def Let_def)
  ultimately show ?thesis
    using sys_cputs_reads_one_more [OF cputs_simps(7), of "0xFFF" 1 "[0x41]"] by simp
qed

end
