(* ===== verification/Jos_Trap.thy ===== *)
theory Jos_Trap
  imports Jos_Syscall
begin

text \<open>
  Traps (kern/trap.c): the interrupt descriptor table and the per-CPU task state, and what the
  kernel does from the entry of a trap to the return to user mode. A trap frame is either on the
  kernel stack or the one saved in an environment, to which \<open>tf\<close> points after a trap from user
  mode. The kernel monitor never returns, since no command returns a negative number; messages
  are not part of the state, nor is the acknowledgement of an interrupt to the local APIC.
\<close>

section \<open>Descriptors (inc/mmu.h)\<close>

record Gatedesc =
  gd_off_15_0 :: u16
  gd_sel :: u16
  gd_args :: u8
  gd_rsv1 :: u8
  gd_type :: u8
  gd_s :: bool
  gd_dpl :: nat
  gd_p :: bool
  gd_off_31_16 :: u16

definition STS_IG32 :: u8 where "STS_IG32 = 0xE"
definition STS_TG32 :: u8 where "STS_TG32 = 0xF"
definition STS_T32A :: u8 where "STS_T32A = 0x9"

definition SETGATE :: "bool \<Rightarrow> u16 \<Rightarrow> u32 \<Rightarrow> nat \<Rightarrow> Gatedesc" where
  "SETGATE istrap sel off dpl =
     \<lparr>gd_off_15_0 = ucast (off AND 0xffff), gd_sel = sel, gd_args = 0, gd_rsv1 = 0,
      gd_type = (if istrap then STS_TG32 else STS_IG32), gd_s = False, gd_dpl = dpl, gd_p = True,
      gd_off_31_16 = ucast (drop_bit 16 off)\<rparr>"

definition gate_off :: "Gatedesc \<Rightarrow> u32" where
  "gate_off g = ucast (gd_off_15_0 g) OR push_bit 16 (ucast (gd_off_31_16 g))"

definition zero_gate :: Gatedesc where
  "zero_gate = \<lparr>gd_off_15_0 = 0, gd_sel = 0, gd_args = 0, gd_rsv1 = 0, gd_type = 0, gd_s = False,
     gd_dpl = 0, gd_p = False, gd_off_31_16 = 0\<rparr>"

text \<open>The single bits are truth values, the narrow fields bytes.\<close>

record Segdesc =
  sd_lim_15_0 :: u16
  sd_base_15_0 :: u16
  sd_base_23_16 :: u8
  sd_type :: u8
  sd_s :: bool
  sd_dpl :: nat
  sd_p :: bool
  sd_lim_19_16 :: u8
  sd_avl :: bool
  sd_rsv1 :: bool
  sd_db :: bool
  sd_g :: bool
  sd_base_31_24 :: u8

definition SEG_NULL :: Segdesc where
  "SEG_NULL = \<lparr>sd_lim_15_0 = 0, sd_base_15_0 = 0, sd_base_23_16 = 0, sd_type = 0, sd_s = False,
     sd_dpl = 0, sd_p = False, sd_lim_19_16 = 0, sd_avl = False, sd_rsv1 = False, sd_db = False,
     sd_g = False, sd_base_31_24 = 0\<rparr>"

definition SEG :: "u8 \<Rightarrow> u32 \<Rightarrow> u32 \<Rightarrow> nat \<Rightarrow> Segdesc" where
  "SEG ty base lim dpl =
     \<lparr>sd_lim_15_0 = ucast (drop_bit 12 lim AND 0xffff), sd_base_15_0 = ucast (base AND 0xffff),
      sd_base_23_16 = ucast (drop_bit 16 base AND 0xff), sd_type = ty, sd_s = True, sd_dpl = dpl,
      sd_p = True, sd_lim_19_16 = ucast (drop_bit 28 lim), sd_avl = False, sd_rsv1 = False,
      sd_db = True, sd_g = True, sd_base_31_24 = ucast (drop_bit 24 base)\<rparr>"

definition SEG16 :: "u8 \<Rightarrow> u32 \<Rightarrow> u32 \<Rightarrow> nat \<Rightarrow> Segdesc" where
  "SEG16 ty base lim dpl =
     \<lparr>sd_lim_15_0 = ucast (lim AND 0xffff), sd_base_15_0 = ucast (base AND 0xffff),
      sd_base_23_16 = ucast (drop_bit 16 base AND 0xff), sd_type = ty, sd_s = True, sd_dpl = dpl,
      sd_p = True, sd_lim_19_16 = ucast (drop_bit 16 lim AND 0xF), sd_avl = False, sd_rsv1 = False,
      sd_db = True, sd_g = False, sd_base_31_24 = ucast (drop_bit 24 base)\<rparr>"

definition STA_X :: u8 where "STA_X = 0x8"
definition STA_W :: u8 where "STA_W = 0x2"
definition STA_R :: u8 where "STA_R = 0x2"

text \<open>The table of kern/env.c as it is initialised; the slots after it are zero.\<close>

definition gdt_init :: "nat \<Rightarrow> Segdesc" where
  "gdt_init = (\<lambda>_. SEG_NULL)
     (1 := SEG (STA_X OR STA_R) 0 0xffffffff 0, 2 := SEG STA_W 0 0xffffffff 0,
      3 := SEG (STA_X OR STA_R) 0 0xffffffff 3, 4 := SEG STA_W 0 0xffffffff 3)"

section \<open>Trap numbers (inc/trap.h)\<close>

definition T_DIVIDE :: nat where "T_DIVIDE = 0"
definition T_DEBUG :: nat where "T_DEBUG = 1"
definition T_NMI :: nat where "T_NMI = 2"
definition T_BRKPT :: nat where "T_BRKPT = 3"
definition T_OFLOW :: nat where "T_OFLOW = 4"
definition T_BOUND :: nat where "T_BOUND = 5"
definition T_ILLOP :: nat where "T_ILLOP = 6"
definition T_DEVICE :: nat where "T_DEVICE = 7"
definition T_DBLFLT :: nat where "T_DBLFLT = 8"
definition T_TSS :: nat where "T_TSS = 10"
definition T_SEGNP :: nat where "T_SEGNP = 11"
definition T_STACK :: nat where "T_STACK = 12"
definition T_GPFLT :: nat where "T_GPFLT = 13"
definition T_PGFLT :: nat where "T_PGFLT = 14"
definition T_FPERR :: nat where "T_FPERR = 16"
definition T_ALIGN :: nat where "T_ALIGN = 17"
definition T_MCHK :: nat where "T_MCHK = 18"
definition T_SIMDERR :: nat where "T_SIMDERR = 19"
definition T_SYSCALL :: nat where "T_SYSCALL = 48"
definition IRQ_IDE :: nat where "IRQ_IDE = 14"

lemmas trap_no_defs = T_DIVIDE_def T_DEBUG_def T_NMI_def T_BRKPT_def T_OFLOW_def T_BOUND_def T_ILLOP_def
  T_DEVICE_def T_DBLFLT_def T_TSS_def T_SEGNP_def T_STACK_def T_GPFLT_def T_PGFLT_def T_FPERR_def
  T_ALIGN_def T_MCHK_def T_SIMDERR_def T_SYSCALL_def IRQ_IDE_def IRQ_OFFSET_def IRQ_TIMER_def
  IRQ_KBD_def IRQ_SERIAL_def IRQ_SPURIOUS_def

definition excnames :: "string list" where
  "excnames = [''Divide error'', ''Debug'', ''Non-Maskable Interrupt'', ''Breakpoint'', ''Overflow'',
     ''BOUND Range Exceeded'', ''Invalid Opcode'', ''Device Not Available'', ''Double Fault'',
     ''Coprocessor Segment Overrun'', ''Invalid TSS'', ''Segment Not Present'', ''Stack Fault'',
     ''General Protection'', ''Page Fault'', ''(unknown trap)'', ''x87 FPU Floating-Point Error'',
     ''Alignment Check'', ''Machine-Check'', ''SIMD Floating-Point Exception'']"

text \<open>The comparison with the size of the table is one of unsigned numbers.\<close>

definition trapname :: "u32 \<Rightarrow> string" where
  "trapname trapno =
     (if unat trapno < length excnames then excnames ! unat trapno
      else if trapno = of_nat T_SYSCALL then ''System call''
      else if IRQ_OFFSET \<le>s trapno \<and> trapno <s IRQ_OFFSET + 16 then ''Hardware Interrupt''
      else ''(unknown trap)'')"

section \<open>Setting up\<close>

text \<open>
  \<open>t n\<close> is the address of the entry point kern/trapentry.S defines for trap number \<open>n\<close>.
\<close>

definition irq :: "nat \<Rightarrow> nat" where "irq n = unat IRQ_OFFSET + n"

definition idt_gates :: "(nat \<Rightarrow> u32) \<Rightarrow> (nat \<Rightarrow> Gatedesc) \<Rightarrow> nat \<Rightarrow> Gatedesc" where
  "idt_gates t idt =
     fold (\<lambda>(n, dpl) idt. idt(n := SETGATE False GD_KT (t n) dpl))
       ([(T_DIVIDE, 0), (T_DEBUG, 0), (T_NMI, 0), (T_BRKPT, 3), (T_OFLOW, 0), (T_BOUND, 0),
         (T_ILLOP, 0), (T_DEVICE, 0), (T_FPERR, 0), (T_MCHK, 0), (T_SIMDERR, 0), (T_SYSCALL, 3),
         (T_DBLFLT, 0), (T_TSS, 0), (T_SEGNP, 0), (T_STACK, 0), (T_GPFLT, 0), (T_PGFLT, 0),
         (T_ALIGN, 0)] @
        [(irq IRQ_TIMER, 0), (irq IRQ_KBD, 0), (irq 2, 0), (irq 3, 0), (irq IRQ_SERIAL, 0),
         (irq 5, 0), (irq 6, 0), (irq IRQ_SPURIOUS, 0), (irq 8, 0), (irq 9, 0), (irq 10, 0),
         (irq 11, 0), (irq 12, 0), (irq 13, 0), (irq IRQ_IDE, 0), (irq 15, 0)]) idt"

text \<open>\<open>sizeof(struct Taskstate)\<close>.\<close>

definition TS_SIZE :: u32 where "TS_SIZE = 104"

text \<open>The descriptor tables, and the task register of each CPU.\<close>

record tables =
  idt :: "nat \<Rightarrow> Gatedesc"
  gdt :: "nat \<Rightarrow> Segdesc"
  task_reg :: "nat \<Rightarrow> u16"

text \<open>\<open>ts_addr\<close> gives the address of the task state of each CPU.\<close>

definition trap_init_percpu :: "(nat \<Rightarrow> u32) \<Rightarrow> tables \<Rightarrow> kstate \<Rightarrow> tables \<times> kstate" where
  "trap_init_percpu ts_addr d s =
     (let s = upd_this_cpu (\<lambda>c. c\<lparr>ts_esp0 := KSTACKTOP - ucast (cpu_id c) * (KSTKSIZE + KSTKGAP)\<rparr>) s;
          s = upd_this_cpu (\<lambda>c. c\<lparr>ts_ss0 := GD_KD\<rparr>) s;
          s = upd_this_cpu (\<lambda>c. c\<lparr>ts_iomb := ucast TS_SIZE\<rparr>) s;
          cpunum = this_cpu s; i = unat (drop_bit 3 GD_TSS0) + cpunum;
          d = d\<lparr>gdt := (gdt d)(i := SEG16 STS_T32A (ts_addr cpunum) (TS_SIZE - 1) 0)\<rparr>;
          d = d\<lparr>gdt := (gdt d)(i := (gdt d i)\<lparr>sd_s := False\<rparr>)\<rparr>;
          d = d\<lparr>task_reg := (task_reg d)(cpunum := GD_TSS0 + push_bit 3 (of_nat cpunum))\<rparr>
      in (d, s))"

definition trap_init :: "(nat \<Rightarrow> u32) \<Rightarrow> (nat \<Rightarrow> u32) \<Rightarrow> tables \<Rightarrow> kstate \<Rightarrow> tables \<times> kstate" where
  "trap_init t ts_addr d s = trap_init_percpu ts_addr (d\<lparr>idt := idt_gates t (idt d)\<rparr>) s"

section \<open>Handling a trap\<close>

datatype frame = OnStack Trapframe | OfEnv nat

fun frame_tf :: "frame \<Rightarrow> kstate \<Rightarrow> Trapframe" where
  "frame_tf (OnStack tf) s = tf"
| "frame_tf (OfEnv e) s = env_tf (envs s e)"

text \<open>\<open>sizeof(struct UTrapframe)\<close>.\<close>

definition UTF_SIZE :: u32 where "UTF_SIZE = 52"

text \<open>The assignments to the fields of \<open>utf\<close>, in their order.\<close>

definition utf_words :: "u32 \<Rightarrow> Trapframe \<Rightarrow> u32 list" where
  "utf_words fault_va tf =
     (let r = tf_regs tf in
      [fault_va, tf_err tf, reg_edi r, reg_esi r, reg_ebp r, reg_oesp r, reg_ebx r, reg_edx r, reg_ecx r,
       reg_eax r, tf_eip tf, tf_eflags tf, tf_esp tf])"

fun store_words :: "u32 \<Rightarrow> u32 list \<Rightarrow> kstate \<Rightarrow> unit kres" where
  "store_words va [] s = Ret () s"
| "store_words va (w # ws) s = bindO (store32 va w s) (\<lambda>_ s. store_words (va + 4) ws s)"

definition utf_address :: "Trapframe \<Rightarrow> u32" where
  "utf_address tf =
     (if ROUNDUP (tf_esp tf) PGSIZE = UXSTACKTOP then tf_esp tf - 4 - UTF_SIZE
      else UXSTACKTOP - UTF_SIZE)"

text \<open>\<open>fault_va\<close> is what register \<open>cr2\<close> holds.\<close>

definition page_fault_handler :: "u32 \<Rightarrow> frame \<Rightarrow> kstate \<Rightarrow> unit kres" where
  "page_fault_handler fault_va tf s =
     (if tf_cs (frame_tf tf s) AND 3 = 0
      then Panic ''in page_fault_handler, the fault was a kernel-level fault instead of a user-level fault''
      else deref (curenv s) (\<lambda>c s.
        if env_pgfault_upcall (envs s c) = 0 then env_destroy c s
        else
          (let a = utf_address (frame_tf tf s) in
           bindO (user_mem_assert c a UTF_SIZE (PTE_W OR PTE_U) s) (\<lambda>_ s.
             bindO (store_words a (utf_words fault_va (frame_tf tf s)) s) (\<lambda>_ s.
               let s = upd_env c (\<lambda>v. v\<lparr>env_tf := (env_tf v)\<lparr>tf_eip := env_pgfault_upcall v\<rparr>\<rparr>) s;
                   s = upd_env c (\<lambda>v. v\<lparr>env_tf := (env_tf v)\<lparr>tf_esp := a\<rparr>\<rparr>) s
               in env_run c s)))) s)"

text \<open>Writing to a frame on the stack has no effect later, since \<open>trap\<close> does not return to it.\<close>

definition set_eax :: "frame \<Rightarrow> int \<Rightarrow> kstate \<Rightarrow> kstate" where
  "set_eax tf ret s =
     (case tf of
        OnStack _ \<Rightarrow> s
      | OfEnv e \<Rightarrow>
          upd_env e (\<lambda>v. v\<lparr>env_tf := (env_tf v)\<lparr>tf_regs := (tf_regs (env_tf v))\<lparr>reg_eax := of_int ret\<rparr>\<rparr>\<rparr>) s)"

definition trap_dispatch :: "u32 \<Rightarrow> frame \<Rightarrow> kstate \<Rightarrow> unit kres" where
  "trap_dispatch cr2 tf s =
     (let v = frame_tf tf s; n = unat (tf_trapno v); r = tf_regs v in
      if n = irq IRQ_SPURIOUS then Ret () s
      else if n = T_PGFLT then page_fault_handler cr2 tf s
      else if n = T_BRKPT then Leave InMonitor s
      else if n = T_SYSCALL then
        bindO (syscall (reg_eax r) (reg_edx r) (reg_ecx r) (reg_ebx r) (reg_edi r) (reg_esi r) s)
          (\<lambda>ret s. Ret () (set_eax tf ret s))
      else if n = irq IRQ_TIMER then sched_yield s
      else if tf_cs v = GD_KT then Panic ''unhandled trap in kernel''
      else deref (curenv s) env_destroy s)"

text \<open>
  \<open>panicked\<close> tells whether \<open>panicstr\<close> is set, \<open>eflags\<close> what the flags register holds, \<open>pcs\<close> what
  \<open>get_caller_pcs\<close> would record in the lock.
\<close>

definition trap_return :: "kstate \<Rightarrow> unit kres" where
  "trap_return s =
     (case curenv s of
        None \<Rightarrow> sched_yield s
      | Some c \<Rightarrow> if env_status (envs s c) = ENV_RUNNING then env_run c s else sched_yield s)"

definition trap :: "bool \<Rightarrow> u32 \<Rightarrow> u32 list \<Rightarrow> u32 \<Rightarrow> Trapframe \<Rightarrow> kstate \<Rightarrow> unit kres" where
  "trap panicked eflags pcs cr2 tf s =
     (if panicked then Leave CpuHalted s
      else
        (let halted = (cpu_status (cpus s (this_cpu s)) = CPU_HALTED);
             s = upd_this_cpu (\<lambda>c. c\<lparr>cpu_status := CPU_STARTED\<rparr>) s
         in bindO (if halted then lock_kernel pcs s else Ret () s) (\<lambda>_ s.
              if eflags AND FL_IF \<noteq> 0 then Panic ''assertion failed''
              else
                bindO (if tf_cs tf AND 3 = 3 then
                         bindO (lock_kernel pcs s) (\<lambda>_ s.
                           case curenv s of
                             None \<Rightarrow> Panic ''assertion failed''
                           | Some c \<Rightarrow>
                               if env_status (envs s c) = ENV_DYING then
                                 bindO (env_free c s) (\<lambda>_ s. sched_yield (set_curenv None s))
                               else Ret (OfEnv c) (upd_env c (\<lambda>v. v\<lparr>env_tf := tf\<rparr>) s))
                       else Ret (OnStack tf) s)
                  (\<lambda>f s. bindO (trap_dispatch cr2 f s) (\<lambda>_ s. trap_return s)))))"

section \<open>The descriptor tables\<close>

lemma ffff_mask: "(0xffff :: u32) = mask 16"
  by (simp add: mask_eq_exp_minus_1)

lemma gate_off_SETGATE [simp]: "gate_off (SETGATE istrap sel off dpl) = off"
  by (rule bit_word_eqI) (auto simp: gate_off_def SETGATE_def bit_simps ffff_mask)

lemma fold_gates:
  "fold (\<lambda>(n, d) idt. idt(n := G n d)) xs g m =
    (case map_of (rev xs) m of None \<Rightarrow> g m | Some d \<Rightarrow> G m d)"
proof (induction xs arbitrary: g)
  case (Cons x xs)
  then show ?case
    by (cases x) (auto simp: map_add_def split: option.split)
qed simp

text \<open>The vectors \<open>trap_init\<close> sets, as numbers.\<close>

definition vectors :: "nat set" where
  "vectors = {0..19} - {9, 15} \<union> {32..47} \<union> {48}"

definition gate_list :: "(nat \<times> nat) list" where
  "gate_list = [(0, 0), (1, 0), (2, 0), (3, 3), (4, 0), (5, 0), (6, 0), (7, 0), (16, 0), (18, 0), (19, 0),
     (48, 3), (8, 0), (10, 0), (11, 0), (12, 0), (13, 0), (14, 0), (17, 0), (32, 0), (33, 0),
     (34, 0), (35, 0), (36, 0), (37, 0), (38, 0), (39, 0), (40, 0), (41, 0), (42, 0), (43, 0),
     (44, 0), (45, 0), (46, 0), (47, 0)]"

lemma gate_list_simps:
  "fst ` set gate_list = vectors"
  "list_all (\<lambda>(m, d). map_of (rev gate_list) m = Some d \<and> d = (if m = 3 \<or> m = 48 then 3 else 0)) gate_list"
proof -
  have "{32..47} = {32::nat..<48}" "{0..19} = {0::nat..<20}" by auto
  then show "fst ` set gate_list = vectors"
    unfolding vectors_def by (simp add: gate_list_def atLeastLessThan_nat_numeral insert_Diff_if) auto
  show "list_all (\<lambda>(m, d). map_of (rev gate_list) m = Some d \<and> d = (if m = 3 \<or> m = 48 then 3 else 0)) gate_list"
    by (simp add: gate_list_def)
qed

lemma idt_gates_eq:
  "idt_gates t g n = (if n \<in> vectors then SETGATE False GD_KT (t n) (if n = 3 \<or> n = 48 then 3 else 0) else g n)"
proof -
  have "idt_gates t g = fold (\<lambda>(n, d) idt. idt(n := SETGATE False GD_KT (t n) d)) gate_list g"
    unfolding idt_gates_def by (simp add: gate_list_def trap_no_defs irq_def del: fold_Cons)
  then have e: "idt_gates t g n = (case map_of (rev gate_list) n of None \<Rightarrow> g n
      | Some d \<Rightarrow> SETGATE False GD_KT (t n) d)"
    by (simp only: fold_gates)
  show ?thesis
  proof (cases "n \<in> vectors")
    case True
    then obtain d where "(n, d) \<in> set gate_list" unfolding gate_list_simps(1) [symmetric] by force
    with gate_list_simps(2) have "map_of (rev gate_list) n = Some d" "d = (if n = 3 \<or> n = 48 then 3 else 0)"
      by (auto simp: list_all_iff)
    with True e show ?thesis by simp
  next
    case False
    then have "n \<notin> fst ` set (rev gate_list)" by (simp add: gate_list_simps(1))
    then have "map_of (rev gate_list) n = None" by (simp only: map_of_eq_None_iff not_False_eq_True)
    with False e show ?thesis by simp
  qed
qed

text \<open>
  C31: After \<open>trap_init\<close> every exception, interrupt and system call has an interrupt gate into the
  kernel's code segment at its own entry point, the other vectors stay empty, and a program in user
  mode can invoke two of the gates only: the breakpoint and the system call.
\<close>

theorem trap_init_gates:
  fixes t :: "nat \<Rightarrow> u32" and ts_addr :: "nat \<Rightarrow> u32" and d :: tables and s :: kstate
  defines "g \<equiv> idt (fst (trap_init t ts_addr (d\<lparr>idt := \<lambda>_. zero_gate\<rparr>) s))"
  shows "\<forall>n. if n \<in> {0..19} - {9, 15} \<union> {32..47} \<union> {48}
    then gd_p (g n) \<and> gate_off (g n) = t n \<and> gd_sel (g n) = GD_KT \<and> gd_type (g n) = STS_IG32 \<and>
      gd_dpl (g n) = (if n = T_BRKPT \<or> n = T_SYSCALL then 3 else 0)
    else \<not> gd_p (g n)"
proof -
  have g: "g n = (if n \<in> vectors then SETGATE False GD_KT (t n) (if n = 3 \<or> n = 48 then 3 else 0) else zero_gate)" for n
    by (simp add: g_def trap_init_def trap_init_percpu_def Let_def idt_gates_eq)
  have p: "gd_p (SETGATE i x o' l)" "gd_sel (SETGATE i x o' l) = x" "gd_dpl (SETGATE i x o' l) = l"
    "gd_type (SETGATE False x o' l) = STS_IG32" "\<not> gd_p zero_gate" for i x o' l
    by (simp_all add: SETGATE_def zero_gate_def)
  show ?thesis
    unfolding vectors_def [symmetric] by (simp add: g p T_BRKPT_def T_SYSCALL_def)
qed

text \<open>
  Each CPU gets a kernel stack of its own: after \<open>trap_init_percpu\<close> the stack of a CPU with a
  smaller number lies above that of a CPU with a larger one, with the guard gap between them, and
  all of them lie in the \<open>PTSIZE\<close> bytes below \<open>KSTACKTOP\<close>.
\<close>

theorem kernel_stacks_disjoint:
  fixes s t :: kstate and ts_addr :: "nat \<Rightarrow> u32" and d :: tables
  assumes "i < j" "j < NCPU" "cpu_id (cpus s (this_cpu s)) = of_nat i" "cpu_id (cpus t (this_cpu t)) = of_nat j"
  defines "esp0 \<equiv> \<lambda>u. unat (ts_esp0 (cpus (snd (trap_init_percpu ts_addr d u)) (this_cpu u)))"
  shows "esp0 t + unat KSTKGAP \<le> esp0 s - unat KSTKSIZE \<and> esp0 s \<le> unat KSTACKTOP \<and>
    unat KSTACKTOP - unat PTSIZE < esp0 t - unat KSTKSIZE"
proof -
  have e: "esp0 u = unat KSTACKTOP - i * 0x10000"
    if "i < NCPU" "cpu_id (cpus u (this_cpu u)) = of_nat i" for u i
  proof -
    have i: "i < 8" using that(1) by (simp add: NCPU_def)
    have "(ucast (of_nat i :: u8) :: u32) = of_nat i"
      using i by (simp add: word_unat_eq_iff unat_of_nat unsigned_ucast_eq take_bit_nat_eq_self_iff)
    then have "esp0 u = unat (KSTACKTOP - of_nat i * 0x10000)"
      using i that(2)
      by (simp add: esp0_def trap_init_percpu_def upd_this_cpu_def Let_def KSTKSIZE_def KSTKGAP_def PGSIZE_def)
    moreover have "unat (of_nat i * 0x10000 :: u32) = i * 0x10000"
      using i by (simp add: unat_word_ariths unat_of_nat take_bit_nat_eq_self_iff)
    moreover have "(of_nat i * 0x10000 :: u32) \<le> KSTACKTOP"
      using i calculation(2) by (simp add: word_le_nat_alt layout_values)
    ultimately show ?thesis by (simp add: unat_sub)
  qed
  have i: "i < NCPU" using assms(1,2) by simp
  have "i + 1 \<le> j" "j < 8" using assms(1,2) by (simp_all add: NCPU_def)
  then show ?thesis
    unfolding e [OF i assms(3)] e [OF assms(2,4)]
    by (simp add: layout_values KSTKGAP_def KSTKSIZE_def PTSIZE_def PGSIZE_def) linarith
qed

section \<open>Writing words\<close>

lemma wr_bytes_word:
  "wr_byte f (4 * i + 3) (byte_of w 3) (wr_byte f (4 * i + 2) (byte_of w 2)
    (wr_byte f (4 * i + 1) (byte_of w 1) (wr_byte f (4 * i) (byte_of w 0) s))) = wr_word f i w s"
proof -
  have b: "wr_byte f (4 * i + k) b u = wr_word f i
      ((kmem u f i AND NOT (push_bit (8 * k) 0xFF)) OR push_bit (8 * k) (ucast b)) u"
    if "k < 4" for k b u
    using that by (simp add: wr_byte_def Let_def)
  have zero: "0 < (4::nat)" and one: "1 < (4::nat)" and two: "2 < (4::nat)" and three: "3 < (4::nat)"
    by simp_all
  have ww: "wr_word f i v (wr_word f i v' u) = wr_word f i v u" for v v' u
    by (simp add: wr_word_def)
  have k: "kmem (wr_word f i v u) f i = v" for v u by (simp add: wr_word_def)
  let ?m = "\<lambda>k. (push_bit (8 * k) 0xFF :: u32)" and ?b = "\<lambda>k. (push_bit (8 * k) (ucast (byte_of w k)) :: u32)"
  have "(((((((x AND NOT (?m 0)) OR ?b 0) AND NOT (?m 1)) OR ?b 1) AND NOT (?m 2)) OR ?b 2) AND NOT (?m 3)) OR ?b 3 = w" for x
  proof (rule bit_word_eqI)
    fix n assume "n < LENGTH(32)"
    then consider "n < 8" | "8 \<le> n" "n < 16" | "16 \<le> n" "n < 24" | "24 \<le> n" "n < 32" by fastforce
    then show "bit ((((((((x AND NOT (?m 0)) OR ?b 0) AND NOT (?m 1)) OR ?b 1) AND NOT (?m 2)) OR ?b 2)
        AND NOT (?m 3)) OR ?b 3) n = bit w n"
      by cases (auto simp: byte_of_def bit_simps ff_mask)
  qed
  note m = this
  show ?thesis
    unfolding b [of 1, OF one] b [of 2, OF two] b [of 3, OF three]
      b [of 0, OF zero, unfolded add_0_right] k ww by (simp only: m)
qed

text \<open>
  \<open>writable s va f\<close>: the page of \<open>va\<close> is mapped writable, on frame \<open>f\<close>, in the address space that is
  loaded, and \<open>f\<close> holds neither its directory nor the page table the mapping comes from.
\<close>

definition writable :: "kstate \<Rightarrow> u32 \<Rightarrow> nat \<Rightarrow> bool" where
  "writable s va f \<longleftrightarrow> (\<exists>rights. mmu s (cr3 s) va = Some (f, rights) \<and> rights AND PTE_W \<noteq> 0) \<and>
     f \<noteq> cr3 s \<and> f \<noteq> unat (PGNUM (kmem s (cr3 s) (unat (PDX va))))"

lemma writable_wr_word: "writable s va f \<Longrightarrow> writable (wr_word f i w s) va f"
  by (auto simp: writable_def mmu_def Let_def wr_word_def split: if_splits)

lemma writable_wr_byte: "writable s va f \<Longrightarrow> writable (wr_byte f i w s) va f"
  by (simp add: wr_byte_def Let_def writable_wr_word)

lemma store8_writable:
  "writable s va f \<Longrightarrow> store8 va b s = Ret () (wr_byte f (unat (PGOFF va)) b s)"
  by (auto simp: writable_def store8_def)

text \<open>Another address in the same page.\<close>

lemma writable_add:
  assumes w: "writable s va f" and k: "unat (PGOFF va) + unat k < 4096"
  shows "writable s (va + k) f" "unat (PGOFF (va + k)) = unat (PGOFF va) + unat k"
proof -
  let ?n = "unat va" and ?k = "unat k"
  have m: "?n mod 4096 + ?k < 4096" using k by (simp add: unat_PGOFF)
  have "?n + ?k = (?n mod 4096 + ?k) + 4096 * (?n div 4096)" by simp
  moreover have "(r + 4096 * c) div 4096 = c" "(r + 4096 * c) mod 4096 = r" if "r < 4096" for r c :: nat
    using that by simp_all
  ultimately have d: "(?n + ?k) div 4096 = ?n div 4096" "(?n + ?k) mod 4096 = ?n mod 4096 + ?k"
    using m by metis+
  have "?n div 4096 < 1048576" using unat_u32_less [of va] by simp
  then have "(?n + ?k) div 4096 < 1048576" by (simp only: d(1))
  then have "?n + ?k < 2 ^ 32" by (simp add: div_less_iff_less_mult)
  then have a: "unat (va + k) = ?n + ?k" by (simp add: unat_word_ariths)
  have q: "x div 4194304 = x div 4096 div 1024" for x :: nat by (simp flip: div_mult2_eq)
  have e: "PDX (va + k) = PDX va" "PTX (va + k) = PTX va"
    by (simp_all add: word_unat_eq_iff unat_PDX unat_PTX a d q)
  from w show "writable s (va + k) f" unfolding writable_def mmu_def e .
  show "unat (PGOFF (va + k)) = unat (PGOFF va) + unat k" by (simp add: unat_PGOFF a d)
qed

lemma store32_word:
  assumes w: "writable s va f" and i: "unat (PGOFF va) = 4 * i"
  shows "store32 va w s = Ret () (wr_word f i w s)"
proof -
  have "4 * i < 4096" using unat_PGOFF [of va] by (simp add: i [symmetric])
  then have "i < 1024" by simp
  then have k: "unat (PGOFF va) + unat (1::u32) < 4096" "unat (PGOFF va) + unat (2::u32) < 4096"
    "unat (PGOFF va) + unat (3::u32) < 4096"
    by (simp_all add: i)
  have o: "unat (PGOFF (va + 1)) = 4 * i + 1" "unat (PGOFF (va + 2)) = 4 * i + 2"
    "unat (PGOFF (va + 3)) = 4 * i + 3"
    using writable_add(2) [OF w k(1)] writable_add(2) [OF w k(2)] writable_add(2) [OF w k(3)]
    by (simp_all add: i)
  have s1: "store8 va b s = Ret () (wr_byte f (4 * i) b s)" for b
    using store8_writable [OF w] by (simp add: i)
  have s2: "store8 (va + n) b (wr_byte f j b' u) = Ret () (wr_byte f (unat (PGOFF (va + n))) b (wr_byte f j b' u))"
    if "writable u va f" "n \<in> {1, 2, 3}" for n b j b' u
    using that k by (intro store8_writable writable_add(1) writable_wr_byte) auto
  have "store32 va w s = Ret () (wr_byte f (unat (PGOFF (va + 3))) (byte_of w 3)
      (wr_byte f (unat (PGOFF (va + 2))) (byte_of w 2)
        (wr_byte f (unat (PGOFF (va + 1))) (byte_of w 1) (wr_byte f (4 * i) (byte_of w 0) s))))"
    using w by (simp add: store32_def s1 s2 writable_wr_byte add.assoc)
  then show ?thesis by (simp only: o wr_bytes_word)
qed

lemma store_words_ok:
  assumes "writable s va f" "unat (PGOFF va) = 4 * i" "i + length ws \<le> 1024"
  shows "store_words va ws s = Ret () (s\<lparr>kmem := (kmem s)(f := \<lambda>j.
    if i \<le> j \<and> j < i + length ws then ws ! (j - i) else kmem s f j)\<rparr>)"
  using assms
proof (induction ws arbitrary: s va i)
  case Nil
  have "(\<lambda>j. if i \<le> j \<and> j < i + length [] then [] ! (j - i) else kmem s f j) = kmem s f"
    by (auto simp: fun_eq_iff)
  then show ?case by (simp only: store_words.simps fun_upd_triv) simp
next
  case (Cons w ws)
  let ?s = "wr_word f i w s"
  show ?case
  proof (cases ws)
    case Nil
    then show ?thesis
      using Cons.prems by (simp add: store32_word wr_word_def fun_eq_iff)
  next
    case (Cons w' ws')
    then have k: "unat (PGOFF va) + unat (4 :: u32) < 4096" using Cons.prems(2,3) by simp
    have "store_words (va + 4) ws ?s = Ret () (?s\<lparr>kmem := (kmem ?s)(f := \<lambda>j.
        if i + 1 \<le> j \<and> j < i + 1 + length ws then ws ! (j - (i + 1)) else kmem ?s f j)\<rparr>)"
      using Cons.prems(1-3) writable_add [OF Cons.prems(1) k] 
      by (intro Cons.IH writable_wr_word) simp_all
    then show ?thesis
      using Cons.prems by (auto simp: store32_word wr_word_def fun_eq_iff nth_Cons' intro!: arg_cong [where f = kmem_update])
  qed
qed

section \<open>Page faults\<close>

text \<open>
  Where the frame of a page fault goes. A program that faults on its ordinary stack gets it at
  the top of the exception stack; one that faults on the exception stack, below a frame of an
  earlier fault, gets it lower down, with one word left free above it, so that the frames of nested
  faults do not overlap. The second case includes the top of the exception stack but not its lowest
  address, at which a full exception stack starts again from the top.
\<close>

theorem utf_address_nests:
  fixes tf :: Trapframe
  defines "a \<equiv> unat (utf_address tf)" and "esp \<equiv> unat (tf_esp tf)" and "xtop \<equiv> unat UXSTACKTOP"
  shows "if xtop - unat PGSIZE < esp \<and> esp \<le> xtop then a + unat UTF_SIZE + 4 = esp
    else a + unat UTF_SIZE = xtop"
proof -
  have l: "esp < 4294967296" using unat_u32_less [of "tf_esp tf"] by (simp add: esp_def)
  have v: "xtop = 4005560320" "unat PGSIZE = 4096" "unat UTF_SIZE = 52" "unat (UXSTACKTOP - UTF_SIZE) = 4005560268"
    by (simp_all add: xtop_def layout_values PGSIZE_def UTF_SIZE_def)
  have "unat (ROUNDUP (tf_esp tf) PGSIZE) = unat (tf_esp tf + 0xFFF) div 4096 * 4096"
    by (simp add: ROUNDUP_def PGSIZE_def unat_ROUNDDOWN minus_mod_eq_div_mult)
      (simp add: add.commute)
  also have "unat (tf_esp tf + 0xFFF) = (esp + 4095) mod 4294967296"
    by (simp add: unat_word_ariths esp_def)
  finally have r: "unat (ROUNDUP (tf_esp tf) PGSIZE) = (esp + 4095) mod 4294967296 div 4096 * 4096" .
  have "(esp + 4095) mod 4294967296 = (if esp + 4095 < 4294967296 then esp + 4095 else esp + 4095 - 4294967296)"
    using l by (simp add: mod_if)
  then have "ROUNDUP (tf_esp tf) PGSIZE = UXSTACKTOP \<longleftrightarrow> xtop - 4096 < esp \<and> esp \<le> xtop"
    unfolding word_unat_eq_iff r xtop_def [symmetric] using l by (simp add: v(1)) linarith
  moreover have "unat (tf_esp tf - 4 - UTF_SIZE) + 56 = esp" if "xtop - 4096 < esp"
  proof -
    have "(56 :: u32) \<le> tf_esp tf" using that by (simp add: word_le_nat_alt v esp_def)
    then have "unat (tf_esp tf - 4 - UTF_SIZE) = esp - 56"
      by (simp add: UTF_SIZE_def unat_sub esp_def)
    with that show ?thesis by (simp add: v)
  qed
  ultimately show ?thesis by (auto simp: a_def utf_address_def v)
qed

lemma utf_address_value:
  assumes "tf_esp tf \<noteq> UXSTACKTOP"
  shows "utf_address tf = (if UXSTACKTOP - PGSIZE < tf_esp tf \<and> tf_esp tf < UXSTACKTOP then tf_esp tf - 56
    else UXSTACKTOP - 52)"
proof -
  let ?esp = "unat (tf_esp tf)"
  have v: "unat UXSTACKTOP = 4005560320" "unat PGSIZE = 4096" "unat UTF_SIZE = 52"
    "unat (UXSTACKTOP - PGSIZE) = 4005556224" "unat (UXSTACKTOP - 52) = 4005560268"
    by (simp_all add: layout_values PGSIZE_def UTF_SIZE_def)
  have e: "?esp \<noteq> 4005560320" using assms by (simp add: word_unat_eq_iff v)
  have "(56 :: u32) \<le> tf_esp tf" if "4005556224 < ?esp" using that by (simp add: word_le_nat_alt)
  then have "unat (tf_esp tf - 56) = ?esp - 56" if "4005556224 < ?esp" using that by (simp add: unat_sub)
  with utf_address_nests [of tf] e show ?thesis
    unfolding word_unat_eq_iff by (auto simp: word_less_nat_alt v split: if_splits)
qed

lemma frame_offset:
  fixes esp :: u32
  defines "nested \<equiv> UXSTACKTOP - PGSIZE < esp \<and> esp < UXSTACKTOP"
  defines "a \<equiv> (if nested then esp - 56 else UXSTACKTOP - 52)"
  assumes "nested \<longrightarrow> 4 dvd unat esp \<and> UXSTACKTOP - PGSIZE \<le> a"
  shows "unat (PGOFF a) = 4 * (unat (a - (UXSTACKTOP - PGSIZE)) div 4)"
    "unat (a - (UXSTACKTOP - PGSIZE)) div 4 + 13 \<le> 1024"
proof -
  have v: "unat UXSTACKTOP = 4005560320" "unat (UXSTACKTOP - PGSIZE) = 4005556224"
    "unat (UXSTACKTOP - 52) = 4005560268"
    by (simp_all add: layout_values PGSIZE_def)
  have n: "unat a = unat esp - 56" "unat esp < 4005560320" "4 dvd unat esp" if nested
  proof -
    have "(56 :: u32) \<le> esp" using that by (simp add: nested_def word_le_nat_alt word_less_nat_alt v)
    then show "unat a = unat esp - 56" using that by (simp add: a_def unat_sub)
    show "unat esp < 4005560320" "4 dvd unat esp"
      using that assms(3) by (simp_all add: nested_def word_less_nat_alt v)
  qed
  have le: "UXSTACKTOP - PGSIZE \<le> a"
    using assms(3) by (cases nested) (simp_all add: a_def word_le_nat_alt v)
  then have m: "4005556224 \<le> unat a" by (simp add: word_le_nat_alt v)
  have u: "unat (a - (UXSTACKTOP - PGSIZE)) = unat a - 4005556224" using le by (simp add: unat_sub v)
  have b: "unat a \<le> 4005560268" "4 dvd unat a"
    using n m by (cases nested; simp add: a_def v)+
  from b m have d: "4 dvd unat a - 4005556224" by (simp add: dvd_diff_nat)
  have "unat (PGOFF a) = unat a - 4005556224"
  proof -
    obtain k where k: "unat a = 977919 * 4096 + k" using le_Suc_ex [OF m] by auto
    then have "k < 4096" using b(1) by simp
    then have "(977919 * 4096 + k) mod 4096 = k" by (simp only: mod_mult_self3 mod_less)
    moreover have "unat (PGOFF a) = unat a mod 4096" by (simp add: unat_PGOFF)
    ultimately show ?thesis using k by simp
  qed
  with d show "unat (PGOFF a) = 4 * (unat (a - (UXSTACKTOP - PGSIZE)) div 4)" by (simp add: u)
  show "unat (a - (UXSTACKTOP - PGSIZE)) div 4 + 13 \<le> 1024" using b(1) m d by (simp add: u)
qed

text \<open>
  C23: A page fault of a program with a handler is passed on to it. The frame goes to the top of the
  exception stack, or, when the program was using that stack already, below its stack pointer with
  one word left free; provided the program may write there and the frame stays in the page of
  the exception stack, the faulting address, the error code and all the registers at the fault
  are in memory there, in the order of \<open>struct UTrapframe\<close>, nothing else in memory changes, and
  the program goes on in its handler, with its stack pointer at the frame. Not covered are a
  stack pointer at one of the two ends of the exception stack (\<open>UXSTACKTOP\<close> itself and the lowest
  address of a full stack), one that is not a multiple of four while using it, and the
  overflow of the stack.
\<close>

theorem page_fault_reaches_handler:
  assumes "curenv s = Some c" "holding (this_cpu s) (kernel_lock s)" "env_pgdir (envs s c) = Some pd"
    "env_pgfault_upcall (envs s c) \<noteq> 0"
  defines "tf \<equiv> env_tf (envs s c)"
  defines "nested \<equiv> UXSTACKTOP - PGSIZE < tf_esp tf \<and> tf_esp tf < UXSTACKTOP"
  defines "a \<equiv> (if nested then tf_esp tf - 56 else UXSTACKTOP - 52)"
  defines "i \<equiv> unat (a - (UXSTACKTOP - PGSIZE)) div 4"
  assumes "tf_cs tf AND 3 = 3" "tf_esp tf \<notin> {UXSTACKTOP - PGSIZE, UXSTACKTOP}"
    "nested \<longrightarrow> 4 dvd unat (tf_esp tf) \<and> UXSTACKTOP - PGSIZE \<le> a"
    "user_mem_check c a 52 (PTE_W OR PTE_U) s = Ret 0 s" "writable s a f"
  shows "\<exists>t. page_fault_handler fault_va (OfEnv c) s = Leave EnterUser t \<and> curenv t = Some c \<and> cr3 t = pd \<and>
    env_tf (envs t c) = tf\<lparr>tf_eip := env_pgfault_upcall (envs s c), tf_esp := a\<rparr> \<and>
    map (kmem t f) [i..<i + 13] = [fault_va, tf_err tf, reg_edi (tf_regs tf), reg_esi (tf_regs tf),
      reg_ebp (tf_regs tf), reg_oesp (tf_regs tf), reg_ebx (tf_regs tf), reg_edx (tf_regs tf),
      reg_ecx (tf_regs tf), reg_eax (tf_regs tf), tf_eip tf, tf_eflags tf, tf_esp tf] \<and>
    (\<forall>g j. g \<noteq> f \<or> j \<notin> {i..<i + 13} \<longrightarrow> kmem t g j = kmem s g j)"
proof -
  let ?ws = "utf_words fault_va tf"
  have l: "length ?ws = 13" by (simp add: utf_words_def Let_def)
  have ua: "utf_address tf = a" using utf_address_value [of tf] assms(10) by (simp add: a_def nested_def)
  have off: "unat (PGOFF a) = 4 * i" "i + 13 \<le> 1024"
    using frame_offset [of "tf_esp tf"] assms(11) unfolding a_def i_def nested_def by simp_all
  define k where "k = (kmem s)(f := \<lambda>j. if i \<le> j \<and> j < i + 13 then ?ws ! (j - i) else kmem s f j)"
  have st: "store_words a ?ws s = Ret () (s\<lparr>kmem := k\<rparr>)"
    using store_words_ok [OF assms(13) off(1), of ?ws] off(2) by (simp add: l k_def)
  define u where "u = upd_env c (\<lambda>v. v\<lparr>env_tf := (env_tf v)\<lparr>tf_esp := a\<rparr>\<rparr>)
      (upd_env c (\<lambda>v. v\<lparr>env_tf := (env_tf v)\<lparr>tf_eip := env_pgfault_upcall v\<rparr>\<rparr>) (s\<lparr>kmem := k\<rparr>))"
  have u: "kmem u = k" "holding (this_cpu u) (kernel_lock u)" "env_pgdir (envs u c) = Some pd"
    "env_tf (envs u c) = tf\<lparr>tf_eip := env_pgfault_upcall (envs s c), tf_esp := a\<rparr>"
    using assms(2,3) by (simp_all add: u_def upd_env_def tf_def)
  from env_run_ok [OF u(2,3)] obtain t where t: "(env_run c u :: unit kres) = Leave EnterUser t" "curenv t = Some c"
    "cr3 t = pd" "env_tf (envs t c) = env_tf (envs u c)" "kmem t = kmem u" by auto
  have p: "(PTE_W OR PTE_U) OR PTE_U = PTE_W OR PTE_U" by (simp add: or.assoc)
  have "page_fault_handler fault_va (OfEnv c) s = Leave EnterUser t"
    using assms(1,4,9,12) st t(1)
    by (simp add: page_fault_handler_def deref_def user_mem_assert_def p Let_def tf_def [symmetric]
        ua UTF_SIZE_def u_def)
  moreover have "map (kmem u f) [i..<i + 13] = ?ws"
    by (simp add: list_eq_iff_nth_eq l u(1) k_def)
  ultimately show ?thesis
    using t u by (intro exI [of _ t]) (auto simp: k_def utf_words_def Let_def)
qed

section \<open>From the trap back to user mode\<close>

lemma lock_kernel_ok:
  "locked (kernel_lock s) = 0 \<Longrightarrow> lock_kernel pcs s = Ret () (s\<lparr>kernel_lock :=
    (kernel_lock s)\<lparr>locked := 1, lk_cpu := Some (this_cpu s), lk_pcs := pcs\<rparr>\<rparr>)"
  by (simp add: lock_kernel_def spin_lock_def holding_def xchg_locked_def)

text \<open>What \<open>trap\<close> has done to the state when it looks at the environment.\<close>

definition trap_locked :: "u32 list \<Rightarrow> kstate \<Rightarrow> kstate" where
  "trap_locked pcs s = (upd_this_cpu (\<lambda>c. c\<lparr>cpu_status := CPU_STARTED\<rparr>) s)\<lparr>kernel_lock :=
     (kernel_lock s)\<lparr>locked := 1, lk_cpu := Some (this_cpu s), lk_pcs := pcs\<rparr>\<rparr>"

lemma trap_locked_simps [simp]:
  "envs (trap_locked pcs s) = envs s" "curenv (trap_locked pcs s) = curenv s"
  "kmem (trap_locked pcs s) = kmem s" "pages (trap_locked pcs s) = pages s"
  "this_cpu (trap_locked pcs s) = this_cpu s"
  "holding (this_cpu s) (kernel_lock (trap_locked pcs s))"
  by (simp_all add: trap_locked_def upd_this_cpu_def curenv_def holding_def)

text \<open>The ways into the kernel from a program that runs.\<close>

definition user_trap :: "u32 \<Rightarrow> Trapframe \<Rightarrow> kstate \<Rightarrow> nat \<Rightarrow> bool" where
  "user_trap eflags tf s c \<longleftrightarrow> tf_cs tf AND 3 = 3 \<and> eflags AND FL_IF = 0 \<and>
     cpu_status (cpus s (this_cpu s)) \<noteq> CPU_HALTED \<and> locked (kernel_lock s) = 0 \<and> curenv s = Some c"

lemma trap_user:
  assumes "user_trap eflags tf s c"
  shows "trap False eflags pcs cr2 tf s =
    (if env_status (envs s c) = ENV_DYING
     then bindO (bindO (env_free c (trap_locked pcs s)) (\<lambda>_ s. sched_yield (set_curenv None s)))
       (\<lambda>f s. bindO (trap_dispatch cr2 f s) (\<lambda>_ s. trap_return s))
     else bindO (trap_dispatch cr2 (OfEnv c) (upd_env c (\<lambda>v. v\<lparr>env_tf := tf\<rparr>) (trap_locked pcs s)))
       (\<lambda>_ s. trap_return s))"
proof -
  let ?u = "upd_this_cpu (\<lambda>c. c\<lparr>cpu_status := CPU_STARTED\<rparr>) s"
  have k: "kernel_lock ?u = kernel_lock s" "this_cpu ?u = this_cpu s" "curenv ?u = curenv s" "envs ?u = envs s"
    by (simp_all add: upd_this_cpu_def curenv_def)
  have l: "lock_kernel pcs ?u = Ret () (trap_locked pcs s)"
    using assms lock_kernel_ok [of ?u] by (simp add: user_trap_def k trap_locked_def)
  show ?thesis
    using assms trap_locked_simps(1,2) [of pcs s]
    by (simp add: trap_def user_trap_def Let_def l)
qed

text \<open>Where \<open>sched_yield\<close> ends.\<close>

lemma sched_yield_runnable:
  assumes "r < NENV" "env_status (envs s r) = ENV_RUNNABLE"
  shows "\<exists>e<NENV. env_status (envs s e) = ENV_RUNNABLE \<and> sched_yield s = env_run e s"
proof -
  define b where "b = (case curenv s of None \<Rightarrow> 0 | Some c \<Rightarrow> ENVX (env_id (envs s c)) + 1)"
  have "sched_search (envs s) NENV 0 b \<noteq> None" using assms sched_search_complete by metis
  then obtain e where e: "sched_search (envs s) NENV 0 b = Some e" by auto
  moreover from sched_search_Some [OF e] have "e < NENV \<and> env_status (envs s e) = ENV_RUNNABLE"
    using probe_less by auto
  ultimately show ?thesis
    by (intro exI [of _ e]) (simp add: sched_yield_def b_def [symmetric] Let_def)
qed

lemma sched_yield_idle_Leave:
  assumes "holding (this_cpu s) (kernel_lock s)" "curenv s = None"
    "\<forall>e<NENV. env_status (envs s e) = ENV_RUNNABLE \<longrightarrow> env_pgdir (envs s e) \<noteq> None"
  shows "\<exists>l t. (sched_yield s :: 'a kres) = Leave l t \<and>
    (\<forall>x. env_status (envs s x) \<noteq> ENV_RUNNABLE \<longrightarrow> envs t x = envs s x \<and> curenv t \<noteq> Some x) \<and>
    kmem t = kmem s"
proof (cases "\<exists>r<NENV. env_status (envs s r) = ENV_RUNNABLE")
  case True
  then obtain e where e: "e < NENV" "env_status (envs s e) = ENV_RUNNABLE"
    "(sched_yield s :: 'a kres) = env_run e s"
    using sched_yield_runnable by blast
  with assms(3) obtain pd where pd: "env_pgdir (envs s e) = Some pd" by blast
  from env_run_ok [OF assms(1) pd] assms(2) obtain t where "(env_run e s :: 'a kres) = Leave EnterUser t"
    "curenv t = Some e" "\<forall>x. x \<noteq> e \<longrightarrow> envs t x = envs s x" "kmem t = kmem s" by auto
  with e show ?thesis by auto
next
  case False
  let ?u = "upd_this_cpu (\<lambda>c. c\<lparr>cpu_status := CPU_HALTED\<rparr>) (lcr3 (kern_pgdir s) (set_curenv None s))"
  have u: "envs ?u = envs s" "kmem ?u = kmem s" "kernel_lock ?u = kernel_lock s" "this_cpu ?u = this_cpu s" "curenv ?u = None"
    by (simp_all add: upd_this_cpu_def lcr3_def set_curenv_def curenv_def)
  from unlock_held [of ?u] assms(1) obtain l where
    l: "unlock_kernel ?u = Ret () (?u\<lparr>kernel_lock := l\<rparr>)" unfolding u by blast
  have n: "sched_search (envs s) NENV 0 b = None" for b using False sched_search_complete by metis
  from l assms(2) u show ?thesis
    by (auto simp: sched_yield_def n sched_halt_def Let_def)
qed

text \<open>
  C24: A system call that comes back, with the caller still running, resumes the caller: \<open>trap\<close>
  enters user mode with the registers it saved, but for the result of the call in \<open>eax\<close>, in the
  caller's address space, with the kernel lock released.
\<close>

theorem trap_syscall_resumes:
  assumes "user_trap eflags tf s c" "unat (tf_trapno tf) = T_SYSCALL" "env_status (envs s c) = ENV_RUNNING"
    "syscall (reg_eax (tf_regs tf)) (reg_edx (tf_regs tf)) (reg_ecx (tf_regs tf)) (reg_ebx (tf_regs tf))
      (reg_edi (tf_regs tf)) (reg_esi (tf_regs tf)) (upd_env c (\<lambda>v. v\<lparr>env_tf := tf\<rparr>) (trap_locked pcs s)) =
     Ret r u"
    "curenv u = Some c" "env_status (envs u c) = ENV_RUNNING" "env_pgdir (envs u c) = Some pd"
    "env_tf (envs u c) = tf" "holding (this_cpu u) (kernel_lock u)"
  shows "\<exists>t. trap False eflags pcs cr2 tf s = Leave EnterUser t \<and> curenv t = Some c \<and> cr3 t = pd \<and>
    env_tf (envs t c) = tf\<lparr>tf_regs := (tf_regs tf)\<lparr>reg_eax := of_int r\<rparr>\<rparr> \<and> locked (kernel_lock t) = 0"
proof -
  let ?s = "upd_env c (\<lambda>v. v\<lparr>env_tf := tf\<rparr>) (trap_locked pcs s)"
  let ?u = "set_eax (OfEnv c) r u"
  have f: "frame_tf (OfEnv c) ?s = tf" by (simp add: upd_env_def)
  have d: "trap_dispatch cr2 (OfEnv c) ?s = Ret () ?u"
    unfolding trap_dispatch_def Let_def f using assms(2,4) by (simp add: irq_def trap_no_defs)
  have u: "curenv ?u = Some c" "env_status (envs ?u c) = ENV_RUNNING" "env_pgdir (envs ?u c) = Some pd"
    "holding (this_cpu ?u) (kernel_lock ?u)"
    "env_tf (envs ?u c) = tf\<lparr>tf_regs := (tf_regs tf)\<lparr>reg_eax := of_int r\<rparr>\<rparr>"
    using assms(5-9) by (simp_all add: set_eax_def upd_env_def curenv_def)
  from env_run_ok [OF u(4,3)] u(5) obtain t where "(env_run c ?u :: unit kres) = Leave EnterUser t"
    "curenv t = Some c" "cr3 t = pd" "env_tf (envs t c) = tf\<lparr>tf_regs := (tf_regs tf)\<lparr>reg_eax := of_int r\<rparr>\<rparr>"
    "locked (kernel_lock t) = 0" by auto
  then show ?thesis
    using assms(3) u(1,2) by (simp add: trap_user [OF assms(1)] d trap_return_def)
qed

text \<open>
  The clock takes the CPU away: on a timer interrupt, when another environment is runnable, the
  program that runs becomes runnable with all its registers saved, and some environment that was
  runnable runs instead.
\<close>

theorem trap_timer_preempts:
  assumes "user_trap eflags tf s c" "unat (tf_trapno tf) = unat IRQ_OFFSET + IRQ_TIMER"
    "env_status (envs s c) = ENV_RUNNING" "r < NENV" "env_status (envs s r) = ENV_RUNNABLE"
    "\<forall>e<NENV. env_status (envs s e) = ENV_RUNNABLE \<longrightarrow> env_pgdir (envs s e) \<noteq> None"
  shows "\<exists>t e. trap False eflags pcs cr2 tf s = Leave EnterUser t \<and> curenv t = Some e \<and>
    env_status (envs s e) = ENV_RUNNABLE \<and> env_status (envs t e) = ENV_RUNNING \<and>
    env_status (envs t c) = ENV_RUNNABLE \<and> env_tf (envs t c) = tf"
proof -
  let ?s = "upd_env c (\<lambda>v. v\<lparr>env_tf := tf\<rparr>) (trap_locked pcs s)"
  have f: "frame_tf (OfEnv c) ?s = tf" by (simp add: upd_env_def)
  have d: "trap_dispatch cr2 (OfEnv c) ?s = sched_yield ?s"
    unfolding trap_dispatch_def Let_def f using assms(2) by (simp add: irq_def trap_no_defs)
  have st: "env_status (envs ?s x) = env_status (envs s x)" "env_pgdir (envs ?s x) = env_pgdir (envs s x)" for x
    by (simp_all add: upd_env_def)
  from sched_yield_runnable [OF assms(4), of ?s] assms(5) obtain e where
    e: "e < NENV" "env_status (envs s e) = ENV_RUNNABLE" "(sched_yield ?s :: unit kres) = env_run e ?s"
    unfolding st by blast
  with assms(6) obtain pd where "env_pgdir (envs ?s e) = Some pd" unfolding st by blast
  moreover have "holding (this_cpu ?s) (kernel_lock ?s)" by (simp add: upd_env_def)
  ultimately obtain t where t: "(env_run e ?s :: unit kres) = Leave EnterUser t" "curenv t = Some e"
    "env_status (envs t e) = ENV_RUNNING" "\<forall>x. x \<noteq> e \<longrightarrow> envs t x =
      (if curenv ?s = Some x \<and> env_status (envs ?s x) = ENV_RUNNING
       then (envs ?s x)\<lparr>env_status := ENV_RUNNABLE\<rparr> else envs ?s x)"
    using env_run_ok by blast
  have c: "curenv ?s = Some c" "c \<noteq> e" using assms(1,3) e(2) by (auto simp: user_trap_def upd_env_def curenv_def
    trap_locked_def upd_this_cpu_def)
  then have "envs t c = (envs ?s c)\<lparr>env_status := ENV_RUNNABLE\<rparr>" using t(4) assms(3) st(1) by simp
  moreover have "trap False eflags pcs cr2 tf s = Leave EnterUser t"
    using assms(3) by (simp add: trap_user [OF assms(1)] d e(3) t(1))
  ultimately show ?thesis using e(2) t(2,3) by (auto simp: upd_env_def)
qed

text \<open>
  C25: An environment that another CPU has marked dying does not come back: at its next trap it is
  freed with its address space, the CPU does not go back to it, and the other address spaces stay as
  they are.
\<close>

theorem trap_collects_zombie:
  assumes "user_trap eflags tf s c" "env_status (envs s c) = ENV_DYING" "vm_ok s xs A"
    "env_pgdir (envs s c) = Some pd" "pd \<in> A"
    "\<forall>e<NENV. env_status (envs s e) = ENV_RUNNABLE \<longrightarrow> env_pgdir (envs s e) \<noteq> None"
  shows "\<exists>l t. trap False eflags pcs cr2 tf s = Leave l t \<and> curenv t \<noteq> Some c \<and>
    env_status (envs t c) = ENV_FREE \<and> env_pgdir (envs t c) = None \<and>
    (\<forall>q\<in>A - {pd}. uspace t q = uspace s q)"
proof -
  let ?s = "trap_locked pcs s"
  have k: "kmem ?s = kmem s" "npages ?s = npages s" "page_free_list ?s = page_free_list s"
    by (simp_all add: trap_locked_def upd_this_cpu_def)
  have ok: "vm_ok ?s xs A" using assms(3) k vm_ok_cong [of ?s s] by simp
  from env_free_ok [OF ok assms(5), of c] assms(4) obtain u where u: "env_free c ?s = Ret () u"
    "envs u = (envs s)(c := (envs s c)\<lparr>env_pgdir := None, env_status := ENV_FREE, env_link := env_free_list ?s\<rparr>)"
    "this_cpu u = this_cpu s" "kernel_lock u = kernel_lock ?s" "\<forall>q\<in>A - {pd}. uspace u q = uspace ?s q"
    by auto
  let ?u = "set_curenv None u"
  have v: "envs ?u = envs u" "holding (this_cpu ?u) (kernel_lock ?u)" "curenv ?u = None"
    using u by simp_all
  have r: "\<forall>e<NENV. env_status (envs ?u e) = ENV_RUNNABLE \<longrightarrow> env_pgdir (envs ?u e) \<noteq> None"
    using assms(6) by (simp add: v(1) u(2))
  from sched_yield_idle_Leave [OF v(2,3) r] obtain l t where "(sched_yield ?u :: frame kres) = Leave l t"
    "\<forall>x. env_status (envs ?u x) \<noteq> ENV_RUNNABLE \<longrightarrow> envs t x = envs ?u x \<and> curenv t \<noteq> Some x"
    "kmem t = kmem ?u" by blast
  moreover from this(3) have "uspace t q = uspace u q" for q using uspace_kmem_cong [of t u] by simp
  moreover have "uspace ?s = uspace s" by (rule uspace_kmem_cong) (simp add: k)
  ultimately show ?thesis
    using assms(2) by (simp add: trap_user [OF assms(1)] u(1)) (simp add: u(2,5))
qed

section \<open>Witnesses\<close>

definition boot_tables :: tables where
  "boot_tables = \<lparr>idt = (\<lambda>_. zero_gate), gdt = gdt_init, task_reg = (\<lambda>_. 0)\<rparr>"

definition cpu_state :: "u8 \<Rightarrow> kstate" where
  "cpu_state n = bss_state\<lparr>cpus := (\<lambda>_. zero_CpuInfo\<lparr>cpu_id := n\<rparr>)\<rparr>"

theorem kernel_stacks_disjoint_witness:
  "unat (ts_esp0 (cpus (snd (trap_init_percpu (\<lambda>_. 0) boot_tables (cpu_state 1))) 0)) + unat KSTKGAP
   \<le> unat (ts_esp0 (cpus (snd (trap_init_percpu (\<lambda>_. 0) boot_tables (cpu_state 0))) 0)) - unat KSTKSIZE"
proof -
  have t: "this_cpu (snd (trap_init_percpu ts_addr d s)) = this_cpu s" for ts_addr d s
    by (simp add: trap_init_percpu_def Let_def upd_this_cpu_def)
  have c: "this_cpu (cpu_state n) = 0" "cpu_id (cpus (cpu_state n) m) = n" for n m
    by (simp_all add: cpu_state_def bss_state_def)
  have "(0::nat) < 1" "1 < NCPU" "cpu_id (cpus (cpu_state 0) (this_cpu (cpu_state 0))) = of_nat 0"
    "cpu_id (cpus (cpu_state 1) (this_cpu (cpu_state 1))) = of_nat 1"
    by (simp_all add: NCPU_def c(2))
  from kernel_stacks_disjoint [OF this, of "\<lambda>_. 0" boot_tables] show ?thesis by (simp only: t c(1))
qed

text \<open>Environment 0 with one page for its exception stack, on frame 2, and a handler at 0x800020.\<close>

definition fault_state :: kstate where
  "fault_state = bss_state\<lparr>npages := 5, kernel_lock := held_lock, cr3 := 1,
     kmem := (\<lambda>_ _. 0)(1 := (\<lambda>_. 0)(954 := 0x3007), 3 := (\<lambda>_. 0)(1023 := 0x2007)),
     cpus := (\<lambda>_. zero_CpuInfo\<lparr>cpu_env := Some 0\<rparr>),
     envs := (\<lambda>_. zero_Env\<lparr>env_pgdir := Some 1, env_pgfault_upcall := 0x800020,
       env_tf := zero_Trapframe\<lparr>tf_cs := 0x1b, tf_esp := 0xEEBFDF00, tf_eip := 0x800100\<rparr>\<rparr>)\<rparr>"

theorem page_fault_reaches_handler_witness:
  "\<exists>t. page_fault_handler 0xDEAD (OfEnv 0) fault_state = Leave EnterUser t \<and>
    tf_eip (env_tf (envs t 0)) = 0x800020 \<and> tf_esp (env_tf (envs t 0)) = 0xEEBFFFCC \<and>
    kmem t 2 1011 = 0xDEAD"
proof -
  let ?s = fault_state
  have f: "curenv ?s = Some 0" "holding (this_cpu ?s) (kernel_lock ?s)" "env_pgdir (envs ?s 0) = Some 1"
    "env_pgfault_upcall (envs ?s 0) = 0x800020" "tf_cs (env_tf (envs ?s 0)) = 0x1b"
    "tf_esp (env_tf (envs ?s 0)) = 0xEEBFDF00" "cr3 ?s = 1" "npages ?s = 5"
    by (simp_all add: fault_state_def curenv_def held_lock_def holding_def bss_state_def)
  have k: "kmem ?s 1 954 = 0x3007" "kmem ?s 3 1023 = 0x2007" by (simp_all add: fault_state_def)
  have x: "unat (PDX 0xEEBFFFCC) = 954" "unat (PTX 0xEEBFFFCC) = 1023" "unat (PGOFF 0xEEBFFFCC) = 4044"
    by (simp_all add: unat_PDX unat_PTX unat_PGOFF)
  have m: "user_mem_check 0 0xEEBFFFCC 52 (PTE_W OR PTE_U) ?s = Ret 0 ?s"
    using f(3) k x by (simp add: user_mem_check_def pgdir_walk_def c_not_def PTE_P_def PTE_U_def PTE_W_def
      PTE_ADDR_def kaddr_def kva_frame_def KERNBASE_def PGNUM_def PDX_def ROUNDUP_def ROUNDDOWN_def
      PGSIZE_def Let_def user_mem_check_loop.simps f(8) layout_values)
  have w: "writable ?s 0xEEBFFFCC 2"
    using k x f(7) by (simp add: writable_def mmu_def Let_def PTE_P_def PTE_W_def PGNUM_def)
  have b: "env_pgfault_upcall (envs ?s 0) \<noteq> 0" "tf_cs (env_tf (envs ?s 0)) AND 3 = 3"
    "tf_esp (env_tf (envs ?s 0)) \<notin> {UXSTACKTOP - PGSIZE, UXSTACKTOP}"
    by (simp_all add: f(4-6) layout_values PGSIZE_def)
  have n: "\<not> (UXSTACKTOP - PGSIZE < tf_esp (env_tf (envs ?s 0)) \<and> tf_esp (env_tf (envs ?s 0)) < UXSTACKTOP)"
    by (simp add: f(6) layout_values PGSIZE_def)
  have e: "UXSTACKTOP - 52 = 0xEEBFFFCC" "unat (0xEEBFFFCC - (UXSTACKTOP - PGSIZE)) div 4 = 1011"
    by (simp_all add: layout_values PGSIZE_def)
  note r = page_fault_reaches_handler [OF f(1-3) b, where f = 2 and fault_va = "0xDEAD", unfolded if_not_P [OF n] e]
  have "UXSTACKTOP - PGSIZE < tf_esp (env_tf (envs ?s 0)) \<and> tf_esp (env_tf (envs ?s 0)) < UXSTACKTOP \<longrightarrow>
      4 dvd unat (tf_esp (env_tf (envs ?s 0))) \<and> UXSTACKTOP - PGSIZE \<le> (0xEEBFFFCC :: u32)"
    using n by blast
  from r [OF this m w] f(4) show ?thesis by (auto simp: upt_rec [of 1011])
qed

text \<open>Environment 0 traps, environment 1 could run.\<close>

definition trap_demo :: "EnvStatus \<Rightarrow> kstate" where
  "trap_demo st = proc_state\<lparr>envs := (\<lambda>_. zero_Env)
     (0 := zero_Env\<lparr>env_pgdir := Some 1, env_id := 0x1000, env_status := st\<rparr>,
      1 := zero_Env\<lparr>env_pgdir := Some 1, env_status := ENV_RUNNABLE\<rparr>)\<rparr>"

definition user_tf :: "nat \<Rightarrow> Trapframe" where
  "user_tf n = zero_Trapframe\<lparr>tf_cs := 0x1b, tf_trapno := of_nat n, tf_regs := zero_PushRegs\<lparr>reg_eax := 99\<rparr>\<rparr>"

lemma trap_demo_simps:
  "envs (trap_demo st) 0 = zero_Env\<lparr>env_pgdir := Some 1, env_id := 0x1000, env_status := st\<rparr>"
  "env_status (envs (trap_demo st) 1) = ENV_RUNNABLE" "user_trap 0 (user_tf n) (trap_demo st) 0"
  "env_status (envs (trap_demo st) e) = ENV_RUNNABLE \<longrightarrow> st = ENV_RUNNABLE \<or> env_pgdir (envs (trap_demo st) e) \<noteq> None"
proof -
  show "envs (trap_demo st) 0 = zero_Env\<lparr>env_pgdir := Some 1, env_id := 0x1000, env_status := st\<rparr>"
    "env_status (envs (trap_demo st) 1) = ENV_RUNNABLE"
    "env_status (envs (trap_demo st) e) = ENV_RUNNABLE \<longrightarrow> st = ENV_RUNNABLE \<or> env_pgdir (envs (trap_demo st) e) \<noteq> None"
    by (simp_all add: trap_demo_def zero_Env_def)
  have "kernel_lock mapped_state = kernel_lock bss_state" "cpus mapped_state = cpus bss_state"
    "this_cpu mapped_state = 0"
    by (simp_all add: mapped_state_def incref_def with_tbl_def) (simp_all add: blank_state_def bss_state_def)
  then show "user_trap 0 (user_tf n) (trap_demo st) 0"
    by (simp add: user_trap_def trap_demo_def proc_state_def user_tf_def curenv_def set_curenv_def upd_this_cpu_def)
      (simp add: bss_state_def zero_CpuInfo_def)
qed

theorem trap_syscall_resumes_witness:
  "\<exists>t. trap False 0 [] 0 (user_tf 48) (trap_demo ENV_RUNNING) = Leave EnterUser t \<and>
    reg_eax (tf_regs (env_tf (envs t 0))) = of_int (- E_INVAL)"
proof -
  let ?s = "trap_demo ENV_RUNNING" and ?tf = "user_tf 48"
  let ?u = "upd_env 0 (\<lambda>v. v\<lparr>env_tf := ?tf\<rparr>) (trap_locked [] ?s)"
  have c: "curenv ?u = Some 0" using trap_demo_simps(3) [of 48 ENV_RUNNING] trap_locked_simps(2) [of "[]" ?s]
    by (simp add: user_trap_def upd_env_def curenv_def)
  have "\<not> unat (99 :: u32) < NSYSCALLS" by (simp add: NSYSCALLS_def syscall_nos_def)
  then have y: "syscall 99 a1 a2 a3 a4 a5 ?u = Ret (- E_INVAL) ?u" for a1 a2 a3 a4 a5
    by (intro syscall_unknown) simp
  have e: "reg_eax (tf_regs ?tf) = 99" "unat (tf_trapno ?tf) = T_SYSCALL"
    by (simp_all add: user_tf_def T_SYSCALL_def)
  from trap_syscall_resumes [OF trap_demo_simps(3) e(2) _ y [folded e(1)] c, of 1 0] show ?thesis
    using trap_demo_simps(1) [of ENV_RUNNING] by (auto simp: upd_env_def)
qed

theorem trap_timer_preempts_witness:
  "\<exists>t. trap False 0 [] 0 (user_tf 32) (trap_demo ENV_RUNNING) = Leave EnterUser t \<and>
    env_status (envs t 0) = ENV_RUNNABLE"
proof -
  have "unat (tf_trapno (user_tf 32)) = unat IRQ_OFFSET + IRQ_TIMER" "(1::nat) < NENV"
    by (simp_all add: user_tf_def IRQ_OFFSET_def IRQ_TIMER_def NENV_1024)
  from trap_timer_preempts [OF trap_demo_simps(3) this(1) _ this(2) trap_demo_simps(2)] show ?thesis
    using trap_demo_simps(1,4) by fastforce
qed

theorem trap_collects_zombie_witness:
  "\<exists>l t. trap False 0 [] 0 (user_tf 14) (trap_demo ENV_DYING) = Leave l t \<and>
    env_status (envs t 0) = ENV_FREE"
proof -
  have "vm_ok (trap_demo ENV_DYING) [4] {1} = vm_ok proc_state [4] {1}"
    by (rule vm_ok_cong) (simp_all add: trap_demo_def)
  with proc_ok(1) have "vm_ok (trap_demo ENV_DYING) [4] {1}" by simp
  from trap_collects_zombie [OF trap_demo_simps(3) _ this] show ?thesis
    using trap_demo_simps(1,4) by fastforce
qed

end
