(* ===== verification/Jos_String.thy ===== *)
theory Jos_String
  imports Jos_Printf
begin

text \<open>
  The string routines (lib/string.c), which the kernel and user programs share. Memory is a
  function from addresses to bytes, and every address can be accessed; a pointer that is advanced
  past the top of memory wraps around, as it does on the machine. The loops that only a zero byte
  ends are partial functions: \<open>None\<close> stands for a loop that does not end. \<open>memset\<close> and \<open>memmove\<close>
  are given both ways the file has them: with the repeated string instructions of the processor,
  which is what is compiled, and as loops in C.
\<close>

type_synonym mem = "u32 \<Rightarrow> u8"

section \<open>Strings\<close>

partial_function (option) strlen_from :: "mem \<Rightarrow> u32 \<Rightarrow> int \<Rightarrow> int option" where
  "strlen_from m s n = (if m s = 0 then Some n else strlen_from m (s + 1) (n + 1))"

definition strlen :: "mem \<Rightarrow> u32 \<Rightarrow> int option" where
  "strlen m s = strlen_from m s 0"

fun strnlen_from :: "mem \<Rightarrow> u32 \<Rightarrow> nat \<Rightarrow> int \<Rightarrow> int" where
  "strnlen_from m s 0 n = n"
| "strnlen_from m s (Suc k) n = (if m s = 0 then n else strnlen_from m (s + 1) k (n + 1))"

definition strnlen :: "mem \<Rightarrow> u32 \<Rightarrow> u32 \<Rightarrow> int" where
  "strnlen m s sz = strnlen_from m s (unat sz) 0"

partial_function (option) strcpy_loop :: "mem \<Rightarrow> u32 \<Rightarrow> u32 \<Rightarrow> mem option" where
  "strcpy_loop m dst src =
     (let c = m src; m = m(dst := c) in
      if c = 0 then Some m else strcpy_loop m (dst + 1) (src + 1))"

definition strcpy :: "mem \<Rightarrow> u32 \<Rightarrow> u32 \<Rightarrow> (u32 \<times> mem) option" where
  "strcpy m dst src = map_option (\<lambda>m. (dst, m)) (strcpy_loop m dst src)"

definition strcat :: "mem \<Rightarrow> u32 \<Rightarrow> u32 \<Rightarrow> (u32 \<times> mem) option" where
  "strcat m dst src =
     (case strlen m dst of
        None \<Rightarrow> None
      | Some len \<Rightarrow> map_option (\<lambda>(_, m). (dst, m)) (strcpy m (dst + of_int len) src))"

fun strncpy_loop :: "mem \<Rightarrow> u32 \<Rightarrow> u32 \<Rightarrow> nat \<Rightarrow> mem" where
  "strncpy_loop m dst src 0 = m"
| "strncpy_loop m dst src (Suc k) =
     (let m = m(dst := m src) in
      strncpy_loop m (dst + 1) (if m src \<noteq> 0 then src + 1 else src) k)"

definition strncpy :: "mem \<Rightarrow> u32 \<Rightarrow> u32 \<Rightarrow> u32 \<Rightarrow> u32 \<times> mem" where
  "strncpy m dst src sz = (dst, strncpy_loop m dst src (unat sz))"

text \<open>The loop of \<open>strlcpy\<close> with \<open>size\<close> at \<open>Suc k\<close> before its test; it gives the last \<open>dst\<close>.\<close>

fun strlcpy_loop :: "mem \<Rightarrow> u32 \<Rightarrow> u32 \<Rightarrow> nat \<Rightarrow> u32 \<times> mem" where
  "strlcpy_loop m dst src 0 = (dst, m)"
| "strlcpy_loop m dst src (Suc k) =
     (if m src \<noteq> 0 then strlcpy_loop (m(dst := m src)) (dst + 1) (src + 1) k else (dst, m))"

definition strlcpy :: "mem \<Rightarrow> u32 \<Rightarrow> u32 \<Rightarrow> u32 \<Rightarrow> u32 \<times> mem" where
  "strlcpy m dst src sz =
     (if 0 < sz then
        (case strlcpy_loop m dst src (unat (sz - 1)) of (d, m) \<Rightarrow> (d - dst, m(d := 0)))
      else (dst - dst, m))"

partial_function (option) strcmp :: "mem \<Rightarrow> u32 \<Rightarrow> u32 \<Rightarrow> int option" where
  "strcmp m p q =
     (if m p \<noteq> 0 \<and> m p = m q then strcmp m (p + 1) (q + 1) else Some (uint (m p) - uint (m q)))"

fun strncmp_loop :: "mem \<Rightarrow> u32 \<Rightarrow> u32 \<Rightarrow> nat \<Rightarrow> int" where
  "strncmp_loop m p q 0 = 0"
| "strncmp_loop m p q (Suc k) =
     (if m p \<noteq> 0 \<and> m p = m q then strncmp_loop m (p + 1) (q + 1) k else uint (m p) - uint (m q))"

definition strncmp :: "mem \<Rightarrow> u32 \<Rightarrow> u32 \<Rightarrow> u32 \<Rightarrow> int" where
  "strncmp m p q n = strncmp_loop m p q (unat n)"

partial_function (option) strchr :: "mem \<Rightarrow> u32 \<Rightarrow> u8 \<Rightarrow> u32 option" where
  "strchr m s c = (if m s = 0 then Some 0 else if m s = c then Some s else strchr m (s + 1) c)"

partial_function (option) strfind :: "mem \<Rightarrow> u32 \<Rightarrow> u8 \<Rightarrow> u32 option" where
  "strfind m s c = (if m s = 0 then Some s else if m s = c then Some s else strfind m (s + 1) c)"

section \<open>Blocks of memory\<close>

text \<open>
  One round of a string instruction on a unit of \<open>w\<close> bytes, 1 or 4: \<open>stos\<close> stores the low bytes of
  \<open>eax\<close>, \<open>movs\<close> loads a unit and stores it. \<open>df\<close> is the direction flag.
\<close>

definition stos :: "nat \<Rightarrow> mem \<Rightarrow> u32 \<Rightarrow> u32 \<Rightarrow> mem" where
  "stos w m d eax = (\<lambda>a. if unat (a - d) < w then byte_of eax (unat (a - d)) else m a)"

definition movs :: "nat \<Rightarrow> mem \<Rightarrow> u32 \<Rightarrow> u32 \<Rightarrow> mem" where
  "movs w m d s = (\<lambda>a. if unat (a - d) < w then m (s + (a - d)) else m a)"

fun rep_stos :: "nat \<Rightarrow> mem \<Rightarrow> u32 \<Rightarrow> u32 \<Rightarrow> nat \<Rightarrow> mem" where
  "rep_stos w m d eax 0 = m"
| "rep_stos w m d eax (Suc k) = rep_stos w (stos w m d eax) (d + of_nat w) eax k"

fun rep_movs :: "bool \<Rightarrow> nat \<Rightarrow> mem \<Rightarrow> u32 \<Rightarrow> u32 \<Rightarrow> nat \<Rightarrow> mem" where
  "rep_movs df w m d s 0 = m"
| "rep_movs df w m d s (Suc k) =
     rep_movs df w (movs w m d s) (if df then d - of_nat w else d + of_nat w)
       (if df then s - of_nat w else s + of_nat w) k"

definition aligned4 :: "u32 \<Rightarrow> bool" where "aligned4 p \<longleftrightarrow> sint p mod 4 = 0"

definition memset :: "mem \<Rightarrow> u32 \<Rightarrow> u32 \<Rightarrow> u32 \<Rightarrow> u32 \<times> mem" where
  "memset m v c n =
     (if n = 0 then (v, m)
      else if aligned4 v \<and> n mod 4 = 0 then
        (let c = c AND 0xFF;
             c = push_bit 24 c OR push_bit 16 c OR push_bit 8 c OR c
         in (v, rep_stos 4 m v c (unat (n div 4))))
      else (v, rep_stos 1 m v c (unat n)))"

definition memmove :: "mem \<Rightarrow> u32 \<Rightarrow> u32 \<Rightarrow> u32 \<Rightarrow> u32 \<times> mem" where
  "memmove m dst src n =
     (let s = src; d = dst in
      if s < d \<and> d < s + n then
        (let s = s + n; d = d + n in
         if aligned4 s \<and> aligned4 d \<and> n mod 4 = 0
         then (dst, rep_movs True 4 m (d - 4) (s - 4) (unat (n div 4)))
         else (dst, rep_movs True 1 m (d - 1) (s - 1) (unat n)))
      else if aligned4 s \<and> aligned4 d \<and> n mod 4 = 0
      then (dst, rep_movs False 4 m d s (unat (n div 4)))
      else (dst, rep_movs False 1 m d s (unat n)))"

text \<open>The same two functions for a compiler without the assembly; the counter of \<open>memset\<close> is signed.\<close>

fun memset_loop :: "mem \<Rightarrow> u32 \<Rightarrow> u8 \<Rightarrow> nat \<Rightarrow> mem" where
  "memset_loop m p c 0 = m"
| "memset_loop m p c (Suc k) = memset_loop (m(p := c)) (p + 1) c k"

definition memset_C :: "mem \<Rightarrow> u32 \<Rightarrow> u32 \<Rightarrow> u32 \<Rightarrow> u32 \<times> mem" where
  "memset_C m v c n = (v, memset_loop m v (ucast c) (nat (sint n)))"

fun copy_down :: "mem \<Rightarrow> u32 \<Rightarrow> u32 \<Rightarrow> nat \<Rightarrow> mem" where
  "copy_down m d s 0 = m"
| "copy_down m d s (Suc k) = (let s = s - 1; d = d - 1 in copy_down (m(d := m s)) d s k)"

fun copy_up :: "mem \<Rightarrow> u32 \<Rightarrow> u32 \<Rightarrow> nat \<Rightarrow> mem" where
  "copy_up m d s 0 = m"
| "copy_up m d s (Suc k) = copy_up (m(d := m s)) (d + 1) (s + 1) k"

definition memmove_C :: "mem \<Rightarrow> u32 \<Rightarrow> u32 \<Rightarrow> u32 \<Rightarrow> u32 \<times> mem" where
  "memmove_C m dst src n =
     (let s = src; d = dst in
      if s < d \<and> d < s + n then (dst, copy_down m (d + n) (s + n) (unat n))
      else (dst, copy_up m d s (unat n)))"

definition memcpy :: "mem \<Rightarrow> u32 \<Rightarrow> u32 \<Rightarrow> u32 \<Rightarrow> u32 \<times> mem" where
  "memcpy m dst src n = memmove m dst src n"

fun memcmp_loop :: "mem \<Rightarrow> u32 \<Rightarrow> u32 \<Rightarrow> nat \<Rightarrow> int" where
  "memcmp_loop m s1 s2 0 = 0"
| "memcmp_loop m s1 s2 (Suc k) =
     (if m s1 \<noteq> m s2 then uint (m s1) - uint (m s2) else memcmp_loop m (s1 + 1) (s2 + 1) k)"

definition memcmp :: "mem \<Rightarrow> u32 \<Rightarrow> u32 \<Rightarrow> u32 \<Rightarrow> int" where
  "memcmp m v1 v2 n = memcmp_loop m v1 v2 (unat n)"

function memfind_loop :: "mem \<Rightarrow> u32 \<Rightarrow> u32 \<Rightarrow> u8 \<Rightarrow> u32" where
  "memfind_loop m s ends c =
     (if s < ends then if m s = c then s else memfind_loop m (s + 1) ends c else s)"
  by pat_completeness auto

termination
proof (relation "measure (\<lambda>(m, s, ends, c). unat ends - unat s)")
  fix m :: mem and s ends :: u32 and c :: u8
  assume "s < ends"
  moreover from this have "unat (s + 1) = unat s + 1"
    using unat_u32_less [of ends] by (simp add: word_less_nat_alt unat_word_ariths)
  ultimately show "((m, s + 1, ends, c), m, s, ends, c) \<in> measure (\<lambda>(m, s, ends, c). unat ends - unat s)"
    by (simp add: word_less_nat_alt)
qed simp

definition memfind :: "mem \<Rightarrow> u32 \<Rightarrow> u32 \<Rightarrow> u32 \<Rightarrow> u32" where
  "memfind m s c n = memfind_loop m s (s + n) (ucast c)"

section \<open>Numbers\<close>

partial_function (option) skip_blanks :: "mem \<Rightarrow> u32 \<Rightarrow> u32 option" where
  "skip_blanks m s = (if m s = 0x20 \<or> m s = 0x09 then skip_blanks m (s + 1) else Some s)"

text \<open>The value of a digit, if the byte is one in some base; \<open>char\<close> is signed.\<close>

definition digit_val :: "u8 \<Rightarrow> u32 option" where
  "digit_val c =
     (if 0x30 \<le>s c \<and> c \<le>s 0x39 then Some (scast c - 0x30)
      else if 0x61 \<le>s c \<and> c \<le>s 0x7A then Some (scast c - 0x61 + 10)
      else if 0x41 \<le>s c \<and> c \<le>s 0x5A then Some (scast c - 0x41 + 10)
      else None)"

partial_function (option) strtol_digits :: "mem \<Rightarrow> u32 \<Rightarrow> u32 \<Rightarrow> u32 \<Rightarrow> (u32 \<times> u32) option" where
  "strtol_digits m s val base =
     (case digit_val (m s) of
        None \<Rightarrow> Some (val, s)
      | Some dig \<Rightarrow>
          if base \<le>s dig then Some (val, s)
          else strtol_digits m (s + 1) (val * base + dig) base)"

text \<open>The result is the value and what \<open>*endptr\<close> is set to if \<open>endptr\<close> is not null.\<close>

definition strtol :: "mem \<Rightarrow> u32 \<Rightarrow> u32 \<Rightarrow> (u32 \<times> u32) option" where
  "strtol m s base =
     (case skip_blanks m s of
        None \<Rightarrow> None
      | Some s \<Rightarrow>
          (let (s, neg) = (if m s = 0x2B then (s + 1, False)
                           else if m s = 0x2D then (s + 1, True) else (s, False));
               (s, base) = (if (base = 0 \<or> base = 16) \<and> m s = 0x30 \<and> m (s + 1) = 0x78 then (s + 2, 16)
                            else if base = 0 \<and> m s = 0x30 then (s + 1, 8)
                            else if base = 0 then (s, 10) else (s, base))
           in map_option (\<lambda>(val, s). (if neg then - val else val, s)) (strtol_digits m s 0 base)))"

section \<open>Copying and filling\<close>

declare memfind_loop.simps [simp del]

lemma unat_sub_nat:
  "k < 2 ^ 32 \<Longrightarrow> unat ((x :: u32) - of_nat k) = (if k \<le> unat x then unat x - k else 2 ^ 32 + unat x - k)"
  by (simp add: unat_sub_if' unat_of_nat take_bit_nat_eq_self_iff) linarith

text \<open>
  \<open>movs n m d s\<close> is also what copying \<open>n\<close> bytes at once means. A copy in pieces amounts to it if no
  piece is read after it was overwritten; \<open>s - d\<close> stays the same from piece to piece.
\<close>

definition upward :: "u32 \<Rightarrow> nat \<Rightarrow> bool" where
  "upward dist n \<longleftrightarrow> n \<le> 2 ^ 32 \<and> (\<forall>x. unat x < n \<longrightarrow> unat x \<le> unat (x + dist))"

definition downward :: "u32 \<Rightarrow> nat \<Rightarrow> bool" where
  "downward dist n \<longleftrightarrow> n \<le> 2 ^ 32 \<and>
     (\<forall>x. unat x < n \<longrightarrow> unat (x + dist) \<le> unat x \<or> n \<le> unat (x + dist))"

lemma movs_up:
  assumes "upward (s - d) (w + n)" "0 < n"
  shows "movs n (movs w m d s) (d + of_nat w) (s + of_nat w) = movs (w + n) m d s"
proof
  fix a
  let ?y = "a - d"
  have w: "w < 2 ^ 32" "w + n \<le> 2 ^ 32" using assms by (auto simp: upward_def)
  have o: "a - (d + of_nat w) = ?y - of_nat w" "s + of_nat w + (?y - of_nat w) = s + ?y"
    "s + ?y - d = ?y + (s - d)" by simp_all
  note u = unat_sub_nat [OF w(1), of ?y]
  consider "unat ?y < w" | "w \<le> unat ?y" "unat ?y < w + n" | "w + n \<le> unat ?y" by linarith
  then show "movs n (movs w m d s) (d + of_nat w) (s + of_nat w) a = movs (w + n) m d s a"
  proof cases
    case 1
    with u w have "\<not> unat (?y - of_nat w) < n" by simp
    with 1 show ?thesis by (simp add: movs_def o(1))
  next
    case 2
    with u have "unat (?y - of_nat w) < n" by simp
    moreover from 2 assms(1) have "w \<le> unat (?y + (s - d))" by (force simp: upward_def)
    ultimately show ?thesis using 2 by (simp only: movs_def o if_True) (simp add: o(3))
  next
    case 3
    with u have "\<not> unat (?y - of_nat w) < n" by simp
    with 3 show ?thesis by (simp add: movs_def o(1))
  qed
qed

lemma movs_down:
  assumes "downward (s - d) (n + w)" "0 < w"
  shows "movs n (movs w m (d + of_nat n) (s + of_nat n)) d s = movs (n + w) m d s"
proof
  fix a
  let ?y = "a - d"
  have w: "n < 2 ^ 32" "n + w \<le> 2 ^ 32" using assms by (auto simp: downward_def)
  have o: "b - (d + of_nat n) = b - d - of_nat n" "s + ?y - d = ?y + (s - d)"
    "s + of_nat n + (?y - of_nat n) = s + ?y" for b by simp_all
  show "movs n (movs w m (d + of_nat n) (s + of_nat n)) d s a = movs (n + w) m d s a"
  proof (cases "unat ?y < n")
    case True
    let ?z = "?y + (s - d)"
    from True have "unat ?y < n + w" by simp
    with assms(1) have "unat ?z \<le> unat ?y \<or> n + w \<le> unat ?z" unfolding downward_def by blast
    with True unat_sub_nat [OF w(1), of ?z] w(2) have "\<not> unat (?z - of_nat n) < w" by auto
    with True show ?thesis by (simp only: movs_def o(1,2) if_True if_False) simp
  next
    case False
    with unat_sub_nat [OF w(1), of ?y] have "unat (?y - of_nat n) < w \<longleftrightarrow> unat ?y < n + w" by auto
    with False show ?thesis by (simp only: movs_def o(1,3) if_False)
  qed
qed

lemma rep_movs_up:
  "upward (s - d) (w * k) \<Longrightarrow> 0 < w \<Longrightarrow> rep_movs False w m d s k = movs (w * k) m d s"
proof (induction k arbitrary: m d s)
  case (Suc k)
  show ?case
  proof (cases "k = 0")
    case False
    have "upward (s + of_nat w - (d + of_nat w)) (w * k)" using Suc.prems(1) by (auto simp: upward_def)
    from Suc.IH [OF this Suc.prems(2)] movs_up [of s d w "w * k" m] Suc.prems False show ?thesis by simp
  qed simp
qed (simp add: movs_def)

lemma rep_movs_down:
  "downward (s - d) (w * k) \<Longrightarrow> 0 < w \<Longrightarrow>
    rep_movs True w m (d + of_nat (w * k) - of_nat w) (s + of_nat (w * k) - of_nat w) k = movs (w * k) m d s"
proof (induction k arbitrary: m)
  case (Suc k)
  have "downward (s - d) (w * k)" 
    using Suc.prems(1) unfolding downward_def by (auto dest!: spec)
  from Suc.IH [OF this Suc.prems(2)] movs_down [of s d "w * k" w m] Suc.prems show ?case
    by (simp add: algebra_simps)
qed (simp add: movs_def)

lemma directions:
  assumes "unat s + unat n < 2 ^ 32" "unat d + unat n \<le> 2 ^ 32"
  shows "s < d \<and> d < s + n \<Longrightarrow> downward (s - d) (unat n)"
    and "\<not> (s < d \<and> d < s + n) \<Longrightarrow> upward (s - d) (unat n)"
proof -
  have n: "unat n \<le> 2 ^ 32" using unat_u32_less [of n] by simp
  have sn: "unat (s + n) = unat s + unat n" using assms(1) by (simp add: unat_word_ariths)
  have lt: "unat (x + (s - d)) = (if unat d - unat s \<le> unat x then unat x - (unat d - unat s)
      else 2 ^ 32 + unat x - (unat d - unat s))" if "s < d" for x
  proof -
    from that have "d - s = of_nat (unat d - unat s)" by (simp add: word_less_nat_alt of_nat_diff)
    then have "x + (s - d) = x - of_nat (unat d - unat s)" by (metis diff_diff_eq2 diff_add_eq add.commute)
    moreover have "unat d - unat s < 2 ^ 32" using unat_u32_less [of d] by simp
    ultimately show ?thesis using unat_sub_nat by simp
  qed
  show "downward (s - d) (unat n)" if "s < d \<and> d < s + n"
    using that n assms by (auto simp: downward_def lt word_less_nat_alt)
  show "upward (s - d) (unat n)" if "\<not> (s < d \<and> d < s + n)"
  proof (cases "s < d")
    case True
    with that have "unat s + unat n \<le> unat d" by (simp add: word_less_nat_alt sn)
    moreover have "unat d < 2 ^ 32" by (rule unat_u32_less)
    ultimately show ?thesis using n by (auto simp: upward_def lt [OF True])
  next
    case False
    then have "unat (s - d) = unat s - unat d" by (simp add: unat_sub word_less_nat_alt word_le_nat_alt)
    then have "unat (x + (s - d)) = unat x + (unat s - unat d)" if "unat x < unat n" for x
      using that assms(1) by (simp add: unat_word_ariths)
    with n show ?thesis by (auto simp: upward_def)
  qed
qed

lemma copy_up_movs: "copy_up m d s k = rep_movs False 1 m d s k"
proof (induction k arbitrary: m d s)
  case (Suc k)
  have "m(d := m s) = movs 1 m d s" by (auto simp: movs_def fun_eq_iff unat_eq_zero)
  with Suc show ?case by simp
qed simp

lemma copy_down_movs: "copy_down m d s k = rep_movs True 1 m (d - 1) (s - 1) k"
proof (induction k arbitrary: m d s)
  case (Suc k)
  have e: "m(d - 1 := m (s - 1)) = movs 1 m (d - 1) (s - 1)" by (auto simp: movs_def fun_eq_iff unat_eq_zero)
  show ?case unfolding copy_down.simps Let_def e Suc by simp
qed simp

lemma unat_div4: "(n :: u32) mod 4 = 0 \<Longrightarrow> 4 * unat (n div 4) = unat n"
  using mult_div_mod_eq [of "4 :: nat" "unat n"] by (simp add: unat_div_distrib word_unat_eq_iff unat_mod_distrib)

lemma memmove_ok:
  assumes "unat src + unat n < 2 ^ 32" "unat dst + unat n \<le> 2 ^ 32"
  shows "memmove m dst src n = (dst, movs (unat n) m dst src)"
    and "memmove_C m dst src n = (dst, movs (unat n) m dst src)"
proof -
  note d = directions [OF assms]
  have down: "rep_movs True w m (dst + n - of_nat w) (src + n - of_nat w) k = movs (unat n) m dst src"
    if "src < dst \<and> dst < src + n" "w * k = unat n" "0 < w" for w k
    using rep_movs_down [of src dst w k m] d(1) [OF that(1)] that(2,3)
    by (simp only: that(2)) simp
  have up: "rep_movs False w m dst src k = movs (unat n) m dst src"
    if "\<not> (src < dst \<and> dst < src + n)" "w * k = unat n" "0 < w" for w k
    using rep_movs_up [of src dst w k m] d(2) [OF that(1)] that(2,3) by simp
  show "memmove m dst src n = (dst, movs (unat n) m dst src)"
    using down [of 4 "unat (n div 4)"] down [of 1 "unat n"] up [of 4 "unat (n div 4)"] up [of 1 "unat n"]
      unat_div4 [of n] by (simp add: memmove_def Let_def)
  show "memmove_C m dst src n = (dst, movs (unat n) m dst src)"
    using down [of 1 "unat n"] up [of 1 "unat n"] unat_div4 [of n]
    by (simp add: memmove_C_def Let_def copy_up_movs copy_down_movs)
qed

text \<open>
  C26: \<open>memmove\<close> copies: after it every byte of the destination is what the byte of the source was
  before, also when the two overlap, and no other byte changes, provided neither block reaches past
  the top of memory. The version with the string instructions, which copies upwards or downwards
  and by words or by bytes, and the version in C agree.
\<close>

theorem memmove_copies:
  assumes "unat src + unat n < 2 ^ 32" "unat dst + unat n \<le> 2 ^ 32"
  shows "memmove m dst src n = memmove_C m dst src n \<and>
    memmove m dst src n =
      (dst, \<lambda>a. if unat (a - dst) < unat n then m (src + (a - dst)) else m a)"
  using memmove_ok [OF assms] by (simp add: movs_def)

lemma rep_stos_fill:
  assumes "\<forall>i<w. byte_of eax i = b" "w < 2 ^ 32" "w * k \<le> 2 ^ 32"
  shows "rep_stos w m d eax k = (\<lambda>a. if unat (a - d) < w * k then b else m a)"
  using assms(3)
proof (induction k arbitrary: m d)
  case (Suc k)
  have e: "a - (d + of_nat w) = a - d - of_nat w" for a by simp
  have "unat (a - (d + of_nat w)) < w * k \<or> unat (a - d) < w \<longleftrightarrow> unat (a - d) < w * Suc k" for a
    using unat_sub_nat [OF assms(2), of "a - d"] unfolding e by auto
  moreover have "stos w m d eax a = (if unat (a - d) < w then b else m a)" for a
    using assms(1) by (simp add: stos_def)
  ultimately show ?case using Suc by (auto simp: fun_eq_iff)
qed simp

lemma memset_loop_stos: "memset_loop m p (ucast c) k = rep_stos 1 m p c k"
proof (induction k arbitrary: m p)
  case (Suc k)
  have e: "m(p := ucast c) = stos 1 m p c"
    by (auto simp: stos_def fun_eq_iff unat_eq_zero byte_of_def)
  show ?case unfolding memset_loop.simps rep_stos.simps e Suc by simp
qed simp

lemma byte_of_or: "byte_of (x OR y) i = byte_of x i OR byte_of y i"
  by (rule bit_word_eqI) (simp add: byte_of_def bit_simps)

lemma byte_of_push: "i < 4 \<Longrightarrow> j < 4 \<Longrightarrow> byte_of (push_bit (8 * j) (c AND 0xFF)) i = (if i = j then ucast c else 0)"
  by (rule bit_word_eqI) (simp add: byte_of_def bit_simps ff_mask, linarith)

lemma spread_byte:
  "i < 4 \<Longrightarrow> byte_of (push_bit 24 (c AND 0xFF) OR push_bit 16 (c AND 0xFF) OR push_bit 8 (c AND 0xFF) OR (c AND 0xFF)) i
    = ucast c"
  using byte_of_push [of i 0 c] byte_of_push [of i 1 c] byte_of_push [of i 2 c] byte_of_push [of i 3 c]
  by (auto simp: byte_of_or split: if_splits)

text \<open>
  \<open>memset\<close> fills: after it all bytes of the block, and no others, are the low byte of \<open>c\<close>,
  whether they are stored by words or by bytes; the version in C does the same for a size that is
  not negative as an \<open>int\<close>, and nothing at all for a larger one.
\<close>

theorem memset_fills:
  "memset m v c n = (v, \<lambda>a. if unat (a - v) < unat n then ucast c else m a) \<and>
   memset_C m v c n = (if 0 \<le> sint n then memset m v c n else (v, m))"
proof -
  have l: "unat n \<le> 2 ^ 32" "4 * unat (n div 4) \<le> 2 ^ 32" using unat_u32_less [of n]
    by (simp_all add: unat_div_distrib)
  have b: "\<forall>i<1. byte_of c i = ucast c" by (simp add: byte_of_def)
  have m: "memset m v c n = (v, \<lambda>a. if unat (a - v) < unat n then ucast c else m a)"
    using rep_stos_fill [OF b, of "unat n" m v] l unat_div4 [of n]
      rep_stos_fill [of 4 "push_bit 24 (c AND 0xFF) OR push_bit 16 (c AND 0xFF) OR push_bit 8 (c AND 0xFF) OR (c AND 0xFF)"
        "ucast c" "unat (n div 4)" m v] spread_byte [of _ c]
    by (simp add: memset_def Let_def)
  have "uint (word_of_int (sint n) :: u32) = sint n mod 2 ^ LENGTH(32)" by (rule uint_word_of_int)
  then have "uint n = sint n mod 2 ^ 32" unfolding of_int_sint by simp
  moreover have "sint n < 2 ^ 31" using sint_less [of n] by simp
  ultimately have "nat (sint n) = unat n" if "0 \<le> sint n"
    using that by (simp add: mod_pos_pos_trivial flip: nat_uint_eq)
  then show ?thesis
    using m rep_stos_fill [OF b, of "unat n" m v] l
    by (simp add: memset_C_def memset_loop_stos)
qed

section \<open>What a string is\<close>

text \<open>The characters \<open>cs\<close> and a zero byte after them are in memory from \<open>s\<close> on.\<close>

fun cstring :: "mem \<Rightarrow> u32 \<Rightarrow> u8 list \<Rightarrow> bool" where
  "cstring m s [] = (m s = 0)"
| "cstring m s (c # cs) = (m s = c \<and> c \<noteq> 0 \<and> cstring m (s + 1) cs)"

lemma strlen_from_ok: "cstring m s cs \<Longrightarrow> strlen_from m s n = Some (n + int (length cs))"
  by (induction cs arbitrary: s n) (subst strlen_from.simps; simp)+

lemma strlen_ok: "cstring m s cs \<Longrightarrow> strlen m s = Some (int (length cs))"
  by (simp add: strlen_def strlen_from_ok)

lemma strnlen_from_ok: "cstring m s cs \<Longrightarrow> strnlen_from m s k n = n + int (min k (length cs))"
proof (induction cs arbitrary: s n k)
  case Nil
  then show ?case by (cases k) simp_all
next
  case (Cons c cs)
  then show ?case by (cases k) simp_all
qed

lemma strfind_ok:
  "cstring m s cs \<Longrightarrow> strfind m s c = Some (s + of_nat (length (takeWhile (\<lambda>x. x \<noteq> c) cs)))"
  by (induction cs arbitrary: s) (subst strfind.simps; simp)+

lemma strchr_ok:
  "cstring m s cs \<Longrightarrow>
    strchr m s c = Some (if c \<in> set cs then s + of_nat (length (takeWhile (\<lambda>x. x \<noteq> c) cs)) else 0)"
  by (induction cs arbitrary: s) (subst strchr.simps; auto)+

text \<open>\<open>bs\<close> written from \<open>d\<close> on.\<close>

definition put :: "mem \<Rightarrow> u32 \<Rightarrow> u8 list \<Rightarrow> mem" where
  "put m d bs = (\<lambda>a. if unat (a - d) < length bs then bs ! unat (a - d) else m a)"

lemma put_Nil [simp]: "put m d [] = m"
  by (simp add: put_def)

lemma put_Cons:
  assumes "length bs < 2 ^ 32"
  shows "put (m(d := b)) (d + 1) bs = put m d (b # bs)"
proof
  fix a
  have e: "a - (d + 1) = a - d - of_nat 1" by simp
  have u: "unat (a - (d + 1)) = (if 1 \<le> unat (a - d) then unat (a - d) - 1 else 2 ^ 32 + unat (a - d) - 1)"
    unfolding e by (rule unat_sub_nat) simp
  have z: "unat (a - d) = 0 \<longleftrightarrow> a = d" by (simp add: unat_eq_zero)
  show "put (m(d := b)) (d + 1) bs a = put m d (b # bs) a"
    using assms z by (cases "unat (a - d)") (auto simp: put_def u unsigned_minus_1_eq_mask mask_eq_exp_minus_1)
qed

text \<open>The string at \<open>s\<close>, with its end, lies outside of the \<open>n\<close> bytes from \<open>d\<close> on.\<close>

definition apart :: "u32 \<Rightarrow> nat \<Rightarrow> u32 \<Rightarrow> nat \<Rightarrow> bool" where
  "apart s l d n \<longleftrightarrow> (\<forall>i\<le>l. n \<le> unat (s + of_nat i - d))"

lemma apart_Suc: "apart s (Suc l) d n \<Longrightarrow> apart (s + 1) l (d + 1) (n - 1)"
  unfolding apart_def by (metis (no_types) add.assoc add.commute add_diff_cancel_right diff_le_self le_SucI le_trans)

lemma apart_step: "apart s (Suc l) d n \<Longrightarrow> apart (s + 1) l d n"
  unfolding apart_def by (metis add.assoc of_nat_Suc Suc_le_mono)

lemma cstring_upd: "apart s (length cs) d 1 \<Longrightarrow> cstring (m(d := b)) s cs = cstring m s cs"
proof (induction cs arbitrary: s)
  case Nil
  then have "s \<noteq> d" by (auto simp: apart_def)
  then show ?case by simp
next
  case (Cons c cs)
  then have "s \<noteq> d" by (force simp: apart_def)
  with Cons.IH [OF apart_step] Cons.prems show ?case by simp
qed

lemma apart_less: "apart s l d n \<Longrightarrow> k \<le> n \<Longrightarrow> apart s l d k"
  by (force simp: apart_def)

lemma cstring_next:
  "cstring m src (c # cs) \<Longrightarrow> apart src (length (c # cs)) dst (Suc n) \<Longrightarrow>
    cstring (m(dst := c)) (src + 1) cs \<and> apart (src + 1) (length cs) (dst + 1) n"
  using cstring_upd [of "src + 1" cs dst m c] apart_step [of src "length cs" dst "Suc n"]
    apart_Suc [of src "length cs" dst "Suc n"] apart_less [of "src + 1" "length cs" dst "Suc n" 1]
  by simp

lemma apart_bound: "apart s l d n \<Longrightarrow> n < 2 ^ 32"
  unfolding apart_def by (drule spec [of _ 0]) (simp add: le_less_trans [OF _ unat_u32_less [of "s - d", simplified]])

lemma strcpy_loop_ok:
  "cstring m src cs \<Longrightarrow> apart src (length cs) dst (length cs + 1) \<Longrightarrow>
    strcpy_loop m dst src = Some (put m dst (cs @ [0]))"
proof (induction cs arbitrary: m src dst)
  case Nil
  have "put (m(dst := 0)) (dst + 1) [] = put m dst [0]" by (rule put_Cons) simp
  with Nil show ?case by (subst strcpy_loop.simps) (simp del: fun_upd_apply)
next
  case (Cons c cs)
  define m' where "m' = m(dst := c)"
  have l: "length (cs @ [0]) < 2 ^ 32" using apart_bound [OF Cons.prems(2)] by simp
  from Cons.prems(2) have "apart src (length (c # cs)) dst (Suc (length cs + 1))" by simp
  note n = cstring_next [OF Cons.prems(1) this, folded m'_def]
  from n have "strcpy_loop m' (dst + 1) (src + 1) = Some (put m' (dst + 1) (cs @ [0]))"
    by (intro Cons.IH) simp_all
  with put_Cons [OF l, of m dst c, folded m'_def] Cons.prems(1)
  show ?case by (subst strcpy_loop.simps) (simp add: Let_def m'_def [symmetric])
qed

lemma strlcpy_loop_ok:
  "cstring m src cs \<Longrightarrow> apart src (length cs) dst k \<Longrightarrow>
    strlcpy_loop m dst src k = (dst + of_nat (min k (length cs)), put m dst (take k cs))"
proof (induction cs arbitrary: m src dst k)
  case Nil
  then show ?case by (cases k) simp_all
next
  case (Cons c cs)
  show ?case
  proof (cases k)
    case (Suc j)
    define m' where "m' = m(dst := c)"
    have l: "length (take j cs) < 2 ^ 32" using apart_bound [OF Cons.prems(2)] Suc by simp
    have "cstring m' (src + 1) cs \<and> apart (src + 1) (length cs) (dst + 1) j"
      using cstring_next [OF Cons.prems(1), of dst j] Cons.prems(2) Suc by (simp add: m'_def)
    then have "strlcpy_loop m' (dst + 1) (src + 1) j =
        (dst + 1 + of_nat (min j (length cs)), put m' (dst + 1) (take j cs))"
      using Cons.IH by blast
    with put_Cons [OF l, of m dst c, folded m'_def] Cons.prems(1) Suc
    show ?thesis by (simp add: m'_def [symmetric])
  qed simp
qed

lemma strncpy_loop_ok:
  "cstring m src cs \<Longrightarrow> apart src (length cs) dst k \<Longrightarrow>
    strncpy_loop m dst src k = put m dst (take k cs @ replicate (k - length cs) 0)"
proof (induction k arbitrary: m src dst cs)
  case (Suc k)
  define m' where "m' = m(dst := m src)"
  show ?case
  proof (cases cs)
    case Nil
    have l: "length (replicate k (0::u8)) < 2 ^ 32" using apart_bound [OF Suc.prems(2)] by simp
    have k: "Suc k \<le> unat (src - dst)" using Suc.prems(2) Nil by (simp add: apart_def)
    have e: "src + of_nat 0 - (dst + 1) = src - dst - of_nat 1" by simp
    from k unat_sub_nat [of 1 "src - dst"] have "apart src 0 (dst + 1) k"
      unfolding apart_def le_zero_eq by (simp only: e simp_thms) simp
    moreover have "cstring m' src []"
      using cstring_upd [of src "[]" dst m "m src"] k Suc.prems(1) Nil by (simp add: m'_def apart_def)
    ultimately have "strncpy_loop m' (dst + 1) src k = put m' (dst + 1) (replicate k 0)" "m' src = 0"
      using Suc.IH [of m' src "[]" "dst + 1"] by simp_all
    with put_Cons [OF l, of m dst 0] Nil Suc.prems(1) show ?thesis by (simp add: Let_def m'_def)
  next
    case (Cons c cs')
    have l: "length (take k cs' @ replicate (k - length cs') (0::u8)) < 2 ^ 32"
      using apart_bound [OF Suc.prems(2)] by simp
    have c: "m src = c" "c \<noteq> 0" "src \<noteq> dst" using Suc.prems Cons by (auto simp: apart_def)
    have "cstring m' (src + 1) cs' \<and> apart (src + 1) (length cs') (dst + 1) k"
      using cstring_next [of m src c cs' dst k] Suc.prems Cons c(1) by (simp add: m'_def)
    then have "strncpy_loop m' (dst + 1) (src + 1) k =
        put m' (dst + 1) (take k cs' @ replicate (k - length cs') 0)"
      using Suc.IH by blast
    moreover have "m' src \<noteq> 0" using c by (simp add: m'_def)
    ultimately show ?thesis
      using put_Cons [OF l, of m dst c] Cons c by (simp add: Let_def m'_def)
  qed
qed simp

lemma cstring_put: "length cs < 2 ^ 32 \<Longrightarrow> 0 \<notin> set cs \<Longrightarrow> cstring (put m d (cs @ [0])) d cs"
proof (induction cs arbitrary: m d)
  case Nil
  show ?case by (simp add: put_def)
next
  case (Cons c cs)
  define m' where "m' = m(d := c)"
  have "cstring (put m' (d + 1) (cs @ [0])) (d + 1) cs" using Cons by simp
  moreover have "put m' (d + 1) (cs @ [0]) = put m d (c # cs @ [0])"
    using Cons.prems(1) unfolding m'_def by (intro put_Cons) simp
  moreover have "put m d (c # cs @ [0]) d = c" by (simp add: put_def)
  ultimately show ?case using Cons.prems(2) by auto
qed

lemma cstring_set: "cstring m s cs \<Longrightarrow> 0 \<notin> set cs"
  by (induction cs arbitrary: s) auto

lemma put_snoc:
  assumes "length bs < 2 ^ 32"
  shows "(put m d bs)(d + of_nat (length bs) := b) = put m d (bs @ [b])"
proof
  fix a
  have "a = d + of_nat (length bs) \<longleftrightarrow> a - d = of_nat (length bs)" by (auto simp: algebra_simps)
  also have "\<dots> \<longleftrightarrow> unat (a - d) = length bs"
    using assms by (simp add: word_unat_eq_iff unat_of_nat take_bit_nat_eq_self_iff)
  finally show "((put m d bs)(d + of_nat (length bs) := b)) a = put m d (bs @ [b]) a"
    by (auto simp: put_def nth_append)
qed

text \<open>
  \<open>strlcpy\<close> never overruns its destination: it copies what fits of the string, always ends the
  copy with a zero byte inside the \<open>size\<close> bytes, returns the length of the copy, and changes no
  byte outside of the destination.
\<close>

theorem strlcpy_fits:
  assumes "cstring m src cs" "apart src (length cs) dst (unat n)" "0 < n"
  defines "k \<equiv> min (unat n - 1) (length cs)"
  shows "\<exists>m'. strlcpy m dst src n = (of_nat k, m') \<and> cstring m' dst (take k cs) \<and> k < unat n \<and>
    (\<forall>a. unat n \<le> unat (a - dst) \<longrightarrow> m' a = m a)"
proof -
  have n: "0 < unat n" using assms(3) by (simp add: word_less_nat_alt)
  then have n1: "unat (n - 1) = unat n - 1" by (simp add: unat_sub word_le_nat_alt Suc_leI)
  have k: "k < unat n" "length (take k cs) = k" "k < 2 ^ 32" "take (unat n - 1) cs = take k cs"
    using n unat_u32_less [of n] by (auto simp: k_def min_def)
  let ?m = "put m dst (take k cs @ [0])"
  have "apart src (length cs) dst (unat (n - 1))" using apart_less [OF assms(2)] n1 by simp
  from strlcpy_loop_ok [OF assms(1) this] have
    "strlcpy_loop m dst src (unat (n - 1)) = (dst + of_nat k, put m dst (take k cs))"
    unfolding n1 k(4) by (simp add: k_def)
  with put_snoc [of "take k cs" m dst 0, unfolded k(2), OF k(3)] assms(3)
  have "strlcpy m dst src n = (of_nat k, ?m)" by (simp add: strlcpy_def)
  moreover have "cstring ?m dst (take k cs)"
    using k(2,3) cstring_set [OF assms(1)] by (intro cstring_put) (auto dest: in_set_takeD)
  moreover have "?m a = m a" if "unat n \<le> unat (a - dst)" for a
    using that k(1) unfolding put_def length_append k(2) by simp
  ultimately show ?thesis using k(1) by blast
qed

lemma uint_positive: "d \<noteq> 0 \<Longrightarrow> 0 < uint (d :: u8)"
  using uint_ge_0 [of d] by (metis order_le_less uint_0_iff)

text \<open>
  \<open>strcmp\<close> on two strings ends; its result is zero exactly if they are equal and negative exactly
  if the first comes before the second in the lexicographic order of the unsigned bytes.
\<close>

theorem strcmp_orders:
  assumes "cstring m p cs" "cstring m q ds"
  shows "\<exists>r. strcmp m p q = Some r \<and> (r = 0 \<longleftrightarrow> cs = ds) \<and> (r < 0 \<longleftrightarrow> ord_class.lexordp cs ds)"
  using assms
proof (induction cs arbitrary: p q ds)
  case Nil
  show ?case
  proof (cases ds)
    case Nil
    with \<open>cstring m p []\<close> \<open>cstring m q ds\<close> show ?thesis by (subst strcmp.simps) simp
  next
    case (Cons d ds')
    with \<open>cstring m p []\<close> \<open>cstring m q ds\<close> uint_positive [of d] show ?thesis by (subst strcmp.simps) simp
  qed
next
  case (Cons c cs)
  show ?case
  proof (cases ds)
    case Nil
    with Cons.prems uint_positive [of c] show ?thesis by (subst strcmp.simps) auto
  next
    case (Cons d ds')
    show ?thesis
    proof (cases "c = d")
      case True
      with Cons.IH [of "p + 1" "q + 1" ds'] Cons.prems Cons show ?thesis by (subst strcmp.simps) simp
    next
      case False
      then have "uint c \<noteq> uint d" by (simp add: word_uint_eq_iff)
      with False Cons.prems Cons show ?thesis by (subst strcmp.simps) (auto simp: word_less_def)
    qed
  qed
qed

section \<open>Reading back printed numbers\<close>

declare ord_class.lexordp_simps [simp del]

definition dchar :: "nat \<Rightarrow> u8" where "dchar d = chars ''0123456789abcdef'' ! d"

lemma dchar_cases:
  assumes "d < 16"
  shows "digit_val (dchar d) = Some (of_nat d)"
    "dchar d \<notin> {0, 0x20, 0x09, 0x2B, 0x2D, 0x78}" "dchar d = 0x30 \<longleftrightarrow> d = 0"
proof -
  have "\<forall>d\<in>set [0..<16]. digit_val (dchar d) = Some (of_nat d) \<and>
      dchar d \<notin> {0, 0x20, 0x09, 0x2B, 0x2D, 0x78} \<and> (dchar d = 0x30 \<longleftrightarrow> d = 0)"
    by code_simp
  with assms show "digit_val (dchar d) = Some (of_nat d)"
    "dchar d \<notin> {0, 0x20, 0x09, 0x2B, 0x2D, 0x78}" "dchar d = 0x30 \<longleftrightarrow> d = 0" by auto
qed

lemma sint_small: "unat (x :: u32) < 2 ^ 31 \<Longrightarrow> sint x = int (unat x)"
proof -
  assume "unat x < 2 ^ 31"
  then have "int (unat x) < int (2 ^ 31)" by (simp only: of_nat_less_iff)
  then have "uint x < 2 ^ 31" by simp
  then have "signed_take_bit 31 (uint x) = uint x"
    using uint_ge_0 [of x] by (intro signed_take_bit_int_eq_self) linarith+
  then show "sint x = int (unat x)" by (simp add: sint_uint)
qed

lemma strtol_digits_ok:
  assumes "2 \<le> base" "base \<le> 16" "cstring m s (map dchar ds)" "\<forall>d\<in>set ds. d < unat base"
  shows "strtol_digits m s val base =
    Some (foldl (\<lambda>a d. a * base + of_nat d) val ds, s + of_nat (length ds))"
  using assms(3,4)
proof (induction ds arbitrary: s val)
  case Nil
  then have "digit_val (m s) = None" by (simp add: digit_val_def word_sle_eq)
  then show ?case by (subst strtol_digits.simps) simp
next
  case (Cons d ds)
  have b: "unat base \<le> 16" using assms(2) by (simp add: word_le_nat_alt)
  then have d: "d < unat base" "d < 16" using Cons.prems(2) by auto
  have "unat (of_nat d :: u32) = d" using d(2) by (simp add: unat_of_nat take_bit_nat_eq_self_iff)
  then have "sint (of_nat d :: u32) = int d" using d(2) sint_small [of "of_nat d"] by simp
  moreover have "sint base = int (unat base)" using b by (intro sint_small) simp
  moreover have "\<not> int (unat base) \<le> int d" using d(1) by (simp only: of_nat_le_iff)
  ultimately have "\<not> base \<le>s of_nat d" by (simp only: word_sle_eq not_False_eq_True)
  with Cons dchar_cases(1) [OF d(2)] show ?case by (subst strtol_digits.simps) (simp add: add.assoc)
qed

lemma foldl_of_nat:
  "foldl (\<lambda>a d. a * base + of_nat d) (of_nat v) ds = (of_nat (foldl (\<lambda>a d. a * unat base + d) v ds) :: u32)"
proof (induction ds arbitrary: v)
  case (Cons d ds)
  have e: "of_nat v * base + of_nat d = (of_nat (v * unat base + d) :: u32)"
    unfolding of_nat_add of_nat_mult by simp
  show ?case unfolding foldl.simps e by (rule Cons)
qed simp

text \<open>
  C27: \<open>strtol\<close> reads back what \<open>printnum\<close> prints: the numeral of any 32-bit number in any base from
  2 to 16, stored as a string, gives the number again, and the pointer to its end.
\<close>

theorem strtol_reads_printnum:
  assumes "2 \<le> base" "base \<le> 16" "cstring m s (map ucast (printnum collect (ucast n) base w ch []))"
    "w \<le> 0"
  shows "strtol m s base =
    Some (n, s + of_nat (length (printnum collect (ucast n) base w ch [])))"
proof -
  let ?ds = "digits_of (unat base) (unat n)"
  have b: "2 \<le> unat base" "unat base \<le> 16" using assms(1,2) by (simp_all add: word_le_nat_alt)
  have d: "\<forall>d\<in>set ?ds. d < unat base" by (rule digits_of_less [OF b(1)])
  have c: "ucast (digit_char (of_nat d)) = dchar d" if "d < 16" for d
  proof -
    have "unat (of_nat d :: u64) = d" using that by (simp add: unat_of_nat take_bit_nat_eq_self_iff)
    moreover have "ucast (ucast b :: u32) = b" for b :: u8 by (rule bit_word_eqI) (simp add: bit_simps)
    ultimately show ?thesis by (simp add: digit_char_def dchar_def)
  qed
  have p: "printnum collect (ucast n) base w ch [] = map (\<lambda>d. digit_char (of_nat d)) ?ds"
    using printnum_digits [OF assms(1), of "ucast n" w ch "[]"] assms(4) by (simp add: unat_ucast_32_64)
  with d b(2) have "map ucast (printnum collect (ucast n) base w ch []) = map dchar ?ds"
    by (auto intro!: c)
  with assms(3) have cs: "cstring m s (map dchar ?ds)" by simp
  obtain x xs where x: "?ds = x # xs" using digits_of_ne [of "unat base" "unat n"] by (cases ?ds) auto
  with d b(2) have x16: "x < 16" by auto
  have s0: "m s = dchar x" using cs x by simp
  have s1: "m (s + 1) \<noteq> 0x78"
  proof (cases xs)
    case (Cons y ys)
    with x cs d b(2) have "m (s + 1) = dchar y" "y < 16" by auto
    with dchar_cases(2) show ?thesis by simp
  qed (use x cs in simp)
  have nb: "m s \<noteq> 0x20" "m s \<noteq> 0x09" "m s \<noteq> 0x2B" "m s \<noteq> 0x2D" using dchar_cases(2) [OF x16] s0 by auto
  then have sk: "skip_blanks m s = Some s" by (subst skip_blanks.simps) simp
  have "base \<noteq> 0" using assms(1) by auto
  moreover have "strtol_digits m s 0 base = Some (n, s + of_nat (length ?ds))"
    using strtol_digits_ok [OF assms(1,2) cs d, of 0] foldl_of_nat [of base 0 ?ds] digits_of_value [OF b(1), of "unat n"]
    by simp
  ultimately show ?thesis using sk nb s1 p by (simp add: strtol_def Let_def)
qed

section \<open>Witnesses\<close>

theorem memmove_copies_witness: "snd (memmove (\<lambda>a. ucast a) 12 8 8) 19 = 15"
  using memmove_copies [THEN conjunct2, of 8 8 12 "\<lambda>a. ucast a"] by simp

text \<open>The strings \<open>42\<close> at address 100 and \<open>4\<close> at address 200.\<close>

definition string_mem :: mem where "string_mem = (\<lambda>_. 0)(100 := 0x34, 101 := 0x32, 200 := 0x34)"

lemma string_mem: "cstring string_mem 100 [0x34, 0x32]" "cstring string_mem 200 [0x34]"
  by (simp_all add: string_mem_def)

theorem strlcpy_fits_witness:
  "\<exists>m'. strlcpy string_mem 300 100 2 = (1, m') \<and> cstring m' 300 [0x34] \<and> m' 302 = string_mem 302"
proof -
  have "i \<le> 2 \<longleftrightarrow> i = 0 \<or> i = 1 \<or> i = 2" for i :: nat by linarith
  then have "apart 100 (length [0x34, 0x32 :: u8]) 300 (unat (2 :: u32))"
    by (auto simp: apart_def numeral_2_eq_2 [symmetric] simp del: One_nat_def)
  from strlcpy_fits [OF string_mem(1) this] show ?thesis by auto
qed

theorem strcmp_orders_witness: "\<exists>r. strcmp string_mem 100 200 = Some r \<and> 0 < r"
  using strcmp_orders [OF string_mem] by (auto simp: ord_class.lexordp_simps)

theorem strtol_reads_printnum_witness: "strtol string_mem 100 10 = Some (42, 102)"
proof -
  have p: "printnum collect (ucast (42 :: u32)) 10 0 0 [] = [0x34, 0x32]"
    by (simp add: printnum.simps collect_def digit_char_def chars_def)
  with string_mem(1) strtol_reads_printnum [of 10 string_mem 100 42 0 0] show ?thesis by simp
qed

end
