(* ===== verification/Jos_Ulib.thy ===== *)
theory Jos_Ulib
  imports Jos_Trap Jos_String
begin

text \<open>
  The library of user programs: the system call stubs (lib/syscall.c, inc/lib.h), the page fault
  handler (lib/pgfault.c), fork with copy on write (lib/fork.c), communication (lib/ipc.c), the
  start and the end of a program (lib/libmain.c, lib/exit.c) and its console (lib/console.c). A
  program works on the state of the kernel through system calls, a stub being the call as the
  kernel dispatches it. \<open>Panic\<close> is the end of the program, in \<open>panic\<close> or by a fault without a
  handler. Where a program gives the CPU up and goes on later, \<open>resume\<close> tells in which state that is:
  it stands for the scheduler and all other programs.
\<close>

section \<open>System call stubs\<close>

definition sysno :: "syscall_no \<Rightarrow> u32" where
  "sysno c = of_nat (length (takeWhile (\<lambda>x. x \<noteq> c) syscall_nos))"

definition usyscall :: "syscall_no \<Rightarrow> bool \<Rightarrow> u32 \<Rightarrow> u32 \<Rightarrow> u32 \<Rightarrow> u32 \<Rightarrow> u32 \<Rightarrow> kstate \<Rightarrow> int kres" where
  "usyscall num check a1 a2 a3 a4 a5 s =
     bindO (syscall (sysno num) a1 a2 a3 a4 a5 s) (\<lambda>ret s.
       if check \<and> 0 < ret then Panic ''syscall returned (> 0)'' else Ret ret s)"

definition u_cputs :: "u32 \<Rightarrow> u32 \<Rightarrow> kstate \<Rightarrow> unit kres" where
  "u_cputs va len s = bindO (usyscall SYS_cputs False va len 0 0 0 s) (\<lambda>_ s. Ret () s)"

definition u_cgetc :: "kstate \<Rightarrow> int kres" where
  "u_cgetc s = usyscall SYS_cgetc False 0 0 0 0 0 s"

definition u_env_destroy :: "u32 \<Rightarrow> kstate \<Rightarrow> int kres" where
  "u_env_destroy envid s = usyscall SYS_env_destroy True envid 0 0 0 0 s"

definition u_getenvid :: "kstate \<Rightarrow> int kres" where
  "u_getenvid s = usyscall SYS_getenvid False 0 0 0 0 0 s"

definition u_yield :: "kstate \<Rightarrow> unit kres" where
  "u_yield s = bindO (usyscall SYS_yield False 0 0 0 0 0 s) (\<lambda>_ s. Ret () s)"

definition u_page_alloc :: "u32 \<Rightarrow> u32 \<Rightarrow> u32 \<Rightarrow> kstate \<Rightarrow> int kres" where
  "u_page_alloc envid va perm s = usyscall SYS_page_alloc True envid va perm 0 0 s"

definition u_page_map :: "u32 \<Rightarrow> u32 \<Rightarrow> u32 \<Rightarrow> u32 \<Rightarrow> u32 \<Rightarrow> kstate \<Rightarrow> int kres" where
  "u_page_map srcenv srcva dstenv dstva perm s = usyscall SYS_page_map True srcenv srcva dstenv dstva perm s"

definition u_page_unmap :: "u32 \<Rightarrow> u32 \<Rightarrow> kstate \<Rightarrow> int kres" where
  "u_page_unmap envid va s = usyscall SYS_page_unmap True envid va 0 0 0 s"

definition u_exofork :: "kstate \<Rightarrow> int kres" where
  "u_exofork s = syscall (sysno SYS_exofork) 0 0 0 0 0 s"

definition u_env_set_status :: "u32 \<Rightarrow> u32 \<Rightarrow> kstate \<Rightarrow> int kres" where
  "u_env_set_status envid status s = usyscall SYS_env_set_status True envid status 0 0 0 s"

definition u_env_set_pgfault_upcall :: "u32 \<Rightarrow> u32 \<Rightarrow> kstate \<Rightarrow> int kres" where
  "u_env_set_pgfault_upcall envid upcall s = usyscall SYS_env_set_pgfault_upcall True envid upcall 0 0 0 s"

definition u_ipc_try_send :: "u32 \<Rightarrow> u32 \<Rightarrow> u32 \<Rightarrow> u32 \<Rightarrow> kstate \<Rightarrow> int kres" where
  "u_ipc_try_send envid value srcva perm s = usyscall SYS_ipc_try_send False envid value srcva perm 0 s"

definition u_ipc_recv :: "u32 \<Rightarrow> kstate \<Rightarrow> int kres" where
  "u_ipc_recv dstva s = usyscall SYS_ipc_recv True dstva 0 0 0 0 s"

section \<open>Memory as the program sees it\<close>

text \<open>
  A program reads what is mapped for the user in both the directory and the table, and writes what
  is writable in both; anything else is a page fault. A word is read at an aligned address.
\<close>

definition u_load32 :: "u32 \<Rightarrow> kstate \<Rightarrow> u32 kres" where
  "u_load32 va s =
     (case mmu s (cr3 s) va of
        None \<Rightarrow> Panic ''user page fault''
      | Some (f, rights) \<Rightarrow>
          if rights AND PTE_U = 0 then Panic ''user page fault''
          else Ret (kmem s f (unat (PGOFF va) div 4)) s)"

definition u_store32 :: "u32 \<Rightarrow> u32 \<Rightarrow> kstate \<Rightarrow> unit kres" where
  "u_store32 va w s =
     (case mmu s (cr3 s) va of
        None \<Rightarrow> Panic ''user page fault''
      | Some (f, rights) \<Rightarrow>
          if rights AND PTE_U = 0 \<or> rights AND PTE_W = 0 then Panic ''user page fault''
          else Ret () (wr_word f (unat (PGOFF va) div 4) w s))"

text \<open>\<open>memcpy\<close> of a page, which copies \<open>n\<close> aligned words, one load and one store each.\<close>

fun u_copy_words :: "u32 \<Rightarrow> u32 \<Rightarrow> nat \<Rightarrow> kstate \<Rightarrow> unit kres" where
  "u_copy_words d s 0 t = Ret () t"
| "u_copy_words d s (Suc n) t =
     bindO (u_load32 s t) (\<lambda>w t. bindO (u_store32 d w t) (\<lambda>_ t. u_copy_words (d + 4) (s + 4) n t))"

text \<open>The page tables as arrays (lib/entry.S), through the entry of the directory that maps itself.\<close>

definition uvpt :: "u32 \<Rightarrow> kstate \<Rightarrow> u32 kres" where
  "uvpt pn s = u_load32 (UVPT + pn * 4) s"

definition uvpd :: "u32 \<Rightarrow> kstate \<Rightarrow> u32 kres" where
  "uvpd i s = u_load32 (UVPT + drop_bit 12 UVPT * 4 + i * 4) s"

section \<open>Page fault handler and fork\<close>

definition PTE_COW :: u32 where "PTE_COW = 0x800"

text \<open>The two variables of the library: the handler, null at first, and \<open>thisenv\<close>.\<close>

record uvars =
  pgfault_handler :: u32
  thisenv :: "nat option"

definition set_pgfault_handler :: "u32 \<Rightarrow> u32 \<Rightarrow> uvars \<Rightarrow> kstate \<Rightarrow> uvars kres" where
  "set_pgfault_handler upcall handler u s =
     bindO (if pgfault_handler u = 0 then
              bindO (u_page_alloc 0 (UXSTACKTOP - PGSIZE) ((PTE_P OR PTE_U) OR PTE_W) s) (\<lambda>r s.
                if r \<noteq> 0 then Panic ''in sys_pgfault_handler: page alloc for the user TF failed''
                else bindO (u_env_set_pgfault_upcall 0 upcall s) (\<lambda>r s.
                  if r \<noteq> 0 then Panic ''in sys_pgfault_handler: set upcall failed'' else Ret () s))
            else Ret () s)
       (\<lambda>_ s. Ret (u\<lparr>pgfault_handler := handler\<rparr>) s)"

definition pgfault :: "u32 \<Rightarrow> u32 \<Rightarrow> kstate \<Rightarrow> unit kres" where
  "pgfault addr err s =
     (if NOT err AND FEC_WR \<noteq> 0 then Panic ''in fork.c: the page fault was on a read''
      else bindO (uvpd (PDX addr) s) (\<lambda>pde s.
        if NOT pde AND PTE_P \<noteq> 0 then Panic ''in fork.c: the page dir does not exist''
        else bindO (uvpt (PGNUM addr) s) (\<lambda>e s.
          if NOT e AND PTE_COW \<noteq> 0 then Panic ''in fork.c: the page does not have COW permissions''
          else bindO (uvpt (PGNUM addr) s) (\<lambda>e s.
            if NOT e AND PTE_P \<noteq> 0 then Panic ''in fork.c: the page does not exist''
            else bindO (u_page_alloc 0 PFTEMP ((PTE_P OR PTE_U) OR PTE_W) s) (\<lambda>r s.
              if r \<noteq> 0 then Panic ''in fork.c: the sys_page_alloc failed''
              else bindO (u_copy_words PFTEMP (ROUNDDOWN addr PGSIZE) 1024 s) (\<lambda>_ s.
                bindO (u_page_map 0 PFTEMP 0 (ROUNDDOWN addr PGSIZE) ((PTE_P OR PTE_U) OR PTE_W) s) (\<lambda>r s.
                  if r \<noteq> 0 then Panic ''in fork.c: the sys_page_map failed''
                  else bindO (u_page_unmap 0 PFTEMP s) (\<lambda>r s.
                    if r \<noteq> 0 then Panic ''in fork.c: the sys_page_unmap failed'' else Ret () s))))))))"

definition duppage :: "u32 \<Rightarrow> u32 \<Rightarrow> kstate \<Rightarrow> int kres" where
  "duppage envid pn s =
     (let address = pn * PGSIZE in
      bindO (bindO (uvpt pn s) (\<lambda>e s.
               if e AND PTE_W \<noteq> 0 then Ret True s
               else bindO (uvpt pn s) (\<lambda>e s. Ret (e AND PTE_COW \<noteq> 0) s))) (\<lambda>cow s.
        if cow then
          bindO (u_page_map 0 address envid address ((PTE_P OR PTE_U) OR PTE_COW) s) (\<lambda>r s.
            if r \<noteq> 0 then Panic ''in fork.c: the sys_page_map for a COW page to the child env failed''
            else bindO (u_page_map 0 address 0 address ((PTE_P OR PTE_U) OR PTE_COW) s) (\<lambda>r s.
              if r \<noteq> 0 then Panic ''in fork.c: the sys_page_map for a COW page to the parent env failed''
              else Ret 0 s))
        else
          bindO (u_page_map 0 address envid address (PTE_P OR PTE_U) s) (\<lambda>r s.
            if r \<noteq> 0 then Panic ''in fork.c: the sys_page_map for an RO page to the child env failed''
            else Ret 0 s)))"

text \<open>The loop over the pages of the program, from an address on.\<close>

function fork_pages :: "u32 \<Rightarrow> u32 \<Rightarrow> kstate \<Rightarrow> unit kres" where
  "fork_pages envid address s =
     (if address < USTACKTOP then
        bindO (uvpd (PDX address) s) (\<lambda>pde s.
          bindO (if pde AND PTE_P = 0 then Ret False s
                 else bindO (uvpt (PGNUM address) s) (\<lambda>e s.
                   if e AND PTE_P = 0 then Ret False s
                   else bindO (uvpt (PGNUM address) s) (\<lambda>e s. Ret (e AND PTE_U \<noteq> 0) s))) (\<lambda>dup s.
            bindO (if dup then bindO (duppage envid (PGNUM address) s) (\<lambda>_ s. Ret () s) else Ret () s) (\<lambda>_ s.
              fork_pages envid (address + PGSIZE) s)))
      else Ret () s)"
  by pat_completeness auto

termination
proof (relation "measure (\<lambda>(envid, address, s). unat USTACKTOP - unat address)")
  fix address :: u32
  assume a: "address < USTACKTOP"
  then have "unat (address + PGSIZE) = unat address + 4096"
    by (simp add: word_less_nat_alt unat_word_ariths layout_values PGSIZE_def)
  with a show "((envid, address + PGSIZE, s'), envid, address, s) \<in>
      measure (\<lambda>(envid, address, s). unat USTACKTOP - unat address)" for envid :: u32 and s s' :: kstate
    by (simp add: word_less_nat_alt)
qed simp

text \<open>
  \<open>fork\<close> after \<open>sys_exofork\<close>, which returns in the parent with the identifier of the child, and in
  the child with 0 when it first runs.
\<close>

definition fork_rest :: "u32 \<Rightarrow> int \<Rightarrow> uvars \<Rightarrow> kstate \<Rightarrow> (int \<times> uvars) kres" where
  "fork_rest upcall envid u s =
     (if envid < 0 then Panic ''in fork.c: the sys_exofork failed''
      else if envid = 0 then
        bindO (u_getenvid s) (\<lambda>i s. Ret (0, u\<lparr>thisenv := Some (ENVX (of_int i))\<rparr>) s)
      else
        bindO (fork_pages (of_int envid) 0 s) (\<lambda>_ s.
          bindO (u_page_alloc (of_int envid) (UXSTACKTOP - PGSIZE) ((PTE_P OR PTE_U) OR PTE_W) s) (\<lambda>r s.
            if r \<noteq> 0 then Panic ''in fork.c: failed to copy over the User Exception Stack''
            else bindO (u_env_set_pgfault_upcall (of_int envid) upcall s) (\<lambda>_ s.
              bindO (u_env_set_status (of_int envid) (env_status_code ENV_RUNNABLE) s) (\<lambda>r s.
                if r \<noteq> 0 then Panic ''in fork.c: failed to mark the child env as ENV_RUNNABLE''
                else Ret (envid, u) s)))))"

definition fork :: "u32 \<Rightarrow> u32 \<Rightarrow> uvars \<Rightarrow> kstate \<Rightarrow> (int \<times> uvars) kres" where
  "fork upcall handler u s =
     bindO (set_pgfault_handler upcall handler u s) (\<lambda>u s.
       bindO (u_exofork s) (\<lambda>envid s. fork_rest upcall envid u s))"

section \<open>Communication\<close>

text \<open>
  The value returned, and what is stored through \<open>from_env_store\<close> and \<open>perm_store\<close> if they are not
  null. \<open>me\<close> is \<open>thisenv\<close>.
\<close>

definition ipc_recv :: "(kstate \<Rightarrow> kstate) \<Rightarrow> nat \<Rightarrow> u32 \<Rightarrow> kstate \<Rightarrow> (int \<times> u32 \<times> u32) kres" where
  "ipc_recv resume me pg s =
     (let pg = (if pg = 0 then UTOP else pg) in
      bindO (u_ipc_recv pg s) (\<lambda>r s.
        let s = (if r = 0 then resume s else s) in
        if r \<noteq> 0 then Ret (-1, 0, 0) s
        else Ret (sint (env_ipc_value (envs s me)), env_ipc_from (envs s me), env_ipc_perm (envs s me)) s))"

text \<open>\<open>None\<close> is sending for ever.\<close>

partial_function (option) ipc_send_loop ::
    "(kstate \<Rightarrow> kstate) \<Rightarrow> u32 \<Rightarrow> u32 \<Rightarrow> u32 \<Rightarrow> u32 \<Rightarrow> kstate \<Rightarrow> unit kres option" where
  "ipc_send_loop resume to_env val pg perm s =
     (case u_ipc_try_send to_env val pg perm s of
        Ret res s \<Rightarrow>
          if res = 0 then Some (Ret () s)
          else if res < 0 \<and> res \<noteq> - E_IPC_NOT_RECV then Some (Panic ''in ipc_send: the send failed'')
          else ipc_send_loop resume to_env val pg perm (resume s)
      | Panic m \<Rightarrow> Some (Panic m)
      | Leave l t \<Rightarrow> Some (Leave l t))"

definition ipc_send :: "(kstate \<Rightarrow> kstate) \<Rightarrow> u32 \<Rightarrow> u32 \<Rightarrow> u32 \<Rightarrow> u32 \<Rightarrow> kstate \<Rightarrow> unit kres option" where
  "ipc_send resume to_env val pg perm s =
     ipc_send_loop resume to_env val (if pg = 0 then KERNBASE else pg) perm s"

definition ipc_find_env :: "EnvType \<Rightarrow> kstate \<Rightarrow> u32" where
  "ipc_find_env ty s =
     (case find (\<lambda>i. env_type (envs s i) = ty) [0..<NENV] of
        None \<Rightarrow> 0
      | Some i \<Rightarrow> env_id (envs s i))"

section \<open>Start, end and console of a program\<close>

definition exit :: "kstate \<Rightarrow> unit kres" where
  "exit s = bindO (u_env_destroy 0 s) (\<lambda>_ s. Ret () s)"

text \<open>\<open>umain\<close> is the main function of the program.\<close>

definition libmain :: "(uvars \<Rightarrow> kstate \<Rightarrow> unit kres) \<Rightarrow> uvars \<Rightarrow> kstate \<Rightarrow> unit kres" where
  "libmain umain u s =
     bindO (u_getenvid s) (\<lambda>env_id s.
       let u = u\<lparr>thisenv := Some (ENVX (of_int env_id))\<rparr> in
       bindO (umain u s) (\<lambda>_ s. exit s))"

partial_function (option) u_getchar :: "(kstate \<Rightarrow> kstate) \<Rightarrow> kstate \<Rightarrow> int kres option" where
  "u_getchar resume s =
     (case u_cgetc s of
        Ret r s \<Rightarrow> if r = 0 then u_getchar resume (resume s) else Some (Ret r s)
      | x \<Rightarrow> Some x)"

text \<open>
  \<open>_panic\<close> of lib/panic.c. The state is what has been passed to \<open>sys_cputs\<close>; \<open>envid\<close> is the answer of
  \<open>sys_getenvid\<close>, \<open>name\<close> the pointer \<open>binaryname\<close>, and the breakpoint instruction enters the monitor of the kernel, which
  never returns (\<open>trap_dispatch\<close>).
\<close>

definition user_panic :: "(nat \<Rightarrow> u8) \<Rightarrow> (u32 \<Rightarrow> u8 option) \<Rightarrow> u32 \<Rightarrow> u32 \<Rightarrow> u32 \<Rightarrow> u32 \<Rightarrow> u8 list \<Rightarrow> (nat \<Rightarrow> u32)
    \<Rightarrow> (printbuf, unit) outcome" where
  "user_panic stack rd envid name file line fmt args =
     bindO (ucprintf stack rd (chars ''[%08x] user panic in %s at %s:%d: '') (\<lambda>i. [envid, name, file, line] ! i)) (\<lambda>_ b1.
     bindO (uvcprintf stack rd fmt args 0) (\<lambda>_ b2.
     bindO (ucprintf stack rd [10] args) (\<lambda>_ b3.
       Leave InMonitor (b3\<lparr>sys_cputs_calls := sys_cputs_calls b1 @ sys_cputs_calls b2 @ sys_cputs_calls b3\<rparr>))))"

lemma formatted_newline: "formatted rd [10] args = Ret () [10]"
  by (simp add: printf_eval collect_def)

theorem user_panic_prints_and_stops:
  assumes "formatted rd (chars ''[%08x] user panic in %s at %s:%d: '') (\<lambda>i. [envid, name, file, line] ! i) = Ret () cs"
    "formatted rd fmt args = Ret () ds"
  shows "\<exists>b. user_panic stack rd envid name file line fmt args = Leave InMonitor b \<and>
    concat (sys_cputs_calls b) = map ucast (cs @ ds @ [10])"
  using user_cprintf_complete [OF assms(1), of stack] user_cprintf_complete [OF assms(2), of stack]
    user_cprintf_complete [OF formatted_newline, of stack rd args]
  by (auto simp: user_panic_def ucprintf_def)

section \<open>The system calls of a program\<close>

lemma syscall_of_sysno: "syscall_of (sysno c) = Some c"
  by (cases c) (simp_all add: syscall_of_def sysno_def syscall_nos_def NSYSCALLS_def)

lemma stub_ok:
  "sys_page_alloc envid va perm s = Ret 0 t \<Longrightarrow> u_page_alloc envid va perm s = Ret 0 t"
  "sys_page_map e1 va e2 vb perm s = Ret 0 t \<Longrightarrow> u_page_map e1 va e2 vb perm s = Ret 0 t"
  "sys_page_unmap envid va s = Ret 0 t \<Longrightarrow> u_page_unmap envid va s = Ret 0 t"
  "sys_page_alloc envid va perm s = Ret (- E_NO_MEM) t \<Longrightarrow> u_page_alloc envid va perm s = Ret (- E_NO_MEM) t"
  "sys_page_map e1 va e2 vb perm s = Ret (- E_NO_MEM) t \<Longrightarrow> u_page_map e1 va e2 vb perm s = Ret (- E_NO_MEM) t"
  by (simp_all add: u_page_alloc_def u_page_map_def u_page_unmap_def usyscall_def syscall_def
      syscall_of_sysno E_NO_MEM_def)

section \<open>Single bits\<close>

lemma flag_bits:
  "x AND PTE_P \<noteq> 0 \<longleftrightarrow> bit x 0" "x AND PTE_W \<noteq> 0 \<longleftrightarrow> bit x 1" "x AND PTE_U \<noteq> 0 \<longleftrightarrow> bit x 2"
  "x AND PTE_COW \<noteq> 0 \<longleftrightarrow> bit x 11" for x :: u32
  by (simp_all add: bit_iff_and_push_bit_not_eq_0 PTE_P_def PTE_W_def PTE_U_def PTE_COW_def)

lemma not_flag_bits:
  "NOT x AND PTE_P \<noteq> 0 \<longleftrightarrow> \<not> bit x 0" "NOT x AND PTE_COW \<noteq> 0 \<longleftrightarrow> \<not> bit x 11" for x :: u32
  by (simp_all add: flag_bits bit_simps)

lemma PGOFF_bit: "n < 12 \<Longrightarrow> bit (PGOFF x) n = bit x n"
  by (simp add: PGOFF_take bit_simps)

section \<open>The user's view of its page tables\<close>

text \<open>
  The directory maps itself at \<open>UVPT\<close>, as \<open>env_setup_vm\<close> makes it, and gives the user access to its
  page tables, as \<open>pgdir_walk\<close> makes them.
\<close>

definition user_view :: "kstate \<Rightarrow> nat \<Rightarrow> bool" where
  "user_view s pd \<longleftrightarrow> pd < 2 ^ 20 \<and> kmem s pd (unat (PDX UVPT)) = (page2pa pd OR PTE_P) OR PTE_U \<and>
     (\<forall>i<NUSER. has_tbl s pd i \<longrightarrow> bit (kmem s pd i) 1 \<and> bit (kmem s pd i) 2)"

lemma block_div: "r < m \<Longrightarrow> (r + m * c) div m = c" "r < m \<Longrightarrow> (r + m * c) mod m = r" for r m c :: nat
  by simp_all

lemma self_entry:
  assumes "user_view s pd"
  shows "bit (kmem s pd 957) 0" "bit (kmem s pd 957) 2" "unat (PGNUM (kmem s pd 957)) = pd"
proof -
  have i: "unat (PDX UVPT) = 957" by (simp add: unat_PDX layout_values)
  have e: "kmem s pd 957 = page2pa pd OR (PTE_P OR PTE_U)"
    using assms by (simp add: user_view_def i or.assoc)
  have "frame_of (kmem s pd 957) = pd"
    unfolding e using assms by (intro frame_of_or) (simp_all add: user_view_def PTE_ADDR_def PTE_P_def PTE_U_def)
  then show "unat (PGNUM (kmem s pd 957)) = pd" by (simp add: frame_of_def)
  show "bit (kmem s pd 957) 0" "bit (kmem s pd 957) 2"
    unfolding e by (simp_all add: bit_simps PTE_P_def PTE_U_def bit_numeral_rec)
qed

lemma u_load32_hit:
  assumes "cr3 s = pd" "bit (kmem s pd (unat (PDX va))) 0" "bit (kmem s pd (unat (PDX va))) 2"
    "bit (kmem s (unat (PGNUM (kmem s pd (unat (PDX va))))) (unat (PTX va))) 0"
    "bit (kmem s (unat (PGNUM (kmem s pd (unat (PDX va))))) (unat (PTX va))) 2"
  shows "u_load32 va s =
    Ret (kmem s (unat (PGNUM (kmem s (unat (PGNUM (kmem s pd (unat (PDX va))))) (unat (PTX va))))) (unat (PGOFF va) div 4)) s"
  using assms flag_bits(1) flag_bits(3) by (simp add: u_load32_def mmu_def Let_def bit_simps)

lemma uvpd_ok:
  assumes "user_view s pd" "cr3 s = pd" "i < 1024"
  shows "uvpd (of_nat i) s = Ret (kmem s pd i) s"
proof -
  let ?va = "UVPT + drop_bit 12 UVPT * 4 + of_nat i * 4"
  have n: "unat ?va = 4 * i + 2 ^ 12 * 980925"
    using assms(3) by (simp add: layout_values unat_word_ariths unat_of_nat take_bit_nat_eq_self_iff)
  have "4 * i < 2 ^ 12" using assms(3) by simp
  note block_div [OF this, of 980925]
  moreover have "(4 * i + 2 ^ 12 * 980925) div 2 ^ 22 = 957" using assms(3) by simp
  ultimately have v: "unat (PDX ?va) = 957" "unat (PTX ?va) = 957" "unat (PGOFF ?va) div 4 = i"
    unfolding unat_PDX unat_PTX unat_PGOFF n by simp_all
  note e = self_entry [OF assms(1)]
  show ?thesis unfolding uvpd_def using u_load32_hit [OF assms(2), of ?va] by (simp only: v e)
qed

lemma PGNUM_split: "unat (PGNUM va) = unat (PTX va) + 1024 * unat (PDX va)"
proof -
  have "unat va div 2 ^ 22 = unat va div 2 ^ 12 div 1024" by (simp flip: div_mult2_eq)
  then show ?thesis
    by (simp add: unat_PGNUM unat_PTX unat_PDX)
qed

lemma uvpt_ok:
  assumes "user_view s pd" "cr3 s = pd" "va < UTOP" "has_tbl s pd (unat (PDX va))"
  shows "uvpt (PGNUM va) s = Ret (pte s pd (unat (PDX va)) (unat (PTX va))) s"
proof -
  let ?i = "unat (PDX va)" and ?j = "unat (PTX va)"
  let ?va = "UVPT + PGNUM va * 4"
  have i: "?i < 955" using user_PDX [OF assms(3)] by (simp add: NUSER_eq)
  have j: "?j < 1024" by simp
  have n0: "unat ?va = 4 * ?j + 2 ^ 12 * (?i + 979968)"
  proof -
    have "?j * 4 + 4096 * ?i < 281018368" using i j by linarith
    then show ?thesis by (simp add: layout_values unat_word_ariths PGNUM_split)
  qed
  have "4 * ?j < 2 ^ 12" using j by simp
  note b = block_div [OF this, of "?i + 979968"]
  have n1: "4 * ?j + 2 ^ 12 * (?i + 979968) = (4 * ?j + 2 ^ 12 * ?i) + 2 ^ 22 * 957" by simp
  have "4 * ?j + 2 ^ 12 * ?i < 2 ^ 22" using i j by (simp del: PTX_less PDX_less)
  note b2 = block_div(1) [OF this, of 957]
  have "(?i + 979968) mod 1024 = ?i" using i by (simp add: mod_if)
  then have v: "unat (PDX ?va) = 957" "unat (PTX ?va) = ?i" "unat (PGOFF ?va) div 4 = ?j"
    unfolding unat_PDX [of ?va] unat_PTX [of ?va] unat_PGOFF [of ?va] n0 using b b2 [folded n1] by simp_all
  note e = self_entry [OF assms(1)]
  have d: "bit (kmem s pd ?i) 0" "bit (kmem s pd ?i) 2"
    using assms(1,4) user_PDX [OF assms(3)] by (auto simp: user_view_def has_tbl_def flag_bits(1))
  have h: "u_load32 ?va s = Ret (kmem s (unat (PGNUM (kmem s pd ?i))) ?j) s"
    using u_load32_hit [OF assms(2), of ?va] d by (simp only: v e)
  show ?thesis unfolding uvpt_def h by (simp add: pte_def tbl_def frame_of_def)
qed

section \<open>What mapping a page does to the directories\<close>

lemma page_insert_dirs:
  assumes ok: "vm_ok s xs A" and pd: "pd \<in> A" and va: "va < UTOP"
    and r: "page_insert pd pp va perm s = Ret 0 t" and q: "q \<in> A"
  shows "kmem t q i = kmem s q i \<or> q = pd \<and> i = unat (PDX va) \<and> (\<exists>p. kmem t q i = pde_for p)"
proof (cases "has_tbl s pd (unat (PDX va))")
  case True
  with pd va have sl: "(pd, unat (PDX va)) \<in> slots s A" by (simp add: slots_def user_PDX)
  then have "tbl s pd (unat (PDX va)) \<notin> A" using ok by (auto simp: vm_ok_def)
  with q have ne: "q \<noteq> tbl s pd (unat (PDX va))" by blast
  from walk_hit [OF ok sl] r ne have "kmem t q = kmem s q" by (intro page_insert_kmem [of pd va s]) auto
  then show ?thesis by simp
next
  case nt: False
  note w = walk_new [OF ok pd va nt]
  show ?thesis
  proof (cases xs)
    case Nil
    with w r show ?thesis by (simp add: page_insert_def E_NO_MEM_def)
  next
    case (Cons p ps)
    with ok have ok': "vm_ok s (p # ps) A" by simp
    let ?s = "with_tbl p pd (unat (PDX va)) s"
    note n = vm_ok_new_tbl [OF ok' pd user_PDX [OF va] nt]
    have sl: "(pd, unat (PDX va)) \<in> slots ?s A" using n(2) by simp
    have tb: "tbl ?s pd (unat (PDX va)) = p" using new_tbl_view(2) [OF ok' pd pd] by simp
    note h = walk_hit [OF n(1) sl, unfolded tb]
    have p: "p \<notin> A" using vm_free_frame(2) [OF ok', of p] by simp
    with q pd have ne: "q \<noteq> p" "p \<noteq> pd" by auto
    from w Cons h r have "page_insert pd pp va perm ?s = Ret 0 t" by (simp add: page_insert_def)
    then have k: "kmem t q = kmem ?s q" using h ne(1) by (intro page_insert_kmem [of pd va ?s]) auto
    show ?thesis
      unfolding k using with_tbl_kmem(2,3) [OF ne(2)] ne(1) by (cases "q = pd") auto
  qed
qed

lemma pde_for_bits: "bit (pde_for p) 0" "bit (pde_for p) 1" "bit (pde_for p) 2"
  by (simp_all add: pde_for_def bit_simps PTE_P_def PTE_W_def PTE_U_def bit_numeral_rec)

lemma user_view_insert:
  assumes "vm_ok s xs A" "pd \<in> A" "va < UTOP" "page_insert pd pp va perm s = Ret 0 t" "q \<in> A" "user_view s q"
  shows "user_view t q"
proof -
  note d = page_insert_dirs [OF assms(1-5)]
  have "unat (PDX UVPT) \<noteq> unat (PDX va)"
    using user_PDX [OF assms(3)] by (simp add: NUSER_eq unat_PDX layout_values)
  with d [of "unat (PDX UVPT)"] assms(6)
  have "kmem t q (unat (PDX UVPT)) = (page2pa q OR PTE_P) OR PTE_U" by (auto simp: user_view_def)
  moreover have "bit (kmem t q i) 1 \<and> bit (kmem t q i) 2" if "i < NUSER" "has_tbl t q i" for i
  proof (cases "kmem t q i = kmem s q i")
    case True
    with that assms(6) show ?thesis by (simp add: user_view_def has_tbl_def)
  next
    case False
    with d [of i] obtain p where "kmem t q i = pde_for p" by blast
    with pde_for_bits [of p] show ?thesis by simp
  qed
  ultimately show ?thesis using assms(6) by (simp add: user_view_def)
qed

lemma mmu_user:
  assumes "vm_ok s xs A" "pd \<in> A" "va < UTOP" "uspace s pd (vpn va) = Some (f, fl)" "user_view s pd"
  shows "\<exists>rights. mmu s pd va = Some (f, rights) \<and> (bit rights 1 \<longleftrightarrow> bit fl 1) \<and> (bit rights 2 \<longleftrightarrow> bit fl 2)"
proof -
  note v = vpn_slot [OF assms(1-4)]
  let ?e = "pte s pd (unat (PDX va)) (unat (PTX va))"
  have h: "has_tbl s pd (unat (PDX va))" using v(1) by (simp add: slots_def)
  then have d: "kmem s pd (unat (PDX va)) AND PTE_P \<noteq> 0" "bit (kmem s pd (unat (PDX va))) 1"
    "bit (kmem s pd (unat (PDX va))) 2"
    using assms(5) user_PDX [OF assms(3)] by (auto simp: user_view_def has_tbl_def)
  have "?e AND PTE_P \<noteq> 0" using vm_pte [OF assms(1) v(1) PTX_NPT v(2)] by simp
  then have "mmu s pd va = Some (f, kmem s pd (unat (PDX va)) AND ?e)"
    using d(1) v(3) by (simp add: mmu_def Let_def pte_def tbl_def frame_of_def)
  with d v(4) PGOFF_bit [of 1 ?e] PGOFF_bit [of 2 ?e] show ?thesis by (auto simp: bit_simps)
qed

section \<open>Sharing a page\<close>

text \<open>Mapping a page where none or the same one was changes the reference count of that page only.\<close>

lemma page_insert_refs:
  assumes ok: "vm_ok s xs A" and pd: "pd \<in> A" and va: "va < UTOP"
    and u: "uspace s pd (vpn va) = None \<or> (\<exists>fl. uspace s pd (vpn va) = Some (pp, fl))"
    and r: "page_insert pd pp va perm s = Ret 0 t" and pp: "0 < pp" "pp < npages s"
    and g: "g \<noteq> pp" "g \<notin> set xs"
  shows "pages t g = pages s g"
proof -
  have hit: "pages t g = pages u g"
    if u: "vm_ok u ys A" "has_tbl u pd (unat (PDX va))" "page_insert pd pp va perm u = Ret 0 t"
      "uspace u pd (vpn va) = None \<or> (\<exists>fl. uspace u pd (vpn va) = Some (pp, fl))" "pp < npages u" for u ys
  proof -
    have sl: "(pd, unat (PDX va)) \<in> slots u A" using slot_va [OF pd va] u(2) by blast
    have p20: "pp < 2 ^ 20" using free_pages_ok_npages [OF vm_free [OF u(1)]] u(5) by simp
    let ?e = "pte u pd (unat (PDX va)) (unat (PTX va))"
    note w = walk_hit [OF u(1) sl, of True]
    show ?thesis
    proof (cases "uspace u pd (vpn va)")
      case None
      have "page2pa pp \<noteq> page2pa 0" using page2pa_inj [OF p20, of 0] pp(1) by simp
      then have "PTE_ADDR 0 \<noteq> page2pa pp" by (simp add: page2pa_def PTE_ADDR_def)
      with u(3) w vpn_unmapped(2) [OF u(1) pd va None u(2)] g(1) show ?thesis
        by (auto simp: page_insert_def pte_def Let_def)
    next
      case (Some m)
      with u(4) obtain fl where "uspace u pd (vpn va) = Some (pp, fl)" by auto
      then have "frame_of ?e = pp" using vpn_slot(3) [OF u(1) pd va] by blast
      then have "PGNUM ?e = PGNUM (page2pa pp)"
        using PGNUM_page2pa [OF p20] by (simp add: frame_of_def word_unat_eq_iff)
      then have "PTE_ADDR ?e = page2pa pp" using PTE_ADDR_eq_PGNUM [of ?e "page2pa pp"] by simp
      with u(3) w show ?thesis by (auto simp: page_insert_def pte_def Let_def)
    qed
  qed
  show ?thesis
  proof (cases "has_tbl s pd (unat (PDX va))")
    case True
    from hit [OF ok True r u pp(2)] show ?thesis .
  next
    case nt: False
    note w = walk_new [OF ok pd va nt]
    show ?thesis
    proof (cases xs)
      case Nil
      with w r show ?thesis by (simp add: page_insert_def E_NO_MEM_def)
    next
      case (Cons p ps)
      with ok have ok': "vm_ok s (p # ps) A" by simp
      let ?s = "with_tbl p pd (unat (PDX va)) s"
      note n = vm_ok_new_tbl [OF ok' pd user_PDX [OF va] nt]
      have us: "uspace ?s pd = uspace s pd"
        by (rule uspace_eqI) (simp_all add: n(5) pd uspace_in uspace_out)
      have h: "has_tbl ?s pd (unat (PDX va))" using n(2) by (auto simp: slots_def)
      have tb: "tbl ?s pd (unat (PDX va)) = p" using new_tbl_view(2) [OF ok' pd pd] by simp
      have "(pd, unat (PDX va)) \<in> slots ?s A" using n(2) by simp
      note w2 = walk_hit [OF n(1) this, of True, unfolded tb]
      from w w2 Cons r have "page_insert pd pp va perm ?s = Ret 0 t" by (simp add: page_insert_def)
      from hit [OF n(1) h this] u pp(2) have "pages t g = pages ?s g" by (simp add: us)
      then show ?thesis using g(2) Cons by (simp add: with_tbl_pages(1))
    qed
  qed
qed

text \<open>
  It takes a frame off the free list exactly if the page table was missing, and that table is the
  only one that is new.
\<close>

lemma vm_ok_same_free:
  assumes "vm_ok s xs A" "vm_ok t ys A" "page_free_list t = page_free_list s"
    "\<And>g. pp_link (pages t g) = pp_link (pages s g)"
  shows "ys = xs"
  using vm_free [OF assms(1)] vm_free [OF assms(2)] assms(3,4)
  by (auto simp: free_pages_ok_def intro: chain_unique)

lemma page_insert_free:
  assumes ok: "vm_ok s xs A" and pd: "pd \<in> A" and va: "va < UTOP"
    and u: "uspace s pd (vpn va) = None \<or> (\<exists>fl. uspace s pd (vpn va) = Some (pp, fl))"
    and r: "page_insert pd pp va perm s = Ret 0 t" and pp: "0 < pp" "pp < npages s" and zs: "vm_ok t zs A"
  shows "zs = (if has_tbl s pd (unat (PDX va)) then xs else tl xs)"
proof -
  have hit: "page_free_list t = page_free_list u \<and> pp_link (pages t g) = pp_link (pages u g)"
    if u: "vm_ok u ys A" "has_tbl u pd (unat (PDX va))" "page_insert pd pp va perm u = Ret 0 t"
      "uspace u pd (vpn va) = None \<or> (\<exists>fl. uspace u pd (vpn va) = Some (pp, fl))" "pp < npages u" for u ys g
  proof -
    have sl: "(pd, unat (PDX va)) \<in> slots u A" using slot_va [OF pd va] u(2) by blast
    have p20: "pp < 2 ^ 20" using free_pages_ok_npages [OF vm_free [OF u(1)]] u(5) by simp
    let ?e = "pte u pd (unat (PDX va)) (unat (PTX va))"
    note w = walk_hit [OF u(1) sl, of True]
    show ?thesis
    proof (cases "uspace u pd (vpn va)")
      case None
      have "page2pa pp \<noteq> page2pa 0" using page2pa_inj [OF p20, of 0] pp(1) by simp
      then have "PTE_ADDR 0 \<noteq> page2pa pp" by (simp add: page2pa_def PTE_ADDR_def)
      with u(3) w vpn_unmapped(2) [OF u(1) pd va None u(2)] show ?thesis
        by (auto simp: page_insert_def pte_def Let_def incref_def)
    next
      case (Some m)
      with u(4) obtain fl where "uspace u pd (vpn va) = Some (pp, fl)" by auto
      then have "frame_of ?e = pp" using vpn_slot(3) [OF u(1) pd va] by blast
      then have "PGNUM ?e = PGNUM (page2pa pp)"
        using PGNUM_page2pa [OF p20] by (simp add: frame_of_def word_unat_eq_iff)
      then have "PTE_ADDR ?e = page2pa pp" using PTE_ADDR_eq_PGNUM [of ?e "page2pa pp"] by simp
      with u(3) w show ?thesis by (auto simp: page_insert_def pte_def Let_def incref_def)
    qed
  qed
  show ?thesis
  proof (cases "has_tbl s pd (unat (PDX va))")
    case True
    from hit [OF ok True r u pp(2)] have "zs = xs" by (intro vm_ok_same_free [OF ok zs]) auto
    with True show ?thesis by simp
  next
    case nt: False
    note w = walk_new [OF ok pd va nt]
    show ?thesis
    proof (cases xs)
      case Nil
      with w r show ?thesis by (simp add: page_insert_def E_NO_MEM_def)
    next
      case (Cons p ps)
      with ok have ok': "vm_ok s (p # ps) A" by simp
      let ?s = "with_tbl p pd (unat (PDX va)) s"
      note n = vm_ok_new_tbl [OF ok' pd user_PDX [OF va] nt]
      have us: "uspace ?s pd = uspace s pd"
        by (rule uspace_eqI) (simp_all add: n(5) pd uspace_in uspace_out)
      have h: "has_tbl ?s pd (unat (PDX va))" using n(2) by (auto simp: slots_def)
      have tb: "tbl ?s pd (unat (PDX va)) = p" using new_tbl_view(2) [OF ok' pd pd] by simp
      have "(pd, unat (PDX va)) \<in> slots ?s A" using n(2) by simp
      note w2 = walk_hit [OF n(1) this, of True, unfolded tb]
      from w w2 Cons r have "page_insert pd pp va perm ?s = Ret 0 t" by (simp add: page_insert_def)
      from hit [OF n(1) h this] u pp(2) have "zs = ps"
        by (intro vm_ok_same_free [OF n(1) zs]) (auto simp: us)
      with nt Cons show ?thesis by simp
    qed
  qed
qed

lemma page_insert_tables:
  assumes ok: "vm_ok s xs A" and pd: "pd \<in> A" and va: "va < UTOP"
    and r: "page_insert pd pp va perm s = Ret 0 t" and t: "vm_ok t ys A" "uspace t pd (vpn va) \<noteq> None" and q: "q \<in> A"
  shows "has_tbl t q i \<longleftrightarrow> has_tbl s q i \<or> q = pd \<and> i = unat (PDX va)"
proof -
  from t(2) obtain f fl where "uspace t pd (vpn va) = Some (f, fl)" by auto
  then have "has_tbl t pd (unat (PDX va))" using vpn_slot(1) [OF t(1) pd va] by (simp add: slots_def)
  moreover have "pde_for p AND PTE_P \<noteq> 0" for p using pde_for_bits(1) [of p] by (simp add: flag_bits)
  ultimately show ?thesis
    using page_insert_dirs [OF ok pd va r q, of i] unfolding has_tbl_def by auto
qed

text \<open>The permissions \<open>fork\<close> uses.\<close>

definition cow_perm :: "u32 \<Rightarrow> u32" where
  "cow_perm fl = (if bit fl 1 \<or> bit fl 11 then (PTE_P OR PTE_U) OR PTE_COW else PTE_P OR PTE_U)"

lemma cow_perm:
  "cow_perm fl AND NOT PTE_SYSCALL = 0" "cow_perm fl AND (PTE_U OR PTE_P) = PTE_U OR PTE_P"
  "PTE_ADDR (cow_perm fl) = 0" "cow_perm fl OR PTE_P = cow_perm fl" "cow_perm fl AND PTE_W = 0"
  by (simp_all add: cow_perm_def PTE_SYSCALL_def PTE_AVAIL_def PTE_P_def PTE_W_def PTE_U_def PTE_COW_def
      PTE_ADDR_def)

lemma rw_perm:
  "((PTE_P OR PTE_U) OR PTE_W) AND NOT PTE_SYSCALL = 0"
  "((PTE_P OR PTE_U) OR PTE_W) AND (PTE_U OR PTE_P) = PTE_U OR PTE_P"
  "PTE_ADDR ((PTE_P OR PTE_U) OR PTE_W) = 0" "((PTE_P OR PTE_U) OR PTE_W) OR PTE_P = (PTE_P OR PTE_U) OR PTE_W"
  by (simp_all add: PTE_SYSCALL_def PTE_AVAIL_def PTE_P_def PTE_W_def PTE_U_def PTE_ADDR_def)

lemma mapped_mappable:
  assumes "vm_ok s xs A" "pd \<in> A" "va < UTOP" "uspace s pd (vpn va) = Some (f, fl)" "0 < f"
    "unat (pp_ref (pages s f)) + 1 < 2 ^ 16"
  shows "mappable s xs A f"
  using vpn_slot [OF assms(1-4)] assms(5,6) by (simp add: mappable_def)

text \<open>What a program and its child look like while the pages are shared.\<close>

definition forking :: "kstate \<Rightarrow> nat \<Rightarrow> nat \<Rightarrow> u32 \<Rightarrow> nat \<Rightarrow> nat \<Rightarrow> bool" where
  "forking s c pd envid d dpd \<longleftrightarrow> curenv s = Some c \<and> env_pgdir (envs s c) = Some pd \<and> cr3 s = pd \<and>
     user_view s pd \<and> envid2env envid True s = Ret (0, Some d) s \<and> env_pgdir (envs s d) = Some dpd \<and>
     dpd \<noteq> pd"

lemma envid2env_same:
  "same_env s t \<Longrightarrow> envid2env envid cp s = Ret r s \<Longrightarrow> envid2env envid cp t = Ret r t"
  using same_env_curenv [of s t] by (auto simp: envid2env_def same_env_def Let_def split: option.splits if_splits)

lemma envid2env_self: "curenv s = Some c \<Longrightarrow> envid2env 0 True s = Ret (0, Some c) s"
  by (simp add: envid2env_def)

lemma PGNUM_address:
  assumes "va AND 0xfff = 0"
  shows "PGNUM va * PGSIZE = va"
proof -
  have "unat (PGOFF va) = 0" using assms by (simp add: PGOFF_def)
  then have "unat va div 2 ^ 12 * 2 ^ 12 = unat va" unfolding unat_PGOFF by (simp add: mod_0_imp_dvd)
  moreover have "unat va < 2 ^ 32" by (rule unat_u32_less)
  ultimately show ?thesis
    by (simp add: word_unat_eq_iff unat_word_ariths unat_PGNUM PGSIZE_def)
qed

lemma in_use: "vm_ok s xs A \<Longrightarrow> pp_ref (pages s g) \<noteq> 0 \<Longrightarrow> g \<notin> set xs"
  using vm_free by (auto simp: free_pages_ok_def)

lemma share_page:
  assumes ok: "vm_ok s xs A" and A: "spd \<in> A" "dpd \<in> A" and va: "va < UTOP" "va AND 0xfff = 0"
    and e: "envid2env e1 True s = Ret (0, Some a) s" "env_pgdir (envs s a) = Some spd"
      "envid2env e2 True s = Ret (0, Some b) s" "env_pgdir (envs s b) = Some dpd"
    and m: "uspace s spd (vpn va) = Some (f, fl)"
    and u: "uspace s dpd (vpn va) = None \<or> (\<exists>fl'. uspace s dpd (vpn va) = Some (f, fl'))"
    and f: "0 < f" "unat (pp_ref (pages s f)) + 1 < 2 ^ 16"
  shows "if has_tbl s dpd (unat (PDX va)) \<or> xs \<noteq> []
    then \<exists>t. u_page_map e1 va e2 va (cow_perm p) s = Ret 0 t \<and>
      vm_ok t (if has_tbl s dpd (unat (PDX va)) then xs else tl xs) A \<and> same_env s t \<and>
      (\<forall>q\<in>A. \<forall>i. has_tbl t q i \<longleftrightarrow> has_tbl s q i \<or> q = dpd \<and> i = unat (PDX va)) \<and>
      (\<forall>q\<in>A. uspace t q = (if q = dpd then (uspace s q)(vpn va \<mapsto> (f, cow_perm p)) else uspace s q)) \<and>
      pp_ref (pages t f) = (if uspace s dpd (vpn va) = None then pp_ref (pages s f) + 1 else pp_ref (pages s f)) \<and>
      (\<forall>g. g \<noteq> f \<longrightarrow> pp_ref (pages s g) \<noteq> 0 \<longrightarrow> pages t g = pages s g) \<and>
      (\<forall>q\<in>A. user_view s q \<longrightarrow> user_view t q)
    else u_page_map e1 va e2 va (cow_perm p) s = Ret (- E_NO_MEM) s"
proof -
  note cp = cow_perm(1,2) [of p]
  note eq = sys_page_map_eq [OF e ok A va(1) va(1) va(2) va(2) cp m]
  have eq: "sys_page_map e1 va e2 va (cow_perm p) s =
      bindO (page_insert dpd f va (cow_perm p) s) (\<lambda>r s. if r \<noteq> 0 then Ret (- E_NO_MEM) s else Ret 0 s)"
    using eq cow_perm(5) [of p] by simp
  note v = vpn_slot [OF ok A(1) va(1) m]
  have mp: "mappable s xs A f" using mapped_mappable [OF ok A(1) va(1) m f] .
  show ?thesis
  proof (cases "has_tbl s dpd (unat (PDX va)) \<or> xs \<noteq> []")
    case False
    with ok page_insert_no_mem [of s A dpd va] A(2) va(1)
    have "page_insert dpd f va (cow_perm p) s = Ret (- E_NO_MEM) s" by simp
    then have "sys_page_map e1 va e2 va (cow_perm p) s = Ret (- E_NO_MEM) s" by (simp add: eq E_NO_MEM_def)
    with False stub_ok(5) show ?thesis by simp
  next
    case True
    from page_insert_success [OF ok A(2) va(1) mp cow_perm(3) [of p] True] obtain t ys where
      t: "page_insert dpd f va (cow_perm p) s = Ret 0 t" "vm_ok t ys A"
      "\<forall>q\<in>A. uspace t q = (if q = dpd then (uspace s q)(vpn va \<mapsto> (f, cow_perm p)) else uspace s q)"
      "pp_ref (pages t f) = (if \<exists>fl. uspace s dpd (vpn va) = Some (f, fl) then pp_ref (pages s f)
        else pp_ref (pages s f) + 1)"
      unfolding cow_perm(4) by blast
    have "vm_ok t (if has_tbl s dpd (unat (PDX va)) then xs else tl xs) A"
      using t(2) page_insert_free [OF ok A(2) va(1) u t(1) f(1) v(5) t(2)] by simp
    moreover have "has_tbl t q i \<longleftrightarrow> has_tbl s q i \<or> q = dpd \<and> i = unat (PDX va)" if "q \<in> A" for q i
      using t(3) A(2) by (intro page_insert_tables [OF ok A(2) va(1) t(1,2) _ that]) simp
    moreover
    have "sys_page_map e1 va e2 va (cow_perm p) s = Ret 0 t" using t(1) by (simp add: eq)
    then have "u_page_map e1 va e2 va (cow_perm p) s = Ret 0 t" by (rule stub_ok(2))
    moreover have "same_env s t" using wlpD [OF page_insert_same t(1)] .
    moreover have "pages t g = pages s g" if "g \<noteq> f" "pp_ref (pages s g) \<noteq> 0" for g
      using page_insert_refs [OF ok A(2) va(1) u t(1) f(1) v(5) that(1)] in_use [OF ok that(2)] by blast
    moreover have "user_view t q" if "q \<in> A" "user_view s q" for q
      using user_view_insert [OF ok A(2) va(1) t(1) that] .
    moreover have "pp_ref (pages t f) =
        (if uspace s dpd (vpn va) = None then pp_ref (pages s f) + 1 else pp_ref (pages s f))"
      using t(4) u by auto
    ultimately show ?thesis using t(3) True by auto
  qed
qed

lemma PTE_W_bit: "x AND PTE_W = 0 \<longleftrightarrow> \<not> bit x 1" and PTE_COW_bit: "x AND PTE_COW = 0 \<longleftrightarrow> \<not> bit x 11"
  and PTE_P_bit: "x AND PTE_P = 0 \<longleftrightarrow> \<not> bit x 0" and PTE_U_bit: "x AND PTE_U = 0 \<longleftrightarrow> \<not> bit x 2" for x :: u32
  using flag_bits [of x] by auto

lemma duppage_ok:
  assumes fk: "forking s c pd envid d dpd" and ok: "vm_ok s xs A" and A: "pd \<in> A" "dpd \<in> A"
    and va: "va < UTOP" "va AND 0xfff = 0" and m: "uspace s pd (vpn va) = Some (f, fl)"
    and n: "uspace s dpd (vpn va) = None" and f: "0 < f" "unat (pp_ref (pages s f)) + 2 < 2 ^ 16"
  shows "if has_tbl s dpd (unat (PDX va)) \<or> xs \<noteq> []
    then \<exists>t. duppage envid (PGNUM va) s = Ret 0 t \<and>
      vm_ok t (if has_tbl s dpd (unat (PDX va)) then xs else tl xs) A \<and> forking t c pd envid d dpd \<and> same_env s t \<and>
      (\<forall>i. has_tbl t dpd i \<longleftrightarrow> has_tbl s dpd i \<or> i = unat (PDX va)) \<and>
      (\<forall>q\<in>A. uspace t q = (if q = dpd \<or> q = pd \<and> (bit fl 1 \<or> bit fl 11)
         then (uspace s q)(vpn va \<mapsto> (f, cow_perm fl)) else uspace s q)) \<and>
      pp_ref (pages t f) = pp_ref (pages s f) + 1 \<and>
      (\<forall>g. g \<noteq> f \<longrightarrow> pp_ref (pages s g) \<noteq> 0 \<longrightarrow> pages t g = pages s g)
    else \<exists>m. duppage envid (PGNUM va) s = Panic m"
proof -
  from fk have k: "curenv s = Some c" "env_pgdir (envs s c) = Some pd" "cr3 s = pd" "user_view s pd"
    "envid2env envid True s = Ret (0, Some d) s" "env_pgdir (envs s d) = Some dpd" "dpd \<noteq> pd"
    by (simp_all add: forking_def)
  note v = vpn_slot [OF ok A(1) va(1) m]
  have ht: "has_tbl s pd (unat (PDX va))" using v(1) by (simp add: slots_def)
  let ?e = "pte s pd (unat (PDX va)) (unat (PTX va))"
  have up: "uvpt (PGNUM va) s = Ret ?e s" using uvpt_ok [OF k(4,3) va(1) ht] .
  have b: "bit ?e 1 = bit fl 1" "bit ?e 11 = bit fl 11"
    using PGOFF_bit [of 1 ?e] PGOFF_bit [of 11 ?e] v(4) by simp_all
  have f1: "unat (pp_ref (pages s f)) + 1 < 2 ^ 16" using f(2) by simp
  note ad = PGNUM_address [OF va(2)]
  have e0: "envid2env 0 True s = Ret (0, Some c) s" by (rule envid2env_self [OF k(1)])
  have fork_t: "forking t c pd envid d dpd" if "same_env s t" "user_view t pd" for t
    using that k envid2env_same [OF that(1) k(5)] same_env_curenv [OF that(1)]
    by (simp add: forking_def same_env_def)
  define cow where "cow \<longleftrightarrow> bit fl 1 \<or> bit fl 11"
  have cp: "cow_perm fl = (if cow then (PTE_P OR PTE_U) OR PTE_COW else PTE_P OR PTE_U)"
    by (simp add: cow_perm_def cow_def)
  have d: "duppage envid (PGNUM va) s = (if cow then
      bindO (u_page_map 0 va envid va (cow_perm fl) s) (\<lambda>r s.
        if r \<noteq> 0 then Panic ''in fork.c: the sys_page_map for a COW page to the child env failed''
        else bindO (u_page_map 0 va 0 va (cow_perm fl) s) (\<lambda>r s.
          if r \<noteq> 0 then Panic ''in fork.c: the sys_page_map for a COW page to the parent env failed''
          else Ret 0 s))
    else bindO (u_page_map 0 va envid va (cow_perm fl) s) (\<lambda>r s.
        if r \<noteq> 0 then Panic ''in fork.c: the sys_page_map for an RO page to the child env failed''
        else Ret 0 s))"
    unfolding duppage_def Let_def ad up bindO.simps PTE_W_bit PTE_COW_bit cp
    using b by (cases "bit fl 1"; cases "bit fl 11") (simp_all add: cow_def up PTE_COW_bit)
  note sh = share_page [OF ok A va e0 k(2,5,6) m disjI1 [OF n] f(1) f1, of fl]
  show ?thesis
  proof (cases "has_tbl s dpd (unat (PDX va)) \<or> xs \<noteq> []")
    case False
    with sh have "u_page_map 0 va envid va (cow_perm fl) s = Ret (- E_NO_MEM) s" by simp
    with False show ?thesis by (simp add: d E_NO_MEM_def)
  next
    case room: True
    let ?ys = "if has_tbl s dpd (unat (PDX va)) then xs else tl xs"
    from sh [unfolded if_P [OF room]] obtain t where
      t: "u_page_map 0 va envid va (cow_perm fl) s = Ret 0 t" "vm_ok t ?ys A" "same_env s t"
      "\<And>q. q \<in> A \<Longrightarrow> uspace t q = (if q = dpd then (uspace s q)(vpn va \<mapsto> (f, cow_perm fl)) else uspace s q)"
      "pp_ref (pages t f) = pp_ref (pages s f) + 1"
      "\<And>g. g \<noteq> f \<Longrightarrow> pp_ref (pages s g) \<noteq> 0 \<Longrightarrow> pages t g = pages s g" "user_view t pd"
      "\<And>q i. q \<in> A \<Longrightarrow> has_tbl t q i \<longleftrightarrow> has_tbl s q i \<or> q = dpd \<and> i = unat (PDX va)"
      using n A(1) k(4) by auto
    note ft = fork_t [OF t(3,7)]
    show ?thesis
    proof (cases cow)
      case False
      then have "duppage envid (PGNUM va) s = Ret 0 t" by (simp add: d t(1))
      moreover have "\<forall>q\<in>A. uspace t q = (if q = dpd \<or> q = pd \<and> (bit fl 1 \<or> bit fl 11)
         then (uspace s q)(vpn va \<mapsto> (f, cow_perm fl)) else uspace s q)"
        using t(4) False by (auto simp: cow_def)
      ultimately show ?thesis unfolding if_P [OF room] using t A(2) ft by blast
    next
      case True
      from ft have kt: "curenv t = Some c" "env_pgdir (envs t c) = Some pd" by (simp_all add: forking_def)
      have mt: "uspace t pd (vpn va) = Some (f, fl)" using t(4) [OF A(1)] m k(7) by simp
      have ut: "uspace t pd (vpn va) = None \<or> (\<exists>fl'. uspace t pd (vpn va) = Some (f, fl'))" using mt by simp
      have "unat (pp_ref (pages t f)) + 1 < 2 ^ 16" using t(5) unat_inc [OF f1] f(2) by simp
      note sh2 = share_page [OF t(2) A(1) A(1) va envid2env_self [OF kt(1)] kt(2) envid2env_self [OF kt(1)] kt(2) mt ut f(1) this, of fl]
      have h: "has_tbl t pd (unat (PDX va))" using t(8) [OF A(1)] ht by simp
      from sh2 h obtain t' where
        u: "u_page_map 0 va 0 va (cow_perm fl) t = Ret 0 t'" "vm_ok t' ?ys A" "same_env t t'"
          "\<forall>q\<in>A. uspace t' q = (if q = pd then (uspace t q)(vpn va \<mapsto> (f, cow_perm fl)) else uspace t q)"
          "pp_ref (pages t' f) = (if uspace t pd (vpn va) = None then pp_ref (pages t f) + 1 else pp_ref (pages t f))"
          "\<forall>g. g \<noteq> f \<longrightarrow> pp_ref (pages t g) \<noteq> 0 \<longrightarrow> pages t' g = pages t g"
          "\<forall>q\<in>A. user_view t q \<longrightarrow> user_view t' q"
          "\<forall>q\<in>A. \<forall>i. has_tbl t' q i \<longleftrightarrow> has_tbl t q i \<or> q = pd \<and> i = unat (PDX va)" by auto
      have "duppage envid (PGNUM va) s = Ret 0 t'" using True by (simp add: d t(1) u(1))
      moreover have "same_env s t'" using same_env_trans [OF t(3) u(3)] .
      moreover from this have "forking t' c pd envid d dpd" using u(7) t(7) A(1) by (intro fork_t) auto
      moreover have "\<forall>q\<in>A. uspace t' q = (if q = dpd \<or> q = pd \<and> (bit fl 1 \<or> bit fl 11)
          then (uspace s q)(vpn va \<mapsto> (f, cow_perm fl)) else uspace s q)"
        using t(4) u(4) True k(7) by (auto simp: cow_def)
      moreover have "pp_ref (pages t' f) = pp_ref (pages s f) + 1" using u(5) t(5) mt by simp
      moreover have "pages t' g = pages s g" if "g \<noteq> f" "pp_ref (pages s g) \<noteq> 0" for g
        using u(6) t(6) that by simp
      moreover have "has_tbl t' dpd i \<longleftrightarrow> has_tbl s dpd i \<or> i = unat (PDX va)" for i
        using u(8) t(8) A(2) k(7) by auto
      ultimately show ?thesis unfolding if_P [OF room] using u(2) by blast
    qed
  qed
qed

section \<open>Fork\<close>

declare fork_pages.simps [simp del]

lemma fork_pages_step:
  assumes fk: "forking t c pd envid d dpd" and va: "va < USTACKTOP"
  shows "fork_pages envid va t =
    (if case uspace t pd (vpn va) of None \<Rightarrow> False | Some (f, fl) \<Rightarrow> bit fl 2
     then bindO (duppage envid (PGNUM va) t) (\<lambda>_. fork_pages envid (va + PGSIZE))
     else fork_pages envid (va + PGSIZE) t)"
proof -
  from fk have k: "cr3 t = pd" "user_view t pd" by (simp_all add: forking_def)
  have u: "va < UTOP" using va by (simp add: layout_values word_less_nat_alt)
  have d: "uvpd (PDX va) t = Ret (kmem t pd (unat (PDX va))) t"
    using uvpd_ok [OF k(2,1) PDX_less, of va] by simp
  let ?e = "pte t pd (unat (PDX va)) (unat (PTX va))"
  have us: "uspace t pd (vpn va) = (if has_tbl t pd (unat (PDX va)) \<and> ?e AND PTE_P \<noteq> 0
      then Some (frame_of ?e, PGOFF ?e) else None)"
    using uspace_vpn [OF u, of t pd] by (simp add: amap_def vpn_def)
  show ?thesis
  proof (cases "has_tbl t pd (unat (PDX va))")
    case False
    then have "kmem t pd (unat (PDX va)) AND PTE_P = 0" by (simp add: has_tbl_def)
    with False d us va show ?thesis by (subst fork_pages.simps) simp
  next
    case True
    then have p: "kmem t pd (unat (PDX va)) AND PTE_P \<noteq> 0" by (simp add: has_tbl_def)
    note e = uvpt_ok [OF k(2,1) u True]
    have b: "bit (PGOFF ?e) 2 = bit ?e 2" by (rule PGOFF_bit) simp
    have "fork_pages envid va t = bindO (if bit ?e 0 \<and> bit ?e 2
        then bindO (duppage envid (PGNUM va) t) (\<lambda>_ s. Ret () s) else Ret () t) (\<lambda>_. fork_pages envid (va + PGSIZE))"
      using va d p e by (subst fork_pages.simps) (simp add: PTE_P_bit PTE_U_bit)
    then show ?thesis using True us b by (simp add: PTE_P_bit bindO_assoc)
  qed
qed

definition pgidx :: "nat \<times> nat \<Rightarrow> nat" where "pgidx v = fst v * 1024 + snd v"

lemma pgidx_vpn: "pgidx (vpn va) = unat (PGNUM va)"
  by (simp add: pgidx_def vpn_def PGNUM_split)

lemma pgidx_inj: "snd v < 1024 \<Longrightarrow> snd w < 1024 \<Longrightarrow> pgidx v = pgidx w \<Longrightarrow> v = w"
proof -
  have "fst v = pgidx v div 1024 \<and> snd v = pgidx v mod 1024" if "snd v < 1024" for v
    using that by (simp add: pgidx_def)
  then show "snd v < 1024 \<Longrightarrow> snd w < 1024 \<Longrightarrow> pgidx v = pgidx w \<Longrightarrow> v = w"
    by (metis prod_eqI)
qed

text \<open>What the parent and the child map after the first \<open>k\<close> pages, from what the parent mapped.\<close>

type_synonym umap = "nat \<times> nat \<Rightarrow> (nat \<times> u32) option"

definition parent_map :: "nat \<Rightarrow> umap \<Rightarrow> umap" where
  "parent_map k m = (\<lambda>v. case m v of None \<Rightarrow> None
     | Some (f, fl) \<Rightarrow> Some (f, if pgidx v < k \<and> bit fl 2 \<and> (bit fl 1 \<or> bit fl 11) then cow_perm fl else fl))"

definition child_map :: "nat \<Rightarrow> umap \<Rightarrow> umap" where
  "child_map k m = (\<lambda>v. case m v of None \<Rightarrow> None
     | Some (f, fl) \<Rightarrow> if pgidx v < k \<and> bit fl 2 then Some (f, cow_perm fl) else None)"

text \<open>How often a frame will still be shared from page \<open>k\<close> on.\<close>

definition sharings :: "umap \<Rightarrow> nat \<Rightarrow> nat \<Rightarrow> (nat \<times> nat) set" where
  "sharings m f k = {v. k \<le> pgidx v \<and> (\<exists>fl. m v = Some (f, fl) \<and> bit fl 2)}"

definition fork_inv :: "umap \<Rightarrow> kstate \<Rightarrow> kstate \<Rightarrow> nat list \<Rightarrow> nat set \<Rightarrow> nat \<Rightarrow> nat \<Rightarrow> nat \<Rightarrow> bool" where
  "fork_inv m s t ys A pd dpd k \<longleftrightarrow> vm_ok t ys A \<and> same_env s t \<and>
     uspace t pd = parent_map k m \<and> uspace t dpd = child_map k m \<and>
     (\<forall>q\<in>A - {pd, dpd}. uspace t q = uspace s q) \<and>
     (\<forall>f. f \<in> fst ` ran m \<longrightarrow> unat (pp_ref (pages t f)) + card (sharings m f k) + 1 < 2 ^ 16)"

lemma umap_dom: "finite (dom (uspace s pd))" "v \<in> dom (uspace s pd) \<Longrightarrow> snd v < 1024"
proof -
  have d: "dom (uspace s pd) \<subseteq> {..<NUSER} \<times> {..<NPTENTRIES}" by (auto simp: uspace_def restrict_map_def split: if_splits)
  then show "finite (dom (uspace s pd))" by (rule finite_subset) simp
  show "v \<in> dom (uspace s pd) \<Longrightarrow> snd v < 1024" using d by (auto simp: NPTENTRIES_def)
qed

lemma finite_sharings: "finite (dom m) \<Longrightarrow> finite (sharings m f k)"
  by (rule finite_subset [of _ "dom m"]) (auto simp: sharings_def)

lemma pgidx_Suc:
  assumes "\<forall>v\<in>dom m. snd v < 1024" "m v = Some x" "pgidx w = k" "snd w < 1024"
  shows "pgidx v < Suc k \<longleftrightarrow> pgidx v < k \<or> v = w"
  using assms pgidx_inj [of v w] by (auto simp: less_Suc_eq)

lemma fork_inv_skip:
  assumes inv: "fork_inv m s t ys A pd dpd k" and dm: "finite (dom m)" "\<forall>v\<in>dom m. snd v < 1024"
    and w: "pgidx w = k" "snd w < 1024" "m w = None \<or> (\<exists>f fl. m w = Some (f, fl) \<and> \<not> bit fl 2)"
  shows "fork_inv m s t ys A pd dpd (Suc k)"
proof -
  have p: "pgidx v < Suc k \<and> bit fl 2 \<longleftrightarrow> pgidx v < k \<and> bit fl 2" if "m v = Some (f, fl)" for v f fl
    using pgidx_Suc [OF dm(2) that w(1,2)] that w(3) by auto
  have "parent_map (Suc k) m = parent_map k m" "child_map (Suc k) m = child_map k m"
    unfolding parent_map_def child_map_def fun_eq_iff using p by (auto split: option.split)
  moreover have "unat (pp_ref (pages t g)) + card (sharings m g (Suc k)) + 1 < 2 ^ 16"
    if "g \<in> fst ` ran m" for g
  proof -
    have "card (sharings m g (Suc k)) \<le> card (sharings m g k)"
      by (rule card_mono [OF finite_sharings [OF dm(1)]]) (auto simp: sharings_def)
    moreover have "unat (pp_ref (pages t g)) + card (sharings m g k) + 1 < 2 ^ 16"
      using inv that by (simp add: fork_inv_def)
    ultimately show ?thesis by linarith
  qed
  ultimately show ?thesis using inv by (simp add: fork_inv_def)
qed

lemma fork_inv_dup:
  assumes inv: "fork_inv m s t ys A pd dpd k" and dm: "finite (dom m)" "\<forall>v\<in>dom m. snd v < 1024"
    and w: "pgidx w = k" "snd w < 1024" "m w = Some (f, fl)" "bit fl 2"
    and t: "vm_ok t' zs A" "same_env t t'" "dpd \<noteq> pd" "pd \<in> A" "dpd \<in> A"
      "\<forall>q\<in>A. uspace t' q = (if q = dpd \<or> q = pd \<and> (bit fl 1 \<or> bit fl 11)
         then (uspace t q)(w \<mapsto> (f, cow_perm fl)) else uspace t q)"
      "pp_ref (pages t' f) = pp_ref (pages t f) + 1"
      "\<forall>g. g \<noteq> f \<longrightarrow> pp_ref (pages t g) \<noteq> 0 \<longrightarrow> pages t' g = pages t g"
    and nz: "\<forall>g\<in>fst ` ran m. pp_ref (pages t g) \<noteq> 0"
  shows "fork_inv m s t' zs A pd dpd (Suc k)"
proof -
  have p: "pgidx v < Suc k \<longleftrightarrow> pgidx v < k \<or> v = w" if "m v = Some x" for v x
    using pgidx_Suc [OF dm(2) that w(1,2)] .
  from inv have i: "same_env s t" "uspace t pd = parent_map k m" "uspace t dpd = child_map k m"
    "\<forall>q\<in>A - {pd, dpd}. uspace t q = uspace s q"
    "\<And>g. g \<in> fst ` ran m \<Longrightarrow> unat (pp_ref (pages t g)) + card (sharings m g k) + 1 < 2 ^ 16"
    by (auto simp: fork_inv_def)
  have "uspace t' pd = parent_map (Suc k) m"
  proof
    fix v
    show "uspace t' pd v = parent_map (Suc k) m v"
      using t(3,4,6) w p [of v] i(2) by (cases "m v") (auto simp: parent_map_def)
  qed
  moreover have "uspace t' dpd = child_map (Suc k) m"
  proof
    fix v
    show "uspace t' dpd v = child_map (Suc k) m v"
      using t(5,6) w p [of v] i(3) by (cases "m v") (auto simp: child_map_def)
  qed
  moreover have "\<forall>q\<in>A - {pd, dpd}. uspace t' q = uspace s q" using t(6) i(4) by simp
  moreover have "unat (pp_ref (pages t' g)) + card (sharings m g (Suc k)) + 1 < 2 ^ 16"
    if "g \<in> fst ` ran m" for g
  proof (cases "g = f")
    case True
    have "sharings m f k = insert w (sharings m f (Suc k))"
    proof (rule set_eqI)
      fix v
      show "v \<in> sharings m f k \<longleftrightarrow> v \<in> insert w (sharings m f (Suc k))"
        using w p [of v] by (cases "m v") (auto simp: sharings_def not_less [symmetric])
    qed
    moreover have "w \<notin> sharings m f (Suc k)" using w(1) by (simp add: sharings_def)
    ultimately have c: "card (sharings m f k) = Suc (card (sharings m f (Suc k)))"
      using finite_sharings [OF dm(1)] by simp
    have "unat (pp_ref (pages t f) + 1) = unat (pp_ref (pages t f)) + 1"
      using i(5) [OF that] True by (intro unat_inc) simp
    with i(5) [OF that] c True show ?thesis unfolding True t(7) by simp
  next
    case False
    have "card (sharings m g (Suc k)) \<le> card (sharings m g k)"
      by (rule card_mono [OF finite_sharings [OF dm(1)]]) (auto simp: sharings_def)
    moreover have "pages t' g = pages t g" using t(8) nz that False by blast
    ultimately show ?thesis using i(5) [OF that] by simp
  qed
  moreover have "same_env s t'" using same_env_trans [OF i(1) t(2)] .
  ultimately show ?thesis using t(1) by (simp add: fork_inv_def)
qed

lemma USTACKTOP_page: "unat (PGNUM USTACKTOP) = 977918" "unat USTACKTOP = 4096 * 977918" "USTACKTOP < UTOP"
  by (simp_all add: layout_values unat_PGNUM)

lemma uspace_ref:
  assumes "vm_ok s xs A" "pd \<in> A" "uspace s pd v = Some (f, fl)"
  shows "pp_ref (pages s f) \<noteq> 0"
proof -
  obtain i j where v: "v = (i, j)" by (cases v)
  with assms(3) have "i < NUSER" "j < NPTENTRIES" "has_tbl s pd i" "pte s pd i j AND PTE_P \<noteq> 0"
    "frame_of (pte s pd i j) = f"
    by (auto simp: uspace_def restrict_map_def amap_def split: if_splits)
  with assms(2) have "(pd, i, j) \<in> mappers s A f" by (simp add: mappers_def slots_def)
  with vm_mapped_ref [OF assms(1)] show ?thesis by blast
qed

text \<open>
  The page tables the child still lacks from page \<open>k\<close> on: each takes a frame.
\<close>

definition tables_needed :: "umap \<Rightarrow> kstate \<Rightarrow> nat \<Rightarrow> nat \<Rightarrow> nat set" where
  "tables_needed m s dpd k = {i. \<not> has_tbl s dpd i \<and>
     (\<exists>v f fl. m v = Some (f, fl) \<and> bit fl 2 \<and> fst v = i \<and> k \<le> pgidx v \<and> pgidx v < unat (PGNUM USTACKTOP))}"

lemma tables_needed_skip:
  assumes dm: "\<forall>v\<in>dom m. snd v < 1024" and w: "pgidx w = k" "snd w < 1024"
    "m w = None \<or> (\<exists>f fl. m w = Some (f, fl) \<and> \<not> bit fl 2)"
  shows "tables_needed m s dpd (Suc k) = tables_needed m s dpd k"
proof -
  have "Suc k \<le> pgidx v \<longleftrightarrow> k \<le> pgidx v" if "m v = Some (f, fl)" "bit fl 2" for v f fl
    using pgidx_Suc [OF dm that(1) w(1,2)] that w(3) by (auto simp: not_less [symmetric])
  then show ?thesis unfolding tables_needed_def by blast
qed

lemma tables_needed_dup:
  assumes dm: "\<forall>v\<in>dom m. snd v < 1024" and w: "pgidx w = k" "snd w < 1024" "m w = Some (f, fl)" "bit fl 2"
    "k < unat (PGNUM USTACKTOP)" and t: "\<forall>i. has_tbl t dpd i \<longleftrightarrow> has_tbl s dpd i \<or> i = fst w"
  shows "tables_needed m s dpd k = (if has_tbl s dpd (fst w) then tables_needed m t dpd (Suc k)
      else insert (fst w) (tables_needed m t dpd (Suc k)))"
    "fst w \<notin> tables_needed m t dpd (Suc k)"
proof -
  have p: "k \<le> pgidx v \<longleftrightarrow> Suc k \<le> pgidx v \<or> v = w" if "m v = Some x" for v x
    using pgidx_Suc [OF dm that w(1,2)] w(1) by (metis not_less less_irrefl)
  let ?P = "\<lambda>k i. \<exists>v f fl. m v = Some (f, fl) \<and> bit fl 2 \<and> fst v = i \<and> k \<le> pgidx v \<and> pgidx v < unat (PGNUM USTACKTOP)"
  have P: "?P k i \<longleftrightarrow> ?P (Suc k) i \<or> i = fst w" for i
    using p w by metis
  have T: "tables_needed m s dpd k = {i. \<not> has_tbl s dpd i \<and> (?P (Suc k) i \<or> i = fst w)}"
    unfolding tables_needed_def P ..
  have U: "tables_needed m t dpd (Suc k) = {i. \<not> (has_tbl s dpd i \<or> i = fst w) \<and> ?P (Suc k) i}"
    unfolding tables_needed_def using t by simp
  show "tables_needed m s dpd k = (if has_tbl s dpd (fst w) then tables_needed m t dpd (Suc k)
      else insert (fst w) (tables_needed m t dpd (Suc k)))"
    unfolding T U by auto
  show "fst w \<notin> tables_needed m t dpd (Suc k)" unfolding U by simp
qed

lemma finite_tables: "finite (dom m) \<Longrightarrow> finite (tables_needed m s dpd k)"
  by (rule finite_subset [of _ "fst ` dom m"]) (force simp: tables_needed_def)+

lemma fork_loop:
  assumes "forking t c pd envid d dpd" "fork_inv m s t ys A pd dpd k" "pd \<in> A" "dpd \<in> A"
    "finite (dom m)" "\<forall>v\<in>dom m. snd v < 1024" "0 \<notin> fst ` ran m" "unat va = 4096 * k" "k \<le> 977918"
  shows "if card (tables_needed m t dpd k) \<le> length ys
    then \<exists>u zs. fork_pages envid va t = Ret () u \<and> forking u c pd envid d dpd \<and> fork_inv m s u zs A pd dpd 977918
    else \<exists>msg. fork_pages envid va t = Panic msg"
  using assms
proof (induction "977918 - k" arbitrary: k va t ys)
  case 0
  then have "k = 977918" by simp
  moreover from this 0 have "\<not> va < USTACKTOP" by (simp add: word_less_nat_alt USTACKTOP_page)
  moreover have "tables_needed m t dpd 977918 = {}"
    unfolding tables_needed_def USTACKTOP_page(1) by auto
  ultimately show ?case using 0 by (subst (1 2) fork_pages.simps) auto
next
  case (Suc n)
  note inv = Suc.prems(2)
  have va: "va < USTACKTOP" using Suc.hyps(2) Suc.prems(8) by (simp add: word_less_nat_alt USTACKTOP_page)
  then have u: "va < UTOP" using USTACKTOP_page(3) by simp
  have al: "va AND 0xfff = 0"
    using Suc.prems(8) by (simp add: PGOFF_def [symmetric] word_unat_eq_iff unat_PGOFF)
  have w: "pgidx (vpn va) = k" "snd (vpn va) < 1024"
    using Suc.prems(8) by (simp_all add: pgidx_vpn unat_PGNUM) (simp add: vpn_def)
  have nx: "unat (va + PGSIZE) = 4096 * Suc k" "Suc k \<le> 977918" "n = 977918 - Suc k"
    using Suc.hyps(2) Suc.prems(8,9) by (simp_all add: unat_word_ariths PGSIZE_def)
  have ne: "dpd \<noteq> pd" using Suc.prems(1) by (simp add: forking_def)
  have pm: "uspace t pd (vpn va) = m (vpn va)" "uspace t dpd (vpn va) = None"
    using inv w(1) by (auto simp: fork_inv_def parent_map_def child_map_def split: option.split)
  have ok: "vm_ok t ys A" using inv by (simp add: fork_inv_def)
  note st = fork_pages_step [OF Suc.prems(1) va, unfolded pm(1)]
  show ?case
  proof (cases "case m (vpn va) of None \<Rightarrow> False | Some (f, fl) \<Rightarrow> bit fl 2")
    case False
    then have "m (vpn va) = None \<or> (\<exists>f fl. m (vpn va) = Some (f, fl) \<and> \<not> bit fl 2)"
      by (auto split: option.splits)
    note iv = fork_inv_skip [OF inv Suc.prems(5,6) w this] and nd = tables_needed_skip [OF Suc.prems(6) w this]
    have "fork_pages envid va t = fork_pages envid (va + PGSIZE) t" using st False by simp
    with Suc.hyps(1) [OF nx(3) Suc.prems(1) iv Suc.prems(3-7) nx(1,2)] show ?thesis unfolding nd by (simp only:)
  next
    case True
    then obtain f fl where f: "m (vpn va) = Some (f, fl)" "bit fl 2" by (auto split: option.splits)
    then have fr: "f \<in> fst ` ran m" using ranI [of m "vpn va" "(f, fl)"] by force
    then have f0: "0 < f" using Suc.prems(7) by (metis gr0I)
    have "vpn va \<in> sharings m f k" using f w by (simp add: sharings_def)
    then have "0 < card (sharings m f k)" using finite_sharings [OF Suc.prems(5)] card_gt_0_iff by blast
    moreover have "unat (pp_ref (pages t f)) + card (sharings m f k) + 1 < 2 ^ 16"
      using inv fr by (simp add: fork_inv_def)
    ultimately have r: "unat (pp_ref (pages t f)) + 2 < 2 ^ 16" by linarith
    have nz: "\<forall>g\<in>fst ` ran m. pp_ref (pages t g) \<noteq> 0"
    proof
      fix g assume "g \<in> fst ` ran m"
      then obtain v fl' where "m v = Some (g, fl')" by (auto simp: ran_def)
      then have "\<exists>fl. uspace t pd v = Some (g, fl)" using inv by (auto simp: fork_inv_def parent_map_def)
      then show "pp_ref (pages t g) \<noteq> 0" using uspace_ref [OF ok Suc.prems(3)] by blast
    qed
    note dup = duppage_ok [OF Suc.prems(1) ok Suc.prems(3,4) u al pm(1) [unfolded f(1)] pm(2) f0 r]
    have fw: "fst (vpn va) = unat (PDX va)" by (simp add: vpn_def)
    have kl: "k < unat (PGNUM USTACKTOP)" using Suc.hyps(2) unfolding USTACKTOP_page(1) by simp
    note fin = finite_tables [OF Suc.prems(5)]
    show ?thesis
    proof (cases "has_tbl t dpd (unat (PDX va)) \<or> ys \<noteq> []")
      case False
      with dup obtain msg where "duppage envid (PGNUM va) t = Panic msg" by auto
      then have "fork_pages envid va t = Panic msg" using st True by simp
      moreover have "unat (PDX va) \<in> tables_needed m t dpd k"
        unfolding tables_needed_def using f w kl fw False by blast
      then have "0 < card (tables_needed m t dpd k)" using fin card_gt_0_iff by blast
      ultimately show ?thesis using False by simp
    next
      case room: True
      let ?zs = "if has_tbl t dpd (unat (PDX va)) then ys else tl ys"
      from dup [unfolded if_P [OF room]] obtain t' where
        t: "duppage envid (PGNUM va) t = Ret 0 t'" "vm_ok t' ?zs A" "forking t' c pd envid d dpd" "same_env t t'"
        "\<forall>i. has_tbl t' dpd i \<longleftrightarrow> has_tbl t dpd i \<or> i = unat (PDX va)"
        "\<forall>q\<in>A. uspace t' q = (if q = dpd \<or> q = pd \<and> (bit fl 1 \<or> bit fl 11)
           then (uspace t q)(vpn va \<mapsto> (f, cow_perm fl)) else uspace t q)"
        "pp_ref (pages t' f) = pp_ref (pages t f) + 1"
        "\<forall>g. g \<noteq> f \<longrightarrow> pp_ref (pages t g) \<noteq> 0 \<longrightarrow> pages t' g = pages t g" by blast
      note inv' = fork_inv_dup [OF inv Suc.prems(5,6) w f t(2,4) ne Suc.prems(3,4) t(6-8) nz]
      note td = tables_needed_dup [OF Suc.prems(6) w f kl, unfolded fw, OF t(5)]
      have "card (tables_needed m t dpd k) \<le> length ys \<longleftrightarrow> card (tables_needed m t' dpd (Suc k)) \<le> length ?zs"
        using td fin room by (cases ys) auto
      moreover have "fork_pages envid va t = fork_pages envid (va + PGSIZE) t'" using st True t(1) by simp
      ultimately show ?thesis
        using Suc.hyps(1) [OF nx(3) t(3) inv' Suc.prems(3-7) nx(1,2)] by (simp only:)
    qed
  qed
qed

text \<open>
  C28: \<open>fork\<close> gives the child a copy on write of the parent's memory: after its loop the child maps
  the very frames the parent maps for the user below the stack's top, at the same addresses; what
  the parent could write, or had marked already, is marked copy-on-write and read-only in both, the
  rest is read-only in the child; and no other process's memory changes. The loop succeeds exactly if
  there is a free frame for each page table the child needs for this and lacks; otherwise the
  program panics.
\<close>

theorem fork_shares_memory:
  assumes "forking s c pd envid d dpd" "vm_ok s xs A" "pd \<in> A" "dpd \<in> A" "uspace s dpd = Map.empty"
  defines "m \<equiv> uspace s pd"
  assumes "\<forall>f\<in>fst ` ran m. 0 < f \<and> unat (pp_ref (pages s f)) + card (sharings m f 0) + 1 < 2 ^ 16"
  shows "if card (tables_needed m s dpd 0) \<le> length xs
    then \<exists>t ys. fork_pages envid 0 s = Ret () t \<and> vm_ok t ys A \<and>
      uspace t pd = parent_map (unat (PGNUM USTACKTOP)) m \<and>
      uspace t dpd = child_map (unat (PGNUM USTACKTOP)) m \<and>
      (\<forall>q\<in>A - {pd, dpd}. uspace t q = uspace s q)
    else \<exists>msg. fork_pages envid 0 s = Panic msg"
proof -
  have "parent_map 0 m = m" "child_map 0 m = Map.empty"
    by (auto simp: parent_map_def child_map_def fun_eq_iff split: option.split)
  then have i: "fork_inv m s s xs A pd dpd 0"
    using assms(2,5,7) by (auto simp: fork_inv_def m_def)
  have z: "0 \<notin> fst ` ran m" using assms(7) by blast
  have "finite (dom m)" "\<forall>v\<in>dom m. snd v < 1024" "unat (0 :: u32) = 4096 * 0" "0 \<le> (977918 :: nat)"
    using umap_dom(1) [of s pd] umap_dom(2) [of _ s pd] by (simp_all add: m_def)
  from fork_loop [OF assms(1) i assms(3,4) this(1,2) z this(3,4)] show ?thesis
    unfolding USTACKTOP_page(1) fork_inv_def by (auto split: if_splits)
qed

section \<open>The fault on a shared page\<close>

lemma mmu_in_page:
  assumes "va AND 0xfff = 0" "k < 1024"
  shows "mmu s q (va + of_nat (4 * k)) = mmu s q va" "unat (PGOFF (va + of_nat (4 * k))) div 4 = k"
proof -
  have o: "unat va mod 4096 = 0"
    using assms(1) unat_PGOFF [of va] by (simp add: PGOFF_def)
  define b where "b = unat va div 4096"
  have b: "unat va = 4096 * b" "b < 1048576"
    using o unat_u32_less [of va] by (auto simp: b_def)
  have "unat (of_nat (4 * k) :: u32) = 4 * k"
    using assms(2) by (simp add: unat_of_nat take_bit_nat_eq_self_iff del: of_nat_mult)
  then have u: "unat (va + of_nat (4 * k)) = 4 * k + 4096 * b" using b assms(2) by (simp add: unat_word_ariths)
  have l: "4 * k < 4096" using assms(2) by simp
  note d = block_div [OF l, of b]
  have q: "x div 4194304 = x div 4096 div 1024" for x :: nat by (simp flip: div_mult2_eq)
  have "PDX (va + of_nat (4 * k)) = PDX va" "PTX (va + of_nat (4 * k)) = PTX va"
    unfolding word_unat_eq_iff unat_PDX unat_PTX u b(1) by (simp_all add: d q)
  then show "mmu s q (va + of_nat (4 * k)) = mmu s q va" by (simp only: mmu_def)
  show "unat (PGOFF (va + of_nat (4 * k))) div 4 = k" unfolding unat_PGOFF u using l by simp
qed

text \<open>Frame \<open>p\<close> does not take part in the translation of \<open>va\<close>.\<close>

definition off_path :: "kstate \<Rightarrow> u32 \<Rightarrow> nat \<Rightarrow> bool" where
  "off_path s va p \<longleftrightarrow> p \<noteq> cr3 s \<and> p \<noteq> unat (PGNUM (kmem s (cr3 s) (unat (PDX va))))"

lemma off_path_wr:
  "off_path s va p \<Longrightarrow> mmu (wr_word p i w s) (cr3 s) va = mmu s (cr3 s) va \<and> off_path (wr_word p i w s) va p"
  by (auto simp: off_path_def mmu_def wr_word_def Let_def)

lemma u_copy_words_ok:
  assumes "d AND 0xfff = 0" "s AND 0xfff = 0" "mmu t (cr3 t) d = Some (p, r)" "bit r 1" "bit r 2"
    "mmu t (cr3 t) s = Some (f, r')" "bit r' 2" "off_path t d p" "off_path t s p" "f \<noteq> p" "k + n \<le> 1024"
  shows "u_copy_words (d + of_nat (4 * k)) (s + of_nat (4 * k)) n t =
    Ret () (t\<lparr>kmem := (kmem t)(p := \<lambda>j. if k \<le> j \<and> j < k + n then kmem t f j else kmem t p j)\<rparr>)"
  using assms(3-11)
proof (induction n arbitrary: k t)
  case 0
  have "(\<lambda>j. if k \<le> j \<and> j < k + 0 then kmem t f j else kmem t p j) = kmem t p" by (auto simp: fun_eq_iff)
  then show ?case by (simp only: u_copy_words.simps fun_upd_triv) simp
next
  case (Suc n)
  have k: "k < 1024" "Suc k + n \<le> 1024" using Suc.prems(9) by simp_all
  note md = mmu_in_page [OF assms(1) k(1)] and ms = mmu_in_page [OF assms(2) k(1)]
  let ?t = "wr_word p k (kmem t f k) t"
  have ld: "u_load32 (s + of_nat (4 * k)) t = Ret (kmem t f k) t"
    using Suc.prems(4,5) unfolding u_load32_def ms by (simp add: PTE_U_bit)
  have sd: "u_store32 (d + of_nat (4 * k)) w t = Ret () (wr_word p k w t)" for w
    using Suc.prems(1-3) unfolding u_store32_def md by (simp add: PTE_U_bit PTE_W_bit)
  note o = off_path_wr [OF Suc.prems(6), of k "kmem t f k"] off_path_wr [OF Suc.prems(7), of k "kmem t f k"]
  have c: "cr3 ?t = cr3 t" by simp
  have "u_copy_words (d + of_nat (4 * Suc k)) (s + of_nat (4 * Suc k)) n ?t =
      Ret () (?t\<lparr>kmem := (kmem ?t)(p := \<lambda>j. if Suc k \<le> j \<and> j < Suc k + n then kmem ?t f j else kmem ?t p j)\<rparr>)"
    using Suc.prems o k(2) by (intro Suc.IH) (simp_all add: c)
  moreover have "?t\<lparr>kmem := (kmem ?t)(p := \<lambda>j. if Suc k \<le> j \<and> j < Suc k + n then kmem ?t f j else kmem ?t p j)\<rparr> =
      t\<lparr>kmem := (kmem t)(p := \<lambda>j. if k \<le> j \<and> j < k + Suc n then kmem t f j else kmem t p j)\<rparr>"
    using Suc.prems(8) by (auto simp: wr_word_def fun_eq_iff intro!: arg_cong [where f = "\<lambda>x. t\<lparr>kmem := x\<rparr>"])
  moreover have "d + of_nat (4 * k) + 4 = d + of_nat (4 * Suc k)" "s + of_nat (4 * k) + 4 = s + of_nat (4 * Suc k)"
    by simp_all
  ultimately show ?case by (simp only: u_copy_words.simps ld sd bindO.simps)
qed

abbreviation rw :: u32 where "rw \<equiv> (PTE_P OR PTE_U) OR PTE_W"

lemma rw_bits: "bit rw 1" "bit rw 2" "rw AND PTE_W \<noteq> 0"
  by (simp_all add: bit_simps PTE_P_def PTE_W_def PTE_U_def bit_numeral_rec)

lemma popped_user_view: "p \<noteq> pd \<Longrightarrow> user_view (popped f p s) pd = user_view s pd"
  by (simp add: user_view_def has_tbl_def)

text \<open>A new page for the program itself.\<close>

lemma alloc_page_ok:
  assumes ok: "vm_ok s xs A" and pd: "pd \<in> A" and z: "0 \<notin> set xs" and c: "curenv s = Some c"
    "env_pgdir (envs s c) = Some pd" and va: "va < UTOP" "va AND 0xfff = 0"
    and n: "uspace s pd (vpn va) = None" and uv: "user_view s pd"
  shows "if xs \<noteq> [] \<and> (has_tbl s pd (unat (PDX va)) \<or> 2 \<le> length xs)
    then \<exists>p t ys. p \<in> set xs \<and> u_page_alloc 0 va rw s = Ret 0 t \<and> vm_ok t ys A \<and> same_env s t \<and>
      (\<forall>q\<in>A. uspace t q = (if q = pd then (uspace s q)(vpn va \<mapsto> (p, rw)) else uspace s q)) \<and>
      pp_ref (pages t p) = 1 \<and> user_view t pd \<and>
      (\<forall>g. g \<notin> structural s A \<longrightarrow> g \<notin> set xs \<longrightarrow> kmem t g = kmem s g)
    else \<exists>t. u_page_alloc 0 va rw s = Ret (- E_NO_MEM) t"
proof (cases xs)
  case Nil
  with page_alloc_Nil [of s] vm_free [OF ok] c va rw_perm(1,2)
  have "sys_page_alloc 0 va rw s = Ret (- E_NO_MEM) s"
    using legal_perm(2) [OF rw_perm(1,2)]
    by (simp add: va(1) [folded not_le] sys_page_alloc_def E_BAD_ENV_def envid2env_def)
  from stub_ok(4) [OF this] Nil show ?thesis by simp
next
  case (Cons p ps)
  with ok have ok': "vm_ok s (p # ps) A" by simp
  note l = legal_perm(2) [OF rw_perm(1,2)]
  note eq = sys_page_alloc_eq [OF envid2env_self [OF c(1)] c(2) ok' va l rw_perm(2)]
  note pop = vm_ok_popped [OF ok']
  let ?s = "popped 1 p s"
  have pA: "p \<notin> A" using vm_free_frame(2) [OF ok'] by simp
  have "p < npages s" using vm_free [OF ok'] by (simp add: free_pages_ok_def)
  then have m: "mappable ?s ps A p" using pop(3-6) z Cons by (simp add: mappable_def)
  have uv': "user_view ?s pd" using uv popped_user_view [of p pd 1 s] pA pd by auto
  have n': "uspace ?s pd (vpn va) = None" using n pop(2) [OF pd] by simp
  have h: "has_tbl ?s pd i \<longleftrightarrow> has_tbl s pd i" for i
    using pA pd popped_simps(4) [of pd p 1 s] by (cases "pd = p") (auto simp: has_tbl_def)
  show ?thesis
  proof (cases "has_tbl s pd (unat (PDX va)) \<or> ps \<noteq> []")
    case False
    with page_insert_no_mem [of ?s A pd va] pop(1) pd va(1) h
    have "page_insert pd p va rw ?s = Ret (- E_NO_MEM) ?s" by simp
    then have "sys_page_alloc 0 va rw s = Ret (- E_NO_MEM) ?s" using eq by (simp add: E_NO_MEM_def)
    from stub_ok(4) [OF this] False Cons show ?thesis by simp
  next
    case True
    then have "has_tbl ?s pd (unat (PDX va)) \<or> ps \<noteq> []" by (simp add: h)
    from page_insert_success [OF pop(1) pd va(1) m rw_perm(3) this] obtain t ys where
      t: "page_insert pd p va rw ?s = Ret 0 t" "vm_ok t ys A"
      "\<forall>q\<in>A. uspace t q = (if q = pd then (uspace ?s q)(vpn va \<mapsto> (p, rw OR PTE_P)) else uspace ?s q)"
      "pp_ref (pages t p) = (if \<exists>fl. uspace ?s pd (vpn va) = Some (p, fl) then pp_ref (pages ?s p)
        else pp_ref (pages ?s p) + 1)" by blast
    have "same_env s ?s" by (simp add: same_env_def popped_def upd_page_def zero_page_def Let_def)
    then have "same_env s t" using same_env_trans wlpD [OF page_insert_same t(1)] by blast
    moreover have "sys_page_alloc 0 va rw s = Ret 0 t" using eq t(1) by simp
    then have "u_page_alloc 0 va rw s = Ret 0 t" by (rule stub_ok(1))
    moreover have "kmem t g = kmem s g" if "g \<notin> structural s A" "g \<notin> set xs" for g
      using page_insert_keeps [OF pop(1) pd va(1) t(1), of g] that Cons pop(3) by simp
    moreover have "user_view t pd" using user_view_insert [OF pop(1) pd va(1) t(1) pd uv'] .
    moreover have "\<forall>q\<in>A. uspace t q = (if q = pd then (uspace s q)(vpn va \<mapsto> (p, rw)) else uspace s q)"
      using t(3) pop(2) unfolding rw_perm(4) by auto
    moreover have "pp_ref (pages t p) = 1" using t(4) n' pop(6) by simp
    moreover have r: "xs \<noteq> [] \<and> (has_tbl s pd (unat (PDX va)) \<or> 2 \<le> length xs)"
      using True Cons by (cases ps) auto
    ultimately show ?thesis unfolding if_P [OF r] using t(2) Cons by (metis list.set_intros(1))
  qed
qed

text \<open>Mapping one of its pages at another of its addresses.\<close>

lemma remap_page_ok:
  assumes ok: "vm_ok s xs A" and pd: "pd \<in> A" and c: "curenv s = Some c" "env_pgdir (envs s c) = Some pd"
    and va: "va < UTOP" "va AND 0xfff = 0" and vb: "vb < UTOP" "vb AND 0xfff = 0"
    and m: "uspace s pd (vpn va) = Some (p, rw)" and p: "0 < p" "unat (pp_ref (pages s p)) + 1 < 2 ^ 16"
    and n: "\<not> (\<exists>fl. uspace s pd (vpn vb) = Some (p, fl))" and h: "has_tbl s pd (unat (PDX vb))"
  shows "\<exists>t ys. u_page_map 0 va 0 vb rw s = Ret 0 t \<and> vm_ok t ys A \<and> same_env s t \<and>
      (\<forall>q\<in>A. uspace t q = (if q = pd then (uspace s q)(vpn vb \<mapsto> (p, rw)) else uspace s q)) \<and>
      pp_ref (pages t p) = pp_ref (pages s p) + 1 \<and>
      (\<forall>g. g \<notin> structural s A \<longrightarrow> g \<notin> set xs \<longrightarrow> kmem t g = kmem s g)"
proof -
  note e = envid2env_self [OF c(1)]
  note eq = sys_page_map_eq [OF e c(2) e c(2) ok pd pd va(1) vb(1) va(2) vb(2) rw_perm(1,2) m]
  have eq: "sys_page_map 0 va 0 vb rw s =
      bindO (page_insert pd p vb rw s) (\<lambda>r s. if r \<noteq> 0 then Ret (- E_NO_MEM) s else Ret 0 s)"
    using eq rw_bits(3) by simp
  have mp: "mappable s xs A p" using mapped_mappable [OF ok pd va(1) m p] .
  from page_insert_success [OF ok pd vb(1) mp rw_perm(3) disjI1 [OF h]] obtain t ys where
    t: "page_insert pd p vb rw s = Ret 0 t" "vm_ok t ys A"
      "\<forall>q\<in>A. uspace t q = (if q = pd then (uspace s q)(vpn vb \<mapsto> (p, rw OR PTE_P)) else uspace s q)"
      "pp_ref (pages t p) = (if \<exists>fl. uspace s pd (vpn vb) = Some (p, fl) then pp_ref (pages s p)
        else pp_ref (pages s p) + 1)" by blast
  have "sys_page_map 0 va 0 vb rw s = Ret 0 t" using t(1) by (simp add: eq)
  then have "u_page_map 0 va 0 vb rw s = Ret 0 t" by (rule stub_ok(2))
  moreover have "same_env s t" using wlpD [OF page_insert_same t(1)] .
  moreover have "kmem t g = kmem s g" if "g \<notin> structural s A" "g \<notin> set xs" for g
    using page_insert_keeps [OF ok pd vb(1) t(1) that] .
  ultimately show ?thesis using t(2,3) t(4) n unfolding rw_perm(4) by auto
qed

lemma uspace_apart:
  assumes "vm_ok s xs A" "pd \<in> A" "uspace s pd v = Some (f, fl)"
  shows "f \<notin> structural s A" "f \<notin> set xs"
proof -
  obtain i j where v: "v = (i, j)" by (cases v)
  with assms(3) have "i < NUSER" "j < NPTENTRIES" "has_tbl s pd i" "pte s pd i j AND PTE_P \<noteq> 0"
    "frame_of (pte s pd i j) = f"
    by (auto simp: uspace_def restrict_map_def amap_def split: if_splits)
  with assms(2) have "(pd, i, j) \<in> mappers s A f" by (simp add: mappers_def slots_def)
  then show "f \<notin> structural s A" using vm_mapped_struct [OF assms(1)] by blast
  show "f \<notin> set xs" using in_use [OF assms(1) uspace_ref [OF assms]] .
qed

text \<open>The end of the handler: the copy is moved into place.\<close>

lemma move_page_ok:
  assumes ok: "vm_ok s xs A" and pd: "pd \<in> A" and c: "curenv s = Some c" "env_pgdir (envs s c) = Some pd"
    and va: "va < UTOP" "va AND 0xfff = 0" and vb: "vb < UTOP" "vb AND 0xfff = 0" and ne: "vpn va \<noteq> vpn vb"
    and m: "uspace s pd (vpn va) = Some (p, rw)" and p: "0 < p" "pp_ref (pages s p) = 1"
    and n: "\<not> (\<exists>fl. uspace s pd (vpn vb) = Some (p, fl))" and h: "has_tbl s pd (unat (PDX vb))"
  shows "\<exists>u t ys. u_page_map 0 va 0 vb rw s = Ret 0 u \<and> u_page_unmap 0 va u = Ret 0 t \<and> vm_ok t ys A \<and>
      (\<forall>q\<in>A. uspace t q = (if q = pd then (uspace s q)(vpn va := None, vpn vb \<mapsto> (p, rw)) else uspace s q)) \<and>
      (\<forall>q\<in>A. \<forall>v g fl. uspace s q v = Some (g, fl) \<longrightarrow> (q, v) \<noteq> (pd, vpn vb) \<longrightarrow> kmem t g = kmem s g)"
proof -
  have r: "unat (pp_ref (pages s p)) + 1 < 2 ^ 16" using p(2) by simp
  from remap_page_ok [OF ok pd c va vb m p(1) r n h] obtain u zs where
    u: "u_page_map 0 va 0 vb rw s = Ret 0 u" "vm_ok u zs A" "same_env s u"
    "\<forall>q\<in>A. uspace u q = (if q = pd then (uspace s q)(vpn vb \<mapsto> (p, rw)) else uspace s q)"
    "pp_ref (pages u p) = pp_ref (pages s p) + 1"
    "\<forall>g. g \<notin> structural s A \<longrightarrow> g \<notin> set xs \<longrightarrow> kmem u g = kmem s g" by blast
  have cu: "curenv u = Some c" "env_pgdir (envs u c) = Some pd"
    using c u(3) same_env_curenv [OF u(3)] by (simp_all add: same_env_def)
  have mu: "uspace u pd (vpn va) = Some (p, rw)" using u(4) pd m ne by simp
  from sys_page_unmap_unmaps [OF envid2env_self [OF cu(1)] cu(2) u(2) pd va mu] obtain t ys where
    t: "sys_page_unmap 0 va u = Ret 0 t" "vm_ok t ys A"
      "\<forall>q\<in>A. uspace t q = (if q = pd then (uspace u q)(vpn va := None) else uspace u q)" by blast
  note v = vpn_slot [OF u(2) pd va(1) mu]
  have "kmem t g = kmem s g"
    if g: "q \<in> A" "uspace s q x = Some (g, fl)" "(q, x) \<noteq> (pd, vpn vb)" for q x g fl
  proof -
    have "uspace u q x = Some (g, fl)" using u(4) g by auto
    note b = uspace_apart [OF ok g(1,2)] uspace_apart(1) [OF u(2) g(1) this]
    have "page_remove pd va u = Ret () t"
      using t(1) cu va by (auto simp: sys_page_unmap_def envid2env_self [OF cu(1)] deref_def with_pgdir_def
        va(1) [folded not_le] bindO_eq_Ret)
    moreover have "g \<noteq> tbl u pd (unat (PDX va))" using b(3) structuralI(2) [OF v(1)] by blast
    ultimately have "kmem t g = kmem u g" using page_remove_kmem [OF walk_hit [OF u(2) v(1)]] by blast
    then show ?thesis using u(6) b(1,2) by simp
  qed
  moreover have "u_page_unmap 0 va u = Ret 0 t" using t(1) by (rule stub_ok(3))
  ultimately show ?thesis
    using u t(2,3) ne by (intro exI [of _ u] exI [of _ t] exI [of _ ys]) (auto simp: fun_upd_twist)
qed

lemma mmu_off_path:
  assumes "vm_ok s xs A" "pd \<in> A" "va < UTOP" "uspace s pd (vpn va) = Some (f, fl)" "cr3 s = pd"
    "p \<notin> structural s A"
  shows "off_path s va p"
  using vpn_slot(1) [OF assms(1-4)] structuralI(1) [OF assms(2)] structuralI(2) assms(5,6)
  by (auto simp: off_path_def tbl_def frame_of_def)

lemma PFTEMP_facts: "PFTEMP < UTOP" "PFTEMP AND 0xfff = 0"
  by (simp_all add: layout_values)

lemma page_base:
  assumes "va < UTOP"
  shows "vpn (ROUNDDOWN va PGSIZE) = vpn va" "ROUNDDOWN va PGSIZE < UTOP" "ROUNDDOWN va PGSIZE AND 0xfff = 0"
proof -
  have u: "unat (ROUNDDOWN va PGSIZE) = unat va - unat va mod 4096"
    by (simp add: unat_ROUNDDOWN PGSIZE_def)
  then have q: "unat (ROUNDDOWN va PGSIZE) = unat va div 4096 * 4096" by (simp add: minus_mod_eq_div_mult)
  then have "PGNUM (ROUNDDOWN va PGSIZE) = PGNUM va" by (simp add: word_unat_eq_iff unat_PGNUM)
  then show "vpn (ROUNDDOWN va PGSIZE) = vpn va" by (simp add: vpn_eq)
  show "ROUNDDOWN va PGSIZE < UTOP" using assms u by (simp add: word_less_nat_alt)
  show "ROUNDDOWN va PGSIZE AND 0xfff = 0"
    using q by (simp add: PGOFF_def [symmetric] word_unat_eq_iff unat_PGOFF)
qed

text \<open>The handler after its checks, which a write fault at a copy-on-write page passes.\<close>

definition pgfault_copy :: "u32 \<Rightarrow> kstate \<Rightarrow> unit kres" where
  "pgfault_copy addr s =
     bindO (u_page_alloc 0 PFTEMP rw s) (\<lambda>r s.
       if r \<noteq> 0 then Panic ''in fork.c: the sys_page_alloc failed''
       else bindO (u_copy_words PFTEMP (ROUNDDOWN addr PGSIZE) 1024 s) (\<lambda>_ s.
         bindO (u_page_map 0 PFTEMP 0 (ROUNDDOWN addr PGSIZE) rw s) (\<lambda>r s.
           if r \<noteq> 0 then Panic ''in fork.c: the sys_page_map failed''
           else bindO (u_page_unmap 0 PFTEMP s) (\<lambda>r s.
             if r \<noteq> 0 then Panic ''in fork.c: the sys_page_unmap failed'' else Ret () s))))"

lemma pgfault_checks:
  assumes "vm_ok s xs A" "pd \<in> A" "cr3 s = pd" "user_view s pd" "addr < UTOP" "err AND FEC_WR \<noteq> 0"
    "uspace s pd (vpn addr) = Some (f, fl)" "fl AND PTE_COW \<noteq> 0"
  shows "pgfault addr err s = pgfault_copy addr s"
proof -
  note v = vpn_slot [OF assms(1,2,5,7)]
  have ht: "has_tbl s pd (unat (PDX addr))" using v(1) by (simp add: slots_def)
  let ?e = "pte s pd (unat (PDX addr)) (unat (PTX addr))"
  have d: "uvpd (PDX addr) s = Ret (kmem s pd (unat (PDX addr))) s"
    using uvpd_ok [OF assms(4,3) PDX_less, of addr] by simp
  note t = uvpt_ok [OF assms(4,3,5) ht]
  have b: "bit ?e 0" "bit ?e 11" "bit (kmem s pd (unat (PDX addr))) 0"
    using vm_pte [OF assms(1) v(1) PTX_NPT v(2)] assms(8) v(4) PGOFF_bit [of 11 ?e] ht
    by (auto simp: flag_bits has_tbl_def)
  have "FEC_WR = PTE_W" by (simp add: FEC_WR_def PTE_W_def)
  then have wr: "NOT err AND FEC_WR = 0" using assms(6) by (simp add: flag_bits PTE_W_bit bit_simps)
  show ?thesis using b wr by (simp add: pgfault_def pgfault_copy_def d t not_flag_bits)
qed

text \<open>The copy, with the new page already at \<open>PFTEMP\<close>.\<close>

lemma copy_page_ok:
  assumes ok: "vm_ok t ys A" and pd: "pd \<in> A" and c: "curenv t = Some c" "env_pgdir (envs t c) = Some pd"
      "cr3 t = pd" and uv: "user_view t pd" and a: "addr < UTOP"
    and mp: "uspace t pd (vpn PFTEMP) = Some (p, rw)" and mf: "uspace t pd (vpn addr) = Some (f, fl)"
    and fl: "fl AND PTE_U \<noteq> 0" and p: "f \<noteq> p" "0 < p" "pp_ref (pages t p) = 1"
  shows "\<exists>u v z zs. u_copy_words PFTEMP (ROUNDDOWN addr PGSIZE) 1024 t = Ret () u \<and>
    u_page_map 0 PFTEMP 0 (ROUNDDOWN addr PGSIZE) rw u = Ret 0 v \<and> u_page_unmap 0 PFTEMP v = Ret 0 z \<and> vm_ok z zs A \<and>
    (\<forall>q\<in>A. uspace z q = (if q = pd then (uspace t q)(vpn PFTEMP := None, vpn addr \<mapsto> (p, rw)) else uspace t q)) \<and>
    (\<forall>j<1024. kmem z p j = kmem t f j) \<and>
    (\<forall>q\<in>A. \<forall>v g fl. uspace t q v = Some (g, fl) \<longrightarrow> g \<noteq> p \<longrightarrow> (q, v) \<noteq> (pd, vpn addr) \<longrightarrow> kmem z g = kmem t g)"
proof -
  let ?a = "ROUNDDOWN addr PGSIZE"
  note a = page_base [OF a]
  have ne: "vpn PFTEMP \<noteq> vpn addr" using mp mf p(1) by auto
  have mf': "uspace t pd (vpn ?a) = Some (f, fl)" using mf a(1) by simp
  note pa = uspace_apart [OF ok pd mp]
  obtain r where r: "mmu t pd PFTEMP = Some (p, r)" "bit r 1" "bit r 2"
    using mmu_user [OF ok pd PFTEMP_facts(1) mp uv] rw_bits by auto
  obtain r' where r': "mmu t pd ?a = Some (f, r')" "bit r' 2"
    using mmu_user [OF ok pd a(2) mf' uv] fl by (auto simp: flag_bits)
  note o = mmu_off_path [OF ok pd PFTEMP_facts(1) mp c(3) pa(1)] mmu_off_path [OF ok pd a(2) mf' c(3) pa(1)]
  define u where "u = t\<lparr>kmem := (kmem t)(p := \<lambda>j. if j < 1024 then kmem t f j else kmem t p j)\<rparr>"
  have cp: "u_copy_words PFTEMP ?a 1024 t = Ret () u"
    using u_copy_words_ok [OF PFTEMP_facts(2) a(3), of t p r f r' 0 1024] r r' o p(1) c(3) by (simp add: u_def)
  note w = vm_ok_write [OF ok pa(1), where g = "\<lambda>j. if j < 1024 then kmem t f j else kmem t p j", folded u_def]
  have cu: "curenv u = Some c" "env_pgdir (envs u c) = Some pd" using c by (simp_all add: u_def curenv_def)
  have mu: "uspace u pd (vpn PFTEMP) = Some (p, rw)" "\<not> (\<exists>fl. uspace u pd (vpn ?a) = Some (p, fl))"
    "uspace u pd (vpn ?a) = Some (f, fl)"
    using mp mf' p(1) by (simp_all add: w(3) [OF pd])
  have h: "has_tbl u pd (unat (PDX ?a))" using vpn_slot(1) [OF w(1) pd a(2) mu(3)] by (simp add: slots_def)
  have pu: "pp_ref (pages u p) = 1" using p(3) by (simp add: u_def)
  from move_page_ok [OF w(1) pd cu PFTEMP_facts a(2,3) ne [folded a(1)] mu(1) p(2) pu mu(2) h] obtain v z zs where
    z: "u_page_map 0 PFTEMP 0 ?a rw u = Ret 0 v" "u_page_unmap 0 PFTEMP v = Ret 0 z" "vm_ok z zs A"
      "\<forall>q\<in>A. uspace z q = (if q = pd then (uspace u q)(vpn PFTEMP := None, vpn ?a \<mapsto> (p, rw)) else uspace u q)"
      "\<forall>q\<in>A. \<forall>v g fl. uspace u q v = Some (g, fl) \<longrightarrow> (q, v) \<noteq> (pd, vpn ?a) \<longrightarrow> kmem z g = kmem u g" by blast
  have "kmem z p j = kmem t f j" if "j < 1024" for j
  proof -
    have "(pd, vpn PFTEMP) \<noteq> (pd, vpn ?a)" using ne a(1) by simp
    then have "kmem z p = kmem u p" using z(5) pd mu(1) by blast
    then show ?thesis using that by (simp add: u_def)
  qed
  moreover have "kmem z g = kmem t g"
    if g: "q \<in> A" "uspace t q x = Some (g, fl')" "g \<noteq> p" "(q, x) \<noteq> (pd, vpn addr)" for q x g fl'
  proof -
    have "uspace u q x = Some (g, fl')" using w(3) g(1,2) by simp
    then have "kmem z g = kmem u g" using z(5) g(1,4) unfolding a(1) by blast
    then show ?thesis using g(3) by (simp add: u_def)
  qed
  moreover have "\<forall>q\<in>A. uspace z q =
      (if q = pd then (uspace t q)(vpn PFTEMP := None, vpn addr \<mapsto> (p, rw)) else uspace t q)"
    using z(4) w(3) a(1) by simp
  ultimately show ?thesis using cp z(1-3) by blast
qed

text \<open>
  C29: The first write to a page shared by \<open>fork\<close> gives the writer a copy of its own: the handler,
  called on a write fault at a copy-on-write page, puts a frame that was free, with the same
  contents, in the place of the page, writable, and changes no other mapping of any process, and no
  memory another process maps. It does so whenever a frame is free, and a second one if the
  temporary page it copies through still lacks a page table; otherwise, and only then, it panics.
\<close>

theorem pgfault_copies_page:
  assumes "vm_ok s xs A" "pd \<in> A" "0 \<notin> set xs" "curenv s = Some c" "env_pgdir (envs s c) = Some pd" "cr3 s = pd"
    "user_view s pd" "addr < UTOP" "err AND FEC_WR \<noteq> 0" "uspace s pd (vpn addr) = Some (f, fl)"
    "fl AND PTE_COW \<noteq> 0" "fl AND PTE_U \<noteq> 0" "uspace s pd (vpn PFTEMP) = None"
  shows "if xs \<noteq> [] \<and> (has_tbl s pd (unat (PDX PFTEMP)) \<or> 2 \<le> length xs)
    then \<exists>p t ys. p \<in> set xs \<and> pgfault addr err s = Ret () t \<and> vm_ok t ys A \<and>
      (\<forall>q\<in>A. uspace t q =
        (if q = pd then (uspace s q)(vpn addr \<mapsto> (p, (PTE_P OR PTE_U) OR PTE_W)) else uspace s q)) \<and>
      (\<forall>j<1024. kmem t p j = kmem s f j) \<and>
      (\<forall>q\<in>A - {pd}. \<forall>v g fl. uspace s q v = Some (g, fl) \<longrightarrow> kmem t g = kmem s g)
    else \<exists>msg. pgfault addr err s = Panic msg"
proof (cases "xs \<noteq> [] \<and> (has_tbl s pd (unat (PDX PFTEMP)) \<or> 2 \<le> length xs)")
  note run = pgfault_checks [OF assms(1,2,6-11)]
  note al = alloc_page_ok [OF assms(1-5) PFTEMP_facts assms(13,7)]
  {
    case False
    with al obtain t where "u_page_alloc 0 PFTEMP rw s = Ret (- E_NO_MEM) t" by (auto split: if_splits)
    with False show ?thesis by (auto simp: run pgfault_copy_def E_NO_MEM_def)
  next
    case True
    from al [unfolded if_P [OF True]] obtain p t ys where
      t: "p \<in> set xs" "u_page_alloc 0 PFTEMP rw s = Ret 0 t" "vm_ok t ys A" "same_env s t"
      "\<forall>q\<in>A. uspace t q = (if q = pd then (uspace s q)(vpn PFTEMP \<mapsto> (p, rw)) else uspace s q)"
      "pp_ref (pages t p) = 1" "user_view t pd"
      "\<forall>g. g \<notin> structural s A \<longrightarrow> g \<notin> set xs \<longrightarrow> kmem t g = kmem s g" by blast
    have ne: "vpn PFTEMP \<noteq> vpn addr" using assms(10,13) by auto
    have m: "uspace t pd (vpn PFTEMP) = Some (p, rw)" "uspace t pd (vpn addr) = Some (f, fl)"
      using t(5) assms(2,10) ne by auto
    have ct: "curenv t = Some c" "env_pgdir (envs t c) = Some pd" "cr3 t = pd"
      using assms(4-6) t(4) same_env_curenv [OF t(4)] by (simp_all add: same_env_def)
    have old: "g \<noteq> p \<and> kmem t g = kmem s g" if "q \<in> A" "uspace s q x = Some (g, fl')" for q x g fl'
      using uspace_apart [OF assms(1) that] t(1,8) by auto
    have p: "f \<noteq> p" "0 < p" using old [OF assms(2,10)] t(1) assms(3) by (auto intro: gr0I)
    from copy_page_ok [OF t(3) assms(2) ct t(7) assms(8) m assms(12) p t(6)] obtain u v z zs where
      z: "u_copy_words PFTEMP (ROUNDDOWN addr PGSIZE) 1024 t = Ret () u"
        "u_page_map 0 PFTEMP 0 (ROUNDDOWN addr PGSIZE) rw u = Ret 0 v" "u_page_unmap 0 PFTEMP v = Ret 0 z" "vm_ok z zs A"
        "\<forall>q\<in>A. uspace z q = (if q = pd then (uspace t q)(vpn PFTEMP := None, vpn addr \<mapsto> (p, rw)) else uspace t q)"
        "\<forall>j<1024. kmem z p j = kmem t f j"
        "\<forall>q\<in>A. \<forall>v g fl. uspace t q v = Some (g, fl) \<longrightarrow> g \<noteq> p \<longrightarrow> (q, v) \<noteq> (pd, vpn addr) \<longrightarrow> kmem z g = kmem t g"
      by blast
    have "pgfault addr err s = Ret () z" by (simp add: run pgfault_copy_def t(2) z(1-3))
    moreover have "\<forall>q\<in>A. uspace z q = (if q = pd then (uspace s q)(vpn addr \<mapsto> (p, rw)) else uspace s q)"
      using z(5) t(5) ne assms(13) by (auto simp: fun_eq_iff)
    moreover have "\<forall>j<1024. kmem z p j = kmem s f j" using z(6) old [OF assms(2,10)] by simp
    moreover have "\<forall>q\<in>A - {pd}. \<forall>x g fl. uspace s q x = Some (g, fl) \<longrightarrow> kmem z g = kmem s g"
    proof (intro ballI allI impI)
      fix q x g fl assume q: "q \<in> A - {pd}" "uspace s q x = Some (g, fl)"
      then have "uspace t q x = Some (g, fl)" using t(5) by simp
      moreover have "g \<noteq> p" "kmem t g = kmem s g" using old [of q x g fl] q by auto
      moreover have "q \<in> A" "(q, x) \<noteq> (pd, vpn addr)" using q(1) by auto
      ultimately show "kmem z g = kmem s g" using z(7) by metis
    qed
    ultimately show ?thesis unfolding if_P [OF True] using t(1) z(4) by blast
  }
qed

section \<open>Sending and receiving\<close>

lemma try_send_ok:
  assumes "sys_ipc_try_send to_env val pg perm s = Ret r t"
  shows "u_ipc_try_send to_env val pg perm s = Ret r t"
  using assms by (simp add: u_ipc_try_send_def usyscall_def syscall_def syscall_of_sysno)

text \<open>What the receiver \<open>e\<close> gets from \<open>c\<close>.\<close>

definition value_delivered :: "nat \<Rightarrow> nat \<Rightarrow> u32 \<Rightarrow> kstate \<Rightarrow> kstate" where
  "value_delivered c e val s = s\<lparr>envs := (envs s)(e := (envs s e)\<lparr>env_ipc_perm := 0, env_ipc_recving := False,
     env_ipc_from := env_id (envs s c), env_ipc_value := val, env_status := ENV_RUNNABLE\<rparr>)\<rparr>"

lemma ipc_send_try:
  assumes "envid2env to_env False s = Ret (0, Some e) s" "curenv s = Some c" "UTOP \<le> pg"
  shows "ipc_send_loop resume to_env val pg perm s =
    (if env_ipc_recving (envs s e) then Some (Ret () (value_delivered c e val s))
     else ipc_send_loop resume to_env val pg perm (resume s))"
proof -
  note v = ipc_send_value [OF assms, of val perm]
  show ?thesis
  proof (cases "env_ipc_recving (envs s e)")
    case True
    with v try_send_ok have "u_ipc_try_send to_env val pg perm s = Ret 0 (value_delivered c e val s)"
      by (simp add: value_delivered_def)
    with True show ?thesis by (simp add: ipc_send_loop.simps)
  next
    case False
    with v try_send_ok have "u_ipc_try_send to_env val pg perm s = Ret (- E_IPC_NOT_RECV) s" by simp
    with False show ?thesis by (subst ipc_send_loop.simps) (simp add: E_IPC_NOT_RECV_def)
  qed
qed

lemma ipc_send_never:
  assumes "ipc_send_loop resume to_env val pg perm s = Some y"
    "\<And>i. envid2env to_env False ((resume ^^ i) s) = Ret (0, Some e) ((resume ^^ i) s)"
    "\<And>i. curenv ((resume ^^ i) s) = Some c" "UTOP \<le> pg"
  shows "\<exists>n. env_ipc_recving (envs ((resume ^^ n) s) e)"
proof -
  define alive where "alive = (\<lambda>resume to_env pg (s :: kstate). UTOP \<le> pg \<and> (\<forall>i. curenv ((resume ^^ i) s) = Some c \<and>
    envid2env to_env False ((resume ^^ i) s) = Ret (0, Some e) ((resume ^^ i) s)))"
  define P where "P = (\<lambda>resume to_env (val :: u32) pg (perm :: u32) (s :: kstate) (y :: unit kres).
    alive resume to_env pg s \<longrightarrow> (\<exists>n. env_ipc_recving (envs ((resume ^^ n) s) e)))"
  have "P resume to_env val pg perm s y"
  proof (rule ipc_send_loop.raw_induct [of P, OF _ assms(1)])
    fix loop resume to_env val pg perm s y
    assume IH: "\<And>resume to_env val pg perm s y. loop resume to_env val pg perm s = Some y \<Longrightarrow>
        P resume to_env val pg perm s y"
      and y: "(case u_ipc_try_send to_env val pg perm s of
        Ret res s \<Rightarrow>
          if res = 0 then Some (Ret () s)
          else if res < 0 \<and> res \<noteq> - E_IPC_NOT_RECV then Some (Panic ''in ipc_send: the send failed'')
          else loop resume to_env val pg perm (resume s)
      | Panic m \<Rightarrow> Some (Panic m)
      | Leave l t \<Rightarrow> Some (Leave l t)) = Some y"
    show "P resume to_env val pg perm s y"
      unfolding P_def
    proof
      assume a: "alive resume to_env pg s"
      show "\<exists>n. env_ipc_recving (envs ((resume ^^ n) s) e)"
      proof (cases "env_ipc_recving (envs s e)")
        case True
        then show ?thesis by (intro exI [of _ 0]) simp
      next
        case False
        have "envid2env to_env False s = Ret (0, Some e) s" "curenv s = Some c" "UTOP \<le> pg"
          using a by (auto simp: alive_def dest: spec [of _ 0])
        from ipc_send_value [OF this, of val perm] False
        have "u_ipc_try_send to_env val pg perm s = Ret (- E_IPC_NOT_RECV) s" by (intro try_send_ok) simp
        with y have "loop resume to_env val pg perm (resume s) = Some y" by (simp add: E_IPC_NOT_RECV_def)
        from IH [OF this] have "alive resume to_env pg (resume s) \<Longrightarrow>
            \<exists>n. env_ipc_recving (envs ((resume ^^ n) (resume s)) e)" by (simp add: P_def)
        moreover have "alive resume to_env pg (resume s)"
          using a unfolding alive_def by (metis funpow_Suc_right comp_apply)
        ultimately show ?thesis by (metis funpow_Suc_right comp_apply)
      qed
    qed
  qed
  then show ?thesis using assms(2-4) by (simp add: P_def alive_def)
qed

text \<open>
  C30: \<open>ipc_send\<close> of a value waits for the receiver. While both processes live, it returns exactly if
  the receiver asks for a message at some time, and then it has made one try per turn until the
  first time the receiver waits, and has delivered the value and its own identifier in that state;
  if the receiver never asks, it tries for ever.
\<close>

theorem ipc_send_waits:
  assumes "\<And>i. envid2env to_env False ((resume ^^ i) s) = Ret (0, Some e) ((resume ^^ i) s)"
    "\<And>i. curenv ((resume ^^ i) s) = Some c"
  defines "listens \<equiv> \<lambda>i. env_ipc_recving (envs ((resume ^^ i) s) e)"
  shows "ipc_send resume to_env val 0 perm s =
    (if \<exists>i. listens i then Some (Ret () (value_delivered c e val ((resume ^^ (LEAST i. listens i)) s))) else None)"
proof -
  have K: "UTOP \<le> KERNBASE" by (simp add: layout_values KERNBASE_def)
  let ?f = "\<lambda>i. ipc_send_loop resume to_env val KERNBASE perm ((resume ^^ i) s)"
  note attempt = ipc_send_try [OF assms(1,2) K, where resume = resume and val = val and perm = perm]
  show ?thesis
  proof (cases "\<exists>i. listens i")
    case True
    let ?n = "LEAST i. listens i"
    have n: "listens ?n" "\<And>i. i < ?n \<Longrightarrow> \<not> listens i" using True by (auto intro: LeastI_ex dest: not_less_Least)
    have "?f 0 = ?f i" if "i \<le> ?n" for i
      using that
    proof (induction i)
      case (Suc i)
      with n(2) [of i] attempt [of i] show ?case by (simp add: listens_def)
    qed simp
    from this [of ?n] have "?f 0 = ?f ?n" by simp
    with attempt [of ?n] n(1) True show ?thesis by (simp add: ipc_send_def listens_def)
  next
    case False
    then have "?f 0 = Some y \<Longrightarrow> False" for y
      using ipc_send_never [where resume = resume and s = s and e = e and c = c, OF _ assms(1,2) K, of val perm y]
      by (auto simp: listens_def)
    with False show ?thesis by (cases "?f 0") (auto simp: ipc_send_def)
  qed
qed

text \<open>
  \<open>ipc_recv\<close> returns the value and gives the sender and the permissions as they are when the
  program runs again; if the system call fails, as it does for an address that is not aligned, it
  returns -1 and zeros, and not the error the kernel gave, which is \<open>-E_INVAL\<close>.
\<close>

theorem ipc_recv_result:
  "ipc_recv resume me pg s =
    (if pg \<noteq> 0 \<and> pg < UTOP \<and> PGOFF pg \<noteq> 0 then Ret (-1, 0, 0) s
     else case curenv s of
         None \<Rightarrow> Panic fault_msg
       | Some c \<Rightarrow>
           let t = resume (upd_env c (\<lambda>v. v\<lparr>env_ipc_recving := True,
             env_ipc_dstva := (if pg = 0 then UTOP else pg), env_status := ENV_NOT_RUNNABLE\<rparr>) s)
           in Ret (sint (env_ipc_value (envs t me)), env_ipc_from (envs t me), env_ipc_perm (envs t me)) t)"
  by (simp add: ipc_recv_def u_ipc_recv_def usyscall_def syscall_def syscall_of_sysno sys_ipc_recv_def
      deref_def E_INVAL_def Let_def split: option.split)

section \<open>Witnesses\<close>

text \<open>
  Process 0 runs with the directory in frame 1, which maps frame 2 with flags \<open>fl\<close> at address 0
  through a table in frame 3. Its child has the empty directory in frame 5. Frames 4, 6 and 7 are
  free.
\<close>

definition two_spaces :: kstate where
  "two_spaces = bss_state\<lparr>npages := 8, page_free_list := Some 3, kmem := (\<lambda>_ _. 0)(1 := (\<lambda>_. 0)(957 := 0x1005)),
     pages := (\<lambda>_. \<lparr>pp_link = None, pp_ref = 0\<rparr>)
       (0 := \<lparr>pp_link = None, pp_ref = 1\<rparr>, 1 := \<lparr>pp_link = None, pp_ref = 1\<rparr>,
        5 := \<lparr>pp_link = None, pp_ref = 1\<rparr>, 3 := \<lparr>pp_link = Some 4, pp_ref = 0\<rparr>,
        4 := \<lparr>pp_link = Some 6, pp_ref = 0\<rparr>, 6 := \<lparr>pp_link = Some 7, pp_ref = 0\<rparr>),
     envs := (envs bss_state)
       (0 := zero_Env\<lparr>env_pgdir := Some 1, env_id := 0x1000, env_status := ENV_RUNNING\<rparr>,
        1 := zero_Env\<lparr>env_pgdir := Some 5, env_id := 0x1001, env_parent_id := 0x1000,
               env_status := ENV_NOT_RUNNABLE\<rparr>)\<rparr>"

definition one_page_state :: "u32 \<Rightarrow> kstate" where
  "one_page_state fl =
     (set_curenv (Some 0) (incref 2 (wr_word 3 0 (pte_for 2 fl) (with_tbl 3 1 0 two_spaces))))\<lparr>cr3 := 1\<rparr>"

lemma two_spaces_ok: "vm_ok two_spaces [3, 4, 6, 7] {1, 5}" "slots two_spaces {1, 5} = {}"
proof -
  have k: "kmem two_spaces q i = 0" if "i < NUSER" for q i
    using that by (simp add: two_spaces_def NUSER_eq)
  then show s: "slots two_spaces {1, 5} = {}" by (auto simp: slots_def has_tbl_def)
  then have "mappers two_spaces {1, 5} f = {}" for f by (auto simp: mappers_def)
  moreover have "free_pages_ok two_spaces [3, 4, 6, 7]"
    by (auto simp: free_pages_ok_def two_spaces_def)
  ultimately show "vm_ok two_spaces [3, 4, 6, 7] {1, 5}"
    using s k by (simp add: vm_ok_def structural_def) (simp add: two_spaces_def)
qed

lemma one_page_ok:
  assumes "PTE_ADDR fl = 0"
  shows "vm_ok (one_page_state fl) [4, 6, 7] {1, 5}"
    "uspace (one_page_state fl) 1 = [vpn 0 \<mapsto> (2, fl OR PTE_P)]" "uspace (one_page_state fl) 5 = Map.empty"
    "user_view (one_page_state fl) 1"
proof -
  have nt: "\<not> has_tbl two_spaces 1 0" by (simp add: has_tbl_def two_spaces_def)
  have i: "0 < NUSER" by (simp add: NUSER_eq)
  let ?s = "with_tbl 3 1 0 two_spaces"
  let ?t = "incref 2 (wr_word 3 0 (pte_for 2 fl) ?s)"
  have A: "(1::nat) \<in> {1, 5}" by simp
  note n = vm_ok_new_tbl [OF two_spaces_ok(1) A i nt]
  have tb: "tbl ?s 1 0 = 3" using new_tbl_view(2) [OF two_spaces_ok(1), of 1 1 0 0] by simp
  have fr: "pte ?s 1 0 0 = 0" using new_tbl_fresh [OF two_spaces_ok(1), of 1 0 0] by simp
  have st: "structural ?s {1, 5} = {1, 5, 3}" using n(4) two_spaces_ok(2) by (auto simp: structural_def)
  have pp: "2 < npages ?s" "(2::nat) \<notin> structural ?s {1, 5}" "(2::nat) \<notin> set [4, 6, 7]"
    "unat (pp_ref (pages ?s 2)) + 1 < 2 ^ 16"
    unfolding st by (simp_all add: with_tbl_pages(1)) (simp_all add: two_spaces_def)
  have v: "pte_for 2 fl AND PTE_P \<noteq> 0" "frame_of (pte_for 2 fl) = 2"
    "PGOFF (pte_for 2 fl) = fl OR PTE_P" using pte_for [of 2 fl] assms by simp_all
  have sl: "(1, 0) \<in> slots ?s {1, 5}" using n(2) by simp
  have j: "0 < NPTENTRIES" by (simp add: NPTENTRIES_def)
  note m = vm_map_empty [OF n(1) sl j fr pp v(1,2), unfolded tb]
  have v0: "vpn 0 = (0, 0)" by (simp add: vpn_def PDX_def PTX_def)
  have k: "kmem (one_page_state fl) = kmem ?t"
    by (simp add: one_page_state_def set_curenv_def upd_this_cpu_def)
  have us: "uspace ?s q = Map.empty" if "q \<in> {1, 5}" for q
  proof -
    have "(q, i) \<notin> slots two_spaces {1, 5}" for i using two_spaces_ok(2) by simp
    then have "amap two_spaces q (i, l) = None" if "i < NUSER" for i l
      using that \<open>q \<in> {1, 5}\<close> by (auto simp: slots_def amap_def)
    then show ?thesis using n(5) [of q] that by (auto simp: uspace_def restrict_map_def fun_eq_iff)
  qed
  note u = uspace_kmem_cong [OF k]
  have "vm_ok (one_page_state fl) [4, 6, 7] {1, 5} = vm_ok ?t [4, 6, 7] {1, 5}"
    by (rule vm_ok_cong) (simp_all add: one_page_state_def set_curenv_def upd_this_cpu_def)
  with m(1) show "vm_ok (one_page_state fl) [4, 6, 7] {1, 5}" by simp
  show "uspace (one_page_state fl) 1 = [vpn 0 \<mapsto> (2, fl OR PTE_P)]"
    using m(3) [of 1] us [of 1] v(3) v0 u by simp
  show "uspace (one_page_state fl) 5 = Map.empty"
    using m(3) [of 5] us [of 5] u by simp
  have ks: "kmem ?t 1 = kmem ?s 1" by (simp add: incref_def wr_word_def upd_page_def)
  have k1: "kmem ?s 1 = (kmem two_spaces 1)(0 := pde_for 3)" by (rule with_tbl_kmem(3)) simp
  have "i = 0" if "i < NUSER" "has_tbl ?t 1 i" for i
    using that ks k1 by (auto simp: has_tbl_def two_spaces_def NUSER_eq split: if_splits)
  then have "\<forall>i<NUSER. has_tbl ?t 1 i \<longrightarrow> kmem ?t 1 i = pde_for 3" using ks k1 by auto
  moreover have "kmem ?t 1 957 = 0x1005" using ks k1 by (simp add: two_spaces_def)
  moreover have "unat (PDX UVPT) = 957" by (simp add: unat_PDX layout_values)
  ultimately show "user_view (one_page_state fl) 1"
    unfolding user_view_def has_tbl_def k
    by (simp add: pde_for_bits page2pa_def PTE_P_def PTE_U_def del: One_nat_def) (metis One_nat_def pde_for_bits(2,3))
qed

lemma one_page_simps:
  "curenv (one_page_state fl) = Some 0" "env_pgdir (envs (one_page_state fl) 0) = Some 1"
  "env_pgdir (envs (one_page_state fl) 1) = Some 5" "cr3 (one_page_state fl) = 1"
  "envid2env 0x1001 True (one_page_state fl) = Ret (0, Some 1) (one_page_state fl)"
  "pp_ref (pages (one_page_state fl) 2) = 1"
proof -
  show c: "curenv (one_page_state fl) = Some 0"
    by (simp add: one_page_state_def set_curenv_def upd_this_cpu_def curenv_def)
  show "env_pgdir (envs (one_page_state fl) 0) = Some 1" "env_pgdir (envs (one_page_state fl) 1) = Some 5"
    "cr3 (one_page_state fl) = 1"
    by (simp_all add: one_page_state_def set_curenv_def upd_this_cpu_def) (simp_all add: two_spaces_def)
  show "envid2env 0x1001 True (one_page_state fl) = Ret (0, Some 1) (one_page_state fl)"
    unfolding envid2env_def ENVX_mod Let_def c
    by (simp add: one_page_state_def set_curenv_def upd_this_cpu_def) (simp add: two_spaces_def zero_Env_def)
  show "pp_ref (pages (one_page_state fl) 2) = 1"
    by (simp add: one_page_state_def set_curenv_def upd_this_cpu_def with_tbl_pages(1) incref_def)
      (simp add: two_spaces_def)
qed

lemma demo_flags:
  "PTE_ADDR (PTE_U OR PTE_W) = 0" "PTE_ADDR (PTE_U OR PTE_COW) = 0"
  "bit ((PTE_U OR PTE_W) OR PTE_P) 1" "bit ((PTE_U OR PTE_W) OR PTE_P) 2"
  "((PTE_U OR PTE_COW) OR PTE_P) AND PTE_COW \<noteq> 0" "((PTE_U OR PTE_COW) OR PTE_P) AND PTE_U \<noteq> 0"
  "FEC_WR AND FEC_WR \<noteq> 0"
  by (simp_all add: PTE_ADDR_def PTE_U_def PTE_W_def PTE_P_def PTE_COW_def FEC_WR_def)

theorem fork_shares_memory_witness:
  "\<exists>t ys. fork_pages 0x1001 0 (one_page_state (PTE_U OR PTE_W)) = Ret () t \<and> vm_ok t ys {1, 5} \<and>
     uspace t 5 (vpn 0) = Some (2, (PTE_P OR PTE_U) OR PTE_COW)"
proof -
  let ?s = "one_page_state (PTE_U OR PTE_W)"
  note o = one_page_ok [OF demo_flags(1)] one_page_simps [of "PTE_U OR PTE_W"]
  have f: "forking ?s 0 1 0x1001 1 5" using o by (simp add: forking_def)
  have "sharings (uspace ?s 1) 2 0 = {vpn 0}"
    using demo_flags(4) by (auto simp: sharings_def o(2) simp del: One_nat_def split: if_splits)
  then have c: "\<forall>f\<in>fst ` ran (uspace ?s 1). 0 < f \<and>
      unat (pp_ref (pages ?s f)) + card (sharings (uspace ?s 1) f 0) + 1 < 2 ^ 16"
    using o(10) by (simp add: o(2) del: One_nat_def)
  have "unat (PGNUM 0) < unat (PGNUM USTACKTOP)" unfolding USTACKTOP_page(1) by (simp add: PGNUM_def)
  then have "child_map (unat (PGNUM USTACKTOP)) (uspace ?s 1) (vpn 0) = Some (2, (PTE_P OR PTE_U) OR PTE_COW)"
    using demo_flags(3,4) by (simp add: child_map_def o(2) cow_perm_def pgidx_vpn del: One_nat_def)
  moreover have "tables_needed (uspace ?s 1) ?s 5 0 \<subseteq> {fst (vpn 0)}"
  proof
    fix i assume "i \<in> tables_needed (uspace ?s 1) ?s 5 0"
    then obtain v f fl where "uspace ?s 1 v = Some (f, fl)" "fst v = i" by (auto simp: tables_needed_def)
    then show "i \<in> {fst (vpn 0)}" unfolding o(2) by (simp split: if_splits)
  qed
  then have "card (tables_needed (uspace ?s 1) ?s 5 0) \<le> card {fst (vpn 0)}" by (intro card_mono) simp_all
  then have "card (tables_needed (uspace ?s 1) ?s 5 0) \<le> length [4, 6, 7 :: nat]" by simp
  from fork_shares_memory [OF f o(1) _ _ o(3) c, unfolded if_P [OF this]] obtain t ys where
    "fork_pages 0x1001 0 ?s = Ret () t" "vm_ok t ys {1, 5}"
    "uspace t 5 = child_map (unat (PGNUM USTACKTOP)) (uspace ?s 1)" by auto
  ultimately show ?thesis by auto
qed

theorem pgfault_copies_page_witness:
  "\<exists>p t ys. p \<in> {4, 6, 7} \<and> pgfault 0 FEC_WR (one_page_state (PTE_U OR PTE_COW)) = Ret () t \<and>
     vm_ok t ys {1, 5} \<and> uspace t 1 (vpn 0) = Some (p, (PTE_P OR PTE_U) OR PTE_W)"
proof -
  note o = one_page_ok [OF demo_flags(2)] one_page_simps [of "PTE_U OR PTE_COW"]
  have "vpn PFTEMP \<noteq> vpn 0" by (simp add: vpn_def word_unat_eq_iff unat_PDX unat_PTX layout_values)
  then have "uspace (one_page_state (PTE_U OR PTE_COW)) 1 (vpn PFTEMP) = None" by (simp add: o(2) del: One_nat_def)
  from pgfault_copies_page [OF o(1) _ _ o(5,6,8,4) zero_user(1) demo_flags(7) _ demo_flags(5,6) this, of 2] o(2)
  show ?thesis by fastforce
qed

theorem ipc_send_waits_witness:
  "ipc_send (upd_env 1 (\<lambda>v. v\<lparr>env_ipc_recving := True\<rparr>)) 0x1001 42 0 0 (one_page_state PTE_U) =
    Some (Ret () (value_delivered 0 1 42 (upd_env 1 (\<lambda>v. v\<lparr>env_ipc_recving := True\<rparr>) (one_page_state PTE_U))))"
proof -
  let ?f = "upd_env 1 (\<lambda>v. v\<lparr>env_ipc_recving := True\<rparr>)" and ?s = "one_page_state PTE_U"
  have idem: "?f (?f s) = ?f s" for s by (simp add: upd_env_def)
  have it: "(?f ^^ i) s = (if i = 0 then s else ?f s)" for i s
    by (induction i) (simp_all add: idem del: One_nat_def)
  have e: "envs ?s = envs two_spaces"
    by (simp add: one_page_state_def set_curenv_def upd_this_cpu_def)
  have c: "curenv ?s = Some 0" "curenv (?f ?s) = Some 0" by (simp_all add: one_page_simps)
  have "envid2env 0x1001 False ?s = Ret (0, Some 1) ?s" "envid2env 0x1001 False (?f ?s) = Ret (0, Some 1) (?f ?s)"
    unfolding envid2env_def ENVX_mod Let_def c
    by (simp_all add: upd_env_def e) (simp_all add: two_spaces_def zero_Env_def)
  then have 1: "envid2env 0x1001 False ((?f ^^ i) ?s) = Ret (0, Some 1) ((?f ^^ i) ?s)"
    "curenv ((?f ^^ i) ?s) = Some 0" for i unfolding it using c by simp_all
  have r: "env_ipc_recving (envs ((?f ^^ i) ?s) 1) \<longleftrightarrow> i \<noteq> 0" for i
    unfolding it by (simp add: upd_env_def e) (simp add: two_spaces_def zero_Env_def)
  have l: "(LEAST i. i \<noteq> (0::nat)) = 1" by (rule Least_equality) auto
  show ?thesis using ipc_send_waits [OF 1, of 42 0] unfolding r l by (auto simp: it simp del: One_nat_def)
qed

end
