(* ===== verification/Jos_Load.thy ===== *)
theory Jos_Load
  imports Jos_Env
begin

text \<open>
  What loading a program does to memory (\<open>region_alloc\<close>, \<open>load_icode\<close> and \<open>env_create\<close> of
  kern/env.c, defined in Jos_Env): the memory of a program as a partial map from user addresses to
  bytes, and the image of an ELF file as such a map. Loading refines the latter.
\<close>

section \<open>The memory of a program\<close>

text \<open>The byte a program finds at an address, if the page is mapped.\<close>

definition umem :: "kstate \<Rightarrow> nat \<Rightarrow> u32 \<Rightarrow> u8 option" where
  "umem s pd va = map_option (\<lambda>(f, fl). rd_byte s f (unat (PGOFF va))) (uspace s pd (vpn va))"

text \<open>Pages by their number: directory index and table index.\<close>

definition page_at :: "nat \<Rightarrow> nat \<times> nat" where
  "page_at n = (n div 1024, n mod 1024)"

lemma vpn_page_at: "vpn va = page_at (unat va div 4096)"
  by (simp add: vpn_def page_at_def unat_PDX unat_PTX flip: div_mult2_eq)

lemma page_at_eq [simp]: "page_at m = page_at n \<longleftrightarrow> m = n"
  by (metis Pair_inject div_mult_mod_eq page_at_def)

text \<open>The rights \<open>region_alloc\<close> gives.\<close>

definition UWP :: u32 where "UWP = (PTE_W OR PTE_U) OR PTE_P"

lemma UWP_facts: "PTE_ADDR (PTE_W OR PTE_U) = 0" "UWP AND PTE_W \<noteq> 0"
  by (simp_all add: UWP_def PTE_W_def PTE_U_def PTE_P_def PTE_ADDR_def)

text \<open>
  While a program is loaded exactly the pages \<open>V\<close> of its address space are mapped, writable, each to a frame
  no other page of any address space maps.
\<close>

definition owns :: "kstate \<Rightarrow> nat list \<Rightarrow> nat set \<Rightarrow> nat \<Rightarrow> (nat \<times> nat) set \<Rightarrow> bool" where
  "owns s xs A pd V \<longleftrightarrow> vm_ok s xs A \<and> pd \<in> A \<and> 0 \<notin> set xs \<and> dir_writable s pd \<and>
     (\<forall>v. v \<notin> V \<longrightarrow> uspace s pd v = None) \<and>
     (\<forall>v\<in>V. \<exists>f. uspace s pd v = Some (f, UWP) \<and>
        (\<forall>q\<in>A. \<forall>w g. uspace s q w = Some (f, g) \<longrightarrow> q = pd \<and> w = v))"

lemma ownsD:
  assumes "owns s xs A pd V"
  shows owns_vm: "vm_ok s xs A" and owns_pd: "pd \<in> A" and owns_0: "0 \<notin> set xs"
    and owns_dir: "dir_writable s pd" and owns_None: "v \<notin> V \<Longrightarrow> uspace s pd v = None"
    and owns_Some: "v \<in> V \<Longrightarrow> \<exists>f. uspace s pd v = Some (f, UWP) \<and>
        (\<forall>q\<in>A. \<forall>w g. uspace s q w = Some (f, g) \<longrightarrow> q = pd \<and> w = v)"
  using assms unfolding owns_def by (blast | metis)+

text \<open>What the loading of one program leaves alone: everything about the other programs.\<close>

definition others :: "kstate \<Rightarrow> kstate \<Rightarrow> nat set \<Rightarrow> nat \<Rightarrow> bool" where
  "others s t A pd \<longleftrightarrow> same_env s t \<and> (\<forall>q\<in>A - {pd}. uspace t q = uspace s q \<and> umem t q = umem s q)"

lemma others_refl [simp]: "others s s A pd"
  by (simp add: others_def)

lemma others_trans: "others s t A pd \<Longrightarrow> others t u A pd \<Longrightarrow> others s u A pd"
  by (auto simp: others_def intro: same_env_trans)

text \<open>A mapped frame is neither free nor part of the page tables.\<close>

lemma mapped_frame:
  assumes "vm_ok s xs A" "q \<in> A" "uspace s q v = Some (f, fl)"
  shows "f \<notin> structural s A" "f \<notin> set xs"
proof -
  obtain i j where v: "v = (i, j)" by (cases v)
  with assms(3) uspace_out [of i j s q] have "i < NUSER" "j < NPTENTRIES"
    by (auto simp: not_le [symmetric])
  note va = vpn_PGADDR [OF this]
  show "f \<notin> structural s A" "f \<notin> set xs"
    using vpn_slot(6,8) [OF assms(1,2) va(2)] assms(3) by (simp_all add: va(1) v)
qed

lemma vpn_user: "uspace s q (vpn va) = Some m \<Longrightarrow> va < UTOP"
  using uspace_out [of "unat (PDX va)" "unat (PTX va)" s q] PDX_user [of va]
  by (cases "va < UTOP") (auto simp: vpn_def)

section \<open>Mapping a fresh page\<close>

text \<open>\<open>page_insert\<close> of a frame in use at a page that is not mapped.\<close>

lemma insert_unmapped_slot:
  assumes ok: "vm_ok s xs A" and pd: "pd \<in> A" and va: "va < UTOP"
    and h: "has_tbl s pd (unat (PDX va))" and none: "uspace s pd (vpn va) = None"
    and pp: "mappable s xs A pp" and perm: "PTE_ADDR perm = 0"
  shows "\<exists>t. page_insert pd pp va perm s = Ret 0 t \<and> vm_ok t xs A \<and> structural t A = structural s A \<and>
    kmem t pd = kmem s pd \<and> (\<forall>q\<in>A. uspace t q =
       (if q = pd then (uspace s q)(vpn va \<mapsto> (pp, perm OR PTE_P)) else uspace s q))"
proof -
  let ?i = "unat (PDX va)" and ?j = "unat (PTX va)" and ?v = "pte_for pp perm"
  from vm_free [OF ok] have np: "npages s \<le> 2 ^ 20" by (rule free_pages_ok_npages)
  from pp np have p: "0 < pp" "pp < npages s" "pp \<notin> structural s A" "pp \<notin> set xs" "pp < 2 ^ 20"
    "unat (pp_ref (pages s pp)) + 1 < 2 ^ 16" by (simp_all add: mappable_def)
  note v = pte_for [OF p(5) perm]
  note e = vpn_unmapped [OF ok pd va none h]
  note w = walk_hit [OF ok e(1), of True]
  let ?t = "incref pp (wr_word (tbl s pd ?i) ?j ?v s)"
  have "page2pa pp \<noteq> page2pa 0" using page2pa_inj [OF p(5), of 0] p(1) by simp
  then have "PTE_ADDR 0 \<noteq> page2pa pp" by (simp add: page2pa_def PTE_ADDR_def)
  then have "page_insert pd pp va perm s = Ret 0 ?t"
    using e(2) w by (simp add: page_insert_def pte_def pte_for_def incref_def Let_def)
  moreover have "tbl s pd ?i \<noteq> pd" using vm_tbl_notin [OF ok e(1)] pd by auto
  moreover note vm_map_empty [OF ok e(1) PTX_NPT e(2) p(2,3,4,6) v(3,1)]
  ultimately show ?thesis using v(2) by (intro exI [of _ ?t]) (auto simp: vpn_def)
qed

text \<open>If the page table is missing, the next free frame becomes it.\<close>

lemma insert_unmapped:
  assumes ok: "vm_ok s xs A" and pd: "pd \<in> A" and va: "va < UTOP" and ne: "xs \<noteq> []"
    and dw: "dir_writable s pd" and none: "uspace s pd (vpn va) = None"
    and pp: "mappable s xs A pp" and perm: "PTE_ADDR perm = 0"
  shows "\<exists>t n. page_insert pd pp va perm s = Ret 0 t \<and> n \<le> 1 \<and> vm_ok t (drop n xs) A \<and> dir_writable t pd \<and>
    (\<forall>q\<in>A. uspace t q =
       (if q = pd then (uspace s q)(vpn va \<mapsto> (pp, perm OR PTE_P)) else uspace s q))"
proof (cases "has_tbl s pd (unat (PDX va))")
  case True
  from insert_unmapped_slot [OF ok pd va True none pp perm] dw show ?thesis
    by (elim exE conjE, intro exI [of _ "0::nat"] exI conjI) (assumption | simp add: dir_writable_def has_tbl_def)+
next
  case nt: False
  from ne obtain p ps where xs: "xs = p # ps" by (cases xs) auto
  with ok have ok': "vm_ok s (p # ps) A" by simp
  let ?s = "with_tbl p pd (unat (PDX va)) s"
  note n = vm_ok_new_tbl [OF ok' pd user_PDX [OF va] nt]
  have us: "uspace ?s q = uspace s q" if "q \<in> A" for q
    by (rule uspace_eqI) (simp_all add: n(5) that uspace_in uspace_out)
  have sl: "(pd, unat (PDX va)) \<in> slots ?s A" using n(2) by simp
  then have h: "has_tbl ?s pd (unat (PDX va))" by (simp add: slots_def)
  from pp xs have "pp \<noteq> p" by (auto simp: mappable_def)
  with pp xs have m: "mappable ?s ps A pp" by (simp add: mappable_def n(4) with_tbl_pages(1))
  have tb: "tbl ?s pd (unat (PDX va)) = p" using new_tbl_view(2) [OF ok' pd pd] by simp
  have e: "page_insert pd pp va perm s = page_insert pd pp va perm ?s"
    using walk_new [OF ok pd va nt] walk_hit [OF n(1) sl, of True, unfolded tb] xs
    by (simp add: page_insert_def)
  have none': "uspace ?s pd (vpn va) = None" using us [OF pd] none by simp
  from insert_unmapped_slot [OF n(1) pd va h none' m perm] obtain t where
    t: "page_insert pd pp va perm ?s = Ret 0 t" "vm_ok t ps A" "kmem t pd = kmem ?s pd"
      "\<forall>q\<in>A. uspace t q = (if q = pd then (uspace ?s q)(vpn va \<mapsto> (pp, perm OR PTE_P)) else uspace ?s q)"
    by blast
  have pne: "p \<noteq> pd" using vm_free_frame(2) [OF ok', of p] pd by auto
  have "dir_writable t pd"
    using dw with_tbl_kmem(3) [OF pne] t(3) by (auto simp: dir_writable_def has_tbl_def)
  then show ?thesis using t us xs e by (intro exI [of _ t] exI [of _ "1::nat"]) simp
qed

lemma umem_keeps:
  assumes "uspace t q (vpn w) = uspace s q (vpn w)"
    and "\<And>f fl. uspace s q (vpn w) = Some (f, fl) \<Longrightarrow> kmem t f = kmem s f"
  shows "umem t q w = umem s q w"
  using assms by (cases "uspace s q (vpn w)") (auto simp: umem_def rd_byte_def)

text \<open>One round of \<open>region_alloc\<close>.\<close>

lemma region_round:
  assumes o: "owns s (p # ps) A pd V" and va: "va < UTOP" "vpn va \<notin> V" and ps: "ps \<noteq> []"
  shows "\<exists>t n. page_alloc 1 s = Ret (Some p) (popped 1 p s) \<and>
    page_insert pd p va (PTE_W OR PTE_U) (popped 1 p s) = Ret 0 t \<and> n \<le> 1 \<and>
    owns t (drop n ps) A pd (insert (vpn va) V) \<and> others s t A pd \<and>
    umem t pd = (\<lambda>w. if vpn w = vpn va then Some 0 else umem s pd w)"
proof -
  let ?u = "popped 1 p s"
  note O = ownsD [OF o]
  note pop = vm_ok_popped [OF O(1)]
  have pa: "page_alloc 1 s = Ret (Some p) ?u" by (rule page_alloc_Cons [OF vm_free [OF O(1)]])
  have "p < npages s" using vm_free [OF O(1)] by (simp add: free_pages_ok_def)
  then have m: "mappable ?u ps A p" using O(3) pop(3-6) by (auto simp: mappable_def)
  have none: "uspace ?u pd (vpn va) = None" using O(5) [OF va(2)] pop(2) [OF O(2)] by simp
  have "p \<noteq> pd" using vm_free_frame(2) [OF O(1), of p] O(2) by auto
  then have dw: "dir_writable ?u pd" using O(4) by (simp add: dir_writable_def has_tbl_def)
  from insert_unmapped [OF pop(1) O(2) va(1) ps dw none m UWP_facts(1)] obtain t n where
    t: "page_insert pd p va (PTE_W OR PTE_U) ?u = Ret 0 t" "n \<le> 1" "vm_ok t (drop n ps) A" "dir_writable t pd"
      and tu: "\<forall>q\<in>A. uspace t q = (if q = pd then (uspace ?u q)(vpn va \<mapsto> (p, UWP)) else uspace ?u q)"
    unfolding UWP_def by blast
  have t5: "uspace t q = (if q = pd then (uspace s q)(vpn va \<mapsto> (p, UWP)) else uspace s q)" if "q \<in> A" for q
    using bspec [OF tu that] that O(2) by (simp add: pop(2))
  have fr: "f \<noteq> p \<and> kmem t f = kmem s f" if q: "q \<in> A" "uspace s q w = Some (f, fl)" for q w f fl
  proof -
    note mf = mapped_frame [OF O(1) q]
    with page_insert_keeps [OF pop(1) O(2) va(1) t(1), of f] pop(3) show ?thesis by auto
  qed
  have zp: "kmem t p = (\<lambda>_. 0)"
    using page_insert_keeps [OF pop(1) O(2) va(1) t(1), of p] pop(3-5) by simp
  have um: "umem t q = (\<lambda>w. if q = pd \<and> vpn w = vpn va then Some 0 else umem s q w)" if q: "q \<in> A" for q
  proof
    fix w show "umem t q w = (if q = pd \<and> vpn w = vpn va then Some 0 else umem s q w)"
    proof (cases "q = pd \<and> vpn w = vpn va")
      case True
      then show ?thesis using t5 [OF q] zp by (simp add: umem_def rd_byte_def)
    next
      case False
      with umem_keeps [of t q w s] fr [OF q] t5 [OF q] show ?thesis by auto
    qed
  qed
  have "same_env s ?u" using wlpD [OF page_alloc_same pa] .
  moreover have "same_env ?u t" using wlpD [OF page_insert_same t(1)] .
  ultimately have "others s t A pd"
    using um t5 by (auto simp: others_def intro: same_env_trans)
  moreover have "owns t (drop n ps) A pd (insert (vpn va) V)"
    unfolding owns_def
  proof (intro conjI ballI allI impI t(3,4) O(2))
    show "0 \<notin> set (drop n ps)" using O(3) set_drop_subset [of n ps] by auto
    show "uspace t pd v = None" if "v \<notin> insert (vpn va) V" for v
      using that O(5) t5 [OF O(2)] by auto
    fix v assume v: "v \<in> insert (vpn va) V"
    show "\<exists>f. uspace t pd v = Some (f, UWP) \<and>
      (\<forall>q\<in>A. \<forall>w g. uspace t q w = Some (f, g) \<longrightarrow> q = pd \<and> w = v)"
    proof (cases "v = vpn va")
      case True
      have "uspace s q w \<noteq> Some (p, g)" if "q \<in> A" for q w g using fr [OF that] by blast
      with True show ?thesis using t5 O(2)
        by (intro exI [of _ p]) (auto split: if_splits)
    next
      case False
      with v O(6) obtain f where f: "uspace s pd v = Some (f, UWP)"
        "\<forall>q\<in>A. \<forall>w g. uspace s q w = Some (f, g) \<longrightarrow> q = pd \<and> w = v" by blast
      have fp: "f \<noteq> p" using fr [OF O(2) f(1)] by simp
      have "q = pd \<and> w = v" if "q \<in> A" "uspace t q w = Some (f, g)" for q w g
      proof -
        have "uspace s q w = Some (f, g)" using that(2) fp by (simp add: t5 [OF that(1)] split: if_splits)
        with f(2) that(1) show ?thesis by blast
      qed
      moreover have "uspace t pd v = Some (f, UWP)" using f(1) False by (simp add: t5 [OF O(2)])
      ultimately show ?thesis by blast
    qed
  qed
  moreover have "umem t pd = (\<lambda>w. if vpn w = vpn va then Some 0 else umem s pd w)"
    using um [OF O(2)] by simp
  ultimately show ?thesis using pa t(1,2) by blast
qed

section \<open>Allocating a region\<close>

lemma unat_PGSIZE: "unat PGSIZE = 4096" by (simp add: PGSIZE_def)

lemma region_loop:
  assumes "owns s xs A pd V" "unat i = 4096 * c" "c + k \<le> unat UTOP div 4096" "2 * k \<le> length xs"
    "page_at ` {c..<c + k} \<inter> V = {}"
  shows "\<exists>t n. region_alloc_loop pd k i s = Ret () t \<and> n \<le> 2 * k \<and>
    owns t (drop n xs) A pd (V \<union> page_at ` {c..<c + k}) \<and> others s t A pd \<and>
    umem t pd = (\<lambda>w. if unat w div 4096 \<in> {c..<c + k} then Some 0 else umem s pd w)"
  using assms
proof (induction k arbitrary: i c s xs V)
  case 0
  then show ?case by auto
next
  case (Suc k)
  then obtain p ps where xs: "xs = p # ps" "ps \<noteq> []" by (cases xs; cases "tl xs") auto
  have U: "unat UTOP div 4096 = 0xEEC00" "unat UTOP = 0xEEC00 * 4096" by (simp_all add: layout_values)
  have vi: "vpn i = page_at c" by (simp add: vpn_page_at Suc.prems(2))
  have "i < UTOP" using Suc.prems(2,3) U by (simp add: word_less_nat_alt)
  note i = this
  have "page_at c \<in> page_at ` {c..<c + Suc k}" by (rule imageI) simp
  then have vn: "vpn i \<notin> V" unfolding vi using Suc.prems(5) by (metis disjoint_iff)
  from region_round [OF Suc.prems(1) [unfolded xs(1)] i vn xs(2), unfolded vi] obtain u n where
    u: "page_alloc 1 s = Ret (Some p) (popped 1 p s)"
      "page_insert pd p i (PTE_W OR PTE_U) (popped 1 p s) = Ret 0 u" "n \<le> 1"
      "owns u (drop n ps) A pd (insert (page_at c) V)" "others s u A pd"
      "umem u pd = (\<lambda>w. if vpn w = page_at c then Some 0 else umem s pd w)"
    by (elim exE conjE) (rule that)
  have i': "unat (i + PGSIZE) = 4096 * Suc c" using Suc.prems(2,3) U
    by (simp add: unat_word_ariths unat_PGSIZE)
  have "Suc c + k \<le> unat UTOP div 4096" "2 * k \<le> length (drop n ps)"
    using Suc.prems(3,4) xs u(3) by auto
  moreover have "page_at ` {Suc c..<Suc c + k} \<subseteq> page_at ` {c..<c + Suc k}" by (rule image_mono) auto
  then have "page_at ` {Suc c..<Suc c + k} \<inter> V = {}" using Suc.prems(5) by blast
  then have "page_at ` {Suc c..<Suc c + k} \<inter> insert (page_at c) V = {}" by auto
  ultimately obtain t m where
    t: "region_alloc_loop pd k (i + PGSIZE) u = Ret () t" "m \<le> 2 * k"
      "owns t (drop m (drop n ps)) A pd (insert (page_at c) V \<union> page_at ` {Suc c..<Suc c + k})"
      "others u t A pd"
      "umem t pd = (\<lambda>w. if unat w div 4096 \<in> {Suc c..<Suc c + k} then Some 0 else umem u pd w)" using Suc.IH [OF u(4) i'] by blast
  have c: "{c..<c + Suc k} = insert c {Suc c..<Suc c + k}" by auto
  have "V \<union> page_at ` {c..<c + Suc k} = insert (page_at c) V \<union> page_at ` {Suc c..<Suc c + k}"
    unfolding c by auto
  moreover have "drop m (drop n ps) = drop (Suc (m + n)) xs" by (simp add: xs add.commute)
  ultimately show ?case using u t(1,2,3) others_trans [OF u(5) t(4)]
    by (intro exI [of _ t] exI [of _ "Suc (m + n)"]) (auto simp: fun_eq_iff t(5) u(6) vpn_page_at)
qed

text \<open>The pages \<open>region_alloc\<close> allocates for \<open>len\<close> bytes at \<open>va\<close>.\<close>

definition region_pages :: "u32 \<Rightarrow> u32 \<Rightarrow> nat set" where
  "region_pages va len = {unat va div 4096..<(unat va + unat len + 4095) div 4096}"

lemma region_alloc_ok:
  assumes o: "owns s xs A pd V" and e: "env_pgdir (envs s e) = Some pd"
    and l: "unat va + unat len \<le> unat UTOP" and n: "2 * card (region_pages va len) \<le> length xs"
    and d: "page_at ` region_pages va len \<inter> V = {}"
  shows "\<exists>t n. region_alloc e va len s = Ret () t \<and> n \<le> 2 * card (region_pages va len) \<and>
    owns t (drop n xs) A pd (V \<union> page_at ` region_pages va len) \<and> others s t A pd \<and>
    umem t pd = (\<lambda>w. if unat w div 4096 \<in> region_pages va len then Some 0 else umem s pd w)"
proof -
  let ?a = "ROUNDDOWN va PGSIZE" and ?b = "ROUNDUP (va + len) PGSIZE"
  define c where "c = unat va div 4096"
  define b where "b = (unat va + unat len + 4095) div 4096"
  have U: "unat UTOP = 0xEEC00 * 4096" by (simp add: layout_values)
  have vl: "unat (va + len) = unat va + unat len" using l U by (simp add: unat_word_ariths)
  have A: "unat ?a = 4096 * c" by (simp add: unat_ROUNDDOWN unat_PGSIZE c_def minus_mod_eq_mult_div)
  have B: "unat ?b = 4096 * b"
    using unat_ROUNDUP [of PGSIZE "va + len"] l U by (simp add: unat_PGSIZE vl b_def)
  have cb: "c \<le> b" unfolding c_def b_def by (rule div_le_mono) simp
  define k where "k = b - c"
  have pg: "region_pages va len = {c..<c + k}" using cb by (simp add: region_pages_def c_def b_def k_def)
  have "(if ?a < ?b then unat ((?b - ?a) div PGSIZE) else 0) = k"
  proof (cases "?a < ?b")
    case True
    then have "unat (?b - ?a) = 4096 * b - 4096 * c" using A B by (simp add: unat_sub less_imp_le)
    with True show ?thesis by (simp add: unat_div unat_PGSIZE k_def flip: diff_mult_distrib2)
  next
    case False
    with A B show ?thesis by (simp add: word_less_nat_alt k_def)
  qed
  then have "region_alloc e va len s = region_alloc_loop pd k ?a s"
    by (simp add: region_alloc_def e Let_def)
  moreover have "c + k \<le> unat UTOP div 4096" using cb l U by (simp add: k_def b_def)
  moreover have "2 * k \<le> length xs" "page_at ` {c..<c + k} \<inter> V = {}" using n d by (simp_all add: pg)
  ultimately show ?thesis using region_loop [OF o A] unfolding pg by simp
qed

section \<open>Storing bytes\<close>

lemma rd_wr_byte_other: "off \<noteq> off' \<Longrightarrow> rd_byte (wr_byte f off b s) f off' = rd_byte s f off'"
proof (cases "off div 4 = off' div 4")
  case False
  then show ?thesis by (simp add: rd_byte_def wr_byte_def Let_def wr_word_def)
next
  case True
  assume "off \<noteq> off'"
  with True have m: "off mod 4 \<noteq> off' mod 4" by (metis div_mult_mod_eq)
  have q: "off mod 4 < 4" "off' mod 4 < 4" by simp_all
  show ?thesis
  proof (rule bit_word_eqI)
    fix n assume n: "n < LENGTH(8)"
    show "bit (rd_byte (wr_byte f off b s) f off') n = bit (rd_byte s f off') n"
      using n m q True by (auto simp: rd_byte_def wr_byte_def Let_def wr_word_def bit_simps ff_mask dest: bit_imp_le_length)
  qed
qed

lemma owns_page:
  assumes o: "owns s xs A pd V" and v: "vpn va \<in> V"
  obtains f rights where "uspace s pd (vpn va) = Some (f, UWP)" "mmu s pd va = Some (f, rights)"
    "rights AND PTE_W \<noteq> 0" "f \<notin> structural s A"
    "\<And>q w g. q \<in> A \<Longrightarrow> uspace s q w = Some (f, g) \<Longrightarrow> q = pd \<and> w = vpn va"
proof -
  note O = ownsD [OF o]
  from O(6) [OF v] obtain f where f: "uspace s pd (vpn va) = Some (f, UWP)"
    "\<And>q w g. q \<in> A \<Longrightarrow> uspace s q w = Some (f, g) \<Longrightarrow> q = pd \<and> w = vpn va" by blast
  have va: "va < UTOP" using vpn_user [OF f(1)] .
  note s = vpn_slot [OF O(1,2) va f(1)]
  from mmu_writable [OF O(1,2) va O(4) f(1) UWP_facts(2)] show ?thesis using that f s(6) by blast
qed

lemma PGOFF_neq: "vpn w = vpn va \<Longrightarrow> w \<noteq> va \<Longrightarrow> unat (PGOFF w) \<noteq> unat (PGOFF va)"
  using div_mult_mod_eq [of "unat w" 4096] div_mult_mod_eq [of "unat va" 4096]
  by (auto simp: vpn_page_at unat_PGOFF word_unat_eq_iff)

lemma store8_owned:
  assumes o: "owns s xs A pd V" and c: "cr3 s = pd" and v: "vpn va \<in> V"
  shows "\<exists>t. store8 va b s = Ret () t \<and> owns t xs A pd V \<and> others s t A pd \<and>
    umem t pd = (umem s pd)(va \<mapsto> b)"
proof -
  note O = ownsD [OF o]
  from owns_page [OF o v] obtain f rights where f: "uspace s pd (vpn va) = Some (f, UWP)"
    "mmu s pd va = Some (f, rights)" "rights AND PTE_W \<noteq> 0" "f \<notin> structural s A"
    "\<And>q w g. q \<in> A \<Longrightarrow> uspace s q w = Some (f, g) \<Longrightarrow> q = pd \<and> w = vpn va" by metis
  let ?t = "wr_byte f (unat (PGOFF va)) b s"
  have t: "?t = s\<lparr>kmem := (kmem s)(f := kmem ?t f)\<rparr>"
    by (simp add: wr_byte_def Let_def wr_word_def fun_eq_iff)
  note w = vm_ok_write [OF O(1) f(4), where g = "kmem ?t f", folded t]
  have k: "kmem ?t g = kmem s g" if "g \<noteq> f" for g using that
    by (simp add: wr_byte_def Let_def wr_word_def)
  have "f \<noteq> pd" using f(4) structuralI(1) [OF O(2)] by auto
  with O(4) have "dir_writable ?t pd" by (simp add: dir_writable_def has_tbl_def k)
  then have ow: "owns ?t xs A pd V" using O w(1,3) by (simp add: owns_def)
  have se: "same_env s ?t" by (simp add: wr_byte_def Let_def)
  have kw: "kmem ?t g = kmem s g" if "q \<in> A" "uspace s q y = Some (g, fl)" "q \<noteq> pd \<or> y \<noteq> vpn va" for q y g fl
    by (rule k) (use f(5) [OF that(1)] that in blast)
  have ot: "umem ?t q = umem s q" if q: "q \<in> A" "q \<noteq> pd" for q
    by (rule ext, rule umem_keeps) (use w(3) [OF q(1)] kw [OF q(1)] q(2) in simp_all)
  moreover have "umem ?t pd = (umem s pd)(va \<mapsto> b)"
  proof
    fix y show "umem ?t pd y = ((umem s pd)(va \<mapsto> b)) y"
    proof (cases "vpn y = vpn va")
      case True
      then show ?thesis using w(3) [OF O(2)] f(1) PGOFF_neq [OF True]
        by (auto simp: umem_def rd_wr_byte rd_wr_byte_other)
    next
      case False
      then have "y \<noteq> va" by auto
      moreover have "umem ?t pd y = umem s pd y"
        by (rule umem_keeps) (use w(3) [OF O(2)] kw [OF O(2)] False in simp_all)
      ultimately show ?thesis by simp
    qed
  qed
  ultimately show ?thesis using w(3) f(2,3) c ot se ow
    by (intro exI [of _ ?t]) (simp add: store8_def others_def)
qed

lemma others_cr3: "others s t A pd \<Longrightarrow> cr3 t = cr3 s \<and> envs t = envs s"
  by (simp add: others_def same_env_def)

lemma store_bytes_owned:
  assumes "owns s xs A pd V" "cr3 s = pd" "unat va + length bs \<le> 2 ^ 32"
    "\<And>k. k < length bs \<Longrightarrow> page_at ((unat va + k) div 4096) \<in> V"
  shows "\<exists>t. store_bytes va bs s = Ret () t \<and> owns t xs A pd V \<and> others s t A pd \<and>
    umem t pd = (\<lambda>w. if unat va \<le> unat w \<and> unat w < unat va + length bs
      then Some (bs ! (unat w - unat va)) else umem s pd w)"
  using assms
proof (induction bs arbitrary: va s)
  case Nil
  then show ?case by (auto simp: fun_eq_iff)
next
  case (Cons b bs)
  have "vpn va \<in> V" using Cons.prems(4) [of 0] by (simp add: vpn_page_at)
  from store8_owned [OF Cons.prems(1,2) this, of b] obtain u where
    u: "store8 va b s = Ret () u" "owns u xs A pd V" "others s u A pd" "umem u pd = (umem s pd)(va \<mapsto> b)"
    by blast
  show ?case
  proof (cases "bs = []")
    case True
    then show ?thesis using u by (auto simp: fun_eq_iff word_unat_eq_iff)
  next
    case False
    then have va: "unat (va + 1) = unat va + 1" using Cons.prems(3) by (cases bs) (auto simp: unat_word_ariths)
    have "\<exists>t. store_bytes (va + 1) bs u = Ret () t \<and> owns t xs A pd V \<and> others u t A pd \<and>
        umem t pd = (\<lambda>w. if unat (va + 1) \<le> unat w \<and> unat w < unat (va + 1) + length bs
          then Some (bs ! (unat w - unat (va + 1))) else umem u pd w)"
    proof (rule Cons.IH [OF u(2)])
      show "cr3 u = pd" using others_cr3 [OF u(3)] Cons.prems(2) by simp
      show "unat (va + 1) + length bs \<le> 2 ^ 32" using Cons.prems(3) va by simp
      show "page_at ((unat (va + 1) + k) div 4096) \<in> V" if "k < length bs" for k
        using Cons.prems(4) [of "Suc k"] that va by simp
    qed
    then obtain t where t: "store_bytes (va + 1) bs u = Ret () t" "owns t xs A pd V" "others u t A pd"
      "umem t pd = (\<lambda>w. if unat va + 1 \<le> unat w \<and> unat w < unat va + 1 + length bs
          then Some (bs ! (unat w - (unat va + 1))) else umem u pd w)" unfolding va by blast
    have "umem t pd w = (if unat va \<le> unat w \<and> unat w < unat va + length (b # bs)
      then Some ((b # bs) ! (unat w - unat va)) else umem s pd w)" for w
      using t(4) u(4) by (cases "unat w = unat va") (auto simp: word_unat_eq_iff nth_Cons')
    then show ?thesis using u(1) t(1,2) others_trans [OF u(3) t(3)] by auto
  qed
qed

section \<open>The image of a program\<close>

text \<open>
  The segments of an image that are loaded; the byte of a segment at an address, which is 0 behind the bytes of the file and
  in the rest of the segment's pages; and the memory of the whole image, with one page of stack.
\<close>

definition load_segs :: "(nat \<Rightarrow> u8) \<Rightarrow> Proghdr list" where
  "load_segs binary = filter (\<lambda>ph. p_type ph = ELF_PROG_LOAD) (proghdrs binary)"

definition seg_pages :: "Proghdr \<Rightarrow> nat set" where
  "seg_pages ph = region_pages (p_va ph) (p_memsz ph)"

definition seg_byte :: "(nat \<Rightarrow> u8) \<Rightarrow> Proghdr \<Rightarrow> u32 \<Rightarrow> u8" where
  "seg_byte binary ph va =
     (if unat (p_va ph) \<le> unat va \<and> unat va < unat (p_va ph) + unat (p_filesz ph)
      then binary (unat (p_offset ph) + (unat va - unat (p_va ph))) else 0)"

fun segs_mem :: "(nat \<Rightarrow> u8) \<Rightarrow> Proghdr list \<Rightarrow> u32 \<Rightarrow> u8 option" where
  "segs_mem binary [] va = None"
| "segs_mem binary (ph # phs) va =
     (if unat va div 4096 \<in> seg_pages ph then Some (seg_byte binary ph va)
      else segs_mem binary phs va)"

definition user_stack_page :: nat where "user_stack_page = unat (USTACKTOP - PGSIZE) div 4096"

definition image_mem :: "(nat \<Rightarrow> u8) \<Rightarrow> u32 \<Rightarrow> u8 option" where
  "image_mem binary va =
     (if unat va div 4096 = user_stack_page then Some 0 else segs_mem binary (load_segs binary) va)"

text \<open>
  What the comment of \<open>load_icode\<close> says it may assume, and the least that makes sense of a segment: it lies
  below the stack, the part in the file is not longer than the whole, and no two segments touch the same page.
\<close>

fun segs_ok :: "Proghdr list \<Rightarrow> bool" where
  "segs_ok [] = True"
| "segs_ok (ph # phs) = (p_filesz ph \<le> p_memsz ph \<and>
     unat (p_va ph) + unat (p_memsz ph) \<le> unat (USTACKTOP - PGSIZE) \<and>
     (\<forall>ph'\<in>set phs. seg_pages ph \<inter> seg_pages ph' = {}) \<and> segs_ok phs)"

definition segs_frames :: "Proghdr list \<Rightarrow> nat" where
  "segs_frames phs = 2 * (\<Sum>ph\<leftarrow>phs. card (seg_pages ph))"

lemma load_segment_ok:
  assumes o: "owns s xs A pd V" and e: "env_pgdir (envs s e) = Some pd" and c: "cr3 s = pd"
    and t: "p_type ph = ELF_PROG_LOAD" and f: "p_filesz ph \<le> p_memsz ph"
    and l: "unat (p_va ph) + unat (p_memsz ph) \<le> unat (USTACKTOP - PGSIZE)"
    and n: "2 * card (seg_pages ph) \<le> length xs" and d: "page_at ` seg_pages ph \<inter> V = {}"
  shows "\<exists>t n. load_segment e binary ph s = Ret () t \<and> n \<le> 2 * card (seg_pages ph) \<and>
    owns t (drop n xs) A pd (V \<union> page_at ` seg_pages ph) \<and> others s t A pd \<and>
    umem t pd = (\<lambda>w. if unat w div 4096 \<in> seg_pages ph then Some (seg_byte binary ph w) else umem s pd w)"
proof -
  define a where "a = unat (p_va ph)"
  define m where "m = unat (p_memsz ph)"
  define k where "k = unat (p_filesz ph)"
  have km: "k \<le> m" using f by (simp add: k_def m_def word_le_nat_alt)
  have U: "unat (USTACKTOP - PGSIZE) = 0xEEBFD000" "unat UTOP = 0xEEC00000" by (simp_all add: layout_values PGSIZE_def)
  have am: "a + m \<le> 0xEEBFD000" using l by (simp add: a_def m_def U)
  let ?bs = "map (\<lambda>k. binary (unat (p_offset ph) + k)) [0..<unat (p_filesz ph)]"
  let ?V = "V \<union> page_at ` seg_pages ph"
  have pg: "(a + j) div 4096 \<in> seg_pages ph" if "j < m" for j
  proof -
    have "a div 4096 \<le> (a + j) div 4096" by (rule div_le_mono) simp
    moreover have "(a + j) div 4096 < (a + m + 4095) div 4096"
      using div_le_mono [of "a + j + 4096" "a + m + 4095" 4096] that by simp
    ultimately show ?thesis by (simp add: seg_pages_def region_pages_def a_def m_def)
  qed
  have "unat (p_va ph) + unat (p_memsz ph) \<le> unat UTOP" using l U by simp
  from region_alloc_ok [OF o e this n [unfolded seg_pages_def] d [unfolded seg_pages_def], folded seg_pages_def]
  obtain s1 i where
    s1: "region_alloc e (p_va ph) (p_memsz ph) s = Ret () s1" "i \<le> 2 * card (seg_pages ph)"
      "owns s1 (drop i xs) A pd ?V" "others s s1 A pd"
      "umem s1 pd = (\<lambda>w. if unat w div 4096 \<in> seg_pages ph then Some 0 else umem s pd w)"
    by blast
  have "\<exists>s2. store_bytes (p_va ph) ?bs s1 = Ret () s2 \<and> owns s2 (drop i xs) A pd ?V \<and> others s1 s2 A pd \<and>
      umem s2 pd = (\<lambda>w. if unat (p_va ph) \<le> unat w \<and> unat w < unat (p_va ph) + length ?bs
        then Some (?bs ! (unat w - unat (p_va ph))) else umem s1 pd w)"
    using others_cr3 [OF s1(4)] c am km pg
    by (intro store_bytes_owned [OF s1(3)]) (auto simp: a_def m_def k_def)
  then obtain s2 where s2: "store_bytes (p_va ph) ?bs s1 = Ret () s2" "owns s2 (drop i xs) A pd ?V"
    "others s1 s2 A pd" "umem s2 pd = (\<lambda>w. if a \<le> unat w \<and> unat w < a + k
        then Some (?bs ! (unat w - a)) else umem s1 pd w)"
    unfolding a_def k_def by auto
  have pw: "unat w div 4096 \<in> seg_pages ph" if "a \<le> unat w" "unat w < a + m" for w :: u32
    using pg [of "unat w - a"] that by simp
  have m2: "umem s2 pd w = (if unat w div 4096 \<in> seg_pages ph then Some (seg_byte binary ph w) else umem s pd w)" for w
    using pw [of w] km
    by (auto simp: s2(4) s1(5) seg_byte_def simp flip: a_def k_def)
  show ?thesis
  proof (cases "p_filesz ph < p_memsz ph")
    case False
    then show ?thesis using s1(1,2) s2 others_trans [OF s1(4) s2(3)] t m2
      by (intro exI [of _ s2] exI [of _ i]) (simp add: load_segment_def fun_eq_iff)
  next
    case True
    then have "k < m" by (simp add: k_def m_def word_less_nat_alt)
    have z: "unat (p_va ph + p_filesz ph) = a + k" "unat (p_memsz ph - p_filesz ph) = m - k"
      using am km True by (simp_all add: a_def k_def m_def unat_word_ariths unat_sub less_imp_le)
    let ?z = "replicate (unat (p_memsz ph - p_filesz ph)) (0 :: u8)"
    have "\<exists>s3. store_bytes (p_va ph + p_filesz ph) ?z s2 = Ret () s3 \<and> owns s3 (drop i xs) A pd ?V \<and>
        others s2 s3 A pd \<and> umem s3 pd = (\<lambda>w. if unat (p_va ph + p_filesz ph) \<le> unat w \<and>
          unat w < unat (p_va ph + p_filesz ph) + length ?z
          then Some (?z ! (unat w - unat (p_va ph + p_filesz ph))) else umem s2 pd w)"
    proof (rule store_bytes_owned [OF s2(2)])
      show "cr3 s2 = pd" using others_cr3 [OF s1(4)] others_cr3 [OF s2(3)] c by simp
      show "unat (p_va ph + p_filesz ph) + length ?z \<le> 2 ^ 32" using am km by (simp add: z)
      show "page_at ((unat (p_va ph + p_filesz ph) + j) div 4096) \<in> ?V" if "j < length ?z" for j
        using pg [of "k + j"] that by (simp add: z add.assoc)
    qed
    then obtain s3 where s3: "store_bytes (p_va ph + p_filesz ph) ?z s2 = Ret () s3" "owns s3 (drop i xs) A pd ?V"
      "others s2 s3 A pd" "umem s3 pd = (\<lambda>w. if a + k \<le> unat w \<and> unat w < a + k + (m - k)
          then Some (replicate (m - k) 0 ! (unat w - (a + k))) else umem s2 pd w)"
      unfolding z by auto
    have "umem s3 pd w = umem s2 pd w" for w
      using pw [of w] km \<open>k < m\<close> by (auto simp: s3(4) m2 seg_byte_def simp flip: a_def k_def)
    then show ?thesis
      using s1(1,2) s2(1) s3(1,2) others_trans [OF others_trans [OF s1(4) s2(3)] s3(3)] t m2 True
      by (intro exI [of _ s3] exI [of _ i]) (simp add: load_segment_def fun_eq_iff)
  qed
qed

lemma owns_cong:
  assumes "kmem t = kmem s" "pages t = pages s" "npages t = npages s" "page_free_list t = page_free_list s"
  shows "owns t = owns s" "umem t = umem s" "uspace t = uspace s"
proof -
  show u: "uspace t = uspace s" by (rule uspace_kmem_cong [OF assms(1)])
  then have "umem t q w = umem s q w" for q w using assms(1) by (intro umem_keeps) simp_all
  then show "umem t = umem s" by (simp add: fun_eq_iff)
  have "owns t xs A pd V = owns s xs A pd V" for xs A pd V
    by (simp only: owns_def u vm_ok_cong [OF assms] dir_writable_def has_tbl_def assms(1))
  then show "owns t = owns s" by (simp add: fun_eq_iff)
qed

lemma segs_mem_None: "(\<And>ph. ph \<in> set phs \<Longrightarrow> unat va div 4096 \<notin> seg_pages ph) \<Longrightarrow> segs_mem binary phs va = None"
  by (induction phs) auto

lemma load_segments_owned:
  assumes "owns s xs A pd V" "env_pgdir (envs s e) = Some pd" "cr3 s = pd"
    "segs_ok (filter (\<lambda>ph. p_type ph = ELF_PROG_LOAD) phs)"
    "segs_frames (filter (\<lambda>ph. p_type ph = ELF_PROG_LOAD) phs) \<le> length xs"
    "\<And>ph. ph \<in> set phs \<Longrightarrow> p_type ph = ELF_PROG_LOAD \<Longrightarrow> page_at ` seg_pages ph \<inter> V = {}"
  shows "\<exists>t n W. forO (load_segment e binary) phs s = Ret () t \<and>
    n \<le> segs_frames (filter (\<lambda>ph. p_type ph = ELF_PROG_LOAD) phs) \<and>
    owns t (drop n xs) A pd W \<and> W \<subseteq> V \<union> page_at ` (\<Union>ph\<in>{ph\<in>set phs. p_type ph = ELF_PROG_LOAD}. seg_pages ph) \<and>
    others s t A pd \<and> umem t pd = (\<lambda>w. case segs_mem binary (filter (\<lambda>ph. p_type ph = ELF_PROG_LOAD) phs) w of
      Some b \<Rightarrow> Some b | None \<Rightarrow> umem s pd w)"
  using assms
proof (induction phs arbitrary: s xs V)
  case Nil
  then show ?case by (intro exI [of _ s] exI [of _ "0::nat"] exI [of _ V]) auto
next
  case (Cons ph phs)
  let ?L = "filter (\<lambda>ph. p_type ph = ELF_PROG_LOAD)"
  show ?case
  proof (cases "p_type ph = ELF_PROG_LOAD")
    case False
    have "\<exists>t n W. forO (load_segment e binary) phs s = Ret () t \<and> n \<le> segs_frames (?L phs) \<and>
      owns t (drop n xs) A pd W \<and> W \<subseteq> V \<union> page_at ` (\<Union>ph\<in>{ph\<in>set phs. p_type ph = ELF_PROG_LOAD}. seg_pages ph) \<and>
      others s t A pd \<and> umem t pd = (\<lambda>w. case segs_mem binary (?L phs) w of Some b \<Rightarrow> Some b | None \<Rightarrow> umem s pd w)"
      by (rule Cons.IH [OF Cons.prems(1-3)]) (use Cons.prems(4-6) False in auto)
    moreover have "load_segment e binary ph s = Ret () s" using False by (simp add: load_segment_def)
    moreover have "{h \<in> set (ph # phs). p_type h = ELF_PROG_LOAD} = {h \<in> set phs. p_type h = ELF_PROG_LOAD}"
      using False by auto
    ultimately show ?thesis using False by (simp only: forO.simps bindO.simps filter.simps if_False)
  next
    case True
    note so = Cons.prems(4) [unfolded filter.simps, simplified True, simplified]
    have c: "2 * card (seg_pages ph) \<le> length xs" using Cons.prems(5) True by (simp add: segs_frames_def)
    have d: "page_at ` seg_pages ph \<inter> V = {}" using Cons.prems(6) True by simp
    obtain u m where u: "load_segment e binary ph s = Ret () u" "m \<le> 2 * card (seg_pages ph)"
      "owns u (drop m xs) A pd (V \<union> page_at ` seg_pages ph)" "others s u A pd"
      "umem u pd = (\<lambda>w. if unat w div 4096 \<in> seg_pages ph then Some (seg_byte binary ph w) else umem s pd w)"
      using load_segment_ok [OF Cons.prems(1-3) True _ _ c d] so by blast
    have "\<exists>t n W. forO (load_segment e binary) phs u = Ret () t \<and> n \<le> segs_frames (?L phs) \<and>
      owns t (drop n (drop m xs)) A pd W \<and>
      W \<subseteq> (V \<union> page_at ` seg_pages ph) \<union> page_at ` (\<Union>ph\<in>{ph\<in>set phs. p_type ph = ELF_PROG_LOAD}. seg_pages ph) \<and>
      others u t A pd \<and> umem t pd = (\<lambda>w. case segs_mem binary (?L phs) w of Some b \<Rightarrow> Some b | None \<Rightarrow> umem u pd w)"
    proof (rule Cons.IH [OF u(3)])
      show "env_pgdir (envs u e) = Some pd" "cr3 u = pd"
        using others_cr3 [OF u(4)] Cons.prems(2,3) by simp_all
      show "segs_ok (?L phs)" using so by simp
      show "segs_frames (?L phs) \<le> length (drop m xs)"
        using Cons.prems(5) True u(2) by (simp add: segs_frames_def)
      fix h assume h: "h \<in> set phs" "p_type h = ELF_PROG_LOAD"
      then have "seg_pages ph \<inter> seg_pages h = {}" "page_at ` seg_pages h \<inter> V = {}"
        using so Cons.prems(6) by auto
      then show "page_at ` seg_pages h \<inter> (V \<union> page_at ` seg_pages ph) = {}" by (auto simp: disjoint_iff)
    qed
    then obtain t n W where t: "forO (load_segment e binary) phs u = Ret () t" "n \<le> segs_frames (?L phs)"
      "owns t (drop n (drop m xs)) A pd W"
      "W \<subseteq> (V \<union> page_at ` seg_pages ph) \<union> page_at ` (\<Union>ph\<in>{ph\<in>set phs. p_type ph = ELF_PROG_LOAD}. seg_pages ph)"
      "others u t A pd" "umem t pd = (\<lambda>w. case segs_mem binary (?L phs) w of Some b \<Rightarrow> Some b | None \<Rightarrow> umem u pd w)"
      by blast
    have "umem t pd w = (case segs_mem binary (?L (ph # phs)) w of Some b \<Rightarrow> Some b | None \<Rightarrow> umem s pd w)" for w
    proof (cases "unat w div 4096 \<in> seg_pages ph")
      case in_ph: True
      then have "segs_mem binary (?L phs) w = None" using so by (intro segs_mem_None) auto
      with in_ph True show ?thesis by (simp add: t(6) u(5))
    next
      case False
      with True show ?thesis by (simp add: t(6) u(5) split: option.split)
    qed
    moreover have "W \<subseteq> V \<union> page_at ` (\<Union>h\<in>{h\<in>set (ph # phs). p_type h = ELF_PROG_LOAD}. seg_pages h)"
      using t(4) True by auto
    moreover have "n + m \<le> segs_frames (?L (ph # phs))" using t(2) u(2) True by (simp add: segs_frames_def)
    ultimately show ?thesis using u(1) t(1,3) others_trans [OF u(4) t(5)] True
      by (intro exI [of _ t] exI [of _ "n + m"] exI [of _ W]) auto
  qed
qed

lemma segs_below_stack: "segs_ok phs \<Longrightarrow> ph \<in> set phs \<Longrightarrow> user_stack_page \<notin> seg_pages ph"
proof (induction phs)
  case (Cons h phs)
  have "user_stack_page \<notin> seg_pages h" if "unat (p_va h) + unat (p_memsz h) \<le> unat (USTACKTOP - PGSIZE)"
    using that by (auto simp: seg_pages_def region_pages_def user_stack_page_def layout_values PGSIZE_def)
  with Cons show ?case by auto
qed simp

lemma stack_region: "region_pages (USTACKTOP - PGSIZE) PGSIZE = {user_stack_page}"
  by (auto simp: region_pages_def user_stack_page_def layout_values PGSIZE_def)

lemma load_icode_ok:
  assumes o: "owns s xs A pd {}" and e: "env_pgdir (envs s e) = Some pd"
    and m: "e_magic (elf_at binary) = ELF_MAGIC" and so: "segs_ok (load_segs binary)"
    and n: "segs_frames (load_segs binary) + 2 \<le> length xs"
  shows "\<exists>t n W. load_icode e binary s = Ret () t \<and> owns t (drop n xs) A pd W \<and> umem t pd = image_mem binary \<and>
    (\<forall>q\<in>A - {pd}. uspace t q = uspace s q \<and> umem t q = umem s q) \<and>
    same_env (upd_env e (\<lambda>v. v\<lparr>env_tf := (env_tf v)\<lparr>tf_eip := e_entry (elf_at binary)\<rparr>\<rparr>) s) t"
proof -
  let ?s = "lcr3 pd s" and ?f = "\<lambda>v. v\<lparr>env_tf := (env_tf v)\<lparr>tf_eip := e_entry (elf_at binary)\<rparr>\<rparr>"
  have cs: "owns ?s = owns s" "umem ?s = umem s" "uspace ?s = uspace s"
    by (intro owns_cong; simp add: lcr3_def)+
  have "\<exists>t n W. forO (load_segment e binary) (proghdrs binary) ?s = Ret () t \<and> n \<le> segs_frames (load_segs binary) \<and>
    owns t (drop n xs) A pd W \<and>
    W \<subseteq> {} \<union> page_at ` (\<Union>ph\<in>{ph\<in>set (proghdrs binary). p_type ph = ELF_PROG_LOAD}. seg_pages ph) \<and>
    others ?s t A pd \<and> umem t pd = (\<lambda>w. case segs_mem binary (load_segs binary) w of Some b \<Rightarrow> Some b | None \<Rightarrow> umem ?s pd w)"
    unfolding load_segs_def
    by (rule load_segments_owned) (use o e so n in \<open>simp_all add: cs load_segs_def\<close>)
  from this [unfolded cs(2)] obtain u n W where u: "forO (load_segment e binary) (proghdrs binary) ?s = Ret () u"
    "n \<le> segs_frames (load_segs binary)" "owns u (drop n xs) A pd W"
    "W \<subseteq> page_at ` (\<Union>ph\<in>set (load_segs binary). seg_pages ph)" "others ?s u A pd"
    "umem u pd = (\<lambda>w. case segs_mem binary (load_segs binary) w of Some b \<Rightarrow> Some b | None \<Rightarrow> umem s pd w)"
    by (auto simp: load_segs_def)
  let ?u = "lcr3 (cr3 s) (upd_env e ?f u)"
  have cu: "owns ?u = owns u" "umem ?u = umem u" "uspace ?u = uspace u"
    by (intro owns_cong; simp add: lcr3_def)+
  have d: "page_at ` region_pages (USTACKTOP - PGSIZE) PGSIZE \<inter> W = {}"
    using u(4) segs_below_stack [OF so] by (auto simp: stack_region)
  have c: "2 * card (region_pages (USTACKTOP - PGSIZE) PGSIZE) \<le> length (drop n xs)"
    using u(2) n by (simp add: stack_region)
  have e': "env_pgdir (envs ?u e) = Some pd" using others_cr3 [OF u(5)] e by (simp add: lcr3_def)
  have l: "unat (USTACKTOP - PGSIZE) + unat PGSIZE \<le> unat UTOP" by (simp add: layout_values PGSIZE_def)
  have o': "owns ?u (drop n xs) A pd W" using u(3) by (simp add: cu(1))
  from region_alloc_ok [OF o' e' l c d, unfolded stack_region cu(2)] obtain t k where
    t: "region_alloc e (USTACKTOP - PGSIZE) PGSIZE ?u = Ret () t"
    "owns t (drop k (drop n xs)) A pd (W \<union> page_at ` {user_stack_page})" "others ?u t A pd"
    "umem t pd = (\<lambda>w. if unat w div 4096 \<in> {user_stack_page} then Some 0 else umem u pd w)"
    by (elim exE conjE) (rule that)
  have "umem s pd w = None" for w using owns_None [OF o] by (simp add: umem_def)
  then have "umem t pd = image_mem binary"
    by (simp add: t(4) u(6) image_mem_def fun_eq_iff split: option.split)
  moreover have "load_icode e binary s = Ret () t"
    using e m u(1) t(1) by (simp add: load_icode_def Let_def)
  moreover have "same_env (upd_env e ?f s) t"
    using u(5) t(3) by (auto simp: others_def same_env_def lcr3_def upd_env_def)
  moreover have "\<forall>q\<in>A - {pd}. uspace t q = uspace s q \<and> umem t q = umem s q"
    using u(5) t(3) by (simp add: others_def cu cs)
  ultimately show ?thesis using t(2) unfolding drop_drop by blast
qed

section \<open>Creating an environment\<close>

text \<open>
  C10: \<open>env_create\<close> loads the program: for an image whose segments lie below the stack and touch no page
  in common, and with enough frames (twice the pages of the image, for page tables may be needed too),
  it takes the first free slot, and afterwards the memory of the new environment, as the program
  sees it through its page tables, is the image of the file: the bytes of the segments at their
  addresses, zeros behind them, one page of zeros for the stack and nothing else, all of it writable.
  The environment is runnable and will start at the entry point, the page directory in use is the same as
  before, the memory of all other environments is what it was, and the invariants hold.
\<close>

theorem env_create_loads_program:
  assumes "vm_ok s (p # ps) A" "free_envs_ok s (e # es)" "0 \<notin> set ps"
    "e_magic (elf_at binary) = ELF_MAGIC" "segs_ok (load_segs binary)"
    "segs_frames (load_segs binary) + 2 \<le> length ps"
  shows "\<exists>t n. env_create binary ty s = Ret () t \<and> vm_ok t (drop n ps) (insert p A) \<and> free_envs_ok t es \<and>
    env_pgdir (envs t e) = Some p \<and> umem t p = image_mem binary \<and> (\<forall>m\<in>ran (uspace t p). snd m = UWP) \<and>
    tf_eip (env_tf (envs t e)) = e_entry (elf_at binary) \<and> env_type (envs t e) = ty \<and>
    env_status (envs t e) = ENV_RUNNABLE \<and> cr3 t = cr3 s \<and> (\<forall>x. x \<noteq> e \<longrightarrow> envs t x = envs s x) \<and>
    (\<forall>q\<in>A. uspace t q = uspace s q \<and> umem t q = umem s q)"
proof -
  let ?s = "with_env e p 0 s" and ?f = "\<lambda>v. v\<lparr>env_tf := (env_tf v)\<lparr>tf_eip := e_entry (elf_at binary)\<rparr>\<rparr>"
  note a = env_alloc_with_env [OF assms(1,2), where parent = 0]
  have pA: "p \<notin> A" using vm_free_frame(2) [OF assms(1), of p] by simp
  have um: "umem ?s q = umem s q" if q: "q \<in> A" for q
  proof (rule ext, rule umem_keeps)
    show "uspace ?s q (vpn w) = uspace s q (vpn w)" for w using a(5) [OF q] by simp
    show "kmem ?s f = kmem s f" if "uspace s q (vpn w) = Some (f, fl)" for w f fl
      using mapped_frame(2) [OF assms(1) q that] by (intro a(6)) auto
  qed
  have "dir_writable ?s p" using a(7) by (simp add: dir_writable_def has_tbl_def)
  then have "owns ?s ps (insert p A) p {}" using a(2,4) assms(3) by (simp add: owns_def)
  from load_icode_ok [OF this a(8) assms(4-6)] obtain t n W where
    t: "load_icode e binary ?s = Ret () t" "owns t (drop n ps) (insert p A) p W" "umem t p = image_mem binary"
      "\<forall>q\<in>insert p A - {p}. uspace t q = uspace ?s q \<and> umem t q = umem ?s q" "same_env (upd_env e ?f ?s) t" by blast
  let ?t = "upd_env e (\<lambda>v. v\<lparr>env_type := ty\<rparr>) t"
  have cg: "owns ?t = owns t" "umem ?t = umem t" "uspace ?t = uspace t" by (intro owns_cong; simp)+
  have "\<forall>m\<in>ran (uspace t p). snd m = UWP"
  proof
    fix m assume "m \<in> ran (uspace t p)"
    then obtain v where v: "uspace t p v = Some m" by (auto simp: ran_def)
    with owns_None [OF t(2), of v] have "v \<in> W" by (cases "v \<in> W") auto
    from owns_Some [OF t(2) this] v show "snd m = UWP" by auto
  qed
  moreover have "env_create binary ty s = Ret () ?t" using a(1) t(1) by (simp add: env_create_def)
  moreover have "vm_ok ?t (drop n ps) (insert p A)" using owns_vm [OF t(2)] by simp
  moreover have "envs t = envs (upd_env e ?f ?s)" "env_free_list t = env_free_list ?s" "cr3 t = cr3 s"
    using t(5) a(9) by (simp_all add: same_env_def)
  moreover have "env_link (envs ?t x) = env_link (envs ?s x)" "env_status (envs ?t x) = env_status (envs ?s x)" for x
    using calculation(4) by simp_all
  then have "free_envs_ok ?t es" using a(3) calculation(5) by (simp add: free_envs_ok_def)
  ultimately show ?thesis
    using t(3,4) a(5,8,10,11) um pA by (intro exI [of _ ?t] exI [of _ n]) (simp add: cg)
qed

text \<open>
  \<open>region_alloc\<close> panics if there is no frame for a page, as its comment says, but it ignores the result of
  \<open>page_insert\<close>: if the last free frame is the one for the page and a page table is missing, it returns
  without having mapped the page, and the frame is lost.
\<close>

theorem region_alloc_misses_page:
  assumes "vm_ok s [p] A" "pd \<in> A" "env_pgdir (envs s e) = Some pd" "va < UTOP" "unat va mod 4096 = 0"
    "0 < p" "\<not> has_tbl s pd (unat (PDX va))"
  shows "region_alloc e va PGSIZE s = Ret () (popped 1 p s) \<and> uspace (popped 1 p s) pd (vpn va) = None \<and>
    vm_ok (popped 1 p s) [] A"
proof -
  let ?u = "popped 1 p s"
  note pop = vm_ok_popped [OF assms(1)]
  have h: "\<not> has_tbl ?u pd (unat (PDX va))" using assms(2,7) pop(7) by simp
  have "page_insert pd p va (PTE_W OR PTE_U) ?u = Ret (- E_NO_MEM) ?u"
    using walk_new [OF pop(1) assms(2,4) h] by (simp add: page_insert_def)
  moreover have "page_alloc 1 s = Ret (Some p) ?u" by (rule page_alloc_Cons [OF vm_free [OF assms(1)]])
  ultimately have l: "region_alloc_loop pd 1 va s = Ret () ?u" by (simp add: One_nat_def)
  have "unat va < 0xEEC00000" using assms(4) by (simp add: word_less_nat_alt layout_values)
  then have n: "unat (va + PGSIZE) = unat va + 4096" by (simp add: unat_word_ariths unat_PGSIZE)
  obtain c where c: "unat va = 4096 * c" using assms(5) by auto
  have "ROUNDDOWN va PGSIZE = va" using assms(5)
    by (simp add: word_unat_eq_iff unat_ROUNDDOWN unat_PGSIZE)
  moreover have "unat (ROUNDUP (va + PGSIZE) PGSIZE) = unat (va + PGSIZE)"
    using unat_ROUNDUP [of PGSIZE "va + PGSIZE"] \<open>unat va < 0xEEC00000\<close> c
    by (simp add: n unat_PGSIZE)
  then have "ROUNDUP (va + PGSIZE) PGSIZE = va + PGSIZE" by (simp add: word_unat_eq_iff)
  moreover have "va < va + PGSIZE" by (simp add: word_less_nat_alt n)
  moreover have "(va + PGSIZE - va) div PGSIZE = 1" by (simp add: PGSIZE_def)
  ultimately have "region_alloc e va PGSIZE s = Ret () ?u"
    using l assms(3) by (simp add: region_alloc_def Let_def)
  moreover have "uspace ?u pd (vpn va) = None" using h unfolding uspace_vpn [OF assms(4)] by (simp add: amap_def vpn_def)
  ultimately show ?thesis using pop(1) by simp
qed

section \<open>Witnesses\<close>

text \<open>
  A machine with five free frames and one free environment, and an image with one segment of four bytes
  in the file and eight in memory.
\<close>

definition pool_state :: kstate where
  "pool_state = bss_state\<lparr>npages := 8, page_free_list := Some 3, env_free_list := Some 0,
     pages := (\<lambda>f. \<lparr>pp_link = (if 3 \<le> f \<and> f < 7 then Some (f + 1) else None), pp_ref = (if f < 3 then 1 else 0)\<rparr>)\<rparr>"

definition demo_binary :: "nat \<Rightarrow> u8" where
  "demo_binary = (\<lambda>_. 0)(0 := 0x7F, 1 := 0x45, 2 := 0x4C, 3 := 0x46, 24 := 0x20, 26 := 0x80, 28 := 52, 44 := 1,
     52 := 1, 56 := 84, 60 := 0x20, 62 := 0x80, 68 := 4, 72 := 8, 84 := 0xCD, 85 := 0x30, 86 := 0xEB, 87 := 0xFE)"

lemma pool_ok: "vm_ok pool_state [3, 4, 5, 6, 7] {}" "free_envs_ok pool_state [0]"
proof -
  have "free_pages_ok pool_state [3, 4, 5, 6, 7]"
    by (auto simp: free_pages_ok_def pool_state_def)
  moreover have "slots pool_state {} = {}" "mappers pool_state {} f = {}" for f
    by (auto simp: slots_def mappers_def)
  ultimately show "vm_ok pool_state [3, 4, 5, 6, 7] {}" by (simp add: vm_ok_def structural_def)
  show "free_envs_ok pool_state [0]"
    by (simp add: free_envs_ok_def pool_state_def bss_state_def zero_Env_def NENV_def LOG2NENV_def)
qed

lemma demo_binary_facts:
  "e_magic (elf_at demo_binary) = ELF_MAGIC" "e_entry (elf_at demo_binary) = 0x800020"
  "load_segs demo_binary = [\<lparr>p_type = 1, p_offset = 84, p_va = 0x800020, p_pa = 0, p_filesz = 4, p_memsz = 8,
     p_flags = 0, p_align = 0\<rparr>]"
proof -
  have e: "elf_at demo_binary = \<lparr>e_magic = 0x464C457F, e_entry = 0x800020, e_phoff = 52, e_phnum = 1\<rparr>"
    by (simp add: elf_at_def le32_def le16_def demo_binary_def)
  then show "e_magic (elf_at demo_binary) = ELF_MAGIC" "e_entry (elf_at demo_binary) = 0x800020"
    by (simp_all add: ELF_MAGIC_def)
  have "proghdr_at demo_binary 52 = \<lparr>p_type = 1, p_offset = 84, p_va = 0x800020, p_pa = 0, p_filesz = 4, p_memsz = 8,
     p_flags = 0, p_align = 0\<rparr>"
    by (simp add: proghdr_at_def le32_def demo_binary_def)
  then show "load_segs demo_binary = [\<lparr>p_type = 1, p_offset = 84, p_va = 0x800020, p_pa = 0, p_filesz = 4, p_memsz = 8,
     p_flags = 0, p_align = 0\<rparr>]"
    by (simp add: load_segs_def proghdrs_def e Let_def ELF_PROG_LOAD_def)
qed

lemma demo_binary_loads:
  "segs_ok (load_segs demo_binary)" "segs_frames (load_segs demo_binary) = 2"
  "image_mem demo_binary 0x800020 = Some 0xCD" "image_mem demo_binary 0x800024 = Some 0"
  "image_mem demo_binary 0 = None"
  by (simp_all add: demo_binary_facts segs_frames_def image_mem_def user_stack_page_def seg_byte_def seg_pages_def
      region_pages_def layout_values PGSIZE_def) (simp_all add: demo_binary_def)

theorem env_create_loads_program_witness:
  "\<exists>t. env_create demo_binary ENV_TYPE_USER pool_state = Ret () t \<and> umem t 3 0x800020 = Some 0xCD \<and>
     umem t 3 0x800024 = Some 0 \<and> umem t 3 0 = None \<and> tf_eip (env_tf (envs t 0)) = 0x800020"
proof -
  have "segs_frames (load_segs demo_binary) + 2 \<le> length [4, 5, 6, 7 :: nat]" "0 \<notin> set [4, 5, 6, 7 :: nat]"
    by (simp_all add: demo_binary_loads)
  from env_create_loads_program [OF pool_ok this(2) demo_binary_facts(1) demo_binary_loads(1) this(1), where ty = ENV_TYPE_USER]
  show ?thesis by (auto simp: demo_binary_loads demo_binary_facts)
qed

theorem region_alloc_misses_page_witness:
  "\<exists>t. region_alloc 0 0x800000 PGSIZE env_state = Ret () t \<and> uspace t 1 (vpn 0x800000) = None"
proof -
  have "\<not> has_tbl env_state 1 (unat (PDX 0x800000))"
    by (simp add: env_state_def mapped_state_def has_tbl_def unat_PDX with_tbl_kmem)
      (simp add: blank_state_def bss_state_def)
  moreover have "(0x800000 :: u32) < UTOP" by (simp add: layout_values)
  ultimately show ?thesis
    using region_alloc_misses_page [OF env_state_ok(1) _ env_state_ok(4), where va = "0x800000"] by auto
qed

end
