(* ===== verification/Jos_Kernel.thy ===== *)
theory Jos_Kernel
  imports Jos_Trap
begin

text \<open>
  The invariant of the whole kernel. \<open>kernel_ok\<close> ties the table of environments to the address spaces, the
  page tables, the reference counts and both free lists; \<open>cpus_ok\<close> ties it to the CPUs. Every trap, with
  every system call in it, leads from a state at rest to a state at rest. Where the code does not check
  what it would have to, the condition a call must meet is part of \<open>legal_call\<close>.
\<close>

section \<open>How kernel code ends\<close>

text \<open>
  \<open>ends x P Q\<close>: the code does not panic; it returns with \<open>P\<close> or leaves the kernel with \<open>Q\<close>.
\<close>

definition ends :: "('s, 'a) outcome \<Rightarrow> ('a \<Rightarrow> 's \<Rightarrow> bool) \<Rightarrow> (leave \<Rightarrow> 's \<Rightarrow> bool) \<Rightarrow> bool" where
  "ends x P Q = (case x of Ret a t \<Rightarrow> P a t | Panic m \<Rightarrow> False | Leave l t \<Rightarrow> Q l t)"

lemma ends_simps [simp]:
  "ends (Ret a t) P Q = P a t" "\<not> ends (Panic m) P Q" "ends (Leave l t) P Q = Q l t"
  by (simp_all add: ends_def)

lemma ends_bindO: "ends (bindO x f) P Q = ends x (\<lambda>a t. ends (f a t) P Q) Q"
  by (cases x) simp_all

lemma ends_weaken: "ends x P Q \<Longrightarrow> (\<And>a t. P a t \<Longrightarrow> P' a t) \<Longrightarrow> ends x P' Q"
  by (cases x) simp_all

lemma ends_if: "ends (if b then x else y) P Q \<longleftrightarrow> (b \<longrightarrow> ends x P Q) \<and> (\<not> b \<longrightarrow> ends y P Q)"
  by simp

lemma ends_option: "ends (case r of None \<Rightarrow> x | Some p \<Rightarrow> f p) P Q \<longleftrightarrow>
    (r = None \<longrightarrow> ends x P Q) \<and> (\<forall>p. r = Some p \<longrightarrow> ends (f p) P Q)"
  by (cases r) auto

lemma ends_deref: "ends (deref p f s) P Q = (\<exists>e. p = Some e \<and> ends (f e s) P Q)"
  by (cases p) (simp_all add: deref_def)

section \<open>The invariant\<close>

definition spaces :: "kstate \<Rightarrow> nat set" where
  "spaces s = {pd. \<exists>e<NENV. env_pgdir (envs s e) = Some pd}"

text \<open>
  The table of environments: the free slots are those without an address space, no two environments
  share one, and the free list holds free slots only. Frame 0 is in use for good and never mapped, which
  the comparisons with the zero address in \<open>page_insert\<close> rely on.
\<close>

definition envs_ok :: "kstate \<Rightarrow> bool" where
  "envs_ok s \<longleftrightarrow> (\<forall>e<NENV. env_status (envs s e) = ENV_FREE \<longleftrightarrow> env_pgdir (envs s e) = None) \<and>
     (\<forall>d<NENV. \<forall>e<NENV. \<forall>p. env_pgdir (envs s d) = Some p \<longrightarrow> env_pgdir (envs s e) = Some p \<longrightarrow> d = e) \<and>
     (\<exists>es. free_envs_ok s es)"

definition frames_ok :: "kstate \<Rightarrow> nat list \<Rightarrow> nat set \<Rightarrow> bool" where
  "frames_ok s xs A \<longleftrightarrow> vm_ok s xs A \<and> (\<forall>q\<in>A. dir_writable s q) \<and> reserved s A 0 \<and> pp_ref (pages s 0) \<noteq> 0"

definition kernel_ok :: "kstate \<Rightarrow> bool" where
  "kernel_ok s \<longleftrightarrow> envs_ok s \<and> (\<exists>xs. frames_ok s xs (spaces s))"

text \<open>
  A CPU that is not in the kernel: it runs its current environment, which another CPU may
  have marked dying, with the page directory of that environment loaded, or it has none, and then is halted, not in
  use, or waits for the lock to enter the scheduler for the first time. No two CPUs have the same one. \<open>R d\<close> is the directory that CPU \<open>d\<close> has loaded; \<open>cr3\<close> is
  that of this CPU.
\<close>

definition at_rest :: "(nat \<Rightarrow> nat) \<Rightarrow> kstate \<Rightarrow> nat \<Rightarrow> bool" where
  "at_rest R s d \<longleftrightarrow> (case cpu_env (cpus s d) of
     None \<Rightarrow> True
   | Some e \<Rightarrow> cpu_status (cpus s d) \<noteq> CPU_HALTED \<and> e < NENV \<and> env_pgdir (envs s e) = Some (R d) \<and>
       (env_status (envs s e) = ENV_RUNNING \<or> env_status (envs s e) = ENV_DYING))"

definition cpus_ok :: "(nat \<Rightarrow> nat) \<Rightarrow> kstate \<Rightarrow> nat set \<Rightarrow> bool" where
  "cpus_ok R s D \<longleftrightarrow> (\<forall>d\<in>D. at_rest R s d) \<and>
     (\<forall>c d e. cpu_env (cpus s c) = Some e \<longrightarrow> cpu_env (cpus s d) = Some e \<longrightarrow> c = d)"

text \<open>While this CPU is in the kernel, and when all of them are outside.\<close>

definition in_kernel :: "(nat \<Rightarrow> nat) \<Rightarrow> kstate \<Rightarrow> bool" where
  "in_kernel R s \<longleftrightarrow> holding (this_cpu s) (kernel_lock s) \<and> cpus_ok R s (- {this_cpu s}) \<and>
     cpu_status (cpus s (this_cpu s)) \<noteq> CPU_HALTED \<and>
     (\<forall>c. curenv s = Some c \<longrightarrow> c < NENV \<and> env_pgdir (envs s c) = Some (cr3 s))"

definition resting :: "(nat \<Rightarrow> nat) \<Rightarrow> kstate \<Rightarrow> bool" where
  "resting R s \<longleftrightarrow> kernel_ok s \<and> cpus_ok R s UNIV \<and> locked (kernel_lock s) = 0"

text \<open>What holds when the kernel is left.\<close>

definition left_ok :: "(nat \<Rightarrow> nat) \<Rightarrow> leave \<Rightarrow> kstate \<Rightarrow> bool" where
  "left_ok R l t \<longleftrightarrow> l \<noteq> Spinning \<and> kernel_ok t \<and>
     (l = EnterUser \<or> l = CpuHalted \<longrightarrow> resting (R(this_cpu t := cr3 t)) t)"

definition kept :: "(nat \<Rightarrow> nat) \<Rightarrow> kstate \<Rightarrow> bool" where
  "kept R s \<longleftrightarrow> kernel_ok s \<and> in_kernel R s"

section \<open>Basic facts\<close>

lemma frames_okD:
  assumes "frames_ok s xs A"
  shows frames_vm: "vm_ok s xs A" and frames_0: "reserved s A 0" and frames_ref: "pp_ref (pages s 0) \<noteq> 0"
    and frames_dirs: "\<forall>q\<in>A. dir_writable s q" and frames_free: "0 \<notin> set xs"
proof -
  show v: "vm_ok s xs A" "reserved s A 0" "pp_ref (pages s 0) \<noteq> 0" "\<forall>q\<in>A. dir_writable s q"
    using assms by (simp_all add: frames_ok_def)
  then show "0 \<notin> set xs" using vm_free [OF v(1)] unfolding free_pages_ok_def by blast
qed

lemma reserved_cong: "kmem t = kmem s \<Longrightarrow> reserved t A g = reserved s A g"
  by (simp only: reserved_def vm_kmem_cong [of t s] uspace_kmem_cong [of t s])

lemma frames_ok_cong:
  assumes "kmem t = kmem s" "pages t = pages s" "npages t = npages s" "page_free_list t = page_free_list s"
  shows "frames_ok t xs A = frames_ok s xs A"
proof -
  have "dir_writable t q = dir_writable s q" for q by (rule dir_writable_cong) (simp add: assms(1))
  then show ?thesis by (simp only: frames_ok_def vm_ok_cong [OF assms] reserved_cong [OF assms(1)] assms(2))
qed

lemma free_envs_ok_cong:
  assumes "env_free_list t = env_free_list s" "\<And>e. env_link (envs t e) = env_link (envs s e)"
    "\<And>e. e < NENV \<Longrightarrow> env_status (envs s e) = ENV_FREE \<Longrightarrow> env_status (envs t e) = ENV_FREE"
  shows "free_envs_ok s es \<Longrightarrow> free_envs_ok t es"
  using assms by (simp add: free_envs_ok_def)

text \<open>Only these fields matter for the invariant.\<close>

lemma kernel_ok_cong:
  assumes "kmem t = kmem s" "pages t = pages s" "npages t = npages s" "page_free_list t = page_free_list s"
    "env_free_list t = env_free_list s" "\<And>e. env_link (envs t e) = env_link (envs s e)"
    "\<And>e. env_pgdir (envs t e) = env_pgdir (envs s e)"
    "\<And>e. e < NENV \<Longrightarrow> env_status (envs t e) = ENV_FREE \<longleftrightarrow> env_status (envs s e) = ENV_FREE"
  shows "kernel_ok s \<Longrightarrow> kernel_ok t"
proof -
  assume ok: "kernel_ok s"
  have sp: "spaces t = spaces s" by (simp add: spaces_def assms(7))
  have "\<exists>es. free_envs_ok t es"
    using ok free_envs_ok_cong [of t s, OF assms(5,6)] assms(8) by (auto simp: kernel_ok_def envs_ok_def)
  then show "kernel_ok t"
    using ok assms(7,8) by (auto simp: kernel_ok_def envs_ok_def sp frames_ok_cong [OF assms(1-4)])
qed

lemma kernel_ok_upd_env:
  assumes "kernel_ok s" "\<And>v. env_pgdir (f v) = env_pgdir v" "\<And>v. env_link (f v) = env_link v"
    "env_status (f (envs s e)) = ENV_FREE \<longleftrightarrow> env_status (envs s e) = ENV_FREE"
  shows "kernel_ok (upd_env e f s)"
  by (rule kernel_ok_cong [OF _ _ _ _ _ _ _ _ assms(1)]) (use assms(2-4) in auto)

lemma kernel_ok_frame [simp]:
  "kernel_ok (lcr3 pd s) = kernel_ok s" "kernel_ok (set_curenv c s) = kernel_ok s"
  "kernel_ok (upd_this_cpu f s) = kernel_ok s" "kernel_ok (s\<lparr>kernel_lock := l\<rparr>) = kernel_ok s"
  "kernel_ok (s\<lparr>cons := k\<rparr>) = kernel_ok s" "kernel_ok (s\<lparr>user_mem_check_addr := a\<rparr>) = kernel_ok s"
  by (rule iffI; erule kernel_ok_cong [rotated -1]; simp add: upd_this_cpu_def)+

lemma envs_pgdir:
  assumes "kernel_ok s" "e < NENV" "env_status (envs s e) \<noteq> ENV_FREE"
  shows "\<exists>pd\<in>spaces s. env_pgdir (envs s e) = Some pd"
  using assms by (cases "env_pgdir (envs s e)") (auto simp: kernel_ok_def envs_ok_def spaces_def)

lemma in_kernel_cur:
  assumes "in_kernel R s" "kernel_ok s" "curenv s = Some c"
  shows "c < NENV" "env_status (envs s c) \<noteq> ENV_FREE" "env_pgdir (envs s c) = Some (cr3 s)" "cr3 s \<in> spaces s"
  using assms by (auto simp: in_kernel_def kernel_ok_def envs_ok_def spaces_def)

lemma keptD: "kept R s \<Longrightarrow> kernel_ok s" "kept R s \<Longrightarrow> in_kernel R s"
  by (simp_all add: kept_def)

lemma kept_cur:
  assumes "kept R s" "curenv s = Some c"
  shows "c < NENV" "env_status (envs s c) \<noteq> ENV_FREE" "env_pgdir (envs s c) = Some (cr3 s)" "cr3 s \<in> spaces s"
  using in_kernel_cur [OF keptD(2,1) [OF assms(1)] assms(2)] by simp_all

lemma cpu_status_set_curenv [simp]: "cpu_status (cpus (set_curenv c s) d) = cpu_status (cpus s d)"
  by (simp add: set_curenv_def upd_this_cpu_def)

lemma cpus_okD:
  assumes "cpus_ok R s D"
  shows "d \<in> D \<Longrightarrow> cpu_env (cpus s d) = Some e \<Longrightarrow> cpu_status (cpus s d) \<noteq> CPU_HALTED \<and> e < NENV \<and>
      env_pgdir (envs s e) = Some (R d) \<and> (env_status (envs s e) = ENV_RUNNING \<or> env_status (envs s e) = ENV_DYING)"
    and "cpu_env (cpus s c) = Some e \<Longrightarrow> cpu_env (cpus s d) = Some e \<Longrightarrow> c = d"
  using assms by (auto simp: cpus_ok_def at_rest_def split: option.splits)

text \<open>This CPU changes its own fields and environments no other CPU runs, or marks one dying.\<close>

lemma cpus_ok_step:
  assumes ok: "cpus_ok R s (- {m})" and c: "\<And>d. d \<noteq> m \<Longrightarrow> cpus t d = cpus s d"
    and e: "\<And>d e. d \<noteq> m \<Longrightarrow> cpu_env (cpus s d) = Some e \<Longrightarrow>
      env_pgdir (envs t e) = env_pgdir (envs s e) \<and>
      (env_status (envs t e) = env_status (envs s e) \<or> env_status (envs t e) = ENV_DYING)"
    and u: "\<And>d e. cpu_env (cpus t m) = Some e \<Longrightarrow> d \<noteq> m \<Longrightarrow> cpu_env (cpus s d) \<noteq> Some e"
  shows "cpus_ok R t (- {m})"
  unfolding cpus_ok_def
proof (intro conjI ballI allI impI)
  fix d assume d: "d \<in> - {m}"
  then have "at_rest R s d" using ok by (simp add: cpus_ok_def)
  then show "at_rest R t d" using d c e by (fastforce simp: at_rest_def split: option.splits)
next
  fix c' d e assume h: "cpu_env (cpus t c') = Some e" "cpu_env (cpus t d) = Some e"
  show "c' = d"
  proof (cases "c' = m \<or> d = m")
    case True
    with h u [of e] c show ?thesis by metis
  next
    case False
    with h c cpus_okD(2) [OF ok] show ?thesis by simp
  qed
qed

lemma cpus_ok_all:
  assumes "cpus_ok R s (- {m})" "at_rest (R(m := x)) s m"
  shows "cpus_ok (R(m := x)) s UNIV"
proof -
  have "at_rest (R(m := x)) s d" for d
  proof (cases "d = m")
    case False
    with assms(1) have "at_rest R s d" by (simp add: cpus_ok_def)
    with False show ?thesis by (simp add: at_rest_def cong: option.case_cong)
  qed (use assms(2) in simp)
  then show ?thesis using assms(1) by (auto simp: cpus_ok_def)
qed

text \<open>Steps that touch neither the CPUs nor the environments.\<close>

lemma cpus_ok_cong: "cpus t = cpus s \<Longrightarrow> envs t = envs s \<Longrightarrow> cpus_ok R t D = cpus_ok R s D"
  by (simp add: cpus_ok_def at_rest_def cong: option.case_cong)

lemma cpus_set_curenv:
  "cpus (set_curenv c s) = (cpus s)(this_cpu s := (cpus s (this_cpu s))\<lparr>cpu_env := c\<rparr>)"
  by (simp add: set_curenv_def upd_this_cpu_def)

text \<open>A CPU that has no environment to go back to.\<close>

lemma kept_no_env:
  assumes "kernel_ok s" "holding (this_cpu s) (kernel_lock s)" "cpus_ok R s (- {this_cpu s})"
    "cpu_status (cpus s (this_cpu s)) \<noteq> CPU_HALTED"
  shows "kept R (set_curenv None s)"
proof -
  have "cpus_ok R (set_curenv None s) (- {this_cpu s})"
    by (rule cpus_ok_step [OF assms(3)]) (simp_all add: cpus_set_curenv)
  moreover have "curenv (set_curenv None s) = None" by simp
  ultimately show ?thesis using assms by (simp add: kept_def in_kernel_def)
qed

section \<open>Switching to an environment\<close>

lemma env_run_ends:
  assumes k: "kept R s" and e: "e < NENV" "env_status (envs s e) \<noteq> ENV_FREE"
    and o: "\<And>d. d \<noteq> this_cpu s \<Longrightarrow> cpu_env (cpus s d) \<noteq> Some e"
  shows "ends (env_run e s) P (left_ok R)"
proof -
  from k have ok: "kernel_ok s" and ik: "in_kernel R s" by (simp_all add: kept_def)
  from envs_pgdir [OF ok e] obtain pd where pd: "env_pgdir (envs s e) = Some pd" by auto
  define q where "q = (case curenv s of None \<Rightarrow> s | Some c \<Rightarrow>
      if env_status (envs s c) = ENV_RUNNING then upd_env c (\<lambda>v. v\<lparr>env_status := ENV_RUNNABLE\<rparr>) s else s)"
  let ?u = "lcr3 pd (upd_env e (\<lambda>v. v\<lparr>env_runs := env_runs v + 1\<rparr>)
      (upd_env e (\<lambda>v. v\<lparr>env_status := ENV_RUNNING\<rparr>) (set_curenv (Some e) q)))"
  have q: "this_cpu q = this_cpu s" "kernel_lock q = kernel_lock s" "cpus q = cpus s"
    "env_pgdir (envs q e) = Some pd" "\<And>x. env_status (envs q x) = preempted s x"
    "\<And>x. env_pgdir (envs q x) = env_pgdir (envs s x)"
    using pd by (auto simp: q_def preempted_def split: option.splits)
  have okq: "kernel_ok q"
    using ok by (auto simp: q_def intro!: kernel_ok_upd_env split: option.split)
  have qe: "env_status (envs q e) \<noteq> ENV_FREE" using e(2) by (simp add: q(5) preempted_def)
  have h: "holding (this_cpu ?u) (kernel_lock ?u)" using ik q by (simp add: in_kernel_def)
  from unlock_held [OF h] obtain l where l: "unlock_kernel ?u = Ret () (?u\<lparr>kernel_lock := l\<rparr>)" "locked l = 0" by auto
  have r: "env_run e s = env_pop_tf (?u\<lparr>kernel_lock := l\<rparr>)"
    using l(1) q(4) by (simp add: env_run_def Let_def q_def [symmetric])
  let ?t = "upd_env e (\<lambda>v. v\<lparr>env_cpunum := this_cpu s\<rparr>) (?u\<lparr>kernel_lock := l\<rparr>)"
  have "kernel_ok ?t" using okq qe by (auto intro!: kernel_ok_upd_env)
  moreover have "cpus_ok (R(this_cpu s := pd)) ?t UNIV"
  proof (rule cpus_ok_all [OF cpus_ok_step [of R s "this_cpu s"]])
    show "cpus_ok R s (- {this_cpu s})" using ik by (simp add: in_kernel_def)
    then show "env_pgdir (envs ?t x) = env_pgdir (envs s x) \<and>
        (env_status (envs ?t x) = env_status (envs s x) \<or> env_status (envs ?t x) = ENV_DYING)"
      if "d \<noteq> this_cpu s" "cpu_env (cpus s d) = Some x" for d x
      using that o [of d] cpus_okD(2) [of R s _ d x "this_cpu s"] by (auto simp: q preempted_def curenv_def)
    show "at_rest (R(this_cpu s := pd)) ?t (this_cpu s)"
      using ik e(1) q(1,3,4) by (simp add: at_rest_def in_kernel_def set_curenv_def upd_this_cpu_def)
  qed (use o q in \<open>auto simp: set_curenv_def upd_this_cpu_def\<close>)
  ultimately have "resting (R(this_cpu ?t := cr3 ?t)) ?t" using l(2) q(1) by (simp add: resting_def)
  then show ?thesis using \<open>kernel_ok ?t\<close> by (simp add: r env_pop_tf_def left_ok_def q)
qed

lemma sched_halt_ends:
  assumes k: "kept R s"
  shows "ends (sched_halt s) P (left_ok R)"
proof -
  let ?u = "upd_this_cpu (\<lambda>c. c\<lparr>cpu_status := CPU_HALTED\<rparr>) (lcr3 (kern_pgdir s) (set_curenv None s))"
  have u: "this_cpu ?u = this_cpu s" "kernel_lock ?u = kernel_lock s" "envs ?u = envs s"
    "curenv ?u = None" "cpu_status (cpus ?u (this_cpu s)) = CPU_HALTED"
    by (simp_all add: upd_this_cpu_def curenv_def)
  have h: "holding (this_cpu ?u) (kernel_lock ?u)" using k u by (simp add: kept_def in_kernel_def)
  from unlock_held [OF h] obtain l where l: "unlock_kernel ?u = Ret () (?u\<lparr>kernel_lock := l\<rparr>)" "locked l = 0" by auto
  have "cpus_ok (R(this_cpu s := kern_pgdir s)) (?u\<lparr>kernel_lock := l\<rparr>) UNIV"
    by (rule cpus_ok_all [OF cpus_ok_step [of R s "this_cpu s"]])
      (use k u(4,5) in \<open>auto simp: kept_def in_kernel_def upd_this_cpu_def at_rest_def curenv_def cpus_set_curenv\<close>)
  moreover have "cr3 ?u = kern_pgdir s" by (simp add: lcr3_def upd_this_cpu_def)
  ultimately have "resting (R(this_cpu ?u := cr3 ?u)) (?u\<lparr>kernel_lock := l\<rparr>)" using k l(2) u by (simp add: resting_def kept_def)
  then show ?thesis using l k by (simp add: sched_halt_def Let_def left_ok_def resting_def kept_def)
qed

lemma sched_yield_ends:
  assumes k: "kept R s"
  shows "ends (sched_yield s) P (left_ok R)"
proof -
  define b where "b = (case curenv s of None \<Rightarrow> 0 | Some c \<Rightarrow> ENVX (env_id (envs s c)) + 1)"
  have o: "cpus_ok R s (- {this_cpu s})" using k by (simp add: kept_def in_kernel_def)
  show ?thesis
  proof (cases "sched_search (envs s) NENV 0 b")
    case (Some e)
    from sched_search_Some [OF this] have e: "e < NENV" "env_status (envs s e) = ENV_RUNNABLE"
      using probe_less by auto
    have "cpu_env (cpus s d) \<noteq> Some e" if "d \<noteq> this_cpu s" for d
      using cpus_okD(1) [OF o, of d e] e(2) that by auto
    with env_run_ends [OF k e(1)] e(2) Some show ?thesis by (simp add: sched_yield_def Let_def b_def)
  next
    case None
    have "ends (env_run c s) P (left_ok R)" if c: "curenv s = Some c" "env_status (envs s c) = ENV_RUNNING" for c
    proof (rule env_run_ends [OF k])
      show "c < NENV" using k c(1) by (simp add: kept_def in_kernel_def)
      show "env_status (envs s c) \<noteq> ENV_FREE" using c(2) by simp
      show "cpu_env (cpus s d) \<noteq> Some c" if "d \<noteq> this_cpu s" for d
        using cpus_okD(2) [OF o, of d c "this_cpu s"] c(1) that by (auto simp: curenv_def)
    qed
    with None sched_halt_ends [OF k] show ?thesis
      by (auto simp: sched_yield_def Let_def b_def split: option.split)
  qed
qed

section \<open>Freeing and destroying\<close>

lemma chain_in:
  assumes "free_envs_ok s es" "env_status (envs s e) \<noteq> ENV_FREE"
  shows "e \<notin> set es"
  using assms by (auto simp: free_envs_ok_def)

lemma env_free_kept:
  assumes k: "kernel_ok s" and e: "e < NENV" "env_status (envs s e) \<noteq> ENV_FREE"
  shows "\<exists>t. env_free e s = Ret () t \<and> kernel_ok t \<and> envs t = (envs s)(e := (envs s e)\<lparr>env_pgdir := None,
      env_status := ENV_FREE, env_link := env_free_list s\<rparr>) \<and> cpus t = cpus s \<and> this_cpu t = this_cpu s \<and>
    kernel_lock t = kernel_lock s \<and> (curenv s \<noteq> Some e \<longrightarrow> cr3 t = cr3 s)"
proof -
  from k obtain xs es where x: "envs_ok s" "frames_ok s xs (spaces s)" "free_envs_ok s es"
    by (auto simp: kernel_ok_def envs_ok_def)
  from envs_pgdir [OF k e] obtain pd where pd: "env_pgdir (envs s e) = Some pd" "pd \<in> spaces s" by auto
  from env_free_ok [OF frames_vm [OF x(2)] pd(2,1)] obtain t ys where
    t: "env_free e s = Ret () t" "vm_ok t ys (spaces s - {pd})" "envs t = (envs s)(e := (envs s e)\<lparr>env_pgdir := None,
      env_status := ENV_FREE, env_link := env_free_list s\<rparr>)" "env_free_list t = Some e" "cpus t = cpus s"
      "this_cpu t = this_cpu s" "kernel_lock t = kernel_lock s" "curenv s \<noteq> Some e \<longrightarrow> cr3 t = cr3 s"
      "\<forall>g. reserved s (spaces s) g \<longrightarrow> reserved t (spaces s - {pd}) g \<and> pages t g = pages s g"
      "\<forall>q\<in>spaces s - {pd}. kmem t q = kmem s q"
    by (elim exE conjE) (rule that)
  have sp: "spaces t = spaces s - {pd}"
  proof -
    have "env_pgdir (envs s d) = Some pd \<longleftrightarrow> d = e" if "d < NENV" for d
      using x(1) that e(1) pd(1) unfolding envs_ok_def by blast
    note u = this
    have pt: "env_pgdir (envs t d) = (if d = e then None else env_pgdir (envs s d))" for d by (simp add: t(3))
    show ?thesis
    proof (rule set_eqI)
      fix p
      have "p \<in> spaces t \<longleftrightarrow> (\<exists>d<NENV. d \<noteq> e \<and> env_pgdir (envs s d) = Some p)"
        unfolding spaces_def pt by auto
      also have "\<dots> \<longleftrightarrow> p \<in> spaces s - {pd}" using u pd(1) by (auto simp: spaces_def)
      finally show "p \<in> spaces t \<longleftrightarrow> p \<in> spaces s - {pd}" .
    qed
  qed
  have "\<forall>q\<in>spaces t. dir_writable t q"
    using t(10) frames_dirs [OF x(2)] dir_writable_cong [of t _ s] by (simp add: sp)
  then have "frames_ok t ys (spaces t)"
    using t(2,9) frames_0 [OF x(2)] frames_ref [OF x(2)] by (simp add: frames_ok_def sp)
  moreover have "free_envs_ok t (e # es)"
  proof -
    have ne: "e \<notin> set es" by (rule chain_in [OF x(3) e(2)])
    have "chain (\<lambda>x. env_link (envs t x)) (env_free_list s) es = chain (\<lambda>x. env_link (envs s x)) (env_free_list s) es"
      by (rule chain_cong) (use ne in \<open>auto simp: t(3)\<close>)
    then show ?thesis using x(3) ne e(1) t(4) by (simp add: free_envs_ok_def t(3))
  qed
  then have "envs_ok t" using x(1) unfolding envs_ok_def by (auto simp: t(3))
  ultimately have "kernel_ok t" by (auto simp: kernel_ok_def)
  with t show ?thesis by blast
qed

text \<open>An environment no other CPU has as its own, or one that is marked for the CPU that runs it.\<close>

definition quiet :: "kstate \<Rightarrow> nat \<Rightarrow> bool" where
  "quiet s e \<longleftrightarrow> (env_status (envs s e) = ENV_RUNNING \<or> env_status (envs s e) = ENV_DYING \<longrightarrow> curenv s = Some e)"

lemma quiet_elsewhere:
  assumes "cpus_ok R s (- {this_cpu s})" "quiet s e" "d \<noteq> this_cpu s"
  shows "cpu_env (cpus s d) \<noteq> Some e"
  using cpus_okD [OF assms(1)] assms(2,3) unfolding quiet_def curenv_def by fastforce

lemma env_destroy_ends:
  assumes k: "kept R s" and e: "e < NENV" "env_status (envs s e) \<noteq> ENV_FREE"
    and q: "env_status (envs s e) = ENV_DYING \<longrightarrow> curenv s = Some e"
  shows "ends (env_destroy e s) (\<lambda>_ t. kept R t \<and> curenv s \<noteq> Some e) (left_ok R)"
proof (cases "env_status (envs s e) = ENV_RUNNING \<and> curenv s \<noteq> Some e")
  case True
  have "kernel_ok (upd_env e (\<lambda>v. v\<lparr>env_status := ENV_DYING\<rparr>) s)"
    using k e(2) by (intro kernel_ok_upd_env) (auto simp: kept_def)
  moreover have "cpus_ok R (upd_env e (\<lambda>v. v\<lparr>env_status := ENV_DYING\<rparr>) s) (- {this_cpu s})"
    by (rule cpus_ok_step [of R s]) (use k cpus_okD(2) in \<open>auto simp: kept_def in_kernel_def\<close>)
  ultimately have "kept R (upd_env e (\<lambda>v. v\<lparr>env_status := ENV_DYING\<rparr>) s)"
    using k unfolding kept_def in_kernel_def by auto
  with True show ?thesis by (simp add: env_destroy_def)
next
  case False
  have ok: "kernel_ok s" and o: "cpus_ok R s (- {this_cpu s})" using k by (simp_all add: kept_def in_kernel_def)
  have ne: "cpu_env (cpus s d) \<noteq> Some e" if "d \<noteq> this_cpu s" for d
    using False q quiet_elsewhere [OF o _ that, of e] by (auto simp: quiet_def)
  from env_free_kept [OF ok e] obtain t where t: "env_free e s = Ret () t" "kernel_ok t"
    "envs t = (envs s)(e := (envs s e)\<lparr>env_pgdir := None, env_status := ENV_FREE, env_link := env_free_list s\<rparr>)"
    "cpus t = cpus s" "this_cpu t = this_cpu s" "kernel_lock t = kernel_lock s" "curenv s \<noteq> Some e \<longrightarrow> cr3 t = cr3 s" by blast
  have ct: "curenv t = curenv s" by (simp add: curenv_def t(4,5))
  have ot: "cpus_ok R t (- {this_cpu s})"
    by (rule cpus_ok_step [OF o]) (use ne cpus_okD(2) [OF o] in \<open>auto simp: t(3,4)\<close>)
  show ?thesis
  proof (cases "curenv s = Some e")
    case True
    have "kept R (set_curenv None t)"
      using k t(2) ot by (intro kept_no_env) (simp_all add: t(4-6) kept_def in_kernel_def)
    from sched_yield_ends [OF this] show ?thesis using False True by (simp add: env_destroy_def t(1) ct)
  next
    case ne: False
    have "kept R t" using k ne t(2,7) ot unfolding kept_def in_kernel_def
      by (auto simp: t(3-6) ct)
    with False ne show ?thesis by (simp add: env_destroy_def t(1) ct)
  qed
qed

end
