(* ===== verification/Jos_Calls.thy ===== *)
theory Jos_Calls
  imports Jos_Kernel
begin

text \<open>
  Every system call keeps the invariant of the kernel, if it is legal; what \<open>legal\<close> asks is what the code
  does not check itself.
\<close>

section \<open>Page operations\<close>

lemma kept_frames:
  assumes "kept R s"
  obtains xs where "frames_ok s xs (spaces s)"
  using assms that by (auto simp: kept_def kernel_ok_def)

lemma kept_same_env:
  assumes k: "kept R s" and se: "same_env s t" and fr: "frames_ok t ys (spaces s)"
  shows "kept R t"
proof -
  have e: "envs t = envs s" "cpus t = cpus s" "this_cpu t = this_cpu s" "kernel_lock t = kernel_lock s" "cr3 t = cr3 s"
    "env_free_list t = env_free_list s" "curenv t = curenv s"
    using se same_env_curenv [OF se] by (simp_all add: same_env_def)
  have sp: "spaces t = spaces s" by (simp add: spaces_def e)
  have "envs_ok t" using k e by (simp add: kept_def kernel_ok_def envs_ok_def free_envs_ok_def)
  with fr have "kernel_ok t" by (auto simp: kernel_ok_def sp)
  moreover have "in_kernel R t" using k e cpus_ok_cong [OF e(2,1)] by (simp add: kept_def in_kernel_def)
  ultimately show ?thesis by (simp add: kept_def)
qed

lemma insert_frames:
  assumes f: "frames_ok s xs A" and pd: "pd \<in> A" and va: "va < UTOP" and p: "mappable s xs A p" and l: "PTE_ADDR perm = 0"
  shows "ends (page_insert pd p va perm s) (\<lambda>r t. same_env s t \<and> (\<exists>ys. frames_ok t ys A)) Q"
proof -
  note v = frames_vm [OF f]
  from page_insert_full [OF v pd va p l] show ?thesis
  proof (elim disjE exE conjE)
    assume "page_insert pd p va perm s = Ret (- E_NO_MEM) s"
    with f show ?thesis by auto
  next
    fix t ys assume t: "page_insert pd p va perm s = Ret 0 t" "vm_ok t ys A"
      "\<forall>q\<in>A. uspace t q = (if q = pd then (uspace s q)(vpn va \<mapsto> (p, perm OR PTE_P)) else uspace s q)"
      "structural t A \<subseteq> structural s A \<union> set xs"
      "\<forall>g. g \<noteq> p \<longrightarrow> g \<notin> set xs \<longrightarrow> (\<forall>fl. uspace s pd (vpn va) \<noteq> Some (g, fl)) \<longrightarrow> pages t g = pages s g"
    note z = frames_0 [OF f] frames_free [OF f]
    have p0: "p \<noteq> 0" using p by (simp add: mappable_def)
    have "pages t 0 = pages s 0" using t(5) z(2) p0 reservedD(2) [OF z(1) pd] by metis
    moreover have "reserved t A 0"
      unfolding reserved_def
    proof (intro conjI ballI allI)
      show "0 \<notin> structural t A" using t(4) z(2) reservedD(1) [OF z(1)] by blast
      show "uspace t q w \<noteq> Some (0, fl)" if "q \<in> A" for q w fl
        using bspec [OF t(3) that] reservedD(2) [OF z(1) that] p0 by (auto simp: fun_upd_def split: if_splits)
    qed
    moreover have "\<forall>q\<in>A. dir_writable t q"
      using page_insert_dir_writable [OF v pd va t(1)] frames_dirs [OF f] by blast
    ultimately have "frames_ok t ys A" using t(2) frames_ref [OF f] by (simp add: frames_ok_def)
    with t(1) wlpD [OF page_insert_same t(1)] show ?thesis by auto
  qed
qed

lemma alloc_frames:
  assumes f: "frames_ok s xs A"
  shows "ends (page_alloc ALLOC_ZERO s) (\<lambda>r t. same_env s t \<and>
    (\<exists>ys. frames_ok t ys A \<and> (\<forall>p. r = Some p \<longrightarrow> mappable t ys A p))) Q"
proof (cases xs)
  case Nil
  with page_alloc_Nil [of s] vm_free [OF frames_vm [OF f]] f show ?thesis by auto
next
  case (Cons p ps)
  with f have f: "frames_ok s (p # ps) A" by simp
  note v = frames_vm [OF f] and z = frames_0 [OF f] frames_free [OF f] frames_ref [OF f]
  let ?u = "popped 1 p s"
  note pop = vm_ok_popped [OF v]
  have p: "p < npages s" "p \<noteq> 0" using vm_free [OF v] z(2) by (auto simp: free_pages_ok_def)
  have a: "page_alloc ALLOC_ZERO s = Ret (Some p) ?u"
    using page_alloc_Cons [OF vm_free [OF v]] by (simp add: ALLOC_ZERO_def)
  have se: "same_env s ?u" using wlpD [OF page_alloc_same a] .
  have "dir_writable ?u q" if "q \<in> A" for q
  proof -
    have "q \<noteq> p" using vm_free_frame(2) [OF v, of p] that by auto
    then have "kmem ?u q = kmem s q" by simp
    from dir_writable_cong [OF this] frames_dirs [OF f] that show ?thesis by simp
  qed
  moreover have "reserved ?u A 0" using reservedD [OF z(1)] by (simp add: reserved_def pop(2,3))
  moreover have "pp_ref (pages ?u 0) = pp_ref (pages s 0)" using p(2) by simp
  ultimately have fu: "frames_ok ?u ps A" using pop(1) z(3) by (simp add: frames_ok_def)
  have "mappable ?u ps A p" using p pop(3-6) by (simp add: mappable_def)
  with fu se show ?thesis by (auto simp: a)
qed

text \<open>
  The address is mapped or has no page table. At the unmapped addresses a page table covers,
  \<open>page_lookup\<close> and \<open>page_remove\<close> take frame 0 for the page.
\<close>

definition resolves :: "kstate \<Rightarrow> nat \<Rightarrow> u32 \<Rightarrow> bool" where
  "resolves s pd va \<longleftrightarrow> uspace s pd (vpn va) \<noteq> None \<or> \<not> has_tbl s pd (unat (PDX va))"

text \<open>One more reference to the page can be counted.\<close>

definition shareable :: "kstate \<Rightarrow> nat \<Rightarrow> u32 \<Rightarrow> bool" where
  "shareable s pd va \<longleftrightarrow> resolves s pd va \<and>
     (\<forall>f fl. uspace s pd (vpn va) = Some (f, fl) \<longrightarrow> unat (pp_ref (pages s f)) + 1 < 2 ^ 16)"

lemma no_table_unmapped:
  "va < UTOP \<Longrightarrow> \<not> has_tbl s pd (unat (PDX va)) \<Longrightarrow> uspace s pd (vpn va) = None"
  by (simp add: uspace_vpn) (simp add: vpn_def amap_def)

lemma lookup_shareable:
  assumes f: "frames_ok s xs A" and pd: "pd \<in> A" and va: "va < UTOP" and sh: "shareable s pd va"
  shows "page_lookup pd va s = Ret None s \<or>
    (\<exists>p T j. page_lookup pd va s = Ret (Some (p, T, j)) s \<and> mappable s xs A p)"
proof (cases "uspace s pd (vpn va)")
  case None
  with sh have "\<not> has_tbl s pd (unat (PDX va))" by (simp add: shareable_def resolves_def)
  from walk_miss [OF frames_vm [OF f] pd va this] show ?thesis by (simp add: page_lookup_def)
next
  case (Some m)
  obtain p fl where m: "uspace s pd (vpn va) = Some (p, fl)" using Some by (cases m) auto
  note v = vpn_slot [OF frames_vm [OF f] pd va m]
  have "p \<noteq> 0" using m reservedD(2) [OF frames_0 [OF f] pd] by metis
  with v sh m have "mappable s xs A p" by (simp add: mappable_def shareable_def)
  with page_lookup_mapped [OF frames_vm [OF f] pd va m] show ?thesis by blast
qed

lemma remove_frames:
  assumes f: "frames_ok s xs A" and pd: "pd \<in> A" and va: "va < UTOP" and r: "resolves s pd va"
  shows "ends (page_remove pd va s) (\<lambda>_ t. same_env s t \<and> (\<exists>ys. frames_ok t ys A)) Q"
proof (cases "uspace s pd (vpn va)")
  case None
  with r have "\<not> has_tbl s pd (unat (PDX va))" by (simp add: resolves_def)
  from walk_miss [OF frames_vm [OF f] pd va this] f show ?thesis by (auto simp: page_remove_def page_lookup_def)
next
  case (Some m)
  obtain p fl where m: "uspace s pd (vpn va) = Some (p, fl)" using Some by (cases m) auto
  note v = frames_vm [OF f]
  note sl = vpn_slot(1) [OF v pd va m]
  note q = page_remove_mapped [OF v pd va m]
  let ?t = "tlb_invalidate pd va (dropped p (wr_word (tbl s pd (unat (PDX va))) (unat (PTX va)) 0 s))"
  have p0: "p \<noteq> 0" using m reservedD(2) [OF frames_0 [OF f] pd] by metis
  have "\<forall>x\<in>A. dir_writable ?t x"
  proof
    fix x assume x: "x \<in> A"
    have "kmem ?t x = kmem s x" using wr_pte_dirs [OF v sl x] by simp
    from dir_writable_cong [OF this] frames_dirs [OF f] x show "dir_writable ?t x" by simp
  qed
  moreover have "uspace ?t x \<subseteq>\<^sub>m uspace s x" if "x \<in> A" for x
    using q(7) [OF that] by (auto simp: map_le_def)
  then have "reserved ?t A 0" by (intro reserved_mono [OF frames_0 [OF f]]) (simp_all only: q(4) order_refl)
  moreover have "pp_ref (pages ?t 0) = pp_ref (pages s 0)" using q(8) [of 0] p0 by simp
  ultimately have "frames_ok ?t (dropped_list p s xs) A"
    using q(2) frames_ref [OF f] unfolding frames_ok_def by presburger
  with q(1) wlpD [OF page_remove_same q(1)] show ?thesis by auto
qed

section \<open>Environments\<close>

text \<open>The environment an identifier names.\<close>

definition env_named :: "kstate \<Rightarrow> u32 \<Rightarrow> nat option" where
  "env_named s envid =
     (if envid = 0 then curenv s
      else if env_status (envs s (ENVX envid)) = ENV_FREE \<or> env_id (envs s (ENVX envid)) \<noteq> envid then None
      else Some (ENVX envid))"

lemma envid2env_ends:
  assumes k: "kept R s" and c: "curenv s = Some c"
  shows "ends (envid2env envid cp s) (\<lambda>(r, e) t. t = s \<and> (r = - E_BAD_ENV \<or>
    r = 0 \<and> (\<exists>x. e = Some x \<and> env_named s envid = Some x \<and> x < NENV \<and> env_status (envs s x) \<noteq> ENV_FREE \<and>
      (\<exists>pd\<in>spaces s. env_pgdir (envs s x) = Some pd)))) Q"
proof -
  have "\<exists>pd\<in>spaces s. env_pgdir (envs s x) = Some pd" if "x < NENV" "env_status (envs s x) \<noteq> ENV_FREE" for x
    using envs_pgdir [OF _ that] k by (simp add: kept_def)
  moreover have "ENVX envid < NENV" by (simp add: ENVX_mod NENV_1024)
  moreover have "c < NENV" "env_status (envs s c) \<noteq> ENV_FREE"
    using kept_cur [OF k c] by simp_all
  ultimately show ?thesis using c by (auto simp: envid2env_def env_named_def Let_def)
qed

text \<open>Changing fields of an environment, and its status if no other CPU runs it.\<close>

lemma kept_upd_env:
  assumes k: "kept R s" and f: "\<And>v. env_pgdir (f v) = env_pgdir v" "\<And>v. env_link (f v) = env_link v"
    and st: "env_status (f (envs s e)) = env_status (envs s e) \<or>
      env_status (f (envs s e)) \<noteq> ENV_FREE \<and> env_status (envs s e) \<noteq> ENV_FREE \<and> quiet s e"
  shows "kept R (upd_env e f s)"
proof -
  have o: "cpus_ok R s (- {this_cpu s})" using k by (simp add: kept_def in_kernel_def)
  have "env_status (envs (upd_env e f s) x) = env_status (envs s x)"
    if "d \<noteq> this_cpu s" "cpu_env (cpus s d) = Some x" for d x
    using st quiet_elsewhere [OF o _ that(1)] that(2) by auto
  then have "cpus_ok R (upd_env e f s) (- {this_cpu s})"
    by (intro cpus_ok_step [OF o]) (use cpus_okD(2) [OF o] f in auto)
  moreover have "kernel_ok (upd_env e f s)"
    using k f st by (intro kernel_ok_upd_env) (auto simp: kept_def)
  ultimately show ?thesis using k f by (auto simp: kept_def in_kernel_def)
qed


lemma ends_named:
  assumes k: "kept R s" and c: "curenv s = Some c" and bad: "\<And>e. ends (f (- E_BAD_ENV, e) s) P Q"
    and ok: "\<And>x pd. env_named s envid = Some x \<Longrightarrow> x < NENV \<Longrightarrow> env_status (envs s x) \<noteq> ENV_FREE \<Longrightarrow>
      pd \<in> spaces s \<Longrightarrow> env_pgdir (envs s x) = Some pd \<Longrightarrow> ends (f (0, Some x) s) P Q"
  shows "ends (bindO (envid2env envid cp s) f) P Q"
  unfolding ends_bindO
  by (rule ends_weaken [OF envid2env_ends [OF k c]]) (use bad ok in auto)

section \<open>The calls\<close>

text \<open>
  What a call must meet: the byte after a string can be read, a child is not destroyed, stopped or sent to
  while another CPU runs it, no permission bits are set beyond those a system call may use, pages
  that are shared resolve, and a page that is sent lands below \<open>UTOP\<close>.
\<close>

definition legal_syscall :: "kstate \<Rightarrow> syscall_no \<Rightarrow> u32 \<Rightarrow> u32 \<Rightarrow> u32 \<Rightarrow> bool" where
  "legal_syscall s n a1 a2 a3 =
     (case n of
        SYS_cputs \<Rightarrow> a1 < UTOP \<and> unat a1 + unat a2 \<le> unat UTOP \<and>
          (uspace s (cr3 s) (vpn a1) \<noteq> None \<longrightarrow> rd_kernel s (a1 + a2) \<noteq> None)
      | SYS_env_destroy \<Rightarrow> (\<forall>e. env_named s a1 = Some e \<longrightarrow> env_status (envs s e) = ENV_DYING \<longrightarrow> curenv s = Some e)
      | SYS_env_set_status \<Rightarrow> (\<forall>e. env_named s a1 = Some e \<longrightarrow> quiet s e)
      | SYS_page_alloc \<Rightarrow> a3 AND NOT PTE_SYSCALL = 0
      | SYS_page_map \<Rightarrow> (\<forall>e pd. env_named s a1 = Some e \<longrightarrow> env_pgdir (envs s e) = Some pd \<longrightarrow> a2 < UTOP \<longrightarrow>
          shareable s pd a2)
      | SYS_page_unmap \<Rightarrow> (\<forall>e pd. env_named s a1 = Some e \<longrightarrow> env_pgdir (envs s e) = Some pd \<longrightarrow> a2 < UTOP \<longrightarrow>
          resolves s pd a2)
      | SYS_ipc_try_send \<Rightarrow> (\<forall>e. env_named s a1 = Some e \<longrightarrow> env_ipc_recving (envs s e) \<longrightarrow> quiet s e \<and>
          (a3 < UTOP \<longrightarrow> env_ipc_dstva (envs s e) < UTOP \<and> shareable s (cr3 s) a3))
      | _ \<Rightarrow> True)"

lemma sys_env_destroy_ends:
  assumes k: "kept R s" and c: "curenv s = Some c" and l: "legal_syscall s SYS_env_destroy a1 a2 a3"
  shows "ends (sys_env_destroy a1 s) (\<lambda>_. kept R) (left_ok R)"
  unfolding sys_env_destroy_def
proof (rule ends_named [OF k c], goal_cases)
  case 1
  show ?case using k by (simp add: E_BAD_ENV_def)
next
  case (2 x pd)
  then have q: "env_status (envs s x) = ENV_DYING \<longrightarrow> curenv s = Some x" using l by (simp add: legal_syscall_def)
  have "ends (bindO (env_destroy x s) (\<lambda>_. Ret (0::int))) (\<lambda>_. kept R) (left_ok R)"
    unfolding ends_bindO by (rule ends_weaken [OF env_destroy_ends [OF k 2(2,3) q]]) simp
  then show ?case using c by (simp add: deref_def)
qed

lemma sys_env_set_status_ends:
  assumes k: "kept R s" and c: "curenv s = Some c" and l: "legal_syscall s SYS_env_set_status a1 a2 a3"
  shows "ends (sys_env_set_status a1 a2 s) (\<lambda>_. kept R) (left_ok R)"
  unfolding sys_env_set_status_def
proof (rule ends_named [OF k c], goal_cases)
  case 1
  show ?case using k by simp
next
  case (2 x pd)
  then have "kept R (upd_env x (\<lambda>v. v\<lparr>env_status := if a2 = env_status_code ENV_RUNNABLE then ENV_RUNNABLE
      else ENV_NOT_RUNNABLE\<rparr>) s)"
    using l by (intro kept_upd_env [OF k]) (auto simp: legal_syscall_def)
  then show ?case using k by (simp add: E_BAD_ENV_def deref_def)
qed

lemma sys_env_set_pgfault_upcall_ends:
  assumes k: "kept R s" and c: "curenv s = Some c"
  shows "ends (sys_env_set_pgfault_upcall a1 a2 s) (\<lambda>_. kept R) (left_ok R)"
  unfolding sys_env_set_pgfault_upcall_def
  by (rule ends_named [OF k c]) (use k in \<open>auto simp: E_BAD_ENV_def deref_def intro!: kept_upd_env\<close>)

lemma insert_kept:
  assumes k: "kept R s" and f: "frames_ok s xs (spaces s)" and pd: "pd \<in> spaces s" and va: "va < UTOP"
    and p: "mappable s xs (spaces s) p" and l: "PTE_ADDR perm = 0"
  shows "ends (page_insert pd p va perm s) (\<lambda>r t. kept R t \<and> same_env s t) Q"
  by (rule ends_weaken [OF insert_frames [OF f pd va p l]]) (use kept_same_env [OF k] in blast)

lemma page_alloc_kept:
  assumes k: "kept R s"
  shows "ends (page_alloc ALLOC_ZERO s) (\<lambda>r t. kept R t \<and> same_env s t \<and> (\<forall>p. r = Some p \<longrightarrow>
    (\<exists>ys. frames_ok t ys (spaces s) \<and> mappable t ys (spaces s) p))) Q"
proof -
  obtain xs where "frames_ok s xs (spaces s)" using kept_frames [OF k] .
  from alloc_frames [OF this] show ?thesis by (rule ends_weaken) (use kept_same_env [OF k] in blast)
qed

lemma spaces_same_env: "same_env s t \<Longrightarrow> spaces t = spaces s"
  by (simp add: spaces_def same_env_def)

text \<open>The last step of the three calls that map a page.\<close>

lemma map_ends:
  assumes k: "kept R s" and f: "frames_ok s xs (spaces s)" and x: "env_pgdir (envs s x) = Some pd" "pd \<in> spaces s"
    and va: "va < UTOP" and p: "mappable s xs (spaces s) p" and l: "PTE_ADDR perm = 0"
    and g: "\<And>r t. kept R t \<Longrightarrow> same_env s t \<Longrightarrow> ends (g r t) (\<lambda>_. kept R) (left_ok R)"
  shows "ends (with_pgdir x (\<lambda>pgdir s. bindO (page_insert pgdir p va perm s) g) s) (\<lambda>_. kept R) (left_ok R)"
  by (simp add: with_pgdir_def deref_def x(1) ends_bindO)
    (rule ends_weaken [OF insert_kept [OF k f x(2) va p l]], use g in blast)

lemma sys_page_alloc_ends:
  assumes k: "kept R s" and c: "curenv s = Some c" and l: "legal_syscall s SYS_page_alloc a1 a2 a3"
  shows "ends (sys_page_alloc a1 a2 a3 s) (\<lambda>_. kept R) (left_ok R)"
proof -
  have p: "a3 AND NOT PTE_SYSCALL = 0" using l by (simp add: legal_syscall_def)
  have m: "ends (bindO (page_alloc ALLOC_ZERO s) (\<lambda>pp s. case pp of None \<Rightarrow> Ret (- E_NO_MEM) s
      | Some pp \<Rightarrow> deref (Some x) (\<lambda>e. with_pgdir e (\<lambda>pgdir s. bindO (page_insert pgdir pp a2 a3 s)
          (\<lambda>r s. if r \<noteq> 0 then Ret (- E_NO_MEM) s else Ret 0 s))) s)) (\<lambda>_. kept R) (left_ok R)"
    if x: "pd \<in> spaces s" "env_pgdir (envs s x) = Some pd" and va: "a2 < UTOP"
      and pm: "a3 AND (PTE_U OR PTE_P) = PTE_U OR PTE_P" for x pd
    unfolding ends_bindO
  proof (rule ends_weaken [OF page_alloc_kept [OF k]], elim conjE)
    fix r t assume t: "kept R t" "same_env s t"
      "\<forall>p. r = Some p \<longrightarrow> (\<exists>ys. frames_ok t ys (spaces s) \<and> mappable t ys (spaces s) p)"
    have sp: "spaces t = spaces s" "envs t = envs s" using t(2) by (simp_all add: spaces_def same_env_def)
    show "ends (case r of None \<Rightarrow> Ret (- E_NO_MEM) t | Some pp \<Rightarrow> deref (Some x) (\<lambda>e. with_pgdir e (\<lambda>pgdir s.
        bindO (page_insert pgdir pp a2 a3 s) (\<lambda>r s. if r \<noteq> 0 then Ret (- E_NO_MEM) s else Ret 0 s))) t)
        (\<lambda>_. kept R) (left_ok R)"
    proof (cases r)
      case (Some p)
      with t(3) obtain ys where ys: "frames_ok t ys (spaces t)" "mappable t ys (spaces t) p" by (auto simp: sp)
      have y: "env_pgdir (envs t x) = Some pd" "pd \<in> spaces t" using x by (simp_all add: sp)
      show ?thesis
        unfolding Some deref_def option.case by (rule map_ends [OF t(1) ys(1) y va ys(2) legal_perm(1) [OF p pm]]) simp
    qed (use t in simp)
  qed
  show ?thesis
    unfolding sys_page_alloc_def ends_if
    by (intro conjI impI; (rule ends_named [OF k c])?) (auto simp: ends_if k E_BAD_ENV_def not_le intro: m)
qed

lemma sys_page_map_ends:
  assumes k: "kept R s" and c: "curenv s = Some c" and l: "legal_syscall s SYS_page_map a1 a2 a3"
  shows "ends (sys_page_map a1 a2 a3 a4 a5 s) (\<lambda>_. kept R) (left_ok R)"
  unfolding sys_page_map_def
proof (rule ends_named [OF k c], goal_cases)
  case (2 x spd)
  obtain xs where f: "frames_ok s xs (spaces s)" using kept_frames [OF k] .
  have m: "ends (deref (Some x) (\<lambda>srcenv. with_pgdir srcenv (\<lambda>srcpd s. bindO (page_lookup srcpd a2 s) (\<lambda>r s.
      case r of None \<Rightarrow> Ret (- E_INVAL) s
      | Some (pp, t, j) \<Rightarrow> if a5 AND PTE_W \<noteq> 0 \<and> kmem s t j AND PTE_W = 0 then Ret (- E_INVAL) s
          else deref (Some y) (\<lambda>dstenv. with_pgdir dstenv (\<lambda>dstpd s. bindO (page_insert dstpd pp a4 a5 s)
            (\<lambda>r s. if r \<noteq> 0 then Ret (- E_NO_MEM) s else Ret 0 s))) s))) s) (\<lambda>_. kept R) (left_ok R)"
    if y: "dpd \<in> spaces s" "env_pgdir (envs s y) = Some dpd" and va: "a2 < UTOP" "a4 < UTOP"
      and pm: "a5 AND NOT PTE_SYSCALL = 0" "a5 AND (PTE_U OR PTE_P) = PTE_U OR PTE_P" for y dpd
  proof -
    have "shareable s spd a2" using l 2(1,5) va(1) by (simp add: legal_syscall_def)
    from lookup_shareable [OF f 2(4) va(1) this] show ?thesis
    proof (elim disjE exE conjE)
      fix p T j assume p: "page_lookup spd a2 s = Ret (Some (p, T, j)) s" "mappable s xs (spaces s) p"
      have "ends (with_pgdir y (\<lambda>dstpd s. bindO (page_insert dstpd p a4 a5 s)
          (\<lambda>r s. if r \<noteq> 0 then Ret (- E_NO_MEM) s else Ret 0 s)) s) (\<lambda>_. kept R) (left_ok R)"
        by (rule map_ends [OF k f y(2,1) va(2) p(2) legal_perm(1) [OF pm]]) simp
      with k show ?thesis
        by (simp add: deref_def with_pgdir_def [of x] 2(5) p(1))
    qed (use k in \<open>simp add: deref_def with_pgdir_def 2(5)\<close>)
  qed
  have "ends (bindO (envid2env a3 True s) (\<lambda>(r, dstenv) s. if r \<noteq> 0 then Ret (- E_BAD_ENV) s
      else if UTOP \<le> a2 then Ret (- E_INVAL) s else if UTOP \<le> a4 then Ret (- E_INVAL) s
      else if a2 AND 0xfff \<noteq> 0 then Ret (- E_INVAL) s else if a4 AND 0xfff \<noteq> 0 then Ret (- E_INVAL) s
      else if a5 AND NOT PTE_SYSCALL \<noteq> 0 then Ret (- E_INVAL) s
      else if a5 AND (PTE_U OR PTE_P) \<noteq> PTE_U OR PTE_P then Ret (- E_INVAL) s
      else deref (Some x) (\<lambda>srcenv. with_pgdir srcenv (\<lambda>srcpd s. bindO (page_lookup srcpd a2 s) (\<lambda>r s.
        case r of None \<Rightarrow> Ret (- E_INVAL) s
        | Some (pp, t, j) \<Rightarrow> if a5 AND PTE_W \<noteq> 0 \<and> kmem s t j AND PTE_W = 0 then Ret (- E_INVAL) s
            else deref dstenv (\<lambda>dstenv. with_pgdir dstenv (\<lambda>dstpd s. bindO (page_insert dstpd pp a4 a5 s)
              (\<lambda>r s. if r \<noteq> 0 then Ret (- E_NO_MEM) s else Ret 0 s))) s))) s)) (\<lambda>_. kept R) (left_ok R)"
    by (rule ends_named [OF k c]) (use k m in \<open>simp_all add: E_BAD_ENV_def not_le\<close>)
  then show ?case by simp
qed (use k in \<open>simp add: E_BAD_ENV_def\<close>)

lemma sys_page_unmap_ends:
  assumes k: "kept R s" and c: "curenv s = Some c" and l: "legal_syscall s SYS_page_unmap a1 a2 a3"
  shows "ends (sys_page_unmap a1 a2 s) (\<lambda>_. kept R) (left_ok R)"
proof -
  obtain xs where f: "frames_ok s xs (spaces s)" using kept_frames [OF k] .
  have "ends (bindO (envid2env a1 True s) (\<lambda>(r, e) s. if r \<noteq> 0 then Ret (- E_BAD_ENV) s
      else deref e (\<lambda>e. with_pgdir e (\<lambda>pgdir s. bindO (page_remove pgdir a2 s) (\<lambda>_ s. Ret 0 s))) s))
      (\<lambda>_. kept R) (left_ok R)" if va: "a2 < UTOP"
  proof (rule ends_named [OF k c], goal_cases)
    case (2 x pd)
    have r: "resolves s pd a2" using l 2(1,5) va by (simp add: legal_syscall_def)
    have "ends (page_remove pd a2 s) (\<lambda>_. kept R) (left_ok R)"
      by (rule ends_weaken [OF remove_frames [OF f 2(4) va r]]) (use kept_same_env [OF k] in blast)
    then have "ends (bindO (page_remove pd a2 s) (\<lambda>_. Ret 0)) (\<lambda>_. kept R) (left_ok R)"
      unfolding ends_bindO by (rule ends_weaken) simp
    then show ?case by (simp add: deref_def with_pgdir_def 2(5))
  qed (use k in \<open>simp add: E_BAD_ENV_def\<close>)
  then show ?thesis using k by (simp add: sys_page_unmap_def not_le)
qed

section \<open>Messages\<close>

lemma ipc_deliver_ends:
  assumes k: "kept R s" and c: "curenv s = Some c" and e: "env_status (envs s e) \<noteq> ENV_FREE" "quiet s e"
  shows "ends (ipc_deliver e v s) (\<lambda>_. kept R) (left_ok R)"
proof -
  let ?s = "upd_env e (\<lambda>v. v\<lparr>env_ipc_recving := False\<rparr>) s"
  have ks: "kept R ?s" by (rule kept_upd_env [OF k]) simp_all
  have "kept R (upd_env e (\<lambda>w. w\<lparr>env_ipc_from := env_id (envs ?s c), env_ipc_value := v, env_status := ENV_RUNNABLE\<rparr>) ?s)"
    by (rule kept_upd_env [OF ks]) (use e in \<open>simp_all add: quiet_def\<close>)
  with c show ?thesis by (simp add: ipc_deliver_def deref_def Let_def)
qed

lemma sys_ipc_try_send_ends:
  assumes k: "kept R s" and c: "curenv s = Some c" and l: "legal_syscall s SYS_ipc_try_send a1 a2 a3"
  shows "ends (sys_ipc_try_send a1 a2 a3 a4 s) (\<lambda>_. kept R) (left_ok R)"
  unfolding sys_ipc_try_send_def
proof (rule ends_named [OF k c], goal_cases)
  case (2 x dpd)
  obtain xs where f: "frames_ok s xs (spaces s)" using kept_frames [OF k] .
  have cr: "env_pgdir (envs s c) = Some (cr3 s)" "cr3 s \<in> spaces s"
    using kept_cur [OF k c] by simp_all
  let ?p = "\<lambda>v s. upd_env x (\<lambda>w. w\<lparr>env_ipc_perm := v\<rparr>) s"
  have d: "ends (ipc_deliver x a2 (?p v t)) (\<lambda>_. kept R) (left_ok R)"
    if t: "kept R t" "same_env s t" and q: "quiet s x" for v t
  proof (rule ipc_deliver_ends)
    show "kept R (?p v t)" by (rule kept_upd_env [OF t(1)]) simp_all
    have t: "envs t = envs s" "curenv t = Some c" using same_env_curenv [OF t(2)] t(2) c by (simp_all add: same_env_def)
    then show "curenv (?p v t) = Some c" "env_status (envs (?p v t) x) \<noteq> ENV_FREE" "quiet (?p v t) x"
      using q 2(3) c by (simp_all add: quiet_def)
  qed
  have m: "ends (deref (Some c) (\<lambda>c. with_pgdir c (\<lambda>srcpd s. bindO (page_lookup srcpd a3 s) (\<lambda>r s.
      case r of None \<Rightarrow> Ret (- E_INVAL) s
      | Some (pp, p_pte) \<Rightarrow> with_pgdir x (\<lambda>dstpd s. bindO (page_insert dstpd pp (env_ipc_dstva (envs s x)) a4 s)
          (\<lambda>r s. if r \<noteq> 0 then Ret (- E_NO_MEM) s else ipc_deliver x a2 (?p a4 s))) s))) s) (\<lambda>_. kept R) (left_ok R)"
    if va: "a3 < UTOP" "env_ipc_recving (envs s x)"
      and pm: "a4 AND NOT PTE_SYSCALL = 0" "a4 AND (PTE_P OR PTE_U) = PTE_P OR PTE_U"
  proof -
    have pm: "a4 AND NOT PTE_SYSCALL = 0" "a4 AND (PTE_U OR PTE_P) = PTE_U OR PTE_P"
      using pm by (simp_all add: or.commute)
    have h: "quiet s x" "env_ipc_dstva (envs s x) < UTOP" "shareable s (cr3 s) a3"
      using l 2(1) va by (auto simp: legal_syscall_def)
    from lookup_shareable [OF f cr(2) va(1) h(3)] show ?thesis
    proof (elim disjE exE conjE)
      fix p T j assume p: "page_lookup (cr3 s) a3 s = Ret (Some (p, T, j)) s" "mappable s xs (spaces s) p"
      have i: "ends (page_insert dpd p (env_ipc_dstva (envs s x)) a4 s) (\<lambda>r t. kept R t \<and> same_env s t) (left_ok R)"
        by (rule insert_kept [OF k f 2(4) h(2) p(2) legal_perm(1) [OF pm]])
      have "ends (bindO (page_insert dpd p (env_ipc_dstva (envs s x)) a4 s)
          (\<lambda>r s. if r \<noteq> 0 then Ret (- E_NO_MEM) s else ipc_deliver x a2 (?p a4 s))) (\<lambda>_. kept R) (left_ok R)"
        unfolding ends_bindO by (rule ends_weaken [OF i]) (use d h(1) in simp)
      then show ?thesis by (simp add: deref_def with_pgdir_def cr(1) 2(5) p(1))
    qed (use k in \<open>simp add: deref_def with_pgdir_def cr(1)\<close>)
  qed
  have "ends (ipc_deliver x a2 (?p 0 s)) (\<lambda>_. kept R) (left_ok R)" if "env_ipc_recving (envs s x)"
    using d [OF k same_env_refl, of 0] l 2(1) that by (simp add: legal_syscall_def)
  with m k c show ?case by (simp add: deref_def [of "Some x"])
qed (use k in \<open>simp add: E_BAD_ENV_def\<close>)

lemma sys_ipc_recv_ends:
  assumes k: "kept R s" and c: "curenv s = Some c"
  shows "ends (sys_ipc_recv a1 s) (\<lambda>_. kept R) (left_ok R)"
proof -
  have "env_status (envs s c) \<noteq> ENV_FREE" by (rule kept_cur(2) [OF k c])
  then have "kept R (upd_env c (\<lambda>v. v\<lparr>env_ipc_recving := True, env_ipc_dstva := a1, env_status := ENV_NOT_RUNNABLE\<rparr>) s)"
    by (intro kept_upd_env [OF k]) (simp_all add: quiet_def c)
  with k c show ?thesis by (simp add: sys_ipc_recv_def deref_def)
qed

section \<open>New environments\<close>

lemma with_env_kernel:
  assumes k: "kernel_ok s" and f: "frames_ok s (p # ps) (spaces s)" and fe: "free_envs_ok s (e # es)"
  shows "kernel_ok (with_env e p parent s)" "frames_ok (with_env e p parent s) ps (spaces (with_env e p parent s))"
    "spaces (with_env e p parent s) = insert p (spaces s)"
proof -
  let ?t = "with_env e p parent s"
  note v = frames_vm [OF f]
  note a = env_alloc_with_env [OF v fe, where parent = parent]
  have z: "pp_ref (pages s p) = 0" using vm_free [OF v] by (simp add: free_pages_ok_def)
  note w = with_pd_view [OF z, where e = e]
  have e: "e < NENV" "env_status (envs s e) = ENV_FREE" using fe by (simp_all add: free_envs_ok_def)
  have p: "p \<noteq> 0" "p \<notin> spaces s" using frames_free [OF f] vm_free_frame(2) [OF v, of p] by auto
  have old: "env_pgdir (envs s e) = None" using k e by (simp add: kernel_ok_def envs_ok_def)
  have pg: "env_pgdir (envs ?t x) = (if x = e then Some p else env_pgdir (envs s x))" for x
    using a(8,11) by simp
  have "(\<exists>x<NENV. env_pgdir (envs ?t x) = Some q) \<longleftrightarrow> q = p \<or> (\<exists>x<NENV. env_pgdir (envs s x) = Some q)" for q
    unfolding pg using e(1) old by (metis option.distinct(1) option.inject)
  then show sp: "spaces ?t = insert p (spaces s)" by (auto simp: spaces_def)
  have kt: "kmem ?t q = kmem s q" if "q \<in> spaces s" for q using a(6) [of q] p(2) that by auto
  have np: "\<not> has_tbl ?t p i" if "i < NUSER" for i using a(7) [OF that] by (simp add: has_tbl_def)
  have h: "has_tbl ?t q i = has_tbl s q i" "tbl ?t q i = tbl s q i" if "q \<in> spaces s" for q i
    using tbl_cong [OF kt [OF that]] by simp_all
  have sl: "slots ?t (insert p (spaces s)) = slots s (spaces s)" using np h p(2) by (auto simp: slots_def)
  have "(\<lambda>(q, i). tbl ?t q i) ` slots s (spaces s) = (\<lambda>(q, i). tbl s q i) ` slots s (spaces s)"
    by (rule image_cong) (auto simp: h slots_def)
  then have "structural ?t (insert p (spaces s)) = insert p (structural s (spaces s))"
    by (simp add: structural_def sl)
  then have "reserved ?t (insert p (spaces s)) 0"
    using frames_0 [OF f] p(1) a(4,5) by (auto simp: reserved_def)
  moreover have "\<forall>q\<in>insert p (spaces s). dir_writable ?t q"
  proof
    fix q assume q: "q \<in> insert p (spaces s)"
    show "dir_writable ?t q"
    proof (cases "q = p")
      case False
      with q have q: "q \<in> spaces s" by simp
      from dir_writable_cong [OF kt [OF q]] frames_dirs [OF f] q show ?thesis by simp
    qed (use np in \<open>simp add: dir_writable_def\<close>)
  qed
  moreover have "pages ?t 0 = pages s 0" using w(4) [of 0] p(1) by (simp add: with_env_def)
  ultimately show fr: "frames_ok ?t ps (spaces ?t)" using a(2) frames_ref [OF f] by (simp add: frames_ok_def sp)
  have "envs_ok ?t"
  proof -
    have "env_status (envs ?t x) = ENV_FREE \<longleftrightarrow> env_pgdir (envs ?t x) = None" if "x < NENV" for x
      using k that a(8,10,11) by (cases "x = e") (auto simp: kernel_ok_def envs_ok_def)
    moreover have "x = y" if "x < NENV" "y < NENV" "env_pgdir (envs ?t x) = Some q" "env_pgdir (envs ?t y) = Some q" for x y q
      using k that p(2) by (auto simp: kernel_ok_def envs_ok_def spaces_def pg split: if_splits)
    ultimately show ?thesis using a(3) unfolding envs_ok_def by blast
  qed
  with fr show "kernel_ok ?t" by (auto simp: kernel_ok_def)
qed

lemma with_env_cpus:
  "cpus (with_env e p parent s) = cpus s" "this_cpu (with_env e p parent s) = this_cpu s"
  "kernel_lock (with_env e p parent s) = kernel_lock s"
  using copy_kern_pdes_same by (auto simp: with_env_def with_pd_def Let_def same_env_def popped_def)

lemma with_env_kept:
  assumes k: "kept R s" and f: "frames_ok s (p # ps) (spaces s)" and fe: "free_envs_ok s (e # es)"
  shows "kept R (with_env e p parent s)" (is "kept R ?t")
proof -
  note v = frames_vm [OF f]
  note a = env_alloc_with_env [OF v fe, where parent = parent] and t = with_env_cpus [of e p parent s]
  have e: "e < NENV" "env_status (envs s e) = ENV_FREE" using fe by (simp_all add: free_envs_ok_def)
  have pg: "env_pgdir (envs ?t x) = (if x = e then Some p else env_pgdir (envs s x))" for x
    using a(8,11) by simp
  have "kernel_ok ?t" using with_env_kernel(1) [OF keptD(1) [OF k] f fe] .
  moreover have o: "cpus_ok R s (- {this_cpu s})" using k by (simp add: kept_def in_kernel_def)
  have "cpus_ok R ?t (- {this_cpu s})"
  proof (rule cpus_ok_step [OF o])
    fix d x assume d: "d \<noteq> this_cpu s" "cpu_env (cpus s d) = Some x"
    have "x \<noteq> e" using cpus_okD(1) [OF o, of d x] d e(2) by auto
    with a(11) show "env_pgdir (envs ?t x) = env_pgdir (envs s x) \<and>
        (env_status (envs ?t x) = env_status (envs s x) \<or> env_status (envs ?t x) = ENV_DYING)" by simp
  qed (use cpus_okD(2) [OF o] in \<open>auto simp: t\<close>)
  moreover have ct: "curenv ?t = curenv s" by (simp add: curenv_def t)
  moreover have "c < NENV \<and> env_pgdir (envs ?t c) = Some (cr3 ?t)" if "curenv s = Some c" for c
    using kept_cur [OF k that] e(2) by (auto simp: pg a(9))
  ultimately show ?thesis using k by (simp add: kept_def in_kernel_def t ct)
qed

lemma sys_exofork_ends:
  assumes k: "kept R s" and c: "curenv s = Some c"
  shows "ends (sys_exofork s) (\<lambda>_. kept R) (left_ok R)"
proof -
  obtain xs where f: "frames_ok s xs (spaces s)" using kept_frames [OF k] .
  obtain es where fe: "free_envs_ok s es" using k by (auto simp: kept_def kernel_ok_def envs_ok_def)
  show ?thesis
  proof (cases es)
    case Nil
    with fe k c show ?thesis by (simp add: sys_exofork_def env_alloc_def free_envs_ok_def)
  next
    case (Cons e es')
    with fe have fe: "free_envs_ok s (e # es')" by simp
    then have e: "env_free_list s = Some e" "env_status (envs s e) = ENV_FREE" by (simp_all add: free_envs_ok_def)
    show ?thesis
    proof (cases xs)
      case Nil
      with env_alloc_eq [OF vm_free [OF frames_vm [OF f]] e(1)] k c show ?thesis
        by (simp add: sys_exofork_def error_defs)
    next
      case xs: (Cons p ps)
      with f have f: "frames_ok s (p # ps) (spaces s)" by simp
      let ?t = "with_env e p (env_id (envs s c)) s"
      note a = env_alloc_with_env [OF frames_vm [OF f] fe, where parent = "env_id (envs s c)"]
      have kt: "kept R ?t" by (rule with_env_kept [OF k f fe])
      have z: "pp_ref (pages s p) = 0" using vm_free [OF frames_vm [OF f]] by (simp add: free_pages_ok_def)
      have ct: "curenv ?t = Some c" using with_pd_view(10) [OF z, of e] c by (simp add: with_env_def curenv_def)
      let ?u = "upd_env e (\<lambda>v. v\<lparr>env_status := ENV_NOT_RUNNABLE\<rparr>) ?t"
      have ku: "kept R ?u" by (rule kept_upd_env [OF kt]) (simp_all add: quiet_def a(10))
      let ?v = "upd_env e (\<lambda>v. v\<lparr>env_tf := env_tf (envs ?u c)\<rparr>) ?u"
      let ?w = "upd_env e (\<lambda>v. v\<lparr>env_pgfault_upcall := env_pgfault_upcall (envs ?v c)\<rparr>) ?v"
      have kw: "kept R ?w" by (intro kept_upd_env ku) simp_all
      have "kept R (upd_env e (\<lambda>v. v\<lparr>env_tf := (env_tf v)\<lparr>tf_regs := (tf_regs (env_tf v))\<lparr>reg_eax := 0\<rparr>\<rparr>\<rparr>) ?w)"
        by (intro kept_upd_env kw) simp_all
      with a(1) c ct show ?thesis by (simp add: sys_exofork_def error_defs deref_def Let_def)
    qed
  qed
qed

section \<open>Printing\<close>

text \<open>A string with a precision is printed if its characters, or those up to the end, can be read.\<close>

lemma str_loop_returns:
  "\<forall>i\<le>m. r (k + i) \<noteq> None \<Longrightarrow> m < n \<Longrightarrow>
   \<exists>w' cs. str_loop putch r False n k (int m) w s = Ret w' (fold putch cs s)"
proof (induction m arbitrary: n k w s)
  case 0
  from 0(2) obtain n' where n: "n = Suc n'" by (cases n) auto
  from 0(1) obtain b where "r k = Some b" by force
  then show ?case using n by (auto intro: exI [of _ "[]"])
next
  case (Suc m)
  from Suc.prems(2) obtain n' where n: "n = Suc n'" "m < n'" by (cases n) auto
  from Suc.prems(1) obtain b where b: "r k = Some b" by force
  have "\<forall>i\<le>m. r (Suc k + i) \<noteq> None"
    using Suc.prems(1) by (metis Suc_le_mono add_Suc_shift)
  from Suc.IH [OF this n(2), of "w - 1" "putch (visible False (scast b)) s"] obtain w' cs where
    "str_loop putch r False n' (Suc k) (int m) (w - 1) (putch (visible False (scast b)) s) =
      Ret w' (fold putch (visible False (scast b) # cs) s)" by auto
  then have "b \<noteq> 0 \<Longrightarrow> str_loop putch r False n k (int (Suc m)) w s =
      Ret w' (fold putch (visible False (scast b) # cs) s)"
    using b n by simp
  moreover have "b = 0 \<Longrightarrow> str_loop putch r False n k (int (Suc m)) w s = Ret w (fold putch [] s)"
    using b n by simp
  ultimately show ?case by blast
qed

lemma cputs_returns:
  assumes "sint len = int m" "m < 2 ^ 31" "\<forall>i\<le>m. rd (va + of_nat i) \<noteq> None"
  shows "\<exists>cs. vprintfmt collect rd (\<lambda>i. if i = 0 then len else va) (chars ''%.*s'') 0 [] = Ret () cs"
proof -
  have "\<forall>i\<le>m. str_at rd va (0 + i) \<noteq> None" using assms(3) by (simp add: str_at_def lit_def)
  from str_loop_returns [OF this, of "2 ^ 32" collect 0 "[]"] assms(2) obtain w' cs where
    "str_loop collect (str_at rd va) False (2 ^ 32) 0 (int m) 0 [] = Ret w' (fold collect cs [])" by auto
  then show ?thesis
    using assms(1)
    by (simp add: chars_def vprintfmt.simps init_spec_def process_precision_def convert_def Let_def
        fmt_string_def)
qed

lemma kept_frame [simp]:
  "kept R (s\<lparr>cons := x\<rparr>) = kept R s" "kept R (s\<lparr>user_mem_check_addr := a\<rparr>) = kept R s"
proof -
  have c: "curenv (s\<lparr>cons := x\<rparr>) = curenv s" "curenv (s\<lparr>user_mem_check_addr := a\<rparr>) = curenv s"
    by (simp_all add: curenv_def)
  have "cpus_ok R (s\<lparr>cons := x\<rparr>) D = cpus_ok R s D" "cpus_ok R (s\<lparr>user_mem_check_addr := a\<rparr>) D = cpus_ok R s D" for D
    by (rule cpus_ok_cong; simp)+
  then show "kept R (s\<lparr>cons := x\<rparr>) = kept R s" "kept R (s\<lparr>user_mem_check_addr := a\<rparr>) = kept R s"
    by (simp_all add: kept_def in_kernel_def c)
qed

text \<open>After \<open>user_mem_assert\<close> of a range below \<open>UTOP\<close> the range lies in one mapped page.\<close>

lemma user_mem_assert_ends:
  assumes k: "kept R s" and c: "curenv s = Some c" and va: "va < UTOP" "unat va + unat len \<le> unat UTOP"
    and perm: "PTE_ADDR (perm OR PTE_U) = 0" "perm OR PTE_U \<noteq> 0"
  shows "ends (user_mem_assert c va len perm s) (\<lambda>_ t. t = s \<and>
    (\<forall>i<unat len. (unat va + i) div 4096 = unat va div 4096) \<and>
    (\<exists>f fl. uspace s (cr3 s) (vpn va) = Some (f, fl) \<and> fl AND (perm OR PTE_U) = perm OR PTE_U)) (left_ok R)"
proof -
  obtain xs where f: "frames_ok s xs (spaces s)" using kept_frames [OF k] .
  note cu = kept_cur [OF k c]
  from user_mem_check_user [OF frames_vm [OF f] cu(4,3) va perm] show ?thesis
  proof (elim disjE exE)
    fix a assume a: "user_mem_check c va len (perm OR PTE_U) s = Ret (- E_FAULT) (s\<lparr>user_mem_check_addr := a\<rparr>)"
    let ?s = "s\<lparr>user_mem_check_addr := a\<rparr>"
    have cs: "curenv ?s = Some c" using c by (simp add: curenv_def)
    have "ends (env_destroy c ?s) (\<lambda>_ t. kept R t \<and> curenv ?s \<noteq> Some c) (left_ok R)"
      by (rule env_destroy_ends) (use k cu cs in simp_all)
    then have "ends (env_destroy c ?s) (\<lambda>_ t. t = s \<and>
      (\<forall>i<unat len. (unat va + i) div 4096 = unat va div 4096) \<and>
      (\<exists>f fl. uspace s (cr3 s) (vpn va) = Some (f, fl) \<and> fl AND (perm OR PTE_U) = perm OR PTE_U)) (left_ok R)"
      by (rule ends_weaken) (simp add: cs)
    with a show ?thesis by (simp add: user_mem_assert_def E_FAULT_def)
  qed (simp add: user_mem_assert_def)
qed

text \<open>Addresses in one page.\<close>

lemma vpn_same_page:
  assumes "unat va + i < 2 ^ 32" "(unat va + i) div 4096 = unat va div 4096"
  shows "vpn (va + of_nat i) = vpn va" "unat (va + of_nat i) = unat va + i"
proof -
  have "i < 4294967296" using assms(1) by simp
  then show u: "unat (va + of_nat i) = unat va + i"
    using assms(1) by (simp add: unat_word_ariths unat_of_nat take_bit_nat_eq_self_iff)
  show "vpn (va + of_nat i) = vpn va"
    unfolding vpn_eq word_unat_eq_iff unat_PGNUM u using assms(2) by simp
qed

lemma rd_kernel_mapped: "rd_kernel s va \<noteq> None \<longleftrightarrow> amap s (cr3 s) (vpn va) \<noteq> None"
proof -
  have "mmu s (cr3 s) va = None \<longleftrightarrow> amap s (cr3 s) (vpn va) = None"
    using mmu_amap [of s "cr3 s" va] by (metis option.map_disc_iff)
  then show ?thesis by (auto simp: rd_kernel_def load8_def split: option.split)
qed

lemma sys_cputs_ends:
  assumes k: "kept R s" and c: "curenv s = Some c" and l: "legal_syscall s SYS_cputs a1 a2 a3"
  shows "ends (sys_cputs a1 a2 s) (\<lambda>_. kept R) (left_ok R)"
proof -
  have va: "a1 < UTOP" "unat a1 + unat a2 \<le> unat UTOP"
    and r: "uspace s (cr3 s) (vpn a1) \<noteq> None \<Longrightarrow> rd_kernel s (a1 + a2) \<noteq> None"
    using l by (simp_all add: legal_syscall_def)
  have p: "PTE_ADDR ((PTE_U OR PTE_P) OR PTE_U) = 0" "(PTE_U OR PTE_P) OR PTE_U \<noteq> 0"
    by (simp_all add: PTE_U_def PTE_P_def PTE_ADDR_def)
  have o: "ends (cprintf (chars ''%.*s'') (\<lambda>i. if i = 0 then a2 else a1) s) (\<lambda>_. kept R) (left_ok R)"
    if pg: "\<forall>i<unat a2. (unat a1 + i) div 4096 = unat a1 div 4096" and m: "uspace s (cr3 s) (vpn a1) \<noteq> None"
  proof -
    let ?m = "unat a2"
    have u: "unat UTOP = 4005560320" by (simp add: layout_values)
    have "?m \<le> 4096"
    proof (rule ccontr)
      assume "\<not> ?m \<le> 4096"
      with pg have "(unat a1 + 4096) div 4096 = unat a1 div 4096" by simp
      then show False by simp
    qed
    then have "int ?m \<le> int 4096" by (simp only: of_nat_le_iff)
    then have "uint a2 < 2 ^ 31" by simp
    moreover have "- (2 ^ 31) \<le> uint a2" by (rule order_trans [OF _ uint_ge_0]) simp
    ultimately have len: "?m < 2 ^ 31" "sint a2 = int ?m"
      using \<open>?m \<le> 4096\<close> signed_take_bit_int_eq_self [of 31 "uint a2"] by (simp_all add: sint_uint)
    have "rd_kernel s (a1 + of_nat i) \<noteq> None" if "i \<le> ?m" for i
    proof (cases "i = ?m")
      case True
      then show ?thesis using r [OF m] by simp
    next
      case False
      with that have i: "i < ?m" by simp
      have b: "unat a1 + i < 2 ^ 32" using i va(2) u by simp
      show ?thesis
        unfolding rd_kernel_mapped vpn_same_page(1) [OF b pg [rule_format, OF i]]
        using m uspace_vpn [OF va(1)] by simp
    qed
    then obtain cs where "vprintfmt collect (rd_kernel s) (\<lambda>i. if i = 0 then a2 else a1) (chars ''%.*s'') 0 [] = Ret () cs"
      using cputs_returns [OF len(2,1)] by blast
    from cprintf_prints_and_returns_0 [OF this] show ?thesis using k by simp
  qed
  show ?thesis
    unfolding sys_cputs_def deref_def c option.case ends_bindO
    by (rule ends_weaken [OF user_mem_assert_ends [OF k c va p]]) (auto intro: ends_weaken [OF o])
qed

section \<open>The dispatcher\<close>

lemma sys_cgetc_ends: "kept R s \<Longrightarrow> ends (sys_cgetc s) (\<lambda>_. kept R) (left_ok R)"
  using cons_getc_returns [of "cons s"] by (auto simp: sys_cgetc_def)

lemma syscall_ends:
  assumes k: "kept R s" and c: "curenv s = Some c" and l: "\<And>n. syscall_of w = Some n \<Longrightarrow> legal_syscall s n a1 a2 a3"
  shows "ends (syscall w a1 a2 a3 a4 a5 s) (\<lambda>_. kept R) (left_ok R)"
proof (cases "syscall_of w")
  case None
  with k show ?thesis by (simp add: syscall_def)
next
  case (Some n)
  note l = l [OF Some]
  have y: "ends (sys_yield s) P (left_ok R)" for P unfolding sys_yield_def by (rule sched_yield_ends [OF k])
  show ?thesis
    using Some l
    by (cases n) (simp_all add: syscall_def ends_bindO sys_env_destroy_ends [OF k c] sys_env_set_status_ends [OF k c]
      sys_env_set_pgfault_upcall_ends [OF k c] sys_page_alloc_ends [OF k c] sys_page_map_ends [OF k c]
      sys_page_unmap_ends [OF k c] sys_ipc_try_send_ends [OF k c] sys_ipc_recv_ends [OF k c] sys_exofork_ends [OF k c]
      sys_cputs_ends [OF k c] sys_cgetc_ends [OF k] y deref_def sys_getenvid_def c k)
qed

end
