(* ===== verification/Jos_Runs.thy ===== *)
theory Jos_Runs
  imports Jos_Calls
begin

text \<open>
  The machine as it runs: any CPU that is not in the kernel writes to a page of its environment or traps, and
  the big lock makes a trap one step. Every reachable state is at rest with the invariant of the kernel.
\<close>

section \<open>Writing to user pages\<close>

lemma write_frames:
  fixes g :: "nat \<Rightarrow> u32"
  assumes f: "frames_ok s xs A" and p: "p \<notin> structural s A"
  defines "t \<equiv> s\<lparr>kmem := (kmem s)(p := g)\<rparr>"
  shows "frames_ok t xs A" "q \<in> A \<Longrightarrow> uspace t q = uspace s q"
proof -
  note w = vm_ok_write [OF frames_vm [OF f] p, where g = g, folded t_def]
  have "dir_writable t q" if q: "q \<in> A" for q
  proof -
    have "q \<noteq> p" using p structuralI(1) [OF q] by auto
    then have "kmem t q = kmem s q" by (simp add: t_def)
    from dir_writable_cong [OF this] frames_dirs [OF f] q show ?thesis by simp
  qed
  moreover have "reserved t A 0" using frames_0 [OF f] by (simp add: reserved_def w(2,3))
  moreover have "pages t = pages s" by (simp add: t_def)
  ultimately show "frames_ok t xs A" using w(1) frames_ref [OF f] by (simp add: frames_ok_def)
  show "q \<in> A \<Longrightarrow> uspace t q = uspace s q" by (rule w(3))
qed

text \<open>Stores of the kernel through the address space that is loaded.\<close>

definition may_write :: "kstate \<Rightarrow> u32 \<Rightarrow> bool" where
  "may_write s va \<longleftrightarrow> va < UTOP \<and> (\<exists>f fl. uspace s (cr3 s) (vpn va) = Some (f, fl) \<and> fl AND PTE_W \<noteq> 0)"

definition wrote :: "(nat \<Rightarrow> nat) \<Rightarrow> kstate \<Rightarrow> kstate \<Rightarrow> bool" where
  "wrote R s t \<longleftrightarrow> kept R t \<and> same_env s t \<and> uspace t (cr3 s) = uspace s (cr3 s)"

lemma wrote_trans: "wrote R s t \<Longrightarrow> wrote R t u \<Longrightarrow> wrote R s u"
  by (auto simp: wrote_def same_env_def)

lemma may_write_wrote: "wrote R s t \<Longrightarrow> may_write t va = may_write s va"
  by (simp add: may_write_def wrote_def same_env_def)

lemma store8_wrote:
  assumes k: "kept R s" and c: "curenv s = Some c" and w: "may_write s va"
  shows "ends (store8 va b s) (\<lambda>_. wrote R s) Q"
proof -
  obtain xs where f: "frames_ok s xs (spaces s)" using kept_frames [OF k] .
  note cu = kept_cur [OF k c]
  from w obtain p fl where p: "va < UTOP" "uspace s (cr3 s) (vpn va) = Some (p, fl)" "fl AND PTE_W \<noteq> 0"
    by (auto simp: may_write_def)
  have "dir_writable s (cr3 s)" using frames_dirs [OF f] cu(4) by blast
  from mmu_writable [OF frames_vm [OF f] cu(4) p(1) this p(2,3)] obtain rights where
    m: "mmu s (cr3 s) va = Some (p, rights)" "rights AND PTE_W \<noteq> 0" by blast
  note st = vpn_slot(6) [OF frames_vm [OF f] cu(4) p(1,2)]
  let ?t = "wr_byte p (unat (PGOFF va)) b s"
  obtain g where t: "?t = s\<lparr>kmem := (kmem s)(p := g)\<rparr>" by (simp add: wr_byte_def Let_def wr_word_def) 
  note wf = write_frames [OF f st, where g = g, folded t]
  have se: "same_env s ?t" by (simp add: wr_byte_def Let_def)
  from kept_same_env [OF k se wf(1)] wf(2) [OF cu(4)] se have "wrote R s ?t" by (simp add: wrote_def)
  then show ?thesis using m by (simp add: store8_def)
qed

lemma store_bytes_wrote:
  "kept R s \<Longrightarrow> curenv s = Some c \<Longrightarrow> \<forall>i<length bs. may_write s (va + of_nat i) \<Longrightarrow>
   ends (store_bytes va bs s) (\<lambda>_. wrote R s) Q"
proof (induction bs arbitrary: va s)
  case Nil
  then show ?case by (simp add: wrote_def)
next
  case (Cons b bs)
  have "may_write s va" using Cons.prems(3) by force
  from store8_wrote [OF Cons.prems(1,2) this] show ?case
    unfolding store_bytes.simps ends_bindO
  proof (rule ends_weaken)
    fix t assume t: "wrote R s t"
    have "\<forall>i<length bs. may_write t ((va + 1) + of_nat i)"
    proof (intro allI impI)
      fix i assume "i < length bs"
      then have "may_write s (va + of_nat (Suc i))" using Cons.prems(3) by (metis Suc_less_eq length_Cons)
      then show "may_write t ((va + 1) + of_nat i)" by (simp add: may_write_wrote [OF t] ac_simps)
    qed
    moreover have "kept R t" "curenv t = Some c"
      using t same_env_curenv [of s t] Cons.prems(2) by (simp_all add: wrote_def)
    ultimately have "ends (store_bytes (va + 1) bs t) (\<lambda>_. wrote R t) Q" by (intro Cons.IH) 
    then show "ends (store_bytes (va + 1) bs t) (\<lambda>_. wrote R s) Q" by (rule ends_weaken) (rule wrote_trans [OF t])
  qed
qed

lemma store_words_wrote:
  "kept R s \<Longrightarrow> curenv s = Some c \<Longrightarrow> \<forall>i<4 * length ws. may_write s (va + of_nat i) \<Longrightarrow>
   ends (store_words va ws s) (\<lambda>_. wrote R s) Q"
proof (induction ws arbitrary: va s)
  case Nil
  then show ?case by (simp add: wrote_def)
next
  case (Cons w ws)
  have "\<forall>i<length (map (byte_of w) [0, 1, 2, 3]). may_write s (va + of_nat i)" using Cons.prems(3) by simp
  from store_bytes_wrote [OF Cons.prems(1,2) this] show ?case
    unfolding store_words.simps ends_bindO store32_def
  proof (rule ends_weaken)
    fix t assume t: "wrote R s t"
    have "\<forall>i<4 * length ws. may_write t ((va + 4) + of_nat i)"
    proof (intro allI impI)
      fix i assume "i < 4 * length ws"
      then have "may_write s (va + of_nat (4 + i))" using Cons.prems(3) by (metis add_less_cancel_left length_Cons mult_Suc_right)
      then show "may_write t ((va + 4) + of_nat i)" by (simp add: may_write_wrote [OF t] ac_simps)
    qed
    moreover have "kept R t" "curenv t = Some c"
      using t same_env_curenv [of s t] Cons.prems(2) by (simp_all add: wrote_def)
    ultimately have "ends (store_words (va + 4) ws t) (\<lambda>_. wrote R t) Q" by (intro Cons.IH) 
    then show "ends (store_words (va + 4) ws t) (\<lambda>_. wrote R s) Q" by (rule ends_weaken) (rule wrote_trans [OF t])
  qed
qed

section \<open>Page faults\<close>

text \<open>The frame of a page fault lies below \<open>UTOP\<close>.\<close>

lemma utf_address_user:
  "utf_address tf < UTOP" "unat (utf_address tf) + unat UTF_SIZE \<le> unat UTOP"
proof -
  have v: "unat UXSTACKTOP = 4005560320" "unat UTOP = 4005560320" "unat PGSIZE = 4096" "unat UTF_SIZE = 52"
    by (simp_all add: layout_values PGSIZE_def UTF_SIZE_def)
  show s: "unat (utf_address tf) + unat UTF_SIZE \<le> unat UTOP"
    using utf_address_nests [of tf] by (simp add: v split: if_splits)
  then show "utf_address tf < UTOP" by (simp add: word_less_nat_alt v)
qed

lemma page_fault_handler_ends:
  assumes k: "kept R s" and c: "curenv s = Some c" and u: "tf_cs (frame_tf f s) AND 3 \<noteq> 0"
  shows "ends (page_fault_handler va f s) P (left_ok R)"
proof -
  note cu = kept_cur [OF k c]
  let ?a = "utf_address (frame_tf f s)"
  have d: "ends (env_destroy c s) P (left_ok R)" for P
    by (rule ends_weaken [OF env_destroy_ends [OF k cu(1,2)]]) (simp_all add: c)
  have run: "ends (env_run c t) P (left_ok R)" if t: "kept R t" "curenv t = Some c" for t P
  proof (rule env_run_ends [OF t(1) cu(1)])
    show "env_status (envs t c) \<noteq> ENV_FREE"
      by (rule kept_cur(2) [OF t])
    have o: "cpus_ok R t (- {this_cpu t})" using t(1) by (simp add: kept_def in_kernel_def)
    show "cpu_env (cpus t d) \<noteq> Some c" if "d \<noteq> this_cpu t" for d
      using cpus_okD(2) [OF o, of d c "this_cpu t"] t(2) that by (auto simp: curenv_def)
  qed
  have p: "PTE_ADDR ((PTE_W OR PTE_U) OR PTE_U) = 0" "(PTE_W OR PTE_U) OR PTE_U \<noteq> 0"
    by (simp_all add: PTE_U_def PTE_W_def PTE_ADDR_def)
  let ?run = "\<lambda>s. let s = upd_env c (\<lambda>v. v\<lparr>env_tf := (env_tf v)\<lparr>tf_eip := env_pgfault_upcall v\<rparr>\<rparr>) s;
      s = upd_env c (\<lambda>v. v\<lparr>env_tf := (env_tf v)\<lparr>tf_esp := ?a\<rparr>\<rparr>) s in env_run c s"
  have "ends (bindO (user_mem_assert c ?a UTF_SIZE (PTE_W OR PTE_U) s) (\<lambda>_ s.
      bindO (store_words ?a (utf_words va (frame_tf f s)) s) (\<lambda>_. ?run))) P (left_ok R)"
    unfolding ends_bindO
  proof (rule ends_weaken [OF user_mem_assert_ends [OF k c utf_address_user p]], elim conjE exE)
    fix t g fl
    assume t: "t = s" and pg: "\<forall>i<unat UTF_SIZE. (unat ?a + i) div 4096 = unat ?a div 4096"
      and m: "uspace s (cr3 s) (vpn ?a) = Some (g, fl)" "fl AND ((PTE_W OR PTE_U) OR PTE_U) = (PTE_W OR PTE_U) OR PTE_U"
    have "(fl AND ((PTE_W OR PTE_U) OR PTE_U)) AND PTE_W = PTE_W" unfolding m(2) by (simp add: PTE_U_def PTE_W_def)
    then have W: "fl AND PTE_W \<noteq> 0" by (simp add: and.assoc) (simp add: PTE_U_def PTE_W_def)
    have z: "unat UTF_SIZE = 52" "unat UTOP = 4005560320" by (simp_all add: UTF_SIZE_def layout_values)
    have l: "length (utf_words va tf) = 13" for tf by (simp add: utf_words_def Let_def)
    have "may_write s (?a + of_nat i)" if "i < 52" for i
    proof -
      have b: "unat ?a + i < 2 ^ 32" using utf_address_user(2) [of "frame_tf f s"] that z by simp
      note e = vpn_same_page [OF b pg [rule_format, unfolded z(1), OF that]]
      have "?a + of_nat i < UTOP" using utf_address_user(2) [of "frame_tf f s"] that z
        by (simp add: word_less_nat_alt e(2))
      with m(1) W show ?thesis by (auto simp: may_write_def e(1))
    qed
    then have w: "\<forall>i<4 * length (utf_words va (frame_tf f t)). may_write t (?a + of_nat i)" by (simp add: l t)
    show "ends (store_words ?a (utf_words va (frame_tf f t)) t) (\<lambda>_ s. ends (?run s) P (left_ok R)) (left_ok R)"
    proof (rule ends_weaken [OF store_words_wrote [OF _ _ w]])
      fix u assume "wrote R t u"
      then have u: "kept R u" "curenv u = Some c" using same_env_curenv [of t u] c by (simp_all add: wrote_def t)
      have "kept R (upd_env c (\<lambda>v. v\<lparr>env_tf := (env_tf v)\<lparr>tf_esp := ?a\<rparr>\<rparr>)
          (upd_env c (\<lambda>v. v\<lparr>env_tf := (env_tf v)\<lparr>tf_eip := env_pgfault_upcall v\<rparr>\<rparr>) u))"
        by (intro kept_upd_env u) simp_all
      from run [OF this] u(2) show "ends (?run u) P (left_ok R)" by (simp add: Let_def)
    qed (use k c t in simp_all)
  qed
  then show ?thesis using u d c unfolding page_fault_handler_def by (simp add: deref_def Let_def)
qed

section \<open>Traps\<close>

text \<open>
  How a trap comes: from the program that runs on this CPU, or as an interrupt while the CPU is halted, where
  the kernel waits for the clock. A system call must be legal.
\<close>

definition may_trap :: "u32 \<Rightarrow> Trapframe \<Rightarrow> kstate \<Rightarrow> bool" where
  "may_trap eflags tf s \<longleftrightarrow> eflags AND FL_IF = 0 \<and>
     (case curenv s of
        Some c \<Rightarrow> tf_cs tf AND 3 = 3
      | None \<Rightarrow> cpu_status (cpus s (this_cpu s)) = CPU_HALTED \<and> tf_cs tf AND 3 \<noteq> 3 \<and>
          (unat (tf_trapno tf) = irq IRQ_TIMER \<or> unat (tf_trapno tf) = irq IRQ_SPURIOUS)) \<and>
     (unat (tf_trapno tf) = T_SYSCALL \<longrightarrow> (\<forall>n. syscall_of (reg_eax (tf_regs tf)) = Some n \<longrightarrow>
        legal_syscall s n (reg_edx (tf_regs tf)) (reg_ecx (tf_regs tf)) (reg_ebx (tf_regs tf))))"

lemma trap_return_ends:
  assumes k: "kept R s"
  shows "ends (trap_return s) P (left_ok R)"
proof (cases "curenv s")
  case None
  with sched_yield_ends [OF k] show ?thesis by (simp add: trap_return_def)
next
  case (Some c)
  have o: "cpus_ok R s (- {this_cpu s})" using k by (simp add: kept_def in_kernel_def)
  have "cpu_env (cpus s d) \<noteq> Some c" if "d \<noteq> this_cpu s" for d
    using cpus_okD(2) [OF o, of d c "this_cpu s"] Some that by (auto simp: curenv_def)
  with Some show ?thesis
    by (simp add: trap_return_def env_run_ends [OF k kept_cur(1,2) [OF k Some]] sched_yield_ends [OF k])
qed

lemma trap_dispatch_ends:
  assumes k: "kept R s" and c: "curenv s = Some c" and u: "tf_cs (env_tf (envs s c)) AND 3 = 3"
    and l: "may_trap eflags (env_tf (envs s c)) s"
  shows "ends (trap_dispatch cr2 (OfEnv c) s) (\<lambda>_. kept R) (left_ok R)"
proof -
  let ?tf = "env_tf (envs s c)" and ?r = "tf_regs (env_tf (envs s c))"
  have "(GD_KT AND 3 :: u16) = 0" by (simp add: GD_KT_def)
  then have nk: "tf_cs ?tf \<noteq> GD_KT" using u by auto
  have y: "ends (sched_yield s) P (left_ok R)" for P by (rule sched_yield_ends [OF k])
  have p: "ends (page_fault_handler cr2 (OfEnv c) s) P (left_ok R)" for P
    by (rule page_fault_handler_ends [OF k c]) (simp add: u)
  have d: "ends (env_destroy c s) (\<lambda>_. kept R) (left_ok R)"
    by (rule ends_weaken [OF env_destroy_ends [OF k kept_cur(1,2) [OF k c]]]) (simp_all add: c)
  have m: "left_ok R InMonitor s" using k by (simp add: left_ok_def kept_def)
  have e: "ends (bindO (syscall (reg_eax ?r) (reg_edx ?r) (reg_ecx ?r) (reg_ebx ?r) (reg_edi ?r) (reg_esi ?r) s)
      (\<lambda>ret s. Ret () (set_eax (OfEnv c) ret s))) (\<lambda>_. kept R) (left_ok R)" if n: "unat (tf_trapno ?tf) = T_SYSCALL"
    unfolding ends_bindO
  proof (rule ends_weaken [OF syscall_ends [OF k c]])
    show "legal_syscall s n (reg_edx ?r) (reg_ecx ?r) (reg_ebx ?r)" if "syscall_of (reg_eax ?r) = Some n" for n
      using l \<open>unat (tf_trapno ?tf) = T_SYSCALL\<close> that by (simp add: may_trap_def)
    show "ends (Ret () (set_eax (OfEnv c) a t)) (\<lambda>_. kept R) (left_ok R)" if "kept R t" for a t
      using that by (auto simp: set_eax_def intro!: kept_upd_env)
  qed
  show ?thesis
    using k nk
    by (simp add: trap_dispatch_def Let_def ends_if y p d m e deref_def c)
qed

text \<open>Taking the lock, with the state of the CPU set to started, enters the kernel.\<close>

lemma kept_trap_locked:
  assumes r: "resting (R(this_cpu s := cr3 s)) s"
  shows "kept R (trap_locked pcs s)"
proof -
  let ?s = "trap_locked pcs s"
  have m: "this_cpu ?s = this_cpu s" "envs ?s = envs s" "cr3 ?s = cr3 s" "curenv ?s = curenv s"
    by (simp_all add: trap_locked_def upd_this_cpu_def curenv_def)
  have c: "cpus ?s d = (if d = this_cpu s then (cpus s d)\<lparr>cpu_status := CPU_STARTED\<rparr> else cpus s d)" for d
    by (simp add: trap_locked_def upd_this_cpu_def)
  have ok: "cpus_ok (R(this_cpu s := cr3 s)) s UNIV" and k: "kernel_ok s" using r by (simp_all add: resting_def)
  have "at_rest R ?s d" if "d \<noteq> this_cpu s" for d
  proof -
    have "at_rest (R(this_cpu s := cr3 s)) s d" using ok by (simp add: cpus_ok_def)
    then show ?thesis using that by (simp add: at_rest_def c m cong: option.case_cong)
  qed
  moreover have "cpu_env (cpus ?s d) = cpu_env (cpus s d)" for d by (simp add: c)
  ultimately have "cpus_ok R ?s (- {this_cpu s})" using ok by (simp add: cpus_ok_def)
  moreover have "e < NENV \<and> env_pgdir (envs s e) = Some (cr3 s)" if "curenv s = Some e" for e
    using cpus_okD(1) [OF ok, of "this_cpu s" e] that by (simp add: curenv_def)
  moreover have "kernel_ok ?s" using k by (simp add: trap_locked_def)
  moreover have "holding (this_cpu ?s) (kernel_lock ?s)" by (simp add: m)
  ultimately show ?thesis by (simp add: kept_def in_kernel_def m c)
qed

text \<open>The first time a started CPU gets the lock.\<close>

lemma first_entry_ends:
  assumes r: "resting (R(this_cpu s := cr3 s)) s" and c: "curenv s = None" "cpu_status (cpus s (this_cpu s)) \<noteq> CPU_HALTED"
  shows "ends (bindO (lock_kernel pcs s) (\<lambda>_. sched_yield)) P (left_ok R)"
proof -
  have "locked (kernel_lock s) = 0" using r by (simp add: resting_def)
  note l = lock_kernel_ok [OF this, of pcs]
  let ?s = "s\<lparr>kernel_lock := (kernel_lock s)\<lparr>locked := 1, lk_cpu := Some (this_cpu s), lk_pcs := pcs\<rparr>\<rparr>"
  have ok: "cpus_ok (R(this_cpu s := cr3 s)) s UNIV" using r by (simp add: resting_def)
  have "at_rest R ?s d" if "d \<noteq> this_cpu s" for d
  proof -
    have "at_rest (R(this_cpu s := cr3 s)) s d" using ok by (simp add: cpus_ok_def)
    then show ?thesis using that by (simp add: at_rest_def cong: option.case_cong)
  qed
  then have "cpus_ok R ?s (- {this_cpu s})" using ok by (simp add: cpus_ok_def)
  moreover have "kernel_ok ?s" using r by (simp add: resting_def)
  moreover have "curenv ?s = None" using c(1) by (simp add: curenv_def)
  ultimately have "kept R ?s" using c(2) by (simp add: kept_def in_kernel_def holding_def)
  from sched_yield_ends [OF this] show ?thesis unfolding l bindO.simps .
qed

lemma legal_syscall_cong:
  assumes "kmem t = kmem s" "pages t = pages s" "cr3 t = cr3 s" "curenv t = curenv s"
    "\<And>e. env_status (envs t e) = env_status (envs s e)" "\<And>e. env_id (envs t e) = env_id (envs s e)"
    "\<And>e. env_pgdir (envs t e) = env_pgdir (envs s e)" "\<And>e. env_ipc_recving (envs t e) = env_ipc_recving (envs s e)"
    "\<And>e. env_ipc_dstva (envs t e) = env_ipc_dstva (envs s e)"
  shows "legal_syscall t n a1 a2 a3 = legal_syscall s n a1 a2 a3"
proof -
  have u: "uspace t = uspace s" by (rule uspace_kmem_cong [OF assms(1)])
  have "mmu t = mmu s" "rd_byte t = rd_byte s" by (intro ext; unfold mmu_def rd_byte_def assms(1); rule refl)+
  then have "rd_kernel t = rd_kernel s" by (simp add: fun_eq_iff rd_kernel_def load8_def assms(3) split: option.split)
  moreover have "resolves t = resolves s" "quiet t = quiet s" "env_named t = env_named s"
    by (simp_all add: fun_eq_iff resolves_def quiet_def env_named_def u vm_kmem_cong [OF assms(1)] assms(3-6))
  moreover from this(1) have "shareable t = shareable s" by (simp add: fun_eq_iff shareable_def u assms(2))
  ultimately show ?thesis unfolding legal_syscall_def by (simp only: u assms)
qed

lemma may_trap_locked:
  assumes "may_trap eflags tf s" "curenv s = Some c"
  shows "may_trap eflags tf (upd_env c (\<lambda>v. v\<lparr>env_tf := tf\<rparr>) (trap_locked pcs s))"
proof -
  let ?u = "upd_env c (\<lambda>v. v\<lparr>env_tf := tf\<rparr>) (trap_locked pcs s)"
  have c: "curenv ?u = Some c" using assms(2) by (simp add: curenv_def trap_locked_def upd_this_cpu_def)
  have "legal_syscall ?u n a1 a2 a3 = legal_syscall s n a1 a2 a3" for n a1 a2 a3
    by (rule legal_syscall_cong) (use c assms(2) in \<open>simp_all add: trap_locked_def upd_this_cpu_def\<close>)
  with assms c show ?thesis by (simp add: may_trap_def)
qed

text \<open>The whole of a trap.\<close>

lemma trap_ends:
  assumes r: "resting (R(this_cpu s := cr3 s)) s" and m: "may_trap eflags tf s"
  shows "ends (trap False eflags pcs cr2 tf s) P (left_ok R)"
proof (cases "curenv s")
  case (Some c)
  let ?s = "trap_locked pcs s"
  have k: "kept R ?s" by (rule kept_trap_locked [OF r])
  have "cpus_ok (R(this_cpu s := cr3 s)) s UNIV" using r by (simp add: resting_def)
  from cpus_okD(1) [OF this, of "this_cpu s" c] Some
  have c: "c < NENV" "cpu_status (cpus s (this_cpu s)) \<noteq> CPU_HALTED" "env_status (envs s c) \<noteq> ENV_FREE"
    by (auto simp: curenv_def)
  have ut: "user_trap eflags tf s c" using m Some c(2) r by (simp add: user_trap_def may_trap_def resting_def)
  show ?thesis
  proof (cases "env_status (envs s c) = ENV_DYING")
    case True
    from env_free_kept [OF keptD(1) [OF k] c(1)] c(3) obtain t where t: "env_free c ?s = Ret () t" "kernel_ok t"
      "envs t = (envs s)(c := (envs s c)\<lparr>env_pgdir := None, env_status := ENV_FREE, env_link := env_free_list ?s\<rparr>)"
      "cpus t = cpus ?s" "this_cpu t = this_cpu ?s" "kernel_lock t = kernel_lock ?s" by auto
    have o: "cpus_ok R ?s (- {this_cpu ?s})" using k by (simp add: kept_def in_kernel_def)
    have "cpus_ok R t (- {this_cpu ?s})"
    proof (rule cpus_ok_step [OF o])
      fix d x assume d: "d \<noteq> this_cpu ?s" "cpu_env (cpus ?s d) = Some x"
      have "cpu_env (cpus ?s (this_cpu ?s)) = Some c" using Some by (simp add: trap_locked_def upd_this_cpu_def curenv_def)
      with cpus_okD(2) [OF o d(2)] d(1) have "x \<noteq> c" by auto
      then show "env_pgdir (envs t x) = env_pgdir (envs ?s x) \<and>
        (env_status (envs t x) = env_status (envs ?s x) \<or> env_status (envs t x) = ENV_DYING)" by (simp add: t(3))
    qed (use cpus_okD(2) [OF o] in \<open>auto simp: t(4)\<close>)
    then have "kept R (set_curenv None t)"
      using k t(2) by (intro kept_no_env) (simp_all add: t(4-6) kept_def in_kernel_def)
    from sched_yield_ends [OF this] show ?thesis by (simp add: trap_user [OF ut] True t(1) ends_bindO)
  next
    case False
    let ?u = "upd_env c (\<lambda>v. v\<lparr>env_tf := tf\<rparr>) ?s"
    have ku: "kept R ?u" by (rule kept_upd_env [OF k]) simp_all
    have cu: "curenv ?u = Some c" using Some by (simp add: curenv_def trap_locked_def upd_this_cpu_def)
    have tf: "env_tf (envs ?u c) = tf" by simp
    have "tf_cs tf AND 3 = 3" using ut by (simp add: user_trap_def)
    from trap_dispatch_ends [OF ku cu, unfolded tf, OF this may_trap_locked [OF m Some]]
    have "ends (trap_dispatch cr2 (OfEnv c) ?u) (\<lambda>_ s. ends (trap_return s) P (left_ok R)) (left_ok R)"
      by (rule ends_weaken) (rule trap_return_ends)
    with False show ?thesis by (simp add: trap_user [OF ut] ends_bindO)
  qed
next
  case None
  let ?u = "upd_this_cpu (\<lambda>c. c\<lparr>cpu_status := CPU_STARTED\<rparr>) s" and ?s = "trap_locked pcs s"
  have m: "eflags AND FL_IF = 0" "cpu_status (cpus s (this_cpu s)) = CPU_HALTED" "tf_cs tf AND 3 \<noteq> 3"
    "unat (tf_trapno tf) = irq IRQ_TIMER \<or> unat (tf_trapno tf) = irq IRQ_SPURIOUS"
    using m None by (simp_all add: may_trap_def)
  have k: "kept R ?s" by (rule kept_trap_locked [OF r])
  have "lock_kernel pcs ?u = Ret () ?s"
    using lock_kernel_ok [of ?u] r by (simp add: trap_locked_def resting_def upd_this_cpu_def)
  then have e: "trap False eflags pcs cr2 tf s = bindO (trap_dispatch cr2 (OnStack tf) ?s) (\<lambda>_ s. trap_return s)"
    using m(1-3) by (simp add: trap_def Let_def)
  have "ends (trap_dispatch cr2 (OnStack tf) ?s) (\<lambda>_. kept R) (left_ok R)"
    using m(4) k by (auto simp: trap_dispatch_def Let_def irq_def trap_no_defs sched_yield_ends [OF k])
  then have "ends (trap_dispatch cr2 (OnStack tf) ?s) (\<lambda>_ s. ends (trap_return s) P (left_ok R)) (left_ok R)"
    by (rule ends_weaken) (rule trap_return_ends)
  then show ?thesis by (simp add: e ends_bindO)
qed

section \<open>The machine\<close>

text \<open>
  The state of the machine is that of the kernel with the page directory each CPU has loaded. A step is
  a store of a program to a page it may write, a change of what waits at the devices, a trap on any CPU, to
  its end, or the end of \<open>mp_main\<close> (kern/init.c) on a CPU that has been started: the lock is free when it begins and
  when it ends.
\<close>

definition on_cpu :: "nat \<Rightarrow> kstate \<Rightarrow> (nat \<Rightarrow> nat) \<Rightarrow> kstate" where
  "on_cpu d s R = s\<lparr>this_cpu := d, cr3 := R d\<rparr>"

inductive machine_step :: "kstate \<times> (nat \<Rightarrow> nat) \<Rightarrow> kstate \<times> (nat \<Rightarrow> nat) \<Rightarrow> bool" where
  store: "cpu_env (cpus s d) = Some e \<Longrightarrow> uspace s (R d) v = Some (f, fl) \<Longrightarrow> fl AND PTE_W \<noteq> 0 \<Longrightarrow>
    machine_step (s, R) (s\<lparr>kmem := (kmem s)(f := (kmem s f)(j := w))\<rparr>, R)"
| device: "machine_step (s, R) (s\<lparr>cons := k\<rparr>, R)"
| trap: "may_trap eflags tf (on_cpu d s R) \<Longrightarrow> trap False eflags pcs cr2 tf (on_cpu d s R) = Leave l t \<Longrightarrow>
    l = EnterUser \<or> l = CpuHalted \<Longrightarrow> machine_step (s, R) (t, R(this_cpu t := cr3 t))"
| enter: "cpu_env (cpus s d) = None \<Longrightarrow> cpu_status (cpus s d) = CPU_STARTED \<Longrightarrow>
    bindO (lock_kernel pcs (on_cpu d s R)) (\<lambda>_. sched_yield) = (Leave l t :: unit kres) \<Longrightarrow>
    l = EnterUser \<or> l = CpuHalted \<Longrightarrow> machine_step (s, R) (t, R(this_cpu t := cr3 t))"

inductive_cases machine_stepE: "machine_step (s, R) (t, R')"

lemma resting_on_cpu:
  assumes "resting R s"
  shows "resting (R(d := cr3 (on_cpu d s R))) (on_cpu d s R)"
proof -
  have "kernel_ok (on_cpu d s R)"
    by (rule kernel_ok_cong [of _ s]) (use assms in \<open>simp_all add: on_cpu_def resting_def\<close>)
  moreover have "cpus_ok R (on_cpu d s R) UNIV = cpus_ok R s UNIV"
    by (rule cpus_ok_cong) (simp_all add: on_cpu_def)
  moreover have "R(d := cr3 (on_cpu d s R)) = R" "kernel_lock (on_cpu d s R) = kernel_lock s" by (simp_all add: on_cpu_def)
  ultimately show ?thesis using assms by (simp add: resting_def)
qed

lemma resting_store:
  assumes r: "resting R s" and e: "cpu_env (cpus s d) = Some e" and m: "uspace s (R d) v = Some (f, fl)"
  shows "resting R (s\<lparr>kmem := (kmem s)(f := g)\<rparr>)"
proof -
  let ?t = "s\<lparr>kmem := (kmem s)(f := g)\<rparr>"
  have k: "kernel_ok s" and o: "cpus_ok R s UNIV" using r by (simp_all add: resting_def)
  from k obtain xs where x: "frames_ok s xs (spaces s)" by (auto simp: kernel_ok_def)
  have pd: "R d \<in> spaces s" using cpus_okD(1) [OF o _ e] by (auto simp: spaces_def)
  obtain i j where v: "v = (i, j)" by (cases v)
  have ij: "i < NUSER" "j < NPTENTRIES" using m uspace_out [of i j s "R d"] by (auto simp: v not_less [symmetric])
  note va = vpn_PGADDR [OF ij]
  have "f \<notin> structural s (spaces s)"
    using vpn_slot(6) [OF frames_vm [OF x] pd va(2)] m by (simp add: va(1) v)
  note w = write_frames [OF x this, where g = g]
  have sp: "spaces ?t = spaces s" by (simp add: spaces_def)
  have "envs_ok ?t" using k by (simp add: kernel_ok_def envs_ok_def free_envs_ok_def)
  with w(1) have "kernel_ok ?t" by (auto simp: kernel_ok_def sp)
  moreover have "cpus_ok R ?t UNIV = cpus_ok R s UNIV" by (rule cpus_ok_cong) simp_all
  ultimately show ?thesis using r by (simp add: resting_def)
qed

lemma machine_step_resting:
  assumes "machine_step (s, R) (t, R')" "resting R s"
  shows "resting R' t"
  using assms(1)
proof (rule machine_stepE, goal_cases)
  case 1
  with resting_store [OF assms(2)] show ?case by blast
next
  case (2 k)
  have "cpus_ok R (s\<lparr>cons := k\<rparr>) UNIV = cpus_ok R s UNIV" by (rule cpus_ok_cong) simp_all
  with 2 assms(2) show ?case by (simp add: resting_def)
next
  case (3 eflags tf d pcs cr2 l)
  have "this_cpu (on_cpu d s R) = d" by (simp add: on_cpu_def)
  with resting_on_cpu [OF assms(2), of d] have r: "resting (R(this_cpu (on_cpu d s R) := cr3 (on_cpu d s R))) (on_cpu d s R)" by simp
  from trap_ends [OF r 3(2), of pcs cr2 "\<lambda>_ _. True"] 3(1,3,4) show ?case by (auto simp: left_ok_def)
next
  case (4 d pcs l)
  have o: "this_cpu (on_cpu d s R) = d" "cpus (on_cpu d s R) = cpus s" by (simp_all add: on_cpu_def)
  with resting_on_cpu [OF assms(2), of d] have r: "resting (R(this_cpu (on_cpu d s R) := cr3 (on_cpu d s R))) (on_cpu d s R)" by simp
  from first_entry_ends [OF r, of pcs "\<lambda>(_ :: unit) _. True"] 4 o show ?case by (simp add: left_ok_def curenv_def)
qed

lemma machine_run_resting:
  "machine_step\<^sup>*\<^sup>* m m' \<Longrightarrow> resting (snd m) (fst m) \<Longrightarrow> resting (snd m') (fst m')"
proof (induction rule: rtranclp_induct)
  case (step m' m'')
  then show ?case by (cases m', cases m'') (auto dest: machine_step_resting)
qed

section \<open>Properties\<close>

text \<open>
  C1: No trap crashes the kernel or spoils its state. From a state at rest, a trap of the program that runs, or of the clock while
  the CPU is halted, never panics and never hangs: the kernel goes back to a user program, halts the CPU or
  enters its monitor, and the table of environments, the page tables, the reference counts and the free lists agree
  again; unless the monitor has taken over, all CPUs are at rest and the lock is free. A system call has to be legal,
  that is, meet the conditions of \<open>legal_syscall\<close> the code does not check.
\<close>

theorem trap_safe:
  assumes "resting R s" "R (this_cpu s) = cr3 s" "may_trap eflags tf s"
  shows "\<exists>l t. trap False eflags pcs cr2 tf s = Leave l t \<and> (l = EnterUser \<or> l = CpuHalted \<or> l = InMonitor) \<and>
    kernel_ok t \<and> (l \<noteq> InMonitor \<longrightarrow> resting (R(this_cpu t := cr3 t)) t)"
proof -
  have "R(this_cpu s := cr3 s) = R" using assms(2) by auto
  with trap_ends [of R s eflags tf pcs cr2 "\<lambda>_ _. False"] assms(1,3)
  have e: "ends (trap False eflags pcs cr2 tf s) (\<lambda>_ _. False) (left_ok R)" by simp
  then obtain l t where t: "trap False eflags pcs cr2 tf s = Leave l t" "left_ok R l t"
    by (cases "trap False eflags pcs cr2 tf s") auto
  then show ?thesis by (cases l) (auto simp: left_ok_def)
qed

text \<open>
  C2: As long as every system call is legal, isolation holds in every state the machine can reach from one at
  rest, however the stores and the traps of the CPUs interleave: no two CPUs run the same environment, each CPU has
  the page directory of its environment loaded, no two environments share a directory, and the frames programs can
  reach hold neither page directories nor page tables, are in use, and are not frame 0. The claim is about these
  steps (\<open>machine_step\<close>): a store of a program to a page it may write; a change at the devices; the first entry of
  a started CPU into the scheduler; the clock or a spurious interrupt on a halted CPU; and a trap of a program,
  with interrupts off in the kernel. A trap that is a system call must be legal (\<open>legal_syscall\<close>), which the code does
  not check: it does not change the status of an environment another CPU runs, does not send to one, and does not
  destroy one that is dying on another CPU; \<open>sys_page_alloc\<close> is asked for no permission bits beyond those of a system
  call; a page that is shared or sent is mapped or has no page table, its count has room for one more reference,
  and it lands below \<open>UTOP\<close>; a page that is unmapped is mapped or has no page table; and the string of \<open>sys_cputs\<close>
  lies below \<open>UTOP\<close>, the byte after it readable. Without these conditions isolation can be lost:
  \<open>set_status_two_cpus\<close> and \<open>env_destroy_frees_running\<close> below.
\<close>

theorem machine_isolates:
  assumes "resting R s" "machine_step\<^sup>*\<^sup>* (s, R) (t, R')"
  shows "(\<forall>c d e. cpu_env (cpus t c) = Some e \<longrightarrow> cpu_env (cpus t d) = Some e \<longrightarrow> c = d) \<and>
    (\<forall>d e. cpu_env (cpus t d) = Some e \<longrightarrow> env_pgdir (envs t e) = Some (R' d)) \<and>
    (\<forall>d<NENV. \<forall>e<NENV. \<forall>p. env_pgdir (envs t d) = Some p \<longrightarrow> env_pgdir (envs t e) = Some p \<longrightarrow> d = e) \<and>
    (\<exists>xs. free_pages_ok t xs \<and> (\<forall>e<NENV. \<forall>pd v f fl. env_pgdir (envs t e) = Some pd \<longrightarrow> uspace t pd v = Some (f, fl) \<longrightarrow>
      f \<notin> structural t (spaces t) \<and> f \<notin> set xs \<and> f \<noteq> 0))"
proof -
  have r: "resting R' t" using machine_run_resting [OF assms(2)] assms(1) by simp
  then have k: "kernel_ok t" and o: "cpus_ok R' t UNIV" by (simp_all add: resting_def)
  from k obtain xs where x: "frames_ok t xs (spaces t)" by (auto simp: kernel_ok_def)
  have "f \<notin> structural t (spaces t) \<and> f \<notin> set xs \<and> f \<noteq> 0"
    if e: "e < NENV" "env_pgdir (envs t e) = Some pd" and m: "uspace t pd v = Some (f, fl)" for e pd v f fl
  proof -
    have pd: "pd \<in> spaces t" using e by (auto simp: spaces_def)
    obtain i j where v: "v = (i, j)" by (cases v)
    have ij: "i < NUSER" "j < NPTENTRIES" using m uspace_out [of i j t pd] by (auto simp: v not_less [symmetric])
    note va = vpn_PGADDR [OF ij]
    have "f \<noteq> 0" using m reservedD(2) [OF frames_0 [OF x] pd] by metis
    with vpn_slot(6,8) [OF frames_vm [OF x] pd va(2)] m show ?thesis by (simp add: va(1) v)
  qed
  with vm_free [OF frames_vm [OF x]] k o cpus_okD [OF o] show ?thesis
    unfolding kernel_ok_def envs_ok_def by (intro conjI) (blast | auto)+
qed

section \<open>Where the conditions are needed\<close>

text \<open>
  Three of the conditions of \<open>legal_syscall\<close>, and what the code does without them. An unmapped page in a page
  table stands for frame 0, which is then shared, or given back.
\<close>

theorem page_lookup_takes_frame_0:
  assumes "vm_ok s xs A" "pd \<in> A" "va < UTOP" "has_tbl s pd (unat (PDX va))" "uspace s pd (vpn va) = None"
  shows "page_lookup pd va s = Ret (Some (0, tbl s pd (unat (PDX va)), unat (PTX va))) s"
proof -
  note e = vpn_unmapped [OF assms(1-3,5,4)]
  have z: "frame_of (pte s pd (unat (PDX va)) (unat (PTX va))) = 0" by (simp add: e(2) frame_of_def PGNUM_def)
  have "0 < npages s" using vm_struct [OF assms(1) structuralI(2) [OF e(1)]] by simp
  with page_lookup_slot [OF assms(1) e(1)] z show ?thesis by simp
qed

text \<open>A second request to destroy an environment frees it while another CPU still runs it.\<close>

theorem env_destroy_frees_running:
  assumes "vm_ok s xs A" "pd \<in> A" "env_pgdir (envs s e) = Some pd" "env_status (envs s e) = ENV_DYING"
    "curenv s \<noteq> Some e" "cpu_env (cpus s d) = Some e"
  shows "\<exists>t. env_destroy e s = Ret () t \<and> env_status (envs t e) = ENV_FREE \<and> cpu_env (cpus t d) = Some e"
proof -
  from env_free_ok [OF assms(1-3)] obtain t where t: "env_free e s = Ret () t"
    "envs t = (envs s)(e := (envs s e)\<lparr>env_pgdir := None, env_status := ENV_FREE, env_link := env_free_list s\<rparr>)"
    "curenv t = curenv s" "cpus t = cpus s" by (elim exE conjE) (rule that)
  with assms(4-6) show ?thesis by (simp add: env_destroy_def)
qed

text \<open>A parent that makes its child runnable while another CPU runs it lets two CPUs run the child.\<close>

theorem set_status_two_cpus:
  assumes "envid2env envid True s = Ret (0, Some e) s" "cpu_env (cpus s d) = Some e" "d \<noteq> this_cpu s" "e < NENV"
    "env_pgdir (envs s e) = Some pd" "holding (this_cpu s) (kernel_lock s)"
    "\<forall>x<NENV. x \<noteq> e \<longrightarrow> env_status (envs s x) \<noteq> ENV_RUNNABLE"
  shows "\<exists>t u. sys_env_set_status envid (env_status_code ENV_RUNNABLE) s = Ret 0 t \<and>
    (sched_yield t :: unit kres) = Leave EnterUser u \<and> cpu_env (cpus u d) = Some e \<and> cpu_env (cpus u (this_cpu u)) = Some e"
proof -
  let ?t = "upd_env e (\<lambda>v. v\<lparr>env_status := ENV_RUNNABLE\<rparr>) s"
  have t: "sys_env_set_status envid (env_status_code ENV_RUNNABLE) s = Ret 0 ?t"
    using assms(1) by (simp add: sys_env_set_status_def E_BAD_ENV_def deref_def)
  have "env_status (envs ?t e) = ENV_RUNNABLE" by simp
  from sched_yield_runnable [OF assms(4) this] obtain x where x: "x < NENV" "env_status (envs ?t x) = ENV_RUNNABLE"
    "(sched_yield ?t :: unit kres) = env_run x ?t" by blast
  have "x = e"
  proof (rule ccontr)
    assume "x \<noteq> e"
    with x(1,2) assms(7) show False by simp
  qed
  with x(3) have y: "(sched_yield ?t :: unit kres) = env_run e ?t" by simp
  from env_run_Leave [of ?t e pd] assms(5,6) obtain u where u: "(env_run e ?t :: unit kres) = Leave EnterUser u"
    "this_cpu u = this_cpu ?t" "\<forall>d. cpu_env (cpus u d) = (if d = this_cpu ?t then Some e else cpu_env (cpus ?t d))"
    by auto
  have "cpu_env (cpus u d) = Some e" "cpu_env (cpus u (this_cpu u)) = Some e"
    using u(2,3) assms(2,3) by simp_all
  with t y u(1) show ?thesis by auto
qed

section \<open>Witnesses\<close>

declare One_nat_def [simp del]

text \<open>CPU 0 runs environment 0, the others are not in use; the other slots of the table are free for good.\<close>

definition rest_state :: kstate where
  "rest_state = blank_state\<lparr>cr3 := 1,
     envs := (\<lambda>_. zero_Env)(0 := zero_Env\<lparr>env_pgdir := Some 1, env_id := 0x1000, env_status := ENV_RUNNING\<rparr>),
     cpus := (\<lambda>_. zero_CpuInfo)(0 := zero_CpuInfo\<lparr>cpu_env := Some 0, cpu_status := CPU_STARTED\<rparr>)\<rparr>"

lemma rest_state_ok: "resting (\<lambda>_. 1) rest_state" "may_trap 0 (user_tf 48) rest_state"
  "curenv rest_state = Some 0" "cr3 rest_state = 1" "this_cpu rest_state = 0"
proof -
  have N: "(0::nat) < NENV" by (simp add: NENV_1024)
  have e: "envs rest_state = (\<lambda>_. zero_Env)(0 := zero_Env\<lparr>env_pgdir := Some 1, env_id := 0x1000, env_status := ENV_RUNNING\<rparr>)"
    by (simp add: rest_state_def)
  have sp: "spaces rest_state = {1}" using N by (auto simp: spaces_def e zero_Env_def)
  have g: "vm_ok rest_state [3, 4] {1} = vm_ok blank_state [3, 4] {1}"
    by (rule vm_ok_cong) (simp_all add: rest_state_def)
  have k: "kmem rest_state = (\<lambda>_ _. 0)" by (simp add: rest_state_def blank_state_def bss_state_def)
  then have h: "\<not> has_tbl rest_state q i" for q i by (simp add: has_tbl_def)
  have "reserved rest_state {1} 0"
    using h by (auto simp: reserved_def structural_def slots_def uspace_def restrict_map_def amap_def)
  moreover have "dir_writable rest_state 1" using h by (simp add: dir_writable_def)
  moreover have "pp_ref (pages rest_state 0) \<noteq> 0" by (simp add: rest_state_def blank_state_def)
  ultimately have "frames_ok rest_state [3, 4] (spaces rest_state)"
    using g blank_ok by (simp add: frames_ok_def sp)
  moreover have "envs_ok rest_state"
    unfolding envs_ok_def by (auto simp: e zero_Env_def free_envs_ok_def rest_state_def blank_state_def bss_state_def
      intro!: exI [of _ "[]"] split: if_splits)
  ultimately have "kernel_ok rest_state" by (auto simp: kernel_ok_def)
  moreover have "cpus_ok (\<lambda>_. 1) rest_state UNIV"
    using N by (auto simp: cpus_ok_def at_rest_def e) (auto simp: rest_state_def zero_CpuInfo_def split: if_splits)
  moreover have "locked (kernel_lock rest_state) = 0" by (simp add: rest_state_def blank_state_def bss_state_def)
  ultimately show "resting (\<lambda>_. 1) rest_state" by (simp add: resting_def)
  show c: "curenv rest_state = Some 0" "cr3 rest_state = 1" "this_cpu rest_state = 0"
    by (simp_all add: rest_state_def curenv_def blank_state_def bss_state_def)
  have "syscall_of 99 = None" by (simp add: syscall_of_def NSYSCALLS_def syscall_nos_def)
  then show "may_trap 0 (user_tf 48) rest_state" by (simp add: may_trap_def c user_tf_def)
qed

theorem trap_safe_witness:
  "\<exists>l t. trap False 0 [] 0 (user_tf 48) rest_state = Leave l t \<and> kernel_ok t"
  using trap_safe [OF rest_state_ok(1) _ rest_state_ok(2), of "[]" 0] rest_state_ok(4) by auto

text \<open>The system call with an unknown number goes back to its caller.\<close>

lemma rest_trap:
  "\<exists>t. trap False 0 [] 0 (user_tf 48) rest_state = Leave EnterUser t \<and> cpu_env (cpus t 0) = Some 0"
proof -
  let ?tf = "user_tf 48" and ?s = rest_state
  let ?u = "upd_env 0 (\<lambda>v. v\<lparr>env_tf := ?tf\<rparr>) (trap_locked [] ?s)"
  have ut: "user_trap 0 ?tf ?s 0"
    by (simp add: user_trap_def rest_state_ok(3)) (simp add: user_tf_def rest_state_def blank_state_def bss_state_def)
  have e: "env_status (envs ?s 0) = ENV_RUNNING" "env_pgdir (envs ?s 0) = Some 1" by (simp_all add: rest_state_def)
  have "syscall_of 99 = None" by (simp add: syscall_of_def NSYSCALLS_def syscall_nos_def)
  then have d: "trap_dispatch 0 (OfEnv 0) ?u = Ret () (set_eax (OfEnv 0) (- E_INVAL) ?u)"
    by (simp add: trap_dispatch_def Let_def user_tf_def irq_def trap_no_defs syscall_def)
  let ?v = "set_eax (OfEnv 0) (- E_INVAL) ?u"
  have v: "curenv ?v = Some 0" "env_status (envs ?v 0) = ENV_RUNNING" "env_pgdir (envs ?v 0) = Some 1"
    "this_cpu ?v = 0" "holding 0 (kernel_lock ?v)"
    using e rest_state_ok(3,5) trap_locked_simps(6) [of ?s "[]"]
    by (simp_all add: set_eax_def)
  from env_run_Leave [of ?v 0 1] v obtain t where t: "(env_run 0 ?v :: unit kres) = Leave EnterUser t"
    "\<forall>d. cpu_env (cpus t d) = (if d = 0 then Some 0 else cpu_env (cpus ?v d))" by auto
  from t(2) have "cpu_env (cpus t 0) = Some 0" by simp
  with t(1) show ?thesis using e(1) v(1,2) by (simp add: trap_user [OF ut] d trap_return_def)
qed

theorem machine_isolates_witness:
  "\<exists>R' t. machine_step\<^sup>*\<^sup>* (rest_state, \<lambda>_. 1) (t, R') \<and> cpu_env (cpus t 0) = Some 0 \<and>
    env_pgdir (envs t 0) = Some (R' 0)"
proof -
  have s: "on_cpu 0 rest_state (\<lambda>_. 1) = rest_state" using rest_state_ok(4,5) by (simp add: on_cpu_def)
  obtain t where t: "trap False 0 [] 0 (user_tf 48) rest_state = Leave EnterUser t" "cpu_env (cpus t 0) = Some 0"
    using rest_trap by blast
  from machine_step.trap [of 0 "user_tf 48" 0 rest_state "\<lambda>_. 1", unfolded s, OF rest_state_ok(2) t(1)]
  have r: "machine_step\<^sup>*\<^sup>* (rest_state, \<lambda>_. 1) (t, (\<lambda>_. 1)(this_cpu t := cr3 t))" by blast
  from machine_isolates [OF rest_state_ok(1) r] t(2) r show ?thesis by blast
qed

end
