(* ===== verification/Jos_Boot.thy ===== *)
theory Jos_Boot
  imports Jos_Ulib
begin

text \<open>
  The boot loader (boot/main.c), which reads the kernel from the first IDE disk and enters it, and the
  page tables with which the kernel starts (kern/entrypgdir.c). Memory is flat here: paging is off. The
  disk controller is hardware: its ports are parameters, and \<open>ata_disk\<close> states what the standard says of
  the one command that is used.
\<close>

section \<open>The disk\<close>

text \<open>Reading and writing ports of a machine whose devices have the state \<open>'d\<close> (inc/x86.h).\<close>

record 'd ports =
  in8 :: "u16 \<Rightarrow> 'd \<Rightarrow> u8 \<times> 'd"
  in32 :: "u16 \<Rightarrow> 'd \<Rightarrow> u32 \<times> 'd"
  out8 :: "u16 \<Rightarrow> u8 \<Rightarrow> 'd \<Rightarrow> 'd"
  out16 :: "u16 \<Rightarrow> u16 \<Rightarrow> 'd \<Rightarrow> 'd"

definition SECTSIZE :: u32 where "SECTSIZE = 512"
definition ELFHDR :: u32 where "ELFHDR = 0x10000"

partial_function (option) waitdisk :: "'d ports \<Rightarrow> 'd \<Rightarrow> 'd option" where
  "waitdisk p d = (case in8 p 0x1F7 d of (st, d) \<Rightarrow> if st AND 0xC0 \<noteq> 0x40 then waitdisk p d else Some d)"

definition put32 :: "mem \<Rightarrow> u32 \<Rightarrow> u32 \<Rightarrow> mem" where
  "put32 m a w = m(a := byte_of w 0, a + 1 := byte_of w 1, a + 2 := byte_of w 2, a + 3 := byte_of w 3)"

fun insl :: "'d ports \<Rightarrow> u16 \<Rightarrow> u32 \<Rightarrow> nat \<Rightarrow> mem \<Rightarrow> 'd \<Rightarrow> mem \<times> 'd" where
  "insl p port addr 0 m d = (m, d)"
| "insl p port addr (Suc cnt) m d =
     (case in32 p port d of (w, d) \<Rightarrow> insl p port (addr + 4) cnt (put32 m addr w) d)"

text \<open>The six registers that make up a command.\<close>

definition read_command :: "'d ports \<Rightarrow> u8 \<Rightarrow> u8 \<Rightarrow> u8 \<Rightarrow> u8 \<Rightarrow> u8 \<Rightarrow> 'd \<Rightarrow> 'd" where
  "read_command p n a b c h d =
     (let d = out8 p 0x1F2 n d;
          d = out8 p 0x1F3 a d;
          d = out8 p 0x1F4 b d;
          d = out8 p 0x1F5 c d;
          d = out8 p 0x1F6 h d
      in out8 p 0x1F7 0x20 d)"

definition readsect :: "'d ports \<Rightarrow> u32 \<Rightarrow> u32 \<Rightarrow> mem \<Rightarrow> 'd \<Rightarrow> (mem \<times> 'd) option" where
  "readsect p dst offset m d =
     (case waitdisk p d of
        None \<Rightarrow> None
      | Some d \<Rightarrow>
          let d = read_command p 1 (ucast offset) (ucast (drop_bit 8 offset)) (ucast (drop_bit 16 offset))
                    (ucast (drop_bit 24 offset OR 0xE0)) d
          in case waitdisk p d of
               None \<Rightarrow> None
             | Some d \<Rightarrow> Some (insl p 0x1F0 dst (unat (SECTSIZE div 4)) m d))"

partial_function (option) readseg_loop ::
  "'d ports \<Rightarrow> u32 \<Rightarrow> u32 \<Rightarrow> u32 \<Rightarrow> mem \<Rightarrow> 'd \<Rightarrow> (mem \<times> 'd) option" where
  "readseg_loop p pa end_pa offset m d =
     (if pa < end_pa then
        case readsect p pa offset m d of
          None \<Rightarrow> None
        | Some (m, d) \<Rightarrow> readseg_loop p (pa + SECTSIZE) end_pa (offset + 1) m d
      else Some (m, d))"

definition readseg :: "'d ports \<Rightarrow> u32 \<Rightarrow> u32 \<Rightarrow> u32 \<Rightarrow> mem \<Rightarrow> 'd \<Rightarrow> (mem \<times> 'd) option" where
  "readseg p pa count offset m d =
     readseg_loop p (pa AND NOT (SECTSIZE - 1)) (pa + count) (offset div SECTSIZE + 1) m d"

section \<open>Loading the kernel\<close>

text \<open>The structures are read from memory whenever the code does so, as a segment could overwrite them.\<close>

definition elf_hdr :: "mem \<Rightarrow> Elf" where "elf_hdr m = elf_at (\<lambda>k. m (ELFHDR + of_nat k))"
definition prog_hdr :: "mem \<Rightarrow> u32 \<Rightarrow> Proghdr" where "prog_hdr m ph = proghdr_at (\<lambda>k. m (ph + of_nat k)) 0"

partial_function (option) zero_bss :: "u32 \<Rightarrow> u32 \<Rightarrow> mem \<Rightarrow> mem option" where
  "zero_bss ph i m =
     (if i < p_memsz (prog_hdr m ph) - p_filesz (prog_hdr m ph)
      then zero_bss ph (i + 1) (m((p_pa (prog_hdr m ph) + p_filesz (prog_hdr m ph)) + i := 0))
      else Some m)"

partial_function (option) load_segments :: "'d ports \<Rightarrow> u32 \<Rightarrow> u32 \<Rightarrow> mem \<Rightarrow> 'd \<Rightarrow> (mem \<times> 'd) option" where
  "load_segments p ph eph m d =
     (if ph < eph then
        let h = prog_hdr m ph in
        case readseg p (p_pa h) (p_memsz h) (p_offset h) m d of
          None \<Rightarrow> None
        | Some (m, d) \<Rightarrow>
            (case zero_bss ph 0 m of
               None \<Rightarrow> None
             | Some m \<Rightarrow> load_segments p (ph + 32) eph m d)
      else Some (m, d))"

text \<open>
  The boot loader ends in a jump to an address, or in the endless loop at \<open>bad\<close> (where the kernel would
  also end up if it returned); \<open>None\<close> is a wait for the disk without end.
\<close>

datatype 'd boot_end = Entered u32 mem 'd | Bad mem 'd

definition bootmain :: "'d ports \<Rightarrow> mem \<Rightarrow> 'd \<Rightarrow> 'd boot_end option" where
  "bootmain p m d =
     (case readseg p ELFHDR (SECTSIZE * 8) 0 m d of
        None \<Rightarrow> None
      | Some (m, d) \<Rightarrow>
          if e_magic (elf_hdr m) \<noteq> ELF_MAGIC
          then Some (Bad m (out16 p 0x8A00 0x8E00 (out16 p 0x8A00 0x8A00 d)))
          else
            let ph = ELFHDR + e_phoff (elf_hdr m); eph = ph + 32 * ucast (e_phnum (elf_hdr m)) in
            case load_segments p ph eph m d of
              None \<Rightarrow> None
            | Some (m, d) \<Rightarrow> Some (Entered (e_entry (elf_hdr m)) m d))"

section \<open>What the disk promises\<close>

text \<open>Words read from a port one after the other.\<close>

fun in_words :: "'d ports \<Rightarrow> u16 \<Rightarrow> nat \<Rightarrow> 'd \<Rightarrow> u32 list \<times> 'd" where
  "in_words p port 0 d = ([], d)"
| "in_words p port (Suc n) d =
     (case in32 p port d of (w, d) \<Rightarrow> case in_words p port n d of (ws, d) \<Rightarrow> (w # ws, d))"

text \<open>
  A disk with the bytes \<open>disk\<close>. When it is idle, a wait for it ends. After the command to read one
  sector, with its 28-bit number in the registers and the drive selected in LBA mode, a wait for it ends
  too, 128 words from the data port are the sector, and the disk is idle again.
\<close>

definition ata_disk :: "'d ports \<Rightarrow> ('d \<Rightarrow> bool) \<Rightarrow> (nat \<Rightarrow> u8) \<Rightarrow> bool" where
  "ata_disk p idle disk \<longleftrightarrow>
     (\<forall>d. idle d \<longrightarrow> (\<exists>d'. waitdisk p d = Some d' \<and> idle d')) \<and>
     (\<forall>d a b c h. idle d \<longrightarrow> h AND 0xF0 = 0xE0 \<longrightarrow>
        (\<exists>d' ws d''. waitdisk p (read_command p 1 a b c h d) = Some d' \<and> in_words p 0x1F0 128 d' = (ws, d'') \<and> idle d'' \<and>
          (\<forall>k<512. byte_of (ws ! (k div 4)) (k mod 4) =
             disk (512 * (unat a + 256 * unat b + 65536 * unat c + 16777216 * unat (h AND 0xF)) + k))))"

text \<open>\<open>fill m a n f\<close> is memory with the bytes \<open>f 0\<close> to \<open>f (n - 1)\<close> from \<open>a\<close> on.\<close>

definition fill :: "mem \<Rightarrow> u32 \<Rightarrow> nat \<Rightarrow> (nat \<Rightarrow> u8) \<Rightarrow> mem" where
  "fill m a n f = (\<lambda>x. if unat (x - a) < n then f (unat (x - a)) else m x)"

lemma fill_0 [simp]: "fill m a 0 f = m"
  by (simp add: fill_def)

lemma fill_cong: "(\<And>k. k < n \<Longrightarrow> f k = g k) \<Longrightarrow> fill m a n f = fill m a n g"
  by (auto simp: fill_def)

lemma fill_outside: "n \<le> unat (x - a) \<Longrightarrow> fill m a n f x = m x"
  by (simp add: fill_def)

lemma fill_fill:
  assumes "n + k \<le> 2 ^ 32" "n < 2 ^ 32"
  shows "fill (fill m a n f) (a + of_nat n) k (\<lambda>i. f (n + i)) = fill m a (n + k) f"
proof
  fix x
  have "x - (a + of_nat n) = (x - a) - of_nat n" by simp
  then have "unat (x - (a + of_nat n)) = (if n \<le> unat (x - a) then unat (x - a) - n else 2 ^ 32 + unat (x - a) - n)"
    using unat_sub_nat [OF assms(2), of "x - a"] by (simp only:)
  then show "fill (fill m a n f) (a + of_nat n) k (\<lambda>i. f (n + i)) x = fill m a (n + k) f x"
    using assms by (auto simp: fill_def)
qed

lemma fill_upd: "n < 2 ^ 32 \<Longrightarrow> (fill m a n f)(a + of_nat n := f n) = fill m a (Suc n) f"
proof
  fix x assume n: "n < 2 ^ 32"
  have "unat (x - a) = n \<longleftrightarrow> x - a = of_nat n"
    using n by (simp add: word_unat_eq_iff unat_of_nat take_bit_eq_mod)
  then have "unat (x - a) = n \<longleftrightarrow> x = a + of_nat n" by (simp add: diff_eq_eq add.commute)
  then show "((fill m a n f)(a + of_nat n := f n)) x = fill m a (Suc n) f x"
    using n by (auto simp: fill_def less_Suc_eq unat_of_nat take_bit_eq_mod)
qed

lemma fill_put32:
  assumes "n < 2 ^ 30"
  shows "put32 (fill m a (4 * n) f) (a + 4 * of_nat n) w = fill m a (4 * Suc n) (\<lambda>k. if k < 4 * n then f k else byte_of w (k - 4 * n))"
proof -
  define g where "g = (\<lambda>k. if k < 4 * n then f k else byte_of w (k - 4 * n))"
  note step = fill_upd [symmetric, where m = m and a = a and f = g]
  have e: "4 * Suc n = Suc (Suc (Suc (Suc (4 * n))))" by simp
  have "fill m a (4 * Suc n) g = (fill m a (4 * n) g)(a + of_nat (4 * n) := g (4 * n),
      a + of_nat (Suc (4 * n)) := g (Suc (4 * n)), a + of_nat (Suc (Suc (4 * n))) := g (Suc (Suc (4 * n))),
      a + of_nat (Suc (Suc (Suc (4 * n)))) := g (Suc (Suc (Suc (4 * n)))))"
    unfolding e by (subst step, use assms in simp)+ (rule refl)
  moreover have "fill m a (4 * n) g = fill m a (4 * n) f" by (rule fill_cong) (simp add: g_def)
  ultimately show ?thesis by (simp add: put32_def g_def algebra_simps)
qed

lemma insl_words:
  assumes "in_words p port cnt d = (ws, d')" "n + cnt < 2 ^ 30"
  shows "insl p port (a + 4 * of_nat n) cnt (fill m a (4 * n) f) d =
    (fill m a (4 * (n + cnt)) (\<lambda>k. if k < 4 * n then f k else byte_of (ws ! ((k - 4 * n) div 4)) ((k - 4 * n) mod 4)), d')"
  using assms
proof (induction cnt arbitrary: n d ws f)
  case 0
  then show ?case by (auto intro: fill_cong)
next
  case (Suc cnt)
  obtain w d1 where w: "in32 p port d = (w, d1)" by (cases "in32 p port d")
  with Suc.prems obtain vs where vs: "in_words p port cnt d1 = (vs, d')" "ws = w # vs" by (auto split: prod.splits)
  let ?f = "\<lambda>k. if k < 4 * n then f k else byte_of w (k - 4 * n)"
  have "insl p port (a + 4 * of_nat (Suc n)) cnt (fill m a (4 * Suc n) ?f) d1 =
    (fill m a (4 * (Suc n + cnt)) (\<lambda>k. if k < 4 * Suc n then ?f k
       else byte_of (vs ! ((k - 4 * Suc n) div 4)) ((k - 4 * Suc n) mod 4)), d')"
    by (rule Suc.IH [OF vs(1)]) (use Suc.prems(2) in simp)
  moreover have "(if k < 4 * Suc n then ?f k else byte_of (vs ! ((k - 4 * Suc n) div 4)) ((k - 4 * Suc n) mod 4)) =
    (if k < 4 * n then f k else byte_of (ws ! ((k - 4 * n) div 4)) ((k - 4 * n) mod 4))" for k
  proof (cases "k < 4 * Suc n")
    case False
    then obtain j where "k = 4 * Suc n + j" using le_Suc_ex not_less by blast
    moreover have "(4 + j) div 4 = Suc (j div 4)" by simp
    ultimately show ?thesis by (simp add: vs(2))
  qed (auto simp: vs(2))
  ultimately show ?case
    using Suc.prems(2) w fill_put32 [of n m a f w] by (simp add: algebra_simps)
qed

text \<open>The sector number in the registers is the one asked for, and the drive is selected as it should be.\<close>

lemma digits_256: "y mod 256 + 256 * (y div 256 mod 256) + 65536 * (y div 65536 mod 256) + 16777216 * (y div 16777216) = y"
  for y :: nat
proof -
  define q r a b c d where "q = y div 256" and "r = q div 256" and "a = y mod 256" and "b = q mod 256"
    and "c = r mod 256" and "d = r div 256"
  have "y = a + 256 * q" "q = b + 256 * r" "r = c + 256 * d" by (simp_all add: q_def r_def a_def b_def c_def d_def)
  then have "a + 256 * b + 65536 * c + 16777216 * d = y" by simp
  moreover have "y div 16777216 = d" "y div 65536 = r" by (simp_all add: q_def r_def d_def flip: div_mult2_eq)
  ultimately show ?thesis by (simp add: a_def b_def c_def q_def)
qed

lemma lba_bits:
  assumes "unat (offset :: u32) < 2 ^ 28"
  shows "(ucast (drop_bit 24 offset OR 0xE0) :: u8) AND 0xF0 = 0xE0"
    "unat (ucast offset :: u8) + 256 * unat (ucast (drop_bit 8 offset) :: u8) +
     65536 * unat (ucast (drop_bit 16 offset) :: u8) +
     16777216 * unat ((ucast (drop_bit 24 offset OR 0xE0) :: u8) AND 0xF) = unat offset"
proof -
  have "take_bit 28 offset = offset"
    using assms by (simp add: word_unat_eq_iff unsigned_take_bit_eq take_bit_nat_eq_self)
  then have high: "\<not> bit offset k" if "28 \<le> k" for k
    using that by (metis bit_take_bit_iff not_less)
  show "(ucast (drop_bit 24 offset OR 0xE0) :: u8) AND 0xF0 = 0xE0"
  proof (rule bit_word_eqI)
    fix k assume "k < LENGTH(8)"
    then have "k \<in> {0, 1, 2, 3, 4, 5, 6, 7}" by auto
    then show "bit ((ucast (drop_bit 24 offset OR 0xE0) :: u8) AND 0xF0) k = bit (0xE0 :: u8) k"
      using high by (auto simp: bit_simps)
  qed
  have h: "(ucast (drop_bit 24 offset OR 0xE0) :: u8) AND 0xF = ucast (drop_bit 24 offset)"
  proof (rule bit_word_eqI)
    fix k assume "k < LENGTH(8)"
    then have "k \<in> {0, 1, 2, 3, 4, 5, 6, 7}" by auto
    then show "bit ((ucast (drop_bit 24 offset OR 0xE0) :: u8) AND 0xF) k = bit (ucast (drop_bit 24 offset) :: u8) k"
      using high by (auto simp: bit_simps)
  qed
  have u: "unat (ucast (drop_bit n offset) :: u8) = unat offset div 2 ^ n mod 256" for n
    using unat_u32_less [of offset]
    by (simp add: unsigned_ucast_eq unsigned_drop_bit_eq take_bit_eq_mod) (simp add: drop_bit_eq_div)
  define y where "y = unat offset"
  have "y div 16777216 < 256" using assms by (simp add: y_def)
  then have y: "y mod 256 + 256 * (y div 256 mod 256) + 65536 * (y div 65536 mod 256) + 16777216 * (y div 16777216 mod 256) = y"
    using digits_256 [of y] by simp
  show "unat (ucast offset :: u8) + 256 * unat (ucast (drop_bit 8 offset) :: u8) +
     65536 * unat (ucast (drop_bit 16 offset) :: u8) +
     16777216 * unat ((ucast (drop_bit 24 offset OR 0xE0) :: u8) AND 0xF) = unat offset"
    unfolding h using u [of 0] u [of 8] u [of 16] u [of 24] y by (simp add: y_def)
qed

lemma readsect_fill:
  assumes "ata_disk p idle disk" "idle d" "unat offset < 2 ^ 28"
  shows "\<exists>d'. readsect p dst offset m d = Some (fill m dst 512 (\<lambda>k. disk (512 * unat offset + k)), d') \<and> idle d'"
proof -
  from assms(1,2) obtain d1 where d1: "waitdisk p d = Some d1" "idle d1" by (auto simp: ata_disk_def)
  let ?h = "ucast (drop_bit 24 offset OR 0xE0) :: u8"
  note b = lba_bits [OF assms(3)]
  have cmd: "\<exists>d' ws d''. waitdisk p (read_command p 1 a b c h d1) = Some d' \<and> in_words p 0x1F0 128 d' = (ws, d'') \<and> idle d'' \<and>
      (\<forall>k<512. byte_of (ws ! (k div 4)) (k mod 4) = disk (512 * n + k))"
    if "h AND 0xF0 = 0xE0" "unat a + 256 * unat b + 65536 * unat c + 16777216 * unat (h AND 0xF) = n" for a b c h n
    using assms(1) d1(2) that(1) unfolding ata_disk_def that(2) [symmetric] by blast
  from cmd [OF b] obtain d2 ws d3 where d2:
    "waitdisk p (read_command p 1 (ucast offset) (ucast (drop_bit 8 offset)) (ucast (drop_bit 16 offset)) ?h d1) = Some d2"
    "in_words p 0x1F0 128 d2 = (ws, d3)" "idle d3"
    "\<forall>k<512. byte_of (ws ! (k div 4)) (k mod 4) = disk (512 * unat offset + k)" by blast
  have "insl p 0x1F0 dst 128 m d2 = (fill m dst 512 (\<lambda>k. byte_of (ws ! (k div 4)) (k mod 4)), d3)"
    using insl_words [OF d2(2), of 0 dst m "\<lambda>_. 0"] by simp
  also have "fill m dst 512 (\<lambda>k. byte_of (ws ! (k div 4)) (k mod 4)) = fill m dst 512 (\<lambda>k. disk (512 * unat offset + k))"
    using d2(4) by (intro fill_cong) simp
  finally show ?thesis using d1 d2 by (simp add: readsect_def SECTSIZE_def Let_def)
qed

section \<open>Reading a segment\<close>

lemma readseg_loop_fill:
  assumes "ata_disk p idle disk" "idle d" "unat pa + 512 * n < 2 ^ 32" "unat offset + n \<le> 2 ^ 28"
    "unat end_pa \<le> unat pa + 512 * n" "0 < n \<Longrightarrow> unat pa + 512 * (n - 1) < unat end_pa"
  shows "\<exists>d'. readseg_loop p pa end_pa offset m d =
      Some (fill m pa (512 * n) (\<lambda>k. disk (512 * unat offset + k)), d') \<and> idle d'"
  using assms(2-)
proof (induction n arbitrary: pa offset m d)
  case 0
  then show ?case by (simp add: readseg_loop.simps word_less_nat_alt)
next
  case (Suc n)
  have o: "unat offset < 2 ^ 28" "unat (offset + 1) = unat offset + 1" using Suc.prems(3) by (simp_all add: unat_word_ariths)
  have pa: "unat (pa + 512) = unat pa + 512" "pa < end_pa"
    using Suc.prems(2,5) by (simp_all add: unat_word_ariths word_less_nat_alt)
  define f where "f = (\<lambda>k. disk (512 * unat offset + k))"
  from readsect_fill [OF assms(1) Suc.prems(1) o(1), of pa m] obtain d1 where
    d1: "readsect p pa offset m d = Some (fill m pa 512 f, d1)" "idle d1" by (auto simp: f_def)
  have "\<exists>d'. readseg_loop p (pa + 512) end_pa (offset + 1) (fill m pa 512 f) d1 =
      Some (fill (fill m pa 512 f) (pa + 512) (512 * n) (\<lambda>k. disk (512 * unat (offset + 1) + k)), d') \<and> idle d'"
    by (rule Suc.IH [OF d1(2)]) (use Suc.prems pa o in \<open>auto split: nat_diff_split\<close>)
  moreover have "(\<lambda>k. disk (512 * unat (offset + 1) + k)) = (\<lambda>i. f (512 + i))"
    unfolding f_def o(2) by (simp add: algebra_simps)
  moreover have "fill (fill m pa 512 f) (pa + 512) (512 * n) (\<lambda>i. f (512 + i)) = fill m pa (512 * Suc n) f"
    using fill_fill [of 512 "512 * n" m pa f] Suc.prems(2) by simp
  ultimately show ?case
    using pa(2) d1(1) by (simp add: readseg_loop.simps [of p pa] SECTSIZE_def f_def)
qed

text \<open>The kernel image starts in the second sector; reading covers whole sectors.\<close>

definition kfile :: "(nat \<Rightarrow> u8) \<Rightarrow> nat \<Rightarrow> u8" where "kfile disk k = disk (512 + k)"
definition sect_start :: "u32 \<Rightarrow> nat" where "sect_start pa = unat pa div 512 * 512"
definition sect_end :: "u32 \<Rightarrow> u32 \<Rightarrow> nat" where "sect_end pa count = (unat pa + unat count + 511) div 512 * 512"

lemma sect_align: "pa AND NOT (SECTSIZE - 1) = of_nat (sect_start pa)" "unat (pa AND NOT (SECTSIZE - 1)) = sect_start pa"
proof -
  have "NOT (SECTSIZE - 1) = NOT (mask 9)" by (simp add: SECTSIZE_def mask_eq_exp_minus_1)
  then have "pa AND NOT (SECTSIZE - 1) = push_bit 9 (drop_bit 9 pa)"
    by (simp only:) (rule bit_word_eqI, auto simp: bit_simps)
  moreover have "unat (push_bit 9 (drop_bit 9 pa)) = sect_start pa"
    using unat_u32_less [of pa]
    by (simp add: sect_start_def push_bit_eq_mult drop_bit_eq_div unat_word_ariths unat_div)
  ultimately show "unat (pa AND NOT (SECTSIZE - 1)) = sect_start pa" by simp
  then show "pa AND NOT (SECTSIZE - 1) = of_nat (sect_start pa)" by (metis of_nat_unat ucast_id)
qed

lemma sectors_needed:
  fixes x c :: nat
  assumes "x + c + 511 < 2 ^ 32" "n = (x + c + 511) div 512 - x div 512"
  shows "x div 512 * 512 + 512 * n = (x + c + 511) div 512 * 512" "x div 512 * 512 + 512 * n < 2 ^ 32"
    "x + c \<le> x div 512 * 512 + 512 * n" "0 < n \<Longrightarrow> x div 512 * 512 + 512 * (n - 1) < x + c" "n < 2 ^ 23"
proof -
  define q where "q = x div 512"
  define e where "e = (x + c + 511) div 512"
  have q: "q * 512 \<le> x" "x < q * 512 + 512" unfolding q_def by linarith+
  have e: "e * 512 \<le> x + c + 511" "x + c \<le> e * 512" if "q \<le> e" using that unfolding e_def by linarith+
  have le: "q \<le> e" unfolding q_def e_def by (rule div_le_mono) simp
  have n: "n = e - q" by (simp add: assms(2) e_def q_def)
  show "x div 512 * 512 + 512 * n = (x + c + 511) div 512 * 512" "x div 512 * 512 + 512 * n < 2 ^ 32"
    "x + c \<le> x div 512 * 512 + 512 * n" "n < 2 ^ 23"
    unfolding q_def [symmetric] e_def [symmetric] n using e le assms(1) by simp_all
  show "x div 512 * 512 + 512 * (n - 1) < x + c" if "0 < n"
    unfolding q_def [symmetric] n using e le that n by simp
qed

lemma readseg_fill:
  assumes "ata_disk p idle disk" "idle d" "unat pa + unat count + 511 < 2 ^ 32"
  shows "\<exists>d'. readseg p pa count offset m d =
      Some (fill m (of_nat (sect_start pa)) (sect_end pa count - sect_start pa)
        (\<lambda>k. kfile disk (sect_start offset + k)), d') \<and> idle d'"
proof -
  define n where "n = (unat pa + unat count + 511) div 512 - unat pa div 512"
  note r = sectors_needed [OF assms(3) n_def, folded sect_start_def sect_end_def]
  note n = r(1)
  have "unat (offset div 512 + 1) = unat offset div 512 + 1"
    using unat_u32_less [of offset] by (simp add: unat_word_ariths unat_div)
  moreover have "n + (unat offset div 512 + 1) \<le> 2 ^ 28" using r(5) unat_u32_less [of offset] by simp
  ultimately have o': "unat (offset div SECTSIZE + 1) + n \<le> 2 ^ 28" and o: "512 * unat (offset div SECTSIZE + 1) = 512 + sect_start offset"
    by (simp_all add: SECTSIZE_def sect_start_def)
  have u: "unat (of_nat (sect_start pa) :: u32) = sect_start pa" using r(2) by (simp add: unat_of_nat take_bit_eq_mod)
  have e: "unat (pa + count) = unat pa + unat count" using assms(3) by (simp add: unat_word_ariths)
  have "\<exists>d'. readseg_loop p (of_nat (sect_start pa)) (pa + count) (offset div SECTSIZE + 1) m d =
      Some (fill m (of_nat (sect_start pa)) (512 * n) (\<lambda>k. disk (512 * unat (offset div SECTSIZE + 1) + k)), d') \<and> idle d'"
    by (rule readseg_loop_fill [OF assms(1,2)]) (use r o' in \<open>simp_all add: u e\<close>)
  moreover have "(\<lambda>k. disk (512 * unat (offset div SECTSIZE + 1) + k)) = (\<lambda>k. kfile disk (sect_start offset + k))"
    unfolding o kfile_def by (simp add: add.assoc)
  moreover have "sect_end pa count - sect_start pa = 512 * n" using n by simp
  ultimately show ?thesis by (simp add: readseg_def sect_align(1))
qed

section \<open>The segments of the kernel\<close>

lemma fill_at:
  assumes "a < 2 ^ 32" "a + n \<le> 2 ^ 32"
  shows "fill m (of_nat a) n f x = (if a \<le> unat x \<and> unat x < a + n then f (unat x - a) else m x)"
  using unat_sub_nat [OF assms(1), of x] unat_u32_less [of x] assms by (auto simp: fill_def)

lemma unat_plus_nat: "unat (a :: u32) + k < 2 ^ 32 \<Longrightarrow> unat (a + of_nat k) = unat a + k"
  by (simp add: unat_word_ariths unat_of_nat take_bit_eq_mod)

lemma proghdr_at_cong:
  assumes "\<And>k. k < 32 \<Longrightarrow> b (n + k) = b' (n' + k)"
  shows "proghdr_at b n = proghdr_at b' n'"
proof -
  have le: "le32 b (n + j) = le32 b' (n' + j)" if "j + 4 \<le> 32" for j
    using that assms [of j] assms [of "j + 1"] assms [of "j + 2"] assms [of "j + 3"] by (simp add: le32_def add.assoc)
  show ?thesis using le [of 0] by (simp add: proghdr_at_def le)
qed

lemma zero_bss_fill:
  assumes "\<And>j. j \<le> c \<Longrightarrow> prog_hdr (fill m (p_pa h + p_filesz h) j (\<lambda>_. 0)) ph = h"
    and "c = unat (p_memsz h - p_filesz h)" "i \<le> c"
  shows "zero_bss ph (of_nat i) (fill m (p_pa h + p_filesz h) i (\<lambda>_. 0)) = Some (fill m (p_pa h + p_filesz h) c (\<lambda>_. 0))"
  using assms(3)
proof (induction "c - i" arbitrary: i)
  case 0
  then have "i = c" by simp
  then show ?case using assms(1) [of c] assms(2) by (simp add: zero_bss.simps [of ph])
next
  case (Suc n)
  then have i: "i < c" "n = c - Suc i" "Suc i \<le> c" by simp_all
  have "i < 2 ^ 32" using i(1) assms(2) unat_u32_less [of "p_memsz h - p_filesz h"] by simp
  then have "unat (of_nat i :: u32) = i" by (simp add: unat_of_nat take_bit_eq_mod)
  then have "(of_nat i :: u32) < p_memsz h - p_filesz h" using i(1) assms(2) by (simp add: word_less_nat_alt)
  moreover have "prog_hdr (fill m (p_pa h + p_filesz h) i (\<lambda>_. 0)) ph = h" using assms(1) i(1) by simp
  moreover have "(fill m (p_pa h + p_filesz h) i (\<lambda>_. 0))(p_pa h + p_filesz h + of_nat i := 0) =
      fill m (p_pa h + p_filesz h) (Suc i) (\<lambda>_. 0)"
    using fill_upd [OF \<open>i < 2 ^ 32\<close>, of m "p_pa h + p_filesz h" "\<lambda>_. 0"] by simp
  ultimately show ?case
    using Suc.hyps(1) [OF i(2,3)] by (subst zero_bss.simps) (simp add: add.commute)
qed

text \<open>What a segment asks of the memory after loading, and the sectors that loading writes to.\<close>

definition seg_bytes :: "(nat \<Rightarrow> u8) \<Rightarrow> Proghdr \<Rightarrow> nat \<Rightarrow> u8" where
  "seg_bytes disk h k = (if k < unat (p_filesz h) then kfile disk (unat (p_offset h) + k) else 0)"

definition seg_loaded :: "(nat \<Rightarrow> u8) \<Rightarrow> Proghdr \<Rightarrow> mem \<Rightarrow> bool" where
  "seg_loaded disk h m \<longleftrightarrow> (\<forall>k<unat (p_memsz h). m (p_pa h + of_nat k) = seg_bytes disk h k)"

definition seg_touched :: "Proghdr \<Rightarrow> nat set" where
  "seg_touched h = {sect_start (p_pa h)..<sect_end (p_pa h) (p_memsz h)}"

text \<open>
  The place in the file and in memory agree within a sector, the address space does not end in the last
  sector, and the scratch page with the headers is not touched.
\<close>

definition seg_ok :: "Proghdr \<Rightarrow> bool" where
  "seg_ok h \<longleftrightarrow> unat (p_pa h) mod 512 = unat (p_offset h) mod 512 \<and> p_filesz h \<le> p_memsz h \<and>
     unat (p_pa h) + unat (p_memsz h) + 511 < 2 ^ 32 \<and> (sect_end (p_pa h) (p_memsz h) \<le> 0x10000 \<or> 0x11000 \<le> sect_start (p_pa h))"

lemma seg_in_touched:
  "seg_ok h \<Longrightarrow> {unat (p_pa h)..<unat (p_pa h) + unat (p_memsz h)} \<subseteq> seg_touched h"
  "seg_ok h \<Longrightarrow> sect_end (p_pa h) (p_memsz h) < 2 ^ 32" "seg_ok h \<Longrightarrow> sect_start (p_pa h) \<le> sect_end (p_pa h) (p_memsz h)"
  unfolding seg_ok_def seg_touched_def
  using sectors_needed(2,3) [of "unat (p_pa h)" "unat (p_memsz h)", OF _ refl] sectors_needed(1) [of "unat (p_pa h)" "unat (p_memsz h)", OF _ refl]
  by (auto simp: sect_start_def sect_end_def)

lemma same_sector_offset:
  fixes x y k :: nat
  assumes "x mod 512 = y mod 512"
  shows "y div 512 * 512 + (x + k - x div 512 * 512) = y + k"
proof -
  define q where "q = x div 512 * 512"
  have "x = q + x mod 512" by (simp add: q_def)
  moreover have "y = y div 512 * 512 + x mod 512" by (simp add: assms)
  ultimately show ?thesis unfolding q_def [symmetric] by linarith
qed

lemma load_one:
  assumes "ata_disk p idle disk" "idle d" "seg_ok h" "prog_hdr m ph = h" "0x10000 \<le> unat ph" "unat ph + 32 \<le> 0x11000"
  shows "\<exists>m1 m2 d1. readseg p (p_pa h) (p_memsz h) (p_offset h) m d = Some (m1, d1) \<and> zero_bss ph 0 m1 = Some m2 \<and>
    idle d1 \<and> seg_loaded disk h m2 \<and> (\<forall>x. unat x \<notin> seg_touched h \<longrightarrow> m2 x = m x)"
proof -
  note b = seg_in_touched [OF assms(3)]
  from assms(3) have ok: "unat (p_pa h) mod 512 = unat (p_offset h) mod 512" "p_filesz h \<le> p_memsz h"
    "unat (p_pa h) + unat (p_memsz h) + 511 < 2 ^ 32" "\<forall>k\<in>{0x10000..<0x11000}. k \<notin> seg_touched h"
    by (auto simp: seg_ok_def seg_touched_def)
  define f where "f = (\<lambda>k. kfile disk (sect_start (p_offset h) + k))"
  define m1 where "m1 = fill m (of_nat (sect_start (p_pa h))) (sect_end (p_pa h) (p_memsz h) - sect_start (p_pa h)) f"
  from readseg_fill [OF assms(1,2) ok(3), of "p_offset h" m] obtain d1 where
    d1: "readseg p (p_pa h) (p_memsz h) (p_offset h) m d = Some (m1, d1)" "idle d1"
    unfolding m1_def f_def by blast
  have m1: "m1 x = (if unat x \<in> seg_touched h then f (unat x - sect_start (p_pa h)) else m x)" for x
    using b(2,3) fill_at [of "sect_start (p_pa h)" "sect_end (p_pa h) (p_memsz h) - sect_start (p_pa h)" m f x]
    by (auto simp: m1_def seg_touched_def)
  let ?z = "p_pa h + p_filesz h" and ?c = "unat (p_memsz h - p_filesz h)"
  have c: "?c = unat (p_memsz h) - unat (p_filesz h)" "unat (p_filesz h) \<le> unat (p_memsz h)"
    using ok(2) by (simp_all add: unat_sub_if' word_le_nat_alt)
  have z: "unat ?z = unat (p_pa h) + unat (p_filesz h)" using ok(3) c(2) by (simp add: unat_word_ariths)
  then have z': "?z = of_nat (unat (p_pa h) + unat (p_filesz h))" by simp
  define m2 where "m2 = fill m1 ?z ?c (\<lambda>_. 0)"
  have fz: "fill m1 ?z j (\<lambda>_. 0) x = (if unat ?z \<le> unat x \<and> unat x < unat ?z + j then 0 else m1 x)" if "j \<le> ?c" for j x
    unfolding z' using fill_at [of "unat ?z" j m1 "\<lambda>_. 0" x] that z c ok(3) by simp
  have out: "fill m1 ?z j (\<lambda>_. 0) x = m x" if "j \<le> ?c" "unat x \<notin> seg_touched h" for j x
    using fz [OF that(1)] that m1 b(1) z c by (auto simp: subset_iff)
  have "prog_hdr (fill m1 ?z j (\<lambda>_. 0)) ph = h" if "j \<le> ?c" for j
  proof -
    have "fill m1 ?z j (\<lambda>_. 0) (ph + of_nat k) = m (ph + of_nat k)" if k: "k < 32" for k
      using unat_plus_nat [of ph k] k assms(5,6) ok(4) by (intro out [OF \<open>j \<le> ?c\<close>]) simp
    then show ?thesis unfolding assms(4) [symmetric] prog_hdr_def by (intro proghdr_at_cong) simp
  qed
  from zero_bss_fill [OF this refl, of 0] have "zero_bss ph 0 m1 = Some m2" by (simp add: m2_def)
  moreover have "seg_loaded disk h m2"
    unfolding seg_loaded_def
  proof (intro allI impI)
    fix k assume k: "k < unat (p_memsz h)"
    define x where "x = p_pa h + of_nat k"
    have x: "unat x = unat (p_pa h) + k" unfolding x_def by (rule unat_plus_nat) (use ok(3) k in simp)
    then have t: "unat x \<in> seg_touched h" using b(1) k by (auto simp: subset_iff)
    have "f (unat x - sect_start (p_pa h)) = kfile disk (unat (p_offset h) + k)"
      using same_sector_offset [OF ok(1)] by (simp add: f_def x sect_start_def)
    then show "m2 (p_pa h + of_nat k) = seg_bytes disk h k"
      using fz [of ?c x] m1 [of x] t x z c k by (simp add: m2_def seg_bytes_def flip: x_def)
  qed
  moreover have "\<forall>x. unat x \<notin> seg_touched h \<longrightarrow> m2 x = m x" using out by (simp add: m2_def)
  ultimately show ?thesis using d1 by blast
qed

text \<open>
  A segment stays as loaded if no later segment touches it; that the sectors read reach beyond a
  segment's end does no harm to segments loaded later.
\<close>

definition seg_apart :: "Proghdr \<Rightarrow> Proghdr \<Rightarrow> bool" where
  "seg_apart h g \<longleftrightarrow> {unat (p_pa h)..<unat (p_pa h) + unat (p_memsz h)} \<inter> seg_touched g = {}"

lemma load_segments_ok:
  assumes "ata_disk p idle disk" "idle d" "list_all seg_ok hs" "sorted_wrt seg_apart hs"
    "0x10000 \<le> b" "b + 32 * length hs \<le> 0x11000" "\<forall>j<length hs. prog_hdr m (of_nat (b + 32 * j)) = hs ! j"
  shows "\<exists>m' d'. load_segments p (of_nat b) (of_nat (b + 32 * length hs)) m d = Some (m', d') \<and>
    (\<forall>h\<in>set hs. seg_loaded disk h m') \<and> (\<forall>x. unat x \<notin> (\<Union>h\<in>set hs. seg_touched h) \<longrightarrow> m' x = m x)"
  using assms(2-)
proof (induction hs arbitrary: b m d)
  case Nil
  then show ?case by (simp add: load_segments.simps)
next
  case (Cons h hs)
  have u: "unat (of_nat b :: u32) = b" "unat (of_nat (b + 32 * length (h # hs)) :: u32) = b + 32 * length (h # hs)"
    using Cons.prems(5) by (simp_all add: unat_of_nat take_bit_eq_mod del: of_nat_add of_nat_mult)
  have hd: "prog_hdr m (of_nat b) = h" using Cons.prems(6) by force
  have "seg_ok h" using Cons.prems(2) by simp
  then have "\<exists>m1 m2 d1. readseg p (p_pa h) (p_memsz h) (p_offset h) m d = Some (m1, d1) \<and> zero_bss (of_nat b) 0 m1 = Some m2 \<and>
    idle d1 \<and> seg_loaded disk h m2 \<and> (\<forall>x. unat x \<notin> seg_touched h \<longrightarrow> m2 x = m x)"
    by (rule load_one [OF assms(1) Cons.prems(1) _ hd]) (use Cons.prems(4,5) u in simp_all)
  then obtain m1 m2 d1 where one: "readseg p (p_pa h) (p_memsz h) (p_offset h) m d = Some (m1, d1)" "zero_bss (of_nat b) 0 m1 = Some m2"
    "idle d1" "seg_loaded disk h m2" "\<forall>x. unat x \<notin> seg_touched h \<longrightarrow> m2 x = m x" by blast
  have page: "x \<notin> seg_touched h" if "0x10000 \<le> x" "x < 0x11000" for x
    using \<open>seg_ok h\<close> that by (auto simp: seg_ok_def seg_touched_def)
  have "prog_hdr m2 (of_nat (b + 32 + 32 * j)) = hs ! j" if j: "j < length hs" for j
  proof -
    define a where "a = (of_nat (b + 32 + 32 * j) :: u32)"
    have a: "unat a = b + 32 + 32 * j"
      using Cons.prems(5) j by (simp add: a_def unat_of_nat take_bit_eq_mod del: of_nat_add of_nat_mult)
    have "m2 (a + of_nat k) = m (a + of_nat k)" if "k < 32" for k
    proof -
      have "unat (a + of_nat k) = b + 32 + 32 * j + k" using unat_plus_nat [of a k] a that j Cons.prems(5) by simp
      then show ?thesis using one(5) page [of "unat (a + of_nat k)"] that j Cons.prems(4,5) by simp
    qed
    then have "prog_hdr m2 a = prog_hdr m a" unfolding prog_hdr_def by (intro proghdr_at_cong) simp
    also have "\<dots> = (h # hs) ! Suc j"
      using Cons.prems(6) [rule_format, of "Suc j"] j by (simp add: a_def algebra_simps)
    finally show ?thesis by (simp add: a_def)
  qed
  then have "\<exists>m' d'. load_segments p (of_nat (b + 32)) (of_nat (b + 32 + 32 * length hs)) m2 d1 = Some (m', d') \<and>
    (\<forall>h\<in>set hs. seg_loaded disk h m') \<and> (\<forall>x. unat x \<notin> (\<Union>h\<in>set hs. seg_touched h) \<longrightarrow> m' x = m2 x)"
    by (intro Cons.IH one(3)) (use Cons.prems in auto)
  then obtain m' d' where rest: "load_segments p (of_nat (b + 32)) (of_nat (b + 32 + 32 * length hs)) m2 d1 = Some (m', d')"
    "\<forall>h\<in>set hs. seg_loaded disk h m'" "\<forall>x. unat x \<notin> (\<Union>h\<in>set hs. seg_touched h) \<longrightarrow> m' x = m2 x" by blast
  have "seg_loaded disk h m'"
    unfolding seg_loaded_def
  proof (intro allI impI)
    fix k assume k: "k < unat (p_memsz h)"
    have "unat (p_pa h + of_nat k) = unat (p_pa h) + k"
      by (rule unat_plus_nat) (use \<open>seg_ok h\<close> k in \<open>simp add: seg_ok_def\<close>)
    then have "unat (p_pa h + of_nat k) \<in> {unat (p_pa h)..<unat (p_pa h) + unat (p_memsz h)}" using k by simp
    then have "unat (p_pa h + of_nat k) \<notin> (\<Union>h\<in>set hs. seg_touched h)"
      using Cons.prems(3) unfolding sorted_wrt.simps seg_apart_def by blast
    then show "m' (p_pa h + of_nat k) = seg_bytes disk h k" using rest(3) one(4) k by (simp add: seg_loaded_def)
  qed
  moreover have "load_segments p (of_nat b) (of_nat (b + 32 * length (h # hs))) m d = Some (m', d')"
    using one rest(1) hd u by (subst load_segments.simps) (simp add: word_less_nat_alt Let_def algebra_simps)
  ultimately show ?case using rest one(5) by auto
qed

section \<open>Booting\<close>

lemma header_page:
  assumes "ata_disk p idle disk" "idle d"
  shows "\<exists>d'. readseg p ELFHDR (SECTSIZE * 8) 0 m d = Some (fill m 0x10000 4096 (kfile disk), d') \<and> idle d'"
  using readseg_fill [OF assms, of ELFHDR "SECTSIZE * 8" 0 m]
  by (simp add: ELFHDR_def SECTSIZE_def sect_start_def sect_end_def)

lemma header_at: "k < 4096 \<Longrightarrow> fill m 0x10000 4096 f (0x10000 + of_nat k) = f k"
  by (simp add: fill_def unat_of_nat take_bit_eq_mod)

lemma elf_at_cong: "(\<And>k. k < 52 \<Longrightarrow> b k = b' k) \<Longrightarrow> elf_at b = elf_at b'"
  by (simp add: elf_at_def le32_def le16_def)

lemma elf_hdr_page: "elf_hdr (fill m 0x10000 4096 f) = elf_at f"
  unfolding elf_hdr_def ELFHDR_def by (rule elf_at_cong) (simp add: header_at)

lemma prog_hdr_page:
  assumes "n + 32 \<le> 4096"
  shows "prog_hdr (fill m 0x10000 4096 f) (of_nat (0x10000 + n)) = proghdr_at f n"
  unfolding prog_hdr_def
proof (rule proghdr_at_cong)
  fix k :: nat assume "k < 32"
  then show "fill m 0x10000 4096 f (of_nat (0x10000 + n) + of_nat (0 + k)) = f (n + k)"
    using header_at [of "n + k" m f] assms by (simp add: add.assoc)
qed

text \<open>
  C38: The boot loader brings the kernel into memory and enters it. If the second sector of the disk starts with
  an ELF header whose program headers lie in the first page of the file, then, whatever was in memory
  before, \<open>bootmain\<close> ends in a jump to the entry point with every segment in its place: the bytes from the
  file, and zeros up to its size in memory. Outside of the scratch page and of the sectors of the
  segments no byte has changed. The segments have to lie in memory as in the file within a sector, must
  not touch the scratch page, and no segment may touch one that is loaded before it. Without the magic number the loader
  ends in the loop at \<open>bad\<close>.
\<close>

theorem bootmain_loads_kernel:
  assumes "ata_disk p idle disk" "idle d"
    and "unat (e_phoff (elf_at (kfile disk))) + 32 * unat (e_phnum (elf_at (kfile disk))) \<le> 4096"
    and "list_all seg_ok (proghdrs (kfile disk))" "sorted_wrt seg_apart (proghdrs (kfile disk))"
  shows "\<exists>m' d'. (\<forall>x. unat x \<notin> {0x10000..<0x11000} \<union> (\<Union>h\<in>set (proghdrs (kfile disk)). seg_touched h) \<longrightarrow> m' x = m x) \<and>
    (if e_magic (elf_at (kfile disk)) = ELF_MAGIC
     then bootmain p m d = Some (Entered (e_entry (elf_at (kfile disk))) m' d') \<and>
       (\<forall>h\<in>set (proghdrs (kfile disk)). \<forall>k<unat (p_memsz h). m' (p_pa h + of_nat k) =
         (if k < unat (p_filesz h) then disk (512 + unat (p_offset h) + k) else 0))
     else bootmain p m d = Some (Bad m' d'))"
proof -
  let ?elf = "elf_at (kfile disk)" and ?hs = "proghdrs (kfile disk)" and ?m = "fill m 0x10000 4096 (kfile disk)"
  from header_page [OF assms(1,2)] obtain d1 where d1: "readseg p ELFHDR (SECTSIZE * 8) 0 m d = Some (?m, d1)" "idle d1" by blast
  have m: "?m x = m x" if "unat x \<notin> {0x10000..<0x11000}" for x
    using fill_at [where a = "0x10000" and n = 4096 and m = m and x = x and f = "kfile disk"] that by auto
  show ?thesis
  proof (cases "e_magic ?elf = ELF_MAGIC")
    case False
    then show ?thesis using d1(1) m by (auto simp: bootmain_def elf_hdr_page intro!: exI [of _ ?m])
  next
    case True
    define b where "b = 0x10000 + unat (e_phoff ?elf)"
    have len: "length ?hs = unat (e_phnum ?elf)" by (simp add: proghdrs_def Let_def)
    have hs: "\<forall>j<length ?hs. prog_hdr ?m (of_nat (b + 32 * j)) = ?hs ! j"
    proof (intro allI impI)
      fix j assume "j < length ?hs"
      then show "prog_hdr ?m (of_nat (b + 32 * j)) = ?hs ! j"
        using prog_hdr_page [of "unat (e_phoff ?elf) + 32 * j" m "kfile disk"] assms(3) len
        by (simp add: b_def proghdrs_def Let_def add.assoc)
    qed
    have "\<exists>m' d'. load_segments p (of_nat b) (of_nat (b + 32 * length ?hs)) ?m d1 = Some (m', d') \<and>
        (\<forall>h\<in>set ?hs. seg_loaded disk h m') \<and> (\<forall>x. unat x \<notin> (\<Union>h\<in>set ?hs. seg_touched h) \<longrightarrow> m' x = ?m x)"
      by (rule load_segments_ok [OF assms(1) d1(2) assms(4,5) _ _ hs]) (use assms(3) len in \<open>simp_all add: b_def\<close>)
    then obtain m' d' where r: "load_segments p (of_nat b) (of_nat (b + 32 * length ?hs)) ?m d1 = Some (m', d')"
      "\<forall>h\<in>set ?hs. seg_loaded disk h m'" "\<forall>x. unat x \<notin> (\<Union>h\<in>set ?hs. seg_touched h) \<longrightarrow> m' x = ?m x" by blast
    have "x \<notin> seg_touched h" if "h \<in> set ?hs" "x \<in> {0x10000..<0x11000}" for x h
      using assms(4) that by (auto simp: seg_touched_def seg_ok_def list_all_iff)
    then have "m' x = ?m x" if "unat x \<in> {0x10000..<0x11000}" for x using r(3) that by blast
    then have "elf_hdr m' = elf_hdr ?m"
      unfolding elf_hdr_def ELFHDR_def
      by (intro elf_at_cong) (simp add: unat_word_ariths unat_of_nat take_bit_eq_mod)
    then have "elf_hdr m' = ?elf" by (simp add: elf_hdr_page)
    have "ELFHDR + e_phoff ?elf = of_nat b" by (simp add: b_def ELFHDR_def)
    moreover have "of_nat b + 32 * ucast (e_phnum ?elf) = (of_nat (b + 32 * length ?hs) :: u32)" by (simp add: len)
    ultimately have "bootmain p m d = Some (Entered (e_entry ?elf) m' d')"
      using d1(1) r(1) True \<open>elf_hdr m' = ?elf\<close> by (simp add: bootmain_def elf_hdr_page Let_def)
    then show ?thesis
      using r(2,3) m True by (auto simp: seg_loaded_def seg_bytes_def kfile_def add.assoc intro!: exI [of _ m'])
  qed
qed

text \<open>A disk that is always ready, and a small kernel on it.\<close>

definition ready_disk :: "(nat \<Rightarrow> u8) \<Rightarrow> ((u16 \<Rightarrow> u8) \<times> nat) ports" where
  "ready_disk disk = \<lparr>in8 = (\<lambda>_ d. (0x40, d)),
     in32 = (\<lambda>_ (r, n). (le32 disk (512 * (unat (r 0x1F3) + 256 * unat (r 0x1F4) + 65536 * unat (r 0x1F5) +
        16777216 * unat (r 0x1F6 AND 0xF)) + 4 * n), (r, n + 1))),
     out8 = (\<lambda>port v (r, n). (r(port := v), if port = 0x1F7 then 0 else n)), out16 = (\<lambda>_ _ d. d)\<rparr>"

lemma ready_disk_ata: "ata_disk (ready_disk disk) (\<lambda>_. True) disk"
proof -
  have w: "waitdisk (ready_disk disk) d = Some d" for d
    by (subst waitdisk.simps) (simp add: ready_disk_def)
  define s where "s = (\<lambda>r :: u16 \<Rightarrow> u8. 512 * (unat (r 0x1F3) + 256 * unat (r 0x1F4) + 65536 * unat (r 0x1F5) +
        16777216 * unat (r 0x1F6 AND 0xF)))"
  have i: "in_words (ready_disk disk) port c (r, n) = (map (\<lambda>k. le32 disk (s r + 4 * k)) [n..<n + c], (r, n + c))" for port c r n
    by (induction c arbitrary: n) (simp_all add: ready_disk_def s_def upt_conv_Cons del: upt_Suc)
  have b: "byte_of (map (\<lambda>k. le32 disk (a + 4 * k)) [0..<128] ! (k div 4)) (k mod 4) = disk (a + k)" if k512: "k < 512" for a k
  proof -
    obtain q j where k: "k = 4 * q + j" "j \<in> {0, 1, 2, 3}" "q < 128"
      using k512 by (intro that [of "k div 4" "k mod 4"]) auto
    then show ?thesis using byte_of_le32 [of disk "a + 4 * q"] by (auto simp: add.assoc)
  qed
  show ?thesis
  proof (unfold ata_disk_def w, intro conjI allI impI)
    fix d :: "(u16 \<Rightarrow> u8) \<times> nat" and a b c h :: u8
    obtain r n where "d = (r, n)" by (cases d)
    then have c: "read_command (ready_disk disk) 1 a b c h d =
      (r(0x1F2 := 1, 0x1F3 := a, 0x1F4 := b, 0x1F5 := c, 0x1F6 := h, 0x1F7 := 0x20), 0)"
      by (simp add: read_command_def ready_disk_def)
    show "\<exists>d' ws d''. Some (read_command (ready_disk disk) 1 a b c h d) = Some d' \<and>
        in_words (ready_disk disk) 0x1F0 128 d' = (ws, d'') \<and> True \<and>
        (\<forall>k<512. byte_of (ws ! (k div 4)) (k mod 4) =
          disk (512 * (unat a + 256 * unat b + 65536 * unat c + 16777216 * unat (h AND 0xF)) + k))"
      using b by (simp add: c i s_def)
  qed simp_all
qed

definition small_kernel :: "nat \<Rightarrow> u8" where
  "small_kernel = (\<lambda>_. 0)(512 := 0x7F, 513 := 0x45, 514 := 0x4C, 515 := 0x46, 536 := 0x0C, 538 := 0x10, 540 := 52, 556 := 1,
     564 := 1, 569 := 0x10, 574 := 0x10, 578 := 0x10, 580 := 3, 584 := 5,
     4608 := 0xFA, 4609 := 0xEB, 4610 := 0xFE, 4611 := 0x90)"

lemma small_kernel_facts:
  "elf_at (kfile small_kernel) = \<lparr>e_magic = ELF_MAGIC, e_entry = 0x10000C, e_phoff = 52, e_phnum = 1\<rparr>"
  "proghdrs (kfile small_kernel) = [\<lparr>p_type = 1, p_offset = 0x1000, p_va = 0x100000, p_pa = 0x100000,
     p_filesz = 3, p_memsz = 5, p_flags = 0, p_align = 0\<rparr>]"
  by (simp_all add: elf_at_def proghdrs_def proghdr_at_def le32_def le16_def kfile_def small_kernel_def ELF_MAGIC_def Let_def)

theorem bootmain_loads_kernel_witness:
  "\<exists>m' d'. bootmain (ready_disk small_kernel) (\<lambda>_. 1) (\<lambda>_. 0, 0) = Some (Entered 0x10000C m' d') \<and>
     map m' [0x100000, 0x100001, 0x100002, 0x100003, 0x100004] = [0xFA, 0xEB, 0xFE, 0, 0] \<and> m' 0x200000 = 1"
proof -
  have "list_all seg_ok (proghdrs (kfile small_kernel))"
    by (simp add: small_kernel_facts seg_ok_def sect_start_def sect_end_def)
  then obtain m' d' where r:
    "\<forall>x. unat x \<notin> {0x10000..<0x11000} \<union> (\<Union>h\<in>set (proghdrs (kfile small_kernel)). seg_touched h) \<longrightarrow> m' x = 1"
    "bootmain (ready_disk small_kernel) (\<lambda>_. 1) (\<lambda>_. 0, 0) = Some (Entered 0x10000C m' d')"
    "\<forall>h\<in>set (proghdrs (kfile small_kernel)). \<forall>k<unat (p_memsz h). m' (p_pa h + of_nat k) =
       (if k < unat (p_filesz h) then small_kernel (512 + unat (p_offset h) + k) else 0)"
    using bootmain_loads_kernel [OF ready_disk_ata TrueI, of small_kernel "(\<lambda>_. 1)" "(\<lambda>_. 0, 0)"]
    by (auto simp: small_kernel_facts(1) small_kernel_facts(2) [THEN arg_cong, of length] small_kernel_facts(2) [THEN arg_cong, of "sorted_wrt seg_apart"])
  have k: "m' (0x100000 + of_nat k) = (if k < 3 then small_kernel (4608 + k) else 0)" if "k < 5" for k
    using bspec [OF r(3) [unfolded small_kernel_facts(2)] list.set_intros(1)] that by simp
  have "m' 0x200000 = 1" using r(1) by (simp add: small_kernel_facts(2) seg_touched_def sect_start_def sect_end_def)
  then show ?thesis
    using r(2) k [of 0] k [of 1] k [of 2] k [of 3] k [of 4] by (simp add: small_kernel_def)
qed

section \<open>The page tables of the entry code (kern/entrypgdir.c)\<close>

definition entry_pgtable :: "u32 list" where
  "entry_pgtable = map (\<lambda>i. (of_nat i * 0x1000 OR PTE_P) OR PTE_W) [0..<NPTENTRIES]"

text \<open>\<open>table\<close> is the address of \<open>entry_pgtable\<close>, which the linker chooses.\<close>

definition entry_pgdir :: "u32 \<Rightarrow> u32 list" where
  "entry_pgdir table = (replicate NPDENTRIES 0)
     [0 := (table - KERNBASE) + PTE_P, unat (drop_bit 22 KERNBASE) := ((table - KERNBASE) + PTE_P) + PTE_W]"

lemma page2pa_plus_flags:
  assumes "f < 8"
  shows "page2pa n + f = page2pa n OR f"
proof -
  have "unat f < 2 ^ 3" using assms by (simp add: word_less_nat_alt)
  then have "\<not> bit f k" if "3 \<le> k" for k using small_word_no_bit that by blast
  then have "\<not> (bit (page2pa n) k \<and> bit f k)" for k
    by (cases "3 \<le> k") (auto simp: page2pa_def bit_simps)
  then have "page2pa n AND f = 0" by (intro bit_eqI) (simp add: bit_simps)
  then show ?thesis by (simp add: disjunctive_add_eq_or)
qed

lemma entry_pgdir_at:
  assumes "i < 1024"
  shows "entry_pgdir (KERNBASE + page2pa T) ! i =
    (if i = 0 then page2pa T OR PTE_P else if i = 0x3C0 then page2pa T OR (PTE_P OR PTE_W) else 0)"
proof -
  have "page2pa T + PTE_P = page2pa T OR PTE_P" "(page2pa T + PTE_P) + PTE_W = page2pa T OR (PTE_P OR PTE_W)"
    using page2pa_plus_flags [of 1 T] page2pa_plus_flags [of 3 T] by (simp_all only: PTE_P_def PTE_W_def add.assoc) simp_all
  then show ?thesis using assms by (simp add: entry_pgdir_def NPDENTRIES_def KERNBASE_def nth_list_update)
qed

lemma entry_pgtable_at: "i < 1024 \<Longrightarrow> entry_pgtable ! i = page2pa i OR (PTE_P OR PTE_W)"
  by (simp add: entry_pgtable_def NPTENTRIES_def page2pa_def push_bit_eq_mult or.assoc)

lemma pte_flag_bit: "bit PTE_P n \<longleftrightarrow> n = 0" "bit PTE_W n \<longleftrightarrow> n = 1" "bit PTE_U n \<longleftrightarrow> n = 2"
  using bit_exp_iff [where 'a = "32 word" and m = 1 and n = n] bit_exp_iff [where 'a = "32 word" and m = 2 and n = n]
  by (auto simp: PTE_P_def PTE_W_def PTE_U_def bit_simps)

lemma PGNUM_entry: "n < 2 ^ 20 \<Longrightarrow> f \<in> {PTE_P, PTE_P OR PTE_W} \<Longrightarrow> unat (PGNUM (page2pa n OR f)) = n"
  using PGNUM_page2pa [of n] by (auto simp: PGNUM_or PGNUM_flags)

text \<open>
  While the kernel runs on the page tables of its entry code, exactly the first 4 MB of physical
  memory are mapped: at address 0, to be read only, and at \<open>KERNBASE\<close>, to be read and written, for the kernel only.
\<close>

theorem entry_pgdir_maps:
  assumes "T < 2 ^ 20" "\<forall>i<1024. kmem s D i = entry_pgdir (KERNBASE + page2pa T) ! i"
    and "\<forall>i<1024. kmem s T i = entry_pgtable ! i"
  shows "case mmu s D va of
      None \<Rightarrow> 0x400000 \<le> va \<and> va < KERNBASE \<or> KERNBASE + 0x400000 \<le> va
    | Some (f, rights) \<Rightarrow>
        (if va < 0x400000 then page2pa f + PGOFF va = va \<and> rights AND PTE_W = 0
         else KERNBASE \<le> va \<and> va < KERNBASE + 0x400000 \<and> page2pa f + PGOFF va = va - KERNBASE \<and> rights AND PTE_W \<noteq> 0) \<and>
        rights AND PTE_U = 0"
proof -
  have x: "unat (PDX va) = unat va div 4194304" by (simp add: unat_PDX)
  have k: "KERNBASE \<le> va \<longleftrightarrow> 0xF0000000 \<le> unat va" "va < KERNBASE + 0x400000 \<longleftrightarrow> unat va < 0xF0400000"
    "va < 0x400000 \<longleftrightarrow> unat va < 0x400000" "va < KERNBASE \<longleftrightarrow> unat va < 0xF0000000"
    "0x400000 \<le> va \<longleftrightarrow> 0x400000 \<le> unat va" "KERNBASE + 0x400000 \<le> va \<longleftrightarrow> 0xF0400000 \<le> unat va"
    by (simp_all add: KERNBASE_def word_le_nat_alt word_less_nat_alt)
  have z: "unat (PDX va) = 0 \<longleftrightarrow> unat va < 0x400000" "unat (PDX va) = 0x3C0 \<longleftrightarrow> 0xF0000000 \<le> unat va \<and> unat va < 0xF0400000"
    unfolding x by linarith+
  note pde = assms(2) [rule_format, OF PDX_less [of va]] entry_pgdir_at [OF PDX_less [of va], of T]
  note pte = assms(3) [rule_format, OF PTX_less [of va]] entry_pgtable_at [OF PTX_less [of va]]
  have n: "unat (PTX va) < 2 ^ 20" using PTX_less [of va] by (rule less_trans) simp
  have bits: "\<not> bit (page2pa m) 0" "\<not> bit (page2pa m) (Suc 0)" "\<not> bit (page2pa m) 2" for m
    by (simp_all add: page2pa_def bit_simps)
  note flags = right_bits bits bit_simps pte_flag_bit
  consider (low) "unat va < 0x400000" | (high) "0xF0000000 \<le> unat va" "unat va < 0xF0400000"
    | (none) "0x400000 \<le> unat va" "\<not> (0xF0000000 \<le> unat va \<and> unat va < 0xF0400000)" by linarith
  then show ?thesis
  proof cases
    case low
    then have "page2pa (unat (PTX va)) + PGOFF va = va"
      by (simp add: word_unat_eq_iff unat_word_ariths unat_page2pa unat_PTX unat_PGOFF)
    moreover have "mmu s D va = Some (unat (PTX va), (page2pa T OR PTE_P) AND (page2pa (unat (PTX va)) OR (PTE_P OR PTE_W)))"
      using low pde pte z n assms(1) by (simp add: mmu_def Let_def PGNUM_entry flags)
    ultimately show ?thesis using low k by (simp add: flags)
  next
    case high
    define r where "r = unat va - 0xF0000000"
    have va: "unat va = 4096 * 983040 + r" and r: "r < 0x400000" using high by (simp_all add: r_def)
    have "unat va div 4096 = 983040 + r div 4096" "unat va mod 4096 = r mod 4096"
      unfolding va by (rule div_mult_self4, simp) (rule mod_mult_self4)
    moreover have "(983040 + r div 4096) mod 1024 = r div 4096"
      using r mod_mult_self4 [of 1024 960 "r div 4096"] by simp
    ultimately have ptx: "unat (PTX va) = r div 4096" "unat (PGOFF va) = r mod 4096" by (simp_all add: unat_PTX unat_PGOFF)
    have "unat (va - KERNBASE) = r" using high k(1) by (simp add: unat_sub_if' word_le_nat_alt KERNBASE_def r_def)
    then have "page2pa (unat (PTX va)) + PGOFF va = va - KERNBASE"
      using n r ptx by (simp add: word_unat_eq_iff unat_word_ariths unat_page2pa)
    moreover have "mmu s D va = Some (unat (PTX va), (page2pa T OR (PTE_P OR PTE_W)) AND (page2pa (unat (PTX va)) OR (PTE_P OR PTE_W)))"
      using high pde pte z n assms(1) by (simp add: mmu_def Let_def PGNUM_entry flags)
    ultimately show ?thesis using high k by (simp add: flags)
  next
    case none
    then have "kmem s D (unat (PDX va)) = 0" using pde z by auto
    then have "mmu s D va = None" by (simp add: mmu_def)
    then show ?thesis using none k by auto
  qed
qed

definition entry_state :: kstate where
  "entry_state = bss_state\<lparr>kmem := (\<lambda>_ _. 0)(5 := \<lambda>i. entry_pgdir (KERNBASE + page2pa 6) ! i, 6 := \<lambda>i. entry_pgtable ! i)\<rparr>"

theorem entry_pgdir_maps_witness:
  "(\<exists>rights. mmu entry_state 5 0xF0101234 = Some (0x101, rights)) \<and> mmu entry_state 5 0xF0400000 = None"
proof -
  have "\<forall>i<1024. kmem entry_state 5 i = entry_pgdir (KERNBASE + page2pa 6) ! i" "\<forall>i<1024. kmem entry_state 6 i = entry_pgtable ! i"
    by (simp_all add: entry_state_def)
  note m = entry_pgdir_maps [OF _ this]
  from m [of "0xF0101234"] obtain f r where f: "mmu entry_state 5 0xF0101234 = Some (f, r)" "page2pa f + PGOFF 0xF0101234 = 0x101234"
    by (auto simp: KERNBASE_def split: option.splits)
  have "f < 2 ^ 20"
    using f(1) PGNUM_less by (auto simp: mmu_def Let_def split: if_splits)
  moreover have "page2pa f = 0x101000" using f(2) by (simp add: PGOFF_def)
  ultimately have "f * 4096 = 0x101000" using unat_page2pa [of f] by simp
  then have "f = 0x101" by simp
  then show ?thesis using f(1) m [of "0xF0400000"] by (auto simp: KERNBASE_def split: option.splits)
qed

end
