(* ===== verification/Jos_Kdebug.thy ===== *)
theory Jos_Kdebug
  imports Jos_Syscall Jos_String "HOL-Library.Signed_Division"
begin

text \<open>
  The debug information of the kernel and of programs (kern/kdebug.c, inc/stab.h): the binary search
  in a table of symbols and the lookup of source file, function and line of an instruction. The
  tables of the kernel are placed by the linker; those of a program are found through the structure
  at \<open>USTABDATA\<close>. The tables are read from a flat memory, as by the string routines: what is checked
  of them is in the model, a fault on a table that is not mapped is not. Indices are unbounded, a
  table has less than \<open>2 ^ 29\<close> entries.
\<close>

section \<open>Symbols\<close>

definition N_FUN :: u8 where "N_FUN = 0x24"
definition N_SLINE :: u8 where "N_SLINE = 0x44"
definition N_SO :: u8 where "N_SO = 0x64"
definition N_SOL :: u8 where "N_SOL = 0x84"
definition N_PSYM :: u8 where "N_PSYM = 0xa0"

record Stab =
  n_strx :: u32
  n_type :: u8
  n_other :: u8
  n_desc :: u16
  n_value :: u32

definition STAB_SIZE :: u32 where "STAB_SIZE = 12"

definition stab_at :: "mem \<Rightarrow> u32 \<Rightarrow> int \<Rightarrow> Stab" where
  "stab_at m stabs i =
     (let b = (\<lambda>k. m (stabs + of_int i * STAB_SIZE + of_nat k)) in
      \<lparr>n_strx = le32 b 0, n_type = b 4, n_other = b 5, n_desc = le16 b 6, n_value = le32 b 8\<rparr>)"

section \<open>Binary search\<close>

text \<open>Back from \<open>i\<close> to an entry of the type, but not below \<open>lo\<close>.\<close>

function scan_back :: "(int \<Rightarrow> Stab) \<Rightarrow> u8 \<Rightarrow> int \<Rightarrow> int \<Rightarrow> int" where
  "scan_back st ty lo i = (if lo < i \<and> n_type (st i) \<noteq> ty then scan_back st ty lo (i - 1) else i)"
  by pat_completeness auto

termination by (relation "measure (\<lambda>(st, ty, lo, i). nat (i - lo))") auto

declare scan_back.simps [simp del]

lemma scan_back:
  "scan_back st ty lo i \<le> i" "lo \<le> i \<Longrightarrow> lo \<le> scan_back st ty lo i"
  "lo < scan_back st ty lo i \<Longrightarrow> n_type (st (scan_back st ty lo i)) = ty"
  "scan_back st ty lo i < j \<Longrightarrow> j \<le> i \<Longrightarrow> n_type (st j) \<noteq> ty"
proof (induction st ty lo i rule: scan_back.induct)
  case (1 st ty lo i)
  note simps = scan_back.simps [of st ty lo i]
  {
    case 1 then show ?case using "1.IH"(1) by (cases "lo < i \<and> n_type (st i) \<noteq> ty") (auto simp: simps)
  next
    case 2 then show ?case using "1.IH"(2) by (cases "lo < i \<and> n_type (st i) \<noteq> ty") (auto simp: simps)
  next
    case 3 then show ?case using "1.IH"(3) by (cases "lo < i \<and> n_type (st i) \<noteq> ty") (auto simp: simps)
  next
    case 4 then show ?case using "1.IH"(4) by (cases "lo < i \<and> n_type (st i) \<noteq> ty"; cases "j = i") (auto simp: simps)
  }
qed

lemma middle: "l \<le> r \<Longrightarrow> l \<le> (l + r) sdiv 2 \<and> (l + r) sdiv 2 \<le> (r :: int)"
  by (auto simp: signed_divide_int_def sgn_if)

text \<open>
  The order of the recursion of the search. An exact match that leaves \<open>l\<close> and \<open>r\<close> as they are increases \<open>addr\<close>, so that it cannot come twice
  in a row.
\<close>

definition stab_rel :: "((int \<Rightarrow> Stab) \<times> u8 \<times> int \<times> int \<times> u32 \<times> int \<times> int \<times> bool) rel" where
  "stab_rel = measures [\<lambda>(st, ty, l, r, addr, _). nat (r + 1 - l),
     \<lambda>(st, ty, l, r, addr, _). if n_type (st l) = ty \<and> n_value (st l) = addr then 1 else 0]"

text \<open>
  The loop on \<open>l\<close>, \<open>r\<close> and \<open>addr\<close>, with the two region variables the caller gave pointers to and
  whether an entry of the type was seen.
\<close>

function stab_loop ::
    "(int \<Rightarrow> Stab) \<Rightarrow> u8 \<Rightarrow> int \<Rightarrow> int \<Rightarrow> u32 \<Rightarrow> int \<Rightarrow> int \<Rightarrow> bool \<Rightarrow> int \<times> int \<times> bool" where
  "stab_loop st ty l r addr region_left region_right any_matches =
     (if l \<le> r then
        let true_m = (l + r) sdiv 2; m = scan_back st ty (l - 1) true_m in
        if m < l then stab_loop st ty (true_m + 1) r addr region_left region_right any_matches
        else if n_value (st m) < addr then stab_loop st ty (true_m + 1) r addr m region_right True
        else if addr < n_value (st m) then stab_loop st ty l (m - 1) addr region_left (m - 1) True
        else stab_loop st ty m r (addr + 1) m region_right True
      else (region_left, region_right, any_matches))"
  by pat_completeness auto

termination
proof (relation stab_rel)
  fix st :: "int \<Rightarrow> Stab" and ty :: u8 and addr :: u32 and l r region_left region_right x m :: int
    and any_matches :: bool
  assume l: "l \<le> r" and x: "x = (l + r) sdiv 2" and m: "m = scan_back st ty (l - 1) x"
  note mid = middle [OF l, folded x]
    and sc = scan_back [where st = st and ty = ty and lo = "l - 1" and i = x, folded m]
  let ?args = "(st, ty, l, r, addr, region_left, region_right, any_matches)"
  show "((st, ty, x + 1, r, addr, region_left, region_right, any_matches), ?args) \<in> stab_rel"
    using l mid by (simp add: stab_rel_def)
  assume "\<not> m < l"
  with sc have m: "l \<le> m" "m \<le> x" "n_type (st m) = ty" by auto
  show "((st, ty, x + 1, r, addr, m, region_right, True), ?args) \<in> stab_rel"
    using l mid by (simp add: stab_rel_def)
  show "((st, ty, l, m - 1, addr, region_left, m - 1, True), ?args) \<in> stab_rel"
    using l mid m by (simp add: stab_rel_def)
  assume "\<not> n_value (st m) < addr" "\<not> addr < n_value (st m)"
  then have "n_value (st m) = addr" by simp
  then show "((st, ty, m, r, addr + 1, m, region_right, True), ?args) \<in> stab_rel"
    using l mid m by (cases "m = l") (auto simp: stab_rel_def)
qed (simp add: stab_rel_def)

declare stab_loop.simps [simp del]

definition stab_binsearch :: "(int \<Rightarrow> Stab) \<Rightarrow> int \<Rightarrow> int \<Rightarrow> u8 \<Rightarrow> u32 \<Rightarrow> int \<times> int" where
  "stab_binsearch st region_left region_right ty addr =
     (let (region_left, region_right, any_matches) =
        stab_loop st ty region_left region_right addr region_left region_right False in
      if \<not> any_matches then (region_left, region_left - 1)
      else (scan_back st ty region_left region_right, region_right))"

section \<open>Debug information of an instruction\<close>

text \<open>\<open>unknown\<close> is the address of the string constant for an unknown name.\<close>

record Eipdebuginfo =
  eip_file :: u32
  eip_line :: int
  eip_fn_name :: u32
  eip_fn_namelen :: int
  eip_fn_addr :: u32
  eip_fn_narg :: int

record UserStabData =
  stabs :: u32
  stab_end :: u32
  stabstr :: u32
  stabstr_end :: u32

definition user_stab_data :: "mem \<Rightarrow> u32 \<Rightarrow> UserStabData" where
  "user_stab_data m usd = (let b = (\<lambda>k. m (usd + of_nat k)) in
     \<lparr>stabs = le32 b 0, stab_end = le32 b 4, stabstr = le32 b 8, stabstr_end = le32 b 12\<rparr>)"

text \<open>The difference of two pointers to symbols.\<close>

definition num_stabs :: "UserStabData \<Rightarrow> int" where
  "num_stabs d = sint (stab_end d - stabs d) sdiv uint STAB_SIZE"

definition strtab_size :: "UserStabData \<Rightarrow> u32" where
  "strtab_size d = stabstr_end d - stabstr d"

text \<open>
  The tables of the kernel are \<open>ks\<close>. The table of a program is used if the kernel finds it
  accessible; \<open>None\<close> is the return of -1.
\<close>

definition debuginfo_tables ::
    "UserStabData \<Rightarrow> mem \<Rightarrow> u32 \<Rightarrow> kstate \<Rightarrow> UserStabData option kres" where
  "debuginfo_tables ks m addr s =
     (if ULIM \<le> addr then Ret (Some ks) s
      else bindO (kaddr USTABDATA s) (\<lambda>va. deref (curenv s) (\<lambda>e s.
        bindO (user_mem_check e va 16 PTE_U s) (\<lambda>r s.
          if r \<noteq> 0 then Ret None s
          else let usd = user_stab_data m USTABDATA in
            bindO (user_mem_check e (stabs usd) (of_int (num_stabs usd)) PTE_U s) (\<lambda>r s.
              if r \<noteq> 0 then Ret None s
              else bindO (user_mem_check e (stabstr usd) (strtab_size usd) PTE_U s) (\<lambda>r s.
                if r \<noteq> 0 then Ret None s else Ret (Some usd) s))))))"

text \<open>The length of a function's name up to a colon; \<open>None\<close> is a search that does not end.\<close>

definition fn_namelen :: "mem \<Rightarrow> u32 \<Rightarrow> int option" where
  "fn_namelen m name = map_option (\<lambda>q. sint (q - name)) (strfind m name 0x3A)"

text \<open>Back from a line to the entry of its source file, which may be one that is included.\<close>

function file_back :: "(int \<Rightarrow> Stab) \<Rightarrow> int \<Rightarrow> int \<Rightarrow> int" where
  "file_back st lfile lline =
     (if lfile \<le> lline \<and> n_type (st lline) \<noteq> N_SOL \<and> (n_type (st lline) \<noteq> N_SO \<or> n_value (st lline) = 0)
      then file_back st lfile (lline - 1) else lline)"
  by pat_completeness auto

termination by (relation "measure (\<lambda>(st, lfile, lline). nat (lline + 1 - lfile))") auto

function count_params :: "(int \<Rightarrow> Stab) \<Rightarrow> int \<Rightarrow> int \<Rightarrow> int \<Rightarrow> int" where
  "count_params st i rfun n =
     (if i < rfun \<and> n_type (st i) = N_PSYM then count_params st (i + 1) rfun (n + 1) else n)"
  by pat_completeness auto

termination by (relation "measure (\<lambda>(st, i, rfun, n). nat (rfun - i))") auto

declare file_back.simps [simp del] count_params.simps [simp del]

definition init_info :: "u32 \<Rightarrow> u32 \<Rightarrow> Eipdebuginfo" where
  "init_info unknown addr = \<lparr>eip_file = unknown, eip_line = 0, eip_fn_name = unknown, eip_fn_namelen = 9,
     eip_fn_addr = addr, eip_fn_narg = 0\<rparr>"

text \<open>The lookup in the tables.\<close>

definition debuginfo_lookup :: "mem \<Rightarrow> UserStabData \<Rightarrow> u32 \<Rightarrow> Eipdebuginfo \<Rightarrow> (int \<times> Eipdebuginfo) option" where
  "debuginfo_lookup m d addr info =
     (let st = stab_at m (stabs d) in
      if stabstr_end d \<le> stabstr d \<or> m (stabstr_end d - 1) \<noteq> 0 then Some (-1, info)
      else let (lfile, rfile) = stab_binsearch st 0 (num_stabs d - 1) N_SO addr in
        if lfile = 0 then Some (-1, info)
        else let (lfun, rfun) = stab_binsearch st lfile rfile N_FUN addr;
          (info, addr, lline, rline) =
            (if lfun \<le> rfun then
               let info = (if n_strx (st lfun) < strtab_size d
                     then info\<lparr>eip_fn_name := stabstr d + n_strx (st lfun)\<rparr> else info);
                   info = info\<lparr>eip_fn_addr := n_value (st lfun)\<rparr>
               in (info, addr - n_value (st lfun), lfun, rfun)
             else (info\<lparr>eip_fn_addr := addr\<rparr>, addr, lfile, rfile)) in
          map_option (\<lambda>len.
            let info = info\<lparr>eip_fn_namelen := len\<rparr>;
              (lline, rline) = stab_binsearch st lline rline N_SLINE addr in
            if \<not> lline \<le> rline then (-1, info)
            else let info = info\<lparr>eip_line := uint (n_desc (st lline))\<rparr>;
              lline = file_back st lfile lline;
              info = (if lfile \<le> lline \<and> n_strx (st lline) < strtab_size d
                then info\<lparr>eip_file := stabstr d + n_strx (st lline)\<rparr> else info);
              info = (if lfun < rfun then info\<lparr>eip_fn_narg := count_params st (lfun + 1) rfun 0\<rparr> else info)
            in (0, info))
            (fn_namelen m (eip_fn_name info)))"

definition debuginfo_eip ::
    "UserStabData \<Rightarrow> u32 \<Rightarrow> mem \<Rightarrow> u32 \<Rightarrow> kstate \<Rightarrow> (int \<times> Eipdebuginfo) option kres" where
  "debuginfo_eip ks unknown m addr s =
     bindO (debuginfo_tables ks m addr s) (\<lambda>d s.
       case d of
         None \<Rightarrow> Ret (Some (-1, init_info unknown addr)) s
       | Some d \<Rightarrow> Ret (debuginfo_lookup m d addr (init_info unknown addr)) s)"

section \<open>What the search finds\<close>

definition stabs_of :: "(int \<Rightarrow> Stab) \<Rightarrow> u8 \<Rightarrow> int \<Rightarrow> int \<Rightarrow> int set" where
  "stabs_of st ty l r = {i. l \<le> i \<and> i \<le> r \<and> n_type (st i) = ty}"

definition stabs_sorted :: "(int \<Rightarrow> Stab) \<Rightarrow> int set \<Rightarrow> bool" where
  "stabs_sorted st T \<longleftrightarrow> (\<forall>i\<in>T. \<forall>j\<in>T. i \<le> j \<longrightarrow> n_value (st i) \<le> n_value (st j))"

definition stab_inv ::
    "(int \<Rightarrow> Stab) \<Rightarrow> int set \<Rightarrow> int \<Rightarrow> int \<Rightarrow> int \<Rightarrow> int \<Rightarrow> u32 \<Rightarrow> int \<Rightarrow> int \<Rightarrow> bool \<Rightarrow> bool" where
  "stab_inv st T l0 r0 l r a L R found \<longleftrightarrow>
     l0 \<le> l \<and> l \<le> r + 1 \<and> r \<le> r0 \<and> R = r \<and>
     (\<forall>i\<in>T. i < l \<longrightarrow> n_value (st i) < a) \<and> (\<forall>i\<in>T. r < i \<longrightarrow> a < n_value (st i)) \<and>
     (R = r0 \<or> R + 1 \<in> T) \<and> (L = l0 \<or> L \<in> T \<and> n_value (st L) < a) \<and>
     (if found then T \<noteq> {} else L = l0 \<and> R = r0 \<and> (\<forall>i\<in>T. l \<le> i))"

text \<open>No two entries of the table are one byte apart where the address hits the first.\<close>

definition hit_alone :: "(int \<Rightarrow> Stab) \<Rightarrow> int set \<Rightarrow> u32 \<Rightarrow> bool" where
  "hit_alone st T a \<longleftrightarrow>
     (\<forall>i\<in>T. n_value (st i) = a \<longrightarrow> a \<noteq> - 1 \<and> (\<forall>j\<in>T. n_value (st j) \<noteq> a + 1))"

lemma word_less_succ:
  fixes a x :: u32
  assumes "a \<noteq> - 1"
  shows "x < a + 1 \<longleftrightarrow> x \<le> a" "a + 1 \<le> x \<longleftrightarrow> a < x"
proof -
  have "unat (a + 1) = Suc (unat a)" using assms by (metis add.commute add_eq_0_iff2 unatSuc)
  then show "x < a + 1 \<longleftrightarrow> x \<le> a" "a + 1 \<le> x \<longleftrightarrow> a < x" by (simp_all add: word_less_nat_alt word_le_nat_alt less_Suc_eq_le Suc_le_eq)
qed

text \<open>The four ways a round of the loop can go.\<close>

lemma round_none:
  assumes "stab_inv st T l0 r0 l r a L R found" "l \<le> x" "x \<le> r" "\<forall>i\<in>T. i \<le> x \<longrightarrow> i < l"
  shows "stab_inv st T l0 r0 (x + 1) r a L R found"
proof -
  have "\<forall>i\<in>T. (i < x + 1) = (i < l)" "\<forall>i\<in>T. l \<le> i \<longrightarrow> x + 1 \<le> i" using assms(2,4) by force+
  then show ?thesis using assms by (auto simp: stab_inv_def)
qed

lemma round_left:
  assumes "stab_inv st T l0 r0 l r a L R found" "l \<le> x" "x \<le> r" "\<forall>i\<in>T. i \<le> x \<longrightarrow> i \<le> m"
    "stabs_sorted st T" "m \<in> T" "n_value (st m) < a"
  shows "stab_inv st T l0 r0 (x + 1) r a m R True"
proof -
  have "n_value (st i) < a" if "i \<in> T" "i \<le> x" for i
    using that assms(4-7) by (auto simp: stabs_sorted_def intro: le_less_trans)
  then show ?thesis using assms by (auto simp: stab_inv_def)
qed

lemma round_right:
  assumes "stab_inv st T l0 r0 l r a L R found" "l \<le> m" "m \<le> r"
    "stabs_sorted st T" "m \<in> T" "a < n_value (st m)"
  shows "stab_inv st T l0 r0 l (m - 1) a L (m - 1) True"
proof -
  have "a < n_value (st i)" if "i \<in> T" "m \<le> i" for i
    using that assms(4-6) by (auto simp: stabs_sorted_def intro: less_le_trans)
  then show ?thesis using assms by (auto simp: stab_inv_def split: if_splits)
qed

lemma round_hit:
  assumes "stab_inv st T l0 r0 l r a L R found" "l \<le> m" "m \<le> r" "stabs_sorted st T" "m \<in> T"
    "n_value (st m) = a" "hit_alone st T a"
  shows "stab_inv st T l0 r0 m r (a + 1) m R True" "hit_alone st T (a + 1)" "\<forall>i\<in>T. n_value (st i) \<noteq> a + 1"
proof -
  from assms(5-7) have a: "a \<noteq> - 1" and n: "\<forall>i\<in>T. n_value (st i) \<noteq> a + 1" by (auto simp: hit_alone_def)
  show "\<forall>i\<in>T. n_value (st i) \<noteq> a + 1" by (rule n)
  then show "hit_alone st T (a + 1)" by (simp add: hit_alone_def)
  have "n_value (st i) < a + 1" if "i \<in> T" "i \<le> m" for i
    using that assms(4-6) by (auto simp: stabs_sorted_def word_less_succ(1) [OF a])
  moreover have "a + 1 < n_value (st i)" if "i \<in> T" "r < i" for i
  proof -
    have "a + 1 \<le> n_value (st i)" using assms(1) that by (simp add: stab_inv_def word_less_succ(2) [OF a])
    with n that(1) show ?thesis by (metis order_le_less)
  qed
  ultimately show "stab_inv st T l0 r0 m r (a + 1) m R True"
    using assms(1-3,5) by (auto simp: stab_inv_def split: if_splits)
qed

lemma stab_loop_ok:
  "T = stabs_of st ty l0 r0 \<Longrightarrow> stabs_sorted st T \<Longrightarrow> stab_inv st T l0 r0 l r a L R found \<Longrightarrow>
    hit_alone st T a \<Longrightarrow>
    \<exists>b L' R' found'. stab_loop st ty l r a L R found = (L', R', found') \<and>
      stab_inv st T l0 r0 (R' + 1) R' b L' R' found' \<and>
      (b = a \<or> b = a + 1 \<and> (\<exists>i\<in>T. n_value (st i) = a))"
proof (induction st ty l r a L R found rule: stab_loop.induct)
  case (1 st ty l r a L R found)
  note T = "1.prems"(1) and sorted = "1.prems"(2) and inv = "1.prems"(3) and alone = "1.prems"(4)
  note simps = stab_loop.simps [of st ty l r a L R found]
  show ?case
  proof (cases "l \<le> r")
    case False
    then have "l = r + 1" "R = r" using inv by (auto simp: stab_inv_def)
    moreover have "stab_loop st ty l r a L R found = (L, R, found)" using False by (simp add: simps)
    ultimately show ?thesis using inv by blast
  next
    case True
    define x where "x = (l + r) sdiv 2"
    define m where "m = scan_back st ty (l - 1) x"
    note IH = "1.IH" [OF True x_def m_def]
    have x: "l \<le> x" "x \<le> r" using middle [OF True] by (simp_all add: x_def)
    note sc = scan_back [where st = st and ty = ty and lo = "l - 1" and i = x, folded m_def]
    have m: "m \<le> x" and mx: "\<forall>i\<in>T. i \<le> x \<longrightarrow> i \<le> m"
      using sc(1) sc(4) by (simp, force simp: T stabs_of_def simp flip: not_less)
    have eq: "stab_loop st ty l r a L R found =
        (if m < l then stab_loop st ty (x + 1) r a L R found
         else if n_value (st m) < a then stab_loop st ty (x + 1) r a m R True
         else if a < n_value (st m) then stab_loop st ty l (m - 1) a L (m - 1) True
         else stab_loop st ty m r (a + 1) m R True)"
      using True by (simp add: simps x_def m_def Let_def)
    show ?thesis
    proof (cases "m < l")
      case True
      then have "\<forall>i\<in>T. i \<le> x \<longrightarrow> i < l" using mx by fastforce
      from IH(1) [OF True T sorted round_none [OF inv x this] alone] True show ?thesis by (simp add: eq)
    next
      case ge: False
      then have l: "l \<le> m" "m \<le> r" and mT: "m \<in> T"
        using sc(3) m x inv by (auto simp: T stabs_of_def stab_inv_def)
      show ?thesis
      proof (cases "n_value (st m)" a rule: linorder_cases)
        case less
        from IH(2) [OF ge less T sorted round_left [OF inv x mx sorted mT less] alone] ge less
        show ?thesis by (simp add: eq)
      next
        case greater
        then have n: "\<not> n_value (st m) < a" by simp
        from IH(3) [OF ge n greater T sorted round_right [OF inv l sorted mT greater] alone] ge greater n
        show ?thesis by (simp add: eq)
      next
        case equal
        then have n: "\<not> n_value (st m) < a" "\<not> a < n_value (st m)" by simp_all
        note h = round_hit [OF inv l sorted mT equal alone]
        from IH(4) [OF ge n T sorted h(1,2)] h(3) obtain L' R' found' where
          "stab_loop st ty m r (a + 1) m R True = (L', R', found')"
          "stab_inv st T l0 r0 (R' + 1) R' (a + 1) L' R' found'" by blast
        with ge n mT equal show ?thesis unfolding eq by (intro exI [of _ "a + 1"]) auto
      qed
    qed
  qed
qed

text \<open>
  The binary search in a table sorted by address, as long as no other entry is one byte after an
  entry the address hits: the second result is just before the first entry of the type above the
  address, or the end of the region, and the first is the last entry of the type at or below it. If
  there is no entry of the type the region found is empty. If all entries of the type are above the
  address, the first result is no entry of the type, but the region need not be empty.
\<close>

theorem stab_binsearch_brackets:
  assumes "l \<le> r + 1" "stabs_sorted st (stabs_of st ty l r)" "hit_alone st (stabs_of st ty l r) addr"
  defines "T \<equiv> stabs_of st ty l r"
  shows "stab_binsearch st l r ty addr =
    (if T = {} then (l, l - 1)
     else let R = (if \<exists>i\<in>T. addr < n_value (st i) then Min {i \<in> T. addr < n_value (st i)} - 1 else r) in
       (if \<exists>i\<in>T. n_value (st i) \<le> addr then Max {i \<in> T. n_value (st i) \<le> addr} else min l R, R))"
proof -
  have fin: "finite T" by (rule finite_subset [of _ "{l..r}"]) (auto simp: T_def stabs_of_def)
  have Tb: "l \<le> i" "i \<le> r" if "i \<in> T" for i using that by (simp_all add: T_def stabs_of_def)
  have "stab_inv st T l r l r addr l r False"
    using assms(1) Tb by (auto simp: stab_inv_def) (meson not_less Tb)+
  from stab_loop_ok [OF T_def [THEN meta_eq_to_obj_eq] assms(2) [folded T_def] this assms(3) [folded T_def]]
  obtain b L R found where res: "stab_loop st ty l r addr l r False = (L, R, found)"
    and inv: "stab_inv st T l r (R + 1) R b L R found"
    and b: "b = addr \<or> b = addr + 1 \<and> (\<exists>i\<in>T. n_value (st i) = addr)" by blast
  have below: "i \<le> R \<longleftrightarrow> n_value (st i) < b" if "i \<in> T" for i
    using inv that by (auto simp: stab_inv_def not_less)
  have le: "n_value (st i) < b \<longleftrightarrow> n_value (st i) \<le> addr" if "i \<in> T" for i
    using b
  proof
    assume "b = addr"
    then show ?thesis using inv that below [OF that] by (force simp: stab_inv_def not_le)
  next
    assume "b = addr + 1 \<and> (\<exists>i\<in>T. n_value (st i) = addr)"
    then show ?thesis using assms(3) word_less_succ(1) by (auto simp: hit_alone_def T_def)
  qed
  have in_R: "i \<le> R \<longleftrightarrow> n_value (st i) \<le> addr" if "i \<in> T" for i
    using below [OF that] le [OF that] by simp
  define q where "q = scan_back st ty L R"
  note q = scan_back [where st = st and ty = ty and lo = L and i = R, folded q_def]
  have bin: "stab_binsearch st l r ty addr = (if found then (q, R) else (L, L - 1))"
    by (simp add: stab_binsearch_def res q_def)
  show ?thesis
  proof (cases "T = {}")
    case True
    with inv bin show ?thesis by (auto simp: stab_inv_def)
  next
    case False
    have found: found
    proof (rule ccontr)
      assume "\<not> found"
      with inv have "R = r" "\<forall>i\<in>T. R + 1 \<le> i" by (auto simp: stab_inv_def)
      with False Tb(2) show False by fastforce
    qed
    have lR: "l \<le> R + 1" "R \<le> r" "R = r \<or> R + 1 \<in> T" and L: "L = l \<or> L \<in> T \<and> L \<le> R"
      using inv below by (auto simp: stab_inv_def)
    have R: "R = (if \<exists>i\<in>T. addr < n_value (st i) then Min {i \<in> T. addr < n_value (st i)} - 1 else r)"
    proof (cases "R + 1 \<in> T")
      case True
      have "Min {i \<in> T. addr < n_value (st i)} = R + 1"
      proof (rule Min_eqI)
        show "R + 1 \<le> i" if "i \<in> {i \<in> T. addr < n_value (st i)}" for i
          using in_R [of i] that by force
        show "R + 1 \<in> {i \<in> T. addr < n_value (st i)}" using in_R [OF True] True by force
      qed (use fin in simp)
      then show ?thesis using in_R [OF True] True by auto
    next
      case False
      with lR Tb(2) in_R have "R = r" "\<forall>i\<in>T. n_value (st i) \<le> addr" by auto
      then show ?thesis by (auto simp: not_less)
    qed
    have qT: "q \<in> T" if "L < q"
    proof -
      have "l \<le> q" "q \<le> r" using that L Tb(1) q(1) lR(2) by fastforce+
      then show ?thesis using q(3) [OF that] by (simp add: T_def stabs_of_def)
    qed
    have q_max: "i \<le> q" if "i \<in> T" "i \<le> R" for i
      using q(4) [of i] that by (fastforce simp: T_def stabs_of_def)
    have "q = (if \<exists>i\<in>T. n_value (st i) \<le> addr then Max {i \<in> T. n_value (st i) \<le> addr} else min l R)"
    proof (cases "\<exists>i\<in>T. n_value (st i) \<le> addr")
      case True
      then obtain i where i: "i \<in> T" "i \<le> R" using in_R by blast
      then have "L \<le> R" using L Tb(1) by fastforce
      then have "L \<le> q" using q(2) by simp
      then have "q \<in> T" using qT L q_max [OF i] Tb(1) [OF i(1)] i(1) by (cases "L = q") auto
      then have "Max {i \<in> T. n_value (st i) \<le> addr} = q"
        by (intro Max_eqI) (use fin in_R q(1) q_max in \<open>auto\<close>)
      with True show ?thesis by simp
    next
      case False
      then have none: "i \<notin> T" if "i \<le> R" for i using in_R that by blast
      then have "L = l" "\<not> L < q" using L qT q(1) by auto
      then have "q = min l R" using q(1,2) scan_back.simps [of st ty L R] by (cases "L \<le> R") (auto simp: q_def)
      with False show ?thesis by simp
    qed
    with R False found show ?thesis by (simp add: bin Let_def)
  qed
qed

text \<open>
  An address the table has is not always found: with a second entry one byte after it, the search,
  which goes on for the next address after a hit, takes that entry for the one that contains the
  address.
\<close>

theorem stab_binsearch_overshoots:
  assumes "n_type (st 0) = ty" "n_type (st 1) = ty" "n_value (st 0) = a" "n_value (st 1) = a + 1"
    "a < 0xFFFFFFFE"
  shows "stab_binsearch st 0 1 ty a = (1, 1)"
proof -
  have "unat (a + 1) = unat a + 1" "unat (a + 1 + 1) = unat a + 2"
    using assms(5) by (simp_all add: word_less_nat_alt unat_word_ariths)
  then have a: "a < a + 1" "a + 1 < a + 1 + 1" "\<not> a + 1 < a" "\<not> a + 1 + 1 < a + 1"
    by (simp_all add: word_less_nat_alt)
  have sd: "(0 + 1) sdiv 2 = (0 :: int)" "(1 + 1) sdiv 2 = (1 :: int)" by (simp_all add: signed_divide_int_def)
  have sb: "scan_back st ty lo 0 = 0" "scan_back st ty lo 1 = 1" for lo
    using assms(1,2) by (simp_all add: scan_back.simps)
  note l = stab_loop.simps [of st ty]
  have "stab_loop st ty 0 1 a 0 1 False = stab_loop st ty 0 1 (a + 1) 0 1 True"
    by (subst l) (simp add: sd [simplified] sb assms(3) Let_def)
  also have "\<dots> = stab_loop st ty 1 1 (a + 1) 0 1 True"
    by (subst l) (simp add: sd [simplified] sb assms(3) a Let_def)
  also have "\<dots> = stab_loop st ty 1 1 (a + 1 + 1) 1 1 True"
    by (subst l) (simp add: sd [simplified] sb assms(4) a Let_def)
  also have "\<dots> = stab_loop st ty 2 1 (a + 1 + 1) 1 1 True"
    by (subst l) (use a in \<open>simp add: sd [simplified] sb assms(4) Let_def\<close>)
  also have "\<dots> = (1, 1, True)" by (simp add: l)
  finally show ?thesis by (simp add: stab_binsearch_def sb)
qed

section \<open>What is found of an instruction\<close>

text \<open>
  No information is found for any instruction of a program: the address the check is made for is
  not that of the structure in the memory of the program but the kernel's address of that physical
  memory, which user mode may not access.
\<close>

theorem debuginfo_user_unavailable:
  assumes "addr < ULIM" "0x200 < npages s" "curenv s = Some e" "env_pgdir (envs s e) = Some pd"
    "pgdir_walk pd (KERNBASE + USTABDATA) False s = Ret (Some (t, j)) s" "kmem s t j AND PTE_U = 0"
  shows "debuginfo_eip ks unknown m addr s =
    Ret (Some (-1, init_info unknown addr)) (s\<lparr>user_mem_check_addr := KERNBASE + USTABDATA\<rparr>)"
proof -
  have k: "kaddr USTABDATA s = Ret (KERNBASE + USTABDATA) s"
    using assms(2) by (simp add: kaddr_def layout_values KERNBASE_def PGNUM_def)
  have "kmem s t j AND PTE_U \<noteq> PTE_U" using assms(6) by (simp add: PTE_U_def)
  then show ?thesis
    using assms(1,3-5) k
    by (simp add: debuginfo_eip_def debuginfo_tables_def deref_def user_mem_check_def E_FAULT_def
        not_le [symmetric])
qed

section \<open>Witnesses\<close>

text \<open>A table with two functions, and one whose entries are one byte apart.\<close>

definition demo_stabs :: "u32 \<Rightarrow> int \<Rightarrow> Stab" where
  "demo_stabs d i = \<lparr>n_strx = 0, n_type = (if i = 1 then N_SLINE else N_FUN), n_other = 0, n_desc = 0,
     n_value = of_int i * d\<rparr>"

theorem stab_binsearch_brackets_witness: "stab_binsearch (demo_stabs 16) 0 3 N_FUN 40 = (2, 2)"
proof -
  have t: "stabs_of (demo_stabs 16) N_FUN 0 3 = {0, 2, 3}"
    by (auto simp: stabs_of_def demo_stabs_def N_FUN_def N_SLINE_def)
  have v: "stabs_sorted (demo_stabs 16) {0, 2, 3}" "hit_alone (demo_stabs 16) {0, 2, 3} 40"
    by (simp_all add: stabs_sorted_def hit_alone_def demo_stabs_def)
  have "{i \<in> {0, 2, 3}. 40 < n_value (demo_stabs 16 i)} = {3}"
    "{i \<in> {0, 2, 3}. n_value (demo_stabs 16 i) \<le> 40} = {0, 2}"
    by (auto simp: demo_stabs_def)
  with stab_binsearch_brackets [of 0 3 "demo_stabs 16" N_FUN 40, unfolded t, OF _ v] show ?thesis
    by (simp add: demo_stabs_def)
qed

theorem stab_binsearch_overshoots_witness:
  "stab_binsearch (\<lambda>i. \<lparr>n_strx = 0, n_type = N_SLINE, n_other = 0, n_desc = 0, n_value = of_int i\<rparr>) 0 1 N_SLINE 0
    = (1, 1)"
  by (rule stab_binsearch_overshoots) simp_all

definition user_dbg_state :: kstate where
  "user_dbg_state = (set_curenv (Some 0) bss_state)\<lparr>npages := 1024,
     kmem := (\<lambda>_ _. 0)(1 := (\<lambda>_. 0)(960 := 0x3007), 3 := (\<lambda>_. 0)(512 := 0x200003)),
     envs := (envs bss_state)(0 := zero_Env\<lparr>env_pgdir := Some 1\<rparr>)\<rparr>"

theorem debuginfo_user_unavailable_witness:
  "debuginfo_eip ks unknown m 0x800020 user_dbg_state =
    Ret (Some (-1, init_info unknown 0x800020)) (user_dbg_state\<lparr>user_mem_check_addr := 0xF0200000\<rparr>)"
proof -
  have p: "unat (PDX (KERNBASE + USTABDATA)) = 960" "unat (PTX (KERNBASE + USTABDATA)) = 512"
    "KERNBASE + USTABDATA = 0xF0200000"
    by (simp_all add: unat_PDX unat_PTX layout_values KERNBASE_def)
  have "pgdir_walk 1 (KERNBASE + USTABDATA) False user_dbg_state = Ret (Some (3, 512)) user_dbg_state"
    unfolding pgdir_walk_def p(1,2)
    by (simp add: user_dbg_state_def c_not_def PTE_P_def kaddr_def PTE_ADDR_def PGNUM_def kva_frame_def KERNBASE_def)
  moreover have "kmem user_dbg_state 3 512 AND PTE_U = 0" by (simp add: user_dbg_state_def PTE_U_def)
  moreover have "curenv user_dbg_state = Some 0"
    by (simp add: user_dbg_state_def curenv_def set_curenv_def upd_this_cpu_def)
  ultimately show ?thesis
    using debuginfo_user_unavailable [of "0x800020" user_dbg_state 0 1 3 512 ks unknown m] p(3)
    by (simp add: user_dbg_state_def layout_values)
qed

end
