(* ===== verification/Jos_Monitor.thy ===== *)
theory Jos_Monitor
  imports Jos_Trap Jos_Kdebug
begin

text \<open>
  The kernel monitor (kern/monitor.c), the line editor it reads its commands with (lib/readline.c)
  and the printing of trap frames (kern/trap.c). The command line is a function from positions to
  bytes, an argument is the position it starts at. \<open>arrive\<close> is what happens between two polls of the
  console: the devices may receive something. String constants of the kernel are printed as the
  characters they have. \<open>None\<close> is a loop that does not end.
\<close>

section \<open>Reading a line\<close>

definition BUFLEN :: nat where "BUFLEN = 1024"

type_synonym line = "nat \<Rightarrow> u8"

partial_function (option) getchar :: "(kstate \<Rightarrow> kstate) \<Rightarrow> kstate \<Rightarrow> (u32 \<times> kstate) option" where
  "getchar arrive s =
     (case cons_getc (cons s) of
        None \<Rightarrow> None
      | Some (c, cs) \<Rightarrow>
          let s = s\<lparr>cons := cs\<rparr> in if c = 0 then getchar arrive (arrive s) else Some (c, s))"

definition iscons :: "int \<Rightarrow> int" where "iscons fdnum = 1"

text \<open>
  The loop for a source and a sink of characters, at position \<open>i\<close>. It gives the error if reading
  failed, and the buffer.
\<close>

partial_function (option) readline_loop ::
    "('s \<Rightarrow> (u32 \<times> 's) option) \<Rightarrow> (u32 \<Rightarrow> 's \<Rightarrow> 's) \<Rightarrow> nat \<Rightarrow> line \<Rightarrow> 's \<Rightarrow> (u32 option \<times> line \<times> 's) option" where
  "readline_loop getc putc i buf s =
     (case getc s of
        None \<Rightarrow> None
      | Some (c, s) \<Rightarrow>
          let echo = (\<lambda>c s. if iscons 0 \<noteq> 0 then putc c s else s) in
          if c <s 0 then Some (Some c, buf, s)
          else if (c = 8 \<or> c = 0x7f) \<and> 0 < i then readline_loop getc putc (i - 1) buf (echo 8 s)
          else if 32 \<le>s c \<and> i < BUFLEN - 1
            then readline_loop getc putc (i + 1) (buf(i := ucast c)) (echo c s)
          else if c = 10 \<or> c = 13 then Some (None, buf(i := 0), echo 10 s)
          else readline_loop getc putc i buf s)"

definition kputs :: "u8 list \<Rightarrow> kstate \<Rightarrow> kstate" where
  "kputs cs s = fold (\<lambda>c. kputch (ucast c)) cs s"

text \<open>The result is null, or the buffer, which is returned in both cases.\<close>

definition readline ::
    "(kstate \<Rightarrow> kstate) \<Rightarrow> u8 list \<Rightarrow> line \<Rightarrow> kstate \<Rightarrow> (bool \<times> line) kres option" where
  "readline arrive prompt buf s =
     map_option (\<lambda>(err, buf, s).
       case err of
         None \<Rightarrow> Ret (True, buf) s
       | Some c \<Rightarrow> bindO (cprintf (chars ''read error: %e'' @ [10]) (\<lambda>_. c) s) (\<lambda>_ s. Ret (False, buf) s))
       (readline_loop (getchar arrive) kputch 0 buf (kputs prompt s))"

section \<open>Arguments\<close>

definition WHITESPACE :: "u8 list" where "WHITESPACE = [9, 13, 10, 32]"
definition MAXARGS :: nat where "MAXARGS = 16"

partial_function (option) gobble :: "line \<Rightarrow> nat \<Rightarrow> (line \<times> nat) option" where
  "gobble buf i =
     (if buf i \<noteq> 0 \<and> buf i \<in> set WHITESPACE then gobble (buf(i := 0)) (i + 1) else Some (buf, i))"

partial_function (option) scan_arg :: "line \<Rightarrow> nat \<Rightarrow> nat option" where
  "scan_arg buf i =
     (if buf i \<noteq> 0 \<and> buf i \<notin> set WHITESPACE then scan_arg buf (i + 1) else Some i)"

text \<open>\<open>argv\<close> has the \<open>argc\<close> positions found so far; without a value there were too many.\<close>

partial_function (option) parse_args :: "line \<Rightarrow> nat \<Rightarrow> nat list \<Rightarrow> (line \<times> nat list option) option" where
  "parse_args buf i argv =
     (case gobble buf i of
        None \<Rightarrow> None
      | Some (buf, i) \<Rightarrow>
          if buf i = 0 then Some (buf, Some argv)
          else if length argv = MAXARGS - 1 then Some (buf, None)
          else case scan_arg buf i of None \<Rightarrow> None | Some j \<Rightarrow> parse_args buf j (argv @ [i]))"

section \<open>Commands\<close>

text \<open>\<open>strcmp\<close> of an argument with the name of a command, which gives 0.\<close>

fun arg_is :: "line \<Rightarrow> nat \<Rightarrow> u8 list \<Rightarrow> bool" where
  "arg_is buf i [] \<longleftrightarrow> buf i = 0"
| "arg_is buf i (c # cs) \<longleftrightarrow> buf i = c \<and> arg_is buf (i + 1) cs"

datatype command = MonHelp | MonKerninfo | MonBacktrace

definition commands :: "(string \<times> string \<times> command) list" where
  "commands =
    [(''help'', ''Display this list of commands'', MonHelp),
     (''kerninfo'', ''Display information about the kernel'', MonKerninfo),
     (''backtrace'', ''Show the backtrace of the current kernel stack'', MonBacktrace)]"

definition mon_help :: "kstate \<Rightarrow> int kres" where
  "mon_help s = Ret 0 (fold (\<lambda>(name, desc, _) s.
     kputs (chars name @ chars '' - '' @ chars desc @ [10]) s) commands s)"

text \<open>The symbols of the linker.\<close>

record ksyms =
  sym_start :: u32
  sym_entry :: u32
  sym_etext :: u32
  sym_edata :: u32
  sym_end :: u32

definition nl :: "u8 list \<Rightarrow> u8 list" where "nl cs = cs @ [10]"

fun print_all :: "(u8 list \<times> u32 list) list \<Rightarrow> kstate \<Rightarrow> unit kres" where
  "print_all [] s = Ret () s"
| "print_all ((fmt, args) # ps) s =
     bindO (cprintf fmt (\<lambda>i. if i < length args then args ! i else 0) s) (\<lambda>_ s. print_all ps s)"

definition mon_kerninfo :: "ksyms \<Rightarrow> kstate \<Rightarrow> int kres" where
  "mon_kerninfo k s =
     bindO (print_all
       [(nl (chars ''Special kernel symbols:''), []),
        (nl (chars ''  _start                  %08x (phys)''), [sym_start k]),
        (nl (chars ''  entry  %08x (virt)  %08x (phys)''), [sym_entry k, sym_entry k - KERNBASE]),
        (nl (chars ''  etext  %08x (virt)  %08x (phys)''), [sym_etext k, sym_etext k - KERNBASE]),
        (nl (chars ''  edata  %08x (virt)  %08x (phys)''), [sym_edata k, sym_edata k - KERNBASE]),
        (nl (chars ''  end    %08x (virt)  %08x (phys)''), [sym_end k, sym_end k - KERNBASE]),
        (nl (chars ''Kernel executable memory footprint: %dKB''),
         [ROUNDUP (sym_end k - sym_entry k) 1024 div 1024])] s) (\<lambda>_ s. Ret 0 s)"

text \<open>Words of the kernel's memory, and the memory as the lookup of debug information reads it.\<close>

definition kload32 :: "u32 \<Rightarrow> kstate \<Rightarrow> u32 kres" where
  "kload32 va s = bindO (load_bytes va 4 s) (\<lambda>bs s. Ret (le32 (\<lambda>k. bs ! k) 0) s)"

definition kmem_view :: "kstate \<Rightarrow> mem" where
  "kmem_view s va = (case rd_kernel s va of None \<Rightarrow> 0 | Some b \<Rightarrow> b)"

text \<open>The stack frames from base pointer \<open>ebp\<close> on; \<open>ks\<close> and \<open>unknown\<close> are as for \<open>debuginfo_eip\<close>.\<close>

partial_function (option) backtrace_loop ::
    "UserStabData \<Rightarrow> u32 \<Rightarrow> u32 \<Rightarrow> kstate \<Rightarrow> int kres option" where
  "backtrace_loop ks unknown ebp s =
     (if ebp = 0 then Some (Ret 0 s)
      else case
        bindO (kload32 (ebp + 4) s) (\<lambda>eip s.
        bindO (debuginfo_eip ks unknown (kmem_view s) eip s) (\<lambda>d s.
        bindO (kload32 (ebp + 8) s) (\<lambda>a0 s. bindO (kload32 (ebp + 12) s) (\<lambda>a1 s.
        bindO (kload32 (ebp + 16) s) (\<lambda>a2 s. bindO (kload32 (ebp + 20) s) (\<lambda>a3 s.
        bindO (kload32 (ebp + 24) s) (\<lambda>a4 s.
          case d of
            None \<Rightarrow> Ret None s
          | Some (_, info) \<Rightarrow>
              bindO (print_all
                [(nl (chars ''  ebp %08x   eip %08x   args %08x %08x %08x %08x'') @ nl (chars ''%08x'') @
                  nl (chars ''         %s:%d: %.*s+%d''),
                  [ebp, eip, a0, a1, a2, a3, a4, eip_file info, of_int (eip_line info),
                   of_int (eip_fn_namelen info), eip_fn_name info, eip - eip_fn_addr info])] s)
              (\<lambda>_ s. bindO (kload32 ebp s) (\<lambda>ebp s. Ret (Some ebp) s)))))))))
      of
        Ret (Some ebp) s \<Rightarrow> backtrace_loop ks unknown ebp s
      | Ret None s \<Rightarrow> None
      | Panic m \<Rightarrow> Some (Panic m)
      | Leave l s \<Rightarrow> Some (Leave l s))"

text \<open>What is fixed when the monitor runs: the kernel's symbols, tables and base pointer.\<close>

record kimage =
  img_syms :: ksyms
  img_stabs :: UserStabData
  img_unknown :: u32
  img_ebp :: u32

definition run_command :: "kimage \<Rightarrow> command \<Rightarrow> kstate \<Rightarrow> int kres option" where
  "run_command k c s =
     (case c of
        MonHelp \<Rightarrow> Some (mon_help s)
      | MonKerninfo \<Rightarrow> Some (mon_kerninfo (img_syms k) s)
      | MonBacktrace \<Rightarrow> backtrace_loop (img_stabs k) (img_unknown k) (img_ebp k) s)"

definition runcmd :: "kimage \<Rightarrow> line \<Rightarrow> kstate \<Rightarrow> (int \<times> line) kres option" where
  "runcmd k buf s =
     (case parse_args buf 0 [] of
        None \<Rightarrow> None
      | Some (buf, None) \<Rightarrow>
          Some (bindO (print_all [(nl (chars ''Too many arguments (max %d)''), [of_nat MAXARGS])] s)
            (\<lambda>_ s. Ret (0, buf) s))
      | Some (buf, Some []) \<Rightarrow> Some (Ret (0, buf) s)
      | Some (buf, Some (arg0 # _)) \<Rightarrow>
          (case find (\<lambda>(name, _). arg_is buf arg0 (chars name)) commands of
             Some (_, _, c) \<Rightarrow> map_option (\<lambda>r. bindO r (\<lambda>r s. Ret (r, buf) s)) (run_command k c s)
           | None \<Rightarrow>
               Some (Ret (0, buf) (kputs (chars ''Unknown command '' @ [39] @
                 takeWhile (\<lambda>c. c \<noteq> 0) (map buf [arg0..<BUFLEN]) @ [39, 10]) s))))"

partial_function (option) monitor_loop ::
    "(kstate \<Rightarrow> kstate) \<Rightarrow> kimage \<Rightarrow> line \<Rightarrow> kstate \<Rightarrow> unit kres option" where
  "monitor_loop arrive k buf s =
     (case readline arrive (chars ''K> '') buf s of
        None \<Rightarrow> None
      | Some (Panic m) \<Rightarrow> Some (Panic m)
      | Some (Leave l s) \<Rightarrow> Some (Leave l s)
      | Some (Ret (ok, buf) s) \<Rightarrow>
          if \<not> ok then monitor_loop arrive k buf s
          else case runcmd k buf s of
            None \<Rightarrow> None
          | Some (Panic m) \<Rightarrow> Some (Panic m)
          | Some (Leave l s) \<Rightarrow> Some (Leave l s)
          | Some (Ret (r, buf) s) \<Rightarrow> if r < 0 then Some (Ret () s) else monitor_loop arrive k buf s)"

section \<open>Trap frames\<close>

definition print_regs :: "PushRegs \<Rightarrow> kstate \<Rightarrow> unit kres" where
  "print_regs r s = print_all
     [(nl (chars ''  edi  0x%08x''), [reg_edi r]), (nl (chars ''  esi  0x%08x''), [reg_esi r]),
      (nl (chars ''  ebp  0x%08x''), [reg_ebp r]), (nl (chars ''  oesp 0x%08x''), [reg_oesp r]),
      (nl (chars ''  ebx  0x%08x''), [reg_ebx r]), (nl (chars ''  edx  0x%08x''), [reg_edx r]),
      (nl (chars ''  ecx  0x%08x''), [reg_ecx r]), (nl (chars ''  eax  0x%08x''), [reg_eax r])] s"

text \<open>The frame is at address \<open>va\<close>; \<open>is_last\<close> tells whether it is that of the last trap; \<open>cr2\<close> is the register.\<close>

definition print_trapframe :: "u32 \<Rightarrow> bool \<Rightarrow> u32 \<Rightarrow> Trapframe \<Rightarrow> kstate \<Rightarrow> unit kres" where
  "print_trapframe va is_last cr2 tf s =
     bindO (print_all
       [(nl (chars ''TRAP frame at %p from CPU %d''), [va, of_nat (this_cpu s)]),
        (nl (chars ''TRAP frame at %p''), [va])] s) (\<lambda>_ s.
     bindO (print_regs (tf_regs tf) s) (\<lambda>_ s.
     bindO (print_all
       [(nl (chars ''  es   0x----%04x''), [ucast (tf_es tf)]),
        (nl (chars ''  ds   0x----%04x''), [ucast (tf_ds tf)]),
        (chars ''  trap 0x%08x '', [tf_trapno tf])] s) (\<lambda>_ s.
     bindO (print_all
       ((if is_last \<and> tf_trapno tf = of_nat T_PGFLT then [(nl (chars ''  cr2  0x%08x''), [cr2])] else []) @
        [(chars ''  err  0x%08x'', [tf_err tf])]) (kputs (nl (chars (trapname (tf_trapno tf)))) s)) (\<lambda>_ s.
     let bit_name = (\<lambda>m on off. chars (if tf_err tf AND m \<noteq> 0 then on else off)) in
     print_all
       ([(nl (chars ''  eip  0x%08x''), [tf_eip tf]), (nl (chars ''  cs   0x----%04x''), [ucast (tf_cs tf)]),
         (nl (chars ''  flag 0x%08x''), [tf_eflags tf])] @
        (if tf_cs tf AND 3 \<noteq> 0
         then [(nl (chars ''  esp  0x%08x''), [tf_esp tf]), (nl (chars ''  ss   0x----%04x''), [ucast (tf_ss tf)])]
         else []))
       (kputs (nl (if tf_trapno tf = of_nat T_PGFLT
          then chars '' ['' @ bit_name 4 ''user'' ''kernel'' @ chars '', '' @ bit_name 2 ''write'' ''read'' @
            chars '', '' @ bit_name 1 ''protection'' ''not-present'' @ chars '']''
          else [])) s)))))"

text \<open>The monitor, called with a trap frame or without.\<close>

definition monitor ::
    "(kstate \<Rightarrow> kstate) \<Rightarrow> kimage \<Rightarrow> line \<Rightarrow> (u32 \<times> bool \<times> u32 \<times> Trapframe) option \<Rightarrow> kstate \<Rightarrow> unit kres option" where
  "monitor arrive k buf frame s =
     (let s = kputs (nl (chars ''Welcome to the JOS kernel monitor!'') @
            nl (chars ''Type '' @ [39] @ chars ''help'' @ [39] @ chars '' for a list of commands.'')) s in
      case (case frame of None \<Rightarrow> Ret () s | Some (va, is_last, cr2, tf) \<Rightarrow> print_trapframe va is_last cr2 tf s) of
        Ret _ s \<Rightarrow> monitor_loop arrive k buf s
      | Panic m \<Rightarrow> Some (Panic m)
      | Leave l s \<Rightarrow> Some (Leave l s))"

section \<open>Editing a line\<close>

definition edit_step :: "u8 list \<Rightarrow> u8 \<Rightarrow> u8 list" where
  "edit_step l c =
     (if (c = 8 \<or> c = 127) \<and> l \<noteq> [] then butlast l
      else if 32 \<le> c \<and> length l < BUFLEN - 1 then l @ [c]
      else l)"

lemma edit_step_length: "length l < BUFLEN \<Longrightarrow> length (edit_step l c) < BUFLEN"
  by (auto simp: edit_step_def BUFLEN_def)

lemma byte_char:
  fixes c :: u8
  shows "\<not> (ucast c :: u32) <s 0" "32 \<le>s (ucast c :: u32) \<longleftrightarrow> 32 \<le> c"
    "(ucast c :: u32) = 8 \<longleftrightarrow> c = 8" "(ucast c :: u32) = 127 \<longleftrightarrow> c = 127"
    "(ucast c :: u32) = 10 \<longleftrightarrow> c = 10" "(ucast c :: u32) = 13 \<longleftrightarrow> c = 13"
    "(ucast c :: u32) = 0 \<longleftrightarrow> c = 0" "ucast (ucast c :: u32) = c"
proof -
  have u: "unat (ucast c :: u32) = unat c"
    by (simp add: unsigned_ucast_eq take_bit_nat_eq_self_iff order_less_trans [OF unsigned_less])
  have "unat c < 256" using unsigned_less [of c] by simp
  then have "sint (ucast c :: u32) = int (unat c)" by (simp add: sint_small u)
  then show "\<not> (ucast c :: u32) <s 0" "32 \<le>s (ucast c :: u32) \<longleftrightarrow> 32 \<le> c"
    by (simp_all add: word_sless_alt word_sle_eq word_le_def)
  show "(ucast c :: u32) = 8 \<longleftrightarrow> c = 8" "(ucast c :: u32) = 127 \<longleftrightarrow> c = 127"
    "(ucast c :: u32) = 10 \<longleftrightarrow> c = 10" "(ucast c :: u32) = 13 \<longleftrightarrow> c = 13" "(ucast c :: u32) = 0 \<longleftrightarrow> c = 0"
    by (simp_all add: word_unat_eq_iff u)
  show "ucast (ucast c :: u32) = c" by (rule bit_word_eqI) (simp add: bit_simps)
qed

text \<open>A source of characters, which printing leaves alone.\<close>

locale typed_input =
  fixes getc :: "'s \<Rightarrow> (u32 \<times> 's) option" and putc :: "u32 \<Rightarrow> 's \<Rightarrow> 's"
    and typed :: "'s \<Rightarrow> u8 list" and ready :: "'s \<Rightarrow> bool"
  assumes get: "ready s \<Longrightarrow> typed s = c # cs \<Longrightarrow> c \<noteq> 0 \<Longrightarrow>
      \<exists>t. getc s = Some (ucast c, t) \<and> ready t \<and> typed t = cs"
    and put: "ready s \<Longrightarrow> ready (putc ch s) \<and> typed (putc ch s) = typed s"
begin

lemma edits_line:
  assumes "ready s" "typed s = cs @ e # rest" "\<forall>c\<in>set cs. c \<notin> {0, 10, 13}" "e \<in> {10, 13}"
    "map buf [0..<length l] = l" "length l < BUFLEN"
  shows "\<exists>b t. readline_loop getc putc (length l) buf s = Some (None, b, t) \<and> ready t \<and> typed t = rest \<and>
    map b [0..<length (foldl edit_step l cs)] = foldl edit_step l cs \<and> b (length (foldl edit_step l cs)) = 0 \<and>
    length (foldl edit_step l cs) < BUFLEN"
  using assms
proof (induction cs arbitrary: s buf l)
  case Nil
  then obtain t where t: "getc s = Some (ucast e, t)" "ready t" "typed t = rest"
    using get [of s e rest] by auto
  have "readline_loop getc putc (length l) buf s = Some (None, buf(length l := 0), putc 10 t)"
    using Nil.prems(4) by (subst readline_loop.simps) (auto simp: t(1) byte_char iscons_def)
  then show ?case using put [OF t(2)] t(3) Nil.prems(5,6) by (auto intro!: map_cong)
next
  case (Cons c cs)
  then have c: "c \<noteq> 0" "c \<noteq> 10" "c \<noteq> 13" by auto
  from get [of s c "cs @ e # rest"] Cons.prems(1,2) c(1)
  obtain t where t: "getc s = Some (ucast c, t)" "ready t" "typed t = cs @ e # rest" by auto
  let ?l = "edit_step l c"
  have "\<exists>b u. readline_loop getc putc (length l) buf s = readline_loop getc putc (length ?l) b u \<and>
      ready u \<and> typed u = typed t \<and> map b [0..<length ?l] = ?l"
  proof (cases "(c = 8 \<or> c = 127) \<and> l \<noteq> []")
    case True
    then have "readline_loop getc putc (length l) buf s = readline_loop getc putc (length l - 1) buf (putc 8 t)"
      by (subst readline_loop.simps) (auto simp: t(1) byte_char iscons_def)
    moreover have "map buf [0..<length l - 1] = butlast l"
      using Cons.prems(5) by (metis butlast_conv_take diff_le_self take_map take_upt add_0)
    ultimately show ?thesis using True put [OF t(2)] by (auto simp: edit_step_def)
  next
    case False
    note no_back = this
    show ?thesis
    proof (cases "32 \<le> c \<and> length l < BUFLEN - 1")
      case True
      with no_back have "readline_loop getc putc (length l) buf s =
          readline_loop getc putc (length l + 1) (buf(length l := c)) (putc (ucast c) t)"
        by (subst readline_loop.simps) (auto simp: t(1) byte_char iscons_def)
      moreover have e: "edit_step l c = l @ [c]" using True no_back by (auto simp: edit_step_def)
      moreover have "map (buf(length l := c)) [0..<length l] = l"
        using Cons.prems(5) by (metis (mono_tags, lifting) atLeastLessThan_iff fun_upd_apply map_cong nat_less_le set_upt)
      then have "map (buf(length l := c)) [0..<length ?l] = ?l" by (simp add: e)
      ultimately show ?thesis
        using put [OF t(2), of "ucast c"]
        by (intro exI [of _ "buf(length l := c)"] exI [of _ "putc (ucast c) t"]) simp
    next
      case False
      with no_back have "readline_loop getc putc (length l) buf s = readline_loop getc putc (length l) buf t"
        using c by (subst readline_loop.simps) (auto simp: t(1) byte_char iscons_def)
      with False no_back Cons.prems(5) t(2) show ?thesis by (auto simp: edit_step_def)
    qed
  qed
  then obtain b u where u: "readline_loop getc putc (length l) buf s = readline_loop getc putc (length ?l) b u"
    "ready u" "typed u = cs @ e # rest" "map b [0..<length ?l] = ?l" using t(3) by auto
  from Cons.IH [OF u(2,3) _ Cons.prems(4) u(4) edit_step_length [OF Cons.prems(6)]] Cons.prems(3) u(1)
  show ?case by simp
qed

end

section \<open>The console as the source\<close>

lemma cga_putc_with_input:
  assumes "\<And>s. f (putc 32 s) = f s"
    and "\<And>s x. f (s\<lparr>crt_pos := x\<rparr>) = f s" "\<And>s x. f (s\<lparr>crt_buf := x\<rparr>) = f s" "\<And>s x. f (s\<lparr>ports_out := x\<rparr>) = f s"
  shows "f (cga_putc_with putc c s) = f s"
  using assms by (simp add: cga_putc_with_def cga_cursor_def cga_scroll_def outb_def Let_def)

definition input_part where
  "input_part s = (cons_buf s, cons_rpos s, cons_wpos s, serial_rx s, kbd_rx s, kbd_shift s, line_part s)"

lemma cputchar_input: "input_part (cputchar c s) = input_part s"
proof -
  have p: "input_part (lpt_putc c (serial_putc c s)) = input_part s" for c s
    by (simp add: input_part_def line_part_def lpt_putc_def serial_putc_def outb_def)
  have "input_part (cons_putc_blank 32 s) = input_part s" for s
    unfolding cons_putc_blank_def p [of 32 s, symmetric] by (rule cga_putc_with_input) (simp_all add: input_part_def line_part_def)
  then show ?thesis
    unfolding cputchar_def cons_putc_def cga_putc_def p [of c s, symmetric]
    by (rule cga_putc_with_input) (simp_all add: input_part_def line_part_def)
qed

text \<open>
  Typing: each time a poll finds nothing, the next group of bytes arrives, some at the serial port
  and some, as scan codes, at the keyboard.
\<close>

definition input_arrives :: "console \<Rightarrow> console" where
  "input_arrives s =
     (case arrivals s of
        [] \<Rightarrow> s
      | (ser, codes) # rest \<Rightarrow>
          s\<lparr>serial_rx := serial_rx s @ ser, kbd_rx := kbd_rx s @ map (Pair False) codes, arrivals := rest\<rparr>)"

fun arriving_chars :: "bool \<Rightarrow> (u8 list \<times> u8 list) list \<Rightarrow> u32 \<Rightarrow> u8 list" where
  "arriving_chars serial [] sh = []"
| "arriving_chars serial ((ser, codes) # rest) sh =
     (if serial then filter (\<lambda>b. b \<noteq> 0) ser else []) @ kbd_chars (map (Pair False) codes) sh @
     arriving_chars serial rest (kbd_after (map (Pair False) codes) sh)"

text \<open>What was typed: the characters that wait, and those that are still to arrive.\<close>

definition typed_chars :: "console \<Rightarrow> u8 list" where
  "typed_chars s = cons_input s @
     arriving_chars (serial_exists s) (arrivals s) (kbd_after (kbd_rx s) (kbd_shift s))"

text \<open>The ring buffer keeps up: never are more than 511 characters waiting for it.\<close>

definition input_ready :: "console \<Rightarrow> bool" where
  "input_ready s \<longleftrightarrow> ring_ok s \<and> list_all (\<lambda>p. \<not> fst p) (kbd_rx s) \<and> length (cons_input s) < CONSBUFSIZE \<and>
     list_all (\<lambda>(ser, codes). length ser + length codes < CONSBUFSIZE) (arrivals s)"

lemma kbd_chars_length: "length (kbd_chars ps sh) \<le> length ps"
  by (induction ps sh rule: kbd_chars.induct) (auto split: prod.splits)

lemma line_part_eq: "line_part t = line_part s \<longleftrightarrow> serial_exists t = serial_exists s \<and> arrivals t = arrivals s"
  by (simp add: line_part_def)

lemma ring_of_input:
  assumes "input_part t = input_part s"
  shows "typed_chars t = typed_chars s" "input_ready t = input_ready s"
proof -
  have i: "cons_input t = cons_input s"
    using assms by (simp add: input_part_def cons_input_def cons_queue_def ring_len_def line_part_eq)
  then show "typed_chars t = typed_chars s"
    using assms by (simp add: input_part_def typed_chars_def line_part_eq)
  show "input_ready t = input_ready s"
    using assms i by (simp add: input_part_def input_ready_def ring_ok_def line_part_eq)
qed

text \<open>A poll that finds something takes the first character; otherwise more arrives.\<close>

lemma cons_getc_ready:
  assumes "input_ready s"
  shows "\<exists>t. cons_getc s = Some (case cons_input s of [] \<Rightarrow> 0 | c # _ \<Rightarrow> ucast c, t) \<and>
    cons_input t = tl (cons_input s) \<and> input_ready t \<and> line_part t = line_part s \<and> kbd_rx t = [] \<and>
    kbd_shift t = kbd_after (kbd_rx s) (kbd_shift s)"
proof -
  from assms have r: "ring_ok s" "ring_keep (cons_input s) = cons_input s"
    "dropWhile (\<lambda>p. \<not> fst p) (kbd_rx s) = []"
    by (simp_all add: input_ready_def ring_keep_short list_all_iff)
  from cons_getc_queue [OF r(1)] r(2,3) obtain t where
    t: "cons_getc s = Some (case cons_input s of [] \<Rightarrow> 0 | c # _ \<Rightarrow> ucast c, t)"
      "cons_queue t = tl (cons_input s)" "ring_ok t" "serial_rx t = (if serial_exists s then [] else serial_rx s)"
      "kbd_rx t = []" "kbd_shift t = kbd_after (kbd_rx s) (kbd_shift s)" "line_part t = line_part s" by auto
  have i: "cons_input t = tl (cons_input s)"
    using t(2,4,5,7) by (simp add: cons_input_def [of t] line_part_eq)
  then have "input_ready t" using assms t(3,5,7) by (auto simp: input_ready_def line_part_eq)
  with t i show ?thesis by blast
qed

lemma input_arrives_ready:
  assumes "input_ready s" "cons_input s = []" "kbd_rx s = []" "arrivals s = (ser, codes) # rest"
  shows "input_ready (input_arrives s) \<and> typed_chars (input_arrives s) = typed_chars s \<and>
    arrivals (input_arrives s) = rest"
proof -
  let ?t = "input_arrives s"
  have q: "cons_queue s = []" "serial_exists s \<Longrightarrow> filter (\<lambda>b. b \<noteq> 0) (serial_rx s) = []"
    using assms(2) by (auto simp: cons_input_def)
  have i: "cons_input ?t = (if serial_exists s then filter (\<lambda>b. b \<noteq> 0) ser else []) @
      kbd_chars (map (Pair False) codes) (kbd_shift s)"
    using q assms(3,4) by (simp add: input_arrives_def cons_input_def cons_queue_def ring_len_def)
  have "length (cons_input ?t) \<le> length ser + length codes"
    using add_mono [OF length_filter_le [of "\<lambda>b. b \<noteq> 0" ser] kbd_chars_length [of "map (Pair False) codes" "kbd_shift s"]]
      kbd_chars_length [of "map (Pair False) codes" "kbd_shift s"] by (simp add: i)
  with assms(1,3,4) have "input_ready ?t"
    by (simp add: input_ready_def input_arrives_def ring_ok_def list_all_iff)
  moreover have "typed_chars ?t = typed_chars s"
    using assms(2-4) i by (simp add: typed_chars_def) (simp add: input_arrives_def)
  ultimately show ?thesis using assms(4) by (simp add: input_arrives_def)
qed

abbreviation typist :: "kstate \<Rightarrow> kstate" where
  "typist s \<equiv> s\<lparr>cons := input_arrives (cons s)\<rparr>"

lemma getchar_typed:
  assumes "input_ready (cons s)" "typed_chars (cons s) = c # cs" "c \<noteq> 0"
  shows "\<exists>u. getchar typist s = Some (ucast c, u) \<and> input_ready (cons u) \<and> typed_chars (cons u) = cs"
  using assms(1,2)
proof (induction "length (arrivals (cons s))" arbitrary: s rule: less_induct)
  case less
  from cons_getc_ready [OF less.prems(1)] obtain t where
    t: "cons_getc (cons s) = Some (case cons_input (cons s) of [] \<Rightarrow> 0 | c # _ \<Rightarrow> ucast c, t)"
      "cons_input t = tl (cons_input (cons s))" "input_ready t" "line_part t = line_part (cons s)"
      "kbd_rx t = []" "kbd_shift t = kbd_after (kbd_rx (cons s)) (kbd_shift (cons s))" by blast
  have y: "typed_chars t = tl (cons_input (cons s)) @ arriving_chars (serial_exists (cons s))
      (arrivals (cons s)) (kbd_after (kbd_rx (cons s)) (kbd_shift (cons s)))"
    using t(2,4-6) by (simp add: typed_chars_def line_part_eq)
  show ?case
  proof (cases "cons_input (cons s)")
    case (Cons d ds)
    with less.prems(2) y have "d = c" "typed_chars t = cs" by (simp_all add: typed_chars_def)
    with Cons t(1,3) assms(3) show ?thesis by (subst getchar.simps) (simp add: byte_char Let_def)
  next
    case Nil
    with less.prems(2) obtain ser codes rest where a: "arrivals (cons s) = (ser, codes) # rest"
      by (cases "arrivals (cons s)") (auto simp: typed_chars_def)
    then have "arrivals t = (ser, codes) # rest" using t(4) by (simp add: line_part_eq)
    from input_arrives_ready [OF t(3) _ t(5) this] t(2) Nil
    have v: "input_ready (input_arrives t)" "typed_chars (input_arrives t) = typed_chars t"
      "arrivals (input_arrives t) = rest" by simp_all
    let ?u = "s\<lparr>cons := input_arrives t\<rparr>"
    have "typed_chars t = c # cs" using y Nil less.prems(2) by (simp add: typed_chars_def)
    with less.hyps [of ?u] v a have
      "\<exists>u. getchar typist ?u = Some (ucast c, u) \<and> input_ready (cons u) \<and> typed_chars (cons u) = cs" by simp
    moreover have "getchar typist s = getchar typist ?u"
      using t(1) Nil by (subst getchar.simps) (simp add: Let_def)
    ultimately show ?thesis by simp
  qed
qed

interpretation typing: typed_input "getchar typist" kputch "\<lambda>s. typed_chars (cons s)" "\<lambda>s. input_ready (cons s)"
proof
  fix s :: kstate and c cs
  assume "input_ready (cons s)" "typed_chars (cons s) = c # cs" "c \<noteq> 0"
  then show "\<exists>u. getchar typist s = Some (ucast c, u) \<and> input_ready (cons u) \<and> typed_chars (cons u) = cs"
    by (rule getchar_typed)
next
  fix s :: kstate and ch
  assume "input_ready (cons s)"
  then show "input_ready (cons (kputch ch s)) \<and> typed_chars (cons (kputch ch s)) = typed_chars (cons s)"
    using ring_of_input [OF cputchar_input, of ch "cons s"] by (simp add: kputch_def)
qed

text \<open>
  C32: The line editor. Let any number of characters and then a return be typed at the serial line
  and the keyboard: some may already wait in the console, the others arrive in groups, one each
  time a poll of the console finds nothing, each group and what waits at first small enough for
  the ring buffer (at most 511 bytes) and the mouse silent. Then \<open>readline\<close> returns with the line
  that editing gives - a backspace takes the last character back, a character that can be printed
  is appended as long as the line is shorter than 1023, any other is ignored -, as a string that
  ends inside the buffer of 1024, and takes no more than the return from the input.
\<close>

theorem readline_edits:
  assumes "input_ready (cons s)" "typed_chars (cons s) = cs @ e # rest" "\<forall>c\<in>set cs. c \<notin> {0, 10, 13}"
    "e \<in> {10, 13}"
  shows "\<exists>b t. readline typist prompt buf s = Some (Ret (True, b) t) \<and> typed_chars (cons t) = rest \<and>
    arg_is b 0 (foldl edit_step [] cs) \<and> length (foldl edit_step [] cs) < BUFLEN"
proof -
  let ?l = "foldl edit_step [] cs"
  have k: "input_ready (cons (kputs p s)) \<and> typed_chars (cons (kputs p s)) = typed_chars (cons s)"
    if "input_ready (cons s)" for p s
    using that by (induction p arbitrary: s) (simp_all add: kputs_def typing.put)
  have "map buf [0..<length []] = []" "length [] < BUFLEN" by (simp_all add: BUFLEN_def)
  from typing.edits_line [where s = "kputs prompt s" and cs = cs and e = e and rest = rest and buf = buf and l = "[]",
      OF _ _ assms(3,4) this] k [OF assms(1)] assms(1,2)
  obtain b t where t: "readline_loop (getchar typist) kputch 0 buf (kputs prompt s) = Some (None, b, t)"
    "typed_chars (cons t) = rest" "map b [0..<length ?l] = ?l" "b (length ?l) = 0" "length ?l < BUFLEN" by auto
  have "map b [i..<i + length l] = l \<Longrightarrow> b (i + length l) = 0 \<Longrightarrow> arg_is b i l" for i l
    by (induction l arbitrary: i) (simp_all add: upt_conv_Cons del: upt_Suc)
  from this [of 0 ?l] t(3,4) have "arg_is b 0 ?l" by simp
  with t show ?thesis by (auto simp: readline_def)
qed

section \<open>Splitting a line into arguments\<close>

function words :: "u8 list \<Rightarrow> u8 list list" where
  "words cs =
     (let ds = dropWhile (\<lambda>c. c \<in> set WHITESPACE) cs in
      if ds = [] then []
      else takeWhile (\<lambda>c. c \<notin> set WHITESPACE) ds # words (dropWhile (\<lambda>c. c \<notin> set WHITESPACE) ds))"
  by pat_completeness auto

termination
proof (relation "measure length")
  fix cs ds :: "u8 list"
  assume ds: "ds = dropWhile (\<lambda>c. c \<in> set WHITESPACE) cs" "ds \<noteq> []"
  then have "hd ds \<notin> set WHITESPACE" using hd_dropWhile [of "\<lambda>c. c \<in> set WHITESPACE" cs] by simp
  then have "length (dropWhile (\<lambda>c. c \<notin> set WHITESPACE) ds) < length ds"
    using ds(2) by (cases ds) (simp_all add: le_imp_less_Suc length_dropWhile_le)
  also have "length ds \<le> length cs" unfolding ds(1) by (rule length_dropWhile_le)
  finally show "(dropWhile (\<lambda>c. c \<notin> set WHITESPACE) ds, cs) \<in> measure length" by simp
qed simp

declare words.simps [simp del]

lemma arg_is_cong: "arg_is b i cs \<Longrightarrow> (\<And>k. i \<le> k \<Longrightarrow> b' k = b k) \<Longrightarrow> arg_is b' i cs"
  by (induction cs arbitrary: i) auto

lemma gobble_ok:
  "arg_is b i cs \<Longrightarrow> 0 \<notin> set cs \<Longrightarrow> \<exists>b'. gobble b i = Some (b', i + length (takeWhile (\<lambda>c. c \<in> set WHITESPACE) cs)) \<and>
    arg_is b' (i + length (takeWhile (\<lambda>c. c \<in> set WHITESPACE) cs)) (dropWhile (\<lambda>c. c \<in> set WHITESPACE) cs) \<and>
    (\<forall>k<i. b' k = b k) \<and> (b i \<in> insert 0 (set WHITESPACE) \<longrightarrow> b' i = 0)"
proof (induction cs arbitrary: b i)
  case Nil
  then show ?case by (subst gobble.simps) (simp add: WHITESPACE_def)
next
  case (Cons c cs)
  show ?case
  proof (cases "c \<in> set WHITESPACE")
    case True
    define b0 where "b0 = b(i := 0)"
    have "arg_is b0 (Suc i) cs" unfolding b0_def using Cons.prems(1) by (auto intro: arg_is_cong [of b])
    from Cons.IH [OF this] Cons.prems(2) obtain b' where
      b': "gobble b0 (Suc i) = Some (b', Suc i + length (takeWhile (\<lambda>c. c \<in> set WHITESPACE) cs))"
        "arg_is b' (Suc i + length (takeWhile (\<lambda>c. c \<in> set WHITESPACE) cs)) (dropWhile (\<lambda>c. c \<in> set WHITESPACE) cs)"
        "\<forall>k<Suc i. b' k = b0 k" by auto
    have "gobble b i = gobble b0 (Suc i)" using Cons.prems True by (subst gobble.simps) (auto simp: b0_def)
    moreover have "\<forall>k<i. b' k = b k" "b' i = 0" using b'(3) by (simp_all add: b0_def)
    ultimately show ?thesis using b'(1,2) True by (intro exI [of _ b']) auto
  next
    case False
    with Cons.prems show ?thesis by (subst gobble.simps) auto
  qed
qed

lemma scan_arg_ok:
  "arg_is b i cs \<Longrightarrow> 0 \<notin> set cs \<Longrightarrow> scan_arg b i = Some (i + length (takeWhile (\<lambda>c. c \<notin> set WHITESPACE) cs)) \<and>
    arg_is b (i + length (takeWhile (\<lambda>c. c \<notin> set WHITESPACE) cs)) (dropWhile (\<lambda>c. c \<notin> set WHITESPACE) cs)"
proof (induction cs arbitrary: i)
  case (Cons c cs)
  then show ?case using Cons.IH [of "Suc i"] by (subst scan_arg.simps) auto
qed (subst scan_arg.simps, simp)

text \<open>The characters of an argument, when what follows it is cleared.\<close>

lemma arg_prefix:
  "arg_is b i cs \<Longrightarrow> (\<And>k. k < i + length (takeWhile P cs) \<Longrightarrow> b' k = b k) \<Longrightarrow> b' (i + length (takeWhile P cs)) = 0 \<Longrightarrow>
    arg_is b' i (takeWhile P cs)"
proof (induction cs arbitrary: i)
  case (Cons c cs)
  from Cons.IH [of "i + 1"] Cons.prems show ?case by auto
qed simp

lemma parse_args_ok:
  "arg_is b i cs \<Longrightarrow> 0 \<notin> set cs \<Longrightarrow> length argv < MAXARGS \<Longrightarrow>
    \<exists>b'. (if length argv + length (words cs) < MAXARGS
      then \<exists>ps. parse_args b i argv = Some (b', Some (argv @ ps)) \<and> list_all2 (arg_is b') ps (words cs) \<and>
        (\<forall>p\<in>set ps. i \<le> p)
      else parse_args b i argv = Some (b', None)) \<and>
    (\<forall>k<i. b' k = b k) \<and> (b i \<in> insert 0 (set WHITESPACE) \<longrightarrow> b' i = 0)"
proof (induction cs arbitrary: b i argv rule: words.induct)
  case (1 cs)
  let ?ws = "\<lambda>c. c \<in> set WHITESPACE" and ?nw = "\<lambda>c. c \<notin> set WHITESPACE"
  let ?ds = "dropWhile ?ws cs"
  from gobble_ok [OF "1.prems"(1,2)] obtain b1 where
    g: "gobble b i = Some (b1, i + length (takeWhile ?ws cs))" "arg_is b1 (i + length (takeWhile ?ws cs)) ?ds"
    "\<forall>k<i. b1 k = b k" "b i \<in> insert 0 (set WHITESPACE) \<longrightarrow> b1 i = 0" by blast
  let ?i = "i + length (takeWhile ?ws cs)"
  have d0: "0 \<notin> set ?ds" using "1.prems"(2) set_dropWhileD by fastforce
  show ?case
  proof (cases "?ds = []")
    case True
    then have "words cs = []" by (subst words.simps) (simp add: Let_def)
    moreover have "parse_args b i argv = Some (b1, Some argv)"
      using g(1,2) True by (subst parse_args.simps) simp
    ultimately show ?thesis using "1.prems"(3) g(3,4) by (intro exI [of _ b1]) auto
  next
    case ds: False
    then have w: "words cs = takeWhile ?nw ?ds # words (dropWhile ?nw ?ds)" by (subst words.simps) (simp only: Let_def ds if_False)
    have nz: "b1 ?i \<noteq> 0" using ds g(2) d0 by (cases ?ds) auto
    show ?thesis
    proof (cases "length argv = MAXARGS - 1")
      case True
      then have "parse_args b i argv = Some (b1, None)" using g(1) nz by (subst parse_args.simps) simp
      then show ?thesis using True w g(3,4) by (intro exI [of _ b1]) (auto simp: MAXARGS_def)
    next
      case False
      let ?j = "?i + length (takeWhile ?nw ?ds)"
      note sc = scan_arg_ok [OF g(2) d0]
      have eq: "parse_args b i argv = parse_args b1 ?j (argv @ [?i])"
        using g(1) nz False sc by (subst parse_args.simps) simp
      have "0 \<notin> set (dropWhile ?nw ?ds)" "length (argv @ [?i]) < MAXARGS"
        using d0 set_dropWhileD "1.prems"(3) False by (fastforce, simp)
      from "1.IH" [OF refl ds sc [THEN conjunct2] this] obtain b2 where
        b2: "if length (argv @ [?i]) + length (words (dropWhile ?nw ?ds)) < MAXARGS
          then \<exists>ps. parse_args b1 ?j (argv @ [?i]) = Some (b2, Some ((argv @ [?i]) @ ps)) \<and>
            list_all2 (arg_is b2) ps (words (dropWhile ?nw ?ds)) \<and> (\<forall>p\<in>set ps. ?j \<le> p)
          else parse_args b1 ?j (argv @ [?i]) = Some (b2, None)"
        and k2: "\<forall>k<?j. b2 k = b1 k" "b1 ?j \<in> insert 0 (set WHITESPACE) \<longrightarrow> b2 ?j = 0" by blast
      have "takeWhile ?nw ?ds \<noteq> []" using ds hd_dropWhile [of ?ws cs] by (cases ?ds) auto
      then have lt: "i < ?j" by simp
      have "b1 ?j \<in> insert 0 (set WHITESPACE)"
      proof (cases "dropWhile ?nw ?ds")
        case Nil
        with sc show ?thesis by (simp del: dropWhile_eq_Nil_conv)
      next
        case (Cons d es)
        then have "d \<in> set WHITESPACE" using hd_dropWhile [of ?nw ?ds] by simp
        moreover have "b1 ?j = d" using sc Cons by simp
        ultimately show ?thesis by simp
      qed
      then have arg: "arg_is b2 ?i (takeWhile ?nw ?ds)"
        using arg_prefix [OF g(2), of ?nw b2] k2 by simp
      have keep: "\<forall>k<i. b2 k = b k" "b i \<in> insert 0 (set WHITESPACE) \<longrightarrow> b2 i = 0"
        using k2(1) g(3,4) lt by auto
      show ?thesis
      proof (cases "length argv + length (words cs) < MAXARGS")
        case True
        with b2 w obtain ps where "parse_args b1 ?j (argv @ [?i]) = Some (b2, Some ((argv @ [?i]) @ ps))"
          "list_all2 (arg_is b2) ps (words (dropWhile ?nw ?ds))" "\<forall>p\<in>set ps. ?j \<le> p" by auto
        with True keep arg w eq lt show ?thesis by (intro exI [of _ b2]) auto
      next
        case False
        with b2 w eq keep show ?thesis by (intro exI [of _ b2]) auto
      qed
    qed
  qed
qed

text \<open>
  The parser of command lines: a line without zero bytes of at most 15 words is split at white space
  into its words, each an argument that ends in a zero byte in the buffer; with more words
  there is no command, although the message says that 16 are allowed.
\<close>

theorem parse_args_words:
  assumes "arg_is b 0 cs" "0 \<notin> set cs"
  shows "\<exists>b'. if length (words cs) \<le> 15
    then \<exists>argv. parse_args b 0 [] = Some (b', Some argv) \<and> list_all2 (arg_is b') argv (words cs)
    else parse_args b 0 [] = Some (b', None)"
  using parse_args_ok [OF assms, of "[]"] by (auto simp: MAXARGS_def)

section \<open>Leaving the monitor\<close>

lemma backtrace_returns_0: "backtrace_loop ks unknown ebp s = Some (Ret r t) \<Longrightarrow> r = 0"
proof -
  define P where "P = (\<lambda>(ks :: UserStabData) (unknown :: u32) (ebp :: u32) (s :: kstate) (y :: int kres).
    \<forall>r t. y = Ret r t \<longrightarrow> r = 0)"
  assume r: "backtrace_loop ks unknown ebp s = Some (Ret r t)"
  have "P ks unknown ebp s (Ret r t)"
    by (rule backtrace_loop.raw_induct [of P, OF _ r])
      (auto simp: P_def split: if_splits outcome.splits option.splits)
  then show ?thesis by (simp add: P_def)
qed

lemma runcmd_returns_0: "runcmd k buf s = Some (Ret (r, b) t) \<Longrightarrow> r = 0"
  by (auto simp: runcmd_def run_command_def mon_help_def mon_kerninfo_def bindO_eq_Ret backtrace_returns_0
      split: option.splits list.splits command.splits)

text \<open>
  The monitor is not left: it never returns to the trap handler, since no command returns a negative
  number, which is the only way out of its loop.
\<close>

theorem monitor_never_returns: "monitor arrive k buf frame s \<noteq> Some (Ret () t)"
proof -
  define P where "P = (\<lambda>(arrive :: kstate \<Rightarrow> kstate) (k :: kimage) (buf :: line) (s :: kstate) (y :: unit kres).
    \<forall>t. y \<noteq> Ret () t)"
  have loop: "monitor_loop arrive k buf s \<noteq> Some (Ret () t)" for s t
  proof
    assume r: "monitor_loop arrive k buf s = Some (Ret () t)"
    have "P arrive k buf s (Ret () t)"
      by (rule monitor_loop.raw_induct [of P, OF _ r])
        (auto simp: P_def split: if_splits outcome.splits option.splits,
          (blast | fastforce dest: runcmd_returns_0)+)
    then show False by (simp add: P_def)
  qed
  show ?thesis using loop by (auto simp: monitor_def Let_def split: outcome.splits)
qed

section \<open>Witnesses\<close>

text \<open>
  Three groups of 400 letters on the serial line, a backspace waiting before them, then the return
  key: more than a line holds. The line read is 1023 letters long.
\<close>

definition typing_console :: console where
  "typing_console = init_console\<lparr>serial_exists := True, serial_rx := [8],
     arrivals := replicate 3 (replicate 400 104, []) @ [([], [0x1C])]\<rparr>"

lemma edit_fills:
  "32 \<le> c \<Longrightarrow> c \<noteq> 127 \<Longrightarrow> k < BUFLEN \<Longrightarrow>
    foldl edit_step (replicate k c) (replicate n c) = replicate (min (k + n) (BUFLEN - 1)) c"
proof (induction n arbitrary: k)
  case (Suc n)
  from Suc.prems(1) have "c \<noteq> 8" by auto
  with Suc.prems have "edit_step (replicate k c) c = replicate (min (k + 1) (BUFLEN - 1)) c"
    by (auto simp: edit_step_def BUFLEN_def replicate_append_same min_def)
  moreover have "min (k + 1) (BUFLEN - 1) < BUFLEN" by (simp add: BUFLEN_def)
  ultimately show ?case using Suc.IH [of "min (k + 1) (BUFLEN - 1)"] Suc.prems by (simp add: min_def BUFLEN_def)
qed (simp add: BUFLEN_def)

theorem readline_edits_witness:
  "\<exists>b t. readline typist (chars ''K> '') (\<lambda>_. 0) (bss_state\<lparr>cons := typing_console\<rparr>) = Some (Ret (True, b) t) \<and>
    arg_is b 0 (replicate 1023 104) \<and> typed_chars (cons t) = []"
proof -
  let ?s = "bss_state\<lparr>cons := typing_console\<rparr>" and ?cs = "8 # replicate 1200 (104 :: u8)"
  have i: "cons_input (cons ?s) = [8]"
    by (simp add: typing_console_def cons_input_def cons_queue_def ring_len_def init_console_def)
  have k: "kbd_chars [(False, 0x1C)] 0 = [10]" by code_simp
  have "arriving_chars True (arrivals typing_console) 0 =
      replicate 400 104 @ replicate 400 104 @ replicate 400 104 @ [10]"
    using k by (simp add: typing_console_def numeral_3_eq_3)
  also have "\<dots> = replicate 1200 104 @ [10]" by (simp flip: replicate_add)
  finally have t: "typed_chars (cons ?s) = ?cs @ 10 # []"
    using i by (simp add: typed_chars_def) (simp add: typing_console_def init_console_def)
  have "input_ready (cons ?s)"
    using i by (simp add: input_ready_def) (simp add: typing_console_def ring_ok_def CONSBUFSIZE_def init_console_def numeral_3_eq_3)
  moreover have "foldl edit_step [] ?cs = replicate 1023 104"
    using edit_fills [of 104 0 1200] by (simp add: edit_step_def BUFLEN_def)
  ultimately show ?thesis using readline_edits [OF _ t, of "chars ''K> ''" "\<lambda>_. 0"] by auto
qed

definition line_of :: "u8 list \<Rightarrow> line" where
  "line_of cs i = (if i < length cs then cs ! i else 0)"

theorem parse_args_words_witness:
  "\<exists>b argv. parse_args (line_of [32, 104, 105, 9, 33]) 0 [] = Some (b, Some argv) \<and>
    list_all2 (arg_is b) argv [[104, 105], [33]]"
proof -
  have "arg_is (line_of [32, 104, 105, 9, 33]) 0 [32, 104, 105, 9, 33]" by (simp add: line_of_def)
  moreover have "words [32, 104, 105, 9, 33] = [[104, 105], [33]]" by (simp add: words.simps WHITESPACE_def)
  ultimately show ?thesis using parse_args_words [of _ "[32, 104, 105, 9, 33]"] by auto
qed

end
