(* ===== verification/Jos_Mp.thy ===== *)
theory Jos_Mp
  imports Jos_Monitor
begin

text \<open>
  More than one CPU: the search for the configuration table of the BIOS and its evaluation
  (kern/mpconfig.c), and the local APIC (kern/lapic.c). The tables are read from a flat memory at the
  kernel's addresses. Of the APIC the registers that are read are parameters, and the words written to
  it are recorded, the last first.
\<close>

section \<open>Structures\<close>

definition rd16 :: "mem \<Rightarrow> u32 \<Rightarrow> u16" where "rd16 m a = le16 (\<lambda>k. m (a + of_nat k)) 0"
definition rd32 :: "mem \<Rightarrow> u32 \<Rightarrow> u32" where "rd32 m a = le32 (\<lambda>k. m (a + of_nat k)) 0"

text \<open>The fields of \<open>struct mp\<close>, \<open>struct mpconf\<close> and \<open>struct mpproc\<close> at an address.\<close>

definition MP_SIZE :: u32 where "MP_SIZE = 16"
definition mp_physaddr :: "mem \<Rightarrow> u32 \<Rightarrow> u32" where "mp_physaddr m mp = rd32 m (mp + 4)"
definition mp_type :: "mem \<Rightarrow> u32 \<Rightarrow> u8" where "mp_type m mp = m (mp + 11)"
definition mp_imcrp :: "mem \<Rightarrow> u32 \<Rightarrow> u8" where "mp_imcrp m mp = m (mp + 12)"

definition conf_length :: "mem \<Rightarrow> u32 \<Rightarrow> u16" where "conf_length m conf = rd16 m (conf + 4)"
definition conf_version :: "mem \<Rightarrow> u32 \<Rightarrow> u8" where "conf_version m conf = m (conf + 6)"
definition conf_entry :: "mem \<Rightarrow> u32 \<Rightarrow> u16" where "conf_entry m conf = rd16 m (conf + 34)"
definition conf_lapicaddr :: "mem \<Rightarrow> u32 \<Rightarrow> u32" where "conf_lapicaddr m conf = rd32 m (conf + 36)"
definition conf_xlength :: "mem \<Rightarrow> u32 \<Rightarrow> u16" where "conf_xlength m conf = rd16 m (conf + 40)"
definition conf_xchecksum :: "mem \<Rightarrow> u32 \<Rightarrow> u8" where "conf_xchecksum m conf = m (conf + 42)"
definition conf_entries :: "u32 \<Rightarrow> u32" where "conf_entries conf = conf + 44"

definition proc_apicid :: "mem \<Rightarrow> u32 \<Rightarrow> u8" where "proc_apicid m p = m (p + 1)"
definition proc_flags :: "mem \<Rightarrow> u32 \<Rightarrow> u8" where "proc_flags m p = m (p + 3)"
definition MPPROC_SIZE :: u32 where "MPPROC_SIZE = 20"

definition MPPROC_BOOT :: u8 where "MPPROC_BOOT = 0x02"
definition MPPROC :: u8 where "MPPROC = 0x00"
definition MPBUS :: u8 where "MPBUS = 0x01"
definition MPIOAPIC :: u8 where "MPIOAPIC = 0x02"
definition MPIOINTR :: u8 where "MPIOINTR = 0x03"
definition MPLINTR :: u8 where "MPLINTR = 0x04"

section \<open>Search\<close>

definition sum :: "mem \<Rightarrow> u32 \<Rightarrow> nat \<Rightarrow> u8" where
  "sum m addr len = ucast (fold (\<lambda>i s. s + ucast (m (addr + of_nat i))) [0..<len] (0 :: u32))"

text \<open>\<open>memcmp\<close> with a string constant, which gives 0.\<close>

definition sig_is :: "mem \<Rightarrow> u32 \<Rightarrow> string \<Rightarrow> bool" where
  "sig_is m a sig = list_all (\<lambda>i. m (a + of_nat i) = of_char (sig ! i)) [0..<length sig]"

definition mp_valid :: "mem \<Rightarrow> u32 \<Rightarrow> bool" where
  "mp_valid m mp \<longleftrightarrow> sig_is m mp ''_MP_'' \<and> sum m mp (unat MP_SIZE) = 0"

partial_function (option) mpsearch_from :: "mem \<Rightarrow> u32 \<Rightarrow> u32 \<Rightarrow> u32 option" where
  "mpsearch_from m mp lim =
     (if mp < lim then if mp_valid m mp then Some mp else mpsearch_from m (mp + MP_SIZE) lim
      else Some 0)"

definition mpsearch1 :: "mem \<Rightarrow> u32 \<Rightarrow> u32 \<Rightarrow> kstate \<Rightarrow> u32 kres" where
  "mpsearch1 m a len s =
     bindO (kaddr a s) (\<lambda>mp s. bindO (kaddr (a + len) s) (\<lambda>lim s.
       case mpsearch_from m mp lim of None \<Rightarrow> Leave Spinning s | Some r \<Rightarrow> Ret r s))"

definition mpsearch :: "mem \<Rightarrow> kstate \<Rightarrow> u32 kres" where
  "mpsearch m s =
     bindO (kaddr (push_bit 4 0x40) s) (\<lambda>bda s.
       let p = ucast (rd16 m (bda + 0x0E)) in
       bindO (if p \<noteq> 0 then mpsearch1 m (push_bit 4 p) 1024 s
              else let p = ucast (rd16 m (bda + 0x13)) * 1024 in mpsearch1 m (p - 1024) 1024 s) (\<lambda>mp s.
         if mp \<noteq> 0 then Ret mp s else mpsearch1 m 0xF0000 0x10000 s))"

text \<open>The structure and the table; \<open>None\<close> is the null pointer.\<close>

definition mpconfig :: "mem \<Rightarrow> kstate \<Rightarrow> (u32 \<times> u32) option kres" where
  "mpconfig m s =
     bindO (mpsearch m s) (\<lambda>mp s.
       if mp = 0 then Ret None s
       else if mp_physaddr m mp = 0 \<or> mp_type m mp \<noteq> 0
         then Ret None (kputs (nl (chars ''SMP: Default configurations not implemented'')) s)
       else bindO (kaddr (mp_physaddr m mp) s) (\<lambda>conf s.
         if \<not> sig_is m conf ''PCMP''
           then Ret None (kputs (nl (chars ''SMP: Incorrect MP configuration table signature'')) s)
         else if sum m conf (unat (conf_length m conf)) \<noteq> 0
           then Ret None (kputs (nl (chars ''SMP: Bad MP configuration checksum'')) s)
         else if conf_version m conf \<noteq> 1 \<and> conf_version m conf \<noteq> 4
           then bindO (print_all [(nl (chars ''SMP: Unsupported MP version %d''), [ucast (conf_version m conf)])] s)
             (\<lambda>_ s. Ret None s)
         else if sum m (conf + ucast (conf_length m conf)) (unat (conf_xlength m conf)) + conf_xchecksum m conf \<noteq> 0
           then Ret None (kputs (nl (chars ''SMP: Bad MP configuration extended checksum'')) s)
         else Ret (Some (mp, conf)) s))"

section \<open>Evaluation\<close>

text \<open>The variables of kern/mpconfig.c and kern/lapic.c; \<open>bootcpu\<close> is an index of \<open>cpus\<close>.\<close>

record mpvars =
  bootcpu :: nat
  ismp :: bool
  ncpu :: nat
  lapicaddr :: u32
  lapic :: u32
  lapic_log :: "(nat \<times> u32) list"

definition upd_cpu :: "nat \<Rightarrow> (CpuInfo \<Rightarrow> CpuInfo) \<Rightarrow> kstate \<Rightarrow> kstate" where
  "upd_cpu i f s = s\<lparr>cpus := (cpus s)(i := f (cpus s i))\<rparr>"

text \<open>The loop over the entries, \<open>n\<close> of which are left, at address \<open>p\<close>.\<close>

fun mp_entries :: "mem \<Rightarrow> nat \<Rightarrow> u32 \<Rightarrow> mpvars \<Rightarrow> kstate \<Rightarrow> mpvars kres" where
  "mp_entries m 0 p v s = Ret v s"
| "mp_entries m (Suc n) p v s =
     (let ty = m p in
      if ty = MPPROC then
        let v = (if proc_flags m p AND MPPROC_BOOT \<noteq> 0 then v\<lparr>bootcpu := ncpu v\<rparr> else v) in
        if ncpu v < NCPU
        then mp_entries m n (p + MPPROC_SIZE) (v\<lparr>ncpu := ncpu v + 1\<rparr>)
               (upd_cpu (ncpu v) (\<lambda>c. c\<lparr>cpu_id := of_nat (ncpu v)\<rparr>) s)
        else bindO (print_all [(nl (chars ''SMP: too many CPUs, CPU %d disabled''), [ucast (proc_apicid m p)])] s)
               (\<lambda>_ s. mp_entries m n (p + MPPROC_SIZE) v s)
      else if ty = MPBUS \<or> ty = MPIOAPIC \<or> ty = MPIOINTR \<or> ty = MPLINTR then mp_entries m n (p + 8) v s
      else bindO (print_all [(nl (chars ''mpinit: unknown config type %x''), [ucast ty])] s)
             (\<lambda>_ s. Ret (v\<lparr>ismp := False\<rparr>) s))"

text \<open>\<open>in23\<close> is what port 0x23 delivers.\<close>

definition mp_init :: "mem \<Rightarrow> u8 \<Rightarrow> mpvars \<Rightarrow> kstate \<Rightarrow> mpvars kres" where
  "mp_init m in23 v s =
     (let v = v\<lparr>bootcpu := 0\<rparr> in
      bindO (mpconfig m s) (\<lambda>r s.
        case r of
          None \<Rightarrow> Ret v s
        | Some (mp, conf) \<Rightarrow>
            let v = v\<lparr>ismp := True, lapicaddr := conf_lapicaddr m conf\<rparr> in
            bindO (mp_entries m (unat (conf_entry m conf)) (conf_entries conf) v s) (\<lambda>v s.
              let s = upd_cpu (bootcpu v) (\<lambda>c. c\<lparr>cpu_status := CPU_STARTED\<rparr>) s in
              if \<not> ismp v
              then Ret (v\<lparr>ncpu := 1, lapicaddr := 0\<rparr>)
                     (kputs (nl (chars ''SMP: configuration not found, SMP disabled'')) s)
              else bindO (print_all [(nl (chars ''SMP: CPU %d found %d CPU(s)''),
                     [ucast (cpu_id (cpus s (bootcpu v))), of_nat (ncpu v)])] s) (\<lambda>_ s.
                if mp_imcrp m mp \<noteq> 0
                then Ret v ((\<lambda>s. s\<lparr>cons := outb 0x23 (in23 OR 1) (outb 0x22 0x70 (cons s))\<rparr>)
                  (kputs (nl (chars ''SMP: Setting IMCR to switch from PIC mode to symmetric I/O mode'')) s))
                else Ret v s))))"

section \<open>The local APIC\<close>

text \<open>The registers by their index.\<close>

definition LAPIC_ID :: nat where "LAPIC_ID = 0x0020 div 4"
definition LAPIC_VER :: nat where "LAPIC_VER = 0x0030 div 4"
definition TPR :: nat where "TPR = 0x0080 div 4"
definition EOI :: nat where "EOI = 0x00B0 div 4"
definition SVR :: nat where "SVR = 0x00F0 div 4"
definition ESR :: nat where "ESR = 0x0280 div 4"
definition ICRLO :: nat where "ICRLO = 0x0300 div 4"
definition ICRHI :: nat where "ICRHI = 0x0310 div 4"
definition LVT_TIMER :: nat where "LVT_TIMER = 0x0320 div 4"
definition PCINT :: nat where "PCINT = 0x0340 div 4"
definition LINT0 :: nat where "LINT0 = 0x0350 div 4"
definition LINT1 :: nat where "LINT1 = 0x0360 div 4"
definition LVT_ERROR :: nat where "LVT_ERROR = 0x0370 div 4"
definition TICR :: nat where "TICR = 0x0380 div 4"
definition TDCR :: nat where "TDCR = 0x03E0 div 4"

definition APIC_ENABLE :: u32 where "APIC_ENABLE = 0x100"
definition APIC_INIT :: u32 where "APIC_INIT = 0x500"
definition APIC_STARTUP :: u32 where "APIC_STARTUP = 0x600"
definition APIC_ASSERT :: u32 where "APIC_ASSERT = 0x4000"
definition APIC_LEVEL :: u32 where "APIC_LEVEL = 0x8000"
definition APIC_BCAST :: u32 where "APIC_BCAST = 0x80000"
definition APIC_OTHERS :: u32 where "APIC_OTHERS = 0xC0000"
definition APIC_FIXED :: u32 where "APIC_FIXED = 0"
definition APIC_X1 :: u32 where "APIC_X1 = 0xB"
definition APIC_PERIODIC :: u32 where "APIC_PERIODIC = 0x20000"
definition APIC_MASKED :: u32 where "APIC_MASKED = 0x10000"
definition IRQ_ERROR :: u32 where "IRQ_ERROR = 19"

definition lapicw :: "nat \<Rightarrow> u32 \<Rightarrow> mpvars \<Rightarrow> mpvars" where
  "lapicw index value v = v\<lparr>lapic_log := (index, value) # lapic_log v\<rparr>"

text \<open>
  \<open>ver\<close> is what the version register reads. That an interrupt has been delivered, for which the code
  waits, is not represented.
\<close>

definition lapic_init :: "u32 \<Rightarrow> mpvars \<Rightarrow> kstate \<Rightarrow> mpvars kres" where
  "lapic_init ver v s =
     (if lapicaddr v = 0 then Ret v s
      else bindO (mmio_map_region (lapicaddr v) 4096 s) (\<lambda>va s.
        let v = v\<lparr>lapic := va\<rparr>;
            v = lapicw SVR (APIC_ENABLE OR (IRQ_OFFSET + of_nat IRQ_SPURIOUS)) v;
            v = lapicw TDCR APIC_X1 v;
            v = lapicw LVT_TIMER (APIC_PERIODIC OR (IRQ_OFFSET + of_nat IRQ_TIMER)) v;
            v = lapicw TICR 10000000 v;
            v = (if this_cpu s \<noteq> bootcpu v then lapicw LINT0 APIC_MASKED v else v);
            v = lapicw LINT1 APIC_MASKED v;
            v = (if 4 \<le> drop_bit 16 ver AND 0xFF then lapicw PCINT APIC_MASKED v else v);
            v = lapicw LVT_ERROR (IRQ_OFFSET + IRQ_ERROR) v;
            v = lapicw ESR 0 v;
            v = lapicw ESR 0 v;
            v = lapicw EOI 0 v;
            v = lapicw ICRHI 0 v;
            v = lapicw ICRLO ((APIC_BCAST OR APIC_INIT) OR APIC_LEVEL) v
        in Ret (lapicw TPR 0 v) s))"

text \<open>\<open>id_reg\<close> is what the identification register reads.\<close>

definition cpunum :: "u32 \<Rightarrow> mpvars \<Rightarrow> int" where
  "cpunum id_reg v = (if lapic v \<noteq> 0 then sint (drop_bit 24 id_reg) else 0)"

definition lapic_eoi :: "mpvars \<Rightarrow> mpvars" where
  "lapic_eoi v = (if lapic v \<noteq> 0 then lapicw EOI 0 v else v)"

definition lapic_startap :: "u8 \<Rightarrow> u32 \<Rightarrow> mpvars \<Rightarrow> kstate \<Rightarrow> mpvars kres" where
  "lapic_startap apicid addr v s =
     (let s = s\<lparr>cons := outb 0x71 0x0A (outb 0x70 0xF (cons s))\<rparr> in
      bindO (kaddr (push_bit 4 0x40 OR 0x67) s) (\<lambda>wrv s.
        let f = kva_frame wrv; off = unat (PGOFF wrv);
            s = wr_byte f (off + 1) 0 (wr_byte f off 0 s);
            w = (ucast (drop_bit 4 addr) :: u16);
            s = wr_byte f (off + 3) (ucast (drop_bit 8 w)) (wr_byte f (off + 2) (ucast w) s);
            v = lapicw ICRHI (push_bit 24 (ucast apicid)) v;
            v = lapicw ICRLO ((APIC_INIT OR APIC_LEVEL) OR APIC_ASSERT) v;
            v = lapicw ICRLO (APIC_INIT OR APIC_LEVEL) v;
            startup = (\<lambda>v. lapicw ICRLO (APIC_STARTUP OR drop_bit 12 addr)
                        (lapicw ICRHI (push_bit 24 (ucast apicid)) v))
        in Ret (startup (startup v)) s))"

definition lapic_ipi :: "u32 \<Rightarrow> mpvars \<Rightarrow> mpvars" where
  "lapic_ipi vector v = lapicw ICRLO ((APIC_OTHERS OR APIC_FIXED) OR vector) v"

section \<open>What the search accepts\<close>

lemma sum_bytes: "uint (sum m a n) = (\<Sum>i<n. uint (m (a + of_nat i))) mod 256"
proof -
  let ?w = "fold (\<lambda>i s. s + ucast (m (a + of_nat i))) [0..<n] (0 :: u32)"
  define S where "S = (\<Sum>i<n. uint (m (a + of_nat i)))"
  have "?w = of_int S"
    unfolding S_def by (induction n) (simp_all add: add.commute)
  then have "uint ?w = take_bit 32 S" by (simp add: uint_word_of_int take_bit_eq_mod)
  moreover have "uint (sum m a n) = take_bit 8 (uint ?w)"
    unfolding sum_def by (simp add: unsigned_ucast_eq)
  ultimately have "uint (sum m a n) = take_bit 8 S" by (simp add: take_bit_take_bit)
  then show ?thesis by (simp add: take_bit_eq_mod S_def)
qed

lemma mpsearch_from_valid:
  assumes "mpsearch_from m mp lim = Some r"
  shows "r = 0 \<or> mp_valid m r"
proof -
  define P where "P = (\<lambda>(m :: mem) (mp :: u32) (lim :: u32) r. r = 0 \<or> mp_valid m r)"
  have "P m mp lim r"
    by (rule mpsearch_from.raw_induct [of P, OF _ assms]) (auto simp: P_def split: if_splits)
  then show ?thesis by (simp add: P_def)
qed

lemma mpsearch1_valid: "mpsearch1 m a len s = Ret r t \<Longrightarrow> t = s \<and> (r = 0 \<or> mp_valid m r)"
  by (auto simp: mpsearch1_def kaddr_def bindO_eq_Ret dest: mpsearch_from_valid split: option.splits if_splits)

lemma mpsearch_valid: "mpsearch m s = Ret r t \<Longrightarrow> t = s \<and> (r = 0 \<or> mp_valid m r)"
  by (auto simp: mpsearch_def kaddr_def bindO_eq_Ret Let_def dest!: mpsearch1_valid split: if_splits)

lemma mpconfig_accepts:
  assumes "mpconfig m s = Ret (Some (mp, conf)) t"
  shows "t = s" "mpsearch m s = Ret mp s" "mp \<noteq> 0" "mp_physaddr m mp \<noteq> 0" "mp_type m mp = 0"
    "conf = mp_physaddr m mp + KERNBASE" "sig_is m conf ''PCMP''" "sum m conf (unat (conf_length m conf)) = 0"
    "conf_version m conf \<in> {1, 4}"
    "sum m (conf + ucast (conf_length m conf)) (unat (conf_xlength m conf)) + conf_xchecksum m conf = 0"
proof -
  from assms obtain u where "mpsearch m s = Ret mp u" "t = u" by (auto simp: mpconfig_def bindO_eq_Ret kaddr_def split: if_splits)
  with mpsearch_valid show "t = s" "mpsearch m s = Ret mp s" by auto
  from assms show "mp \<noteq> 0" "mp_physaddr m mp \<noteq> 0" "mp_type m mp = 0"
    "conf = mp_physaddr m mp + KERNBASE" "sig_is m conf ''PCMP''" "sum m conf (unat (conf_length m conf)) = 0"
    "conf_version m conf \<in> {1, 4}"
    "sum m (conf + ucast (conf_length m conf)) (unat (conf_xlength m conf)) + conf_xchecksum m conf = 0"
    by (auto simp: mpconfig_def bindO_eq_Ret kaddr_def split: if_splits)
qed

text \<open>
  A configuration table is accepted only if all checks hold: a structure with its signature whose 16
  bytes add up to 0, which names the table; the table's signature; a table whose bytes add up to 0; a
  version that is known; and an extended table that fits its checksum. Searching does not change the
  state of the kernel then.
\<close>

theorem mpconfig_checks:
  assumes "mpconfig m s = Ret (Some (mp, conf)) t"
  shows "t = s \<and> sig_is m mp ''_MP_'' \<and> (\<Sum>i<16. uint (m (mp + of_nat i))) mod 256 = 0 \<and>
    mp_type m mp = 0 \<and> mp_physaddr m mp \<noteq> 0 \<and> conf = mp_physaddr m mp + KERNBASE \<and> sig_is m conf ''PCMP'' \<and>
    (\<Sum>i<unat (conf_length m conf). uint (m (conf + of_nat i))) mod 256 = 0 \<and>
    conf_version m conf \<in> {1, 4} \<and>
    sum m (conf + ucast (conf_length m conf)) (unat (conf_xlength m conf)) + conf_xchecksum m conf = 0"
proof -
  note a = mpconfig_accepts [OF assms]
  from mpsearch_valid [OF a(2)] a(3) have "sig_is m mp ''_MP_''" "sum m mp 16 = 0"
    by (auto simp: mp_valid_def MP_SIZE_def)
  with a show ?thesis
    using sum_bytes [of m mp 16] sum_bytes [of m conf "unat (conf_length m conf)"] by auto
qed

section \<open>The CPUs found\<close>

lemma cprintf_kputch: "cprintf fmt args s = Ret r t \<Longrightarrow> \<exists>cs. t = fold kputch cs s"
  using console.vprintfmt_hom [where x = "[]" and s = s and rd = "rd_kernel s" and args = args and fmt = fmt and ap = 0]
  by (cases "vprintfmt collect (rd_kernel s) args fmt 0 []") (auto simp: cprintf_def vcprintf_def bindO_eq_Ret)

lemma print_all_kputch: "print_all ps s = Ret () t \<Longrightarrow> \<exists>cs. t = fold kputch cs s"
proof (induction ps s rule: print_all.induct)
  case (2 fmt args ps s)
  then obtain r u where u: "cprintf fmt (\<lambda>i. if i < length args then args ! i else 0) s = Ret r u"
    "print_all ps u = Ret () t" by (auto simp: bindO_eq_Ret)
  from "2.IH" [OF u] cprintf_kputch [OF u(1)] obtain cs cs' where "t = fold kputch cs u" "u = fold kputch cs' s"
    by blast
  then have "t = fold kputch (cs' @ cs) s" by simp
  then show ?case by blast
qed (auto intro: exI [of _ "[]"])

lemma kputch_frame [simp]: "cpus (fold kputch cs s) = cpus s" "cpus (kputs ds s) = cpus s"
  "this_cpu (fold kputch cs s) = this_cpu s" "this_cpu (kputs ds s) = this_cpu s"
  by (induction cs arbitrary: s, simp_all add: kputch_def)
    (induction ds arbitrary: s, simp_all add: kputs_def kputch_def)+

lemma print_all_cpus: "print_all ps s = Ret () t \<Longrightarrow> cpus t = cpus s"
  using print_all_kputch by fastforce

lemma mp_entries_ok:
  "mp_entries m n p v s = Ret v' t \<Longrightarrow> ncpu v \<le> NCPU \<Longrightarrow> bootcpu v \<le> NCPU \<Longrightarrow>
    (\<forall>i<ncpu v. cpu_id (cpus s i) = of_nat i) \<Longrightarrow> cpu_id (cpus s 0) = 0 \<Longrightarrow>
    ncpu v' \<le> NCPU \<and> bootcpu v' \<le> NCPU \<and> (\<forall>i<ncpu v'. cpu_id (cpus t i) = of_nat i) \<and> cpu_id (cpus t 0) = 0"
proof (induction m n p v s arbitrary: t rule: mp_entries.induct)
  case (2 m n p v s)
  define w where "w = (if proc_flags m p AND MPPROC_BOOT \<noteq> 0 then v\<lparr>bootcpu := ncpu v\<rparr> else v)"
  have w: "ncpu w = ncpu v" "bootcpu w \<le> NCPU" using "2.prems"(2,3) by (simp_all add: w_def)
  consider "m p = MPPROC" "ncpu v < NCPU" | "m p = MPPROC" "\<not> ncpu v < NCPU"
    | "m p \<noteq> MPPROC" "m p = MPBUS \<or> m p = MPIOAPIC \<or> m p = MPIOINTR \<or> m p = MPLINTR"
    | "m p \<noteq> MPPROC" "\<not> (m p = MPBUS \<or> m p = MPIOAPIC \<or> m p = MPIOINTR \<or> m p = MPLINTR)" by blast
  then show ?case
  proof cases
    case 1
    let ?v = "w\<lparr>ncpu := ncpu w + 1\<rparr>" and ?s = "upd_cpu (ncpu w) (\<lambda>c. c\<lparr>cpu_id := of_nat (ncpu w)\<rparr>) s"
    have "mp_entries m n (p + MPPROC_SIZE) ?v ?s = Ret v' t"
      using "2.prems"(1) 1 w by (simp add: w_def Let_def)
    moreover have "\<forall>i<ncpu ?v. cpu_id (cpus ?s i) = of_nat i"
      using "2.prems"(4) w by (simp add: upd_cpu_def less_Suc_eq)
    moreover have "cpu_id (cpus ?s 0) = 0" using "2.prems"(5) by (simp add: upd_cpu_def)
    ultimately show ?thesis using "2.IH"(1) [OF refl 1(1) w_def] 1(2) w by (simp add: Suc_le_eq)
  next
    case 2
    then obtain u where "print_all [(nl (chars ''SMP: too many CPUs, CPU %d disabled''), [ucast (proc_apicid m p)])] s = Ret () u"
      "mp_entries m n (p + MPPROC_SIZE) w u = Ret v' t"
      using "2.prems"(1) w by (auto simp: w_def Let_def bindO_eq_Ret)
    note u = this
    have "\<forall>i<ncpu w. cpu_id (cpus u i) = of_nat i" using print_all_cpus [OF u(1)] "2.prems"(4) w(1) by simp
    moreover have "cpu_id (cpus u 0) = 0" using print_all_cpus [OF u(1)] "2.prems"(5) by simp
    moreover have "\<not> ncpu w < NCPU" "ncpu w \<le> NCPU" using 2(2) w(1) "2.prems"(2) by simp_all
    ultimately show ?thesis using "2.IH"(2) [OF refl 2(1) w_def _ u] w(2) by simp
  next
    case 3
    then show ?thesis using "2.IH"(3) [OF refl 3] "2.prems" by (simp add: Let_def)
  next
    case 4
    then show ?thesis
      using "2.prems" print_all_cpus by (auto simp: Let_def bindO_eq_Ret simp del: print_all.simps)
  qed
qed simp

text \<open>
  C33: After \<open>mp_init\<close> at most \<open>NCPU\<close> CPUs count, and the identifier of each is its place in the table of
  CPUs, whatever the tables of the BIOS hold and whether they are accepted, and in the fallback to one
  CPU too. The boot CPU is an entry of the table of CPUs, or the place just after it if the tables name a
  processor after the eighth as the boot processor.
\<close>

theorem mp_init_cpus:
  assumes "mp_init m in23 v s = Ret v' t" "ncpu v = 0" "cpu_id (cpus s 0) = 0"
  shows "ncpu v' \<le> NCPU \<and> bootcpu v' \<le> NCPU \<and> (\<forall>i<ncpu v'. cpu_id (cpus t i) = of_nat i)"
proof -
  from assms(1) obtain r u where u: "mpconfig m s = Ret r u" by (auto simp: mp_init_def bindO_eq_Ret Let_def)
  show ?thesis
  proof (cases r)
    case None
    with assms u show ?thesis by (auto simp: mp_init_def Let_def)
  next
    case (Some c)
    then obtain mp conf where r: "r = Some (mp, conf)" by (cases c) auto
    with u have "u = s" using mpconfig_accepts(1) by blast
    let ?v = "v\<lparr>bootcpu := 0, ismp := True, lapicaddr := conf_lapicaddr m conf\<rparr>"
    from assms(1) u r obtain w z where
      z: "mp_entries m (unat (conf_entry m conf)) (conf_entries conf) ?v u = Ret w z"
      by (auto simp: mp_init_def bindO_eq_Ret Let_def)
    have e: "ncpu w \<le> NCPU \<and> bootcpu w \<le> NCPU \<and> (\<forall>i<ncpu w. cpu_id (cpus z i) = of_nat i) \<and> cpu_id (cpus z 0) = 0"
      using mp_entries_ok [OF z] assms(2,3) \<open>u = s\<close> by (simp add: NCPU_def)
    let ?z = "upd_cpu (bootcpu w) (\<lambda>c. c\<lparr>cpu_status := CPU_STARTED\<rparr>) z"
    have id: "cpu_id (cpus ?z i) = cpu_id (cpus z i)" for i by (simp add: upd_cpu_def)
    have rest: "(if \<not> ismp w
        then Ret (w\<lparr>ncpu := 1, lapicaddr := 0\<rparr>) (kputs (nl (chars ''SMP: configuration not found, SMP disabled'')) ?z)
        else bindO (print_all [(nl (chars ''SMP: CPU %d found %d CPU(s)''),
            [ucast (cpu_id (cpus ?z (bootcpu w))), of_nat (ncpu w)])] ?z) (\<lambda>_ s.
          if mp_imcrp m mp \<noteq> 0
          then Ret w ((\<lambda>s. s\<lparr>cons := outb 0x23 (in23 OR 1) (outb 0x22 0x70 (cons s))\<rparr>)
            (kputs (nl (chars ''SMP: Setting IMCR to switch from PIC mode to symmetric I/O mode'')) s))
          else Ret w s)) = Ret v' t"
      using assms(1) by (simp add: mp_init_def u r z Let_def del: print_all.simps)
    show ?thesis
    proof (cases "ismp w")
      case True
      with rest obtain y where y: "print_all [(nl (chars ''SMP: CPU %d found %d CPU(s)''),
            [ucast (cpu_id (cpus ?z (bootcpu w))), of_nat (ncpu w)])] ?z = Ret () y" "v' = w" "cpus t = cpus y"
        by (auto simp: bindO_eq_Ret simp del: print_all.simps split: if_splits)
      with print_all_cpus [OF y(1)] e id show ?thesis by simp
    next
      case False
      with rest have "v' = w\<lparr>ncpu := 1, lapicaddr := 0\<rparr>" "cpus t = cpus ?z" by auto
      with e id show ?thesis by (simp add: NCPU_def)
    qed
  qed
qed

section \<open>Witnesses\<close>

text \<open>A structure at 0x9FC00, which the data area of the BIOS names, and a table with one processor.\<close>

definition mp_bytes :: "u8 list" where
  "mp_bytes = [0x5F, 0x4D, 0x50, 0x5F, 0x10, 0xFC, 9, 0, 1, 4, 139, 0, 0, 0, 0, 0,
     0x50, 0x43, 0x4D, 0x50, 64, 0, 4, 170, 0, 0, 0, 0, 0, 0, 0, 0, 0, 0, 0, 0, 0, 0, 0, 0, 0, 0, 0, 0, 0, 0, 0, 0,
     0, 0, 1, 0, 0, 0, 0xE0, 0xFE, 0, 0, 0, 0, 0, 0, 0, 3]"

definition mp_mem :: mem where
  "mp_mem a =
     (if a = 0xF000040E then 0xC0 else if a = 0xF000040F then 0x9F
      else if unat (a - 0xF009FC00) < 64 then mp_bytes ! unat (a - 0xF009FC00) else 0)"

definition mp_state :: kstate where "mp_state = bss_state\<lparr>npages := 1024\<rparr>"

definition mp_vars :: mpvars where
  "mp_vars = \<lparr>bootcpu = 0, ismp = False, ncpu = 0, lapicaddr = 0, lapic = 0, lapic_log = []\<rparr>"

lemma mp_mem_values:
  "rd16 mp_mem 0xF000040E = 0x9FC0" "mp_valid mp_mem 0xF009FC00" "mp_physaddr mp_mem 0xF009FC00 = 0x9FC10"
  "mp_type mp_mem 0xF009FC00 = 0" "sig_is mp_mem 0xF009FC10 ''PCMP''" "conf_length mp_mem 0xF009FC10 = 64"
  "conf_version mp_mem 0xF009FC10 = 4" "conf_xlength mp_mem 0xF009FC10 = 0" "conf_xchecksum mp_mem 0xF009FC10 = 0"
  "conf_entry mp_mem 0xF009FC10 = 1"
  subgoal by (simp add: rd16_def le16_def mp_mem_def)
  subgoal by (simp add: mp_valid_def sig_is_def sum_def mp_mem_def mp_bytes_def MP_SIZE_def upt_rec)
  subgoal by (simp add: mp_physaddr_def rd32_def le32_def mp_mem_def mp_bytes_def)
  subgoal by (simp add: mp_type_def mp_mem_def mp_bytes_def)
  subgoal by (simp add: sig_is_def mp_mem_def mp_bytes_def upt_rec)
  subgoal by (simp add: conf_length_def rd16_def le16_def mp_mem_def mp_bytes_def)
  subgoal by (simp add: conf_version_def mp_mem_def mp_bytes_def)
  subgoal by (simp add: conf_xlength_def rd16_def le16_def mp_mem_def mp_bytes_def)
  subgoal by (simp add: conf_xchecksum_def mp_mem_def mp_bytes_def)
  subgoal by (simp add: conf_entry_def rd16_def le16_def mp_mem_def mp_bytes_def)
  done

lemma mp_conf_sum:
  "sum mp_mem 0xF009FC10 64 = 0" "sum mp_mem 0xF009FC50 0 = 0"
  subgoal by (simp add: sum_def mp_mem_def mp_bytes_def upt_rec)
  subgoal by (simp add: sum_def)
  done

lemma mp_config_found: "mpconfig mp_mem mp_state = Ret (Some (0xF009FC00, 0xF009FC10)) mp_state"
proof -
  have k: "kaddr a mp_state = Ret (a + KERNBASE) mp_state" if "a < 0x400000" for a
  proof -
    have "unat (PGNUM a) < 1024" using that by (simp add: unat_PGNUM word_less_nat_alt)
    then show ?thesis by (simp add: kaddr_def mp_state_def)
  qed
  have "mpsearch_from mp_mem 0xF009FC00 0xF00A0000 = Some 0xF009FC00"
    by (subst mpsearch_from.simps) (simp add: mp_mem_values(2))
  then have "mpsearch mp_mem mp_state = Ret 0xF009FC00 mp_state"
    by (simp add: mpsearch_def mpsearch1_def k KERNBASE_def mp_mem_values(1) Let_def)
  then show ?thesis
    by (simp add: mpconfig_def mp_mem_values k KERNBASE_def mp_conf_sum)
qed

theorem mpconfig_checks_witness: "(\<Sum>i<64. uint (mp_mem (0xF009FC10 + of_nat i))) mod 256 = 0"
  using mpconfig_checks [OF mp_config_found] mp_mem_values(6) by simp

lemma mp_formatted:
  "formatted rd (nl (chars ''SMP: CPU %d found %d CPU(s)'')) (\<lambda>i. if i < length [0, 1] then [0, 1] ! i else 0) =
    Ret () (map ucast (nl (chars ''SMP: CPU 0 found 1 CPU(s)'')))"
  by (simp add: printf_eval nl_def, simp add: word_le_nat_alt)

theorem mp_init_cpus_witness:
  "\<exists>v t. mp_init mp_mem 0 mp_vars mp_state = Ret v t \<and> ncpu v = 1 \<and> cpu_id (cpus t 0) = 0"
proof -
  have e: "mp_mem 0xF009FC3C = MPPROC" "proc_flags mp_mem 0xF009FC3C = 3" "mp_imcrp mp_mem 0xF009FC00 = 0"
    "conf_entries 0xF009FC10 = 0xF009FC3C" "ncpu mp_vars = 0"
    by (simp_all add: mp_mem_def mp_bytes_def MPPROC_def proc_flags_def mp_imcrp_def conf_entries_def mp_vars_def)
  note c = cprintf_prints_and_returns_0 [OF mp_formatted]
  have "\<exists>v t. mp_init mp_mem 0 mp_vars mp_state = Ret v t \<and> ncpu v = 1"
    using c
    by (simp add: mp_init_def mp_config_found mp_mem_values Let_def e conf_entries_def  NCPU_def MPPROC_BOOT_def
      upd_cpu_def cong: if_cong)
  then obtain v t where r: "mp_init mp_mem 0 mp_vars mp_state = Ret v t" "ncpu v = 1" by blast
  have "ncpu mp_vars = 0" "cpu_id (cpus mp_state 0) = 0"
    by (simp_all add: mp_vars_def mp_state_def bss_state_def zero_CpuInfo_def)
  from mp_init_cpus [OF r(1) this] r show ?thesis by auto
qed

end
