(* ===== verification/Jos_KernMap.thy ===== *)
theory Jos_KernMap
  imports Jos_Mp
begin

text \<open>
  The address space of the kernel (the second half of \<open>mem_init\<close>, \<open>mem_init_mp\<close> and
  \<open>check_kern_pgdir\<close> of kern/pmap.c): the regions above \<open>UTOP\<close> are entered into the page directory of
  the kernel by \<open>boot_map_region\<close>, the page tables come from the free list.
\<close>

section \<open>Operations\<close>

text \<open>The addresses the linker gives to \<open>end\<close>, \<open>pages\<close>, \<open>bootstack\<close> and \<open>percpu_kstacks\<close>.\<close>

record bootsyms =
  sym_kend :: u32
  sym_pages :: u32
  sym_bootstack :: u32
  sym_kstacks :: u32

text \<open>The sizes of \<open>struct PageInfo\<close> and \<open>struct Env\<close>.\<close>

definition PageInfo_size :: u32 where "PageInfo_size = 8"
definition Env_size :: u32 where "Env_size = 124"

definition percpu_kstack :: "bootsyms \<Rightarrow> nat \<Rightarrow> u32" where
  "percpu_kstack b i = sym_kstacks b + of_nat i * KSTKSIZE"

definition mem_init_mp :: "bootsyms \<Rightarrow> kstate \<Rightarrow> unit kres" where
  "mem_init_mp b s =
     forO (\<lambda>i s. bindO (paddr (percpu_kstack b i) s) (\<lambda>pa s.
       boot_map_region (kern_pgdir s) ((KSTACKTOP - of_nat i * (KSTKSIZE + KSTKGAP)) - KSTKSIZE) KSTKSIZE pa
         (PTE_P OR PTE_W) s)) [0..<NCPU] s"

text \<open>
  The part of \<open>mem_init\<close> that sets up virtual memory; \<open>pages_va\<close> and \<open>envs_va\<close> are the addresses of the
  two arrays.
\<close>

definition mem_init_map :: "bootsyms \<Rightarrow> u32 \<Rightarrow> u32 \<Rightarrow> kstate \<Rightarrow> unit kres" where
  "mem_init_map b pages_va envs_va s =
     bindO (paddr pages_va s) (\<lambda>pa s.
     bindO (boot_map_region (kern_pgdir s) UPAGES (ROUNDUP (of_nat (npages s) * PageInfo_size) PGSIZE) pa
              (PTE_U OR PTE_P) s) (\<lambda>_ s.
     bindO (paddr (sym_bootstack b) s) (\<lambda>pa s.
     bindO (boot_map_region (kern_pgdir s) (KSTACKTOP - KSTKSIZE) KSTKSIZE pa (PTE_W OR PTE_P) s) (\<lambda>_ s.
     bindO (mem_init_mp b s) (\<lambda>_ s.
     bindO (boot_map_region (kern_pgdir s) KERNBASE (0xFFFFFFFF - KERNBASE) 0 (PTE_W OR PTE_P) s) (\<lambda>_ s.
     bindO (paddr envs_va s) (\<lambda>pa s.
       boot_map_region (kern_pgdir s) UENVS (ROUNDUP (of_nat NENV * Env_size) PGSIZE) pa (PTE_U OR PTE_P) s)))))))"

definition check :: "bool \<Rightarrow> kstate \<Rightarrow> unit kres" where
  "check b s = (if b then Ret () s else Panic ''assertion failed'')"

text \<open>A test that the address \<open>va\<close> is mapped to the physical address \<open>pa\<close>.\<close>

definition check_mapped :: "u32 \<Rightarrow> u32 \<Rightarrow> kstate \<Rightarrow> unit kres" where
  "check_mapped va pa s = bindO (check_va2pa (kern_pgdir s) va s) (\<lambda>r s. check (r = pa) s)"

definition page_offsets :: "u32 \<Rightarrow> u32 list" where
  "page_offsets n = map (\<lambda>k. of_nat k * PGSIZE) [0..<unat (n div PGSIZE)]"

definition check_stack :: "bootsyms \<Rightarrow> nat \<Rightarrow> kstate \<Rightarrow> unit kres" where
  "check_stack b n s =
     (let base = KSTACKTOP - (KSTKSIZE + KSTKGAP) * (of_nat n + 1) in
      bindO (forO (\<lambda>i s. bindO (paddr (percpu_kstack b n) s) (\<lambda>pa s. check_mapped (base + KSTKGAP + i) (pa + i) s))
               (page_offsets KSTKSIZE) s) (\<lambda>_ s.
        forO (\<lambda>i s. check_mapped (base + i) (NOT 0) s) (page_offsets KSTKGAP) s))"

definition check_pde :: "nat \<Rightarrow> kstate \<Rightarrow> unit kres" where
  "check_pde i s =
     (let e = kmem s (kern_pgdir s) i in
      if i \<in> {unat (PDX UVPT), unat (PDX (KSTACKTOP - 1)), unat (PDX UPAGES), unat (PDX UENVS), unat (PDX MMIOBASE)}
      then check (e AND PTE_P \<noteq> 0) s
      else if unat (PDX KERNBASE) \<le> i
      then bindO (check (e AND PTE_P \<noteq> 0) s) (\<lambda>_ s. check (e AND PTE_W \<noteq> 0) s)
      else check (e = 0) s)"

definition check_kern_pgdir :: "bootsyms \<Rightarrow> u32 \<Rightarrow> u32 \<Rightarrow> kstate \<Rightarrow> unit kres" where
  "check_kern_pgdir b pages_va envs_va s =
     bindO (forO (\<lambda>i s. bindO (paddr pages_va s) (\<lambda>pa s. check_mapped (UPAGES + i) (pa + i) s))
              (page_offsets (ROUNDUP (of_nat (npages s) * PageInfo_size) PGSIZE)) s) (\<lambda>_ s.
     bindO (forO (\<lambda>i s. bindO (paddr envs_va s) (\<lambda>pa s. check_mapped (UENVS + i) (pa + i) s))
              (page_offsets (ROUNDUP (of_nat NENV * Env_size) PGSIZE)) s) (\<lambda>_ s.
     bindO (forO (\<lambda>i s. check_mapped (KERNBASE + i) i s) (page_offsets (of_nat (npages s) * PGSIZE)) s) (\<lambda>_ s.
     bindO (forO (check_stack b) [0..<NCPU] s) (\<lambda>_ s.
     bindO (forO check_pde [0..<NPDENTRIES] s) (\<lambda>_ s.
       Ret () (kputs (nl (chars ''check_kern_pgdir() succeeded!'')) s))))))"

section \<open>A page directory under construction\<close>

text \<open>
  The slot for \<open>UVPT\<close> holds the directory itself; every other slot is empty or points to a page table of
  its own, which is accessible to user mode and writable at this level and not on the free list.
\<close>

abbreviation UV :: nat where "UV \<equiv> unat (PDX UVPT)"

definition dir_ok :: "kstate \<Rightarrow> nat list \<Rightarrow> nat \<Rightarrow> bool" where
  "dir_ok s xs pd \<longleftrightarrow> free_pages_ok s xs \<and> pd < npages s \<and> pd \<notin> set xs \<and>
     (\<forall>i<1024. i \<noteq> UV \<longrightarrow> kmem s pd i = 0 \<or>
        (\<exists>p<npages s. p \<notin> set xs \<and> p \<noteq> pd \<and> kmem s pd i = pde_for p)) \<and>
     (\<forall>i<1024. \<forall>j<1024. i \<noteq> UV \<longrightarrow> j \<noteq> UV \<longrightarrow> has_tbl s pd i \<longrightarrow> has_tbl s pd j \<longrightarrow> tbl s pd i = tbl s pd j \<longrightarrow> i = j)"

text \<open>The directory slots in use, and the entry of the page with number \<open>n\<close>.\<close>

definition tables :: "kstate \<Rightarrow> nat \<Rightarrow> nat set" where "tables s pd = {i. i < 1024 \<and> i \<noteq> UV \<and> has_tbl s pd i}"

definition entry :: "kstate \<Rightarrow> nat \<Rightarrow> nat \<Rightarrow> u32" where
  "entry s pd n = (if has_tbl s pd (n div 1024) then pte s pd (n div 1024) (n mod 1024) else 0)"

text \<open>What is left alone: everything but the free list, the directory, and page tables.\<close>

definition same_but_map :: "nat \<Rightarrow> kstate \<Rightarrow> kstate \<Rightarrow> bool" where
  "same_but_map pd s t \<longleftrightarrow> npages t = npages s \<and> nextfree t = nextfree s \<and> kern_pgdir t = kern_pgdir s \<and> mmio_base t = mmio_base s \<and>
     envs t = envs s \<and> env_free_list t = env_free_list s \<and> cpus t = cpus s \<and> this_cpu t = this_cpu s \<and>
     kernel_lock t = kernel_lock s \<and> cr3 t = cr3 s \<and> cons t = cons s \<and> tlb_flushes t = tlb_flushes s \<and>
     kmem t pd UV = kmem s pd UV"

lemma same_but_map_refl [simp]: "same_but_map pd s s" and
  same_but_map_trans: "same_but_map pd s t \<Longrightarrow> same_but_map pd t u \<Longrightarrow> same_but_map pd s u"
  by (simp_all add: same_but_map_def)

lemma dir_okD:
  assumes "dir_ok s xs pd"
  shows "free_pages_ok s xs" "pd < npages s" "pd \<notin> set xs"
    "i < 1024 \<Longrightarrow> i \<noteq> UV \<Longrightarrow> \<not> has_tbl s pd i \<Longrightarrow> kmem s pd i = 0"
    "i < 1024 \<Longrightarrow> i \<noteq> UV \<Longrightarrow> has_tbl s pd i \<Longrightarrow>
      tbl s pd i < npages s \<and> tbl s pd i \<notin> set xs \<and> tbl s pd i \<noteq> pd \<and> kmem s pd i = pde_for (tbl s pd i)"
    "i < 1024 \<Longrightarrow> j < 1024 \<Longrightarrow> i \<noteq> UV \<Longrightarrow> j \<noteq> UV \<Longrightarrow> has_tbl s pd i \<Longrightarrow> has_tbl s pd j \<Longrightarrow> tbl s pd i = tbl s pd j \<Longrightarrow> i = j"
proof -
  show fr: "free_pages_ok s xs" and "pd < npages s" "pd \<notin> set xs" using assms by (simp_all add: dir_ok_def)
  show "i < 1024 \<Longrightarrow> i \<noteq> UV \<Longrightarrow> \<not> has_tbl s pd i \<Longrightarrow> kmem s pd i = 0"
    using assms by (auto simp: dir_ok_def has_tbl_def)
  show "i < 1024 \<Longrightarrow> j < 1024 \<Longrightarrow> i \<noteq> UV \<Longrightarrow> j \<noteq> UV \<Longrightarrow> has_tbl s pd i \<Longrightarrow> has_tbl s pd j \<Longrightarrow> tbl s pd i = tbl s pd j \<Longrightarrow> i = j"
    using assms by (simp add: dir_ok_def)
  assume i: "i < 1024" "i \<noteq> UV" "has_tbl s pd i"
  then have "kmem s pd i \<noteq> 0" by (auto simp: has_tbl_def)
  with i assms obtain p where p: "p < npages s" "p \<notin> set xs" "p \<noteq> pd" "kmem s pd i = pde_for p"
    by (auto simp: dir_ok_def)
  with fr have "tbl s pd i = p" by (simp add: tbl_def pde_for_frame free_pages_ok_def)
  with p show "tbl s pd i < npages s \<and> tbl s pd i \<notin> set xs \<and> tbl s pd i \<noteq> pd \<and> kmem s pd i = pde_for (tbl s pd i)"
    by simp
qed

text \<open>The walk finds the page table, or takes a new one from the free list.\<close>

lemma dir_walk_hit:
  assumes ok: "dir_ok s xs pd" and i: "unat (PDX va) \<noteq> UV" and h: "has_tbl s pd (unat (PDX va))"
  shows "pgdir_walk pd va c s = Ret (Some (tbl s pd (unat (PDX va)), unat (PTX va))) s"
  using dir_okD(5) [OF ok PDX_less i h] h by (intro walk_present) simp_all

lemma dir_walk_new:
  assumes ok: "dir_ok s (p # ps) pd" and i: "unat (PDX va) \<noteq> UV" and nt: "\<not> has_tbl s pd (unat (PDX va))"
  shows "pgdir_walk pd va True s = Ret (Some (p, unat (PTX va))) (with_tbl p pd (unat (PDX va)) s)"
  by (rule walk_fresh [OF dir_okD(1) [OF ok] dir_okD(4) [OF ok PDX_less i nt]])

text \<open>
  From \<open>s\<close> with free frames \<open>xs\<close> to \<open>t\<close> with free frames \<open>ys\<close> the directory has only grown: page tables
  stay, new ones were free frames, and frames that were in use otherwise are left alone.
\<close>

definition table_frames :: "kstate \<Rightarrow> nat \<Rightarrow> nat set" where "table_frames s pd = tbl s pd ` tables s pd"

definition grows :: "nat \<Rightarrow> kstate \<Rightarrow> nat list \<Rightarrow> kstate \<Rightarrow> nat list \<Rightarrow> bool" where
  "grows pd s xs t ys \<longleftrightarrow> same_but_map pd s t \<and> set ys \<subseteq> set xs \<and>
     table_frames t pd \<subseteq> table_frames s pd \<union> set xs \<and>
     (\<forall>f. f \<noteq> pd \<longrightarrow> f \<notin> set xs \<longrightarrow> f \<notin> table_frames s pd \<longrightarrow> kmem t f = kmem s f \<and> pages t f = pages s f)"

lemma grows_refl: "grows pd s xs s xs" by (auto simp: grows_def)

lemma grows_trans:
  assumes "grows pd s xs t ys" "grows pd t ys u zs"
  shows "grows pd s xs u zs"
proof -
  have "f \<notin> set ys \<and> f \<notin> table_frames t pd" if "f \<notin> set xs" "f \<notin> table_frames s pd" for f
    using that assms(1) by (auto simp: grows_def)
  with assms show ?thesis unfolding grows_def by (auto intro: same_but_map_trans)
qed

lemma dir_new_view:
  assumes ok: "dir_ok s (p # ps) pd"
  shows "has_tbl (with_tbl p pd i s) pd k \<longleftrightarrow> has_tbl s pd k \<or> k = i"
    "tbl (with_tbl p pd i s) pd k = (if k = i then p else tbl s pd k)"
proof -
  have p: "p \<noteq> pd" "p < 2 ^ 20" using dir_okD(1,3) [OF ok] by (auto simp: free_pages_ok_def)
  note w = with_tbl_kmem [OF p(1)] pde_for_frame [OF p(2)]
  show "has_tbl (with_tbl p pd i s) pd k \<longleftrightarrow> has_tbl s pd k \<or> k = i"
    "tbl (with_tbl p pd i s) pd k = (if k = i then p else tbl s pd k)"
    by (auto simp: has_tbl_def tbl_def w)
qed

lemma dir_new:
  assumes ok: "dir_ok s (p # ps) pd" and i: "i < 1024" "i \<noteq> UV" and nt: "\<not> has_tbl s pd i"
  defines "t \<equiv> with_tbl p pd i s"
  shows "dir_ok t ps pd" "tables t pd = insert i (tables s pd)" "grows pd s (p # ps) t ps"
    "n div 1024 < 1024 \<Longrightarrow> n div 1024 \<noteq> UV \<Longrightarrow> entry t pd n = entry s pd n"
proof -
  note v = dir_new_view [OF ok, of i, folded t_def]
  note d = dir_okD [OF ok]
  have p: "p \<noteq> pd" "p < 2 ^ 20" "p < npages s" "p \<notin> set ps" "pp_ref (pages s p) = 0"
    using d(1,3) free_pages_ok_distinct [OF d(1)] by (auto simp: free_pages_ok_def)
  note w = with_tbl_kmem [OF p(1), where i = i and s = s, folded t_def]
  have np: "npages t = npages s" by (simp add: t_def)
  have old: "tbl s pd k \<noteq> p" if "k < 1024" "k \<noteq> UV" "has_tbl s pd k" for k using d(5) [OF that] by auto
  have fr: "free_pages_ok t ps"
    using free_pages_ok_popped [OF d(1), of 1] p(4)
    by (subst free_pages_ok_cong) (auto simp: t_def with_tbl_def)
  show "dir_ok t ps pd"
    unfolding dir_ok_def
  proof (intro conjI allI impI)
    fix k assume k: "k < 1024" "k \<noteq> UV"
    show "kmem t pd k = 0 \<or> (\<exists>p<npages t. p \<notin> set ps \<and> p \<noteq> pd \<and> kmem t pd k = pde_for p)"
    proof (cases "has_tbl s pd k")
      case True
      with nt k show ?thesis using d(5) [OF k True] by (auto simp: w(3) np)
    next
      case False
      with k show ?thesis using d(4) [OF k False] p by (auto simp: w(3) np)
    qed
    fix j assume "j < 1024" "j \<noteq> UV" "has_tbl t pd k" "has_tbl t pd j" "tbl t pd k = tbl t pd j"
    with k d(6) [of k j] old show "k = j" by (auto simp: v split: if_splits)
  qed (use fr d(2,3) in \<open>simp_all add: np\<close>)
  show T: "tables t pd = insert i (tables s pd)" using i by (auto simp: tables_def v)
  have "\<forall>f. f \<noteq> pd \<longrightarrow> f \<noteq> p \<longrightarrow> kmem t f = kmem s f \<and> pages t f = pages s f"
    using w(2) by (simp add: t_def with_tbl_pages(1))
  moreover have "same_but_map pd s t"
    using i(2) by (simp add: same_but_map_def w(3) np)
      (simp add: t_def with_tbl_def incref_def popped_def upd_page_def wr_word_def zero_page_def Let_def)
  moreover have "table_frames t pd \<subseteq> table_frames s pd \<union> set (p # ps)"
    by (auto simp: table_frames_def T v)
  ultimately show "grows pd s (p # ps) t ps" by (auto simp: grows_def)
  show "entry t pd n = entry s pd n" if "n div 1024 < 1024" "n div 1024 \<noteq> UV"
  proof (cases "has_tbl s pd (n div 1024)")
    case True
    with nt old [OF that True] d(5) [OF that True] show ?thesis
      by (auto simp: entry_def v pte_def w(2))
  next
    case False
    then show ?thesis by (auto simp: entry_def v pte_def w(1))
  qed
qed

lemma split_1024: "j < 1024 \<Longrightarrow> n = i * 1024 + j \<longleftrightarrow> n div 1024 = i \<and> n mod 1024 = (j :: nat)"
  by (auto simp: algebra_simps)

lemma dir_write:
  fixes s :: kstate and v :: u32
  assumes ok: "dir_ok s xs pd" and i: "i < 1024" "i \<noteq> UV" and h: "has_tbl s pd i" and j: "j < 1024"
  defines "t \<equiv> wr_word (tbl s pd i) j v s"
  shows "dir_ok t xs pd" "tables t pd = tables s pd" "grows pd s xs t xs"
    "n div 1024 < 1024 \<Longrightarrow> n div 1024 \<noteq> UV \<Longrightarrow> entry t pd n = (if n = i * 1024 + j then v else entry s pd n)"
proof -
  note d = dir_okD [OF ok]
  note f = d(5) [OF i h]
  have k: "kmem t pd = kmem s pd" using f by (auto simp: t_def wr_word_def)
  have np: "npages t = npages s" "pages t = pages s" "free_pages_ok t xs"
    using d(1) by (simp_all add: t_def wr_word_def) (subst free_pages_ok_cong, auto)
  have v: "has_tbl t pd l = has_tbl s pd l" "tbl t pd l = tbl s pd l" for l by (simp_all add: has_tbl_def tbl_def k)
  show "dir_ok t xs pd" using ok np by (simp add: dir_ok_def k v)
  show T: "tables t pd = tables s pd" by (simp add: tables_def v)
  have "tbl s pd i \<in> table_frames s pd" using i h by (auto simp: table_frames_def tables_def)
  then have "\<forall>f. f \<notin> table_frames s pd \<longrightarrow> kmem t f = kmem s f" by (auto simp: t_def wr_word_def)
  moreover have "same_but_map pd s t" by (simp add: same_but_map_def k np) (simp add: t_def wr_word_def)
  ultimately show "grows pd s xs t xs" by (auto simp: grows_def T table_frames_def v np)
  show "entry t pd n = (if n = i * 1024 + j then v else entry s pd n)"
    if n: "n div 1024 < 1024" "n div 1024 \<noteq> UV"
  proof (cases "n div 1024 = i")
    case True
    then have "n = i * 1024 + j \<longleftrightarrow> n mod 1024 = j" using split_1024 [OF j, of n i] by simp
    with True h show ?thesis by (simp add: entry_def v pte_def) (simp add: t_def wr_word_def)
  next
    case False
    then have "n \<noteq> i * 1024 + j" using j by auto
    moreover have "tbl s pd (n div 1024) \<noteq> tbl s pd i" if "has_tbl s pd (n div 1024)"
      using d(6) [OF n(1) i(1) n(2) i(2) that h] False by auto
    ultimately show ?thesis by (auto simp: entry_def v pte_def) (simp add: t_def wr_word_def)
  qed
qed

section \<open>Mapping a region\<close>

definition page_va :: "nat \<Rightarrow> u32" where "page_va n = of_nat n * PGSIZE"

lemma page_va_index:
  assumes "n < 2 ^ 20"
  shows "unat (page_va n) = n * 4096" "unat (PDX (page_va n)) = n div 1024" "unat (PTX (page_va n)) = n mod 1024"
proof -
  have "n * 4096 < 2 ^ 32" using assms by simp
  then show u: "unat (page_va n) = n * 4096"
    by (simp add: page_va_def PGSIZE_def unat_word_ariths unat_of_nat take_bit_eq_mod)
  show "unat (PDX (page_va n)) = n div 1024" unfolding unat_PDX u by simp
  show "unat (PTX (page_va n)) = n mod 1024" unfolding unat_PTX u by simp
qed

text \<open>The pages \<open>n\<close> to \<open>n + k - 1\<close>, and the directory slots they need.\<close>

definition region_slots :: "nat \<Rightarrow> nat \<Rightarrow> nat set" where
  "region_slots n k = (\<lambda>m. m div 1024) ` {n..<n + k}"

lemma finite_region_slots [simp]: "finite (region_slots n k)" by (simp add: region_slots_def)

lemma region_slots_Suc: "region_slots n (Suc k) = insert (n div 1024) (region_slots (Suc n) k)"
proof -
  have "{n..<n + Suc k} = insert n {Suc n..<Suc n + k}" by auto
  then show ?thesis by (simp add: region_slots_def)
qed

definition region_entry :: "u32 \<Rightarrow> u32 \<Rightarrow> nat \<Rightarrow> u32" where
  "region_entry pa perm i = ((pa + of_nat i * PGSIZE) OR perm) OR PTE_P"

text \<open>The walk to the entry of a page, which makes a page table if there is none.\<close>

lemma dir_walk_page:
  assumes ok: "dir_ok s xs pd" and n: "n < 2 ^ 20" "n div 1024 \<noteq> UV" and x: "n div 1024 \<in> tables s pd \<or> xs \<noteq> []"
  shows "\<exists>u zs. pgdir_walk pd (page_va n) True s = Ret (Some (tbl u pd (n div 1024), n mod 1024)) u \<and>
    dir_ok u zs pd \<and> grows pd s xs u zs \<and> tables u pd = insert (n div 1024) (tables s pd) \<and>
    length xs \<le> length zs + card ({n div 1024} - tables s pd) \<and>
    (\<forall>m. m div 1024 < 1024 \<longrightarrow> m div 1024 \<noteq> UV \<longrightarrow> entry u pd m = entry s pd m)"
proof (cases "has_tbl s pd (n div 1024)")
  case True
  have q: "n div 1024 < 1024" using n(1) by simp
  with True n(2) have "n div 1024 \<in> tables s pd" by (simp add: tables_def)
  with True n dir_walk_hit [OF ok, of "page_va n" True] ok grows_refl page_va_index [OF n(1)] show ?thesis
    by (auto simp: insert_absorb)
next
  case False
  have q: "n div 1024 < 1024" using n(1) by simp
  from False have nt: "n div 1024 \<notin> tables s pd" by (simp add: tables_def)
  with x obtain p ps where xs: "xs = p # ps" by (cases xs) auto
  note ok = ok [unfolded xs]
  let ?t = "with_tbl p pd (n div 1024) s"
  note new = dir_new [OF ok q n(2) False] dir_new_view(2) [OF ok]
  have "pgdir_walk pd (page_va n) True s = Ret (Some (p, n mod 1024)) ?t"
    using dir_walk_new [OF ok, of "page_va n"] False n page_va_index [OF n(1)] by simp
  moreover have "{n div 1024} - tables s pd = {n div 1024}" using nt by auto
  ultimately show ?thesis
    using new unfolding xs by (intro exI [of _ ?t] exI [of _ ps]) simp
qed

lemma boot_map_loop_ok:
  assumes "dir_ok s xs pd" "n + i + k \<le> 2 ^ 20" "UV \<notin> region_slots (n + i) k"
    "card (region_slots (n + i) k - tables s pd) \<le> length xs"
  shows "\<exists>t ys. boot_map_loop pd (page_va n) k (of_nat i) pa perm s = Ret () t \<and> dir_ok t ys pd \<and> grows pd s xs t ys \<and>
    tables t pd = tables s pd \<union> region_slots (n + i) k \<and>
    length xs \<le> length ys + card (region_slots (n + i) k - tables s pd) \<and>
    (\<forall>m. m div 1024 < 1024 \<longrightarrow> m div 1024 \<noteq> UV \<longrightarrow>
      entry t pd m = (if n + i \<le> m \<and> m < n + i + k then region_entry pa perm (m - n) else entry s pd m))"
  using assms
proof (induction k arbitrary: i s xs)
  case 0
  then show ?case by (auto simp: region_slots_def intro: grows_refl)
next
  case (Suc k)
  let ?m = "n + i" and ?N = "region_slots (n + i) (Suc k)" and ?N' = "region_slots (n + Suc i) k"
  have m: "?m < 2 ^ 20" using Suc.prems(2) by simp
  have va: "page_va n + of_nat i * PGSIZE = page_va ?m" by (simp add: page_va_def algebra_simps)
  note ix = page_va_index(2,3) [OF m]
  have N: "?N = insert (?m div 1024) ?N'" by (simp add: region_slots_Suc)
  have q: "?m div 1024 < 1024" "?m div 1024 \<noteq> UV" using m Suc.prems(3) N by auto
  have "?m div 1024 \<in> tables s pd \<or> xs \<noteq> []" using Suc.prems(4) by (auto simp: N)
  note dir_walk_page [OF Suc.prems(1) m q(2) this]
  then obtain u zs where u: "pgdir_walk pd (page_va ?m) True s = Ret (Some (tbl u pd (?m div 1024), ?m mod 1024)) u"
    "dir_ok u zs pd" "grows pd s xs u zs" "tables u pd = insert (?m div 1024) (tables s pd)"
    "length xs \<le> length zs + card ({?m div 1024} - tables s pd)"
    "\<And>m. m div 1024 < 1024 \<Longrightarrow> m div 1024 \<noteq> UV \<Longrightarrow> entry u pd m = entry s pd m" by blast
  from u(4) q have "has_tbl u pd (?m div 1024)" by (auto simp: tables_def)
  note w = dir_write [OF u(2) q this, where j = "?m mod 1024" and v = "region_entry pa perm i", simplified]
  let ?v = "wr_word (tbl u pd (?m div 1024)) (?m mod 1024) (region_entry pa perm i) u"
  have sub: "?N - tables s pd = ({?m div 1024} - tables s pd) \<union> (?N' - tables ?v pd)"
    using u(4) w(2) by (auto simp: N)
  have card: "card (?N - tables s pd) = card ({?m div 1024} - tables s pd) + card (?N' - tables ?v pd)"
    unfolding sub using u(4) w(2) by (intro card_Un_disjoint) auto
  have "\<exists>t ys. boot_map_loop pd (page_va n) k (of_nat (Suc i)) pa perm ?v = Ret () t \<and> dir_ok t ys pd \<and>
    grows pd ?v zs t ys \<and> tables t pd = tables ?v pd \<union> ?N' \<and> length zs \<le> length ys + card (?N' - tables ?v pd) \<and>
    (\<forall>m. m div 1024 < 1024 \<longrightarrow> m div 1024 \<noteq> UV \<longrightarrow>
      entry t pd m = (if n + Suc i \<le> m \<and> m < n + Suc i + k then region_entry pa perm (m - n) else entry ?v pd m))"
    using Suc.prems(2-4) N card u(5) by (intro Suc.IH [OF w(1)]) auto
  then obtain t ys where t: "boot_map_loop pd (page_va n) k (of_nat (Suc i)) pa perm ?v = Ret () t" "dir_ok t ys pd"
    "grows pd ?v zs t ys" "tables t pd = tables ?v pd \<union> ?N'" "length zs \<le> length ys + card (?N' - tables ?v pd)"
    "\<And>m. m div 1024 < 1024 \<Longrightarrow> m div 1024 \<noteq> UV \<Longrightarrow>
      entry t pd m = (if n + Suc i \<le> m \<and> m < n + Suc i + k then region_entry pa perm (m - n) else entry ?v pd m)"
    by blast
  have "boot_map_loop pd (page_va n) (Suc k) (of_nat i) pa perm s = Ret () t"
    using t(1) u(1) by (simp add: va region_entry_def add.commute)
  moreover have "grows pd s xs t ys" using u(3) w(3) t(3) by (blast intro: grows_trans)
  moreover have "tables t pd = tables s pd \<union> ?N" using t(4) u(4) w(2) by (auto simp: N)
  moreover have "length xs \<le> length ys + card (?N - tables s pd)" using u(5) t(5) card by simp
  moreover have "entry t pd m = (if ?m \<le> m \<and> m < ?m + Suc k then region_entry pa perm (m - n) else entry s pd m)"
    if "m div 1024 < 1024" "m div 1024 \<noteq> UV" for m
    using t(6) [OF that] w(4) [OF that] u(6) [OF that] by auto
  ultimately show ?case using t(2) by blast
qed

lemma boot_map_region_ok:
  assumes "dir_ok s xs pd" "unat (sz div PGSIZE) = k" "n + k \<le> 2 ^ 20" "UV \<notin> region_slots n k"
    "card (region_slots n k - tables s pd) \<le> length xs"
  shows "\<exists>t ys. boot_map_region pd (page_va n) sz pa perm s = Ret () t \<and> dir_ok t ys pd \<and> grows pd s xs t ys \<and>
    tables t pd = tables s pd \<union> region_slots n k \<and> length xs \<le> length ys + card (region_slots n k - tables s pd) \<and>
    (\<forall>m. m div 1024 < 1024 \<longrightarrow> m div 1024 \<noteq> UV \<longrightarrow>
      entry t pd m = (if n \<le> m \<and> m < n + k then region_entry pa perm (m - n) else entry s pd m))"
  using boot_map_loop_ok [where i = 0 and n = n and k = k and s = s and pd = pd and xs = xs and pa = pa and perm = perm] assms
  by (simp add: boot_map_region_def)

text \<open>
  C34: \<open>boot_map_region\<close> refines the update of a map from pages to entries: with enough free frames for the
  page tables that are missing it returns; exactly the pages of the region have new entries, which map
  them in order from \<open>pa\<close> on with the permissions asked for, and every page table it has made was a free
  frame.
\<close>

theorem boot_map_region_maps:
  assumes "dir_ok s xs pd" "unat (sz div PGSIZE) = k" "n + k \<le> 2 ^ 20" "UV \<notin> region_slots n k"
    "card (region_slots n k - tables s pd) \<le> length xs"
  shows "\<exists>t ys. boot_map_region pd (page_va n) sz pa perm s = Ret () t \<and> dir_ok t ys pd \<and> grows pd s xs t ys \<and>
    tables t pd = tables s pd \<union> region_slots n k \<and>
    (\<forall>m. m div 1024 < 1024 \<longrightarrow> m div 1024 \<noteq> UV \<longrightarrow>
      entry t pd m = (if n \<le> m \<and> m < n + k then region_entry pa perm (m - n) else entry s pd m))"
  using boot_map_region_ok [OF assms] by blast

section \<open>The regions of the kernel\<close>

lemma slot_values:
  "unat (PDX UVPT) = 957" "unat (PDX UPAGES) = 956" "unat (PDX UENVS) = 955" "unat (PDX MMIOBASE) = 958"
  "unat (PDX (KSTACKTOP - 1)) = 959" "unat (PDX KERNBASE) = 960"
  by (simp_all add: unat_PDX layout_values KERNBASE_def)

text \<open>The slots of a region that is not empty.\<close>

lemma region_slots_range:
  assumes "0 < k" "n div 1024 = a" "(n + k - 1) div 1024 = b"
  shows "region_slots n k = {a..b}"
proof
  show "region_slots n k \<subseteq> {a..b}"
    unfolding region_slots_def assms(2,3) [symmetric] by (auto intro!: div_le_mono)
  show "{a..b} \<subseteq> region_slots n k"
  proof
    fix i assume i: "i \<in> {a..b}"
    have "n div 1024 \<le> i" "i \<le> (n + k - 1) div 1024" using i assms(2,3) by simp_all
    then have "max n (i * 1024) < n + k" "max n (i * 1024) div 1024 = i"
      using assms(1) by (auto simp: max_def)
    then show "i \<in> region_slots n k"
      unfolding region_slots_def by (intro image_eqI [of _ _ "max n (i * 1024)"]) auto
  qed
qed

lemma paddr_ok: "KERNBASE \<le> a \<Longrightarrow> paddr a s = Ret (a - KERNBASE) s"
  by (simp add: paddr_def not_less [symmetric])

text \<open>A region that lies in one slot.\<close>

lemma map_in_slot:
  assumes ok: "dir_ok s xs pd" and k: "unat (sz div PGSIZE) = k" "0 < k" and n: "n div 1024 = a" "(n + k - 1) div 1024 = a"
    and a: "a < 1024" "a \<noteq> UV" and x: "a \<in> tables s pd \<or> xs \<noteq> []" and va: "va = page_va n"
  shows "\<exists>t ys. boot_map_region pd va sz pa perm s = Ret () t \<and> dir_ok t ys pd \<and> grows pd s xs t ys \<and>
    tables t pd = insert a (tables s pd) \<and> length xs \<le> length ys + card ({a} - tables s pd) \<and>
    (\<forall>m. m div 1024 < 1024 \<longrightarrow> m div 1024 \<noteq> UV \<longrightarrow>
      entry t pd m = (if n \<le> m \<and> m < n + k then region_entry pa perm (m - n) else entry s pd m))"
proof -
  have R: "region_slots n k = {a}" using region_slots_range [OF k(2) n] by simp
  have "n + k \<le> 2 ^ 20" using n(2) a(1) k(2) by (simp add: div_less_iff_less_mult)
  moreover have "card ({a} - tables s pd) \<le> length xs"
    using x card_mono [of "{a}" "{a} - tables s pd"] by (cases "a \<in> tables s pd") (auto simp: Suc_le_eq intro: le_trans)
  ultimately show ?thesis
    using boot_map_region_ok [OF ok k(1), of n pa perm] a(2) by (simp add: R va)
qed

text \<open>The entries of the kernel stacks of \<open>n\<close> CPUs; page \<open>m\<close> has the entry \<open>e\<close> if it is in none of them.\<close>

definition stack_page :: "nat \<Rightarrow> nat" where "stack_page i = 0xF0000 - 16 * i - 8"

fun stacks_entry :: "bootsyms \<Rightarrow> nat \<Rightarrow> nat \<Rightarrow> u32 \<Rightarrow> u32" where
  "stacks_entry b 0 m e = e"
| "stacks_entry b (Suc n) m e =
    (if stack_page n \<le> m \<and> m < stack_page n + 8
     then region_entry (percpu_kstack b n - KERNBASE) (PTE_P OR PTE_W) (m - stack_page n)
     else stacks_entry b n m e)"

text \<open>The entry of page number \<open>m\<close> above \<open>UTOP\<close> that \<open>mem_init\<close> promises.\<close>

definition pages_count :: "nat \<Rightarrow> nat" where "pages_count n = (n * 8 + 4095) div 4096"

definition kernel_entry :: "bootsyms \<Rightarrow> u32 \<Rightarrow> u32 \<Rightarrow> nat \<Rightarrow> nat \<Rightarrow> u32" where
  "kernel_entry b pages_va envs_va np m =
     (if 0xEEC00 \<le> m \<and> m < 0xEEC00 + 31 then region_entry (envs_va - KERNBASE) (PTE_U OR PTE_P) (m - 0xEEC00)
      else if 0xEF000 \<le> m \<and> m < 0xEF000 + pages_count np then region_entry (pages_va - KERNBASE) (PTE_U OR PTE_P) (m - 0xEF000)
      else if 0xF0000 \<le> m \<and> m < 0xFFFFF then region_entry 0 (PTE_W OR PTE_P) (m - 0xF0000)
      else stacks_entry b NCPU m 0)"

lemma stack_va:
  assumes "i < NCPU"
  shows "(KSTACKTOP - of_nat i * (KSTKSIZE + KSTKGAP)) - KSTKSIZE = page_va (stack_page i)"
    "stack_page i div 1024 = 959" "(stack_page i + 8 - 1) div 1024 = 959"
proof -
  have "i \<in> {0, 1, 2, 3, 4, 5, 6, 7}" using assms by (auto simp: NCPU_def)
  then show "(KSTACKTOP - of_nat i * (KSTKSIZE + KSTKGAP)) - KSTKSIZE = page_va (stack_page i)"
    "stack_page i div 1024 = 959" "(stack_page i + 8 - 1) div 1024 = 959"
    by (auto simp: page_va_def stack_page_def layout_values KSTKSIZE_def KSTKGAP_def PGSIZE_def)
qed

lemma stack_page_unique:
  "i < NCPU \<Longrightarrow> j < NCPU \<Longrightarrow> stack_page i \<le> m \<Longrightarrow> m < stack_page i + 8 \<Longrightarrow> stack_page j \<le> m \<Longrightarrow> m < stack_page j + 8 \<Longrightarrow> i = j"
  by (simp add: stack_page_def NCPU_def)

lemma KSTK_pages: "unat (KSTKSIZE div PGSIZE) = 8" by (simp add: KSTKSIZE_def PGSIZE_def)

lemma mem_init_mp_ok:
  assumes ok: "dir_ok s xs pd" and kp: "kern_pgdir s = pd" and t: "959 \<in> tables s pd"
    and b: "\<forall>i<NCPU. KERNBASE \<le> percpu_kstack b i"
  shows "\<exists>t ys. mem_init_mp b s = Ret () t \<and> dir_ok t ys pd \<and> grows pd s xs t ys \<and> tables t pd = tables s pd \<and>
    length xs \<le> length ys \<and>
    (\<forall>m. m div 1024 < 1024 \<longrightarrow> m div 1024 \<noteq> UV \<longrightarrow> entry t pd m = stacks_entry b NCPU m (entry s pd m))"
proof -
  define P where "P = (\<lambda>n t. \<exists>ys. dir_ok t ys pd \<and> grows pd s xs t ys \<and> tables t pd = tables s pd \<and> length xs \<le> length ys \<and>
    (\<forall>m. m div 1024 < 1024 \<longrightarrow> m div 1024 \<noteq> UV \<longrightarrow> entry t pd m = stacks_entry b n m (entry s pd m)))"
  have "\<exists>t. mem_init_mp b s = Ret () t \<and> P (length [0..<NCPU]) t"
    unfolding mem_init_mp_def
  proof (rule forO_invariant)
    show "P 0 s" using ok by (auto simp: P_def intro: grows_refl)
  next
    fix n u assume n: "n < length [0..<NCPU]" and P: "P n u"
    then have N: "n < NCPU" by simp
    from P obtain ys where u: "dir_ok u ys pd" "grows pd s xs u ys" "tables u pd = tables s pd" "length xs \<le> length ys"
      "\<forall>m. m div 1024 < 1024 \<longrightarrow> m div 1024 \<noteq> UV \<longrightarrow> entry u pd m = stacks_entry b n m (entry s pd m)" by (auto simp: P_def)
    from u(2) kp have kpu: "kern_pgdir u = pd" by (simp add: grows_def same_but_map_def)
    from map_in_slot [OF u(1) KSTK_pages _ stack_va(2,3) [OF N], of "page_va (stack_page n)" "percpu_kstack b n - KERNBASE" "PTE_P OR PTE_W"] u(3) t
    obtain v zs where v: "boot_map_region pd (page_va (stack_page n)) KSTKSIZE (percpu_kstack b n - KERNBASE) (PTE_P OR PTE_W) u = Ret () v"
      "dir_ok v zs pd" "grows pd u ys v zs" "tables v pd = tables s pd" "length ys \<le> length zs"
      "\<forall>m. m div 1024 < 1024 \<longrightarrow> m div 1024 \<noteq> UV \<longrightarrow> entry v pd m =
        (if stack_page n \<le> m \<and> m < stack_page n + 8
         then region_entry (percpu_kstack b n - KERNBASE) (PTE_P OR PTE_W) (m - stack_page n) else entry u pd m)"
      by (auto simp: slot_values insert_absorb)
    have "P (Suc n) v" using u(2,4,5) v grows_trans [OF u(2) v(3)] unfolding P_def by auto
    then show "\<exists>t. bindO (paddr (percpu_kstack b ([0..<NCPU] ! n)) u) (\<lambda>pa s. boot_map_region (kern_pgdir s)
        ((KSTACKTOP - of_nat ([0..<NCPU] ! n) * (KSTKSIZE + KSTKGAP)) - KSTKSIZE) KSTKSIZE pa (PTE_P OR PTE_W) s) = Ret () t \<and> P (Suc n) t"
      using v(1) b N by (simp add: paddr_ok kpu stack_va(1))
  qed
  then show ?thesis by (auto simp: P_def)
qed

lemma stacks_entry_out: "n \<le> NCPU \<Longrightarrow> m < 0xEFF80 \<or> 0xF0000 \<le> m \<Longrightarrow> stacks_entry b n m e = e"
  by (induction n) (auto simp: NCPU_def stack_page_def)

lemma stacks_entry_boot: "0 < n \<Longrightarrow> 0xF0000 - 8 \<le> m \<Longrightarrow> m < 0xF0000 \<Longrightarrow> stacks_entry b n m e = stacks_entry b n m e'"
  by (induction n rule: nat_induct_non_zero) (auto simp: stack_page_def)

lemma pages_region:
  assumes "0 < np" "np \<le> 2 ^ 16"
  shows "unat (ROUNDUP (of_nat np * PageInfo_size) PGSIZE div PGSIZE) = pages_count np" "0 < pages_count np" "pages_count np \<le> 128"
    "0xEF000 div 1024 = (956 :: nat)" "(0xEF000 + pages_count np - 1) div 1024 = 956"
    "ROUNDUP (of_nat np * PageInfo_size) PGSIZE = page_va (pages_count np)"
proof -
  have np: "unat (of_nat np :: u32) = np" using assms(2) by (simp add: unat_of_nat take_bit_nat_eq_self)
  then have u: "unat (of_nat np * PageInfo_size) = np * 8"
    using assms(2) by (simp add: PageInfo_size_def unat_word_ariths)
  have r: "unat (ROUNDUP (of_nat np * PageInfo_size) PGSIZE) = pages_count np * 4096"
    unfolding pages_count_def using assms(2) by (subst unat_ROUNDUP) (simp_all add: u PGSIZE_def)
  then show "unat (ROUNDUP (of_nat np * PageInfo_size) PGSIZE div PGSIZE) = pages_count np"
    by (simp add: unat_div_distrib) (simp add: PGSIZE_def)
  show c: "0 < pages_count np" "pages_count np \<le> 128" using assms by (auto simp: pages_count_def)
  show "0xEF000 div 1024 = (956 :: nat)" by simp
  show "(0xEF000 + pages_count np - 1) div 1024 = 956" using c by (intro div_nat_eqI) simp_all
  show "ROUNDUP (of_nat np * PageInfo_size) PGSIZE = page_va (pages_count np)"
    using r page_va_index(1) [of "pages_count np"] c by (simp add: word_unat_eq_iff)
qed

lemma envs_region: "unat (ROUNDUP (of_nat NENV * Env_size) PGSIZE div PGSIZE) = 31"
  by (simp add: NENV_def LOG2NENV_def Env_size_def PGSIZE_def ROUNDUP_def ROUNDDOWN_def)

text \<open>What \<open>mem_init\<close> makes of the directory, with the slots 955 (\<open>UENVS\<close>), 956 (\<open>UPAGES\<close>), 959 (stacks) and 960 to 1023.\<close>

definition map_ready :: "bootsyms \<Rightarrow> u32 \<Rightarrow> u32 \<Rightarrow> kstate \<Rightarrow> nat list \<Rightarrow> nat \<Rightarrow> bool" where
  "map_ready b pages_va envs_va s xs pd \<longleftrightarrow> dir_ok s xs pd \<and> kern_pgdir s = pd \<and> 67 \<le> length xs \<and>
     (\<forall>m. 0xEEC00 \<le> m \<longrightarrow> m div 1024 < 1024 \<longrightarrow> m div 1024 \<noteq> UV \<longrightarrow> entry s pd m = 0) \<and>
     KERNBASE \<le> pages_va \<and> KERNBASE \<le> envs_va \<and> KERNBASE \<le> sym_bootstack b \<and> (\<forall>i<NCPU. KERNBASE \<le> percpu_kstack b i)"

lemma mem_init_map_ok:
  assumes "map_ready b pages_va envs_va s xs pd"
  shows "\<exists>t ys. mem_init_map b pages_va envs_va s = Ret () t \<and> dir_ok t ys pd \<and> grows pd s xs t ys \<and>
    tables t pd = tables s pd \<union> ({955, 956, 959} \<union> {960..1023}) \<and> length xs \<le> length ys + 67 \<and>
    (\<forall>m. m div 1024 < 1024 \<longrightarrow> m div 1024 \<noteq> UV \<longrightarrow>
      entry t pd m = (if m < 0xEEC00 then entry s pd m else kernel_entry b pages_va envs_va (npages s) m))"
proof -
  from assms have ok: "dir_ok s xs pd" and kp: "kern_pgdir s = pd" and len: "67 \<le> length xs"
    and z: "\<And>m. 0xEEC00 \<le> m \<Longrightarrow> m div 1024 < 1024 \<Longrightarrow> m div 1024 \<noteq> UV \<Longrightarrow> entry s pd m = 0"
    and b: "KERNBASE \<le> pages_va" "KERNBASE \<le> envs_va" "KERNBASE \<le> sym_bootstack b" "\<forall>i<NCPU. KERNBASE \<le> percpu_kstack b i"
    by (auto simp: map_ready_def)
  have np: "0 < npages s" "npages s \<le> 2 ^ 16" using dir_okD(1,2) [OF ok] by (auto simp: free_pages_ok_def)
  note P = pages_region [OF np]
  have kern: "kern_pgdir t = pd" "npages t = npages s" if "grows pd s xs t ys" for t ys
    using that kp by (simp_all add: grows_def same_but_map_def)
  have va: "UPAGES = page_va 0xEF000" "KSTACKTOP - KSTKSIZE = page_va (0xF0000 - 8)" "KERNBASE = page_va 0xF0000" "UENVS = page_va 0xEEC00"
    by (simp_all add: page_va_def PGSIZE_def layout_values KERNBASE_def KSTKSIZE_def)
  have sl: "956 < (1024 :: nat)" "956 \<noteq> UV" "959 < (1024 :: nat)" "959 \<noteq> UV" "955 < (1024 :: nat)" "955 \<noteq> UV"
    by (simp_all add: slot_values)
  have "xs \<noteq> []" using len by auto
  then have "956 \<in> tables s pd \<or> xs \<noteq> []" ..
  from map_in_slot [OF ok P(1,2,4,5) sl(1,2) this va(1), of "pages_va - KERNBASE" "PTE_U OR PTE_P"] obtain s1 y1 where
    s1: "boot_map_region pd UPAGES (ROUNDUP (of_nat (npages s) * PageInfo_size) PGSIZE) (pages_va - KERNBASE) (PTE_U OR PTE_P) s = Ret () s1"
    "dir_ok s1 y1 pd" "grows pd s xs s1 y1" "tables s1 pd = insert 956 (tables s pd)" "length xs \<le> length y1 + card ({956} - tables s pd)"
    "\<forall>m. m div 1024 < 1024 \<longrightarrow> m div 1024 \<noteq> UV \<longrightarrow> entry s1 pd m =
      (if 0xEF000 \<le> m \<and> m < 0xEF000 + pages_count (npages s) then region_entry (pages_va - KERNBASE) (PTE_U OR PTE_P) (m - 0xEF000) else entry s pd m)"
    by blast
  have c1: "length xs \<le> length y1 + 1" using s1(5) card_mono [of "{956}" "{956} - tables s pd"] by simp
  with len have l1: "66 \<le> length y1" by simp
  then have "y1 \<noteq> []" by auto
  then have "959 \<in> tables s1 pd \<or> y1 \<noteq> []" ..
  from map_in_slot [OF s1(2) KSTK_pages _ _ _ sl(3,4) this va(2), of "sym_bootstack b - KERNBASE" "PTE_W OR PTE_P"] obtain s2 y2 where
    s2: "boot_map_region pd (KSTACKTOP - KSTKSIZE) KSTKSIZE (sym_bootstack b - KERNBASE) (PTE_W OR PTE_P) s1 = Ret () s2"
    "dir_ok s2 y2 pd" "grows pd s1 y1 s2 y2" "tables s2 pd = insert 959 (tables s1 pd)" "length y1 \<le> length y2 + card ({959} - tables s1 pd)"
    "\<forall>m. m div 1024 < 1024 \<longrightarrow> m div 1024 \<noteq> UV \<longrightarrow> entry s2 pd m =
      (if 0xF0000 - 8 \<le> m \<and> m < 0xF0000 - 8 + 8 then region_entry (sym_bootstack b - KERNBASE) (PTE_W OR PTE_P) (m - (0xF0000 - 8)) else entry s1 pd m)"
    by auto
  have c2: "length y1 \<le> length y2 + 1" using s2(5) card_mono [of "{959}" "{959} - tables s1 pd"] by simp
  with l1 have l2: "65 \<le> length y2" by simp
  note g2 = grows_trans [OF s1(3) s2(3)]
  from mem_init_mp_ok [OF s2(2) kern(1) [OF g2] _ b(4)] s2(4) obtain s3 y3 where
    s3: "mem_init_mp b s2 = Ret () s3" "dir_ok s3 y3 pd" "grows pd s2 y2 s3 y3" "tables s3 pd = tables s2 pd" "length y2 \<le> length y3"
    "\<forall>m. m div 1024 < 1024 \<longrightarrow> m div 1024 \<noteq> UV \<longrightarrow> entry s3 pd m = stacks_entry b NCPU m (entry s2 pd m)"
    by blast
  note g3 = grows_trans [OF g2 s3(3)]
  have R: "region_slots 0xF0000 65535 = {960..1023}" by (rule region_slots_range) simp_all
  have c: "card ({960..1023} - tables s3 pd) \<le> 64" using card_mono [of "{960..1023 :: nat}" "{960..1023} - tables s3 pd"] by simp
  have k: "unat ((0xFFFFFFFF - KERNBASE) div PGSIZE) = 65535" by (simp add: KERNBASE_def PGSIZE_def)
  from boot_map_region_ok [OF s3(2) k, where n = "0xF0000" and pa = 0 and perm = "PTE_W OR PTE_P", folded va(3)] c l2 s3(5) obtain s4 y4 where
    s4: "boot_map_region pd KERNBASE (0xFFFFFFFF - KERNBASE) 0 (PTE_W OR PTE_P) s3 = Ret () s4"
    "dir_ok s4 y4 pd" "grows pd s3 y3 s4 y4" "tables s4 pd = tables s3 pd \<union> {960..1023}" "length y3 \<le> length y4 + card ({960..1023} - tables s3 pd)"
    "\<forall>m. m div 1024 < 1024 \<longrightarrow> m div 1024 \<noteq> UV \<longrightarrow> entry s4 pd m =
      (if 0xF0000 \<le> m \<and> m < 0xFFFFF then region_entry 0 (PTE_W OR PTE_P) (m - 0xF0000) else entry s3 pd m)"
    by (auto simp: slot_values R)
  note g4 = grows_trans [OF g3 s4(3)]
  have l4: "y4 \<noteq> []" using s4(5) c l2 s3(5) by auto
  then have "955 \<in> tables s4 pd \<or> y4 \<noteq> []" ..
  from map_in_slot [OF s4(2) envs_region _ _ _ sl(5,6) this va(4), of "envs_va - KERNBASE" "PTE_U OR PTE_P"] obtain s5 y5 where
    s5: "boot_map_region pd UENVS (ROUNDUP (of_nat NENV * Env_size) PGSIZE) (envs_va - KERNBASE) (PTE_U OR PTE_P) s4 = Ret () s5"
    "dir_ok s5 y5 pd" "grows pd s4 y4 s5 y5" "tables s5 pd = insert 955 (tables s4 pd)" "length y4 \<le> length y5 + card ({955} - tables s4 pd)"
    "\<forall>m. m div 1024 < 1024 \<longrightarrow> m div 1024 \<noteq> UV \<longrightarrow> entry s5 pd m =
      (if 0xEEC00 \<le> m \<and> m < 0xEEC00 + 31 then region_entry (envs_va - KERNBASE) (PTE_U OR PTE_P) (m - 0xEEC00) else entry s4 pd m)"
    by auto
  note g5 = grows_trans [OF g4 s5(3)]
  have "mem_init_map b pages_va envs_va s = Ret () s5"
    using s1(1) s2(1) s3(1) s4(1) s5(1)
    by (simp add: mem_init_map_def paddr_ok b(1-3) kp kern(1) [OF s1(3)] kern(1) [OF g3] kern(1) [OF g4])
  moreover have "tables s5 pd = tables s pd \<union> ({955, 956, 959} \<union> {960..1023})"
    using s1(4) s2(4) s3(4) s4(4) s5(4) by auto
  moreover have "length xs \<le> length y5 + 67"
    using c1 c2 s3(5) s4(5) c s5(5) card_mono [of "{955}" "{955} - tables s4 pd"] by simp
  moreover have "entry s5 pd m = (if m < 0xEEC00 then entry s pd m else kernel_entry b pages_va envs_va (npages s) m)"
    if m: "m div 1024 < 1024" "m div 1024 \<noteq> UV" for m
  proof -
    let ?e = "if 0xEF000 \<le> m \<and> m < 0xEF000 + pages_count (npages s) then region_entry (pages_va - KERNBASE) (PTE_U OR PTE_P) (m - 0xEF000) else entry s pd m"
    have "stacks_entry b NCPU m (entry s2 pd m) = stacks_entry b NCPU m ?e"
    proof (cases "0xF0000 - 8 \<le> m \<and> m < 0xF0000")
      case True
      then show ?thesis by (intro stacks_entry_boot) (simp_all add: NCPU_def)
    next
      case False
      then show ?thesis using s1(6) [rule_format, OF m] s2(6) [rule_format, OF m] by auto
    qed
    then show ?thesis
      using s3(6) [rule_format, OF m] s4(6) [rule_format, OF m] s5(6) [rule_format, OF m] stacks_entry_out [OF order_refl, of m b] z [OF _ m] P(3)
      by (auto simp: kernel_entry_def)
  qed
  ultimately show ?thesis using s5(2) g5 by blast
qed

section \<open>What the processor sees\<close>

definition pgno :: "u32 \<Rightarrow> nat" where "pgno va = unat (PGNUM va)"

lemma pgno_index: "pgno va div 1024 = unat (PDX va)" "pgno va mod 1024 = unat (PTX va)" "pgno va < 2 ^ 20"
  using PGNUM_less [of va] by (simp_all add: pgno_def unat_PGNUM unat_PDX unat_PTX flip: div_mult2_eq)

lemma page_va_pgno: "page_va (pgno va) + PGOFF va = va"
proof -
  have "unat (page_va (pgno va)) = unat va div 4096 * 4096"
    using page_va_index(1) [OF pgno_index(3)] by (simp add: pgno_def unat_PGNUM)
  then have "unat (page_va (pgno va)) + unat (PGOFF va) = unat va" by (simp add: unat_PGOFF)
  then show ?thesis using unat_u32_less [of va] by (simp add: word_unat_eq_iff unat_word_ariths)
qed

lemma pde_for_low_bits: "bit (pde_for p) k" if "k < 3"
proof -
  have "k \<in> {0, 1, 2}" using that by auto
  then show ?thesis by (auto simp: pde_for_def bit_simps PTE_P_def PTE_U_def PTE_W_def)
qed

definition FLAGS :: u32 where "FLAGS = (PTE_P OR PTE_W) OR PTE_U"

lemma FLAGS_bit: "bit FLAGS k \<longleftrightarrow> k < 3"
proof -
  have F: "FLAGS = mask 3" by (simp add: FLAGS_def PTE_P_def PTE_W_def PTE_U_def mask_eq_exp_minus_1)
  show ?thesis unfolding F by (auto simp: bit_mask_iff)
qed

lemma pde_for_and: "(pde_for p AND e) AND FLAGS = e AND FLAGS"
  by (rule bit_eqI) (auto simp: bit_simps FLAGS_bit pde_for_low_bits)

text \<open>The physical address a linear address stands for, and the rights on both levels.\<close>

definition translate :: "kstate \<Rightarrow> nat \<Rightarrow> u32 \<Rightarrow> (u32 \<times> u32) option" where
  "translate s pd va = map_option (\<lambda>(f, r). (page2pa f + PGOFF va, r AND FLAGS)) (mmu s pd va)"

lemma translate_entry:
  assumes ok: "dir_ok s xs pd" and uv: "unat (PDX va) \<noteq> UV"
  shows "translate s pd va =
    (let e = entry s pd (pgno va) in
     if e AND PTE_P = 0 then None else Some (page2pa (frame_of e) + PGOFF va, e AND FLAGS))"
proof (cases "has_tbl s pd (unat (PDX va))")
  case True
  from dir_okD(5) [OF ok PDX_less uv True] obtain p where p: "kmem s pd (unat (PDX va)) = pde_for p" "tbl s pd (unat (PDX va)) = p"
    by auto
  then have "unat (PGNUM (pde_for p)) = p" by (simp add: tbl_def frame_of_def)
  with True p show ?thesis
    by (simp add: translate_def mmu_def entry_def pgno_index pte_def frame_of_def Let_def pde_for_and)
next
  case False
  with dir_okD(4) [OF ok PDX_less uv False] show ?thesis
    by (simp add: translate_def mmu_def entry_def pgno_index)
qed

lemma PGOFF_0_PTE_ADDR: "PGOFF x = 0 \<Longrightarrow> PTE_ADDR x = x"
  using PTE_ADDR_PGOFF [of x] by simp

lemma page2pa_frame: "page2pa (frame_of x) = PTE_ADDR x"
  by (simp add: page2pa_def frame_of_def PGNUM_def PTE_ADDR_push)

lemma PGOFF_dvd: "PGOFF a = 0 \<longleftrightarrow> 4096 dvd unat a"
  using unat_PGOFF [of a] by (auto simp: unat_eq_0 dvd_eq_mod_eq_0)

lemma PGOFF_add: "PGOFF a = 0 \<Longrightarrow> PGOFF b = 0 \<Longrightarrow> PGOFF (a + b) = 0"
  by (simp add: PGOFF_dvd unat_word_ariths dvd_mod)

lemma PGOFF_pages: "PGOFF a = 0 \<Longrightarrow> PGOFF (a + of_nat i * PGSIZE) = 0"
proof (rule PGOFF_add)
  show "PGOFF (of_nat i * PGSIZE) = 0" by (simp add: PGOFF_dvd PGSIZE_def unat_word_ariths dvd_mod)
qed

lemma region_entry_parts:
  assumes "PGOFF pa = 0" "PTE_ADDR perm = 0"
  shows "PTE_ADDR (region_entry pa perm i) = pa + of_nat i * PGSIZE" "region_entry pa perm i AND PTE_P \<noteq> 0"
    "region_entry pa perm i AND FLAGS = (perm OR PTE_P) AND FLAGS"
proof -
  let ?x = "pa + of_nat i * PGSIZE"
  have x: "PTE_ADDR ?x = ?x" by (rule PGOFF_0_PTE_ADDR [OF PGOFF_pages [OF assms(1)]])
  show "PTE_ADDR (region_entry pa perm i) = ?x"
    by (simp add: region_entry_def PTE_ADDR_or assms(2) x)
  show "region_entry pa perm i AND PTE_P \<noteq> 0" unfolding region_entry_def by (rule or_PTE_P)
  have "\<not> bit ?x k" if "k < 3" for k
  proof
    assume "bit ?x k"
    then have "bit (PGOFF ?x) k" using that by (simp add: PGOFF_take bit_take_bit_iff)
    then show False by (simp add: PGOFF_pages [OF assms(1)])
  qed
  then show "region_entry pa perm i AND FLAGS = (perm OR PTE_P) AND FLAGS"
    by (intro bit_eqI) (auto simp: region_entry_def bit_simps FLAGS_bit)
qed

lemma region_translate:
  assumes "PGOFF pa = 0" "PTE_ADDR perm = 0" "n \<le> pgno va"
  shows "page2pa (frame_of (region_entry pa perm (pgno va - n))) + PGOFF va = pa + (va - page_va n)"
proof -
  have "of_nat (pgno va - n) * PGSIZE = page_va (pgno va) - page_va n"
    using assms(3) by (simp add: page_va_def of_nat_diff algebra_simps)
  moreover have "pa + (page_va (pgno va) - page_va n) + PGOFF va = pa + ((page_va (pgno va) + PGOFF va) - page_va n)"
    by (simp add: algebra_simps)
  ultimately show ?thesis by (simp add: page2pa_frame region_entry_parts(1) [OF assms(1,2)] page_va_pgno)
qed

section \<open>The address space of the kernel\<close>

text \<open>
  The memory map above \<open>UTOP\<close>, as inc/memlayout.h draws it: the physical address of each linear address,
  and whether it is writable or accessible to user mode. \<open>stack_of\<close> finds the CPU whose stack it is in.
\<close>

definition stack_base :: "nat \<Rightarrow> u32" where
  "stack_base i = KSTACKTOP - of_nat i * (KSTKSIZE + KSTKGAP) - KSTKSIZE"

fun stack_of :: "nat \<Rightarrow> u32 \<Rightarrow> nat option" where
  "stack_of 0 va = None"
| "stack_of (Suc n) va = (if stack_base n \<le> va \<and> va < stack_base n + KSTKSIZE then Some n else stack_of n va)"

definition kernel_space :: "bootsyms \<Rightarrow> u32 \<Rightarrow> u32 \<Rightarrow> nat \<Rightarrow> u32 \<Rightarrow> (u32 \<times> u32) option" where
  "kernel_space b pages_va envs_va np va =
     (if UENVS \<le> va \<and> va < UENVS + ROUNDUP (of_nat NENV * Env_size) PGSIZE
        then Some ((envs_va - KERNBASE) + (va - UENVS), PTE_U OR PTE_P)
      else if UPAGES \<le> va \<and> va < UPAGES + ROUNDUP (of_nat np * PageInfo_size) PGSIZE
        then Some ((pages_va - KERNBASE) + (va - UPAGES), PTE_U OR PTE_P)
      else if KERNBASE \<le> va \<and> va < 0xFFFFF000 then Some (va - KERNBASE, PTE_W OR PTE_P)
      else case stack_of NCPU va of
          None \<Rightarrow> None
        | Some i \<Rightarrow> Some ((percpu_kstack b i - KERNBASE) + (va - stack_base i), PTE_P OR PTE_W))"

definition aligned_image :: "bootsyms \<Rightarrow> u32 \<Rightarrow> u32 \<Rightarrow> bool" where
  "aligned_image b pages_va envs_va \<longleftrightarrow> PGOFF pages_va = 0 \<and> PGOFF envs_va = 0 \<and> (\<forall>i<NCPU. PGOFF (percpu_kstack b i) = 0)"

lemma pgno_le: "n < 2 ^ 20 \<Longrightarrow> n \<le> pgno va \<longleftrightarrow> page_va n \<le> va"
  unfolding word_le_nat_alt page_va_index(1) by (simp add: pgno_def unat_PGNUM less_eq_div_iff_mult_less_eq)

lemma pgno_less: "n < 2 ^ 20 \<Longrightarrow> pgno va < n \<longleftrightarrow> va < page_va n"
  using pgno_le [of n va] by (simp add: not_le [symmetric])

lemma PGOFF_sub_KERNBASE: "PGOFF a = 0 \<Longrightarrow> PGOFF (a - KERNBASE) = 0"
  using PGOFF_add [of a "- KERNBASE"] by (simp add: KERNBASE_def PGOFF_dvd)

lemma region_case:
  assumes "PGOFF pa = 0" "PTE_ADDR perm = 0" "perm AND FLAGS = perm" "perm OR PTE_P = perm" "n \<le> pgno va"
  shows "region_entry pa perm (pgno va - n) AND PTE_P \<noteq> 0"
    "page2pa (frame_of (region_entry pa perm (pgno va - n))) + PGOFF va = pa + (va - page_va n)"
    "region_entry pa perm (pgno va - n) AND FLAGS = perm"
  using region_entry_parts [OF assms(1,2)] region_translate [OF assms(1,2,5)] assms(3,4) by simp_all

lemma stack_base_page: "i < NCPU \<Longrightarrow> stack_base i = page_va (stack_page i)"
  using stack_va(1) by (simp add: stack_base_def)

lemma stack_bounds:
  assumes "i < NCPU"
  shows "stack_base i \<le> va \<longleftrightarrow> stack_page i \<le> pgno va" "va < stack_base i + KSTKSIZE \<longleftrightarrow> pgno va < stack_page i + 8"
proof -
  have i: "stack_page i < 2 ^ 20" "stack_page i + 8 < 2 ^ 20" by (simp_all add: stack_page_def)
  have "stack_base i + KSTKSIZE = page_va (stack_page i + 8)"
    using assms by (simp add: stack_base_page page_va_def KSTKSIZE_def algebra_simps)
  then show "stack_base i \<le> va \<longleftrightarrow> stack_page i \<le> pgno va" "va < stack_base i + KSTKSIZE \<longleftrightarrow> pgno va < stack_page i + 8"
    using pgno_le [OF i(1), of va] pgno_less [OF i(2), of va] assms by (simp_all add: stack_base_page)
qed

lemma stacks_entry_of:
  "n \<le> NCPU \<Longrightarrow> stacks_entry b n (pgno va) 0 = (case stack_of n va of None \<Rightarrow> 0
     | Some i \<Rightarrow> region_entry (percpu_kstack b i - KERNBASE) (PTE_P OR PTE_W) (pgno va - stack_page i))"
  by (induction n) (simp_all add: stack_bounds)

lemma stack_of_Some: "stack_of n va = Some i \<Longrightarrow> i < n \<and> stack_base i \<le> va \<and> va < stack_base i + KSTKSIZE"
  by (induction n) (auto split: if_splits simp: less_Suc_eq)

lemma kernel_entry_space:
  assumes np: "0 < np" "np \<le> 2 ^ 16" and al: "aligned_image b pages_va envs_va"
  shows "(let e = kernel_entry b pages_va envs_va np (pgno va) in
     if e AND PTE_P = 0 then None else Some (page2pa (frame_of e) + PGOFF va, e AND FLAGS)) =
   kernel_space b pages_va envs_va np va"
proof -
  have P: "pages_count np \<le> 128" by (rule pages_region(3) [OF np])
  have U: "UPAGES + ROUNDUP (of_nat np * PageInfo_size) PGSIZE = page_va (0xEF000 + pages_count np)"
    by (simp add: pages_region(6) [OF np]) (simp add: page_va_def layout_values PGSIZE_def algebra_simps)
  have E: "UENVS + ROUNDUP (of_nat NENV * Env_size) PGSIZE = page_va (0xEEC00 + 31)"
    by (simp add: page_va_def layout_values NENV_def LOG2NENV_def Env_size_def PGSIZE_def ROUNDUP_def ROUNDDOWN_def)
  have va: "UPAGES = page_va 0xEF000" "KERNBASE = page_va 0xF0000" "UENVS = page_va 0xEEC00" "0xFFFFF000 = page_va 0xFFFFF"
    by (simp_all add: page_va_def PGSIZE_def layout_values KERNBASE_def)
  have fl: "(PTE_U OR PTE_P) AND FLAGS = PTE_U OR PTE_P" "(PTE_U OR PTE_P) OR PTE_P = PTE_U OR PTE_P"
    "(PTE_W OR PTE_P) AND FLAGS = PTE_W OR PTE_P" "(PTE_W OR PTE_P) OR PTE_P = PTE_W OR PTE_P"
    "(PTE_P OR PTE_W) AND FLAGS = PTE_P OR PTE_W" "(PTE_P OR PTE_W) OR PTE_P = PTE_P OR PTE_W"
    by (simp_all add: FLAGS_def PTE_U_def PTE_P_def PTE_W_def)
  have ad: "PTE_ADDR (PTE_U OR PTE_P) = 0" "PTE_ADDR (PTE_W OR PTE_P) = 0" "PTE_ADDR (PTE_P OR PTE_W) = 0" by (simp_all add: PTE_ADDR_or)
  note al = al [unfolded aligned_image_def]
  have c: "UENVS \<le> va \<and> va < UENVS + ROUNDUP (of_nat NENV * Env_size) PGSIZE \<longleftrightarrow> 0xEEC00 \<le> pgno va \<and> pgno va < 0xEEC00 + 31"
    "UPAGES \<le> va \<and> va < UPAGES + ROUNDUP (of_nat np * PageInfo_size) PGSIZE \<longleftrightarrow>
      0xEF000 \<le> pgno va \<and> pgno va < 0xEF000 + pages_count np"
    "KERNBASE \<le> va \<and> va < 0xFFFFF000 \<longleftrightarrow> 0xF0000 \<le> pgno va \<and> pgno va < 0xFFFFF"
    unfolding E U using P by (simp_all add: pgno_le pgno_less va)
  note defs = kernel_entry_def kernel_space_def c Let_def
  consider (e) "0xEEC00 \<le> pgno va \<and> pgno va < 0xEEC00 + 31"
    | (p) "\<not> (0xEEC00 \<le> pgno va \<and> pgno va < 0xEEC00 + 31)" "0xEF000 \<le> pgno va \<and> pgno va < 0xEF000 + pages_count np"
    | (k) "\<not> (0xEEC00 \<le> pgno va \<and> pgno va < 0xEEC00 + 31)" "\<not> (0xEF000 \<le> pgno va \<and> pgno va < 0xEF000 + pages_count np)"
       "0xF0000 \<le> pgno va \<and> pgno va < 0xFFFFF"
    | (s) "\<not> (0xEEC00 \<le> pgno va \<and> pgno va < 0xEEC00 + 31)" "\<not> (0xEF000 \<le> pgno va \<and> pgno va < 0xEF000 + pages_count np)"
       "\<not> (0xF0000 \<le> pgno va \<and> pgno va < 0xFFFFF)" by blast
  then show ?thesis
  proof cases
    case e
    from e have "0xEEC00 \<le> pgno va" by simp
    from region_case [OF PGOFF_sub_KERNBASE ad(1) fl(1,2) this, of envs_va] al e show ?thesis
      unfolding defs by (simp add: va(3))
  next
    case p
    from p have "0xEF000 \<le> pgno va" by simp
    from region_case [OF PGOFF_sub_KERNBASE ad(1) fl(1,2) this, of pages_va] al p show ?thesis
      unfolding defs by (simp add: va(1))
  next
    case k
    from k have "0xF0000 \<le> pgno va" by simp
    from region_case [OF _ ad(2) fl(3,4) this, of 0] k show ?thesis
      unfolding defs by (simp add: PGOFF_dvd flip: va(2))
  next
    case s
    have "kernel_entry b pages_va envs_va np (pgno va) = stacks_entry b NCPU (pgno va) 0"
      "kernel_space b pages_va envs_va np va = (case stack_of NCPU va of None \<Rightarrow> None
        | Some i \<Rightarrow> Some ((percpu_kstack b i - KERNBASE) + (va - stack_base i), PTE_P OR PTE_W))"
      unfolding defs by (simp_all only: s if_False)
    note space = this stacks_entry_of [OF order_refl]
    show ?thesis
    proof (cases "stack_of NCPU va")
      case None
      then show ?thesis by (simp add: space)
    next
      case (Some i)
      note i = stack_of_Some [OF this]
      then have "stack_page i \<le> pgno va" using stack_bounds(1) by blast
      from region_case [OF PGOFF_sub_KERNBASE ad(3) fl(5,6) this, of "percpu_kstack b i"] i al Some show ?thesis
        by (simp add: space stack_base_page Let_def)
    qed
  qed
qed

lemma UTOP_pgno: "UTOP \<le> va \<longleftrightarrow> 0xEEC00 \<le> pgno va"
proof -
  have "UTOP = page_va 0xEEC00" by (simp add: page_va_def layout_values PGSIZE_def)
  then show ?thesis by (simp add: pgno_le)
qed

text \<open>Every address outside the slot of \<open>UVPT\<close>, the last page of the address space, which stays unmapped, included.\<close>

lemma mem_init_map_translates:
  assumes "map_ready b pages_va envs_va s xs pd" "aligned_image b pages_va envs_va"
  shows "\<exists>t. mem_init_map b pages_va envs_va s = Ret () t \<and>
    (\<forall>va. unat (PDX va) \<noteq> UV \<longrightarrow> translate t pd va =
      (if UTOP \<le> va then kernel_space b pages_va envs_va (npages s) va else translate s pd va))"
proof -
  from assms(1) have ok: "dir_ok s xs pd" by (simp add: map_ready_def)
  have np: "0 < npages s" "npages s \<le> 2 ^ 16" using dir_okD(1,2) [OF ok] by (auto simp: free_pages_ok_def)
  from mem_init_map_ok [OF assms(1)] obtain t ys where t: "mem_init_map b pages_va envs_va s = Ret () t" "dir_ok t ys pd"
    "\<And>m. m div 1024 < 1024 \<Longrightarrow> m div 1024 \<noteq> UV \<Longrightarrow>
      entry t pd m = (if m < 0xEEC00 then entry s pd m else kernel_entry b pages_va envs_va (npages s) m)" by blast
  have "translate t pd va = (if UTOP \<le> va then kernel_space b pages_va envs_va (npages s) va else translate s pd va)"
    if uv: "unat (PDX va) \<noteq> UV" for va
    using t(3) [of "pgno va"] uv kernel_entry_space [OF np assms(2), of va]
    by (simp add: translate_entry [OF ok uv] translate_entry [OF t(2) uv] pgno_index UTOP_pgno)
  with t(1) show ?thesis by blast
qed

text \<open>
  C35: The memory map of inc/memlayout.h up to the last page: with enough free frames and page aligned
  arrays and stacks, on a machine with less than 256 MB of memory, \<open>mem_init\<close> returns, and every
  linear address from \<open>UTOP\<close> to 0xFFFFEFFF stands for the physical address the map
  names, with its permissions: the environments at \<open>UENVS\<close> and the page descriptors at \<open>UPAGES\<close> can be read
  by all, the stack of each CPU lies below a gap that is not mapped, physical memory is at \<open>KERNBASE\<close>,
  and nothing else is mapped. The addresses below \<open>UTOP\<close> keep their meaning. Left out are the slot of
  \<open>UVPT\<close>, where the directory itself is the page table, and the last page of the address space.
\<close>

theorem mem_init_map_kernel_space:
  assumes "map_ready b pages_va envs_va s xs pd" "aligned_image b pages_va envs_va" "npages s < 2 ^ 16"
  shows "\<exists>t. mem_init_map b pages_va envs_va s = Ret () t \<and>
    (\<forall>va < 0xFFFFF000. unat (PDX va) \<noteq> UV \<longrightarrow> translate t pd va =
      (if UTOP \<le> va then kernel_space b pages_va envs_va (npages s) va else translate s pd va))"
  using mem_init_map_translates [OF assms(1,2)] by blast

lemma kernel_space_rights:
  assumes "kernel_space b pages_va envs_va np va = Some (pa, r)" "0 < np" "np \<le> 2 ^ 16"
  shows "r AND PTE_U \<noteq> 0 \<longrightarrow> va < ULIM \<and> r AND PTE_W = 0"
proof -
  have "page_va (0xEF000 + pages_count np) \<le> page_va 0xEF800"
    using pages_region(3) [OF assms(2,3)] by (simp add: word_le_nat_alt page_va_index(1))
  moreover have "UPAGES + ROUNDUP (of_nat np * PageInfo_size) PGSIZE = page_va (0xEF000 + pages_count np)"
    by (simp add: pages_region(6) [OF assms(2,3)]) (simp add: page_va_def layout_values PGSIZE_def algebra_simps)
  moreover have "page_va 0xEF800 = ULIM" "UENVS + ROUNDUP (of_nat NENV * Env_size) PGSIZE \<le> ULIM"
    by (simp_all add: page_va_def layout_values PGSIZE_def NENV_def LOG2NENV_def Env_size_def ROUNDUP_def ROUNDDOWN_def)
  ultimately show ?thesis
    using assms(1) by (auto simp: kernel_space_def PTE_U_def PTE_W_def PTE_P_def split: if_splits option.splits)
qed

text \<open>
  C36: The protection of the kernel: after \<open>mem_init\<close> user mode has no access at \<open>ULIM\<close> or above, and between
  \<open>UTOP\<close> and \<open>ULIM\<close> it may read but not write, also in the slot of \<open>UVPT\<close>, where the page tables
  themselves can be read.
\<close>

theorem mem_init_map_protects:
  assumes "map_ready b pages_va envs_va s xs pd" "aligned_image b pages_va envs_va"
    "kmem s pd UV = (page2pa pd OR PTE_U) OR PTE_P"
  shows "\<exists>t. mem_init_map b pages_va envs_va s = Ret () t \<and>
    (\<forall>va pa r. UTOP \<le> va \<longrightarrow> translate t pd va = Some (pa, r) \<longrightarrow> r AND PTE_U \<noteq> 0 \<longrightarrow> va < ULIM \<and> r AND PTE_W = 0)"
proof -
  from assms(1) have ok: "dir_ok s xs pd" by (simp add: map_ready_def)
  have np: "0 < npages s" "npages s \<le> 2 ^ 16" using dir_okD(1,2) [OF ok] by (auto simp: free_pages_ok_def)
  from mem_init_map_ok [OF assms(1)] obtain t ys where t: "mem_init_map b pages_va envs_va s = Ret () t" "dir_ok t ys pd"
    "grows pd s xs t ys"
    "\<And>m. m div 1024 < 1024 \<Longrightarrow> m div 1024 \<noteq> UV \<Longrightarrow>
      entry t pd m = (if m < 0xEEC00 then entry s pd m else kernel_entry b pages_va envs_va (npages s) m)" by blast
  have uv: "kmem t pd UV = (page2pa pd OR PTE_U) OR PTE_P" using t(3) assms(3) by (simp add: grows_def same_but_map_def)
  have "va < ULIM \<and> r AND PTE_W = 0" if u: "UTOP \<le> va" and tr: "translate t pd va = Some (pa, r)" and ru: "r AND PTE_U \<noteq> 0" for va pa r
  proof (cases "unat (PDX va) = UV")
    case True
    then have "unat va div 2 ^ 22 = 957" using unat_PDX [of va] by (simp add: slot_values)
    then have lim: "va < ULIM" by (simp add: word_less_nat_alt layout_values)
    have W: "x AND PTE_W = 0 \<longleftrightarrow> \<not> bit x 1" for x :: u32 by (simp add: bit_iff_and_push_bit_not_eq_0 PTE_W_def)
    have "\<not> bit (page2pa pd) 1" "\<not> bit PTE_U 1" "\<not> bit PTE_P 1" by (simp_all add: page2pa_def PTE_U_def PTE_P_def bit_simps)
    then have "\<not> bit (kmem t pd UV) 1" by (simp add: uv bit_simps)
    moreover obtain e where "r = (kmem t pd UV AND e) AND FLAGS"
      using tr True by (auto simp: translate_def mmu_def Let_def split: if_splits)
    ultimately have "r AND PTE_W = 0" by (simp add: W bit_simps)
    with lim show ?thesis by simp
  next
    case False
    with u tr t(4) [of "pgno va"] kernel_entry_space [OF np assms(2), of va]
    have "kernel_space b pages_va envs_va (npages s) va = Some (pa, r)"
      by (simp add: translate_entry [OF t(2) False] pgno_index UTOP_pgno)
    from kernel_space_rights [OF this np] ru show ?thesis by blast
  qed
  with t(1) show ?thesis by blast
qed

section \<open>The check of the directory\<close>

lemma forO_checks: "(\<And>x. x \<in> set xs \<Longrightarrow> f x s = Ret () s) \<Longrightarrow> forO f xs s = Ret () s"
  by (induction xs) simp_all

lemma check_va2pa_entry:
  assumes ok: "dir_ok s xs pd" and uv: "unat (PDX va) \<noteq> UV"
  shows "check_va2pa pd va s = Ret (let e = entry s pd (pgno va) in if e AND PTE_P = 0 then NOT 0 else PTE_ADDR e) s"
proof (cases "has_tbl s pd (unat (PDX va))")
  case True
  let ?e = "kmem s pd (unat (PDX va))"
  from dir_okD(5) [OF ok PDX_less uv True] have "unat (PGNUM ?e) < npages s" by (simp add: tbl_def frame_of_def)
  then have "kaddr (PTE_ADDR ?e) s = Ret (PTE_ADDR ?e + KERNBASE) s" by (simp add: kaddr_def)
  moreover have "?e AND PTE_P \<noteq> 0" using True by (simp add: has_tbl_def)
  ultimately show ?thesis
    using True by (simp add: check_va2pa_def Let_def kva_frame_kaddr entry_def pgno_index pte_def tbl_def frame_of_def)
next
  case False
  with dir_okD(4) [OF ok PDX_less uv False] show ?thesis by (simp add: check_va2pa_def entry_def pgno_index)
qed

text \<open>A test of page \<open>n\<close>.\<close>

lemma check_mapped_page:
  assumes "dir_ok s xs pd" "kern_pgdir s = pd" "n < 2 ^ 20" "n div 1024 \<noteq> UV"
    "pa = (if entry s pd n AND PTE_P = 0 then NOT 0 else PTE_ADDR (entry s pd n))"
  shows "check_mapped (page_va n) pa s = Ret () s"
proof -
  have "pgno (page_va n) = n" using page_va_index(1) [OF assms(3)] by (simp add: pgno_def unat_PGNUM)
  with check_va2pa_entry [OF assms(1), of "page_va n"] assms(2-5) page_va_index(2) [OF assms(3)] show ?thesis
    by (simp add: check_mapped_def check_def Let_def)
qed

lemma check_mapped_region:
  assumes "dir_ok s xs pd" "kern_pgdir s = pd" "n + i < 2 ^ 20" "(n + i) div 1024 \<noteq> UV"
    "entry s pd (n + i) = region_entry pa perm i" "PGOFF pa = 0" "PTE_ADDR perm = 0"
  shows "check_mapped (page_va n + of_nat i * PGSIZE) (pa + of_nat i * PGSIZE) s = Ret () s"
proof -
  have "page_va n + of_nat i * PGSIZE = page_va (n + i)" by (simp add: page_va_def algebra_simps)
  with check_mapped_page [OF assms(1-4) refl] region_entry_parts [OF assms(6,7), of i] show ?thesis by (simp add: assms(5))
qed

lemma page_offsets_all:
  assumes "\<And>i. i < unat (n div PGSIZE) \<Longrightarrow> f (of_nat i * PGSIZE) s = Ret () s"
  shows "forO f (page_offsets n) s = Ret () s"
  by (rule forO_checks) (auto simp: page_offsets_def assms)

lemma KSTKGAP_pages: "unat (KSTKGAP div PGSIZE) = 8" by (simp add: KSTKGAP_def PGSIZE_def)

lemma stacks_entry_at: "n \<le> NCPU \<Longrightarrow> i < n \<Longrightarrow> j < 8 \<Longrightarrow> stacks_entry b n (stack_page i + j) e =
    region_entry (percpu_kstack b i - KERNBASE) (PTE_P OR PTE_W) j"
  by (induction n) (auto simp: stack_page_def NCPU_def less_Suc_eq)

lemma stacks_entry_gap: "n \<le> NCPU \<Longrightarrow> i < NCPU \<Longrightarrow> j < 8 \<Longrightarrow> stacks_entry b n (stack_page i - 8 + j) e = e"
proof (induction n)
  case (Suc n)
  then have "\<not> (stack_page n \<le> stack_page i - 8 + j \<and> stack_page i - 8 + j < stack_page n + 8)"
    by (cases n i rule: linorder_cases) (simp_all add: stack_page_def NCPU_def, arith)
  with Suc show ?case by auto
qed simp

lemma check_stack_ok:
  assumes ok: "dir_ok t ys pd" and kp: "kern_pgdir t = pd" and b: "\<forall>i<NCPU. KERNBASE \<le> percpu_kstack b i"
    and al: "aligned_image b pages_va envs_va" and n: "n < NCPU"
    and e: "\<And>m. m div 1024 = 959 \<Longrightarrow> entry t pd m = stacks_entry b NCPU m 0"
  shows "check_stack b n t = Ret () t"
proof -
  define base where "base = KSTACKTOP - (KSTKSIZE + KSTKGAP) * (of_nat n + 1)"
  have "n \<in> {0, 1, 2, 3, 4, 5, 6, 7}" using n by (auto simp: NCPU_def)
  then have base: "base = page_va (stack_page n - 8)" "base + KSTKGAP = page_va (stack_page n)"
    by (auto simp: base_def page_va_def stack_page_def layout_values KSTKSIZE_def KSTKGAP_def PGSIZE_def)
  have ix: "(stack_page n + j) div 1024 = 959" "(stack_page n - 8 + j) div 1024 = 959"
    "stack_page n + j < 2 ^ 20" "stack_page n - 8 + j < 2 ^ 20" if "j < 8" for j
    using n that by (auto simp: stack_page_def NCPU_def intro!: div_nat_eqI)
  have uv: "(959 :: nat) \<noteq> UV" by (simp add: slot_values)
  have pa: "paddr (percpu_kstack b n) t = Ret (percpu_kstack b n - KERNBASE) t" using b n by (simp add: paddr_ok)
  have off: "PGOFF (percpu_kstack b n - KERNBASE) = 0" using al n by (simp add: aligned_image_def PGOFF_sub_KERNBASE)
  have "forO (\<lambda>i s. bindO (paddr (percpu_kstack b n) s) (\<lambda>pa s. check_mapped (base + KSTKGAP + i) (pa + i) s)) (page_offsets KSTKSIZE) t = Ret () t"
  proof (rule page_offsets_all)
    fix j assume "j < unat (KSTKSIZE div PGSIZE)"
    then have j: "j < 8" by (simp add: KSTK_pages)
    show "bindO (paddr (percpu_kstack b n) t) (\<lambda>pa s. check_mapped (base + KSTKGAP + of_nat j * PGSIZE) (pa + of_nat j * PGSIZE) s) = Ret () t"
      using check_mapped_region [OF ok kp ix(3) [OF j] _ _ off, of "PTE_P OR PTE_W"] ix [OF j] uv
        e [OF ix(1) [OF j]] stacks_entry_at [OF order_refl n j]
      by (simp add: pa base(2) PTE_ADDR_or)
  qed
  moreover have "forO (\<lambda>i s. check_mapped (base + i) (NOT 0) s) (page_offsets KSTKGAP) t = Ret () t"
  proof (rule page_offsets_all)
    fix j assume "j < unat (KSTKGAP div PGSIZE)"
    then have j: "j < 8" by (simp add: KSTKGAP_pages)
    have "base + of_nat j * PGSIZE = page_va (stack_page n - 8 + j)" by (simp add: base(1) page_va_def algebra_simps)
    then show "check_mapped (base + of_nat j * PGSIZE) (NOT 0) t = Ret () t"
      using check_mapped_page [OF ok kp ix(4) [OF j]] ix [OF j] uv e [OF ix(2) [OF j]] stacks_entry_gap [OF order_refl n j]
      by simp
  qed
  ultimately show ?thesis by (simp add: check_stack_def base_def Let_def)
qed

text \<open>The tests of single slots of the directory.\<close>

lemma check_pde_ok:
  assumes ok: "dir_ok t ys pd" and kp: "kern_pgdir t = pd" and i: "i < 1024"
    and uv: "kmem t pd UV AND PTE_P \<noteq> 0" and T: "tables t pd = {955, 956, 958, 959} \<union> {960..1023}"
  shows "check_pde i t = Ret () t"
proof (cases "i = UV")
  case True
  with uv kp show ?thesis by (simp add: check_pde_def Let_def check_def)
next
  case False
  show ?thesis
  proof (cases "i \<in> tables t pd")
    case True
    then have h: "has_tbl t pd i" by (simp add: tables_def)
    from dir_okD(5) [OF ok i False h] obtain p where p: "kmem t pd i = pde_for p" by blast
    have W: "x AND PTE_W = 0 \<longleftrightarrow> \<not> bit x 1" for x :: u32 by (simp add: bit_iff_and_push_bit_not_eq_0 PTE_W_def)
    have "pde_for p AND PTE_W \<noteq> 0" using pde_for_low_bits [of 1 p] by (simp add: W)
    with h p True T i show ?thesis
      by (auto simp: check_pde_def Let_def check_def slot_values kp)
  next
    case False
    with i \<open>i \<noteq> UV\<close> have "\<not> has_tbl t pd i" by (simp add: tables_def)
    from dir_okD(4) [OF ok i \<open>i \<noteq> UV\<close> this] False T i \<open>i \<noteq> UV\<close> show ?thesis
      by (simp add: check_pde_def Let_def check_def slot_values kp)
  qed
qed

text \<open>The state after the regions have been set up.\<close>

definition kernel_mapped :: "bootsyms \<Rightarrow> u32 \<Rightarrow> u32 \<Rightarrow> kstate \<Rightarrow> nat \<Rightarrow> bool" where
  "kernel_mapped b pages_va envs_va t pd \<longleftrightarrow> (\<exists>ys. dir_ok t ys pd) \<and> kern_pgdir t = pd \<and>
     KERNBASE \<le> pages_va \<and> KERNBASE \<le> envs_va \<and> (\<forall>i<NCPU. KERNBASE \<le> percpu_kstack b i) \<and>
     aligned_image b pages_va envs_va \<and> (\<forall>m. 0xEEC00 \<le> m \<longrightarrow> m div 1024 < 1024 \<longrightarrow> m div 1024 \<noteq> UV \<longrightarrow>
       entry t pd m = kernel_entry b pages_va envs_va (npages t) m)"

lemma kernel_mappedD:
  assumes "kernel_mapped b pages_va envs_va t pd"
  obtains ys where "dir_ok t ys pd" "kern_pgdir t = pd" "KERNBASE \<le> pages_va" "KERNBASE \<le> envs_va"
    "\<forall>i<NCPU. KERNBASE \<le> percpu_kstack b i" "aligned_image b pages_va envs_va" "0 < npages t" "npages t \<le> 2 ^ 16"
    "\<And>m. 0xEEC00 \<le> m \<Longrightarrow> m div 1024 < 1024 \<Longrightarrow> m div 1024 \<noteq> UV \<Longrightarrow> entry t pd m = kernel_entry b pages_va envs_va (npages t) m"
proof -
  from assms obtain ys where ys: "dir_ok t ys pd" by (auto simp: kernel_mapped_def)
  then have "0 < npages t" "npages t \<le> 2 ^ 16" using dir_okD(1,2) [OF ys] by (auto simp: free_pages_ok_def)
  with ys assms that show ?thesis by (simp add: kernel_mapped_def)
qed

lemma region_page_vas:
  "UPAGES = page_va 0xEF000" "UENVS = page_va 0xEEC00" "KERNBASE = page_va 0xF0000"
  by (simp_all add: page_va_def PGSIZE_def layout_values KERNBASE_def)

lemma check_pages_ok:
  assumes "kernel_mapped b pages_va envs_va t pd"
  shows "forO (\<lambda>i s. bindO (paddr pages_va s) (\<lambda>pa s. check_mapped (UPAGES + i) (pa + i) s))
      (page_offsets (ROUNDUP (of_nat (npages t) * PageInfo_size) PGSIZE)) t = Ret () t"
  using assms
proof (rule kernel_mappedD)
  fix ys assume t: "dir_ok t ys pd" "kern_pgdir t = pd" "KERNBASE \<le> pages_va" "aligned_image b pages_va envs_va" "0 < npages t" "npages t \<le> 2 ^ 16"
    and e: "\<And>m. 0xEEC00 \<le> m \<Longrightarrow> m div 1024 < 1024 \<Longrightarrow> m div 1024 \<noteq> UV \<Longrightarrow> entry t pd m = kernel_entry b pages_va envs_va (npages t) m"
  note P = pages_region [OF t(5,6)]
  have al: "PGOFF (pages_va - KERNBASE) = 0" "PTE_ADDR (PTE_U OR PTE_P) = 0"
    using t(4) by (simp_all add: aligned_image_def PGOFF_sub_KERNBASE PTE_ADDR_or)
  show ?thesis
  proof (rule page_offsets_all)
    fix i assume "i < unat (ROUNDUP (of_nat (npages t) * PageInfo_size) PGSIZE div PGSIZE)"
    then have i: "i < pages_count (npages t)" by (simp only: P(1))
    then have d: "(0xEF000 + i) div 1024 = 956" using P(3) by (intro div_nat_eqI) simp_all
    have "entry t pd (0xEF000 + i) = region_entry (pages_va - KERNBASE) (PTE_U OR PTE_P) i"
      using e [of "0xEF000 + i"] d i by (simp add: slot_values kernel_entry_def)
    from check_mapped_region [OF t(1,2) _ _ this al] d i P(3)
    show "bindO (paddr pages_va t) (\<lambda>pa s. check_mapped (UPAGES + of_nat i * PGSIZE) (pa + of_nat i * PGSIZE) s) = Ret () t"
      by (simp add: paddr_ok t(3) region_page_vas(1) slot_values)
  qed
qed

lemma check_envs_ok:
  assumes "kernel_mapped b pages_va envs_va t pd"
  shows "forO (\<lambda>i s. bindO (paddr envs_va s) (\<lambda>pa s. check_mapped (UENVS + i) (pa + i) s))
      (page_offsets (ROUNDUP (of_nat NENV * Env_size) PGSIZE)) t = Ret () t"
  using assms
proof (rule kernel_mappedD)
  fix ys assume t: "dir_ok t ys pd" "kern_pgdir t = pd" "KERNBASE \<le> envs_va" "aligned_image b pages_va envs_va"
    and e: "\<And>m. 0xEEC00 \<le> m \<Longrightarrow> m div 1024 < 1024 \<Longrightarrow> m div 1024 \<noteq> UV \<Longrightarrow> entry t pd m = kernel_entry b pages_va envs_va (npages t) m"
  have al: "PGOFF (envs_va - KERNBASE) = 0" "PTE_ADDR (PTE_U OR PTE_P) = 0"
    using t(4) by (simp_all add: aligned_image_def PGOFF_sub_KERNBASE PTE_ADDR_or)
  show ?thesis
  proof (rule page_offsets_all)
    fix i assume "i < unat (ROUNDUP (of_nat NENV * Env_size) PGSIZE div PGSIZE)"
    then have i: "i < 31" by (simp only: envs_region)
    then have d: "(0xEEC00 + i) div 1024 = 955" by (intro div_nat_eqI) simp_all
    have "entry t pd (0xEEC00 + i) = region_entry (envs_va - KERNBASE) (PTE_U OR PTE_P) i"
      using e [of "0xEEC00 + i"] d i by (simp add: slot_values kernel_entry_def)
    from check_mapped_region [OF t(1,2) _ _ this al] d i
    show "bindO (paddr envs_va t) (\<lambda>pa s. check_mapped (UENVS + of_nat i * PGSIZE) (pa + of_nat i * PGSIZE) s) = Ret () t"
      by (simp add: paddr_ok t(3) region_page_vas(2) slot_values)
  qed
qed

text \<open>Physical memory: all but the last page of 256 MB.\<close>

lemma check_phys_page:
  assumes "kernel_mapped b pages_va envs_va t pd" "i < 2 ^ 16"
  shows "check_mapped (KERNBASE + of_nat i * PGSIZE) (of_nat i * PGSIZE) t =
    (if i = 0xFFFF then Panic ''assertion failed'' else Ret () t)"
  using assms(1)
proof (rule kernel_mappedD)
  fix ys assume t: "dir_ok t ys pd" "kern_pgdir t = pd" "0 < npages t" "npages t \<le> 2 ^ 16"
    and e: "\<And>m. 0xEEC00 \<le> m \<Longrightarrow> m div 1024 < 1024 \<Longrightarrow> m div 1024 \<noteq> UV \<Longrightarrow> entry t pd m = kernel_entry b pages_va envs_va (npages t) m"
  note P = pages_region(3) [OF t(3,4)]
  have d: "(0xF0000 + i) div 1024 < 1024" "960 \<le> (0xF0000 + i) div 1024" using assms(2) by (simp_all add: less_eq_div_iff_mult_less_eq)
  show ?thesis
  proof (cases "i = 0xFFFF")
    case True
    have z: "entry t pd 0xFFFFF = 0"
      using e [of "0xFFFFF"] P by (simp add: slot_values kernel_entry_def stacks_entry_out)
    have va: "KERNBASE + of_nat i * PGSIZE = page_va 0xFFFFF" using True by (simp add: page_va_def PGSIZE_def KERNBASE_def)
    have ix: "unat (PDX (page_va 0xFFFFF)) = 1023" "pgno (page_va 0xFFFFF) = 0xFFFFF"
      by (simp_all add: page_va_index pgno_def unat_PGNUM)
    have "check_va2pa pd (page_va 0xFFFFF) t = Ret (NOT 0) t"
      using check_va2pa_entry [OF t(1), of "page_va 0xFFFFF"] ix z by (simp add: slot_values)
    moreover have "of_nat i * PGSIZE \<noteq> NOT 0" using True by (simp add: PGSIZE_def)
    ultimately show ?thesis unfolding va check_mapped_def t(2) check_def using True by simp
  next
    case False
    then have "entry t pd (0xF0000 + i) = region_entry 0 (PTE_W OR PTE_P) i"
      using e [of "0xF0000 + i"] d P assms(2) by (simp add: slot_values kernel_entry_def)
    from check_mapped_region [OF t(1,2) _ _ this] d False assms(2) show ?thesis
      by (simp add: region_page_vas(3) slot_values PTE_ADDR_or PGOFF_dvd)
  qed
qed

lemma check_stacks_ok:
  assumes "kernel_mapped b pages_va envs_va t pd"
  shows "forO (check_stack b) [0..<NCPU] t = Ret () t"
  using assms
proof (rule kernel_mappedD)
  fix ys assume t: "dir_ok t ys pd" "kern_pgdir t = pd" "\<forall>i<NCPU. KERNBASE \<le> percpu_kstack b i" "aligned_image b pages_va envs_va"
    "0 < npages t" "npages t \<le> 2 ^ 16"
    and e: "\<And>m. 0xEEC00 \<le> m \<Longrightarrow> m div 1024 < 1024 \<Longrightarrow> m div 1024 \<noteq> UV \<Longrightarrow> entry t pd m = kernel_entry b pages_va envs_va (npages t) m"
  have "entry t pd m = stacks_entry b NCPU m 0" if m: "m div 1024 = 959" for m
  proof -
    have "m = 959 * 1024 + m mod 1024" using div_mult_mod_eq [of m 1024] m by simp
    then have "959 * 1024 \<le> m" "m < 960 * 1024" using mod_less_divisor [of 1024 m] by linarith+
    then show ?thesis using e [of m] m pages_region(3) [OF t(5,6)] by (simp add: slot_values kernel_entry_def)
  qed
  then show ?thesis by (intro forO_checks check_stack_ok [OF t(1-4)]) auto
qed

lemma phys_pages_count: "np \<le> 2 ^ 16 \<Longrightarrow> unat (of_nat np * PGSIZE div PGSIZE) = np"
  using page_va_index(1) [of np] by (simp add: page_va_def unat_div_distrib) (simp add: PGSIZE_def)

lemma check_kern_pgdir_run:
  assumes k: "kernel_mapped b pages_va envs_va t pd" and uv: "kmem t pd UV AND PTE_P \<noteq> 0"
    and T: "tables t pd = {958} \<union> ({955, 956, 959} \<union> {960..1023})"
  shows "check_kern_pgdir b pages_va envs_va t =
    (if npages t = 2 ^ 16 then Panic ''assertion failed''
     else Ret () (kputs (nl (chars ''check_kern_pgdir() succeeded!'')) t))"
proof -
  from kernel_mappedD [OF k] obtain ys where t: "dir_ok t ys pd" "kern_pgdir t = pd" "npages t \<le> 2 ^ 16" by metis
  let ?f = "\<lambda>i s. check_mapped (KERNBASE + i) i s"
  have phys: "forO ?f (map (\<lambda>k. of_nat k * PGSIZE) [0..<n]) t = Ret () t" if "n \<le> 0xFFFF" for n
    using that check_phys_page [OF k] by (intro forO_checks) auto
  have "[0..<2 ^ 16] = [0..<0xFFFF] @ [0xFFFF :: nat]" by (simp flip: upt_Suc_append)
  then have "forO ?f (page_offsets (of_nat (npages t) * PGSIZE)) t = (if npages t = 2 ^ 16 then Panic ''assertion failed'' else Ret () t)"
    using t(3) phys [of "npages t"] phys [of "0xFFFF"] check_phys_page [OF k, of "0xFFFF"]
    by (auto simp: page_offsets_def phys_pages_count forO_append)
  moreover have "forO check_pde [0..<NPDENTRIES] t = Ret () t"
    using T by (intro forO_checks check_pde_ok [OF t(1,2) _ uv]) (auto simp: NPDENTRIES_def)
  ultimately show ?thesis
    using check_pages_ok [OF k] check_envs_ok [OF k] check_stacks_ok [OF k] by (simp add: check_kern_pgdir_def)
qed

text \<open>
  The self-test \<open>check_kern_pgdir\<close> after \<open>mem_init\<close> has set up the regions, with the slot of the memory
  mapped devices in use as \<open>check_page\<close> leaves it. With less than 256 MB of memory it returns and has
  changed nothing but the screen; with 256 MB it stops the boot with a failed assertion, since
  the size given for the region at \<open>KERNBASE\<close> leaves out the last page of the address space.
\<close>

theorem check_kern_pgdir_result:
  assumes "map_ready b pages_va envs_va s xs pd" "aligned_image b pages_va envs_va"
    "kmem s pd UV AND PTE_P \<noteq> 0" "tables s pd = {958}"
  shows "\<exists>t. mem_init_map b pages_va envs_va s = Ret () t \<and> check_kern_pgdir b pages_va envs_va t =
    (if npages s = 2 ^ 16 then Panic ''assertion failed''
     else Ret () (kputs (nl (chars ''check_kern_pgdir() succeeded!'')) t))"
proof -
  from mem_init_map_ok [OF assms(1)] obtain t ys where t: "mem_init_map b pages_va envs_va s = Ret () t" "dir_ok t ys pd"
    "grows pd s xs t ys" "tables t pd = tables s pd \<union> ({955, 956, 959} \<union> {960..1023})"
    and e: "\<forall>m. m div 1024 < 1024 \<longrightarrow> m div 1024 \<noteq> UV \<longrightarrow>
      entry t pd m = (if m < 0xEEC00 then entry s pd m else kernel_entry b pages_va envs_va (npages s) m)" by blast
  have kp: "kern_pgdir t = pd" and uv: "kmem t pd UV AND PTE_P \<noteq> 0" and np: "npages t = npages s"
    using t(3) assms(1,3) by (simp_all add: grows_def same_but_map_def map_ready_def)
  have "kernel_mapped b pages_va envs_va t pd"
    using t(2) kp assms(1,2) e np by (auto simp: kernel_mapped_def map_ready_def)
  from check_kern_pgdir_run [OF this uv] t(1,4) show ?thesis by (simp only: assms(4) np) blast
qed

section \<open>Witnesses\<close>

text \<open>A machine with 256 frames, of which 100 to 199 are free; frame 3 holds the directory, frame 2 a page table.\<close>

definition map_demo :: kstate where
  "map_demo = bss_state\<lparr>npages := 256, kern_pgdir := 3, page_free_list := Some 100,
     pages := (\<lambda>i. \<lparr>pp_link = (if 100 \<le> i \<and> i < 199 then Some (i + 1) else None),
                  pp_ref = (if 100 \<le> i \<and> i < 200 then 0 else 1)\<rparr>),
     kmem := (\<lambda>p i. if p = 3 \<and> i = 957 then (page2pa 3 OR PTE_U) OR PTE_P
                    else if p = 3 \<and> i = 958 then pde_for 2 else 0)\<rparr>"

definition demo_syms :: bootsyms where
  "demo_syms = \<lparr>sym_kend = 0xF0120000, sym_pages = 0xF0110000, sym_bootstack = 0xF0108000, sym_kstacks = 0xF0110000\<rparr>"

lemma chain_upt: "a < b \<Longrightarrow> (\<And>i. a \<le> i \<Longrightarrow> Suc i < b \<Longrightarrow> f i = Some (Suc i)) \<Longrightarrow> f (b - 1) = None \<Longrightarrow> chain f (Some a) [a..<b]"
proof (induction "b - a" arbitrary: a)
  case (Suc k)
  show ?case
  proof (cases "Suc a = b")
    case True
    then show ?thesis using Suc.prems(3) by auto
  next
    case False
    then have "chain f (Some (Suc a)) [Suc a..<b]" using Suc by (intro Suc.hyps(1)) auto
    moreover have "[a..<b] = a # [Suc a..<b]" "f a = Some (Suc a)" using Suc.prems(1,2) False by (auto simp: upt_conv_Cons)
    ultimately show ?thesis by simp
  qed
qed simp

lemma map_demo_simps [simp]: "npages map_demo = 256" "kern_pgdir map_demo = 3"
  "kmem map_demo 3 957 = (page2pa 3 OR PTE_U) OR PTE_P" "kmem map_demo 3 958 = pde_for 2"
  "i \<noteq> 957 \<Longrightarrow> i \<noteq> 958 \<Longrightarrow> kmem map_demo 3 i = 0" "kmem map_demo 2 i = 0"
  by (simp_all add: map_demo_def)

lemma PTE_P_nonzero [simp]: "PTE_P \<noteq> 0" by (simp add: PTE_P_def)

lemma map_demo_dir: "dir_ok map_demo [100..<200] 3"
proof -
  have "chain (\<lambda>p. pp_link (pages map_demo p)) (page_free_list map_demo) [100..<200]"
    using chain_upt [of 100 200 "\<lambda>p. pp_link (pages map_demo p)"] by (simp add: map_demo_def)
  then have "free_pages_ok map_demo [100..<200]"
    unfolding free_pages_ok_def by (auto simp del: upt_rec_numeral) (auto simp: map_demo_def)
  moreover have "has_tbl map_demo 3 i \<longleftrightarrow> i = 958" if "i \<noteq> 957" for i
    using that by (cases "i = 958") (simp_all add: has_tbl_def)
  ultimately show ?thesis
    unfolding dir_ok_def slot_values
    by (auto simp del: upt_rec_numeral intro!: exI [of _ 2]) (metis map_demo_simps(4,5))
qed

lemma map_demo_tables: "has_tbl map_demo 3 i \<longleftrightarrow> i = 957 \<or> i = 958" "tables map_demo 3 = {958}"
proof -
  show h: "has_tbl map_demo 3 i \<longleftrightarrow> i = 957 \<or> i = 958" for i
    by (cases "i = 957"; cases "i = 958") (simp_all add: has_tbl_def)
  show "tables map_demo 3 = {958}" by (auto simp: tables_def slot_values h)
qed

lemma map_demo_entry: "m div 1024 \<noteq> UV \<Longrightarrow> entry map_demo 3 m = 0"
proof -
  assume m: "m div 1024 \<noteq> UV"
  have "tbl map_demo 3 958 = 2" using pde_for_frame [of 2] by (simp add: tbl_def)
  with m show ?thesis by (auto simp: entry_def map_demo_tables(1) pte_def slot_values)
qed

lemma demo_image: "map_ready demo_syms 0xF0130000 0xF0140000 map_demo [100..<200] 3" "aligned_image demo_syms 0xF0130000 0xF0140000"
proof -
  have k: "KERNBASE \<le> percpu_kstack demo_syms i" "PGOFF (percpu_kstack demo_syms i) = 0" if "i < NCPU" for i
  proof -
    have "i \<in> {0, 1, 2, 3, 4, 5, 6, 7}" using that by (auto simp: NCPU_def)
    then show "KERNBASE \<le> percpu_kstack demo_syms i" "PGOFF (percpu_kstack demo_syms i) = 0"
      by (auto simp: percpu_kstack_def demo_syms_def KERNBASE_def KSTKSIZE_def PGSIZE_def PGOFF_def)
  qed
  then show "map_ready demo_syms 0xF0130000 0xF0140000 map_demo [100..<200] 3"
    using map_demo_dir map_demo_entry
    by (simp add: map_ready_def KERNBASE_def demo_syms_def del: upt_rec_numeral)
  show "aligned_image demo_syms 0xF0130000 0xF0140000" using k by (simp add: aligned_image_def PGOFF_def)
qed

theorem boot_map_region_maps_witness:
  "\<exists>t. boot_map_region 3 (page_va 0) PGSIZE 0x5000 PTE_W map_demo = Ret () t \<and> entry t 3 0 = region_entry 0x5000 PTE_W 0"
proof -
  have r: "region_slots 0 1 = {0}" "unat (PGSIZE div PGSIZE) = 1" by (simp_all add: region_slots_def PGSIZE_def)
  have "card (region_slots 0 1 - tables map_demo 3) \<le> length [100..<200 :: nat]"
    unfolding r(1) map_demo_tables(2) length_upt by (simp del: upt_rec_numeral)
  moreover have "UV \<notin> region_slots 0 1" unfolding r(1) by (simp add: slot_values)
  moreover have "(0 :: nat) + 1 \<le> 2 ^ 20" by simp
  ultimately obtain t where t: "boot_map_region 3 (page_va 0) PGSIZE 0x5000 PTE_W map_demo = Ret () t"
    "\<forall>m. m div 1024 < 1024 \<longrightarrow> m div 1024 \<noteq> UV \<longrightarrow>
      entry t 3 m = (if 0 \<le> m \<and> m < 0 + 1 then region_entry 0x5000 PTE_W (m - 0) else entry map_demo 3 m)"
    using boot_map_region_maps [OF map_demo_dir r(2)] by blast
  from t(2) [rule_format, of 0] t(1) show ?thesis by (simp add: slot_values)
qed

theorem mem_init_map_kernel_space_witness:
  "\<exists>t. mem_init_map demo_syms 0xF0130000 0xF0140000 map_demo = Ret () t \<and>
    translate t 3 0xF0001234 = Some (0x1234, PTE_W OR PTE_P) \<and> translate t 3 0xEFFF7FFF = None"
proof -
  have "stack_of NCPU 0xEFFF7FFF = None"
  proof (cases "stack_of NCPU 0xEFFF7FFF")
    case (Some i)
    note b = stack_of_Some [OF this]
    then have "stack_page i \<le> 983031" "983031 < stack_page i + 8"
      using stack_bounds [of i "0xEFFF7FFF"] by (simp_all add: pgno_def unat_PGNUM)
    moreover have "i < 8" using b by (simp add: NCPU_def)
    ultimately have False unfolding stack_page_def by presburger
    then show ?thesis ..
  qed simp
  then have "kernel_space demo_syms 0xF0130000 0xF0140000 256 0xF0001234 = Some (0x1234, PTE_W OR PTE_P)"
    "kernel_space demo_syms 0xF0130000 0xF0140000 256 0xEFFF7FFF = None"
    by (simp_all add: kernel_space_def layout_values KERNBASE_def NENV_def LOG2NENV_def Env_size_def PageInfo_size_def
      PGSIZE_def ROUNDUP_def ROUNDDOWN_def)
  moreover obtain t where "mem_init_map demo_syms 0xF0130000 0xF0140000 map_demo = Ret () t"
    "\<forall>va < 0xFFFFF000. unat (PDX va) \<noteq> UV \<longrightarrow> translate t 3 va =
      (if UTOP \<le> va then kernel_space demo_syms 0xF0130000 0xF0140000 (npages map_demo) va else translate map_demo 3 va)"
    using mem_init_map_kernel_space [OF demo_image] by auto
  moreover have "unat (PDX 0xF0001234) \<noteq> UV" "unat (PDX 0xEFFF7FFF) \<noteq> UV" "(0xF0001234 :: u32) < 0xFFFFF000" "(0xEFFF7FFF :: u32) < 0xFFFFF000" "UTOP \<le> 0xF0001234" "UTOP \<le> 0xEFFF7FFF"
    unfolding slot_values by (simp_all add: unat_PDX layout_values)
  ultimately show ?thesis by auto
qed

theorem mem_init_map_protects_witness:
  "\<exists>t. mem_init_map demo_syms 0xF0130000 0xF0140000 map_demo = Ret () t \<and>
    (\<forall>va pa r. UTOP \<le> va \<longrightarrow> translate t 3 va = Some (pa, r) \<longrightarrow> r AND PTE_U \<noteq> 0 \<longrightarrow> va < ULIM \<and> r AND PTE_W = 0)"
  by (rule mem_init_map_protects [OF demo_image]) (simp add: slot_values)

theorem check_kern_pgdir_result_witness:
  "\<exists>t. mem_init_map demo_syms 0xF0130000 0xF0140000 map_demo = Ret () t \<and>
    check_kern_pgdir demo_syms 0xF0130000 0xF0140000 t = Ret () (kputs (nl (chars ''check_kern_pgdir() succeeded!'')) t)"
proof -
  have "kmem map_demo 3 UV AND PTE_P \<noteq> 0" by (simp add: slot_values)
  from check_kern_pgdir_result [OF demo_image this map_demo_tables(2)] show ?thesis by simp
qed
end
