(* ===== verification/Jos_Selftest.thy ===== *)
theory Jos_Selftest
  imports Jos_KernMap
begin

text \<open>
  The self-tests \<open>mem_init\<close> runs (kern/pmap.c): of the free list, of the page allocator, of the
  page table operations, and of access through the page directory of the kernel. Consecutive assertions
  are one \<open>check\<close>. Writing to a page by \<open>memset\<close> with a length divisible by four stores words
  (lib/string.c).
\<close>

section \<open>Walking the free list\<close>

text \<open>
  A loop \<open>for (pp = h; pp; pp = pp->pp_link)\<close> with local variables \<open>a\<close>. On a cyclic list it does not end.
\<close>

partial_function (option) walk_list :: "(nat \<Rightarrow> 'a \<Rightarrow> kstate \<Rightarrow> 'a kres) \<Rightarrow> nat option \<Rightarrow> 'a \<Rightarrow> kstate \<Rightarrow> 'a kres option" where
  "walk_list f pp a s =
     (case pp of
        None \<Rightarrow> Some (Ret a s)
      | Some p \<Rightarrow>
          (case f p a s of
             Ret a s \<Rightarrow> walk_list f (pp_link (pages s p)) a s
           | Panic m \<Rightarrow> Some (Panic m)
           | Leave d s \<Rightarrow> Some (Leave d s)))"

definition for_list :: "(nat \<Rightarrow> 'a \<Rightarrow> kstate \<Rightarrow> 'a kres) \<Rightarrow> nat option \<Rightarrow> 'a \<Rightarrow> kstate \<Rightarrow> 'a kres" where
  "for_list f pp a s = (case walk_list f pp a s of None \<Rightarrow> Leave Spinning s | Some r \<Rightarrow> r)"

section \<open>Pieces the tests share\<close>

text \<open>\<open>assert((pp = page_alloc(f)))\<close> and \<open>assert(!page_alloc(0))\<close>.\<close>

definition alloc_some :: "u32 \<Rightarrow> kstate \<Rightarrow> nat kres" where
  "alloc_some f s = bindO (page_alloc f s) (\<lambda>r s. case r of None \<Rightarrow> Panic ''assertion failed'' | Some p \<Rightarrow> Ret p s)"

definition alloc_none :: "kstate \<Rightarrow> unit kres" where
  "alloc_none s = bindO (page_alloc 0 s) (\<lambda>r s. check (r = None) s)"

text \<open>\<open>memset(page2kva(pp), c, n)\<close>.\<close>

definition fill_words :: "nat \<Rightarrow> nat \<Rightarrow> u32 \<Rightarrow> kstate \<Rightarrow> kstate" where
  "fill_words p k w s = s\<lparr>kmem := (kmem s)(p := (\<lambda>i. if i < k then w else kmem s p i))\<rparr>"

definition memset_page :: "nat \<Rightarrow> u8 \<Rightarrow> nat \<Rightarrow> kstate \<Rightarrow> unit kres" where
  "memset_page pp c n s = bindO (page2kva pp s) (\<lambda>kva s.
     Ret () (fill_words (kva_frame kva) (n div 4)
       (((push_bit 24 (ucast c) OR push_bit 16 (ucast c)) OR push_bit 8 (ucast c)) OR ucast c) s))"

text \<open>The entry \<open>*pgdir_walk(kern_pgdir, va, 0)\<close>, and writing to it.\<close>

definition walked :: "u32 \<Rightarrow> kstate \<Rightarrow> (nat \<times> nat) kres" where
  "walked va s = bindO (pgdir_walk (kern_pgdir s) va False s) (\<lambda>r s.
     case r of None \<Rightarrow> Panic ''page fault in the kernel'' | Some tj \<Rightarrow> Ret tj s)"

definition check_pte :: "u32 \<Rightarrow> (u32 \<Rightarrow> bool) \<Rightarrow> kstate \<Rightarrow> unit kres" where
  "check_pte va P s = bindO (walked va s) (\<lambda>(t, j) s. check (P (kmem s t j)) s)"

definition clear_pte :: "u32 \<Rightarrow> kstate \<Rightarrow> unit kres" where
  "clear_pte va s = bindO (walked va s) (\<lambda>(t, j) s. Ret () (wr_word t j 0 s))"

definition insert_is :: "(int \<Rightarrow> bool) \<Rightarrow> nat \<Rightarrow> u32 \<Rightarrow> u32 \<Rightarrow> kstate \<Rightarrow> unit kres" where
  "insert_is P pp va perm s = bindO (page_insert (kern_pgdir s) pp va perm s) (\<lambda>r s. check (P r) s)"

definition set_ref :: "nat \<Rightarrow> u16 \<Rightarrow> kstate \<Rightarrow> kstate" where
  "set_ref p r s = upd_page p (\<lambda>i. i\<lparr>pp_ref := r\<rparr>) s"

section \<open>The free list\<close>

text \<open>
  The loop that moves pages with low addresses to the front appends each page to one of two lists. \<open>tp\<close> are the
  two places where the lists end: \<open>None\<close> the variable that holds the head, \<open>Some q\<close> the link of page \<open>q\<close>; \<open>hd\<close>
  are the two variables.
\<close>

type_synonym ends = "bool \<Rightarrow> nat option"

definition put_link :: "bool \<Rightarrow> nat option \<Rightarrow> ends \<times> ends \<Rightarrow> kstate \<Rightarrow> (ends \<times> ends) kres" where
  "put_link t v = (\<lambda>(tp, hd) s.
     case tp t of
       None \<Rightarrow> Ret (tp, hd(t := v)) s
     | Some q \<Rightarrow> Ret (tp, hd) (upd_page q (\<lambda>i. i\<lparr>pp_link := v\<rparr>) s))"

definition split_step :: "nat \<Rightarrow> nat \<Rightarrow> ends \<times> ends \<Rightarrow> kstate \<Rightarrow> (ends \<times> ends) kres" where
  "split_step pdx_limit pp v s =
     (let pagetype = (pdx_limit \<le> unat (PDX (page2pa pp))) in
      bindO (put_link pagetype (Some pp) v s) (\<lambda>(tp, hd) s. Ret (tp(pagetype := Some pp), hd) s))"

definition low_pages_first :: "nat \<Rightarrow> kstate \<Rightarrow> unit kres" where
  "low_pages_first pdx_limit s =
     bindO (for_list (split_step pdx_limit) (page_free_list s) (\<lambda>_. None, \<lambda>_. None) s) (\<lambda>v s.
     bindO (put_link True None v s) (\<lambda>v s.
     bindO (put_link False (snd v True) v s) (\<lambda>v s.
       Ret () (s\<lparr>page_free_list := snd v False\<rparr>))))"

definition trouble_step :: "nat \<Rightarrow> nat \<Rightarrow> unit \<Rightarrow> kstate \<Rightarrow> unit kres" where
  "trouble_step pdx_limit pp _ s =
     (if unat (PDX (page2pa pp)) < pdx_limit then memset_page pp 0x97 128 s else Ret () s)"

definition check_free_page :: "u32 \<Rightarrow> nat \<Rightarrow> nat \<times> nat \<Rightarrow> kstate \<Rightarrow> (nat \<times> nat) kres" where
  "check_free_page first_free_page pp = (\<lambda>(nfree_basemem, nfree_extmem) s.
     bindO (check (pp < npages s \<and> page2pa pp \<noteq> 0 \<and> page2pa pp \<noteq> IOPHYSMEM \<and>
       page2pa pp \<noteq> EXTPHYSMEM - PGSIZE \<and> page2pa pp \<noteq> EXTPHYSMEM) s) (\<lambda>_ s.
     bindO (if page2pa pp < EXTPHYSMEM then Ret () s
            else bindO (page2kva pp s) (\<lambda>kva s. check (first_free_page \<le> kva) s)) (\<lambda>_ s.
     bindO (check (page2pa pp \<noteq> MPENTRY_PADDR) s) (\<lambda>_ s.
       Ret (if page2pa pp < EXTPHYSMEM then (nfree_basemem + 1, nfree_extmem)
            else (nfree_basemem, nfree_extmem + 1)) s))))"

definition check_page_free_list :: "bootsyms \<Rightarrow> (nat \<Rightarrow> u32) \<Rightarrow> bool \<Rightarrow> kstate \<Rightarrow> unit kres" where
  "check_page_free_list b cmos only_low_memory s =
     (let pdx_limit = (if only_low_memory then 1 else NPDENTRIES) in
      if page_free_list s = None then Panic ''page_free_list is a null pointer''
      else
        bindO (if only_low_memory then low_pages_first pdx_limit s else Ret () s) (\<lambda>_ s.
        bindO (for_list (trouble_step pdx_limit) (page_free_list s) () s) (\<lambda>_ s.
        bindO (boot_alloc (sym_kend b) cmos 0 s) (\<lambda>first_free_page s.
        bindO (for_list (check_free_page first_free_page) (page_free_list s) (0, 0) s)
          (\<lambda>(nfree_basemem, nfree_extmem) s.
        bindO (check (0 < nfree_basemem \<and> 0 < nfree_extmem) s) (\<lambda>_ s.
          Ret () (kputs (nl (chars ''check_page_free_list() succeeded!'')) s)))))))"

section \<open>The page allocator\<close>

text \<open>The length of the free list.\<close>

definition count_free :: "kstate \<Rightarrow> nat kres" where
  "count_free s = for_list (\<lambda>pp n s. Ret (n + 1) s) (page_free_list s) 0 s"

definition check_page_alloc :: "kstate \<Rightarrow> unit kres" where
  "check_page_alloc s =
     bindO (count_free s) (\<lambda>nfree s.
     bindO (alloc_some 0 s) (\<lambda>pp0 s.
     bindO (alloc_some 0 s) (\<lambda>pp1 s.
     bindO (alloc_some 0 s) (\<lambda>pp2 s.
     bindO (check (pp1 \<noteq> pp0 \<and> pp2 \<noteq> pp1 \<and> pp2 \<noteq> pp0) s) (\<lambda>_ s.
     bindO (check (page2pa pp0 < of_nat (npages s) * PGSIZE \<and> page2pa pp1 < of_nat (npages s) * PGSIZE \<and>
       page2pa pp2 < of_nat (npages s) * PGSIZE) s) (\<lambda>_ s.
     let fl = page_free_list s; s = s\<lparr>page_free_list := None\<rparr> in
     bindO (alloc_none s) (\<lambda>_ s.
     bindO (page_free pp0 s) (\<lambda>_ s.
     bindO (page_free pp1 s) (\<lambda>_ s.
     bindO (page_free pp2 s) (\<lambda>_ s.
     bindO (alloc_some 0 s) (\<lambda>pp0 s.
     bindO (alloc_some 0 s) (\<lambda>pp1 s.
     bindO (alloc_some 0 s) (\<lambda>pp2 s.
     bindO (check (pp1 \<noteq> pp0 \<and> pp2 \<noteq> pp1 \<and> pp2 \<noteq> pp0) s) (\<lambda>_ s.
     bindO (alloc_none s) (\<lambda>_ s.
     bindO (memset_page pp0 1 4096 s) (\<lambda>_ s.
     bindO (page_free pp0 s) (\<lambda>_ s.
     bindO (alloc_some ALLOC_ZERO s) (\<lambda>pp s.
     bindO (check (pp0 = pp) s) (\<lambda>_ s.
     bindO (page2kva pp s) (\<lambda>c s.
     bindO (check (list_all (\<lambda>i. rd_byte s (kva_frame c) i = 0) [0..<4096]) s) (\<lambda>_ s.
     let s = s\<lparr>page_free_list := fl\<rparr> in
     bindO (page_free pp0 s) (\<lambda>_ s.
     bindO (page_free pp1 s) (\<lambda>_ s.
     bindO (page_free pp2 s) (\<lambda>_ s.
     bindO (count_free s) (\<lambda>n s.
     bindO (check (nfree = n) s) (\<lambda>_ s.
       Ret () (kputs (nl (chars ''check_page_alloc() succeeded!'')) s)))))))))))))))))))))))))))"

section \<open>The page table operations\<close>

text \<open>\<open>assert(check_va2pa(kern_pgdir, va) == pa)\<close> is \<open>check_mapped\<close>; the reference count of a page.\<close>

definition check_ref :: "nat \<Rightarrow> u16 \<Rightarrow> kstate \<Rightarrow> unit kres" where
  "check_ref p r s = check (pp_ref (pages s p) = r) s"

text \<open>Up to the mapping of a page in the place of another one.\<close>

definition check_page_insert :: "nat \<Rightarrow> nat \<Rightarrow> nat \<Rightarrow> kstate \<Rightarrow> unit kres" where
  "check_page_insert pp0 pp1 pp2 s =
     bindO (alloc_none s) (\<lambda>_ s.
     bindO (page_lookup (kern_pgdir s) 0 s) (\<lambda>r s.
     bindO (check (r = None) s) (\<lambda>_ s.
     bindO (insert_is (\<lambda>r. r < 0) pp1 0 PTE_W s) (\<lambda>_ s.
     bindO (page_free pp0 s) (\<lambda>_ s.
     bindO (insert_is (\<lambda>r. r = 0) pp1 0 PTE_W s) (\<lambda>_ s.
     bindO (check (PTE_ADDR (kmem s (kern_pgdir s) 0) = page2pa pp0) s) (\<lambda>_ s.
     bindO (check_mapped 0 (page2pa pp1) s) (\<lambda>_ s.
     bindO (check_ref pp1 1 s) (\<lambda>_ s.
     bindO (check_ref pp0 1 s) (\<lambda>_ s.
     bindO (insert_is (\<lambda>r. r = 0) pp2 PGSIZE PTE_W s) (\<lambda>_ s.
     bindO (check_mapped PGSIZE (page2pa pp2) s) (\<lambda>_ s.
     bindO (check_ref pp2 1 s) (\<lambda>_ s.
     bindO (alloc_none s) (\<lambda>_ s.
     bindO (insert_is (\<lambda>r. r = 0) pp2 PGSIZE PTE_W s) (\<lambda>_ s.
     bindO (check_mapped PGSIZE (page2pa pp2) s) (\<lambda>_ s.
     bindO (check_ref pp2 1 s) (\<lambda>_ s.
     bindO (alloc_none s) (\<lambda>_ s.
     bindO (kaddr (PTE_ADDR (kmem s (kern_pgdir s) (unat (PDX PGSIZE)))) s) (\<lambda>ptep s.
     bindO (pgdir_walk (kern_pgdir s) PGSIZE False s) (\<lambda>r s.
     bindO (check (r = Some (kva_frame ptep, unat (PTX PGSIZE))) s) (\<lambda>_ s.
     bindO (insert_is (\<lambda>r. r = 0) pp2 PGSIZE (PTE_W OR PTE_U) s) (\<lambda>_ s.
     bindO (check_mapped PGSIZE (page2pa pp2) s) (\<lambda>_ s.
     bindO (check_ref pp2 1 s) (\<lambda>_ s.
     bindO (check_pte PGSIZE (\<lambda>e. e AND PTE_U \<noteq> 0) s) (\<lambda>_ s.
     bindO (check (kmem s (kern_pgdir s) 0 AND PTE_U \<noteq> 0) s) (\<lambda>_ s.
     bindO (insert_is (\<lambda>r. r = 0) pp2 PGSIZE PTE_W s) (\<lambda>_ s.
     bindO (check_pte PGSIZE (\<lambda>e. e AND PTE_W \<noteq> 0) s) (\<lambda>_ s.
     bindO (check_pte PGSIZE (\<lambda>e. e AND PTE_U = 0) s) (\<lambda>_ s.
     bindO (insert_is (\<lambda>r. r < 0) pp0 PTSIZE PTE_W s) (\<lambda>_ s.
     bindO (insert_is (\<lambda>r. r = 0) pp1 PGSIZE PTE_W s) (\<lambda>_ s.
     bindO (check_pte PGSIZE (\<lambda>e. e AND PTE_U = 0) s) (\<lambda>_ s.
     bindO (check_mapped 0 (page2pa pp1) s) (\<lambda>_ s.
     bindO (check_mapped PGSIZE (page2pa pp1) s) (\<lambda>_ s.
     bindO (check_ref pp1 2 s) (\<lambda>_ s.
       check_ref pp2 0 s)))))))))))))))))))))))))))))))))))"

text \<open>Up to the last page table: pages are unmapped again.\<close>

definition check_page_unmap :: "nat \<Rightarrow> nat \<Rightarrow> nat \<Rightarrow> kstate \<Rightarrow> unit kres" where
  "check_page_unmap pp0 pp1 pp2 s =
     bindO (alloc_some 0 s) (\<lambda>pp s.
     bindO (check (pp = pp2) s) (\<lambda>_ s.
     bindO (page_remove (kern_pgdir s) 0 s) (\<lambda>_ s.
     bindO (check_mapped 0 (NOT 0) s) (\<lambda>_ s.
     bindO (check_mapped PGSIZE (page2pa pp1) s) (\<lambda>_ s.
     bindO (check_ref pp1 1 s) (\<lambda>_ s.
     bindO (check_ref pp2 0 s) (\<lambda>_ s.
     bindO (insert_is (\<lambda>r. r = 0) pp1 PGSIZE 0 s) (\<lambda>_ s.
     bindO (check (pp_ref (pages s pp1) \<noteq> 0 \<and> pp_link (pages s pp1) = None) s) (\<lambda>_ s.
     bindO (page_remove (kern_pgdir s) PGSIZE s) (\<lambda>_ s.
     bindO (check_mapped 0 (NOT 0) s) (\<lambda>_ s.
     bindO (check_mapped PGSIZE (NOT 0) s) (\<lambda>_ s.
     bindO (check_ref pp1 0 s) (\<lambda>_ s.
     bindO (check_ref pp2 0 s) (\<lambda>_ s.
     bindO (alloc_some 0 s) (\<lambda>pp s.
     bindO (check (pp = pp1) s) (\<lambda>_ s.
     bindO (alloc_none s) (\<lambda>_ s.
     bindO (check (PTE_ADDR (kmem s (kern_pgdir s) 0) = page2pa pp0) s) (\<lambda>_ s.
     let s = wr_word (kern_pgdir s) 0 0 s in
     bindO (check_ref pp0 1 s) (\<lambda>_ s.
       Ret () (set_ref pp0 0 s))))))))))))))))))))"

text \<open>New page tables, at \<open>va = PGSIZE * NPDENTRIES + PGSIZE\<close> and at 0.\<close>

definition check_page_tables :: "nat \<Rightarrow> kstate \<Rightarrow> unit kres" where
  "check_page_tables pp0 s =
     bindO (page_free pp0 s) (\<lambda>_ s.
     let va = PGSIZE * of_nat NPDENTRIES + PGSIZE in
     bindO (pgdir_walk (kern_pgdir s) va True s) (\<lambda>ptep s.
     bindO (kaddr (PTE_ADDR (kmem s (kern_pgdir s) (unat (PDX va)))) s) (\<lambda>ptep1 s.
     bindO (check (ptep = Some (kva_frame ptep1, unat (PTX va))) s) (\<lambda>_ s.
     let s = set_ref pp0 0 (wr_word (kern_pgdir s) (unat (PDX va)) 0 s) in
     bindO (memset_page pp0 0xFF 4096 s) (\<lambda>_ s.
     bindO (page_free pp0 s) (\<lambda>_ s.
     bindO (pgdir_walk (kern_pgdir s) 0 True s) (\<lambda>_ s.
     bindO (page2kva pp0 s) (\<lambda>ptep s.
     bindO (check (list_all (\<lambda>i. kmem s (kva_frame ptep) i AND PTE_P = 0) [0..<NPTENTRIES]) s) (\<lambda>_ s.
       Ret () (set_ref pp0 0 (wr_word (kern_pgdir s) 0 0 s)))))))))))"

definition check_mmio :: "kstate \<Rightarrow> unit kres" where
  "check_mmio s =
     bindO (mmio_map_region 0 4097 s) (\<lambda>mm1 s.
     bindO (mmio_map_region 0 4096 s) (\<lambda>mm2 s.
     bindO (check (MMIOBASE \<le> mm1 \<and> mm1 + 8192 < MMIOLIM \<and> MMIOBASE \<le> mm2 \<and> mm2 + 8192 < MMIOLIM) s) (\<lambda>_ s.
     bindO (check (mm1 mod PGSIZE = 0 \<and> mm2 mod PGSIZE = 0 \<and> mm1 + 8192 \<le> mm2) s) (\<lambda>_ s.
     bindO (check_mapped mm1 0 s) (\<lambda>_ s.
     bindO (check_mapped (mm1 + PGSIZE) PGSIZE s) (\<lambda>_ s.
     bindO (check_mapped mm2 0 s) (\<lambda>_ s.
     bindO (check_mapped (mm2 + PGSIZE) (NOT 0) s) (\<lambda>_ s.
     bindO (check_pte mm1 (\<lambda>e. e AND ((PTE_W OR PTE_PWT) OR PTE_PCD) \<noteq> 0) s) (\<lambda>_ s.
     bindO (check_pte mm1 (\<lambda>e. e AND PTE_U = 0) s) (\<lambda>_ s.
     bindO (clear_pte mm1 s) (\<lambda>_ s.
     bindO (clear_pte (mm1 + PGSIZE) s) (\<lambda>_ s.
       clear_pte mm2 s))))))))))))"

definition check_page :: "kstate \<Rightarrow> unit kres" where
  "check_page s =
     bindO (alloc_some 0 s) (\<lambda>pp0 s.
     bindO (alloc_some 0 s) (\<lambda>pp1 s.
     bindO (alloc_some 0 s) (\<lambda>pp2 s.
     bindO (check (pp1 \<noteq> pp0 \<and> pp2 \<noteq> pp1 \<and> pp2 \<noteq> pp0) s) (\<lambda>_ s.
     let fl = page_free_list s; s = s\<lparr>page_free_list := None\<rparr> in
     bindO (check_page_insert pp0 pp1 pp2 s) (\<lambda>_ s.
     bindO (check_page_unmap pp0 pp1 pp2 s) (\<lambda>_ s.
     bindO (check_page_tables pp0 s) (\<lambda>_ s.
     let s = s\<lparr>page_free_list := fl\<rparr> in
     bindO (page_free pp0 s) (\<lambda>_ s.
     bindO (page_free pp1 s) (\<lambda>_ s.
     bindO (page_free pp2 s) (\<lambda>_ s.
     bindO (check_mmio s) (\<lambda>_ s.
       Ret () (kputs (nl (chars ''check_page() succeeded!'')) s))))))))))))"

section \<open>Access through the page directory of the kernel\<close>

text \<open>An aligned word at a linear address.\<close>

definition load_word :: "u32 \<Rightarrow> kstate \<Rightarrow> u32 kres" where
  "load_word va s =
     (case mmu s (cr3 s) va of
        None \<Rightarrow> Panic ''page fault in the kernel''
      | Some (f, rights) \<Rightarrow> Ret (kmem s f (unat (PGOFF va) div 4)) s)"

definition store_word :: "u32 \<Rightarrow> u32 \<Rightarrow> kstate \<Rightarrow> unit kres" where
  "store_word va w s =
     (case mmu s (cr3 s) va of
        None \<Rightarrow> Panic ''page fault in the kernel''
      | Some (f, rights) \<Rightarrow>
          if rights AND PTE_W = 0 then Panic ''page fault in the kernel''
          else Ret () (wr_word f (unat (PGOFF va) div 4) w s))"

definition check_word :: "u32 \<Rightarrow> u32 \<Rightarrow> kstate \<Rightarrow> unit kres" where
  "check_word va w s = bindO (load_word va s) (\<lambda>v s. check (v = w) s)"

definition check_page_installed_pgdir :: "kstate \<Rightarrow> unit kres" where
  "check_page_installed_pgdir s =
     bindO (alloc_some 0 s) (\<lambda>pp0 s.
     bindO (alloc_some 0 s) (\<lambda>pp1 s.
     bindO (alloc_some 0 s) (\<lambda>pp2 s.
     bindO (page_free pp0 s) (\<lambda>_ s.
     bindO (memset_page pp1 1 4096 s) (\<lambda>_ s.
     bindO (memset_page pp2 2 4096 s) (\<lambda>_ s.
     bindO (page_insert (kern_pgdir s) pp1 PGSIZE PTE_W s) (\<lambda>_ s.
     bindO (check_ref pp1 1 s) (\<lambda>_ s.
     bindO (check_word PGSIZE 0x01010101 s) (\<lambda>_ s.
     bindO (page_insert (kern_pgdir s) pp2 PGSIZE PTE_W s) (\<lambda>_ s.
     bindO (check_word PGSIZE 0x02020202 s) (\<lambda>_ s.
     bindO (check_ref pp2 1 s) (\<lambda>_ s.
     bindO (check_ref pp1 0 s) (\<lambda>_ s.
     bindO (store_word PGSIZE 0x03030303 s) (\<lambda>_ s.
     bindO (page2kva pp2 s) (\<lambda>kva s.
     bindO (check (kmem s (kva_frame kva) 0 = 0x03030303) s) (\<lambda>_ s.
     bindO (page_remove (kern_pgdir s) PGSIZE s) (\<lambda>_ s.
     bindO (check_ref pp2 0 s) (\<lambda>_ s.
     bindO (check (PTE_ADDR (kmem s (kern_pgdir s) 0) = page2pa pp0) s) (\<lambda>_ s.
     let s = wr_word (kern_pgdir s) 0 0 s in
     bindO (check_ref pp0 1 s) (\<lambda>_ s.
     bindO (page_free pp0 (set_ref pp0 0 s)) (\<lambda>_ s.
       Ret () (kputs (nl (chars ''check_page_installed_pgdir() succeeded!'')) s))))))))))))))))))))))"

section \<open>Loops over the free list\<close>

definition first :: "'a list \<Rightarrow> 'a option" where "first xs = (case xs of [] \<Rightarrow> None | x # _ \<Rightarrow> Some x)"

lemma first_simps [simp]: "first [] = None" "first (x # xs) = Some x"
  by (simp_all add: first_def)

lemma first_append: "first (xs @ ys) = (if xs = [] then first ys else first xs)"
  by (cases xs) simp_all

lemma chain_first: "chain f h xs \<Longrightarrow> h = first xs"
  by (cases xs) auto

lemma chain_next: "chain f h (ys @ p # zs) \<Longrightarrow> f p = first zs"
proof (induction ys arbitrary: h)
  case Nil
  then show ?case by (auto dest: chain_first)
qed auto

lemma chain_links:
  "chain f h xs \<longleftrightarrow> h = first xs \<and> successively (\<lambda>p q. f p = Some q) xs \<and> (xs \<noteq> [] \<longrightarrow> f (last xs) = None)"
proof (induction xs arbitrary: h)
  case (Cons x xs)
  then show ?case by (cases xs) (auto simp: successively_Cons)
qed auto

text \<open>An invariant of the loop, which may change the links of pages it has passed.\<close>

lemma for_list_invariant:
  assumes "h = first xs" "Q [] a s"
    and step: "\<And>ys p zs a s. xs = ys @ p # zs \<Longrightarrow> Q ys a s \<Longrightarrow>
      \<exists>a' s'. f p a s = Ret a' s' \<and> Q (ys @ [p]) a' s' \<and> pp_link (pages s' p) = first zs"
  shows "\<exists>a' s'. for_list f h a s = Ret a' s' \<and> Q xs a' s'"
proof -
  have "\<exists>a' s'. walk_list f (first zs) a s = Some (Ret a' s') \<and> Q xs a' s'" if "xs = ys @ zs" "Q ys a s" for ys zs a s
    using that
  proof (induction zs arbitrary: ys a s)
    case Nil
    then show ?case by (subst walk_list.simps) simp
  next
    case (Cons p zs)
    from step [OF Cons.prems] obtain a' s' where
      u: "f p a s = Ret a' s'" "Q (ys @ [p]) a' s'" "pp_link (pages s' p) = first zs" by blast
    then show ?case using Cons.IH [OF _ u(2)] Cons.prems(1) by (subst walk_list.simps) simp
  qed
  from this [of "[]" xs, OF _ assms(2)] assms(1) show ?thesis by (auto simp: for_list_def)
qed

text \<open>A loop that leaves the links alone: it counts, or stops at the first page that fails a test.\<close>

lemma for_list_panic:
  assumes "h = first xs" "xs = ys @ p # zs" "Q [] a s" "\<And>a s. Q ys a s \<Longrightarrow> \<exists>m. f p a s = Panic m"
    and step: "\<And>us q vs a s. ys = us @ q # vs \<Longrightarrow> Q us a s \<Longrightarrow>
      \<exists>a' s'. f q a s = Ret a' s' \<and> Q (us @ [q]) a' s' \<and> pp_link (pages s' q) = first (vs @ p # zs)"
  shows "\<exists>m. for_list f h a s = Panic m"
proof -
  have "\<exists>m. walk_list f (first (vs @ p # zs)) a s = Some (Panic m)" if "ys = us @ vs" "Q us a s" for us vs a s
    using that
  proof (induction vs arbitrary: us a s)
    case Nil
    with assms(4) [of a s] show ?case by (subst walk_list.simps) auto
  next
    case (Cons q vs)
    from step [OF Cons.prems] obtain a' s' where
      u: "f q a s = Ret a' s'" "Q (us @ [q]) a' s'" "pp_link (pages s' q) = first (vs @ p # zs)" by blast
    then show ?case using Cons.IH [OF _ u(2)] Cons.prems(1) by (subst walk_list.simps) simp
  qed
  from this [of "[]" ys, OF _ assms(3)] assms(1,2) show ?thesis by (auto simp: for_list_def)
qed

section \<open>Low pages first\<close>

definition linked :: "(nat \<Rightarrow> PageInfo) \<Rightarrow> nat list \<Rightarrow> bool" where
  "linked P xs \<longleftrightarrow> successively (\<lambda>p q. pp_link (P p) = Some q) xs"

lemma linked_Nil [simp]: "linked P []" "linked P [p]" by (simp_all add: linked_def)

lemma linked_snoc: "linked P (xs @ [p]) \<longleftrightarrow> linked P xs \<and> (xs \<noteq> [] \<longrightarrow> pp_link (P (last xs)) = Some p)"
  by (auto simp: linked_def successively_append_iff)

lemma linked_append: "linked P (xs @ ys) \<longleftrightarrow>
    linked P xs \<and> linked P ys \<and> (xs = [] \<or> ys = [] \<or> pp_link (P (last xs)) = first ys)"
  by (cases ys) (auto simp: linked_def successively_append_iff)

lemma linked_cong: "(\<And>q. q \<in> set xs \<Longrightarrow> P q = R q) \<Longrightarrow> linked P xs = linked R xs"
  unfolding linked_def by (rule successively_cong) simp_all

lemma linked_upd [simp]: "l \<notin> set xs \<Longrightarrow> linked (P(l := i)) xs = linked P xs"
  by (rule linked_cong) auto

lemma linked_relink: "distinct xs \<Longrightarrow> xs \<noteq> [] \<Longrightarrow> linked P xs \<Longrightarrow> linked (P(last xs := i)) xs"
  by (induction xs rule: rev_induct) (auto simp: linked_snoc)

lemma chain_linked: "chain (\<lambda>p. pp_link (P p)) h xs \<longleftrightarrow> h = first xs \<and> linked P xs \<and> (xs \<noteq> [] \<longrightarrow> pp_link (P (last xs)) = None)"
  by (simp add: chain_links linked_def)

text \<open>The two lists after the pages \<open>ys\<close>: their variables, their ends, and their links.\<close>

definition is_high :: "nat \<Rightarrow> nat \<Rightarrow> bool" where "is_high lim p \<longleftrightarrow> lim \<le> unat (PDX (page2pa p))"

definition half :: "nat \<Rightarrow> bool \<Rightarrow> nat list \<Rightarrow> nat list" where "half lim t ys = filter (\<lambda>p. is_high lim p = t) ys"

definition split_inv :: "nat \<Rightarrow> kstate \<Rightarrow> nat list \<Rightarrow> ends \<times> ends \<Rightarrow> kstate \<Rightarrow> bool" where
  "split_inv lim s ys v u \<longleftrightarrow> (\<exists>P. u = s\<lparr>pages := P\<rparr> \<and>
     (\<forall>q. pp_ref (P q) = pp_ref (pages s q)) \<and> (\<forall>q. q \<notin> set ys \<longrightarrow> P q = pages s q) \<and>
     (\<forall>t. let zs = half lim t ys in
        fst v t = (if zs = [] then None else Some (last zs)) \<and> snd v t = first zs \<and>
        linked P zs))"

lemma half_snoc: "half lim t (ys @ [p]) = (if is_high lim p = t then half lim t ys @ [p] else half lim t ys)"
  by (simp add: half_def)

lemma set_half: "set (half lim t ys) = {p \<in> set ys. is_high lim p = t}"
  by (auto simp: half_def)

lemma split_step_inv:
  assumes inv: "split_inv lim s ys v u" and p: "p \<notin> set ys" and d: "distinct ys"
  shows "\<exists>v' u'. split_step lim p v u = Ret v' u' \<and> split_inv lim s (ys @ [p]) v' u' \<and> pp_link (pages u' p) = pp_link (pages s p)"
proof -
  obtain tp hd where v: "v = (tp, hd)" by force
  from inv obtain P where P: "u = s\<lparr>pages := P\<rparr>" "\<And>q. pp_ref (P q) = pp_ref (pages s q)" "\<And>q. q \<notin> set ys \<Longrightarrow> P q = pages s q"
    "\<And>t. tp t = (if half lim t ys = [] then None else Some (last (half lim t ys)))" "\<And>t. hd t = first (half lim t ys)"
    "\<And>t. linked P (half lim t ys)"
    by (auto simp: split_inv_def v Let_def)
  define T where "T = is_high lim p"
  show ?thesis
  proof (cases "half lim T ys = []")
    case True
    then have "split_step lim p v u = Ret (tp(T := Some p), hd(T := Some p)) u"
      using P(4) by (simp add: split_step_def put_link_def v Let_def flip: is_high_def T_def)
    moreover have "split_inv lim s (ys @ [p]) (tp(T := Some p), hd(T := Some p)) u"
      using P True unfolding split_inv_def by (intro exI [of _ P]) (auto simp: half_snoc T_def [symmetric] Let_def)
    ultimately show ?thesis using P(1,3) p by simp
  next
    case False
    let ?l = "last (half lim T ys)"
    let ?P = "P(?l := (P ?l)\<lparr>pp_link := Some p\<rparr>)"
    have l: "?l \<in> set ys" "is_high lim ?l = T" using last_in_set [OF False] by (auto simp: set_half)
    have "split_step lim p v u = Ret (tp(T := Some p), hd) (s\<lparr>pages := ?P\<rparr>)"
      using P(1,4) False by (simp add: split_step_def put_link_def v Let_def upd_page_def flip: is_high_def T_def)
    moreover have "split_inv lim s (ys @ [p]) (tp(T := Some p), hd) (s\<lparr>pages := ?P\<rparr>)"
    proof -
      have d': "distinct (half lim T ys)" using d by (simp add: half_def)
      have lk: "linked ?P (half lim t (ys @ [p]))" for t
        using linked_relink [OF d' False P(6)] P(6) [of t] l by (cases "t = T") (simp_all add: half_snoc linked_snoc T_def [symmetric] set_half)
      have ends: "(tp(T := Some p)) t = (if half lim t (ys @ [p]) = [] then None else Some (last (half lim t (ys @ [p]))))"
        "hd t = first (half lim t (ys @ [p]))" for t
        using P(4,5) [of t] False by (cases "t = T"; auto simp: half_snoc first_append T_def [symmetric])+
      show ?thesis
        unfolding split_inv_def Let_def
      proof (intro exI [of _ ?P] conjI allI impI)
        show "pp_ref (?P q) = pp_ref (pages s q)" for q using P(2) by simp
        show "?P q = pages s q" if "q \<notin> set (ys @ [p])" for q using that l P(3) by auto
        fix t
        show "fst (tp(T := Some p), hd) t = (if half lim t (ys @ [p]) = [] then None else Some (last (half lim t (ys @ [p]))))"
          "snd (tp(T := Some p), hd) t = first (half lim t (ys @ [p]))" "linked ?P (half lim t (ys @ [p]))"
          using ends [of t] lk by (simp_all only: fst_conv snd_conv)
      qed simp
    qed
    ultimately show ?thesis using P(3) [OF p] l p by auto
  qed
qed

lemma put_link_end:
  assumes "distinct xs" "fst v t = (if xs = [] then None else Some (last xs))" "snd v t = first xs" "linked (pages s) xs"
  shows "\<exists>P. put_link t x v s = Ret (fst v, (snd v)(t := if xs = [] then x else first xs)) (s\<lparr>pages := P\<rparr>) \<and>
    (\<forall>q. pp_ref (P q) = pp_ref (pages s q)) \<and> (\<forall>q. q \<notin> set xs \<longrightarrow> P q = pages s q) \<and>
    linked P xs \<and> (xs \<noteq> [] \<longrightarrow> pp_link (P (last xs)) = x)"
proof (cases "xs = []")
  case True
  with assms(2) show ?thesis by (intro exI [of _ "pages s"]) (simp add: put_link_def split_beta)
next
  case False
  have "(snd v)(t := first xs) = snd v" using assms(3) by auto
  with False assms linked_relink [OF assms(1) False assms(4)] show ?thesis
    by (intro exI [of _ "(pages s)(last xs := (pages s (last xs))\<lparr>pp_link := x\<rparr>)"])
      (auto simp: put_link_def split_beta upd_page_def)
qed

text \<open>The loops touch only pages on the free list.\<close>

definition keeps :: "nat set \<Rightarrow> kstate \<Rightarrow> kstate \<Rightarrow> bool" where
  "keeps X s t \<longleftrightarrow> npages t = npages s \<and> nextfree t = nextfree s \<and> kern_pgdir t = kern_pgdir s \<and> mmio_base t = mmio_base s \<and>
     cr3 t = cr3 s \<and> envs t = envs s \<and> env_free_list t = env_free_list s \<and> cpus t = cpus s \<and> this_cpu t = this_cpu s \<and>
     kernel_lock t = kernel_lock s \<and> (\<forall>q. q \<notin> X \<longrightarrow> kmem t q = kmem s q \<and> pages t q = pages s q)"

lemma keeps_refl [simp]: "keeps X s s" by (simp add: keeps_def)

lemma keeps_trans: "keeps X s t \<Longrightarrow> keeps Y t u \<Longrightarrow> Y \<subseteq> X \<Longrightarrow> keeps X s u"
  by (auto simp: keeps_def)

lemma free_pages_ok_linked:
  "free_pages_ok s xs \<longleftrightarrow> page_free_list s = first xs \<and> linked (pages s) xs \<and> (xs \<noteq> [] \<longrightarrow> pp_link (pages s (last xs)) = None) \<and>
     (\<forall>p \<in> set xs. p < npages s \<and> pp_ref (pages s p) = 0) \<and>
     (\<forall>p. p < npages s \<longrightarrow> p \<notin> set xs \<longrightarrow> pp_link (pages s p) = None) \<and> npages s \<le> 2 ^ 16"
  by (auto simp: free_pages_ok_def chain_linked)

lemma set_halves: "set (half lim False xs) \<union> set (half lim True xs) = set xs"
  by (auto simp: set_half)

lemma low_pages_first_ok:
  assumes ok: "free_pages_ok s xs"
  shows "\<exists>t. low_pages_first lim s = Ret () t \<and> free_pages_ok t (half lim False xs @ half lim True xs) \<and>
    keeps (set xs) s t \<and> kmem t = kmem s"
proof -
  let ?L = "half lim False xs" and ?H = "half lim True xs"
  have c: "chain (\<lambda>p. pp_link (pages s p)) (page_free_list s) xs" and d: "distinct xs"
    using ok free_pages_ok_distinct by (auto simp: free_pages_ok_def)
  have dh: "distinct ?L" "distinct ?H" using d by (simp_all add: half_def)
  have "\<exists>v u. for_list (split_step lim) (page_free_list s) (\<lambda>_. None, \<lambda>_. None) s = Ret v u \<and> split_inv lim s xs v u"
  proof (rule for_list_invariant [OF chain_first [OF c]])
    show "split_inv lim s [] (\<lambda>_. None, \<lambda>_. None) s"
      unfolding split_inv_def by (intro exI [of _ "pages s"]) (simp add: half_def)
    fix ys p zs a u assume xs: "xs = ys @ p # zs" and inv: "split_inv lim s ys a u"
    with d have "p \<notin> set ys" "distinct ys" by auto
    with split_step_inv [OF inv this] chain_next [OF c [unfolded xs]]
    show "\<exists>a' s'. split_step lim p a u = Ret a' s' \<and> split_inv lim s (ys @ [p]) a' s' \<and> pp_link (pages s' p) = first zs"
      by simp
  qed
  then obtain v u P where 1: "for_list (split_step lim) (page_free_list s) (\<lambda>_. None, \<lambda>_. None) s = Ret v u"
    and u: "u = s\<lparr>pages := P\<rparr>" "\<And>q. pp_ref (P q) = pp_ref (pages s q)" "\<And>q. q \<notin> set xs \<Longrightarrow> P q = pages s q"
    and v: "\<And>t. fst v t = (if half lim t xs = [] then None else Some (last (half lim t xs)))"
      "\<And>t. snd v t = first (half lim t xs)" "\<And>t. linked P (half lim t xs)"
    by (auto simp: split_inv_def Let_def)
  from put_link_end [where t = True and x = None and s = u, OF dh(2) v(1,2)] v(3) u(1) obtain Q where
    Q: "put_link True None v u = Ret (fst v, (snd v)(True := first ?H)) (u\<lparr>pages := Q\<rparr>)"
    "\<And>q. pp_ref (Q q) = pp_ref (P q)" "\<And>q. q \<notin> set ?H \<Longrightarrow> Q q = P q" "linked Q ?H"
    "?H \<noteq> [] \<Longrightarrow> pp_link (Q (last ?H)) = None"
    by (cases "?H = []") auto
  have disj: "set ?L \<inter> set ?H = {}" by (auto simp: set_half)
  have LQ: "linked Q ?L" using v(3) [of False] Q(3) disj by (subst linked_cong [where R = P]) auto
  from put_link_end [where t = False and x = "first ?H" and s = "u\<lparr>pages := Q\<rparr>" and v = "(fst v, (snd v)(True := first ?H))",
      OF dh(1)] v LQ obtain R where
    R: "put_link False (first ?H) (fst v, (snd v)(True := first ?H)) (u\<lparr>pages := Q\<rparr>) =
        Ret (fst v, ((snd v)(True := first ?H))(False := first (?L @ ?H))) (u\<lparr>pages := R\<rparr>)"
    "\<And>q. pp_ref (R q) = pp_ref (Q q)" "\<And>q. q \<notin> set ?L \<Longrightarrow> R q = Q q" "linked R ?L"
    "?L \<noteq> [] \<Longrightarrow> pp_link (R (last ?L)) = first ?H"
    by (auto simp: first_append)
  let ?t = "s\<lparr>pages := R, page_free_list := first (?L @ ?H)\<rparr>"
  have HR: "linked R ?H" "?H \<noteq> [] \<Longrightarrow> pp_link (R (last ?H)) = None"
  proof -
    show "linked R ?H" using Q(4) R(3) disj by (subst linked_cong [where R = Q]) auto
    assume h: "?H \<noteq> []"
    from last_in_set [OF this] disj have "last ?H \<notin> set ?L" by blast
    with R(3) Q(5) h show "pp_link (R (last ?H)) = None" by simp
  qed
  have "?H = [] \<Longrightarrow> ?L \<noteq> [] \<Longrightarrow> pp_link (R (last ?L)) = None" using R(5) by simp
  with HR R(4,5) have "linked R (?L @ ?H) \<and> (?L @ ?H \<noteq> [] \<longrightarrow> pp_link (R (last (?L @ ?H))) = None)"
    by (cases "?H = []") (auto simp: linked_append)
  moreover have ref: "pp_ref (R q) = pp_ref (pages s q)" for q using R(2) Q(2) u(2) by simp
  moreover have other: "R q = pages s q" if "q \<notin> set xs" for q
    using that R(3) Q(3) u(3) by (simp add: set_half)
  moreover have "set (?L @ ?H) = set xs" using set_halves [of lim xs] by simp
  ultimately have "free_pages_ok ?t (?L @ ?H)"
    using ok by (auto simp: free_pages_ok_linked)
  moreover have "low_pages_first lim s = Ret () ?t"
    using 1 Q(1) R(1) by (simp add: low_pages_first_def u(1))
  moreover have "keeps (set xs) s ?t" using other by (simp add: keeps_def)
  ultimately show ?thesis by auto
qed

text \<open>The pages below the limit are filled.\<close>

lemma page2kva_ok: "free_pages_ok s xs \<Longrightarrow> p < npages s \<Longrightarrow>
  page2kva p s = Ret (page2pa p + KERNBASE) s \<and> kva_frame (page2pa p + KERNBASE) = p"
  by (rule page2kva_frame) (auto simp: free_pages_ok_def)

lemma memset_page_ok:
  "page2kva p s = Ret (page2pa p + KERNBASE) s \<and> kva_frame (page2pa p + KERNBASE) = p \<Longrightarrow>
   memset_page p c n s = Ret () (fill_words p (n div 4)
     (((push_bit 24 (ucast c) OR push_bit 16 (ucast c)) OR push_bit 8 (ucast c)) OR ucast c) s)"
  by (simp add: memset_page_def)

lemma trouble_ok:
  assumes ok: "free_pages_ok s xs"
  shows "\<exists>K. for_list (trouble_step lim) (page_free_list s) () s = Ret () (s\<lparr>kmem := K\<rparr>) \<and> (\<forall>q. q \<notin> set xs \<longrightarrow> K q = kmem s q)"
proof -
  have c: "chain (\<lambda>p. pp_link (pages s p)) (page_free_list s) xs" using ok by (simp add: free_pages_ok_def)
  let ?Q = "\<lambda>ys u t. \<exists>K. t = s\<lparr>kmem := K\<rparr> \<and> (\<forall>q. q \<notin> set xs \<longrightarrow> K q = kmem s q)"
  have "\<exists>a t. for_list (trouble_step lim) (page_free_list s) () s = Ret a t \<and> ?Q xs a t"
  proof (rule for_list_invariant [where Q = ?Q, OF chain_first [OF c]])
    show "?Q [] () s" by (intro exI [of _ "kmem s"]) simp
    fix ys p zs and a :: unit and t assume xs: "xs = ys @ p # zs" and "?Q ys a t"
    then obtain K where t: "t = s\<lparr>kmem := K\<rparr>" and K: "\<forall>q. q \<notin> set xs \<longrightarrow> K q = kmem s q" by blast
    have "p < npages t" "npages t \<le> 2 ^ 20" using ok xs t by (auto simp: free_pages_ok_def)
    then have "page2kva p t = Ret (page2pa p + KERNBASE) t \<and> kva_frame (page2pa p + KERNBASE) = p"
      by (intro page2kva_frame) auto
    note m = memset_page_ok [OF this]
    show "\<exists>a' t'. trouble_step lim p a t = Ret a' t' \<and> ?Q (ys @ [p]) a' t' \<and> pp_link (pages t' p) = first zs"
      using K chain_next [OF c [unfolded xs]] xs by (auto simp: trouble_step_def m [unfolded t] t fill_words_def)
  qed
  then show ?thesis by auto
qed

text \<open>What the test asks of a free page.\<close>

definition good_free_page :: "u32 \<Rightarrow> nat \<Rightarrow> bool" where
  "good_free_page first_free_page p \<longleftrightarrow>
     p \<noteq> 0 \<and> p \<noteq> 160 \<and> p \<noteq> 255 \<and> p \<noteq> 256 \<and> p \<noteq> 7 \<and> (256 \<le> p \<longrightarrow> first_free_page \<le> KERNBASE + page2pa p)"

lemma page2pa_values:
  assumes "p < 2 ^ 20"
  shows "page2pa p = 0 \<longleftrightarrow> p = 0" "page2pa p = IOPHYSMEM \<longleftrightarrow> p = 160" "page2pa p = EXTPHYSMEM - PGSIZE \<longleftrightarrow> p = 255"
    "page2pa p = EXTPHYSMEM \<longleftrightarrow> p = 256" "page2pa p = MPENTRY_PADDR \<longleftrightarrow> p = 7" "page2pa p < EXTPHYSMEM \<longleftrightarrow> p < 256"
proof -
  have v: "page2pa 0 = 0" "page2pa 160 = IOPHYSMEM" "page2pa 255 = EXTPHYSMEM - PGSIZE" "page2pa 256 = EXTPHYSMEM" "page2pa 7 = MPENTRY_PADDR"
    by (simp_all add: page2pa_def IOPHYSMEM_def EXTPHYSMEM_def PGSIZE_def MPENTRY_PADDR_def push_bit_eq_mult)
  show "page2pa p = 0 \<longleftrightarrow> p = 0" "page2pa p = IOPHYSMEM \<longleftrightarrow> p = 160" "page2pa p = EXTPHYSMEM - PGSIZE \<longleftrightarrow> p = 255"
    "page2pa p = EXTPHYSMEM \<longleftrightarrow> p = 256" "page2pa p = MPENTRY_PADDR \<longleftrightarrow> p = 7"
    using page2pa_inj [OF assms, of 0] page2pa_inj [OF assms, of 160] page2pa_inj [OF assms, of 255]
      page2pa_inj [OF assms, of 256] page2pa_inj [OF assms, of 7] by (simp_all add: v)
  have "unat (page2pa p) < unat (page2pa 256) \<longleftrightarrow> p < 256" using assms by (simp add: unat_page2pa)
  then show "page2pa p < EXTPHYSMEM \<longleftrightarrow> p < 256" by (simp add: word_less_nat_alt v(4))
qed

lemma check_free_page_eq:
  assumes ok: "free_pages_ok s xs" and p: "p \<in> set xs"
  shows "check_free_page f p (n, m) s =
    (if good_free_page f p then Ret (if p < 256 then (n + 1, m) else (n, m + 1)) s else Panic ''assertion failed'')"
proof -
  have np: "p < npages s" "p < 2 ^ 20" using ok p by (auto simp: free_pages_ok_def)
  then show ?thesis
    using page2kva_ok [OF ok np(1)]
    by (auto simp: check_free_page_def check_def page2pa_values [OF np(2)] good_free_page_def add.commute)
qed

lemma check_loop_ok:
  assumes ok: "free_pages_ok s xs" and g: "\<forall>p \<in> set xs. good_free_page f p"
  shows "for_list (check_free_page f) (page_free_list s) (0, 0) s =
    Ret (length (filter (\<lambda>p. p < 256) xs), length (filter (\<lambda>p. \<not> p < 256) xs)) s"
proof -
  have c: "chain (\<lambda>p. pp_link (pages s p)) (page_free_list s) xs" using ok by (simp add: free_pages_ok_def)
  let ?Q = "\<lambda>ys a t. t = s \<and> a = (length (filter (\<lambda>p. p < 256) ys), length (filter (\<lambda>p. \<not> p < 256) ys))"
  have "\<exists>a t. for_list (check_free_page f) (page_free_list s) (0, 0) s = Ret a t \<and> ?Q xs a t"
  proof (rule for_list_invariant [where Q = ?Q, OF chain_first [OF c]])
    fix ys p zs a t assume xs: "xs = ys @ p # zs" and "?Q ys a t"
    moreover have "p \<in> set xs" using xs by simp
    ultimately show "\<exists>a' t'. check_free_page f p a t = Ret a' t' \<and> ?Q (ys @ [p]) a' t' \<and> pp_link (pages t' p) = first zs"
      using g chain_next [OF c [unfolded xs]] by (auto simp: check_free_page_eq [OF ok])
  qed simp
  then show ?thesis by auto
qed

lemma check_loop_panic:
  assumes ok: "free_pages_ok s xs" and "\<not> (\<forall>p \<in> set xs. good_free_page f p)"
  shows "\<exists>m. for_list (check_free_page f) (page_free_list s) (0, 0) s = Panic m"
proof -
  have c: "chain (\<lambda>p. pp_link (pages s p)) (page_free_list s) xs" using ok by (simp add: free_pages_ok_def)
  from assms(2) obtain ys p zs where xs: "xs = ys @ p # zs" and p: "\<not> good_free_page f p" "\<forall>q \<in> set ys. good_free_page f q"
    using split_list_first_prop [of xs "\<lambda>p. \<not> good_free_page f p"] by auto
  let ?Q = "\<lambda>(ys :: nat list) (a :: nat \<times> nat) t. t = s"
  show ?thesis
  proof (rule for_list_panic [where Q = ?Q, OF chain_first [OF c] xs])
    fix a :: "nat \<times> nat" and t assume "t = s"
    moreover have "p \<in> set xs" using xs by simp
    ultimately show "\<exists>m. check_free_page f p a t = Panic m"
      using p(1) by (cases a) (simp add: check_free_page_eq [OF ok])
  next
    fix us q vs and a :: "nat \<times> nat" and t assume y: "ys = us @ q # vs" and "t = s"
    moreover have "q \<in> set xs" "good_free_page f q" using xs y p(2) by auto
    ultimately show "\<exists>a' t'. check_free_page f q a t = Ret a' t' \<and> t' = s \<and> pp_link (pages t' q) = first (vs @ p # zs)"
      using chain_next [of "\<lambda>p. pp_link (pages s p)" _ us q "vs @ p # zs"] c by (cases a) (simp add: check_free_page_eq [OF ok] xs)
  qed simp
qed

lemma kputch_cons: "\<exists>c. kputch u s = s\<lparr>cons := c\<rparr>"
  by (auto simp: kputch_def cputchar_def)

lemma kputs_cons: "\<exists>c. kputs cs s = s\<lparr>cons := c\<rparr>"
proof (induction cs arbitrary: s)
  case Nil
  have "kputs [] s = s\<lparr>cons := cons s\<rparr>" by (simp add: kputs_def)
  then show ?case by blast
next
  case (Cons c cs)
  obtain d where "kputch (ucast c) s = s\<lparr>cons := d\<rparr>" using kputch_cons by blast
  moreover obtain e where "kputs cs (s\<lparr>cons := d\<rparr>) = (s\<lparr>cons := d\<rparr>)\<lparr>cons := e\<rparr>" using Cons by blast
  ultimately show ?case by (auto simp: kputs_def)
qed

lemma kputs_frame [simp]:
  "npages (kputs cs s) = npages s" "page_free_list (kputs cs s) = page_free_list s" "pages (kputs cs s) = pages s"
  "kmem (kputs cs s) = kmem s" "kern_pgdir (kputs cs s) = kern_pgdir s" "mmio_base (kputs cs s) = mmio_base s"
  "nextfree (kputs cs s) = nextfree s" "cr3 (kputs cs s) = cr3 s" "envs (kputs cs s) = envs s"
  "env_free_list (kputs cs s) = env_free_list s" "cpus (kputs cs s) = cpus s" "this_cpu (kputs cs s) = this_cpu s"
  "kernel_lock (kputs cs s) = kernel_lock s" "npages_basemem (kputs cs s) = npages_basemem s"
  using kputs_cons [of cs s] by auto

lemma keeps_kputs [simp]: "keeps X s (kputs cs t) = keeps X s t"
  by (simp add: keeps_def)

lemma free_pages_ok_kputs [simp]: "free_pages_ok (kputs cs s) xs = free_pages_ok s xs"
  by (simp add: free_pages_ok_def)

lemma free_pages_ok_kmem [simp]: "free_pages_ok (s\<lparr>kmem := K\<rparr>) xs = free_pages_ok s xs"
  by (simp add: free_pages_ok_def)

lemma is_high_1: "p < 2 ^ 20 \<Longrightarrow> is_high 1 p \<longleftrightarrow> \<not> p < 1024"
  by (auto simp: is_high_def unat_PDX unat_page2pa)

lemma half_1: "(\<And>p. p \<in> set xs \<Longrightarrow> p < 2 ^ 20) \<Longrightarrow>
    half 1 False xs @ half 1 True xs = filter (\<lambda>p. p < 1024) xs @ filter (\<lambda>p. \<not> p < 1024) xs"
  unfolding half_def by (intro arg_cong2 [where f = append] filter_cong refl) (auto simp: is_high_1 simp del: One_nat_def)

lemma boot_alloc_0: "nextfree s \<noteq> 0 \<Longrightarrow> boot_alloc kend cmos 0 s = Ret (nextfree s) s"
  by (simp add: boot_alloc_def)

lemma filters_nonempty:
  "0 < length (filter P xs) \<longleftrightarrow> (\<exists>p \<in> set xs. P p)"
  by (auto simp: filter_empty_conv)

lemma check_page_free_list_run:
  assumes "free_pages_ok s xs" "nextfree s \<noteq> 0"
  shows "if (\<forall>p \<in> set xs. good_free_page (nextfree s) p) \<and> (\<exists>p \<in> set xs. p < 256) \<and> (\<exists>p \<in> set xs. 256 \<le> p)
    then \<exists>t. check_page_free_list b cmos low s = Ret () t \<and> keeps (set xs) s t \<and>
      free_pages_ok t (if low then filter (\<lambda>p. p < 1024) xs @ filter (\<lambda>p. \<not> p < 1024) xs else xs)
    else \<exists>m. check_page_free_list b cmos low s = Panic m"
proof (cases xs)
  case Nil
  with assms show ?thesis by (simp add: check_page_free_list_def free_pages_ok_def)
next
  case (Cons x xt)
  with assms(1) have ne: "page_free_list s \<noteq> None" by (simp add: free_pages_ok_def)
  define lim where "lim = (if low then 1 else NPDENTRIES)"
  let ?zs = "if low then filter (\<lambda>p. p < 1024) xs @ filter (\<lambda>p. \<not> p < 1024) xs else xs"
  have "\<And>p. p \<in> set xs \<Longrightarrow> p < 2 ^ 20" using assms(1) by (auto simp: free_pages_ok_def)
  with low_pages_first_ok [OF assms(1), of 1] obtain u where
    u: "(if low then low_pages_first lim s else Ret () s) = Ret () u" "free_pages_ok u ?zs" "keeps (set xs) s u"
    using assms(1) by (cases low) (auto simp: half_1 lim_def simp del: One_nat_def)
  have zs: "set ?zs = set xs" by auto
  from trouble_ok [OF u(2), of lim] obtain K where
    K: "for_list (trouble_step lim) (page_free_list u) () u = Ret () (u\<lparr>kmem := K\<rparr>)" "\<forall>q. q \<notin> set xs \<longrightarrow> K q = kmem u q"
    unfolding zs by blast
  let ?t = "u\<lparr>kmem := K\<rparr>"
  have nf: "nextfree ?t = nextfree s" "page_free_list ?t = page_free_list u" using u(3) by (simp_all add: keeps_def)
  have ok: "free_pages_ok ?t ?zs" using u(2) by simp
  have k: "keeps (set xs) s ?t" using u(3) K(2) by (auto simp: keeps_def)
  let ?loop = "for_list (check_free_page (nextfree s)) (page_free_list ?t) (0, 0) ?t"
  have run: "check_page_free_list b cmos low s =
      bindO ?loop (\<lambda>(n, m) s. bindO (check (0 < n \<and> 0 < m) s) (\<lambda>_ s.
        Ret () (kputs (nl (chars ''check_page_free_list() succeeded!'')) s)))"
    using ne u(1) K(1) nf assms(2) by (auto simp: check_page_free_list_def lim_def [symmetric] boot_alloc_0)
  show ?thesis
  proof (cases "\<forall>p \<in> set xs. good_free_page (nextfree s) p")
    case True
    then have g: "\<forall>p \<in> set ?zs. good_free_page (nextfree s) p" by (simp only: zs)
    note l = check_loop_ok [OF ok g]
    have "(0 < length (filter (\<lambda>p. p < 256) ?zs) \<and> 0 < length (filter (\<lambda>p. \<not> p < 256) ?zs)) =
      ((\<exists>p \<in> set xs. p < 256) \<and> (\<exists>p \<in> set xs. 256 \<le> p))"
      unfolding filters_nonempty zs by (simp add: not_less)
    with True l ok k show ?thesis by (simp only: run bindO.simps check_def prod.case) auto
  next
    case False
    then have g: "\<not> (\<forall>p \<in> set ?zs. good_free_page (nextfree s) p)" by (simp only: zs not_False_eq_True)
    from check_loop_panic [OF ok g] obtain m where "?loop = Panic m" by blast
    then have "check_page_free_list b cmos low s = Panic m" unfolding run by (simp only: bindO.simps)
    with False show ?thesis by (simp only: if_False simp_thms) blast
  qed
qed

text \<open>
  \<open>check_page_free_list\<close> decides whether the free list is sound: it returns if and only if every free page
  is one that may be allocated (not page 0, not the page of the start code of the other CPUs, not the
  first or the last page of the I/O hole, not the first page of extended memory, and no page of extended memory below what \<open>boot_alloc\<close>
  has handed out) and there is a free page both below and above 1 MB; otherwise it panics. With
  \<open>only_low_memory\<close> it moves the pages below 4 MB to the front and keeps the order of both groups, as a stable partition does; the
  pages that are in use keep their contents and their descriptors.
\<close>

theorem check_page_free_list_decides:
  assumes "free_pages_ok s xs" "nextfree s \<noteq> 0"
  shows "if (\<forall>p \<in> set xs. good_free_page (nextfree s) p) \<and> (\<exists>p \<in> set xs. p < 256) \<and> (\<exists>p \<in> set xs. 256 \<le> p)
    then \<exists>t. check_page_free_list b cmos low s = Ret () t \<and> keeps (set xs) s t \<and>
      free_pages_ok t (if low then filter (\<lambda>p. p < 1024) xs @ filter (\<lambda>p. \<not> p < 1024) xs else xs)
    else \<exists>m. check_page_free_list b cmos low s = Panic m"
  by (rule check_page_free_list_run [OF assms])

section \<open>Three pages of the free list\<close>

text \<open>
  The tests take the pages \<open>a\<close>, \<open>b\<close> and \<open>c\<close> off the free list; \<open>lab\<close> is the state with the head \<open>F\<close> of the
  free list, the descriptors and the contents of the three pages, and the first two slots of the page directory \<open>pd\<close>.
\<close>

definition lab :: "kstate \<Rightarrow> nat \<Rightarrow> nat \<Rightarrow> nat \<Rightarrow> nat \<Rightarrow> nat option \<Rightarrow> PageInfo \<Rightarrow> PageInfo \<Rightarrow> PageInfo \<Rightarrow> u32 \<Rightarrow> u32 \<Rightarrow>
    (nat \<Rightarrow> u32) \<Rightarrow> (nat \<Rightarrow> u32) \<Rightarrow> (nat \<Rightarrow> u32) \<Rightarrow> u32 list \<Rightarrow> kstate" where
  "lab s pd a b c F A B C d0 d1 ka kb kc fs =
     s\<lparr>page_free_list := F, pages := (pages s)(a := A, b := B, c := C),
       kmem := (kmem s)(pd := (kmem s pd)(0 := d0, Suc 0 := d1), a := ka, b := kb, c := kc), tlb_flushes := fs\<rparr>"

abbreviation PI :: "nat option \<Rightarrow> u16 \<Rightarrow> PageInfo" where "PI l r \<equiv> \<lparr>pp_link = l, pp_ref = r\<rparr>"

definition lab_ok :: "kstate \<Rightarrow> nat \<Rightarrow> nat \<Rightarrow> nat \<Rightarrow> nat \<Rightarrow> bool" where
  "lab_ok s pd a b c \<longleftrightarrow> distinct [a, b, c, pd] \<and> 0 < a \<and> 0 < b \<and> 0 < c \<and> a < npages s \<and> b < npages s \<and> c < npages s \<and>
     npages s \<le> 2 ^ 16 \<and> kern_pgdir s = pd"

lemma lab_frame [simp]:
  "npages (lab s pd a b c F A B C d0 d1 ka kb kc fs) = npages s"
  "page_free_list (lab s pd a b c F A B C d0 d1 ka kb kc fs) = F"
  "kern_pgdir (lab s pd a b c F A B C d0 d1 ka kb kc fs) = kern_pgdir s"
  "mmio_base (lab s pd a b c F A B C d0 d1 ka kb kc fs) = mmio_base s"
  "nextfree (lab s pd a b c F A B C d0 d1 ka kb kc fs) = nextfree s"
  "cr3 (lab s pd a b c F A B C d0 d1 ka kb kc fs) = cr3 s"
  "envs (lab s pd a b c F A B C d0 d1 ka kb kc fs) = envs s"
  "env_free_list (lab s pd a b c F A B C d0 d1 ka kb kc fs) = env_free_list s"
  "cpus (lab s pd a b c F A B C d0 d1 ka kb kc fs) = cpus s"
  "this_cpu (lab s pd a b c F A B C d0 d1 ka kb kc fs) = this_cpu s"
  "kernel_lock (lab s pd a b c F A B C d0 d1 ka kb kc fs) = kernel_lock s"
  "(lab s pd a b c F A B C d0 d1 ka kb kc fs)\<lparr>page_free_list := G\<rparr> = lab s pd a b c G A B C d0 d1 ka kb kc fs"
  by (simp_all add: lab_def)

lemma lab_initial:
  assumes "distinct [a, b, c, pd]"
  shows "s = lab s pd a b c (page_free_list s) (pages s a) (pages s b) (pages s c) (kmem s pd 0) (kmem s pd (Suc 0))
    (kmem s a) (kmem s b) (kmem s c) (tlb_flushes s)"
  using assms by (simp add: lab_def)

text \<open>Reading and writing the state.\<close>

lemma lab_read:
  assumes "lab_ok s pd a b c"
  shows
    "pages (lab s pd a b c F A B C d0 d1 ka kb kc fs) a = A"
    "pages (lab s pd a b c F A B C d0 d1 ka kb kc fs) b = B"
    "pages (lab s pd a b c F A B C d0 d1 ka kb kc fs) c = C"
    "kmem (lab s pd a b c F A B C d0 d1 ka kb kc fs) pd 0 = d0"
    "kmem (lab s pd a b c F A B C d0 d1 ka kb kc fs) pd (Suc 0) = d1"
    "kmem (lab s pd a b c F A B C d0 d1 ka kb kc fs) a = ka"
    "kmem (lab s pd a b c F A B C d0 d1 ka kb kc fs) b = kb"
    "kmem (lab s pd a b c F A B C d0 d1 ka kb kc fs) c = kc"
  using assms by (auto simp: lab_ok_def lab_def)

lemma lab_page2kva:
  assumes "lab_ok s pd a b c"
  shows
    "page2kva a (lab s pd a b c F A B C d0 d1 ka kb kc fs) = Ret (page2pa a + KERNBASE) (lab s pd a b c F A B C d0 d1 ka kb kc fs)"
    "page2kva b (lab s pd a b c F A B C d0 d1 ka kb kc fs) = Ret (page2pa b + KERNBASE) (lab s pd a b c F A B C d0 d1 ka kb kc fs)"
    "page2kva c (lab s pd a b c F A B C d0 d1 ka kb kc fs) = Ret (page2pa c + KERNBASE) (lab s pd a b c F A B C d0 d1 ka kb kc fs)"
    "kva_frame (page2pa a + KERNBASE) = a"
    "kva_frame (page2pa b + KERNBASE) = b"
    "kva_frame (page2pa c + KERNBASE) = c"
  using assms page2kva_frame [of a] page2kva_frame [of b] page2kva_frame [of c]
  by (auto simp: lab_ok_def page2kva_frame)

lemma lab_pages:
  assumes "lab_ok s pd a b c"
  shows
    "upd_page a f (lab s pd a b c F A B C d0 d1 ka kb kc fs) = lab s pd a b c F (f A) B C d0 d1 ka kb kc fs"
    "upd_page b f (lab s pd a b c F A B C d0 d1 ka kb kc fs) = lab s pd a b c F A (f B) C d0 d1 ka kb kc fs"
    "upd_page c f (lab s pd a b c F A B C d0 d1 ka kb kc fs) = lab s pd a b c F A B (f C) d0 d1 ka kb kc fs"
  using assms by (simp_all add: lab_ok_def lab_def upd_page_def fun_upd_twist)

lemma lab_words:
  assumes "lab_ok s pd a b c"
  shows
    "wr_word pd 0 v (lab s pd a b c F A B C d0 d1 ka kb kc fs) = lab s pd a b c F A B C v d1 ka kb kc fs"
    "wr_word pd (Suc 0) v (lab s pd a b c F A B C d0 d1 ka kb kc fs) = lab s pd a b c F A B C d0 v ka kb kc fs"
    "wr_word a i v (lab s pd a b c F A B C d0 d1 ka kb kc fs) = lab s pd a b c F A B C d0 d1 (ka(i := v)) kb kc fs"
    "wr_word b i v (lab s pd a b c F A B C d0 d1 ka kb kc fs) = lab s pd a b c F A B C d0 d1 ka (kb(i := v)) kc fs"
    "wr_word c i v (lab s pd a b c F A B C d0 d1 ka kb kc fs) = lab s pd a b c F A B C d0 d1 ka kb (kc(i := v)) fs"
  using assms by (simp_all add: lab_ok_def lab_def wr_word_def fun_upd_twist)

lemma lab_fill:
  assumes "lab_ok s pd a b c"
  shows
    "zero_page a (lab s pd a b c F A B C d0 d1 ka kb kc fs) = lab s pd a b c F A B C d0 d1 (\<lambda>_. 0) kb kc fs"
    "zero_page b (lab s pd a b c F A B C d0 d1 ka kb kc fs) = lab s pd a b c F A B C d0 d1 ka (\<lambda>_. 0) kc fs"
    "zero_page c (lab s pd a b c F A B C d0 d1 ka kb kc fs) = lab s pd a b c F A B C d0 d1 ka kb (\<lambda>_. 0) fs"
    "fill_words a n v (lab s pd a b c F A B C d0 d1 ka kb kc fs) = lab s pd a b c F A B C d0 d1 (\<lambda>i. if i < n then v else ka i) kb kc fs"
    "fill_words b n v (lab s pd a b c F A B C d0 d1 ka kb kc fs) = lab s pd a b c F A B C d0 d1 ka (\<lambda>i. if i < n then v else kb i) kc fs"
    "fill_words c n v (lab s pd a b c F A B C d0 d1 ka kb kc fs) = lab s pd a b c F A B C d0 d1 ka kb (\<lambda>i. if i < n then v else kc i) fs"
  using assms by (simp_all add: lab_ok_def lab_def zero_page_def fill_words_def fun_upd_twist cong: if_cong)


text \<open>The operations on these states. A page table is \<open>a\<close>, if slot 0 has one.\<close>

lemma lab_bounds:
  assumes "lab_ok s pd a b c"
  shows "a \<noteq> b" "b \<noteq> a" "a \<noteq> c" "c \<noteq> a" "b \<noteq> c" "c \<noteq> b" "a < npages s" "b < npages s" "c < npages s" "kern_pgdir s = pd"
    "a < 2 ^ 20" "b < 2 ^ 20" "c < 2 ^ 20" "npages s \<le> 2 ^ 20"
  using assms by (auto simp: lab_ok_def)

lemma lab_alloc:
  assumes "lab_ok s pd a b c"
  shows "page_alloc f (lab s pd a b c None A B C d0 d1 ka kb kc fs) = Ret None (lab s pd a b c None A B C d0 d1 ka kb kc fs)"
    "page_alloc 0 (lab s pd a b c (Some a) (PI l r) B C d0 d1 ka kb kc fs) = Ret (Some a) (lab s pd a b c l (PI None 0) B C d0 d1 ka kb kc fs)"
    "page_alloc 0 (lab s pd a b c (Some b) A (PI l r) C d0 d1 ka kb kc fs) = Ret (Some b) (lab s pd a b c l A (PI None 0) C d0 d1 ka kb kc fs)"
    "page_alloc 0 (lab s pd a b c (Some c) A B (PI l r) d0 d1 ka kb kc fs) = Ret (Some c) (lab s pd a b c l A B (PI None 0) d0 d1 ka kb kc fs)"
    "page_alloc 1 (lab s pd a b c (Some a) (PI l r) B C d0 d1 ka kb kc fs) = Ret (Some a) (lab s pd a b c l (PI None r) B C d0 d1 (\<lambda>_. 0) kb kc fs)"
  using lab_bounds [OF assms]
  by (simp_all add: page_alloc_def Let_def lab_read [OF assms] lab_pages [OF assms] lab_fill [OF assms] lab_page2kva [OF assms] ALLOC_ZERO_def)

lemma lab_free:
  assumes "lab_ok s pd a b c"
  shows "page_free a (lab s pd a b c F (PI None 0) B C d0 d1 ka kb kc fs) = Ret () (lab s pd a b c (Some a) (PI F 0) B C d0 d1 ka kb kc fs)"
    "page_free b (lab s pd a b c F A (PI None 0) C d0 d1 ka kb kc fs) = Ret () (lab s pd a b c (Some b) A (PI F 0) C d0 d1 ka kb kc fs)"
    "page_free c (lab s pd a b c F A B (PI None 0) d0 d1 ka kb kc fs) = Ret () (lab s pd a b c (Some c) A B (PI F 0) d0 d1 ka kb kc fs)"
  by (simp_all add: page_free_def Let_def lab_read [OF assms] lab_pages [OF assms])

lemma c_not_present: "c_not x AND PTE_P = 0 \<longleftrightarrow> x \<noteq> 0"
  by (simp add: PTE_P_def)

lemma pde_for_simps:
  assumes "p < 2 ^ 20"
  shows "PTE_ADDR (pde_for p) = page2pa p" "pde_for p AND PTE_P \<noteq> 0" "pde_for p AND PTE_U \<noteq> 0" "pde_for p \<noteq> 0"
    "unat (PGNUM (pde_for p)) = p"
proof -
  show "PTE_ADDR (pde_for p) = page2pa p" by (simp add: pde_for_def PTE_ADDR_or)
  show P: "pde_for p AND PTE_P \<noteq> 0" using pde_for_low_bits [of 0 p] by (simp add: right_bits)
  show "pde_for p \<noteq> 0" using P by (metis zero_and_eq)
  show "pde_for p AND PTE_U \<noteq> 0" using pde_for_low_bits [of 2 p] by (simp add: right_bits)
  show "unat (PGNUM (pde_for p)) = p" using pde_for_frame [OF assms] by (simp add: frame_of_def)
qed

lemma lab_walk:
  assumes ok: "lab_ok s pd a b c" and va: "unat (PDX va) = 0"
  shows "pgdir_walk pd va e (lab s pd a b c F A B C (pde_for a) d1 ka kb kc fs) =
      Ret (Some (a, unat (PTX va))) (lab s pd a b c F A B C (pde_for a) d1 ka kb kc fs)"
    "pgdir_walk pd va False (lab s pd a b c F A B C 0 d1 ka kb kc fs) = Ret None (lab s pd a b c F A B C 0 d1 ka kb kc fs)"
    "pgdir_walk pd va True (lab s pd a b c None A B C 0 d1 ka kb kc fs) = Ret None (lab s pd a b c None A B C 0 d1 ka kb kc fs)"
    "pgdir_walk pd va True (lab s pd a b c (Some a) (PI l r) B C 0 d1 ka kb kc fs) =
      Ret (Some (a, unat (PTX va))) (lab s pd a b c l (PI None (r + 1)) B C (pde_for a) d1 (\<lambda>_. 0) kb kc fs)"
  using lab_bounds [OF ok]
  by (simp_all add: pgdir_walk_def Let_def va lab_read [OF ok] lab_pages [OF ok] lab_words [OF ok] lab_alloc [OF ok]
      pde_for_simps c_not_present kaddr_page2pa lab_page2kva [OF ok] flip: pde_for_def)

lemma lab_walk_1:
  assumes ok: "lab_ok s pd a b c" and va: "unat (PDX va) = Suc 0"
  shows "pgdir_walk pd va True (lab s pd a b c None A B C d0 0 ka kb kc fs) = Ret None (lab s pd a b c None A B C d0 0 ka kb kc fs)"
    "pgdir_walk pd va True (lab s pd a b c (Some a) (PI l r) B C d0 0 ka kb kc fs) =
      Ret (Some (a, unat (PTX va))) (lab s pd a b c l (PI None (r + 1)) B C d0 (pde_for a) (\<lambda>_. 0) kb kc fs)"
  using lab_bounds [OF ok]
  by (simp_all add: pgdir_walk_def Let_def va lab_read [OF ok] lab_pages [OF ok] lab_words [OF ok] lab_alloc [OF ok]
      pde_for_simps c_not_present kaddr_page2pa lab_page2kva [OF ok] flip: pde_for_def)

text \<open>The tests use the pages at 0 and at \<open>PGSIZE\<close>.\<close>

lemma va_index:
  "unat (PDX 0) = 0" "unat (PTX 0) = 0" "unat (PDX PGSIZE) = 0" "unat (PTX PGSIZE) = Suc 0"
  "unat (PDX PTSIZE) = Suc 0" "unat (PTX PTSIZE) = 0" "unat (PDX (PGSIZE * of_nat NPDENTRIES + PGSIZE)) = Suc 0"
  "unat (PTX (PGSIZE * of_nat NPDENTRIES + PGSIZE)) = Suc 0"
  by (simp_all add: unat_PDX unat_PTX PGSIZE_def layout_values NPDENTRIES_def)

lemma pte_for_simps:
  assumes "p < 2 ^ 20" "w \<in> {0, PTE_W, PTE_W OR PTE_U}"
  shows "PTE_ADDR (pte_for p w) = page2pa p" "pte_for p w AND PTE_P \<noteq> 0" "unat (PGNUM (pte_for p w)) = p"
proof -
  have "PTE_ADDR w = 0" using assms(2) by (auto simp: PTE_ADDR_or)
  then show "PTE_ADDR (pte_for p w) = page2pa p" "unat (PGNUM (pte_for p w)) = p"
    using pte_for(1) [OF assms(1), of w] by (simp_all add: pte_for_def PTE_ADDR_or frame_of_def)
  show "pte_for p w AND PTE_P \<noteq> 0" unfolding pte_for_def by (rule or_PTE_P)
qed

lemma pte_for_rights:
  "pte_for p PTE_W AND PTE_W \<noteq> 0" "pte_for p (PTE_W OR PTE_U) AND PTE_U \<noteq> 0" "pte_for p PTE_W AND PTE_U = 0"
  unfolding right_bits pte_for_def PTE_ADDR_page2pa
  by (simp_all add: bit_simps page2pa_def PTE_W_def PTE_U_def PTE_P_def)

lemma page2pa_nonzero: "0 < p \<Longrightarrow> p < 2 ^ 20 \<Longrightarrow> page2pa p \<noteq> 0"
  using page2pa_values(1) [of p] by simp

lemma lab_va2pa:
  assumes ok: "lab_ok s pd a b c" and va: "unat (PDX va) = 0"
  shows "check_va2pa pd va (lab s pd a b c F A B C (pde_for a) d1 ka kb kc fs) =
    Ret (if ka (unat (PTX va)) AND PTE_P = 0 then NOT 0 else PTE_ADDR (ka (unat (PTX va)))) (lab s pd a b c F A B C (pde_for a) d1 ka kb kc fs)"
  using lab_bounds [OF ok]
  by (simp add: check_va2pa_def Let_def va lab_read [OF ok] pde_for_simps kaddr_page2pa lab_page2kva [OF ok])

lemma lab_lookup:
  assumes ok: "lab_ok s pd a b c" and va: "unat (PDX va) = 0"
  shows "page_lookup pd va (lab s pd a b c F A B C 0 d1 ka kb kc fs) = Ret None (lab s pd a b c F A B C 0 d1 ka kb kc fs)"
    "p < npages s \<Longrightarrow> ka (unat (PTX va)) = pte_for p w \<Longrightarrow> w \<in> {0, PTE_W, PTE_W OR PTE_U} \<Longrightarrow>
      page_lookup pd va (lab s pd a b c F A B C (pde_for a) d1 ka kb kc fs) =
      Ret (Some (p, a, unat (PTX va))) (lab s pd a b c F A B C (pde_for a) d1 ka kb kc fs)"
proof -
  show "page_lookup pd va (lab s pd a b c F A B C 0 d1 ka kb kc fs) = Ret None (lab s pd a b c F A B C 0 d1 ka kb kc fs)"
    by (simp add: page_lookup_def lab_walk [OF ok va])
  assume p: "p < npages s" "ka (unat (PTX va)) = pte_for p w" "w \<in> {0, PTE_W, PTE_W OR PTE_U}"
  then have "p < 2 ^ 20" using lab_bounds(14) [OF ok] by simp
  with p show "page_lookup pd va (lab s pd a b c F A B C (pde_for a) d1 ka kb kc fs) =
      Ret (Some (p, a, unat (PTX va))) (lab s pd a b c F A B C (pde_for a) d1 ka kb kc fs)"
    by (simp add: page_lookup_def lab_walk [OF ok va] lab_read [OF ok] pte_for_simps pa2page_def PGNUM_page2pa)
qed

text \<open>The log of TLB flushes after one more.\<close>

definition flushed :: "kstate \<Rightarrow> nat \<Rightarrow> u32 \<Rightarrow> u32 list \<Rightarrow> u32 list" where
  "flushed s pd va fs =
     (if (case curenv s of None \<Rightarrow> True | Some e \<Rightarrow> env_pgdir (envs s e) = Some pd) then va # fs else fs)"

lemma lab_tlb: "tlb_invalidate pd va (lab s pd a b c F A B C d0 d1 ka kb kc fs) = lab s pd a b c F A B C d0 d1 ka kb kc (flushed s pd va fs)"
  by (simp add: tlb_invalidate_def flushed_def curenv_def cong: option.case_cong) (simp add: lab_def)

lemma pte_for_eq: "pte_for p w = (page2pa p OR w) OR PTE_P"
  by (simp add: pte_for_def)

text \<open>A new mapping of \<open>b\<close> or \<open>c\<close>, and an old one.\<close>

lemma lab_insert:
  assumes ok: "lab_ok s pd a b c" and va: "unat (PDX va) = 0"
  shows "page_insert pd p va w (lab s pd a b c None A B C 0 d1 ka kb kc fs) = Ret (- E_NO_MEM) (lab s pd a b c None A B C 0 d1 ka kb kc fs)"
    "page_insert pd b va w (lab s pd a b c (Some a) (PI l 0) (PI k r) C 0 d1 ka kb kc fs) =
      Ret 0 (lab s pd a b c l (PI None 1) (PI k (r + 1)) C (pde_for a) d1 ((\<lambda>_. 0)(unat (PTX va) := pte_for b w)) kb kc fs)"
    "ka (unat (PTX va)) = 0 \<Longrightarrow> page_insert pd c va w (lab s pd a b c F A B (PI k r) (pde_for a) d1 ka kb kc fs) =
      Ret 0 (lab s pd a b c F A B (PI k (r + 1)) (pde_for a) d1 (ka(unat (PTX va) := pte_for c w)) kb kc fs)"
  using lab_bounds [OF ok] page2pa_nonzero [of b] page2pa_nonzero [of c] ok
  by (simp_all add: page_insert_def Let_def lab_walk [OF ok va] lab_read [OF ok] lab_words [OF ok] lab_pages [OF ok] lab_ok_def
      flip: pte_for_eq)

lemma lab_reinsert:
  assumes ok: "lab_ok s pd a b c" and va: "unat (PDX va) = 0" and v: "v \<in> {0, PTE_W, PTE_W OR PTE_U}"
  shows "ka (unat (PTX va)) = pte_for c v \<Longrightarrow> page_insert pd c va w (lab s pd a b c F A B C (pde_for a) d1 ka kb kc fs) =
      Ret 0 (lab s pd a b c F A B C (pde_for a) d1 (ka(unat (PTX va) := pte_for c w)) kb kc fs)"
    "ka (unat (PTX va)) = pte_for b v \<Longrightarrow> page_insert pd b va w (lab s pd a b c F A B C (pde_for a) d1 ka kb kc fs) =
      Ret 0 (lab s pd a b c F A B C (pde_for a) d1 (ka(unat (PTX va) := pte_for b w)) kb kc fs)"
  using lab_bounds [OF ok] v
  by (simp_all add: page_insert_def Let_def lab_walk [OF ok va] lab_read [OF ok] lab_words [OF ok] pte_for_simps flip: pte_for_eq)

lemma lab_insert_1:
  assumes ok: "lab_ok s pd a b c" and va: "unat (PDX va) = Suc 0"
  shows "page_insert pd p va w (lab s pd a b c None A B C d0 0 ka kb kc fs) = Ret (- E_NO_MEM) (lab s pd a b c None A B C d0 0 ka kb kc fs)"
  by (simp add: page_insert_def Let_def lab_walk_1 [OF ok va])

text \<open>Removal gives a reference back, and the last one frees the page.\<close>

lemma lab_remove:
  assumes ok: "lab_ok s pd a b c" and va: "unat (PDX va) = 0" and w: "w \<in> {0, PTE_W, PTE_W OR PTE_U}"
  shows "ka (unat (PTX va)) = pte_for b w \<Longrightarrow> r \<noteq> 1 \<Longrightarrow> page_remove pd va (lab s pd a b c F A (PI l r) C (pde_for a) d1 ka kb kc fs) =
      Ret () (lab s pd a b c F A (PI l (r - 1)) C (pde_for a) d1 (ka(unat (PTX va) := 0)) kb kc (flushed s pd va fs))"
    "ka (unat (PTX va)) = pte_for b w \<Longrightarrow> page_remove pd va (lab s pd a b c F A (PI None 1) C (pde_for a) d1 ka kb kc fs) =
      Ret () (lab s pd a b c (Some b) A (PI F 0) C (pde_for a) d1 (ka(unat (PTX va) := 0)) kb kc (flushed s pd va fs))"
    "ka (unat (PTX va)) = pte_for c w \<Longrightarrow> page_remove pd va (lab s pd a b c F A B (PI None 1) (pde_for a) d1 ka kb kc fs) =
      Ret () (lab s pd a b c (Some c) A B (PI F 0) (pde_for a) d1 (ka(unat (PTX va) := 0)) kb kc (flushed s pd va fs))"
  using lab_bounds [OF ok] w
  by (simp_all add: page_remove_def Let_def lab_lookup [OF ok va] lab_words [OF ok] page_decref_def lab_pages [OF ok] lab_read [OF ok]
      lab_free [OF ok] lab_tlb)

lemma lab_replace:
  assumes ok: "lab_ok s pd a b c" and va: "unat (PDX va) = 0" and v: "v \<in> {0, PTE_W, PTE_W OR PTE_U}"
  shows "ka (unat (PTX va)) = pte_for c v \<Longrightarrow> page_insert pd b va w (lab s pd a b c F A (PI k r) (PI None 1) (pde_for a) d1 ka kb kc fs) =
      Ret 0 (lab s pd a b c (Some c) A (PI k (r + 1)) (PI F 0) (pde_for a) d1 (ka(unat (PTX va) := pte_for b w)) kb kc (flushed s pd va fs))"
    "ka (unat (PTX va)) = pte_for b v \<Longrightarrow> page_insert pd c va w (lab s pd a b c F A (PI None 1) (PI k r) (pde_for a) d1 ka kb kc fs) =
      Ret 0 (lab s pd a b c (Some b) A (PI F 0) (PI k (r + 1)) (pde_for a) d1 (ka(unat (PTX va) := pte_for c w)) kb kc (flushed s pd va fs))"
  using lab_bounds [OF ok] v page2pa_inj [of b c] page2pa_inj [of c b]
  by (simp_all add: page_insert_def Let_def lab_walk [OF ok va] lab_read [OF ok] lab_words [OF ok] lab_pages [OF ok]
      lab_remove [OF ok va v] pte_for_simps flip: pte_for_eq)

section \<open>The tests succeed\<close>

text \<open>The rules for the pages at 0, at \<open>PGSIZE\<close> and at \<open>PTSIZE\<close>.\<close>

lemmas lab_at_0 =
  lab_walk [OF _ va_index(1), unfolded va_index(2)] lab_va2pa [OF _ va_index(1), unfolded va_index(2)]
  lab_lookup(1) [OF _ va_index(1)] lab_insert [OF _ va_index(1), unfolded va_index(2)]
  lab_remove [OF _ va_index(1), where w = PTE_W, unfolded va_index(2), simplified]

lemmas lab_at_PGSIZE =
  lab_walk [OF _ va_index(3), unfolded va_index(4)] lab_va2pa [OF _ va_index(3), unfolded va_index(4)]
  lab_insert [OF _ va_index(3), unfolded va_index(4)]
  lab_reinsert [OF _ va_index(3), where v = PTE_W, unfolded va_index(4), simplified]
  lab_reinsert [OF _ va_index(3), where v = "PTE_W OR PTE_U", unfolded va_index(4), simplified]
  lab_replace [OF _ va_index(3), where v = PTE_W, unfolded va_index(4), simplified]
  lab_remove [OF _ va_index(3), where w = PTE_W, unfolded va_index(4), simplified]
  lab_remove [OF _ va_index(3), where w = 0, unfolded va_index(4), simplified]

lemmas lab_run = lab_alloc lab_free lab_at_0 lab_at_PGSIZE lab_insert_1 [OF _ va_index(5)] lab_read lab_bounds(10)

lemmas test_defs = alloc_some_def alloc_none_def insert_is_def check_mapped_def check_ref_def check_pte_def walked_def check_def E_NO_MEM_def

lemma pte_for_present:
  assumes "lab_ok s pd a b c" "w \<in> {0, PTE_W, PTE_W OR PTE_U}"
  shows "PTE_ADDR (pte_for b w) = page2pa b" "pte_for b w AND PTE_P \<noteq> 0" "PTE_ADDR (pte_for c w) = page2pa c" "pte_for c w AND PTE_P \<noteq> 0"
  using lab_bounds [OF assms(1)] pte_for_simps [OF _ assms(2)] by simp_all

lemma check_page_insert_ok:
  assumes ok: "lab_ok s pd a b c"
  shows "check_page_insert a b c (lab s pd a b c None (PI None 0) (PI None 0) (PI None 0) 0 0 ka kb kc fs) =
    Ret () (lab s pd a b c (Some c) (PI None 1) (PI None 2) (PI None 0) (pde_for a) 0
      ((\<lambda>_. 0)(0 := pte_for b PTE_W, Suc 0 := pte_for b PTE_W)) kb kc (flushed s pd PGSIZE fs))"
proof -
  note b = lab_bounds [OF ok]
  have k: "kaddr (page2pa a) u = Ret (page2pa a + KERNBASE) u" if "npages u = npages s" for u
    using b that by (intro kaddr_page2pa) simp_all
  show ?thesis
    unfolding check_page_insert_def
    by (simp add: test_defs lab_run [OF ok] va_index pde_for_simps [OF b(11)] pte_for_present [OF ok] pte_for_rights k lab_page2kva [OF ok])
qed

lemma check_page_unmap_ok:
  assumes ok: "lab_ok s pd a b c"
  shows "check_page_unmap a b c (lab s pd a b c (Some c) (PI None 1) (PI None 2) (PI None 0) (pde_for a) 0
      ((\<lambda>_. 0)(0 := pte_for b PTE_W, Suc 0 := pte_for b PTE_W)) kb kc fs) =
    Ret () (lab s pd a b c None (PI None 0) (PI None 0) (PI None 0) 0 0 (\<lambda>_. 0) kb kc
      (flushed s pd PGSIZE (flushed s pd 0 fs)))"
proof -
  note b = lab_bounds [OF ok]
  have z: "((\<lambda>_. 0 :: u32)(0 := 0, Suc 0 := 0)) = (\<lambda>_. 0)" by (simp add: fun_eq_iff)
  show ?thesis
    unfolding check_page_unmap_def
    by (simp add: test_defs lab_run [OF ok] va_index pde_for_simps [OF b(11)] pte_for_present [OF ok] set_ref_def
        lab_words [OF ok] lab_pages [OF ok] z)
qed

lemma check_page_tables_ok:
  assumes ok: "lab_ok s pd a b c"
  shows "\<exists>k. check_page_tables a (lab s pd a b c None (PI None 0) (PI None 0) (PI None 0) 0 0 ka kb kc fs) =
    Ret () (lab s pd a b c None (PI None 0) (PI None 0) (PI None 0) 0 0 k kb kc fs)"
proof -
  note b = lab_bounds [OF ok]
  have k: "kaddr (page2pa a) u = Ret (page2pa a + KERNBASE) u" if "npages u = npages s" for u
    using b that by (intro kaddr_page2pa) simp_all
  show ?thesis
    unfolding check_page_tables_def
    by (simp add: test_defs lab_run [OF ok] lab_walk_1 [OF ok va_index(7)] va_index pde_for_simps [OF b(11)] k lab_page2kva [OF ok] set_ref_def
        lab_words [OF ok] lab_pages [OF ok] lab_fill [OF ok] memset_page_def Let_def list_all_iff) blast
qed

text \<open>A directory is not touched by what happens on the free list.\<close>

lemma dir_ok_keeps:
  assumes d: "dir_ok s xs pd" and k: "keeps (set xs) s u" and f: "free_pages_ok u ys" "set ys = set xs"
  shows "dir_ok u ys pd" "tables u pd = tables s pd" "m div 1024 < 1024 \<Longrightarrow> m div 1024 \<noteq> UV \<Longrightarrow> entry u pd m = entry s pd m"
    "kmem u pd = kmem s pd"
proof -
  show p: "kmem u pd = kmem s pd" using dir_okD(3) [OF d] k by (simp add: keeps_def)
  have n: "npages u = npages s" using k by (simp add: keeps_def)
  have v: "has_tbl u pd i = has_tbl s pd i" "tbl u pd i = tbl s pd i" for i by (simp_all add: has_tbl_def tbl_def p)
  show "dir_ok u ys pd" using d f by (simp add: dir_ok_def n p v)
  show "tables u pd = tables s pd" by (simp add: tables_def v)
  show "entry u pd m = entry s pd m" if "m div 1024 < 1024" "m div 1024 \<noteq> UV"
    using dir_okD(5) [OF d that] k by (cases "has_tbl s pd (m div 1024)") (simp_all add: entry_def v pte_def keeps_def)
qed

text \<open>Frame 0 is in use, and not for the page tables; nothing below changes that.\<close>

definition frame0_used :: "kstate \<Rightarrow> bool" where
  "frame0_used s \<longleftrightarrow> kern_pgdir s \<noteq> 0 \<and> 0 \<notin> table_frames s (kern_pgdir s) \<and> pp_ref (pages s 0) \<noteq> 0"

lemma frame0_keeps:
  assumes "dir_ok s xs (kern_pgdir s)" "keeps (set xs) s t" "frame0_used s"
  shows "frame0_used t"
proof -
  have "0 \<notin> set xs" using dir_okD(1) [OF assms(1)] assms(3) by (auto simp: free_pages_ok_def frame0_used_def)
  moreover have "kmem t (kern_pgdir s) = kmem s (kern_pgdir s)" using assms(2) dir_okD(3) [OF assms(1)] by (simp add: keeps_def)
  ultimately show ?thesis using assms(2,3)
    by (simp add: frame0_used_def keeps_def table_frames_def tables_def has_tbl_def tbl_def)
qed

lemma frame0_grows:
  assumes "dir_ok s xs (kern_pgdir s)" "grows (kern_pgdir s) s xs t ys" "frame0_used s"
  shows "frame0_used t"
proof -
  have "0 \<notin> set xs" using dir_okD(1) [OF assms(1)] assms(3) by (auto simp: free_pages_ok_def frame0_used_def)
  then show ?thesis using assms(2,3) by (auto simp: frame0_used_def grows_def same_but_map_def)
qed

text \<open>Three pages at the head of the free list are taken off and put back.\<close>

lemma free_pages_ok_Cons:
  "free_pages_ok s (p # ps) \<Longrightarrow> pages s p = PI (first ps) 0"
  by (cases "pages s p", cases ps) (auto simp: free_pages_ok_def)

lemma free_pages_ok_freed:
  assumes "free_pages_ok u xs" "page_free p u = Ret () t" "p < npages u" "p \<notin> set xs"
  shows "free_pages_ok t (p # xs)"
proof -
  have "pp_ref (pages u p) = 0" using assms(2) by (simp add: page_free_Ret)
  with assms free_pages_ok_pushed [of u xs p] page_free_pushed [of u xs p] show ?thesis by simp
qed

lemma lab_free_ok:
  assumes ok: "lab_ok s pd a b c" and f: "free_pages_ok s (x # y # z # fl)" and p: "{x, y, z} = {a, b, c}"
  shows "free_pages_ok (lab s pd a b c (first fl) (PI None 0) (PI None 0) (PI None 0) d0 d1 ka kb kc fs) fl" "a \<notin> set fl" "b \<notin> set fl" "c \<notin> set fl"
proof -
  let ?u = "lab s pd a b c (first fl) (PI None 0) (PI None 0) (PI None 0) d0 d1 ka kb kc fs"
  have "distinct (x # y # z # fl)" using f by (rule free_pages_ok_distinct)
  then have "{a, b, c} \<inter> set fl = {}" unfolding p [symmetric] by auto
  then show n: "a \<notin> set fl" "b \<notin> set fl" "c \<notin> set fl" by auto
  have pg: "pages ?u q = (if q \<in> {a, b, c} then PI None 0 else pages s q)" for q by (auto simp: lab_def)
  have out: "pages ?u q = pages s q" if "q \<in> set fl" for q using that n by (auto simp: pg)
  then have "linked (pages ?u) fl = linked (pages s) fl" by (rule linked_cong)
  moreover have "linked (pages s) fl" "fl \<noteq> [] \<longrightarrow> pp_link (pages s (last fl)) = None"
    using f linked_append [of "pages s" "[x, y, z]" fl] by (auto simp: free_pages_ok_linked)
  moreover have "pp_link (pages ?u q) = None" if "q < npages s" "q \<notin> set fl" for q
    using f that p by (auto simp: pg free_pages_ok_def)
  ultimately show "free_pages_ok ?u fl"
    using f out by (auto simp: free_pages_ok_linked)
qed

lemma keeps_lab:
  assumes "lab_ok s pd a b c" "{a, b, c} \<subseteq> X" "pd \<notin> X"
  shows "keeps X s (lab s pd a b c F A B C (kmem s pd 0) (kmem s pd (Suc 0)) ka kb kc fs)"
  using assms unfolding keeps_def by (auto simp: lab_def)

lemma lab_okI:
  assumes "free_pages_ok s (x # y # z # fl)" "{x, y, z} = {a, b, c}" "kern_pgdir s = pd" "pd \<notin> set (x # y # z # fl)" "0 \<notin> set (x # y # z # fl)"
  shows "lab_ok s pd a b c"
proof -
  have "distinct (x # y # z # fl)" using assms(1) by (rule free_pages_ok_distinct)
  then have "card {x, y, z} = 3" by simp
  then have "distinct [a, b, c]" unfolding assms(2) by (auto simp: card_insert_if split: if_splits)
  moreover have "\<forall>q \<in> {x, y, z}. q < npages s \<and> 0 < q \<and> q \<noteq> pd" using assms(1,4,5) by (auto simp: free_pages_ok_def)
  moreover have "npages s \<le> 2 ^ 16" using assms(1) by (simp add: free_pages_ok_def)
  ultimately show ?thesis using assms(3) unfolding assms(2) lab_ok_def by auto
qed

lemma count_free_ok:
  assumes "free_pages_ok s xs"
  shows "count_free s = Ret (length xs) s"
proof -
  have c: "chain (\<lambda>p. pp_link (pages s p)) (page_free_list s) xs" using assms by (simp add: free_pages_ok_def)
  have "\<exists>n t. count_free s = Ret n t \<and> (t = s \<and> n = length xs)"
    unfolding count_free_def
  proof (rule for_list_invariant [where Q = "\<lambda>ys n t. t = s \<and> n = length ys", OF chain_first [OF c]])
    fix ys p zs and n :: nat and t assume "xs = ys @ p # zs" "t = s \<and> n = length ys"
    with chain_next [of "\<lambda>p. pp_link (pages s p)" _ ys p zs] c
    show "\<exists>a' s'. Ret (n + 1) t = Ret a' s' \<and> (s' = s \<and> a' = length (ys @ [p])) \<and> pp_link (pages s' p) = first zs" by auto
  qed simp
  then show ?thesis by auto
qed

lemma page_below_memory:
  assumes "p < npages s" "npages s \<le> 2 ^ 16"
  shows "page2pa p < of_nat (npages s) * PGSIZE"
proof -
  have "unat (page2pa p) = p * 4096" using assms by (intro unat_page2pa) simp
  moreover have "unat (of_nat (npages s) * PGSIZE) = npages s * 4096"
    using assms by (simp add: unat_word_ariths unat_of_nat take_bit_eq_mod PGSIZE_def)
  ultimately show ?thesis using assms by (simp add: word_less_nat_alt)
qed

lemma check_page_alloc_ok:
  assumes f: "free_pages_ok s (a # b # c # fl)" and pd: "kern_pgdir s = pd" "pd \<notin> set (a # b # c # fl)" and z: "0 \<notin> set (a # b # c # fl)"
  shows "\<exists>t. check_page_alloc s = Ret () t \<and> free_pages_ok t (a # b # c # fl) \<and> keeps (set (a # b # c # fl)) s t"
proof -
  have p: "{a, b, c} = {c, b, a}" by auto
  have ok: "lab_ok s pd c b a" by (rule lab_okI [OF f p pd z])
  have fb: "free_pages_ok (popped 0 a s) (b # c # fl)" by (rule free_pages_ok_popped [OF f])
  have fc: "free_pages_ok (popped 0 b (popped 0 a s)) (c # fl)" by (rule free_pages_ok_popped [OF fb])
  have d: "a \<noteq> b" "a \<noteq> c" "b \<noteq> c" using lab_bounds [OF ok] by auto
  have pg: "pages s a = PI (Some b) 0" "pages s b = PI (Some c) 0" "pages s c = PI (first fl) 0" "page_free_list s = Some a"
    using free_pages_ok_Cons [OF f] free_pages_ok_Cons [OF fb] free_pages_ok_Cons [OF fc] f d by (simp_all add: free_pages_ok_def)
  define L where "L = (\<lambda>F C B A k. lab s pd c b a F C B A (kmem s pd 0) (kmem s pd (Suc 0)) k (kmem s b) (kmem s a) (tlb_flushes s))"
  have s: "s = L (Some a) (PI (first fl) 0) (PI (Some c) 0) (PI (Some b) 0) (kmem s c)"
    using lab_initial [of c b a pd s] ok by (simp add: L_def pg lab_ok_def)
  note fl = lab_free_ok(2-4) [OF ok f p]
  have fr: "free_pages_ok (L (first fl) (PI None 0) (PI None 0) (PI None 0) k) fl" for k unfolding L_def by (rule lab_free_ok(1) [OF ok f p])
  define t where "t = L (Some a) (PI (first fl) 0) (PI (Some c) 0) (PI (Some b) 0) (\<lambda>_. 0)"
  have free: "page_free c (L (first fl) (PI None 0) (PI None 0) (PI None 0) (\<lambda>_. 0)) = Ret () (L (Some c) (PI (first fl) 0) (PI None 0) (PI None 0) (\<lambda>_. 0))"
    "page_free b (L (Some c) (PI (first fl) 0) (PI None 0) (PI None 0) (\<lambda>_. 0)) = Ret () (L (Some b) (PI (first fl) 0) (PI (Some c) 0) (PI None 0) (\<lambda>_. 0))"
    "page_free a (L (Some b) (PI (first fl) 0) (PI (Some c) 0) (PI None 0) (\<lambda>_. 0)) = Ret () t"
    by (simp_all add: L_def t_def lab_free [OF ok])
  have "free_pages_ok t (a # b # c # fl)"
    using free_pages_ok_freed [OF free_pages_ok_freed [OF free_pages_ok_freed [OF fr free(1)] free(2)] free(3)]
      lab_bounds [OF ok] fl d by (simp add: L_def)
  moreover have "check_page_alloc s = Ret () (kputs (nl (chars ''check_page_alloc() succeeded!'')) t)"
  proof -
    let ?s = "L (Some a) (PI (first fl) 0) (PI (Some c) 0) (PI (Some b) 0) (kmem s c)"
    have n: "count_free t = Ret (length (a # b # c # fl)) t" "count_free ?s = Ret (length (a # b # c # fl)) ?s"
      unfolding s [symmetric] by (rule count_free_ok [OF calculation], rule count_free_ok [OF f])
    have m: "page2pa q < of_nat (npages s) * PGSIZE" if "q \<in> {a, b, c}" for q
      using that f by (intro page_below_memory) (auto simp: free_pages_ok_def)
    have "check_page_alloc ?s = Ret () (kputs (nl (chars ''check_page_alloc() succeeded!'')) t)"
      unfolding check_page_alloc_def Let_def
      by (simp add: n [unfolded t_def L_def] test_defs L_def t_def lab_run [OF ok] lab_page2kva [OF ok] memset_page_def lab_fill [OF ok]
        m lab_bounds(1-6) [OF ok] rd_byte_def list_all_iff ALLOC_ZERO_def)
    then show ?thesis unfolding s [symmetric] .
  qed
  ultimately show ?thesis using keeps_lab [OF ok, of "set (a # b # c # fl)"] pd(2) by (simp add: t_def L_def)
qed

text \<open>The variables of the kernel that the tests leave alone.\<close>

definition same_vars :: "kstate \<Rightarrow> kstate \<Rightarrow> bool" where
  "same_vars s t \<longleftrightarrow> npages t = npages s \<and> nextfree t = nextfree s \<and> kern_pgdir t = kern_pgdir s \<and> cr3 t = cr3 s \<and>
     envs t = envs s \<and> env_free_list t = env_free_list s \<and> cpus t = cpus s \<and> this_cpu t = this_cpu s \<and>
     kernel_lock t = kernel_lock s \<and> kmem t (kern_pgdir s) UV = kmem s (kern_pgdir s) UV \<and> (frame0_used s \<longrightarrow> frame0_used t)"

lemma same_vars_trans: "same_vars s t \<Longrightarrow> same_vars t u \<Longrightarrow> same_vars s u"
  by (simp add: same_vars_def)

lemma same_vars_keeps: "dir_ok s xs (kern_pgdir s) \<Longrightarrow> keeps (set xs) s t \<Longrightarrow> same_vars s t"
  using frame0_keeps [of s xs t] dir_okD(3) [of s xs "kern_pgdir s"] by (simp add: same_vars_def) (simp add: keeps_def)

lemma same_vars_grows: "dir_ok s xs (kern_pgdir s) \<Longrightarrow> grows (kern_pgdir s) s xs t ys \<Longrightarrow> same_vars s t"
  using frame0_grows [of s xs t ys] by (simp add: same_vars_def) (simp add: grows_def same_but_map_def)

lemma frame0_cong: "kmem t = kmem s \<Longrightarrow> pages t = pages s \<Longrightarrow> kern_pgdir t = kern_pgdir s \<Longrightarrow> frame0_used t = frame0_used s"
  by (simp add: frame0_used_def table_frames_def tables_def has_tbl_def tbl_def)

text \<open>The test of \<open>mmio_map_region\<close> maps three pages and clears their entries again.\<close>

lemma mmio_map_ok:
  assumes ok: "dir_ok s xs pd" and kp: "kern_pgdir s = pd" and mb: "mmio_base s = page_va n" and pa: "ROUNDDOWN pa PGSIZE = 0" "pa AND 0xfff = 0"
    and sz: "ROUNDUP (pa + sz) PGSIZE = of_nat k * PGSIZE" "0 < k" "k < 1024" and n: "n div 1024 = i" "(n + k - 1) div 1024 = i" "i < 1024" "i \<noteq> UV"
    and x: "i \<in> tables s pd \<or> xs \<noteq> []"
  shows "\<exists>t ys. mmio_map_region pa sz s = Ret (page_va n) t \<and> dir_ok t ys pd \<and> same_vars s t \<and>
    mmio_base t = page_va (n + k) \<and> set ys \<subseteq> set xs \<and> length xs \<le> length ys + card ({i} - tables s pd) \<and> tables t pd = insert i (tables s pd) \<and>
    (\<forall>m. m div 1024 < 1024 \<longrightarrow> m div 1024 \<noteq> UV \<longrightarrow>
      entry t pd m = (if n \<le> m \<and> m < n + k then region_entry 0 ((PTE_PCD OR PTE_PWT) OR PTE_W) (m - n) else entry s pd m))"
proof -
  have "unat (of_nat k * PGSIZE) = k * 4096"
    using sz(3) by (simp add: unat_word_ariths unat_of_nat take_bit_eq_mod PGSIZE_def)
  then have "unat (of_nat k * PGSIZE div PGSIZE) = k" by (simp add: unat_div PGSIZE_def)
  from map_in_slot [OF ok this sz(2) n x refl, of 0 "(PTE_PCD OR PTE_PWT) OR PTE_W"] obtain t ys where
    t: "boot_map_region pd (page_va n) (of_nat k * PGSIZE) 0 ((PTE_PCD OR PTE_PWT) OR PTE_W) s = Ret () t" "dir_ok t ys pd" "grows pd s xs t ys"
      "tables t pd = insert i (tables s pd)" "length xs \<le> length ys + card ({i} - tables s pd)"
      "\<forall>m. m div 1024 < 1024 \<longrightarrow> m div 1024 \<noteq> UV \<longrightarrow>
        entry t pd m = (if n \<le> m \<and> m < n + k then region_entry 0 ((PTE_PCD OR PTE_PWT) OR PTE_W) (m - n) else entry s pd m)"
    by blast
  let ?t = "t\<lparr>mmio_base := page_va (n + k)\<rparr>"
  have va: "page_va n + of_nat k * PGSIZE = page_va (n + k)" by (simp add: page_va_def algebra_simps)
  have kt: "kmem ?t = kmem t" "npages ?t = npages t" by simp_all
  have "dir_ok ?t ys pd" using t(2) by (simp add: dir_ok_def free_pages_ok_def has_tbl_def tbl_def)
  moreover have "tables ?t pd = tables t pd" "entry ?t pd m = entry t pd m" for m
    by (simp_all add: tables_def has_tbl_def entry_def pte_def tbl_def)
  moreover have "mmio_map_region pa sz s = Ret (page_va n) ?t"
    using t(1) by (simp add: mmio_map_region_def mb pa sz(1) kp va)
  moreover have "same_vars s t" using t(3) ok kp by (intro same_vars_grows [of s xs t ys]) simp_all
  then have "same_vars s ?t" using frame0_cong [of ?t t] by (simp add: same_vars_def)
  moreover have "set ys \<subseteq> set xs" using t(3) by (simp add: grows_def)
  ultimately show ?thesis using t(4-6) by auto
qed

lemma walked_page:
  assumes "dir_ok s xs pd" "kern_pgdir s = pd" "n < 2 ^ 20" "n div 1024 \<noteq> UV" "n div 1024 \<in> tables s pd"
  shows "walked (page_va n) s = Ret (tbl s pd (n div 1024), n mod 1024) s"
  using assms dir_walk_hit [OF assms(1), of "page_va n" False] page_va_index [OF assms(3)]
  by (simp add: walked_def tables_def)

lemma check_pte_page:
  assumes "dir_ok s xs pd" "kern_pgdir s = pd" "n < 2 ^ 20" "n div 1024 \<noteq> UV" "n div 1024 \<in> tables s pd" "P (entry s pd n)"
  shows "check_pte (page_va n) P s = Ret () s"
  using assms(5,6) by (simp add: check_pte_def walked_page [OF assms(1-5)] check_def entry_def tables_def pte_def)

lemma clear_pte_page:
  assumes "dir_ok s xs pd" "kern_pgdir s = pd" "n < 2 ^ 20" "n div 1024 \<noteq> UV" "n div 1024 \<in> tables s pd"
  shows "\<exists>t. clear_pte (page_va n) s = Ret () t \<and> dir_ok t xs pd \<and> same_vars s t \<and> mmio_base t = mmio_base s \<and> tables t pd = tables s pd \<and>
    (\<forall>m. m div 1024 < 1024 \<longrightarrow> m div 1024 \<noteq> UV \<longrightarrow> entry t pd m = (if m = n then 0 else entry s pd m))"
proof -
  have h: "n div 1024 < 1024" "has_tbl s pd (n div 1024)" "n mod 1024 < 1024" using assms(3,5) by (auto simp: tables_def)
  note w = dir_write [OF assms(1) h(1) assms(4) h(2,3), where v = 0]
  have "clear_pte (page_va n) s = Ret () (wr_word (tbl s pd (n div 1024)) (n mod 1024) 0 s)"
    by (simp add: clear_pte_def walked_page [OF assms])
  moreover have "same_vars s (wr_word (tbl s pd (n div 1024)) (n mod 1024) 0 s)"
    using w(3) same_vars_grows [of s xs _ xs] assms(1,2) by simp
  moreover have "mmio_base (wr_word x j v s) = mmio_base s" for x j v by (simp add: wr_word_def)
  ultimately show ?thesis using w by simp
qed

lemma check_mmio_ok:
  assumes ok: "dir_ok s xs pd" and kp: "kern_pgdir s = pd" and mb: "mmio_base s = MMIOBASE" and x: "xs \<noteq> []" and z: "entry s pd 0xEF803 = 0"
  shows "\<exists>t ys. check_mmio s = Ret () t \<and> dir_ok t ys pd \<and> same_vars s t \<and> set ys \<subseteq> set xs \<and> length xs \<le> length ys + 1 \<and>
    mmio_base t = MMIOBASE + 3 * PGSIZE \<and> tables t pd = insert 958 (tables s pd) \<and>
    (\<forall>m. m div 1024 < 1024 \<longrightarrow> m div 1024 \<noteq> UV \<longrightarrow> entry t pd m = (if m \<in> {0xEF800, 0xEF801, 0xEF802} then 0 else entry s pd m))"
proof -
  let ?w = "(PTE_PCD OR PTE_PWT) OR PTE_W"
  have va: "MMIOBASE = page_va 0xEF800" "MMIOBASE + PGSIZE = page_va 0xEF801" "MMIOBASE + 2 * PGSIZE = page_va 0xEF802" "MMIOBASE + 3 * PGSIZE = page_va 0xEF803"
    by (simp_all add: page_va_def PGSIZE_def layout_values)
  have sl: "958 < (1024 :: nat)" "958 \<noteq> UV" by (simp_all add: slot_values)
  have r: "ROUNDDOWN 0 PGSIZE = 0" "ROUNDUP (0 + 4097) PGSIZE = of_nat 2 * PGSIZE" "ROUNDUP (0 + 4096) PGSIZE = of_nat 1 * PGSIZE"
    by (simp_all add: ROUNDUP_def ROUNDDOWN_def PGSIZE_def)
  have c: "card ({958} - T) \<le> 1" for T :: "nat set" using card_mono [of "{958}" "{958} - T"] by simp
  from mmio_map_ok [OF ok kp mb [unfolded va(1)] r(1) _ r(2) _ _ _ _ sl] x obtain u ys where
    u: "mmio_map_region 0 4097 s = Ret (page_va 0xEF800) u" "dir_ok u ys pd" "same_vars s u" "mmio_base u = page_va 0xEF802" "set ys \<subseteq> set xs"
      "length xs \<le> length ys + card ({958} - tables s pd)" "tables u pd = insert 958 (tables s pd)"
      "\<forall>m. m div 1024 < 1024 \<longrightarrow> m div 1024 \<noteq> UV \<longrightarrow>
        entry u pd m = (if 0xEF800 \<le> m \<and> m < 0xEF800 + 2 then region_entry 0 ?w (m - 0xEF800) else entry s pd m)"
    by auto
  have ku: "kern_pgdir u = pd" using u(3) kp by (simp add: same_vars_def)
  from mmio_map_ok [OF u(2) ku u(4) r(1) _ r(3) _ _ _ _ sl] u(7) obtain v zs where
    v: "mmio_map_region 0 4096 u = Ret (page_va 0xEF802) v" "dir_ok v zs pd" "same_vars u v" "mmio_base v = page_va 0xEF803" "set zs \<subseteq> set ys"
      "length ys \<le> length zs + card ({958} - tables u pd)" "tables v pd = insert 958 (tables u pd)"
      "\<forall>m. m div 1024 < 1024 \<longrightarrow> m div 1024 \<noteq> UV \<longrightarrow>
        entry v pd m = (if 0xEF802 \<le> m \<and> m < 0xEF802 + 1 then region_entry 0 ?w (m - 0xEF802) else entry u pd m)"
    by auto
  have kv: "kern_pgdir v = pd" using v(3) ku by (simp add: same_vars_def)
  have e: "entry v pd 0xEF800 = region_entry 0 ?w 0" "entry v pd 0xEF801 = region_entry 0 ?w 1" "entry v pd 0xEF802 = region_entry 0 ?w 0" "entry v pd 0xEF803 = 0"
    using u(8) v(8) z by (simp_all add: slot_values)
  have p: "PTE_ADDR ?w = 0" "PGOFF 0 = 0" by (simp_all add: PTE_ADDR_def PTE_PCD_def PTE_PWT_def PTE_W_def PGOFF_def)
  note re = region_entry_parts [OF p(2,1)]
  have t: "958 \<in> tables v pd" using v(7) by simp
  have q: "0xEF800 < (2 ^ 20 :: nat)" "0xEF801 < (2 ^ 20 :: nat)" "0xEF802 < (2 ^ 20 :: nat)" "0xEF803 < (2 ^ 20 :: nat)" by simp_all
  have chk: "check_mapped MMIOBASE 0 v = Ret () v" "check_mapped (MMIOBASE + PGSIZE) PGSIZE v = Ret () v"
    "check_mapped (MMIOBASE + 2 * PGSIZE) 0 v = Ret () v" "check_mapped (MMIOBASE + 3 * PGSIZE) (NOT 0) v = Ret () v"
    unfolding va(2-4) unfolding va(1) using re by (simp_all add: check_mapped_page [OF v(2) kv] e slot_values)
  have bits: "region_entry 0 ?w 0 AND ((PTE_W OR PTE_PWT) OR PTE_PCD) \<noteq> 0" "region_entry 0 ?w 0 AND PTE_U = 0"
    by (simp_all add: region_entry_def PTE_W_def PTE_PWT_def PTE_PCD_def PTE_U_def PTE_P_def)
  have perm: "check_pte MMIOBASE (\<lambda>e. e AND ((PTE_W OR PTE_PWT) OR PTE_PCD) \<noteq> 0) v = Ret () v" "check_pte MMIOBASE (\<lambda>e. e AND PTE_U = 0) v = Ret () v"
    unfolding va using bits t by (simp_all add: check_pte_page [OF v(2) kv] e slot_values)
  from clear_pte_page [OF v(2) kv q(1)] t obtain v1 where v1: "clear_pte MMIOBASE v = Ret () v1" "dir_ok v1 zs pd" "same_vars v v1"
    "mmio_base v1 = mmio_base v" "tables v1 pd = tables v pd"
    "\<forall>m. m div 1024 < 1024 \<longrightarrow> m div 1024 \<noteq> UV \<longrightarrow> entry v1 pd m = (if m = 0xEF800 then 0 else entry v pd m)"
    by (auto simp: slot_values simp flip: va)
  have k1: "kern_pgdir v1 = pd" using v1(3) kv by (simp add: same_vars_def)
  from clear_pte_page [OF v1(2) k1 q(2)] t v1(5) obtain v2 where v2: "clear_pte (MMIOBASE + PGSIZE) v1 = Ret () v2" "dir_ok v2 zs pd" "same_vars v1 v2"
    "mmio_base v2 = mmio_base v1" "tables v2 pd = tables v1 pd"
    "\<forall>m. m div 1024 < 1024 \<longrightarrow> m div 1024 \<noteq> UV \<longrightarrow> entry v2 pd m = (if m = 0xEF801 then 0 else entry v1 pd m)"
    by (auto simp: slot_values simp flip: va)
  have k2: "kern_pgdir v2 = pd" using v2(3) k1 by (simp add: same_vars_def)
  from clear_pte_page [OF v2(2) k2 q(3)] t v1(5) v2(5) obtain v3 where v3: "clear_pte (MMIOBASE + 2 * PGSIZE) v2 = Ret () v3" "dir_ok v3 zs pd" "same_vars v2 v3"
    "mmio_base v3 = mmio_base v2" "tables v3 pd = tables v2 pd"
    "\<forall>m. m div 1024 < 1024 \<longrightarrow> m div 1024 \<noteq> UV \<longrightarrow> entry v3 pd m = (if m = 0xEF802 then 0 else entry v2 pd m)"
    by (auto simp: slot_values simp flip: va)
  have mm: "page_va 0xEF800 = MMIOBASE" "page_va 0xEF802 = MMIOBASE + 2 * PGSIZE" "(MMIOBASE + 2 * PGSIZE) + PGSIZE = MMIOBASE + 3 * PGSIZE"
    by (simp_all add: algebra_simps flip: va)
  have ranges: "MMIOBASE + 8192 < MMIOLIM" "MMIOBASE \<le> MMIOBASE + 2 * PGSIZE" "(MMIOBASE + 2 * PGSIZE) + 8192 < MMIOLIM" "MMIOBASE mod PGSIZE = 0"
    "(MMIOBASE + 2 * PGSIZE) mod PGSIZE = 0" "MMIOBASE + 8192 \<le> MMIOBASE + 2 * PGSIZE"
    by (simp_all add: layout_values PGSIZE_def)
  have "check_mmio s = Ret () v3"
    unfolding check_mmio_def u(1) v(1) bindO.simps mm
    by (simp only: check_def ranges chk perm v1(1) v2(1) v3(1) mm bindO.simps if_True simp_thms order_refl)
  moreover have "same_vars s v3" using u(3) v(3) v1(3) v2(3) v3(3) by (blast intro: same_vars_trans)
  moreover have "length xs \<le> length zs + 1" using u(6,7) v(6) c [of "tables s pd"] by simp
  moreover have "entry v3 pd m = (if m \<in> {0xEF800, 0xEF801, 0xEF802} then 0 else entry s pd m)" if "m div 1024 < 1024" "m div 1024 \<noteq> UV" for m
  proof (cases "m \<in> {0xEF800, 0xEF801, 0xEF802}")
    case True
    with that v1(6) v2(6) v3(6) show ?thesis by (elim insertE) simp_all
  next
    case False
    then have c: "(0xEF800 \<le> m \<and> m < 0xEF800 + 2) = False" "(0xEF802 \<le> m \<and> m < 0xEF802 + 1) = False" by auto
    from False have n: "(m = 0xEF800) = False" "(m = 0xEF801) = False" "(m = 0xEF802) = False" by auto
    have "entry v3 pd m = entry v pd m"
      using v1(6) [rule_format, OF that] v2(6) [rule_format, OF that] v3(6) [rule_format, OF that] by (simp only: n if_False)
    also have "entry v pd m = entry s pd m"
      using u(8) [rule_format, OF that] v(8) [rule_format, OF that] by (simp only: c if_False)
    finally show ?thesis using False by simp
  qed
  moreover have "tables v3 pd = insert 958 (tables s pd)" "mmio_base v3 = MMIOBASE + 3 * PGSIZE" "set zs \<subseteq> set xs"
    using u(5,7) v(4,5,7) v1(4,5) v2(4,5) v3(4,5) by (auto simp flip: va)
  ultimately show ?thesis using v3(2) by blast
qed

text \<open>The directory when it is tested: the tables of the first two slots and of the devices are still missing.\<close>

lemma check_page_ok:
  assumes d: "dir_ok s (a # b # c # fl) pd" and kp: "kern_pgdir s = pd" and z: "0 \<notin> set (a # b # c # fl)"
    and mb: "mmio_base s = MMIOBASE" and T: "0 \<notin> tables s pd" "1 \<notin> tables s pd"
    and e: "\<And>m. m \<in> {0xEF800, 0xEF801, 0xEF802, 0xEF803} \<Longrightarrow> entry s pd m = 0"
  shows "\<exists>t ys. check_page s = Ret () t \<and> dir_ok t ys pd \<and> same_vars s t \<and> set ys \<subseteq> set (a # b # c # fl) \<and>
    length (a # b # c # fl) \<le> length ys + 1 \<and> mmio_base t = MMIOBASE + 3 * PGSIZE \<and> tables t pd = insert 958 (tables s pd) \<and>
    (\<forall>m. m div 1024 < 1024 \<longrightarrow> m div 1024 \<noteq> UV \<longrightarrow> entry t pd m = entry s pd m)"
proof -
  note f = dir_okD(1) [OF d] and pd = dir_okD(3) [OF d]
  have ok: "lab_ok s pd a b c" by (rule lab_okI [OF f refl kp pd z])
  have fb: "free_pages_ok (popped 0 a s) (b # c # fl)" by (rule free_pages_ok_popped [OF f])
  have fc: "free_pages_ok (popped 0 b (popped 0 a s)) (c # fl)" by (rule free_pages_ok_popped [OF fb])
  have di: "a \<noteq> b" "a \<noteq> c" "b \<noteq> c" using lab_bounds [OF ok] by auto
  have pg: "pages s a = PI (Some b) 0" "pages s b = PI (Some c) 0" "pages s c = PI (first fl) 0" "page_free_list s = Some a"
    using free_pages_ok_Cons [OF f] free_pages_ok_Cons [OF fb] free_pages_ok_Cons [OF fc] f di by (simp_all add: free_pages_ok_def)
  have d01: "kmem s pd 0 = 0" "kmem s pd (Suc 0) = 0"
    using T dir_okD(4) [OF d, of 0] dir_okD(4) [OF d, of 1] by (auto simp: tables_def slot_values)
  define L where "L = (\<lambda>F A B C k fs. lab s pd a b c F A B C 0 0 k (kmem s b) (kmem s c) fs)"
  let ?s = "L (Some a) (PI (Some b) 0) (PI (Some c) 0) (PI (first fl) 0) (kmem s a) (tlb_flushes s)"
  have s: "s = ?s" using lab_initial [of a b c pd s] ok by (simp add: L_def pg lab_ok_def d01)
  define fs where "fs = flushed s pd PGSIZE (flushed s pd 0 (flushed s pd PGSIZE (tlb_flushes s)))"
  obtain k where k: "check_page_tables a (L None (PI None 0) (PI None 0) (PI None 0) (\<lambda>_. 0) fs) =
      Ret () (L None (PI None 0) (PI None 0) (PI None 0) k fs)"
    unfolding L_def using check_page_tables_ok [OF ok] by blast
  let ?t = "L (Some c) (PI (first fl) 0) (PI (Some a) 0) (PI (Some b) 0) k fs"
  have free: "page_free a (L (first fl) (PI None 0) (PI None 0) (PI None 0) k fs) = Ret () (L (Some a) (PI (first fl) 0) (PI None 0) (PI None 0) k fs)"
    "page_free b (L (Some a) (PI (first fl) 0) (PI None 0) (PI None 0) k fs) = Ret () (L (Some b) (PI (first fl) 0) (PI (Some a) 0) (PI None 0) k fs)"
    "page_free c (L (Some b) (PI (first fl) 0) (PI (Some a) 0) (PI None 0) k fs) = Ret () ?t"
    by (simp_all add: L_def lab_free [OF ok])
  have "free_pages_ok (L (first fl) (PI None 0) (PI None 0) (PI None 0) k fs) fl" unfolding L_def by (rule lab_free_ok(1) [OF ok f refl])
  from free_pages_ok_freed [OF free_pages_ok_freed [OF free_pages_ok_freed [OF this free(1)] free(2)] free(3)]
  have ft: "free_pages_ok ?t (c # b # a # fl)" using lab_bounds [OF ok] lab_free_ok(2-4) [OF ok f refl] di by (simp add: L_def)
  have kt: "keeps (set (a # b # c # fl)) s ?t" using keeps_lab [OF ok _ pd] by (simp add: L_def d01)
  have st: "set (c # b # a # fl) = set (a # b # c # fl)" by auto
  note D = dir_ok_keeps [OF d kt ft st]
  have "entry ?t pd 0xEF803 = 0" using D(3) [of "0xEF803"] e by (simp add: slot_values)
  moreover have "kern_pgdir ?t = pd" "mmio_base ?t = MMIOBASE" using kp mb by (simp_all add: L_def)
  ultimately obtain t ys where t: "check_mmio ?t = Ret () t" "dir_ok t ys pd" "same_vars ?t t" "set ys \<subseteq> set (c # b # a # fl)"
      "length (c # b # a # fl) \<le> length ys + 1" "mmio_base t = MMIOBASE + 3 * PGSIZE" "tables t pd = insert 958 (tables ?t pd)"
      "\<forall>m. m div 1024 < 1024 \<longrightarrow> m div 1024 \<noteq> UV \<longrightarrow> entry t pd m = (if m \<in> {0xEF800, 0xEF801, 0xEF802} then 0 else entry ?t pd m)"
    using check_mmio_ok [OF D(1)] by blast
  have "check_page ?s = Ret () (kputs (nl (chars ''check_page() succeeded!'')) t)"
    using free k t(1) unfolding check_page_def
    by (simp add: L_def fs_def test_defs(1,8) lab_alloc [OF ok] check_page_insert_ok [OF ok] check_page_unmap_ok [OF ok] Let_def di di [symmetric])
  then have "check_page s = Ret () (kputs (nl (chars ''check_page() succeeded!'')) t)" unfolding s [symmetric] .
  moreover have "entry t pd m = entry s pd m" if "m div 1024 < 1024" "m div 1024 \<noteq> UV" for m
    using that t(8) D(3) [OF that] e [of m] by auto
  moreover have "same_vars s t" using same_vars_keeps [of s "a # b # c # fl", OF _ kt] d kp t(3) by (auto intro: same_vars_trans)
  moreover have "same_vars s t \<Longrightarrow> same_vars s (kputs x t)" for x using frame0_cong [of "kputs x t" t] by (simp add: same_vars_def)
  moreover have "dir_ok (kputs x t) ys pd = dir_ok t ys pd"
    "tables (kputs x t) pd = tables t pd" "entry (kputs x t) pd m = entry t pd m" for x m
    by (simp_all add: dir_ok_def tables_def has_tbl_def tbl_def entry_def pte_def)
  ultimately show ?thesis using t(2,4-7) D(2) st by auto
qed

lemma lab_mmu:
  assumes ok: "lab_ok s pd a b c" and ka: "ka (Suc 0) = pte_for p PTE_W" and p: "p < 2 ^ 20"
  shows "mmu (lab s pd a b c F A B C (pde_for a) d1 ka kb kc fs) pd PGSIZE = Some (p, pde_for a AND pte_for p PTE_W)"
    "(pde_for a AND pte_for p PTE_W) AND PTE_W \<noteq> 0"
proof -
  show "mmu (lab s pd a b c F A B C (pde_for a) d1 ka kb kc fs) pd PGSIZE = Some (p, pde_for a AND pte_for p PTE_W)"
    using lab_bounds(11) [OF ok] p
    by (simp add: mmu_def va_index lab_read [OF ok] pde_for_simps ka pte_for_simps)
  show "(pde_for a AND pte_for p PTE_W) AND PTE_W \<noteq> 0"
    using pte_for_rights(1) [of p] pde_for_low_bits [of 1 a] unfolding right_bits by (simp add: bit_simps)
qed

lemma check_page_installed_ok:
  assumes d: "dir_ok s (a # b # c # fl) pd" and kp: "kern_pgdir s = pd" and cr: "cr3 s = pd" and z: "0 \<notin> set (a # b # c # fl)"
    and T: "0 \<notin> tables s pd"
  shows "\<exists>t. check_page_installed_pgdir s = Ret () t \<and> free_pages_ok t (a # c # b # fl) \<and> keeps (set (a # b # c # fl)) s t"
proof -
  note f = dir_okD(1) [OF d] and pd = dir_okD(3) [OF d]
  have ok: "lab_ok s pd a b c" by (rule lab_okI [OF f refl kp pd z])
  have fb: "free_pages_ok (popped 0 a s) (b # c # fl)" by (rule free_pages_ok_popped [OF f])
  have fc: "free_pages_ok (popped 0 b (popped 0 a s)) (c # fl)" by (rule free_pages_ok_popped [OF fb])
  have di: "a \<noteq> b" "a \<noteq> c" "b \<noteq> c" using lab_bounds [OF ok] by auto
  have pg: "pages s a = PI (Some b) 0" "pages s b = PI (Some c) 0" "pages s c = PI (first fl) 0" "page_free_list s = Some a"
    using free_pages_ok_Cons [OF f] free_pages_ok_Cons [OF fb] free_pages_ok_Cons [OF fc] f di by (simp_all add: free_pages_ok_def)
  have d0: "kmem s pd 0 = 0" using T dir_okD(4) [OF d, of 0] by (auto simp: tables_def slot_values)
  define L where "L = (\<lambda>F A B C ka kb kc fs. lab s pd a b c F A B C 0 (kmem s pd (Suc 0)) ka kb kc fs)"
  let ?s = "L (Some a) (PI (Some b) 0) (PI (Some c) 0) (PI (first fl) 0) (kmem s a) (kmem s b) (kmem s c) (tlb_flushes s)"
  have s: "s = ?s" using lab_initial [of a b c pd s] ok by (simp add: L_def pg lab_ok_def d0)
  define fs where "fs = flushed s pd PGSIZE (flushed s pd PGSIZE (tlb_flushes s))"
  define kb :: "nat \<Rightarrow> u32" where "kb = (\<lambda>i. if i < 1024 then 0x01010101 else kmem s b i)"
  define kc :: "nat \<Rightarrow> u32" where "kc = (\<lambda>i. if i < 1024 then 0x02020202 else kmem s c i)(0 := 0x03030303)"
  define ka :: "nat \<Rightarrow> u32" where "ka = (\<lambda>_. 0)(Suc 0 := 0)"
  let ?t = "L (Some a) (PI (Some c) 0) (PI (first fl) 0) (PI (Some b) 0) ka kb kc fs"
  have free: "page_free b (L (first fl) (PI None 0) (PI None 0) (PI None 0) ka kb kc fs) = Ret () (L (Some b) (PI None 0) (PI (first fl) 0) (PI None 0) ka kb kc fs)"
    "page_free c (L (Some b) (PI None 0) (PI (first fl) 0) (PI None 0) ka kb kc fs) = Ret () (L (Some c) (PI None 0) (PI (first fl) 0) (PI (Some b) 0) ka kb kc fs)"
    "page_free a (L (Some c) (PI None 0) (PI (first fl) 0) (PI (Some b) 0) ka kb kc fs) = Ret () ?t"
    by (simp_all add: L_def lab_free [OF ok])
  have "free_pages_ok (L (first fl) (PI None 0) (PI None 0) (PI None 0) ka kb kc fs) fl" unfolding L_def by (rule lab_free_ok(1) [OF ok f refl])
  from free_pages_ok_freed [OF free_pages_ok_freed [OF free_pages_ok_freed [OF this free(1)] free(2)] free(3)]
  have ft: "free_pages_ok ?t (a # c # b # fl)" using lab_bounds [OF ok] lab_free_ok(2-4) [OF ok f refl] di by (simp add: L_def)
  have kt: "keeps (set (a # b # c # fl)) s ?t" using keeps_lab [OF ok _ pd] by (simp add: L_def d0)
  note b = lab_bounds [OF ok]
  have words: "unat (PGOFF PGSIZE) div 4 = 0" by (simp add: PGOFF_def PGSIZE_def)
  have "check_page_installed_pgdir ?s = Ret () (kputs (nl (chars ''check_page_installed_pgdir() succeeded!'')) ?t)"
    unfolding check_page_installed_pgdir_def
    by (simp add: L_def fs_def ka_def kb_def kc_def test_defs lab_run [OF ok] lab_page2kva [OF ok] memset_page_def lab_fill [OF ok]
        check_word_def load_word_def store_word_def lab_mmu [OF ok _ b(12)] lab_mmu [OF ok _ b(13)] cr words pde_for_simps [OF b(11)] set_ref_def
        lab_words [OF ok] lab_pages [OF ok] Let_def)
  then have "check_page_installed_pgdir s = Ret () (kputs (nl (chars ''check_page_installed_pgdir() succeeded!'')) ?t)" unfolding s [symmetric] .
  with ft kt show ?thesis by simp
qed

section \<open>Witnesses\<close>

text \<open>A machine with 2000 frames, of which 1500, 300 and 2 are free, in this order.\<close>

definition list_demo :: kstate where
  "list_demo = bss_state\<lparr>npages := 2000, nextfree := 0xF0120000, page_free_list := Some 1500,
     pages := (\<lambda>i. PI (if i = 1500 then Some 300 else if i = 300 then Some 2 else None) (if i \<in> {2, 300, 1500} then 0 else 1))\<rparr>"

theorem check_page_free_list_decides_witness:
  "\<exists>t. check_page_free_list demo_syms (\<lambda>_. 0) True list_demo = Ret () t \<and> free_pages_ok t [300, 2, 1500]"
proof -
  have ok: "free_pages_ok list_demo [1500, 300, 2]"
    by (auto simp: free_pages_ok_def list_demo_def)
  have nf: "nextfree list_demo \<noteq> 0" "nextfree list_demo = 0xF0120000" by (simp_all add: list_demo_def)
  have "good_free_page 0xF0120000 p" if "p \<in> {1500, 300, 2}" for p
    using that by (auto simp: good_free_page_def KERNBASE_def page2pa_def push_bit_eq_mult)
  with check_page_free_list_decides [OF ok nf(1), of demo_syms "\<lambda>_. 0" True] nf(2) show ?thesis by auto
qed
end
