(* ===== verification/Jos_MemInit.thy ===== *)
theory Jos_MemInit
  imports Jos_Selftest
begin

text \<open>
  \<open>mem_init\<close> (kern/pmap.c) as a whole: the memory of the machine is detected, the first data structures are
  placed behind the kernel, the free list is built, and the address space of the kernel is set up, with the
  self-tests in between. The arrays \<open>pages\<close> and \<open>envs\<close> are variables of the model; only their addresses
  depend on \<open>boot_alloc\<close>.
\<close>

section \<open>The function\<close>

text \<open>The bits that \<open>mem_init\<close> sets in the control register \<open>CR0\<close> are not part of the state.\<close>

definition mem_init :: "bootsyms \<Rightarrow> (nat \<Rightarrow> u32) \<Rightarrow> kstate \<Rightarrow> unit kres" where
  "mem_init b cmos s =
     (let s = i386_detect_memory cmos s in
      bindO (boot_alloc (sym_kend b) cmos PGSIZE s) (\<lambda>pgdir s.
      let s = zero_page (kva_frame pgdir) (s\<lparr>kern_pgdir := kva_frame pgdir\<rparr>) in
      bindO (paddr pgdir s) (\<lambda>pa s.
      let s = wr_word (kern_pgdir s) (unat (PDX UVPT)) ((pa OR PTE_U) OR PTE_P) s in
      bindO (boot_alloc (sym_kend b) cmos (of_nat NENV * Env_size) s) (\<lambda>envs_va s.
      let s = s\<lparr>envs := (\<lambda>_. zero_Env)\<rparr> in
      bindO (boot_alloc (sym_kend b) cmos (of_nat (npages s) * PageInfo_size) s) (\<lambda>pages_va s.
      let s = page_init (sym_pages b) (s\<lparr>pages := (\<lambda>_. \<lparr>pp_link = None, pp_ref = 0\<rparr>)\<rparr>) in
      bindO (check_page_free_list b cmos True s) (\<lambda>_ s.
      bindO (check_page_alloc s) (\<lambda>_ s.
      bindO (check_page s) (\<lambda>_ s.
      bindO (mem_init_map b pages_va envs_va s) (\<lambda>_ s.
      bindO (check_kern_pgdir b pages_va envs_va s) (\<lambda>_ s.
      bindO (paddr pgdir s) (\<lambda>pa s.
      let s = lcr3 (unat (PGNUM pa)) s in
      bindO (check_page_free_list b cmos False s) (\<lambda>_ s.
        check_page_installed_pgdir s))))))))))))"

section \<open>The memory behind the kernel\<close>

text \<open>
  \<open>N\<close> frames, \<open>K\<close> pages from \<open>KERNBASE\<close> to the variable \<open>pages\<close>, \<open>e\<close> the first frame behind the kernel: the page
  directory, the environments (31 pages) and the page descriptors follow.
\<close>

definition boot_ready :: "bootsyms \<Rightarrow> (nat \<Rightarrow> u32) \<Rightarrow> nat \<Rightarrow> nat \<Rightarrow> nat \<Rightarrow> bool" where
  "boot_ready b cmos N K e \<longleftrightarrow>
     npages (i386_detect_memory cmos bss_state) = N \<and> npages_basemem (i386_detect_memory cmos bss_state) = 160 \<and>
     253 + K + 69 \<le> N \<and> N < 2 ^ 16 \<and>
     KERNBASE \<le> sym_pages b \<and> 256 \<le> K \<and> K = unat ((sym_pages b - KERNBASE) div PGSIZE) \<and>
     sym_kend b < 0xFFFFF000 \<and> ROUNDUP (sym_kend b + 1) PGSIZE = KERNBASE + of_nat e * PGSIZE \<and> 256 \<le> e \<and> e < 2 ^ 16 \<and>
     e + 32 + pages_count N \<le> 253 + K \<and>
     KERNBASE \<le> sym_bootstack b \<and> (\<forall>i<NCPU. KERNBASE \<le> percpu_kstack b i \<and> PGOFF (percpu_kstack b i) = 0)"

text \<open>Blocks of \<open>boot_alloc\<close> are counted in pages.\<close>

definition kpage :: "nat \<Rightarrow> u32" where "kpage n = KERNBASE + of_nat n * PGSIZE"

lemma kpage_add: "kpage n + of_nat k * PGSIZE = kpage (n + k)"
  by (simp add: kpage_def algebra_simps)

lemma unat_kpage: "n < 2 ^ 16 \<Longrightarrow> unat (kpage n) = 0xF0000000 + n * 4096"
  by (simp add: kpage_def KERNBASE_def PGSIZE_def unat_word_ariths unat_of_nat take_bit_eq_mod)

lemma kpage_facts:
  assumes "n < 2 ^ 16"
  shows "KERNBASE \<le> kpage n" "kpage n \<noteq> 0" "PGOFF (kpage n) = 0" "kva_frame (kpage n) = n" "kpage n - KERNBASE = page2pa n"
    "paddr (kpage n) s = Ret (page2pa n) s" "unat (PGNUM (kpage n - KERNBASE)) = n"
proof -
  note u = unat_kpage [OF assms]
  show le: "KERNBASE \<le> kpage n" by (simp add: word_le_nat_alt u KERNBASE_def)
  show "kpage n \<noteq> 0" using u by auto
  show "PGOFF (kpage n) = 0" using u by (simp add: PGOFF_dvd)
  show p: "kpage n - KERNBASE = page2pa n" by (simp add: kpage_def page2pa_def PGSIZE_def push_bit_eq_mult)
  have "n < 2 ^ 20" using assms by simp
  then show "unat (PGNUM (kpage n - KERNBASE)) = n" unfolding p by (rule PGNUM_page2pa)
  then show "kva_frame (kpage n) = n" by (simp add: kva_frame_def)
  show "paddr (kpage n) s = Ret (page2pa n) s" using paddr_ok [OF le] by (simp add: p)
qed

lemma ROUNDUP_kpage:
  assumes "n + k < 2 ^ 16" "unat x \<le> k * 4096" "k * 4096 < unat x + 4096"
  shows "ROUNDUP (kpage n + x) PGSIZE = kpage (n + k)"
proof -
  have n: "n < 2 ^ 16" using assms(1) by simp
  have x: "unat (kpage n + x) = 0xF0000000 + n * 4096 + unat x"
    using unat_kpage [OF n] assms by (simp add: unat_word_ariths)
  have "unat (ROUNDUP (kpage n + x) PGSIZE) = (unat (kpage n + x) + 4096 - 1) div 4096 * 4096"
    by (subst unat_ROUNDUP) (use x assms in \<open>simp_all add: PGSIZE_def\<close>)
  also have "(unat (kpage n + x) + 4096 - 1) div 4096 = 0xF0000 + n + k"
    unfolding x by (rule div_nat_eqI) (use assms in auto)
  also have "(0xF0000 + n + k) * 4096 = unat (kpage (n + k))" using unat_kpage [OF assms(1)] by simp
  finally show ?thesis by (simp add: word_unat_eq_iff)
qed

lemma boot_alloc_pages:
  assumes "npages (i386_detect_memory cmos s) = N" "0 < N" "N < 2 ^ 16" "n + k < 2 ^ 16" "nextfree s = kpage n"
    "unat x \<le> k * 4096" "k * 4096 < unat x + 4096" "unat x \<le> N * 4096" "0 < x"
  shows "boot_alloc kend cmos x s = Ret (kpage n) ((i386_detect_memory cmos s)\<lparr>nextfree := kpage (n + k)\<rparr>)"
proof -
  have "unat (of_nat N * 4096 :: u32) = N * 4096" using assms(3) by (simp add: unat_word_ariths unat_of_nat take_bit_eq_mod)
  with assms(8) have "x \<le> of_nat N * 4096" by (simp add: word_le_nat_alt)
  moreover have "nextfree s \<noteq> 0" using kpage_facts(2) [of n] assms(4,5) by simp
  moreover have "x \<noteq> 0" using assms(9) by auto
  ultimately show ?thesis
    using assms(1,2,5) ROUNDUP_kpage [OF assms(4,6,7)] by (simp add: boot_alloc_Ret)
qed

text \<open>Some page is left of a large enough group.\<close>

lemma some_left:
  assumes "distinct xs" "distinct ys" "set ys \<subseteq> set xs" "length xs \<le> length ys + k" "finite P" "P \<subseteq> set xs" "k < card P"
  shows "\<exists>p \<in> set ys. p \<in> P"
proof (rule ccontr)
  assume "\<not> ?thesis"
  then have "set ys \<subseteq> set xs - P" using assms(3) by auto
  then have "card (set ys) \<le> card (set xs) - card P" using card_mono [of "set xs - P" "set ys"] assms(5,6) by (simp add: card_Diff_subset)
  with assms card_mono [of "set xs" P] show False by (simp add: distinct_card)
qed

lemma detect_memory_same: "i386_detect_memory cmos s = s\<lparr>npages := npages (i386_detect_memory cmos bss_state),
    npages_basemem := npages_basemem (i386_detect_memory cmos bss_state)\<rparr>"
  by (simp add: i386_detect_memory_def Let_def)

text \<open>The state in front of the first test, and its free list.\<close>

definition boot_free :: "bootsyms \<Rightarrow> nat \<Rightarrow> nat list" where "boot_free b N = page_init_free (sym_pages b) 160 N"

lemma boot_free_set:
  assumes "boot_ready b cmos N K e"
  shows "set (boot_free b N) = {i. i < N \<and> i \<noteq> 0 \<and> i \<noteq> 7 \<and> (i < 160 \<or> 253 + K \<le> i)}" "distinct (boot_free b N)"
proof -
  have *: "N < 2 ^ 16" "K = unat ((sym_pages b - KERNBASE) div PGSIZE)" using assms by (simp_all add: boot_ready_def)
  show "set (boot_free b N) = {i. i < N \<and> i \<noteq> 0 \<and> i \<noteq> 7 \<and> (i < 160 \<or> 253 + K \<le> i)}"
    using *(1) page_init_ref_free [OF _ *(2), where m = 160] by (auto simp: boot_free_def set_page_init_free)
  show "distinct (boot_free b N)" by (simp add: boot_free_def page_init_free_def)
qed

lemma boot_free_low:
  assumes "boot_ready b cmos N K e"
  shows "158 \<le> card {p \<in> set (boot_free b N). p < 256}" "N - (253 + K) \<le> card {p \<in> set (boot_free b N). 256 \<le> p}"
proof -
  have *: "253 + K + 69 \<le> N" "256 \<le> K" using assms by (simp_all add: boot_ready_def)
  have "{1..<160} - {7} \<subseteq> {p \<in> set (boot_free b N). p < 256}" using * by (auto simp: boot_free_set [OF assms])
  from card_mono [OF _ this] show "158 \<le> card {p \<in> set (boot_free b N). p < 256}" by simp
  have "{253 + K..<N} \<subseteq> {p \<in> set (boot_free b N). 256 \<le> p}" using * by (auto simp: boot_free_set [OF assms])
  from card_mono [OF _ this] show "N - (253 + K) \<le> card {p \<in> set (boot_free b N). 256 \<le> p}" by simp
qed

lemma boot_free_good:
  assumes "boot_ready b cmos N K e" "p \<in> set (boot_free b N)"
  shows "good_free_page (kpage (e + 32 + pages_count N)) p"
proof -
  have *: "N < 2 ^ 16" "256 \<le> K" "e + 32 + pages_count N \<le> 253 + K" "253 + K + 69 \<le> N" using assms(1) by (simp_all add: boot_ready_def)
  have p: "p < 2 ^ 16" "p \<noteq> 0" "p \<noteq> 7" "p < 160 \<or> 253 + K \<le> p" using assms(2) *(1) by (auto simp: boot_free_set [OF assms(1)])
  have "kpage (e + 32 + pages_count N) \<le> kpage p" if "256 \<le> p"
    using that p * unat_kpage [OF p(1)] unat_kpage [of "e + 32 + pages_count N"] by (simp add: word_le_nat_alt)
  moreover have "KERNBASE + page2pa p = kpage p" by (simp add: kpage_def page2pa_def PGSIZE_def push_bit_eq_mult)
  ultimately show ?thesis using p * by (auto simp: good_free_page_def)
qed

text \<open>What \<open>page_init\<close> and the first call of \<open>boot_alloc\<close> change.\<close>

lemma fold_keeps: "(\<And>x t. F (f x t) = F t) \<Longrightarrow> F (fold f xs t) = F t"
  by (induction xs arbitrary: t) simp_all

lemma page_init_frame:
  "npages (page_init a s) = npages s" "kmem (page_init a s) = kmem s" "kern_pgdir (page_init a s) = kern_pgdir s"
  "nextfree (page_init a s) = nextfree s" "mmio_base (page_init a s) = mmio_base s"
  "envs (page_init a s) = envs s" "env_free_list (page_init a s) = env_free_list s" "cpus (page_init a s) = cpus s"
  "this_cpu (page_init a s) = this_cpu s" "kernel_lock (page_init a s) = kernel_lock s"
  unfolding page_init_def by (subst fold_keeps, simp add: page_init_step_def Let_def upd_page_def, simp)+

lemma boot_alloc_first:
  assumes "nextfree s = 0" "ROUNDUP (kend + 1) PGSIZE = kpage e" "e < 2 ^ 16"
  shows "boot_alloc kend cmos x s = boot_alloc kend cmos x (s\<lparr>nextfree := kpage e\<rparr>)"
  using assms kpage_facts(2) [OF assms(3)] by (simp add: boot_alloc_def)

lemma pages_count_bounds: "0 < N \<Longrightarrow> N * 8 \<le> pages_count N * 4096 \<and> pages_count N * 4096 < N * 8 + 4096"
  using div_up_mult [of 4096 "N * 8"] by (simp add: pages_count_def add.commute)

text \<open>What else holds during the boot: frame 0 is used, the table of environments is cleared, the CPUs and the lock are left alone.\<close>

definition boot_vars_ok :: "kstate \<Rightarrow> kstate \<Rightarrow> bool" where
  "boot_vars_ok s t \<longleftrightarrow> frame0_used t \<and> envs t = (\<lambda>_. zero_Env) \<and> env_free_list t = env_free_list s \<and> cpus t = cpus s \<and>
     this_cpu t = this_cpu s \<and> kernel_lock t = kernel_lock s"

lemma boot_vars_steps:
  assumes "boot_vars_ok s t"
  shows "keeps (set xs) t u \<Longrightarrow> dir_ok t xs (kern_pgdir t) \<Longrightarrow> boot_vars_ok s u"
    and "same_vars t u \<Longrightarrow> boot_vars_ok s u"
    and "grows (kern_pgdir t) t xs u ys \<Longrightarrow> dir_ok t xs (kern_pgdir t) \<Longrightarrow> boot_vars_ok s u"
    and "boot_vars_ok s (lcr3 e (kputs cs t))"
proof -
  show *: "same_vars t u \<Longrightarrow> boot_vars_ok s u" for u using assms by (simp add: boot_vars_ok_def same_vars_def)
  show "keeps (set xs) t u \<Longrightarrow> dir_ok t xs (kern_pgdir t) \<Longrightarrow> boot_vars_ok s u" by (rule * [OF same_vars_keeps])
  show "grows (kern_pgdir t) t xs u ys \<Longrightarrow> dir_ok t xs (kern_pgdir t) \<Longrightarrow> boot_vars_ok s u" by (rule * [OF same_vars_grows])
  show "boot_vars_ok s (lcr3 e (kputs cs t))"
    using assms frame0_cong [of "lcr3 e (kputs cs t)" t] by (simp add: boot_vars_ok_def lcr3_def)
qed

text \<open>The state in front of the first test.\<close>

lemma mem_init_starts:
  assumes r: "boot_ready b cmos N K e" and s: "nextfree s = 0" "mmio_base s = MMIOBASE"
  obtains u where "mem_init b cmos s =
      bindO (check_page_free_list b cmos True u) (\<lambda>_ s.
      bindO (check_page_alloc s) (\<lambda>_ s.
      bindO (check_page s) (\<lambda>_ s.
      bindO (mem_init_map b (kpage (e + 32)) (kpage (e + 1)) s) (\<lambda>_ s.
      bindO (check_kern_pgdir b (kpage (e + 32)) (kpage (e + 1)) s) (\<lambda>_ s.
      let s = lcr3 e s in
      bindO (check_page_free_list b cmos False s) (\<lambda>_ s. check_page_installed_pgdir s))))))"
    "dir_ok u (boot_free b N) e" "kern_pgdir u = e" "npages u = N" "nextfree u = kpage (e + 32 + pages_count N)" "mmio_base u = MMIOBASE"
    "tables u e = {}" "kmem u e UV = (page2pa e OR PTE_U) OR PTE_P" "boot_vars_ok s u"
proof -
  have *: "N < 2 ^ 16" "256 \<le> K" "e + 32 + pages_count N \<le> 253 + K" "253 + K + 69 \<le> N" "256 \<le> e" "e < 2 ^ 16"
    "ROUNDUP (sym_kend b + 1) PGSIZE = kpage e" "K = unat ((sym_pages b - KERNBASE) div PGSIZE)"
    using r by (simp_all add: boot_ready_def kpage_def)
  have N: "npages (i386_detect_memory cmos t) = N" "npages_basemem (i386_detect_memory cmos t) = 160" for t
    using r by (subst detect_memory_same, simp add: boot_ready_def)+
  note d = detect_memory_same [of cmos, unfolded N]
  define s1 where "s1 = s\<lparr>npages := N, npages_basemem := 160, nextfree := kpage (Suc e), kern_pgdir := e\<rparr>"
  define s2 where "s2 = wr_word e UV ((page2pa e OR PTE_U) OR PTE_P) (zero_page e s1)"
  define s3 where "s3 = s2\<lparr>nextfree := kpage (e + 32), envs := (\<lambda>_. zero_Env)\<rparr>"
  define s4 where "s4 = s3\<lparr>nextfree := kpage (e + 32 + pages_count N), pages := (\<lambda>_. \<lparr>pp_link = None, pp_ref = 0\<rparr>)\<rparr>"
  let ?u = "page_init (sym_pages b) s4"
  have pc: "N * 8 \<le> pages_count N * 4096" "pages_count N * 4096 < N * 8 + 4096" using pages_count_bounds [of N] * by auto
  have "boot_alloc (sym_kend b) cmos PGSIZE (i386_detect_memory cmos s) =
      Ret (kpage e) (s\<lparr>npages := N, npages_basemem := 160, nextfree := kpage (e + 1)\<rparr>)"
    using boot_alloc_pages [of cmos _ N e 1 PGSIZE "sym_kend b", OF N(1)] * s
    by (subst boot_alloc_first [where e = e]) (simp_all add: d PGSIZE_def)
  moreover have "boot_alloc (sym_kend b) cmos (of_nat NENV * Env_size) s2 = Ret (kpage (e + 1)) (s2\<lparr>nextfree := kpage (e + 32)\<rparr>)"
    using boot_alloc_pages [of cmos s2 N "e + 1" 31 "of_nat NENV * Env_size" "sym_kend b", OF N(1)] *
    by (simp add: d s2_def s1_def wr_word_def zero_page_def NENV_def LOG2NENV_def Env_size_def add.commute [of 32 e])
  moreover have "boot_alloc (sym_kend b) cmos (of_nat (npages s3) * PageInfo_size) s3 = Ret (kpage (e + 32)) (s3\<lparr>nextfree := kpage (e + 32 + pages_count N)\<rparr>)"
  proof -
    have n3: "npages s3 = N" by (simp add: s3_def s2_def s1_def wr_word_def zero_page_def)
    have "unat (of_nat N * PageInfo_size :: u32) = N * 8" using *(1) by (simp add: PageInfo_size_def unat_word_ariths unat_of_nat take_bit_eq_mod)
    moreover from this have "0 < of_nat N * PageInfo_size" using * by (simp add: word_less_nat_alt)
    ultimately show ?thesis
      using boot_alloc_pages [of cmos s3 N "e + 32" "pages_count N" "of_nat N * PageInfo_size" "sym_kend b", OF N(1)] * pc
      by (simp add: n3 d) (simp add: s3_def s2_def s1_def wr_word_def zero_page_def)
  qed
  ultimately have run: "mem_init b cmos s =
      bindO (check_page_free_list b cmos True ?u) (\<lambda>_ s.
      bindO (check_page_alloc s) (\<lambda>_ s.
      bindO (check_page s) (\<lambda>_ s.
      bindO (mem_init_map b (kpage (e + 32)) (kpage (e + 1)) s) (\<lambda>_ s.
      bindO (check_kern_pgdir b (kpage (e + 32)) (kpage (e + 1)) s) (\<lambda>_ s.
      let s = lcr3 e s in
      bindO (check_page_free_list b cmos False s) (\<lambda>_ s. check_page_installed_pgdir s))))))"
    using kpage_facts [OF *(6)]
    by (simp add: mem_init_def Let_def s1_def [symmetric] s2_def s3_def s4_def)
  have u: "npages ?u = N" "kern_pgdir ?u = e" "nextfree ?u = kpage (e + 32 + pages_count N)" "mmio_base ?u = MMIOBASE"
    "kmem ?u e = (\<lambda>_. 0)(UV := (page2pa e OR PTE_U) OR PTE_P)"
    using s(2) by (simp_all add: page_init_frame s4_def s3_def s2_def s1_def wr_word_def zero_page_def)
  have "\<forall>i. pp_link (pages s4 i) = None" "npages s4 = N" "npages_basemem s4 = 160"
    by (simp_all add: s4_def s3_def s2_def s1_def wr_word_def zero_page_def)
  with page_init_ok [of s4 "sym_pages b"] *(1) have f: "free_pages_ok ?u (boot_free b N)" by (simp add: boot_free_def)
  have nt: "\<not> has_tbl ?u e i" if "i \<noteq> UV" for i using that by (simp add: has_tbl_def u(5))
  have "e < N" "e \<notin> set (boot_free b N)" using * by (auto simp: boot_free_set [OF r])
  with f nt have "dir_ok ?u (boot_free b N) e" by (simp add: dir_ok_def u)
  moreover have "tables ?u e = {}" using nt by (auto simp: tables_def)
  moreover have "kmem ?u e UV = (page2pa e OR PTE_U) OR PTE_P" by (simp add: u(5))
  moreover have "boot_vars_ok s ?u"
  proof -
    have "0 \<notin> set (boot_free b N)" by (simp add: boot_free_set [OF r])
    then have "pp_ref (pages ?u 0) \<noteq> 0" using page_init_ref_0 [of s4 "sym_pages b"] \<open>npages s4 = N\<close> * by simp
    then have "frame0_used ?u" using u(2) calculation(2) *(5) by (simp add: frame0_used_def table_frames_def)
    then show ?thesis by (simp add: boot_vars_ok_def page_init_frame s4_def s3_def s2_def s1_def wr_word_def zero_page_def)
  qed
  ultimately show thesis using that run u(1-4) by blast
qed

section \<open>The kernel boots\<close>

text \<open>The first free pages and the frame facts of the list after the reordering.\<close>

lemma dir_ok_lcr3 [simp]:
  "dir_ok (lcr3 e s) xs pd = dir_ok s xs pd" "tables (lcr3 e s) pd = tables s pd" "entry (lcr3 e s) pd m = entry s pd m"
  "free_pages_ok (lcr3 e s) xs = free_pages_ok s xs" "nextfree (lcr3 e s) = nextfree s" "kern_pgdir (lcr3 e s) = kern_pgdir s"
  "cr3 (lcr3 e s) = e" "npages (lcr3 e s) = npages s"
  by (simp_all add: lcr3_def dir_ok_def tables_def has_tbl_def tbl_def entry_def pte_def free_pages_ok_def)

lemma dir_ok_kputs [simp]:
  "dir_ok (kputs cs s) xs pd = dir_ok s xs pd" "tables (kputs cs s) pd = tables s pd" "entry (kputs cs s) pd m = entry s pd m"
  by (simp_all add: dir_ok_def tables_def has_tbl_def tbl_def entry_def pte_def)

text \<open>The free pages that can be left: of those at boot, 69 are not enough to use up either the low or the high ones.\<close>

lemma boot_free_left:
  assumes r: "boot_ready b cmos N K e" and ys: "set ys \<subseteq> set (boot_free b N)" "distinct ys" "length (boot_free b N) \<le> length ys + 68"
  shows "(\<exists>p \<in> set ys. p < 256) \<and> (\<exists>p \<in> set ys. 256 \<le> p)" "\<forall>p \<in> set ys. good_free_page (kpage (e + 32 + pages_count N)) p" "0 \<notin> set ys"
proof -
  let ?X = "boot_free b N"
  have lX: "68 < card {p \<in> set ?X. p < 256}" "68 < card {p \<in> set ?X. 256 \<le> p}"
    using boot_free_low [OF r] r by (auto simp: boot_ready_def)
  have "\<exists>p \<in> set ys. p \<in> {p \<in> set ?X. p < 256}" by (rule some_left [OF boot_free_set(2) [OF r] ys(2,1,3)]) (use lX in auto)
  moreover have "\<exists>p \<in> set ys. p \<in> {p \<in> set ?X. 256 \<le> p}" by (rule some_left [OF boot_free_set(2) [OF r] ys(2,1,3)]) (use lX in auto)
  ultimately show "(\<exists>p \<in> set ys. p < 256) \<and> (\<exists>p \<in> set ys. 256 \<le> p)" by auto
  show "\<forall>p \<in> set ys. good_free_page (kpage (e + 32 + pages_count N)) p" using boot_free_good [OF r] ys(1) by blast
  show "0 \<notin> set ys" using ys(1) by (auto simp: boot_free_set [OF r])
qed

lemma boot_free_length:
  assumes "boot_ready b cmos N K e"
  shows "158 \<le> length (boot_free b N)" "kpage (e + 32 + pages_count N) \<noteq> 0"
proof -
  have "158 \<le> card (set (boot_free b N))"
    using boot_free_low(1) [OF assms] card_mono [of "set (boot_free b N)" "{p \<in> set (boot_free b N). p < 256}"] by simp
  then show "158 \<le> length (boot_free b N)" by (simp add: distinct_card boot_free_set(2) [OF assms])
  have "e + 32 + pages_count N < 2 ^ 16" using assms by (simp add: boot_ready_def)
  then show "kpage (e + 32 + pages_count N) \<noteq> 0" by (rule kpage_facts(2))
qed

lemma three_first: "3 \<le> length xs \<Longrightarrow> \<exists>a b c l. xs = a # b # c # l"
  by (cases xs; cases "tl xs"; cases "tl (tl xs)") auto

text \<open>The tests in front of the mappings succeed.\<close>

lemma mem_init_tested:
  assumes r: "boot_ready b cmos N K e" and s: "nextfree s = 0" "mmio_base s = MMIOBASE"
  obtains u xs where "mem_init b cmos s =
      bindO (mem_init_map b (kpage (e + 32)) (kpage (e + 1)) u) (\<lambda>_ s.
      bindO (check_kern_pgdir b (kpage (e + 32)) (kpage (e + 1)) s) (\<lambda>_ s.
      let s = lcr3 e s in
      bindO (check_page_free_list b cmos False s) (\<lambda>_ s. check_page_installed_pgdir s)))"
    "dir_ok u xs e" "kern_pgdir u = e" "npages u = N" "nextfree u = kpage (e + 32 + pages_count N)" "mmio_base u = MMIOBASE + 3 * PGSIZE"
    "tables u e = {958}" "kmem u e UV = (page2pa e OR PTE_U) OR PTE_P" "set xs \<subseteq> set (boot_free b N)" "length (boot_free b N) \<le> length xs + 1"
    "\<And>m. m div 1024 < 1024 \<Longrightarrow> m div 1024 \<noteq> UV \<Longrightarrow> entry u e m = 0" "boot_vars_ok s u"
proof (rule mem_init_starts [OF r s])
  let ?X = "boot_free b N" and ?nf = "kpage (e + 32 + pages_count N)"
  define X1 where "X1 = filter (\<lambda>p. p < 1024) ?X @ filter (\<lambda>p. \<not> p < 1024) ?X"
  fix u assume u: "mem_init b cmos s =
      bindO (check_page_free_list b cmos True u) (\<lambda>_ s.
      bindO (check_page_alloc s) (\<lambda>_ s.
      bindO (check_page s) (\<lambda>_ s.
      bindO (mem_init_map b (kpage (e + 32)) (kpage (e + 1)) s) (\<lambda>_ s.
      bindO (check_kern_pgdir b (kpage (e + 32)) (kpage (e + 1)) s) (\<lambda>_ s.
      let s = lcr3 e s in
      bindO (check_page_free_list b cmos False s) (\<lambda>_ s. check_page_installed_pgdir s))))))"
    "dir_ok u ?X e" "kern_pgdir u = e" "npages u = N" "nextfree u = ?nf" "mmio_base u = MMIOBASE"
    "tables u e = {}" "kmem u e UV = (page2pa e OR PTE_U) OR PTE_P" "boot_vars_ok s u"
  have X1: "set X1 = set ?X" "length X1 = length ?X" by (auto simp: X1_def sum_length_filter_compl)
  note all = boot_free_left [OF r order_refl boot_free_set(2) [OF r] le_add1]
  from check_page_free_list_run [OF dir_okD(1) [OF u(2)], of b cmos True] all(1,2) boot_free_length(2) [OF r] u(5) obtain u1 where
    u1: "check_page_free_list b cmos True u = Ret () u1" "keeps (set ?X) u u1" "free_pages_ok u1 X1"
    by (auto simp: X1_def)
  note D1 = dir_ok_keeps [OF u(2) u1(2,3) X1(1)]
  have v1: "kern_pgdir u1 = e" "npages u1 = N" "nextfree u1 = ?nf" "mmio_base u1 = MMIOBASE" using u1(2) u(3-6) by (simp_all add: keeps_def)
  have "3 \<le> length X1" using X1(2) boot_free_length(1) [OF r] by simp
  then obtain a1 b1 c1 l1 where X1': "X1 = a1 # b1 # c1 # l1" using three_first by blast
  have z: "e \<notin> set X1" "0 \<notin> set X1" using dir_okD(3) [OF u(2)] all(3) X1(1) by auto
  from check_page_alloc_ok [OF u1(3) [unfolded X1'] v1(1)] z obtain u2 where
    u2: "check_page_alloc u1 = Ret () u2" "free_pages_ok u2 X1" "keeps (set X1) u1 u2"
    unfolding X1' [symmetric] by auto
  note D2 = dir_ok_keeps [OF D1(1) u2(3,2) refl]
  have v2: "kern_pgdir u2 = e" "npages u2 = N" "nextfree u2 = ?nf" "mmio_base u2 = MMIOBASE" using u2(3) v1 by (simp_all add: keeps_def)
  have T2: "tables u2 e = {}" using D2(2) D1(2) u(7) by simp
  then have e0: "entry u2 e m = 0" if "m div 1024 < 1024" "m div 1024 \<noteq> UV" for m
    using that by (auto simp: entry_def tables_def)
  have dev: "entry u2 e m = 0" if "m \<in> {0xEF800, 0xEF801, 0xEF802, 0xEF803}" for m
    using that by (intro e0) (auto simp: slot_values)
  from check_page_ok [OF D2(1) [unfolded X1'] v2(1) _ v2(4) _ _ dev] z T2 obtain u3 X3 where
    u3: "check_page u2 = Ret () u3" "dir_ok u3 X3 e" "same_vars u2 u3" "set X3 \<subseteq> set X1" "length X1 \<le> length X3 + 1"
      "mmio_base u3 = MMIOBASE + 3 * PGSIZE" "tables u3 e = {958}"
      "\<forall>m. m div 1024 < 1024 \<longrightarrow> m div 1024 \<noteq> UV \<longrightarrow> entry u3 e m = entry u2 e m"
    unfolding X1' [symmetric] by auto
  show thesis
  proof (rule that)
    show "mem_init b cmos s = bindO (mem_init_map b (kpage (e + 32)) (kpage (e + 1)) u3) (\<lambda>_ s.
      bindO (check_kern_pgdir b (kpage (e + 32)) (kpage (e + 1)) s) (\<lambda>_ s.
      let s = lcr3 e s in
      bindO (check_page_free_list b cmos False s) (\<lambda>_ s. check_page_installed_pgdir s)))"
      unfolding u(1) u1(1) u2(1) u3(1) bindO.simps ..
    show "dir_ok u3 X3 e" "mmio_base u3 = MMIOBASE + 3 * PGSIZE" "tables u3 e = {958}" by (rule u3)+
    show "kern_pgdir u3 = e" "npages u3 = N" "nextfree u3 = ?nf" using u3(3) v2 by (simp_all add: same_vars_def)
    show "kmem u3 e UV = (page2pa e OR PTE_U) OR PTE_P" using u3(3) v2(1) D2(4) D1(4) u(8) by (simp add: same_vars_def)
    show "set X3 \<subseteq> set ?X" "length ?X \<le> length X3 + 1" using u3(4,5) X1 by auto
    show "entry u3 e m = 0" if "m div 1024 < 1024" "m div 1024 \<noteq> UV" for m using u3(8) e0 that by simp
    have "boot_vars_ok s u1" using boot_vars_steps(1) [OF u(9) u1(2)] u(2,3) by simp
    then have "boot_vars_ok s u2" using boot_vars_steps(1) [OF _ u2(3)] D1(1) v1(1) by simp
    from boot_vars_steps(2) [OF this u3(3)] show "boot_vars_ok s u3" .
  qed
qed

text \<open>The rest of the boot.\<close>

lemma mem_init_ok:
  assumes r: "boot_ready b cmos N K e" and s: "nextfree s = 0" "mmio_base s = MMIOBASE"
  shows "\<exists>t xs. mem_init b cmos s = Ret () t \<and> dir_ok t xs e \<and> kern_pgdir t = e \<and> cr3 t = e \<and> npages t = N \<and>
    set xs \<subseteq> set (boot_free b N) \<and> length (boot_free b N) \<le> length xs + 68 \<and> boot_vars_ok s t \<and>
    mmio_base t = MMIOBASE + 3 * PGSIZE \<and> 958 \<in> tables t e \<and>
    (\<forall>m. m div 1024 < 1024 \<longrightarrow> m div 1024 \<noteq> UV \<longrightarrow>
      entry t e m = (if m < 0xEEC00 then 0 else kernel_entry b (kpage (e + 32)) (kpage (e + 1)) N m))"
proof (rule mem_init_tested [OF r s])
  let ?X = "boot_free b N" and ?nf = "kpage (e + 32 + pages_count N)" and ?p = "kpage (e + 32)" and ?v = "kpage (e + 1)"
  fix u xs assume u: "mem_init b cmos s = bindO (mem_init_map b ?p ?v u) (\<lambda>_ s. bindO (check_kern_pgdir b ?p ?v s) (\<lambda>_ s.
      let s = lcr3 e s in bindO (check_page_free_list b cmos False s) (\<lambda>_ s. check_page_installed_pgdir s)))"
    "dir_ok u xs e" "kern_pgdir u = e" "npages u = N" "nextfree u = ?nf" "mmio_base u = MMIOBASE + 3 * PGSIZE"
    "tables u e = {958}" "kmem u e UV = (page2pa e OR PTE_U) OR PTE_P" "set xs \<subseteq> set ?X" "length ?X \<le> length xs + 1"
    "\<And>m. m div 1024 < 1024 \<Longrightarrow> m div 1024 \<noteq> UV \<Longrightarrow> entry u e m = 0" "boot_vars_ok s u"
  have *: "e + 32 < 2 ^ 16" "e + 1 < 2 ^ 16" using r by (simp_all add: boot_ready_def)
  note kp = kpage_facts [OF *(1)] kpage_facts [OF *(2)]
  have ready: "map_ready b ?p ?v u xs e" and al: "aligned_image b ?p ?v"
    using r u(2,3,10,11) boot_free_length(1) [OF r] kp by (auto simp: map_ready_def aligned_image_def boot_ready_def)
  from mem_init_map_ok [OF ready] obtain v ys where v: "mem_init_map b ?p ?v u = Ret () v" "dir_ok v ys e" "grows e u xs v ys"
    "tables v e = {958} \<union> ({955, 956, 959} \<union> {960..1023})" "length xs \<le> length ys + 67"
    "\<And>m. m div 1024 < 1024 \<Longrightarrow> m div 1024 \<noteq> UV \<Longrightarrow>
      entry v e m = (if m < 0xEEC00 then 0 else kernel_entry b ?p ?v N m)"
    using u(4,7,11) by (simp only:) metis
  have vv: "kern_pgdir v = e" "npages v = N" "nextfree v = ?nf" "kmem v e UV AND PTE_P \<noteq> 0"
    using v(3) u(3-5,8) by (simp_all add: grows_def same_but_map_def)
  have km: "kernel_mapped b ?p ?v v e"
    unfolding kernel_mapped_def using v(2,6) vv al ready by (auto simp: map_ready_def)
  have N: "N \<noteq> 2 ^ 16" using r by (simp add: boot_ready_def)
  let ?w = "lcr3 e (kputs (nl (chars ''check_kern_pgdir() succeeded!'')) v)"
  have ck: "check_kern_pgdir b ?p ?v v = Ret () (kputs (nl (chars ''check_kern_pgdir() succeeded!'')) v)"
    using check_kern_pgdir_run [OF km vv(4) v(4)] N vv(2) by simp
  have ysX: "set ys \<subseteq> set ?X" "distinct ys" "length ?X \<le> length ys + 68"
    using v(3,5) u(9,10) free_pages_ok_distinct [OF dir_okD(1) [OF v(2)]] by (auto simp: grows_def)
  note left = boot_free_left [OF r ysX]
  have w: "dir_ok ?w ys e" "nextfree ?w = ?nf" "kern_pgdir ?w = e" "cr3 ?w = e" "npages ?w = N" "tables ?w e = tables v e" using v(2) vv by simp_all
  from check_page_free_list_run [OF dir_okD(1) [OF w(1)], of b cmos False] left(1,2) w(2) boot_free_length(2) [OF r] obtain w1 where
    w1: "check_page_free_list b cmos False ?w = Ret () w1" "keeps (set ys) ?w w1" "free_pages_ok w1 ys" by auto
  note D1 = dir_ok_keeps [OF w(1) w1(2,3) refl]
  have v1: "kern_pgdir w1 = e" "cr3 w1 = e" "npages w1 = N" using w1(2) w(3-5) by (simp_all add: keeps_def)
  have "3 \<le> length ys" using ysX(3) boot_free_length(1) [OF r] by simp
  then obtain a1 b1 c1 l1 where ys: "ys = a1 # b1 # c1 # l1" using three_first by blast
  have "0 \<notin> tables w1 e" using D1(2) w(6) v(4) by (auto simp: slot_values)
  from check_page_installed_ok [OF D1(1) [unfolded ys] v1(1,2) left(3) [unfolded ys] this] obtain t where
    t: "check_page_installed_pgdir w1 = Ret () t" "free_pages_ok t (a1 # c1 # b1 # l1)" "keeps (set ys) w1 t" unfolding ys by blast
  note D2 = dir_ok_keeps [OF D1(1) t(3,2)]
  have st: "set (a1 # c1 # b1 # l1) = set ys" "length (a1 # c1 # b1 # l1) = length ys" using ys by auto
  have "mem_init b cmos s = Ret () t" unfolding u(1) v(1) ck bindO.simps Let_def w1(1) t(1) ..
  moreover have "kern_pgdir t = e" "cr3 t = e" "npages t = N" using t(3) v1 by (simp_all add: keeps_def)
  moreover have "entry t e m = (if m < 0xEEC00 then 0 else kernel_entry b ?p ?v N m)" if "m div 1024 < 1024" "m div 1024 \<noteq> UV" for m
    using D2(3) [OF st(1) that] D1(3) [OF that] v(6) [OF that] by simp
  moreover have "boot_vars_ok s v" using boot_vars_steps(3) [OF u(12)] v(3) u(2,3) by simp
  from boot_vars_steps(4) [OF this] have "boot_vars_ok s ?w" .
  from boot_vars_steps(1) [OF this w1(2)] have "boot_vars_ok s w1" using w(1,3) by simp
  from boot_vars_steps(1) [OF this t(3)] have "boot_vars_ok s t" using D1(1) v1(1) by simp
  moreover have "mmio_base v = MMIOBASE + 3 * PGSIZE" using v(3) u(6) by (simp add: grows_def same_but_map_def)
  then have "mmio_base t = MMIOBASE + 3 * PGSIZE" using t(3) w1(2) by (simp add: keeps_def lcr3_def)
  moreover have "958 \<in> tables t e" using D2(2) [OF st(1)] D1(2) w(6) v(4) by simp
  ultimately show ?thesis using D2(1) [OF st(1)] st ysX(1,3) by (intro exI [of _ t] exI [of _ "a1 # c1 # b1 # l1"]) auto
qed


section \<open>Witnesses\<close>

text \<open>A machine with 128 MB, and a kernel image of 1.4 MB.\<close>

definition cmos_128MB :: "nat \<Rightarrow> u32" where
  "cmos_128MB r = (if r = NVRAM_BASELO then 0x80 else if r = NVRAM_BASELO + 1 then 0x02
     else if r = NVRAM_EXT16LO + 1 then 0x07 else 0)"

definition image :: bootsyms where
  "image = \<lparr>sym_kend = 0xF0160000, sym_pages = 0xF0158000, sym_bootstack = 0xF0108000, sym_kstacks = 0xF0110000\<rparr>"

lemma image_ready: "boot_ready image cmos_128MB 32768 344 353"
proof -
  have "KERNBASE \<le> percpu_kstack image i \<and> PGOFF (percpu_kstack image i) = 0" if "i < NCPU" for i
  proof -
    have "i \<in> {0, 1, 2, 3, 4, 5, 6, 7}" using that by (auto simp: NCPU_def)
    then show ?thesis by (auto simp: percpu_kstack_def image_def KERNBASE_def KSTKSIZE_def PGSIZE_def PGOFF_def)
  qed
  moreover have "nvram_read cmos_128MB NVRAM_BASELO = 640" "nvram_read cmos_128MB NVRAM_EXT16LO = 1792" "nvram_read cmos_128MB NVRAM_EXTLO = 0"
    by (simp_all add: nvram_read_def cmos_128MB_def NVRAM_BASELO_def NVRAM_EXTLO_def NVRAM_EXT16LO_def)
  then have "npages (i386_detect_memory cmos_128MB bss_state) = 32768" "npages_basemem (i386_detect_memory cmos_128MB bss_state) = 160"
    by (simp_all add: i386_detect_memory_def PGSIZE_def)
  ultimately show ?thesis
    by (simp add: boot_ready_def image_def KERNBASE_def PGSIZE_def pages_count_def ROUNDUP_def ROUNDDOWN_def)
qed

end
