(* ===== verification/Jos_Init.thy ===== *)
theory Jos_Init
  imports Jos_MemInit
begin

text \<open>
  The start of the kernel (kern/init.c): \<open>i386_init\<close> on the boot CPU, the start of the other CPUs one after
  the other, and what is left when the kernel panics. The start of the other CPUs is modelled twice: as the
  sequence of effects the boot CPU sees, and as a step relation of all CPUs. The few instructions of
  kern/mpentry.S that matter here, the load of the stack pointer and of \<open>CR3\<close>, are hardware steps of it.
\<close>

section \<open>Registers of a CPU\<close>

text \<open>The segment registers that \<open>env_init_percpu\<close> (kern/env.c) loads, and the bits of \<open>CR0\<close> (inc/mmu.h).\<close>

record segregs =
  seg_gs :: u16
  seg_fs :: u16
  seg_es :: u16
  seg_ds :: u16
  seg_ss :: u16
  seg_cs :: u16
  seg_ldt :: u16
  gdtr :: "u16 \<times> u32"

definition env_init_percpu :: "u16 \<times> u32 \<Rightarrow> segregs \<Rightarrow> segregs" where
  "env_init_percpu gdt_pd r =
     (let r = r\<lparr>gdtr := gdt_pd\<rparr>;
          r = r\<lparr>seg_gs := GD_UD OR 3\<rparr>;
          r = r\<lparr>seg_fs := GD_UD OR 3\<rparr>;
          r = r\<lparr>seg_es := GD_KD\<rparr>;
          r = r\<lparr>seg_ds := GD_KD\<rparr>;
          r = r\<lparr>seg_ss := GD_KD\<rparr>;
          r = r\<lparr>seg_cs := GD_KT\<rparr>
      in r\<lparr>seg_ldt := 0\<rparr>)"

definition CR0_PE :: u32 where "CR0_PE = 0x00000001"
definition CR0_MP :: u32 where "CR0_MP = 0x00000002"
definition CR0_EM :: u32 where "CR0_EM = 0x00000004"
definition CR0_TS :: u32 where "CR0_TS = 0x00000008"
definition CR0_NE :: u32 where "CR0_NE = 0x00000020"
definition CR0_WP :: u32 where "CR0_WP = 0x00010000"
definition CR0_AM :: u32 where "CR0_AM = 0x00040000"
definition CR0_PG :: u32 where "CR0_PG = 0x80000000"

text \<open>What \<open>mem_init\<close> (kern/pmap.c) makes of \<open>CR0\<close>.\<close>

definition mem_init_cr0 :: "u32 \<Rightarrow> u32" where
  "mem_init_cr0 cr0 =
     (let cr0 = cr0 OR ((((CR0_PE OR CR0_PG) OR CR0_AM) OR CR0_WP) OR CR0_NE) OR CR0_MP
      in cr0 AND NOT (CR0_TS OR CR0_EM))"

text \<open>
  Everything of the kernel outside of \<open>kstate\<close>. What differs from CPU to CPU is a function of its number;
  of a CPU that does not execute, \<open>cpu_cr3\<close> is the page directory.
\<close>

record boot_vars =
  bv_mp :: mpvars
  bv_tables :: tables
  bv_segs :: "nat \<Rightarrow> segregs"
  cpu_cr3 :: "nat \<Rightarrow> nat"
  mpentry_kstack :: u32

text \<open>
  What the code finds: the addresses of the linker, the entry points of traps and the task states, the code of
  kern/mpentry.S, the frame of \<open>entry_pgdir\<close>, what devices deliver, the tables of the BIOS, and the program that is started.
\<close>

record boot_input =
  in_syms :: bootsyms
  in_cmos :: "nat \<Rightarrow> u32"
  in_cga :: bool
  in_crt :: "u8 \<times> u8"
  in_lsr :: u8
  in_traps :: "nat \<Rightarrow> u32"
  in_ts_addr :: "nat \<Rightarrow> u32"
  in_gdt_pd :: "u16 \<times> u32"
  in_bios :: mem
  in_imcr :: u8
  in_lapic_ver :: u32
  in_mpentry :: "u8 list"
  in_entry_pgdir :: nat
  in_pcs :: "u32 list"
  in_user_yield :: "nat \<Rightarrow> u8"

section \<open>The other CPUs, one after the other\<close>

text \<open>Kernel code executed by another CPU, with its own page directory.\<close>

definition run_on :: "nat \<Rightarrow> (boot_vars \<Rightarrow> kstate \<Rightarrow> boot_vars kres) \<Rightarrow> boot_vars \<Rightarrow> kstate \<Rightarrow> boot_vars kres" where
  "run_on i f v s =
     bindO (f v (s\<lparr>this_cpu := i, cr3 := cpu_cr3 v i\<rparr>)) (\<lambda>v t.
       Ret (v\<lparr>cpu_cr3 := (cpu_cr3 v)(i := cr3 t)\<rparr>) (t\<lparr>this_cpu := this_cpu s, cr3 := cr3 s\<rparr>))"

text \<open>\<open>mp_main\<close> up to the lock: all that a CPU does before the boot CPU goes on.\<close>

definition mp_main_setup :: "boot_input \<Rightarrow> boot_vars \<Rightarrow> kstate \<Rightarrow> boot_vars kres" where
  "mp_main_setup b v s =
     (let s = lcr3 (kern_pgdir s) s in
     bindO (print_all [(nl (chars ''SMP: CPU %d starting''), [of_nat (this_cpu s)])] s) (\<lambda>_ s.
     bindO (lapic_init (in_lapic_ver b) (bv_mp v) s) (\<lambda>mp s.
       let v = v\<lparr>bv_mp := mp\<rparr>;
           v = v\<lparr>bv_segs := (bv_segs v)(this_cpu s := env_init_percpu (in_gdt_pd b) (bv_segs v (this_cpu s)))\<rparr>
       in case trap_init_percpu (in_ts_addr b) (bv_tables v) s of (d, s) \<Rightarrow>
         let v = v\<lparr>bv_tables := d\<rparr>;
             s = upd_this_cpu (\<lambda>c. c\<lparr>cpu_status := CPU_STARTED\<rparr>) s
         in Ret v s)))"

definition mp_main :: "boot_input \<Rightarrow> boot_vars \<Rightarrow> kstate \<Rightarrow> 'a kres" where
  "mp_main b v s =
     bindO (mp_main_setup b v s) (\<lambda>v s. bindO (lock_kernel (in_pcs b) s) (\<lambda>_ s. sched_yield s))"

text \<open>\<open>memmove\<close> to the page at \<open>MPENTRY_PADDR\<close>.\<close>

definition put_code :: "u32 \<Rightarrow> u8 list \<Rightarrow> kstate \<Rightarrow> kstate" where
  "put_code a code s =
     fold (\<lambda>k. wr_byte (kva_frame (a + of_nat k)) (unat (PGOFF (a + of_nat k))) (code ! k)) [0..<length code] s"

text \<open>
  What the boot CPU does for CPU \<open>c\<close> until it waits, and the round of the loop with the wait, which ends when the CPU
  has come to the end of its set-up.
\<close>

definition set_kstack :: "boot_input \<Rightarrow> nat \<Rightarrow> boot_vars \<Rightarrow> boot_vars" where
  "set_kstack b c v = v\<lparr>mpentry_kstack := percpu_kstack (in_syms b) c + KSTKSIZE\<rparr>"

definition send_startup :: "u32 \<Rightarrow> nat \<Rightarrow> boot_vars \<Rightarrow> kstate \<Rightarrow> boot_vars kres" where
  "send_startup code c v s =
     bindO (paddr code s) (\<lambda>pa s.
     bindO (lapic_startap (cpu_id (cpus s c)) pa (bv_mp v) s) (\<lambda>mp s. Ret (v\<lparr>bv_mp := mp\<rparr>) s))"

definition enter_kernel :: "boot_input \<Rightarrow> nat \<Rightarrow> boot_vars \<Rightarrow> boot_vars" where
  "enter_kernel b i v = v\<lparr>cpu_cr3 := (cpu_cr3 v)(i := in_entry_pgdir b)\<rparr>"

definition boot_ap :: "boot_input \<Rightarrow> u32 \<Rightarrow> nat \<Rightarrow> boot_vars \<Rightarrow> kstate \<Rightarrow> boot_vars kres" where
  "boot_ap b code c v s =
     (if c = this_cpu s then Ret v s
      else bindO (send_startup code c (set_kstack b c v) s) (\<lambda>v s.
        let i = unat (cpu_id (cpus s c)) in
        case run_on i (mp_main_setup b) (enter_kernel b i v) s of
          Ret v s \<Rightarrow> if cpu_status (cpus s c) = CPU_STARTED then Ret v s else Leave Spinning s
        | _ \<Rightarrow> Leave Spinning s))"

fun boot_ap_loop :: "boot_input \<Rightarrow> u32 \<Rightarrow> nat list \<Rightarrow> boot_vars \<Rightarrow> kstate \<Rightarrow> boot_vars kres" where
  "boot_ap_loop b code [] v s = Ret v s"
| "boot_ap_loop b code (c # cs) v s = bindO (boot_ap b code c v s) (boot_ap_loop b code cs)"

definition boot_aps :: "boot_input \<Rightarrow> boot_vars \<Rightarrow> kstate \<Rightarrow> boot_vars kres" where
  "boot_aps b v s =
     bindO (kaddr MPENTRY_PADDR s) (\<lambda>code s.
       boot_ap_loop b code [0..<ncpu (bv_mp v)] v (put_code code (in_mpentry b) s))"

section \<open>The boot CPU\<close>

definition i386_init :: "boot_input \<Rightarrow> boot_vars \<Rightarrow> kstate \<Rightarrow> 'a kres" where
  "i386_init b v s =
     (case cons_init (in_cga b) (fst (in_crt b)) (snd (in_crt b)) (in_lsr b) (cons s) of
        None \<Rightarrow> Leave Spinning s
      | Some c \<Rightarrow>
          let s = s\<lparr>cons := c\<rparr> in
          bindO (print_all [(nl (chars ''444544 decimal is %o octal!''), [444544])] s) (\<lambda>_ s.
          bindO (mem_init (in_syms b) (in_cmos b) s) (\<lambda>_ s.
          let s = env_init s;
              v = v\<lparr>bv_segs := (bv_segs v)(this_cpu s := env_init_percpu (in_gdt_pd b) (bv_segs v (this_cpu s)))\<rparr>
          in case trap_init (in_traps b) (in_ts_addr b) (bv_tables v) s of (d, s) \<Rightarrow>
          let v = v\<lparr>bv_tables := d\<rparr> in
          bindO (mp_init (in_bios b) (in_imcr b) (bv_mp v) s) (\<lambda>mp s.
          bindO (lapic_init (in_lapic_ver b) mp s) (\<lambda>mp s.
          let v = v\<lparr>bv_mp := mp\<rparr>; s = s\<lparr>cons := pic_init (cons s)\<rparr> in
          bindO (lock_kernel (in_pcs b) s) (\<lambda>_ s.
          bindO (boot_aps b v s) (\<lambda>v s.
          bindO (env_create (in_user_yield b) ENV_TYPE_USER s) (\<lambda>_ s.
          bindO (env_create (in_user_yield b) ENV_TYPE_USER s) (\<lambda>_ s.
          bindO (env_create (in_user_yield b) ENV_TYPE_USER s) (\<lambda>_ s. sched_yield s))))))))))"

section \<open>Panic and warnings\<close>

text \<open>\<open>panicstr\<close> is the format of the first panic, or the null pointer; \<open>file\<close> is the address of a name.\<close>

definition panic_message :: "u32 \<Rightarrow> u32 \<Rightarrow> u8 list \<Rightarrow> (nat \<Rightarrow> u32) \<Rightarrow> u8 list option \<Rightarrow> kstate \<Rightarrow> u8 list option kres" where
  "panic_message file line fmt args panicstr s =
     (if panicstr \<noteq> None then Ret panicstr s
      else
        bindO (cprintf (chars ''kernel panic on CPU %d at %s:%d: '') (\<lambda>i. [of_nat (this_cpu s), file, line] ! i) s) (\<lambda>_ s.
        bindO (vcprintf fmt args 0 s) (\<lambda>_ s. Ret (Some fmt) (kputs (nl []) s))))"

partial_function (option) panic_loop :: "(kstate \<Rightarrow> kstate) \<Rightarrow> kimage \<Rightarrow> line \<Rightarrow> kstate \<Rightarrow> unit kres option" where
  "panic_loop arrive k buf s =
     (case monitor arrive k buf None s of
        None \<Rightarrow> None
      | Some (Ret _ s) \<Rightarrow> panic_loop arrive k buf s
      | Some (Panic m) \<Rightarrow> Some (Panic m)
      | Some (Leave l s) \<Rightarrow> Some (Leave l s))"

definition k_panic :: "(kstate \<Rightarrow> kstate) \<Rightarrow> kimage \<Rightarrow> line \<Rightarrow> u32 \<Rightarrow> u32 \<Rightarrow> u8 list \<Rightarrow> (nat \<Rightarrow> u32) \<Rightarrow>
    u8 list option \<Rightarrow> kstate \<Rightarrow> unit kres option" where
  "k_panic arrive k buf file line fmt args panicstr s =
     (case panic_message file line fmt args panicstr s of
        Ret _ s \<Rightarrow> panic_loop arrive k buf s
      | Panic m \<Rightarrow> Some (Panic m)
      | Leave l s \<Rightarrow> Some (Leave l s))"

definition k_warn :: "u32 \<Rightarrow> u32 \<Rightarrow> u8 list \<Rightarrow> (nat \<Rightarrow> u32) \<Rightarrow> kstate \<Rightarrow> unit kres" where
  "k_warn file line fmt args s =
     bindO (cprintf (chars ''kernel warning at %s:%d: '') (\<lambda>i. [file, line] ! i) s) (\<lambda>_ s.
     bindO (vcprintf fmt args 0 s) (\<lambda>_ s. Ret () (kputs (nl []) s)))"

text \<open>The clock chip (kern/kclock.c); \<open>rtc\<close> are its registers.\<close>

definition mc146818_read :: "(u8 \<Rightarrow> u8) \<Rightarrow> u32 \<Rightarrow> console \<Rightarrow> u32 \<times> console" where
  "mc146818_read rtc reg s = (let s = outb 0x70 (ucast reg) s in (ucast (rtc (ucast reg)), s))"

definition mc146818_write :: "u32 \<Rightarrow> u32 \<Rightarrow> console \<Rightarrow> console" where
  "mc146818_write reg datum s = (let s = outb 0x70 (ucast reg) s in outb 0x71 (ucast datum) s)"

section \<open>No way back\<close>

lemma sched_yield_leaves: "sched_yield s \<noteq> Ret a t"
  by (auto simp: sched_yield_def env_run_def sched_halt_def env_pop_tf_def unlock_kernel_def bindO_eq_Ret Let_def
      split: option.splits outcome.splits if_splits)

text \<open>
  The functions of kern/init.c that must not return do not: the start of either kind of CPU ends in the scheduler or not
  at all, and a panic in the monitor.
\<close>

theorem init_never_returns: "i386_init b v s \<noteq> Ret a t" "mp_main b v s \<noteq> Ret a t"
  by (auto simp: i386_init_def mp_main_def bindO_eq_Ret Let_def sched_yield_leaves split: option.splits prod.splits)

theorem k_panic_never_returns: "k_panic arrive k buf file line fmt args panicstr s \<noteq> Some (Ret () t)"
proof -
  define P where "P = (\<lambda>(arrive :: kstate \<Rightarrow> kstate) (k :: kimage) (buf :: line) (s :: kstate) (y :: unit kres). \<forall>t. y \<noteq> Ret () t)"
  have "P arrive k buf s y" if "panic_loop arrive k buf s = Some y" for s y
    by (rule panic_loop.raw_induct [of P, OF _ that])
      (auto simp: P_def monitor_never_returns split: option.splits outcome.splits)
  then show ?thesis by (auto simp: k_panic_def P_def split: outcome.splits)
qed

section \<open>All CPUs at once\<close>

text \<open>
  Where the boot CPU is: before CPU \<open>c\<close> in the loop of \<open>boot_aps\<close>; past writing \<open>mpentry_kstack\<close> for it; in the wait for
  it; past the loop; or stopped. Another CPU is off; has received the STARTUP message; is in \<open>mp_main\<close>, with its stack pointer; has
  announced itself and tries to get the lock, which the boot CPU holds; or has stopped in a panic.
\<close>

datatype bsp_pc = AtCpu nat | Stacked nat | Waiting nat | Booted | Stopped
datatype ap_pc = Off | Entering | InMain u32 | Up u32 | Crashed

record smp =
  sk :: kstate
  sv :: boot_vars
  bsp :: bsp_pc
  ap :: "nat \<Rightarrow> ap_pc"

inductive smp_step :: "boot_input \<Rightarrow> u32 \<Rightarrow> smp \<Rightarrow> smp \<Rightarrow> bool" for b :: boot_input and code :: u32 where
  skip_self: "bsp x = AtCpu c \<Longrightarrow> c < ncpu (bv_mp (sv x)) \<Longrightarrow> c = this_cpu (sk x) \<Longrightarrow>
    smp_step b code x (x\<lparr>bsp := AtCpu (c + 1)\<rparr>)"
| tell_stack: "bsp x = AtCpu c \<Longrightarrow> c < ncpu (bv_mp (sv x)) \<Longrightarrow> c \<noteq> this_cpu (sk x) \<Longrightarrow>
    smp_step b code x (x\<lparr>bsp := Stacked c, sv := set_kstack b c (sv x)\<rparr>)"
| startup: "bsp x = Stacked c \<Longrightarrow> send_startup code c (sv x) (sk x) = Ret v s \<Longrightarrow>
    smp_step b code x (x\<lparr>bsp := Waiting c, sv := v, sk := s, ap := (ap x)(unat (cpu_id (cpus s c)) := Entering)\<rparr>)"
| startup_fails: "bsp x = Stacked c \<Longrightarrow> \<forall>v s. send_startup code c (sv x) (sk x) \<noteq> Ret v s \<Longrightarrow>
    smp_step b code x (x\<lparr>bsp := Stopped\<rparr>)"
| seen: "bsp x = Waiting c \<Longrightarrow> cpu_status (cpus (sk x) c) = CPU_STARTED \<Longrightarrow>
    smp_step b code x (x\<lparr>bsp := AtCpu (c + 1)\<rparr>)"
| all_up: "bsp x = AtCpu c \<Longrightarrow> \<not> c < ncpu (bv_mp (sv x)) \<Longrightarrow> smp_step b code x (x\<lparr>bsp := Booted\<rparr>)"
| enter: "ap x i = Entering \<Longrightarrow>
    smp_step b code x (x\<lparr>ap := (ap x)(i := InMain (mpentry_kstack (sv x))), sv := enter_kernel b i (sv x)\<rparr>)"
| set_up: "ap x i = InMain sp \<Longrightarrow> run_on i (mp_main_setup b) (sv x) (sk x) = Ret v s \<Longrightarrow>
    smp_step b code x (x\<lparr>ap := (ap x)(i := Up sp), sv := v, sk := s\<rparr>)"
| crash: "ap x i = InMain sp \<Longrightarrow> \<forall>v s. run_on i (mp_main_setup b) (sv x) (sk x) \<noteq> Ret v s \<Longrightarrow>
    smp_step b code x (x\<lparr>ap := (ap x)(i := Crashed)\<rparr>)"

inductive_cases smp_stepE: "smp_step b code x y"

abbreviation smp_start :: "boot_vars \<Rightarrow> kstate \<Rightarrow> smp" where
  "smp_start v s \<equiv> \<lparr>sk = s, sv = v, bsp = AtCpu 0, ap = (\<lambda>_. Off)\<rparr>"

abbreviation smp_reach :: "boot_input \<Rightarrow> u32 \<Rightarrow> smp \<Rightarrow> smp \<Rightarrow> bool" where
  "smp_reach b code \<equiv> (smp_step b code)\<^sup>*\<^sup>*"

section \<open>What the steps leave alone\<close>

lemma boot_map_loop_same: "wlp (boot_map_loop pd va k i pa perm s) (\<lambda>_. same_env s)"
proof (induction k arbitrary: i s)
  case (Suc k)
  have "wlp (boot_map_loop pd va k (i + 1) pa perm (wr_word t j w u)) (\<lambda>_. same_env s)" if "same_env s u" for t j w u
    by (rule wlp_weaken [OF Suc.IH]) (use that in \<open>simp add: same_env_def wr_word_def\<close>)
  then show ?case
    by (auto simp: wlp_rules intro!: wlp_weaken [OF pgdir_walk_same])
qed simp

lemma mmio_map_region_same: "mmio_map_region pa sz s = Ret va t \<Longrightarrow> same_env s t"
  using wlpD [OF boot_map_loop_same]
  by (fastforce simp: mmio_map_region_def boot_map_region_def bindO_eq_Ret Let_def same_env_def)

lemma wr_byte_same [simp]: "cpus (wr_byte f k w s) = cpus s" "this_cpu (wr_byte f k w s) = this_cpu s"
  "npages (wr_byte f k w s) = npages s"
  by (simp_all add: wr_byte_def wr_word_def Let_def)

lemma send_startup_same:
  assumes "send_startup code c v s = Ret v' s'"
  shows "cpus s' = cpus s" "this_cpu s' = this_cpu s" "ncpu (bv_mp v') = ncpu (bv_mp v)" "mpentry_kstack v' = mpentry_kstack v"
proof -
  from assms obtain pa mp where v: "lapic_startap (cpu_id (cpus s c)) pa (bv_mp v) s = Ret mp s'" "v' = v\<lparr>bv_mp := mp\<rparr>"
    by (auto simp: send_startup_def paddr_def bindO_eq_Ret split: if_splits)
  then have "cpus s' = cpus s \<and> this_cpu s' = this_cpu s \<and> ncpu mp = ncpu (bv_mp v)"
    by (auto simp: lapic_startap_def kaddr_def bindO_eq_Ret Let_def lapicw_def split: if_splits)
  with v(2) show "cpus s' = cpus s" "this_cpu s' = this_cpu s" "ncpu (bv_mp v') = ncpu (bv_mp v)" "mpentry_kstack v' = mpentry_kstack v"
    by simp_all
qed

lemma lapic_init_same:
  assumes "lapic_init ver v s = Ret v' t"
  shows "same_env s t" "ncpu v' = ncpu v"
  using assms mmio_map_region_same
  by (auto simp: lapic_init_def bindO_eq_Ret Let_def lapicw_def split: if_splits)

lemma run_setup_same:
  assumes "run_on i (mp_main_setup b) v s = Ret v' s'"
  shows "this_cpu s' = this_cpu s" "ncpu (bv_mp v') = ncpu (bv_mp v)" "mpentry_kstack v' = mpentry_kstack v"
    "cpu_id (cpus s' j) = cpu_id (cpus s j)" "cpu_status (cpus s' j) = (if j = i then CPU_STARTED else cpu_status (cpus s j))"
proof -
  let ?s = "lcr3 (kern_pgdir s) (s\<lparr>this_cpu := i, cr3 := cpu_cr3 v i\<rparr>)"
  from assms obtain s1 mp s2 where
    s1: "print_all [(nl (chars ''SMP: CPU %d starting''), [of_nat i])] ?s = Ret () s1" and
    s2: "lapic_init (in_lapic_ver b) (bv_mp v) s1 = Ret mp s2" and
    v': "bv_mp v' = mp" "mpentry_kstack v' = mpentry_kstack v" and
    s': "s' = (upd_this_cpu (\<lambda>c. c\<lparr>cpu_status := CPU_STARTED\<rparr>) (snd (trap_init_percpu (in_ts_addr b) (bv_tables v) s2)))
      \<lparr>this_cpu := this_cpu s, cr3 := cr3 s\<rparr>"
    by (auto simp: run_on_def mp_main_setup_def bindO_eq_Ret Let_def lcr3_def case_prod_beta simp del: print_all.simps)
  define s3 where "s3 = snd (trap_init_percpu (in_ts_addr b) (bv_tables v) s2)"
  from print_all_kputch [OF s1] have "cpus s1 = cpus s" "this_cpu s1 = i" by (auto simp: lcr3_def)
  moreover note lapic_init_same [OF s2]
  ultimately have "cpus s2 = cpus s" "this_cpu s2 = i" and n: "ncpu mp = ncpu (bv_mp v)" by (simp_all add: same_env_def)
  then have c3: "this_cpu s3 = i" "\<And>k. cpu_id (cpus s3 k) = cpu_id (cpus s k)" "\<And>k. cpu_status (cpus s3 k) = cpu_status (cpus s k)"
    by (auto simp: s3_def trap_init_percpu_def Let_def upd_this_cpu_def)
  from s' [folded s3_def] v' n c3 show "this_cpu s' = this_cpu s" "ncpu (bv_mp v') = ncpu (bv_mp v)" "mpentry_kstack v' = mpentry_kstack v"
    "cpu_id (cpus s' j) = cpu_id (cpus s j)" "cpu_status (cpus s' j) = (if j = i then CPU_STARTED else cpu_status (cpus s j))"
    by (simp_all add: upd_this_cpu_def)
qed

section \<open>Each CPU waits for its turn\<close>

text \<open>The CPUs are numbered by their identifiers, and no other CPU than the boot CPU has been started.\<close>

definition smp_ready :: "boot_vars \<Rightarrow> kstate \<Rightarrow> bool" where
  "smp_ready v s \<longleftrightarrow> ncpu (bv_mp v) \<le> NCPU \<and> this_cpu s < ncpu (bv_mp v) \<and>
     (\<forall>i<ncpu (bv_mp v). cpu_id (cpus s i) = of_nat i) \<and>
     (\<forall>i<ncpu (bv_mp v). i \<noteq> this_cpu s \<longrightarrow> cpu_status (cpus s i) = CPU_UNUSED)"

definition own_stack :: "boot_input \<Rightarrow> nat \<Rightarrow> u32" where
  "own_stack b i = percpu_kstack (in_syms b) i + KSTKSIZE"

lemma boot_ap_loop_snoc: "boot_ap_loop b code (cs @ [c]) v s = bindO (boot_ap_loop b code cs v s) (boot_ap b code c)"
proof (induction cs arbitrary: v s)
  case Nil
  then show ?case by (cases "boot_ap b code c v s") simp_all
next
  case (Cons a cs)
  then show ?case by (cases "boot_ap b code a v s") simp_all
qed

lemma boot_upto_mono: "boot_ap_loop b code [0..<n] v s = Ret v' s' \<Longrightarrow> m \<le> n \<Longrightarrow> \<exists>u t. boot_ap_loop b code [0..<m] v s = Ret u t"
proof (induction n arbitrary: v' s')
  case (Suc n)
  then show ?case by (cases "m = Suc n") (auto simp: boot_ap_loop_snoc bindO_eq_Ret)
qed simp

lemma cpu_id_nat: "i < NCPU \<Longrightarrow> unat (of_nat i :: u8) = i"
  by (simp add: NCPU_def unat_of_nat take_bit_eq_mod)

lemma boot_ap_other:
  assumes "c \<noteq> this_cpu s" "cpu_id (cpus s c) = of_nat c" "c < NCPU"
  shows "boot_ap b code c v s = Ret v' s' \<longleftrightarrow> (\<exists>u t. send_startup code c (set_kstack b c v) s = Ret u t \<and>
    run_on c (mp_main_setup b) (enter_kernel b c u) t = Ret v' s')"
proof -
  have "cpu_id (cpus t c) = of_nat c" if "send_startup code c (set_kstack b c v) s = Ret u t" for u t
    using send_startup_same(1) [OF that] assms(2) by simp
  then show ?thesis
    using assms cpu_id_nat [OF assms(3)] run_setup_same(5) [where i = c and j = c]
    by (auto simp: boot_ap_def bindO_eq_Ret split: outcome.splits if_splits)
qed

lemma boot_upto_same:
  assumes "smp_ready v0 s0" "n \<le> ncpu (bv_mp v0)" "boot_ap_loop b code [0..<n] v0 s0 = Ret v s"
  shows "this_cpu s = this_cpu s0 \<and> ncpu (bv_mp v) = ncpu (bv_mp v0) \<and> (\<forall>j. cpu_id (cpus s j) = cpu_id (cpus s0 j)) \<and>
    (\<forall>j<ncpu (bv_mp v0). j \<noteq> this_cpu s0 \<longrightarrow> cpu_status (cpus s j) = (if j < n then CPU_STARTED else CPU_UNUSED))"
  using assms(2,3)
proof (induction n arbitrary: v s)
  case 0
  then show ?case using assms(1) by (auto simp: smp_ready_def)
next
  case (Suc n)
  then obtain u t where u: "boot_ap_loop b code [0..<n] v0 s0 = Ret u t" "boot_ap b code n u t = Ret v s"
    by (auto simp: boot_ap_loop_snoc bindO_eq_Ret)
  note IH = Suc.IH [OF _ u(1)]
  show ?case
  proof (cases "n = this_cpu s0")
    case True
    with u IH Suc.prems(1) show ?thesis by (auto simp: boot_ap_def)
  next
    case False
    have "n < NCPU" "cpu_id (cpus s0 n) = of_nat n" using assms(1) Suc.prems(1) by (auto simp: smp_ready_def)
    with u(2) False IH Suc.prems(1) obtain w y where w: "send_startup code n (set_kstack b n u) t = Ret w y"
      "run_on n (mp_main_setup b) (enter_kernel b n w) y = Ret v s"
      using boot_ap_other by (auto simp: boot_ap_other)
    note send_startup_same [OF w(1)] run_setup_same [OF w(2)]
    with IH Suc.prems(1) show ?thesis by (auto simp: enter_kernel_def set_kstack_def)
  qed
qed

definition cpu_started :: "boot_input \<Rightarrow> u32 \<Rightarrow> boot_vars \<Rightarrow> kstate \<Rightarrow> nat \<Rightarrow> boot_vars \<Rightarrow> kstate \<Rightarrow> bool" where
  "cpu_started b code v0 s0 c v s \<longleftrightarrow> (\<exists>u t. boot_ap_loop b code [0..<c] v0 s0 = Ret u t \<and>
     send_startup code c (set_kstack b c u) t = Ret v s)"

definition others_up :: "boot_input \<Rightarrow> nat \<Rightarrow> nat \<Rightarrow> nat \<Rightarrow> ap_pc" where
  "others_up b me c i = (if i < c \<and> i \<noteq> me then Up (own_stack b i) else Off)"

definition no_boot :: "boot_input \<Rightarrow> u32 \<Rightarrow> boot_vars \<Rightarrow> kstate \<Rightarrow> nat \<Rightarrow> bool" where
  "no_boot b code v0 s0 c \<longleftrightarrow> (\<forall>v s. boot_ap_loop b code [0..<Suc c] v0 s0 \<noteq> Ret v s)"

fun waiting_inv :: "boot_input \<Rightarrow> u32 \<Rightarrow> boot_vars \<Rightarrow> kstate \<Rightarrow> nat \<Rightarrow> ap_pc \<Rightarrow> boot_vars \<Rightarrow> kstate \<Rightarrow> bool" where
  "waiting_inv b code v0 s0 c Off v s = False"
| "waiting_inv b code v0 s0 c Entering v s = cpu_started b code v0 s0 c v s"
| "waiting_inv b code v0 s0 c (InMain sp) v s =
     (sp = own_stack b c \<and> (\<exists>u. cpu_started b code v0 s0 c u s \<and> v = enter_kernel b c u))"
| "waiting_inv b code v0 s0 c (Up sp) v s = (sp = own_stack b c \<and> boot_ap_loop b code [0..<Suc c] v0 s0 = Ret v s)"
| "waiting_inv b code v0 s0 c Crashed v s = (no_boot b code v0 s0 c \<and> cpu_status (cpus s c) \<noteq> CPU_STARTED)"

definition smp_inv :: "boot_input \<Rightarrow> u32 \<Rightarrow> boot_vars \<Rightarrow> kstate \<Rightarrow> smp \<Rightarrow> bool" where
  "smp_inv b code v0 s0 x \<longleftrightarrow>
     (case bsp x of
        AtCpu c \<Rightarrow> c \<le> ncpu (bv_mp v0) \<and> ap x = others_up b (this_cpu s0) c \<and> boot_ap_loop b code [0..<c] v0 s0 = Ret (sv x) (sk x)
      | Stacked c \<Rightarrow> c < ncpu (bv_mp v0) \<and> c \<noteq> this_cpu s0 \<and> ap x = others_up b (this_cpu s0) c \<and>
          (\<exists>v. boot_ap_loop b code [0..<c] v0 s0 = Ret v (sk x) \<and> sv x = set_kstack b c v)
      | Waiting c \<Rightarrow> c < ncpu (bv_mp v0) \<and> c \<noteq> this_cpu s0 \<and>
          ap x = (others_up b (this_cpu s0) c)(c := ap x c) \<and> waiting_inv b code v0 s0 c (ap x c) (sv x) (sk x)
      | Booted \<Rightarrow> ap x = others_up b (this_cpu s0) (ncpu (bv_mp v0)) \<and>
          boot_ap_loop b code [0..<ncpu (bv_mp v0)] v0 s0 = Ret (sv x) (sk x)
      | Stopped \<Rightarrow> \<exists>c<ncpu (bv_mp v0). ap x = others_up b (this_cpu s0) c \<and> no_boot b code v0 s0 c)"

lemma cpu_started_same:
  assumes "smp_ready v0 s0" "c < ncpu (bv_mp v0)" "c \<noteq> this_cpu s0" "cpu_started b code v0 s0 c v s"
  shows "cpu_status (cpus s c) = CPU_UNUSED" "cpu_id (cpus s c) = of_nat c" "mpentry_kstack v = own_stack b c"
    "boot_ap_loop b code [0..<Suc c] v0 s0 = Ret v' s' \<longleftrightarrow> run_on c (mp_main_setup b) (enter_kernel b c v) s = Ret v' s'"
proof -
  from assms(4) obtain u t where u: "boot_ap_loop b code [0..<c] v0 s0 = Ret u t" "send_startup code c (set_kstack b c u) t = Ret v s"
    by (auto simp: cpu_started_def)
  note f = boot_upto_same [OF assms(1) less_imp_le [OF assms(2)] u(1)] and g = send_startup_same [OF u(2)]
  show "cpu_status (cpus s c) = CPU_UNUSED" using f g assms(2,3) by simp
  have id: "cpu_id (cpus s0 c) = of_nat c" "c < NCPU" using assms(1,2) by (auto simp: smp_ready_def)
  with f g show "cpu_id (cpus s c) = of_nat c" by simp
  show "mpentry_kstack v = own_stack b c" using g by (simp add: set_kstack_def own_stack_def)
  show "boot_ap_loop b code [0..<Suc c] v0 s0 = Ret v' s' \<longleftrightarrow> run_on c (mp_main_setup b) (enter_kernel b c v) s = Ret v' s'"
    using u f id assms(3) boot_ap_other [of c t b code u v' s'] by (simp add: boot_ap_loop_snoc)
qed

lemma others_up_self: "others_up b me (Suc me) = others_up b me me"
  by (auto simp: others_up_def less_Suc_eq)

text \<open>A CPU that has been started but is not up is the one the boot CPU waits for.\<close>

lemma busy_cpu:
  assumes "smp_inv b code v0 s0 x" "ap x i \<noteq> Off" "\<forall>sp. ap x i \<noteq> Up sp"
  shows "bsp x = Waiting i" "i < ncpu (bv_mp v0)" "i \<noteq> this_cpu s0" "ap x = (others_up b (this_cpu s0) i)(i := ap x i)"
    "waiting_inv b code v0 s0 i (ap x i) (sv x) (sk x)"
proof -
  have "ap x i \<noteq> others_up b (this_cpu s0) c i" for c using assms(2,3) by (auto simp: others_up_def)
  then show "bsp x = Waiting i"
    using assms(1) by (auto simp: smp_inv_def fun_upd_def split: bsp_pc.splits if_splits dest!: fun_cong [of _ _ i]) metis
  with assms(1) show "i < ncpu (bv_mp v0)" "i \<noteq> this_cpu s0" "ap x = (others_up b (this_cpu s0) i)(i := ap x i)"
    "waiting_inv b code v0 s0 i (ap x i) (sv x) (sk x)" by (simp_all add: smp_inv_def)
qed

lemma waiting_upd:
  assumes "ap x = (others_up b me c)(c := ap x c)" shows "(ap x)(c := a) = (others_up b me c)(c := a)"
  by (subst assms) simp

lemma smp_inv_step:
  assumes ready: "smp_ready v0 s0" and inv: "smp_inv b code v0 s0 x" and "smp_step b code x y"
  shows "smp_inv b code v0 s0 y"
  using assms(3)
proof cases
  case (skip_self c)
  with inv have c: "ap x = others_up b (this_cpu s0) c" "boot_ap_loop b code [0..<c] v0 s0 = Ret (sv x) (sk x)"
    "c \<le> ncpu (bv_mp v0)" by (simp_all add: smp_inv_def)
  from boot_upto_same [OF ready c(3,2)] have "this_cpu (sk x) = this_cpu s0" "ncpu (bv_mp (sv x)) = ncpu (bv_mp v0)" by simp_all
  with skip_self(3,4) have "this_cpu s0 = c" "this_cpu (sk x) = c" "c < ncpu (bv_mp v0)" by metis+
  with skip_self(1,2) c others_up_self [of b c] show ?thesis by (simp add: smp_inv_def boot_ap_loop_snoc boot_ap_def)
next
  case (tell_stack c)
  with inv have c: "ap x = others_up b (this_cpu s0) c" "boot_ap_loop b code [0..<c] v0 s0 = Ret (sv x) (sk x)"
    "c \<le> ncpu (bv_mp v0)" by (simp_all add: smp_inv_def)
  from boot_upto_same [OF ready c(3,2)] have "this_cpu (sk x) = this_cpu s0" "ncpu (bv_mp (sv x)) = ncpu (bv_mp v0)" by simp_all
  with tell_stack c show ?thesis by (simp add: smp_inv_def)
next
  case (startup c v s)
  with inv have c: "c < ncpu (bv_mp v0)" "c \<noteq> this_cpu s0" "ap x = others_up b (this_cpu s0) c" "cpu_started b code v0 s0 c v s"
    by (auto simp: smp_inv_def cpu_started_def)
  have "c < NCPU" using ready c(1) by (simp add: smp_ready_def)
  then have "unat (cpu_id (cpus s c)) = c" using cpu_started_same(2) [OF ready c(1,2,4)] by (simp add: cpu_id_nat)
  with startup c show ?thesis by (auto simp: smp_inv_def)
next
  case (startup_fails c)
  with inv obtain v where c: "c < ncpu (bv_mp v0)" "c \<noteq> this_cpu s0" "ap x = others_up b (this_cpu s0) c"
    "boot_ap_loop b code [0..<c] v0 s0 = Ret v (sk x)" "sv x = set_kstack b c v" by (auto simp: smp_inv_def)
  note f = boot_upto_same [OF ready less_imp_le [OF c(1)] c(4)]
  have "cpu_id (cpus (sk x) c) = of_nat c" "c < NCPU" using f ready c(1) by (auto simp: smp_ready_def)
  then have "no_boot b code v0 s0 c"
    using boot_ap_other [of c "sk x"] f c startup_fails by (simp add: no_boot_def boot_ap_loop_snoc)
  with startup_fails c show ?thesis by (auto simp: smp_inv_def)
next
  case (seen c)
  with inv have c: "c < ncpu (bv_mp v0)" "c \<noteq> this_cpu s0" "ap x = (others_up b (this_cpu s0) c)(c := ap x c)"
    "waiting_inv b code v0 s0 c (ap x c) (sv x) (sk x)" by (simp_all add: smp_inv_def)
  obtain sp where sp: "ap x c = Up sp"
    using c(4) seen cpu_started_same(1) [OF ready c(1,2)] by (cases "ap x c") auto
  have "ap x = others_up b (this_cpu s0) (c + 1)"
    using c sp by (subst c(3)) (auto simp: others_up_def)
  with seen c sp show ?thesis by (simp add: smp_inv_def)
next
  case (all_up c)
  with inv have c: "boot_ap_loop b code [0..<c] v0 s0 = Ret (sv x) (sk x)" "c \<le> ncpu (bv_mp v0)" by (simp_all add: smp_inv_def)
  with boot_upto_same [OF ready c(2,1)] all_up have "c = ncpu (bv_mp v0)" by simp
  with all_up inv show ?thesis by (simp add: smp_inv_def)
next
  case (enter i)
  with busy_cpu [OF inv, of i] have w: "bsp x = Waiting i" "i < ncpu (bv_mp v0)" "i \<noteq> this_cpu s0"
    "ap x = (others_up b (this_cpu s0) i)(i := ap x i)" "cpu_started b code v0 s0 i (sv x) (sk x)" by simp_all
  with enter cpu_started_same(3) [OF ready w(2,3,5)] waiting_upd [OF w(4)] show ?thesis by (auto simp: smp_inv_def)
next
  case (set_up i sp v s)
  with busy_cpu [OF inv, of i] obtain u where w: "bsp x = Waiting i" "i < ncpu (bv_mp v0)" "i \<noteq> this_cpu s0"
    "ap x = (others_up b (this_cpu s0) i)(i := ap x i)" "sp = own_stack b i" "cpu_started b code v0 s0 i u (sk x)"
    "sv x = enter_kernel b i u" by auto
  then have "boot_ap_loop b code [0..<Suc i] v0 s0 = Ret v s"
    using cpu_started_same(4) [OF ready w(2,3,6)] set_up by simp
  with set_up w waiting_upd [OF w(4)] show ?thesis by (simp add: smp_inv_def)
next
  case (crash i sp)
  with busy_cpu [OF inv, of i] obtain u where w: "bsp x = Waiting i" "i < ncpu (bv_mp v0)" "i \<noteq> this_cpu s0"
    "ap x = (others_up b (this_cpu s0) i)(i := ap x i)" "cpu_started b code v0 s0 i u (sk x)" "sv x = enter_kernel b i u" by auto
  then have "no_boot b code v0 s0 i" unfolding no_boot_def using cpu_started_same(4) [OF ready w(2,3,5)] crash by simp
  with crash w waiting_upd [OF w(4)] cpu_started_same(1) [OF ready w(2,3,5)] show ?thesis by (simp add: smp_inv_def)
qed

lemma smp_inv_reach:
  assumes "smp_ready v0 s0" "smp_reach b code (smp_start v0 s0) x"
  shows "smp_inv b code v0 s0 x"
  using assms(2)
proof (induction rule: rtranclp_induct)
  case base
  show ?case by (auto simp: smp_inv_def others_up_def)
next
  case (step y z)
  then show ?case using smp_inv_step [OF assms(1)] by blast
qed

section \<open>Nothing gets stuck\<close>

definition smp_left :: "nat \<Rightarrow> smp \<Rightarrow> nat" where
  "smp_left n x =
     (case bsp x of
        AtCpu c \<Rightarrow> 10 * (n - c) + 9
      | Stacked c \<Rightarrow> 10 * (n - c) + 8
      | Waiting c \<Rightarrow> 10 * (n - c) + (case ap x c of Entering \<Rightarrow> 7 | InMain sp \<Rightarrow> 6 | _ \<Rightarrow> 5)
      | _ \<Rightarrow> 0)"

lemma smp_progress:
  assumes ready: "smp_ready v0 s0" and inv: "smp_inv b code v0 s0 x"
    and seq: "boot_ap_loop b code [0..<ncpu (bv_mp v0)] v0 s0 = Ret v s" and "bsp x \<noteq> Booted"
  shows "\<exists>y. smp_step b code x y \<and> smp_left (ncpu (bv_mp v0)) y < smp_left (ncpu (bv_mp v0)) x"
proof -
  let ?n = "ncpu (bv_mp v0)"
  have boots: "\<not> no_boot b code v0 s0 c" if "c < ?n" for c
    using boot_upto_mono [OF seq, of "Suc c"] that by (auto simp: no_boot_def)
  have go: ?thesis if "smp_step b code x y" "smp_left ?n y < smp_left ?n x" for y using that by blast
  show ?thesis
  proof (cases "bsp x")
    case (AtCpu c)
    with inv have c: "c \<le> ?n" "boot_ap_loop b code [0..<c] v0 s0 = Ret (sv x) (sk x)" by (simp_all add: smp_inv_def)
    from boot_upto_same [OF ready this] have n: "ncpu (bv_mp (sv x)) = ?n" by simp
    consider "c = ?n" | "c < ?n" "c = this_cpu (sk x)" | "c < ?n" "c \<noteq> this_cpu (sk x)" using c(1) by linarith
    then show ?thesis
    proof cases
      case 1
      with AtCpu n all_up [OF AtCpu] show ?thesis by (intro exI [of _ "x\<lparr>bsp := Booted\<rparr>"]) (simp add: smp_left_def)
    next
      case 2
      with skip_self [OF AtCpu] n AtCpu show ?thesis
        by (intro exI [of _ "x\<lparr>bsp := AtCpu (c + 1)\<rparr>"]) (simp add: smp_left_def)
    next
      case 3
      with tell_stack [OF AtCpu] n AtCpu show ?thesis
        by (intro exI [of _ "x\<lparr>bsp := Stacked c, sv := set_kstack b c (sv x)\<rparr>"]) (simp add: smp_left_def)
    qed
  next
    case (Stacked c)
    with inv obtain v1 where c: "c < ?n" "c \<noteq> this_cpu s0" "boot_ap_loop b code [0..<c] v0 s0 = Ret v1 (sk x)"
      "sv x = set_kstack b c v1" by (auto simp: smp_inv_def)
    from boots [OF c(1)] c(3) obtain u t where "boot_ap b code c v1 (sk x) = Ret u t"
      by (auto simp: no_boot_def boot_ap_loop_snoc)
    moreover have "this_cpu (sk x) = this_cpu s0" using boot_upto_same [OF ready less_imp_le [OF c(1)] c(3)] by simp
    ultimately obtain v' s' where "send_startup code c (sv x) (sk x) = Ret v' s'"
      using c(2,4) by (auto simp: boot_ap_def bindO_eq_Ret)
    note st = smp_step.startup [where b = b, OF Stacked this]
    have "ap x c = Off" using inv Stacked by (simp add: smp_inv_def others_up_def)
    then have "unat (cpu_id (cpus s' c)) = c"
      using smp_inv_step [OF ready inv st] by (auto simp: smp_inv_def fun_upd_def dest!: fun_cong [of _ _ c] split: if_splits)
    then show ?thesis using Stacked by (intro go [OF st]) (simp add: smp_left_def)
  next
    case (Waiting c)
    with inv have c: "c < ?n" "c \<noteq> this_cpu s0" "waiting_inv b code v0 s0 c (ap x c) (sv x) (sk x)" by (simp_all add: smp_inv_def)
    show ?thesis
    proof (cases "ap x c")
      case Entering
      then show ?thesis using Waiting by (intro go [OF smp_step.enter [OF Entering]]) (simp add: smp_left_def)
    next
      case (InMain sp)
      with c obtain u where u: "cpu_started b code v0 s0 c u (sk x)" "sv x = enter_kernel b c u" by auto
      from boots [OF c(1)] obtain v' s' where "boot_ap_loop b code [0..<Suc c] v0 s0 = Ret v' s'" by (auto simp: no_boot_def)
      then have "run_on c (mp_main_setup b) (sv x) (sk x) = Ret v' s'" using cpu_started_same(4) [OF ready c(1,2) u(1)] u(2) by metis
      then show ?thesis using Waiting InMain by (intro go [OF smp_step.set_up [OF InMain]]) (simp_all add: smp_left_def)
    next
      case (Up sp)
      then have "boot_ap_loop b code [0..<Suc c] v0 s0 = Ret (sv x) (sk x)" using c(3) by simp
      from boot_upto_same [OF ready _ this] c(1,2) have "cpu_status (cpus (sk x) c) = CPU_STARTED" by simp
      then show ?thesis using Waiting Up c(1) by (intro go [OF smp_step.seen [OF Waiting]]) (simp_all add: smp_left_def)
    next
      case Off
      then show ?thesis using c(3) by simp
    next
      case Crashed
      then show ?thesis using c(3) boots [OF c(1)] by simp
    qed
  next
    case Stopped
    then show ?thesis using inv boots by (auto simp: smp_inv_def)
  qed (use assms(4) in simp)
qed

lemma smp_reaches_Booted:
  assumes "smp_ready v0 s0" "boot_ap_loop b code [0..<ncpu (bv_mp v0)] v0 s0 = Ret v s" "smp_inv b code v0 s0 x"
  shows "\<exists>y. smp_reach b code x y \<and> bsp y = Booted \<and> smp_inv b code v0 s0 y"
  using assms(3)
proof (induction "smp_left (ncpu (bv_mp v0)) x" arbitrary: x rule: less_induct)
  case less
  show ?case
  proof (cases "bsp x = Booted")
    case False
    from smp_progress [OF assms(1) less.prems assms(2) this] obtain y where
      y: "smp_step b code x y" "smp_left (ncpu (bv_mp v0)) y < smp_left (ncpu (bv_mp v0)) x" by blast
    from less.hyps [OF y(2) smp_inv_step [OF assms(1) less.prems y(1)]] y(1) show ?thesis
      by (meson converse_rtranclp_into_rtranclp)
  qed (use less.prems in blast)
qed

lemma put_code_same [simp]: "cpus (put_code a code s) = cpus s" "this_cpu (put_code a code s) = this_cpu s"
proof -
  have "cpus (fold (\<lambda>k. wr_byte (g k) (h k) (f k)) ks s) = cpus s \<and> this_cpu (fold (\<lambda>k. wr_byte (g k) (h k) (f k)) ks s) = this_cpu s"
    for g h f and ks :: "nat list"
    by (induction ks arbitrary: s) simp_all
  then show "cpus (put_code a code s) = cpus s" "this_cpu (put_code a code s) = this_cpu s" by (simp_all add: put_code_def)
qed

lemma smp_ready_code: "smp_ready v (put_code a code s) = smp_ready v s"
  by (simp add: smp_ready_def)

text \<open>
  C39: The other CPUs never share a kernel stack. In every interleaving of the boot CPU in the loop of \<open>boot_aps\<close> and the
  CPUs it has woken up, a CPU that has read \<open>mpentry_kstack\<close> has read the top of its own stack, and at most one
  CPU is on its way from the STARTUP message to the announcement that it is up.
\<close>

theorem smp_own_stacks:
  assumes "smp_ready v0 s0" "smp_reach b code (smp_start v0 s0) x"
  shows "(ap x i = InMain sp \<or> ap x i = Up sp \<longrightarrow>
      i < ncpu (bv_mp v0) \<and> i \<noteq> this_cpu s0 \<and> sp = percpu_kstack (in_syms b) i + KSTKSIZE) \<and>
    (ap x i \<in> {Entering, InMain sp} \<and> ap x j \<in> {Entering, InMain sp'} \<longrightarrow> i = j)"
proof -
  note inv = smp_inv_reach [OF assms]
  have "sp = own_stack b i \<and> i < ncpu (bv_mp v0) \<and> i \<noteq> this_cpu s0" if "ap x i = InMain sp"
    using busy_cpu [OF inv, of i] that by simp
  moreover have "sp = own_stack b i \<and> i < ncpu (bv_mp v0) \<and> i \<noteq> this_cpu s0" if "ap x i = Up sp"
    using inv that by (auto simp: smp_inv_def others_up_def fun_upd_def split: bsp_pc.splits if_splits dest!: fun_cong [of _ _ i])
  moreover have "i = j" if "ap x i \<in> {Entering, InMain sp}" "ap x j \<in> {Entering, InMain sp'}"
    using busy_cpu(1) [OF inv, of i] busy_cpu(1) [OF inv, of j] that by auto
  ultimately show ?thesis by (auto simp: own_stack_def)
qed

text \<open>
  C40: \<open>boot_aps\<close> may be read as a sequential program in which each CPU is set up while the boot CPU waits for it. If the
  boot CPU gets through its loop in some interleaving, then the state is the one \<open>boot_aps\<close> computes, and all
  CPUs are up with their stacks. If \<open>boot_aps\<close> computes a state, then no interleaving can get stuck: from every state that can be
  reached the CPUs can go on to that one.
\<close>

theorem smp_boot_refines:
  assumes "smp_ready v0 s" "kaddr MPENTRY_PADDR s = Ret code s"
    and "smp_reach b code (smp_start v0 (put_code code (in_mpentry b) s)) x"
  shows "(bsp x = Booted \<longrightarrow> boot_aps b v0 s = Ret (sv x) (sk x) \<and>
      (\<forall>i<ncpu (bv_mp v0). i \<noteq> this_cpu s \<longrightarrow> cpu_status (cpus (sk x) i) = CPU_STARTED \<and>
        ap x i = Up (percpu_kstack (in_syms b) i + KSTKSIZE))) \<and>
    (boot_aps b v0 s = Ret v' s' \<longrightarrow> (\<exists>y. smp_reach b code x y \<and> bsp y = Booted \<and> sv y = v' \<and> sk y = s'))"
proof -
  let ?s = "put_code code (in_mpentry b) s"
  have ready: "smp_ready v0 ?s" using assms(1) by (simp add: smp_ready_code)
  have b: "boot_aps b v0 s = boot_ap_loop b code [0..<ncpu (bv_mp v0)] v0 ?s" by (simp add: boot_aps_def assms(2))
  note inv = smp_inv_reach [OF ready assms(3)]
  have booted: "boot_aps b v0 s = Ret (sv y) (sk y)" if "smp_inv b code v0 ?s y" "bsp y = Booted" for y
    using that by (simp add: smp_inv_def b)
  have "cpu_status (cpus (sk x) i) = CPU_STARTED \<and> ap x i = Up (percpu_kstack (in_syms b) i + KSTKSIZE)"
    if "bsp x = Booted" "i < ncpu (bv_mp v0)" "i \<noteq> this_cpu s" for i
    using boot_upto_same [OF ready order_refl booted [OF inv that(1), unfolded b]] inv that
    by (simp add: smp_inv_def others_up_def own_stack_def)
  moreover have "\<exists>y. smp_reach b code x y \<and> bsp y = Booted \<and> sv y = v' \<and> sk y = s'" if "boot_aps b v0 s = Ret v' s'"
    using smp_reaches_Booted [OF ready that [unfolded b] inv] booted that by fastforce
  ultimately show ?thesis using booted [OF inv] by simp
qed

section \<open>Witnesses\<close>

text \<open>A machine with two CPUs and no APIC, with the boot CPU in front of \<open>boot_aps\<close>.\<close>

definition duo_vars :: boot_vars where
  "duo_vars = \<lparr>bv_mp = mp_vars\<lparr>ncpu := 2\<rparr>, bv_tables = \<lparr>idt = (\<lambda>_. zero_gate), gdt = (\<lambda>_. SEG_NULL), task_reg = (\<lambda>_. 0)\<rparr>,
     bv_segs = (\<lambda>_. \<lparr>seg_gs = 0, seg_fs = 0, seg_es = 0, seg_ds = 0, seg_ss = 0, seg_cs = 0, seg_ldt = 0, gdtr = (0, 0)\<rparr>),
     cpu_cr3 = (\<lambda>_. 0), mpentry_kstack = 0\<rparr>"

definition duo_state :: kstate where
  "duo_state = bss_state\<lparr>npages := 1024, cpus := (\<lambda>i. zero_CpuInfo\<lparr>cpu_id := of_nat i\<rparr>)\<rparr>"

definition duo_input :: boot_input where
  "duo_input = \<lparr>in_syms = \<lparr>sym_kend = 0, sym_pages = 0, sym_bootstack = 0, sym_kstacks = 0xF0200000\<rparr>, in_cmos = (\<lambda>_. 0),
     in_cga = True, in_crt = (0, 0), in_lsr = 0, in_traps = (\<lambda>_. 0), in_ts_addr = (\<lambda>_. 0), in_gdt_pd = (0, 0),
     in_bios = (\<lambda>_. 0), in_imcr = 0, in_lapic_ver = 0, in_mpentry = [0xFA, 0x31], in_entry_pgdir = 5, in_pcs = [],
     in_user_yield = (\<lambda>_. 0)\<rparr>"

lemma duo_ready: "smp_ready duo_vars duo_state" "kaddr MPENTRY_PADDR duo_state = Ret 0xF0007000 duo_state"
  by (simp_all add: smp_ready_def duo_vars_def duo_state_def bss_state_def zero_CpuInfo_def mp_vars_def NCPU_def
      kaddr_def MPENTRY_PADDR_def KERNBASE_def PGNUM_def)

lemma duo_startup:
  assumes "this_cpu s = 0" "npages s = 1024" "cpus s = cpus duo_state"
  shows "\<exists>v' s'. send_startup 0xF0007000 (Suc 0) v s = Ret v' s' \<and> lapicaddr (bv_mp v') = lapicaddr (bv_mp v)"
  using assms
  by (simp add: send_startup_def lapic_startap_def lapicw_def paddr_def kaddr_def KERNBASE_def PGNUM_def Let_def)

lemma duo_setup:
  assumes "lapicaddr (bv_mp v) = 0"
  shows "\<exists>v' s'. run_on (Suc 0) (mp_main_setup duo_input) v s = Ret v' s'"
proof -
  have "formatted rd (nl (chars ''SMP: CPU %d starting'')) (\<lambda>i. if i < length [1] then [1] ! i else 0) =
      Ret () (map ucast (nl (chars ''SMP: CPU 1 starting'')))" for rd
    by (simp add: printf_eval nl_def, simp add: word_le_nat_alt)
  note p = cprintf_prints_and_returns_0 [OF this]
  show ?thesis using assms p
    by (simp add: run_on_def mp_main_setup_def lapic_init_def Let_def case_prod_beta lcr3_def cong: if_cong)
qed

abbreviation duo_loaded :: kstate where "duo_loaded \<equiv> put_code 0xF0007000 (in_mpentry duo_input) duo_state"

lemma duo_loaded_facts: "this_cpu duo_loaded = 0" "npages duo_loaded = 1024" "cpus duo_loaded = cpus duo_state"
  "ncpu (bv_mp duo_vars) = 2" "lapicaddr (bv_mp duo_vars) = 0"
  by (simp_all add: put_code_def duo_input_def) (simp_all add: duo_state_def bss_state_def duo_vars_def mp_vars_def)

lemma duo_boots: "\<exists>v' s'. boot_aps duo_input duo_vars duo_state = Ret v' s'"
proof -
  let ?v = "set_kstack duo_input 1 duo_vars"
  obtain v1 s1 where s1: "send_startup 0xF0007000 1 ?v duo_loaded = Ret v1 s1" "lapicaddr (bv_mp v1) = lapicaddr (bv_mp ?v)"
    using duo_startup [of duo_loaded ?v] duo_loaded_facts(1-3) by auto
  then have "lapicaddr (bv_mp (enter_kernel duo_input 1 v1)) = 0"
    using duo_loaded_facts(5) by (simp add: set_kstack_def enter_kernel_def)
  from duo_setup [OF this, of s1] obtain v2 s2 where
    s2: "run_on 1 (mp_main_setup duo_input) (enter_kernel duo_input 1 v1) s1 = Ret v2 s2" by auto
  have id: "cpu_id (cpus duo_loaded 1) = of_nat 1"
    unfolding duo_loaded_facts(3) by (simp add: duo_state_def)
  have "boot_ap duo_input 0xF0007000 1 duo_vars duo_loaded = Ret v2 s2"
    using boot_ap_other [OF _ id] duo_loaded_facts(1) s1(1) s2 by (simp add: NCPU_def)
  moreover have "boot_ap duo_input 0xF0007000 0 duo_vars duo_loaded = Ret duo_vars duo_loaded"
    using duo_loaded_facts(1) by (simp add: boot_ap_def)
  ultimately show ?thesis
    by (simp add: boot_aps_def duo_ready(2) duo_loaded_facts(4) upt_rec)
qed

theorem smp_boot_refines_witness:
  "\<exists>y. smp_reach duo_input 0xF0007000 (smp_start duo_vars duo_loaded) y \<and> bsp y = Booted \<and>
     boot_aps duo_input duo_vars duo_state = Ret (sv y) (sk y) \<and> ap y 1 = Up 0xF0210000"
proof -
  from duo_boots obtain v' s' where b: "boot_aps duo_input duo_vars duo_state = Ret v' s'" by blast
  note r = smp_boot_refines [OF duo_ready(1) duo_ready(2), of duo_input]
  from r [of "smp_start duo_vars duo_loaded" v' s'] b obtain y where
    y: "smp_reach duo_input 0xF0007000 (smp_start duo_vars duo_loaded) y" "bsp y = Booted" by auto
  have "percpu_kstack (in_syms duo_input) 1 + KSTKSIZE = 0xF0210000"
    by (simp add: duo_input_def percpu_kstack_def KSTKSIZE_def PGSIZE_def)
  moreover have "this_cpu duo_state = 0" by (simp add: duo_state_def bss_state_def)
  ultimately show ?thesis using r [OF y(1)] y duo_loaded_facts(4) by auto
qed

lemma four_steps: "r a b \<Longrightarrow> r b c \<Longrightarrow> r c d \<Longrightarrow> r d e \<Longrightarrow> r\<^sup>*\<^sup>* a e"
  by (meson converse_rtranclp_into_rtranclp rtranclp.rtrancl_refl)

theorem smp_own_stacks_witness:
  "\<exists>x. smp_reach duo_input 0xF0007000 (smp_start duo_vars duo_loaded) x \<and> ap x 1 = InMain 0xF0210000"
proof -
  let ?x0 = "smp_start duo_vars duo_loaded" and ?v = "set_kstack duo_input 1 duo_vars"
  let ?x1 = "?x0\<lparr>bsp := AtCpu (0 + 1)\<rparr>"
  let ?x2 = "?x1\<lparr>bsp := Stacked 1, sv := ?v\<rparr>"
  obtain v1 s1 where s1: "send_startup 0xF0007000 1 ?v duo_loaded = Ret v1 s1"
    using duo_startup [of duo_loaded ?v] duo_loaded_facts(1-3) by auto
  have "cpus s1 = cpus duo_state" using send_startup_same(1) [OF s1] duo_loaded_facts(3) by simp
  then have "unat (cpu_id (cpus s1 1)) = 1" by (simp add: duo_state_def)
  then have st2: "smp_step duo_input 0xF0007000 ?x2 (?x2\<lparr>bsp := Waiting 1, sv := v1, sk := s1, ap := (ap ?x2)(1 := Entering)\<rparr>)"
    using smp_step.startup [of ?x2 1 "0xF0007000" v1 s1 duo_input] s1 by simp
  have st0: "smp_step duo_input 0xF0007000 ?x0 ?x1" and st1: "smp_step duo_input 0xF0007000 ?x1 ?x2"
    using smp_step.skip_self [of ?x0 0] smp_step.tell_stack [of ?x1 1] duo_loaded_facts(1,4) by auto
  let ?x3 = "?x2\<lparr>bsp := Waiting 1, sv := v1, sk := s1, ap := (ap ?x2)(1 := Entering)\<rparr>"
  define x where "x = ?x3\<lparr>ap := (ap ?x3)(1 := InMain (mpentry_kstack v1)), sv := enter_kernel duo_input 1 v1\<rparr>"
  have st3: "smp_step duo_input 0xF0007000 ?x3 x" using smp_step.enter [of ?x3 1] by (simp add: x_def)
  have r: "smp_reach duo_input 0xF0007000 ?x0 x"
    using four_steps [of "smp_step duo_input 0xF0007000" ?x0 ?x1 ?x2 ?x3 x, OF st0 st1 st2 st3] .
  have a: "ap x 1 = InMain (mpentry_kstack v1)" by (simp add: x_def)
  have "smp_ready duo_vars duo_loaded" using duo_ready(1) by (simp add: smp_ready_code)
  from smp_own_stacks [OF this r, of 1 "mpentry_kstack v1" 1 0] a
  have "mpentry_kstack v1 = percpu_kstack (in_syms duo_input) 1 + KSTKSIZE" by blast
  also have "\<dots> = 0xF0210000" by (simp add: duo_input_def percpu_kstack_def KSTKSIZE_def PGSIZE_def)
  finally show ?thesis using r a by metis
qed

end
