(* ===== verification/Spec2Isabelle.thy ===== *)
theory Spec2Isabelle
  imports Jos_Ulib Jos_Load Jos_Runs Jos_Boot Jos_Init
begin

text \<open>
  A verification development for the JOS kernel and its user library, as they stand in
  \<open>jos-lab4\<close> (the other directories, \<open>jos-lab1\<close> to \<open>jos-lab3\<close> and \<open>jos-main\<close>, hold earlier states of
  the same files).

  The program. JOS is an exokernel for 32-bit x86 machines with up to eight CPUs. The boot loader
  loads the kernel, which detects the memory, builds the list of free page frames and the address
  space of the kernel, finds the other CPUs, and then runs environments (processes). An environment
  enters the kernel by a trap: a system call, a page fault, an interrupt of the clock. It does so with
  interrupts off and under one lock, so the kernel proper is sequential, and each handler ends in the
  return to an environment, in the scheduler, or in a panic. Programs build processes of their own
  from the system calls: \<open>fork\<close> with copy on write is a library function, as is the handling of page
  faults and the sending of messages.

  How the code is translated. \<open>kstate\<close> (Jos_Machine) is the state of the kernel: the variables of
  the C files as fields, the arrays \<open>pages\<close>, \<open>envs\<close> and \<open>cpus\<close> as functions from indices, pointers into
  them as indices, and physical memory (\<open>kmem\<close>) as words by frame number and index, which holds page tables
  and data alike. A \<open>struct\<close> is a record, an \<open>enum\<close> a datatype, machine integers are words that wrap
  around (\<open>u8\<close>, \<open>u16\<close>, \<open>u32\<close>), and the results of system calls are integers with the negative error codes of inc/error.h. A
  function of the kernel has an outcome (Jos_Base): \<open>Ret\<close> its value in the new state, \<open>Panic\<close>, or \<open>Leave\<close> if
  control leaves the kernel for good (to an environment, into the idle loop). \<open>bindO\<close> is
  sequencing, \<open>forO\<close> iteration. Assertions and panics of the code are \<open>Panic\<close>. Loops are structural
  recursion over the rounds that are left, or recursion with a measure; those that only input or
  another CPU ends are partial functions or have an explicit bound, see below.

  The theories, from the bottom up.

    \<^item> Jos_Base: words, outcomes, linked lists in arrays, the interface \<open>free_list\<close> of an intrusive free
      list. Jos_Mmu: addresses, page table flags, the memory layout (inc/mmu.h, inc/memlayout.h,
      inc/types.h). Jos_Machine: the data of the kernel. Jos_Memory: bytes in frames, access through
      virtual addresses, iteration, ELF headers (inc/elf.h).
    \<^item> Jos_Spinlock (kern/spinlock.c): the lock as sequential operations and as a step relation for
      any interleaving of the CPUs; mutual exclusion and the progress of spinning CPUs by rule induction.
    \<^item> Jos_PageAlloc (kern/pmap.c): memory detection, the boot allocator, \<open>page_init\<close> and the reference
      counted page allocator, which interprets \<open>free_list\<close>; the free list invariant and the exact set
      of free frames at boot.
    \<^item> Jos_PageTable (kern/pmap.c): walking and editing two-level page tables, the TLB, regions of
      devices, the check of user pointers. Jos_AddrSpace states what these operations promise: a set
      of page directories is a family of partial maps \<open>aspace\<close> from user pages to frames, and \<open>page_insert\<close>
      and \<open>page_remove\<close> implement update and removal in one of them while all others stay the same.
    \<^item> Jos_KernMap (kern/pmap.c): the address space of the kernel that \<open>mem_init\<close> and \<open>mem_init_mp\<close> build
      from \<open>boot_map_region\<close>, refined by the memory map of inc/memlayout.h as a function
      (\<open>kernel_space\<close>), its protection, and the self-test \<open>check_kern_pgdir\<close>.
    \<^item> Jos_Env (kern/env.c): identifiers, environment slots (also a \<open>free_list\<close>), address spaces of
      environments, loading a program, the switch to user mode. Jos_Sched (kern/sched.c): the choice of the
      next environment; no environment runs on two CPUs.
    \<^item> Jos_Load (kern/env.c): the memory of a program as a partial map from addresses to bytes; \<open>env_create\<close>
      refines the image of its ELF file.
    \<^item> Jos_Console (kern/console.c, kern/picirq.c), Jos_Printf (lib/printfmt.c, kern/printf.c, lib/printf.c):
      the input ring buffer with its two drivers as a queue that keeps 511 characters and drops them
      all when one more arrives, the text screen, formatted output with its three sinks
      as interpretations of the locale \<open>sink_hom\<close>. Jos_String (lib/string.c): the string routines on a
      flat memory of bytes.
    \<^item> Jos_Syscall (kern/syscall.c): every system call, the checks of the rights of the caller, the effect
      on address spaces. Jos_Trap (kern/trap.c): descriptor tables, the dispatch of traps, the page
      fault frames on the exception stack, the return to user mode.
    \<^item> Jos_Kernel, Jos_Calls and Jos_Runs: the invariant of the whole kernel, which ties the environments, the
      address spaces, the free lists and the CPUs together (\<open>kernel_ok\<close>, \<open>resting\<close>); every system call keeps
      it and none panics, provided the call meets the conditions of \<open>legal_syscall\<close> that the code does not check; and
      the machine as a step relation (\<open>machine_step\<close>), where programs write to their pages and trap on any CPU, the
      clock wakes halted CPUs, and a CPU that has been started enters the scheduler. Isolation holds in every reachable
      state as long as the system calls are legal; \<open>set_status_two_cpus\<close> and \<open>env_destroy_frees_running\<close> show two ways
      in which calls that are not can break it.
    \<^item> Jos_Ulib (lib/syscall.c, lib/fork.c, lib/pgfault.c, lib/ipc.c and others): programs as functions
      on the state of the kernel; \<open>fork\<close>, the page fault handler, messages.
    \<^item> Jos_Kdebug (kern/kdebug.c), Jos_Monitor (kern/monitor.c, lib/readline.c): debug information and the kernel monitor,
      with the line editor as a refinement of editing a bounded line (locale \<open>typed_input\<close>).
    \<^item> Jos_Mp (kern/mpconfig.c, kern/lapic.c): the tables of the BIOS and the local APIC.
    \<^item> Jos_Selftest and Jos_MemInit (kern/pmap.c): the self-tests \<open>check_page_free_list\<close>, \<open>check_page_alloc\<close>,
      \<open>check_page\<close> and \<open>check_page_installed_pgdir\<close> as functions that move the state, with all their
      assertions, and \<open>mem_init\<close> as their composition; a machine with enough memory passes all of them.
    \<^item> Jos_Boot (boot/main.c, kern/entrypgdir.c): the boot loader on a flat memory, and the page tables
      the kernel starts on.
    \<^item> Jos_Init (kern/init.c, kern/kclock.c): the start of the kernel; the start of the other CPUs as a
      function and as a step relation between the first CPU and the one it waits for, where every CPU
      is shown to start on a stack of its own; panics.

  What the lemmas show. The operations of a component are related to an abstract
  state: the list of free frames, the address spaces, a queue of characters, the words of a line. For each operation there is a
  lemma for every outcome, errors included, under an invariant the operations preserve
  (\<open>free_pages_ok\<close>, \<open>vm_ok\<close>, \<open>free_envs_ok\<close>, \<open>dir_ok\<close>); system calls and traps compose them. A claim
  that an operation succeeds says when it does, by the length of the list of free frames and the page tables that
  are missing. Where the code does not do what its comments say, a lemma of its own states what it does
  (\<open>user_mem_check_rejects_page_boundary\<close>, \<open>sched_yield_skips_third\<close>, \<open>sys_page_alloc_loses_frame\<close>,
  \<open>ipc_send_raises_rights\<close>, \<open>check_kern_pgdir_result\<close>, \<open>utf_address_nests\<close>, \<open>cons_buffer_overflow_loses_all\<close> and others), and
  the claims about these operations say which case they leave out.

  Hardware and what else is not in the sources are parameters: the bytes of the CMOS clock (\<open>cmos\<close>),
  what arrives at the devices between two polls (\<open>arrive\<close>; \<open>input_arrives\<close> is a user who types on the serial line and the
  keyboard), registers of the APIC that are read, the
  addresses the linker chooses (\<open>bootsyms\<close>, \<open>ksyms\<close>), the tables of the BIOS and of debug information as
  contents of memory, and the ports of the disk controller; \<open>ata_disk\<close> states what the loader relies on, that a
  read command makes the sector available at the data port, and \<open>ready_disk\<close> is a disk that does so.

  Bounds. A loop over a string without a limit is cut off after \<open>2 ^ 32\<close> rounds (\<open>str_loop\<close>), when the address
  has come back to where it started; the loops over input (\<open>cons_intr_loop\<close>) have as fuel the number
  of bytes that wait at the UART and the keyboard plus one, and \<open>cons_getc_terminates\<close> shows that this is enough.
  Partial functions (\<open>readline_loop\<close>, \<open>monitor_loop\<close>, \<open>strlen\<close> and others) are \<open>None\<close> exactly if the loop of
  the code does not end; where a property claims a result it is shown that they return.

  Not modelled: the assembly files (boot/boot.S, kern/entry.S, kern/trapentry.S, kern/mpentry.S,
  lib/entry.S, lib/pfentry.S), which need a model of the instruction set; of kern/mpentry.S only the loads of CR3 and
  of the stack pointer appear, as a step of a starting CPU. The bits of CR0 appear only as the value
  \<open>mem_init_cr0\<close>. The arrays \<open>pages\<close> and \<open>envs\<close> are fields of the state and not bytes of the frames that
  \<open>boot_alloc\<close> reserves for them; the frames are reserved all the same. Some messages of the kernel to the console
  (on the creation and the end of an environment, and while memory is set up) are left out. Neither are the user programs
  under user/, which are tests of the system calls, the tools in Python and Perl, and the copies of
  earlier labs. The TLB is a log of flushes, interrupts arrive only in user mode (the kernel runs with interrupts
  off), and the other CPUs are seen by the kernel proper only through the lock.
\<close>

end
